(* ===== verification/Acqua_Prelude.thy ===== *)
theory Acqua_Prelude
  imports Main "HOL-Library.Word"
begin

text \<open>
  Shared vocabulary of the development: the fixed-width integers of the C++ code, the
  ways in which an operation can leave defined behaviour, and the positional value of
  a byte sequence (the abstraction function of every address and of every multi-byte
  field), with the arithmetic facts the components use.
\<close>

unbundle bit_operations_syntax

named_theorems byte_simps \<open>facts on single bytes and their numeric value\<close>
named_theorems value_simps \<open>positional value of byte sequences\<close>

type_synonym byte = "8 word"
type_synonym u16 = "16 word"
type_synonym u32 = "32 word"
type_synonym u64 = "64 word"

section \<open>Undefined behaviour and error codes\<close>

text \<open>
  What the C++ standard leaves undefined is a value of the model: an operation that may
  reach it returns a sum whose left side names the offence.
\<close>

datatype ub = Array_Overrun | Signed_Overflow | Shift_Overflow

text \<open>The error codes that the library reports, by their \<open>boost::system::errc\<close> name.\<close>

datatype errc = address_family_not_supported | invalid_argument

section \<open>Positional value of byte sequences\<close>

fun le_val :: "byte list \<Rightarrow> nat" where
  "le_val [] = 0"
| "le_val (b # bs) = unat b + 256 * le_val bs"

definition be_val :: "byte list \<Rightarrow> nat" where
  "be_val bs = le_val (rev bs)"

lemma unat_byte_less [simp, byte_simps]: "unat (b :: byte) < 256"
proof -
  have "unat b < 2 ^ LENGTH(8)" by (rule unsigned_less)
  then show ?thesis by simp
qed

lemma unat_less_pow [byte_simps]: "unat (w :: 'a :: len word) < 2 ^ LENGTH('a)"
  by (rule unsigned_less)

lemma unat_ucast_mod [byte_simps]:
  "unat (ucast (w :: 'a :: len word) :: 'b :: len word) = unat w mod 2 ^ LENGTH('b)"
  by (simp add: unsigned_ucast_eq take_bit_eq_mod)

lemma unat_ucast_byte [simp, byte_simps]:
  "8 \<le> LENGTH('b) \<Longrightarrow> unat (ucast (b :: byte) :: 'b :: len word) = unat b"
proof -
  assume "8 \<le> LENGTH('b)"
  then have "(2 :: nat) ^ 8 \<le> 2 ^ LENGTH('b)" by (rule power_increasing) simp
  then have "unat b < 2 ^ LENGTH('b)"
    using unat_byte_less [of b] by (simp del: unat_byte_less)
  then show ?thesis by (simp add: unat_ucast_mod)
qed

lemma unat_drop_bit [byte_simps]: "unat (drop_bit k w) = unat w div 2 ^ k"
  by (subst unat_drop_bit_eq) (rule drop_bit_eq_div)

lemma le_val_less [value_simps]: "le_val bs < 256 ^ length bs"
proof (induction bs)
  case Nil
  show ?case by simp
next
  case (Cons b bs)
  have "unat b + 256 * le_val bs < 256 + 256 * le_val bs" by simp
  also have "\<dots> \<le> 256 * 256 ^ length bs"
    using Cons.IH by (simp flip: mult_Suc_right)
  finally show ?case by simp
qed

lemma be_val_less [value_simps]: "be_val bs < 256 ^ length bs"
  using le_val_less [of "rev bs"] by (simp add: be_val_def)

lemma le_val_append [value_simps]:
  "le_val (xs @ ys) = le_val xs + 256 ^ length xs * le_val ys"
  by (induction xs) (simp_all add: algebra_simps)

lemma be_val_Nil [simp]: "be_val [] = 0"
  by (simp add: be_val_def)

lemma be_val_snoc [value_simps]: "be_val (bs @ [b]) = 256 * be_val bs + unat b"
  by (simp add: be_val_def)

lemma be_val_Cons [value_simps]: "be_val (b # bs) = unat b * 256 ^ length bs + be_val bs"
  by (simp add: be_val_def le_val_append)

lemma be_val_append [value_simps]:
  "be_val (xs @ ys) = be_val xs * 256 ^ length ys + be_val ys"
  by (simp add: be_val_def le_val_append)

lemma digits_256_unique:
  fixes a b x y :: nat
  assumes "a < 256" "b < 256"
  shows "a + 256 * x = b + 256 * y \<longleftrightarrow> a = b \<and> x = y"
proof
  assume eq: "a + 256 * x = b + 256 * y"
  then have "(a + 256 * x) mod 256 = (b + 256 * y) mod 256" by simp
  then have "a = b" using assms by simp
  with eq show "a = b \<and> x = y" by simp
qed simp

lemma le_val_inject:
  "length xs = length ys \<Longrightarrow> le_val xs = le_val ys \<longleftrightarrow> xs = ys"
proof (induction xs ys rule: list_induct2)
  case Nil
  show ?case by simp
next
  case (Cons x xs y ys)
  have "unat x + 256 * le_val xs = unat y + 256 * le_val ys
        \<longleftrightarrow> unat x = unat y \<and> le_val xs = le_val ys"
    using digits_256_unique [of "unat x" "unat y" "le_val xs" "le_val ys"] by simp
  with Cons.IH show ?case by (auto simp: word_unat_eq_iff)
qed

lemma be_val_inject:
  "length xs = length ys \<Longrightarrow> be_val xs = be_val ys \<longleftrightarrow> xs = ys"
  by (simp add: be_val_def le_val_inject)

section \<open>Shared arithmetic\<close>

lemma mod_digit_nat:
  fixes x y m :: nat
  assumes "x < 256"
  shows "(x + 256 * y) mod (256 * m) = x + 256 * (y mod m)"
proof (cases "m = 0")
  case False
  have "x + 256 * (y mod m) < 256 * m"
  proof -
    have "y mod m + 1 \<le> m" using False by (simp add: Suc_leI)
    then have "256 * (y mod m) + 256 \<le> 256 * m" by (metis distrib_left mult.right_neutral mult_le_mono2)
    with assms show ?thesis by linarith
  qed
  then have "(x + 256 * (y mod m)) mod (256 * m) = x + 256 * (y mod m)" by simp
  moreover have "(x + 256 * (y mod m)) mod (256 * m) = (x + 256 * y) mod (256 * m)"
    by (metis mod_add_right_eq mult_mod_right)
  ultimately show ?thesis by simp
qed simp

lemma mod_digit_int:
  fixes x y m :: int
  assumes "0 \<le> x" "x < 256" "0 < m"
  shows "(x + 256 * y) mod (256 * m) = x + 256 * (y mod m)"
proof -
  have "y mod m + 1 \<le> m" using assms by (simp add: add1_zle_eq)
  moreover have "0 \<le> y mod m" using assms by simp
  ultimately have "x + 256 * (y mod m) < 256 * m" "0 \<le> x + 256 * (y mod m)"
    using assms by linarith+
  then have "(x + 256 * (y mod m)) mod (256 * m) = x + 256 * (y mod m)" by simp
  moreover have "(x + 256 * (y mod m)) mod (256 * m) = (x + 256 * y) mod (256 * m)"
    by (metis mod_add_right_eq mult_mod_right)
  ultimately show ?thesis by simp
qed

text \<open>Bytes are equal when their eight bits are.\<close>

lemma byte_eqI:
  fixes v w :: byte
  assumes "bit v 0 = bit w 0" "bit v 1 = bit w 1" "bit v 2 = bit w 2" "bit v 3 = bit w 3"
    "bit v 4 = bit w 4" "bit v 5 = bit w 5" "bit v 6 = bit w 6" "bit v 7 = bit w 7"
  shows "v = w"
proof (rule bit_word_eqI)
  fix n assume "n < LENGTH(8)"
  then have "n \<in> {0, 1, 2, 3, 4, 5, 6, 7}" by auto
  then show "bit v n = bit w n" using assms by auto
qed

end
