(* ===== verification/Address_Impl.thy ===== *)
theory Address_Impl
  imports Acqua_Prelude
begin

text \<open>
  The byte-array algorithms that all address classes share
  (\<^verbatim>\<open>network/detail/address_impl.hpp\<close>, struct \<open>address_impl_base\<close>): netmask recognition,
  increment, decrement, addition and subtraction of a signed 64-bit offset, and the
  length of a netmask. An array \<open>std::array<unsigned char, N>\<close> is a byte list of
  length \<open>N\<close>, most significant byte first; a loop from \<open>rbegin()\<close> runs over the
  reversed list. The abstraction function is \<open>be_val\<close>.
\<close>

section \<open>The loops\<close>

text \<open>The \<open>switch\<close> of \<open>in_mask\<close>: the bytes after a partial mask byte must sum to 0.\<close>

definition partial_mask_bytes :: "byte list" where
  "partial_mask_bytes = [0x00, 0x80, 0xC0, 0xE0, 0xF0, 0xF8, 0xFC, 0xFE]"

fun in_mask_loop :: "byte list \<Rightarrow> bool" where
  "in_mask_loop [] = True"
| "in_mask_loop (b # bs) =
     (if b \<in> set partial_mask_bytes then sum_list (map unat bs) = 0
      else if b = 0xFF then in_mask_loop bs
      else False)"

fun in_mask :: "byte list \<Rightarrow> bool" where
  "in_mask [] = True"
| "in_mask (b # bs) = (if b = 0 then False else in_mask_loop (b # bs))"

fun incr_loop :: "byte list \<Rightarrow> byte list" where
  "incr_loop [] = []"
| "incr_loop (b # bs) = (let b' = b + 1 in if b' = 0x00 then b' # incr_loop bs else b' # bs)"

definition incr :: "byte list \<Rightarrow> byte list" where
  "incr bytes = rev (incr_loop (rev bytes))"

fun decr_loop :: "byte list \<Rightarrow> byte list" where
  "decr_loop [] = []"
| "decr_loop (b # bs) = (let b' = b - 1 in if b' = 0xFF then b' # decr_loop bs else b' # bs)"

definition decr :: "byte list \<Rightarrow> byte list" where
  "decr bytes = rev (decr_loop (rev bytes))"

text \<open>
  The carry loops. \<open>num >>= 8\<close> on a signed operand rounds towards minus infinity, as
  \<open>div\<close> does; the conversion to \<open>std::uint8_t\<close> keeps the low byte.
\<close>

fun add_loop :: "byte list \<Rightarrow> int \<Rightarrow> byte list" where
  "add_loop [] num = []"
| "add_loop (b # bs) num =
     (if num = 0 then b # bs
      else let rhs = (word_of_int num :: byte); b' = b + rhs;
               num' = num div 256 + (if b' < rhs then 1 else 0)
           in b' # add_loop bs num')"

fun sub_loop :: "byte list \<Rightarrow> int \<Rightarrow> byte list" where
  "sub_loop [] num = []"
| "sub_loop (b # bs) num =
     (if num = 0 then b # bs
      else let lhs = b; rhs = (word_of_int num :: byte);
               num' = num div 256 + (if lhs < rhs then 1 else 0)
           in (b - rhs) # sub_loop bs num')"

text \<open>
  The two functions call each other on the negated offset when it is negative and then
  go on with their own loop on the unchanged, negative \<open>num\<close>: there is no
  \<open>return\<close> after the inner call. The negation of the least \<open>std::ptrdiff_t\<close> is a
  signed overflow. The inner call has a positive argument, so it never calls back.
\<close>

definition ptrdiff_min :: int where
  "ptrdiff_min = - (2 ^ 63)"

definition ptrdiff_max :: int where
  "ptrdiff_max = 2 ^ 63 - 1"

definition add :: "byte list \<Rightarrow> int \<Rightarrow> ub + byte list" where
  "add bytes num =
     (if num = ptrdiff_min then Inl Signed_Overflow
      else let bytes' = (if num < 0 then rev (sub_loop (rev bytes) (- num)) else bytes)
           in Inr (rev (add_loop (rev bytes') num)))"

definition sub :: "byte list \<Rightarrow> int \<Rightarrow> ub + byte list" where
  "sub bytes num =
     (if num = ptrdiff_min then Inl Signed_Overflow
      else let bytes' = (if num < 0 then rev (add_loop (rev bytes) (- num)) else bytes)
           in Inr (rev (sub_loop (rev bytes') num)))"

text \<open>\<open>leading_ones ch i\<close> is the inner loop of \<open>netmask_length\<close>, from bit \<open>i\<close> down to bit 1.\<close>

fun leading_ones :: "byte \<Rightarrow> nat \<Rightarrow> nat" where
  "leading_ones ch 0 = 0"
| "leading_ones ch (Suc i) =
     (if ch AND push_bit (Suc i) 0x01 \<noteq> 0 then Suc (leading_ones ch i) else 0)"

fun netmask_length :: "byte list \<Rightarrow> nat" where
  "netmask_length [] = 0"
| "netmask_length (ch # bytes) =
     (if ch = 0xFF then 8 else leading_ones ch 7) + netmask_length bytes"

text \<open>\<open>operator<\<close> of \<open>std::array\<close>: lexicographic comparison of unsigned bytes.\<close>

fun bytes_less :: "byte list \<Rightarrow> byte list \<Rightarrow> bool" where
  "bytes_less _ [] = False"
| "bytes_less [] (_ # _) = True"
| "bytes_less (x # xs) (y # ys) = (x < y \<or> (\<not> y < x \<and> bytes_less xs ys))"

section \<open>Increment and decrement\<close>

lemma length_incr_loop [simp]: "length (incr_loop bs) = length bs"
  by (induction bs) (simp_all add: Let_def)

lemma length_decr_loop [simp]: "length (decr_loop bs) = length bs"
  by (induction bs) (simp_all add: Let_def)

lemma length_add_loop [simp]: "length (add_loop bs num) = length bs"
  by (induction bs arbitrary: num) (simp_all add: Let_def)

lemma length_sub_loop [simp]: "length (sub_loop bs num) = length bs"
  by (induction bs arbitrary: num) (simp_all add: Let_def)

lemma length_incr [simp]: "length (incr bs) = length bs"
  by (simp add: incr_def)

lemma length_decr [simp]: "length (decr bs) = length bs"
  by (simp add: decr_def)

lemma incr_byte_cases:
  "(b + 1 = (0 :: byte) \<and> unat b = 255) \<or> (b + 1 \<noteq> 0 \<and> unat (b + 1) = unat b + 1 \<and> unat b < 255)"
proof (cases "unat b = 255")
  case True
  then show ?thesis by (simp add: word_unat_eq_iff unat_word_ariths)
next
  case False
  then have "unat b < 255" using unat_byte_less [of b] by linarith
  then show ?thesis by (simp add: word_unat_eq_iff unat_word_ariths)
qed

lemma decr_byte_cases:
  "(b - 1 = (255 :: byte) \<and> unat b = 0) \<or> (b - 1 \<noteq> 255 \<and> unat b = unat (b - 1) + 1)"
  using incr_byte_cases [of "b - 1"] by (auto simp: word_unat_eq_iff)

lemma le_val_incr_loop: "le_val (incr_loop bs) = (le_val bs + 1) mod 256 ^ length bs"
proof (induction bs)
  case (Cons b bs)
  from incr_byte_cases [of b] show ?case
  proof
    assume "b + 1 = 0 \<and> unat b = 255"
    then show ?thesis
      using mod_digit_nat [of 0 "le_val bs + 1" "256 ^ length bs"]
      by (simp add: Let_def Cons.IH algebra_simps)
  next
    assume b: "b + 1 \<noteq> 0 \<and> unat (b + 1) = unat b + 1 \<and> unat b < 255"
    moreover have "unat b + 1 + 256 * le_val bs < 256 * 256 ^ length bs"
      using le_val_less [of "(b + 1) # bs"] b by simp
    ultimately show ?thesis by (simp add: Let_def)
  qed
qed simp

text \<open>The predecessor is the value plus \<open>256 ^ n - 1\<close>, modulo \<open>256 ^ n\<close>.\<close>

lemma le_val_decr_loop:
  "(le_val (decr_loop bs) + 1) mod 256 ^ length bs = le_val bs mod 256 ^ length bs"
proof (induction bs)
  case (Cons b bs)
  from decr_byte_cases [of b] show ?case
  proof
    assume b: "b - 1 = 255 \<and> unat b = 0"
    have "(le_val (decr_loop (b # bs)) + 1) mod 256 ^ length (b # bs)
          = (0 + 256 * (le_val (decr_loop bs) + 1)) mod (256 * 256 ^ length bs)"
      using b by (simp add: Let_def)
    also have "\<dots> = 0 + 256 * ((le_val (decr_loop bs) + 1) mod 256 ^ length bs)"
      by (rule mod_digit_nat) simp
    also have "\<dots> = 256 * (le_val bs mod 256 ^ length bs)"
      by (simp only: Cons.IH add_0)
    also have "\<dots> = le_val (b # bs) mod 256 ^ length (b # bs)"
      using b by (simp only: mult_mod_right le_val.simps add_0 length_Cons power_Suc)
    finally show ?thesis .
  next
    assume "b - 1 \<noteq> 255 \<and> unat b = unat (b - 1) + 1"
    then show ?thesis by (simp add: Let_def)
  qed
qed simp

lemma be_val_incr: "be_val (incr bs) = (be_val bs + 1) mod 256 ^ length bs"
  by (simp add: be_val_def incr_def le_val_incr_loop)

lemma be_val_decr: "(be_val (decr bs) + 1) mod 256 ^ length bs = be_val bs"
  using le_val_decr_loop [of "rev bs"] le_val_less [of "rev bs"]
  by (simp add: be_val_def decr_def)

section \<open>Addition and subtraction of an offset\<close>

text \<open>One step of the addition loop as a full adder on digits of base 256.\<close>

lemma add_digit:
  fixes b :: byte and num :: int
  defines "rhs \<equiv> word_of_int num"
  shows "uint b + num mod 256 = uint (b + rhs) + 256 * (if b + rhs < rhs then 1 else 0)"
proof -
  have r: "uint rhs = num mod 256" by (simp add: rhs_def uint_word_of_int)
  have "uint b < 256" "uint rhs < 256" "0 \<le> uint b" "0 \<le> uint rhs"
    using uint_lt2p [of b] uint_lt2p [of rhs] by simp_all
  then show ?thesis
    by (simp add: r [symmetric] uint_plus_if' word_less_def)
qed

lemma sub_digit:
  fixes b :: byte and num :: int
  defines "rhs \<equiv> word_of_int num"
  shows "uint b - num mod 256 = uint (b - rhs) - 256 * (if b < rhs then 1 else 0)"
proof -
  have r: "uint rhs = num mod 256" by (simp add: rhs_def uint_word_of_int)
  have "uint b < 256" "uint rhs < 256" "0 \<le> uint b" "0 \<le> uint rhs"
    using uint_lt2p [of b] uint_lt2p [of rhs] by simp_all
  then show ?thesis
    by (simp add: r [symmetric] uint_sub_if' word_less_def)
qed

lemma int_le_val_Cons: "int (le_val (b # bs)) = uint b + 256 * int (le_val bs)"
  by simp

lemma int_le_val_mod: "int (le_val bs) mod 256 ^ length bs = int (le_val bs)"
  using le_val_less [of bs] by (metis of_nat_0_le_iff of_nat_less_iff of_nat_numeral of_nat_power mod_pos_pos_trivial)

lemma uint_byte_bounds [simp, byte_simps]: "0 \<le> uint (b :: byte)" "uint (b :: byte) < 256"
  using uint_lt2p [of b] by simp_all

lemma carry_sum:
  fixes x y q r c l n :: int
  assumes "x + r = y + 256 * c" "256 * q + r = n"
  shows "y + 256 * (l + (q + c)) = x + 256 * l + n"
  using assms by (simp add: algebra_simps)

lemma borrow_difference:
  fixes x y q r c l n :: int
  assumes "x - r = y - 256 * c" "256 * q + r = n"
  shows "y + 256 * (l - (q + c)) = x + 256 * l - n"
  using assms by (simp add: algebra_simps)

lemma le_val_add_loop:
  "int (le_val (add_loop bs num)) = (int (le_val bs) + num) mod 256 ^ length bs"
proof (induction bs arbitrary: num)
  case (Cons b bs)
  show ?case
  proof (cases "num = 0")
    case True
    then show ?thesis using int_le_val_mod [of "b # bs"] by simp
  next
    case False
    define rhs b' c where "rhs = (word_of_int num :: byte)" and "b' = b + rhs"
      and "c = (if b' < rhs then 1 else 0 :: int)"
    have digit: "uint b + num mod 256 = uint b' + 256 * c"
      using add_digit [of b num] by (simp add: rhs_def b'_def c_def)
    have "int (le_val (add_loop (b # bs) num))
          = uint b' + 256 * ((int (le_val bs) + (num div 256 + c)) mod 256 ^ length bs)"
      using False by (simp add: Let_def Cons.IH flip: rhs_def b'_def c_def)
    also have "\<dots> = (uint b' + 256 * (int (le_val bs) + (num div 256 + c))) mod (256 * 256 ^ length bs)"
      by (rule mod_digit_int [symmetric]) simp_all
    also have "uint b' + 256 * (int (le_val bs) + (num div 256 + c))
               = int (le_val (b # bs)) + num"
      using carry_sum [OF digit mult_div_mod_eq] by (simp only: int_le_val_Cons)
    finally show ?thesis by simp
  qed
qed simp

lemma le_val_sub_loop:
  "int (le_val (sub_loop bs num)) = (int (le_val bs) - num) mod 256 ^ length bs"
proof (induction bs arbitrary: num)
  case (Cons b bs)
  show ?case
  proof (cases "num = 0")
    case True
    then show ?thesis using int_le_val_mod [of "b # bs"] by simp
  next
    case False
    define rhs b' c where "rhs = (word_of_int num :: byte)" and "b' = b - rhs"
      and "c = (if b < rhs then 1 else 0 :: int)"
    have digit: "uint b - num mod 256 = uint b' - 256 * c"
      using sub_digit [of b num] by (simp add: rhs_def b'_def c_def)
    have "int (le_val (sub_loop (b # bs) num))
          = uint b' + 256 * ((int (le_val bs) - (num div 256 + c)) mod 256 ^ length bs)"
      using False by (simp add: Let_def Cons.IH flip: rhs_def b'_def c_def)
    also have "\<dots> = (uint b' + 256 * (int (le_val bs) - (num div 256 + c))) mod (256 * 256 ^ length bs)"
      by (rule mod_digit_int [symmetric]) simp_all
    also have "uint b' + 256 * (int (le_val bs) - (num div 256 + c))
               = int (le_val (b # bs)) - num"
      using borrow_difference [OF digit mult_div_mod_eq] by (simp only: int_le_val_Cons)
    finally show ?thesis by simp
  qed
qed simp

text \<open>
  The value of a sum. For a negative offset the inner call and the loop both apply it, so
  the result moves twice as far as it should.
\<close>

lemma add_value:
  assumes "num \<noteq> ptrdiff_min"
  obtains bs' where "add bs num = Inr bs'" "length bs' = length bs"
    "int (be_val bs') = (int (be_val bs) + (if num < 0 then 2 * num else num)) mod 256 ^ length bs"
proof
  let ?bytes = "if num < 0 then rev (sub_loop (rev bs) (- num)) else bs"
  let ?r = "rev (add_loop (rev ?bytes) num)"
  show "add bs num = Inr ?r" using assms by (simp add: add_def Let_def)
  show "length ?r = length bs" by simp
  show "int (be_val ?r) = (int (be_val bs) + (if num < 0 then 2 * num else num)) mod 256 ^ length bs"
    by (simp add: be_val_def le_val_add_loop le_val_sub_loop mod_add_left_eq add.assoc)
qed

lemma sub_value:
  assumes "num \<noteq> ptrdiff_min"
  obtains bs' where "sub bs num = Inr bs'" "length bs' = length bs"
    "int (be_val bs') = (int (be_val bs) - (if num < 0 then 2 * num else num)) mod 256 ^ length bs"
proof
  let ?bytes = "if num < 0 then rev (add_loop (rev bs) (- num)) else bs"
  let ?r = "rev (sub_loop (rev ?bytes) num)"
  show "sub bs num = Inr ?r" using assms by (simp add: sub_def Let_def)
  show "length ?r = length bs" by simp
  show "int (be_val ?r) = (int (be_val bs) - (if num < 0 then 2 * num else num)) mod 256 ^ length bs"
    by (simp add: be_val_def le_val_add_loop le_val_sub_loop mod_diff_left_eq diff_diff_eq)
qed

section \<open>Netmasks\<close>

text \<open>The reference definition: the \<open>n\<close>-byte array whose first \<open>k\<close> bits are set.\<close>

fun mask_bytes :: "nat \<Rightarrow> nat \<Rightarrow> byte list" where
  "mask_bytes 0 k = []"
| "mask_bytes (Suc n) k =
     (if 8 \<le> k then 0xFF # mask_bytes n (k - 8)
      else partial_mask_bytes ! k # replicate n 0)"

lemma length_mask_bytes [simp]: "length (mask_bytes n k) = n"
  by (induction n k rule: mask_bytes.induct) simp_all

lemma length_partial_mask_bytes [simp]: "length partial_mask_bytes = 8"
  by (simp add: partial_mask_bytes_def)

lemma ff_not_partial [simp]: "0xFF \<notin> set partial_mask_bytes"
  by (simp add: partial_mask_bytes_def)

lemma partial_mask_byte_iff: "b \<in> set partial_mask_bytes \<longleftrightarrow> (\<exists>k < 8. b = partial_mask_bytes ! k)"
  by (auto simp: in_set_conv_nth)

lemma partial_mask_byte_zero: "k < 8 \<Longrightarrow> partial_mask_bytes ! k = 0 \<longleftrightarrow> k = 0"
proof -
  have "\<forall>i \<in> set [0..<8]. (partial_mask_bytes ! i = 0) = (i = 0)" by code_simp
  then show "k < 8 \<Longrightarrow> ?thesis" by simp
qed

lemma mask_bytes_hd_zero: "0 < n \<Longrightarrow> mask_bytes n k ! 0 = 0 \<longleftrightarrow> k = 0"
  using partial_mask_byte_zero [of k] by (cases n) auto

lemma all_zero_iff: "(\<forall>b \<in> set bs. unat b = 0) \<longleftrightarrow> bs = replicate (length bs) (0 :: byte)"
  by (induction bs) (simp_all add: unat_eq_0)

lemma in_mask_loop_iff: "in_mask_loop bs \<longleftrightarrow> (\<exists>k \<le> 8 * length bs. bs = mask_bytes (length bs) k)"
proof (induction bs)
  case (Cons b bs)
  let ?n = "length bs"
  have partial: "partial_mask_bytes ! k \<noteq> 0xFF" if "k < 8" for k
    using that partial_mask_byte_iff ff_not_partial by metis
  consider "b \<in> set partial_mask_bytes" | "b = 0xFF" | "b \<notin> set partial_mask_bytes" "b \<noteq> 0xFF" by blast
  then show ?case
  proof cases
    case 1
    then obtain k where k: "k < 8" "b = partial_mask_bytes ! k"
      using partial_mask_byte_iff by blast
    have ff: "b \<noteq> 0xFF" using 1 ff_not_partial by blast
    show ?thesis
    proof
      assume "in_mask_loop (b # bs)"
      then have "bs = replicate ?n 0" using 1 by (simp flip: all_zero_iff)
      then have "b # bs = mask_bytes (Suc ?n) k" using k by simp
      moreover have "k \<le> 8 * length (b # bs)" using k by simp
      ultimately show "\<exists>k \<le> 8 * length (b # bs). b # bs = mask_bytes (length (b # bs)) k" by auto
    next
      assume "\<exists>k \<le> 8 * length (b # bs). b # bs = mask_bytes (length (b # bs)) k"
      then have "bs = replicate ?n 0" using ff by (auto split: if_splits)
      then show "in_mask_loop (b # bs)" using 1 by (simp flip: all_zero_iff)
    qed
  next
    case 2
    have "in_mask_loop (b # bs) \<longleftrightarrow> in_mask_loop bs" using 2 by simp
    also have "\<dots> \<longleftrightarrow> (\<exists>k \<le> 8 * length (b # bs). b # bs = mask_bytes (length (b # bs)) k)"
      (is "_ \<longleftrightarrow> ?R")
    proof
      assume "in_mask_loop bs"
      then obtain k where "k \<le> 8 * ?n" "bs = mask_bytes ?n k" using Cons.IH by blast
      then have "k + 8 \<le> 8 * length (b # bs) \<and> b # bs = mask_bytes (length (b # bs)) (k + 8)"
        using 2 by simp
      then show ?R by blast
    next
      assume ?R
      then obtain k where k: "k \<le> 8 * Suc ?n" "b # bs = mask_bytes (Suc ?n) k" by auto
      then have "8 \<le> k" using 2 partial [of k] by (cases "8 \<le> k") auto
      then have "k - 8 \<le> 8 * ?n \<and> bs = mask_bytes ?n (k - 8)" using k by simp
      then show "in_mask_loop bs" using Cons.IH by blast
    qed
    finally show ?thesis .
  next
    case 3
    then have "\<not> in_mask_loop (b # bs)" by simp
    moreover have "b # bs \<noteq> mask_bytes (Suc ?n) k" for k
      using 3 partial_mask_byte_iff [of b] by (cases "8 \<le> k") auto
    ultimately show ?thesis by auto
  qed
qed simp

lemma be_val_replicate_zero [simp]: "be_val (replicate n 0) = 0"
  by (induction n) (simp_all add: be_val_Cons)

lemma mask_byte_value:
  assumes "k < 8"
  shows "unat (partial_mask_bytes ! k) + 2 ^ (8 - k) = 256"
proof -
  have "\<forall>i \<in> set [0..<8]. unat (partial_mask_bytes ! i) + 2 ^ (8 - i) = 256"
    by code_simp
  then show ?thesis using assms by simp
qed

lemma be_val_mask_bytes: "k \<le> 8 * n \<Longrightarrow> be_val (mask_bytes n k) + 2 ^ (8 * n - k) = 2 ^ (8 * n)"
proof (induction n k rule: mask_bytes.induct)
  case (2 n k)
  have e: "(2 :: nat) ^ (8 * Suc n) = 256 * 256 ^ n" by (simp add: power_mult power_add)
  show ?case
  proof (cases "8 \<le> k")
    case True
    then have "be_val (mask_bytes n (k - 8)) + 2 ^ (8 * n - (k - 8)) = 2 ^ (8 * n)"
      using 2 by simp
    moreover have "8 * Suc n - k = 8 * n - (k - 8)" using True by simp
    ultimately show ?thesis using True e by (simp add: be_val_Cons power_mult)
  next
    case False
    then have k: "k < 8" by simp
    then have "8 * Suc n - k = (8 - k) + 8 * n" by simp
    then have "(2 :: nat) ^ (8 * Suc n - k) = 2 ^ (8 - k) * 256 ^ n"
      by (simp only: power_add power_mult) simp
    then show ?thesis
      using False e mask_byte_value [OF k] by (simp add: be_val_Cons flip: add_mult_distrib)
  qed
qed simp

lemma leading_ones_mask_byte:
  assumes "k < 8"
  shows "leading_ones (partial_mask_bytes ! k) 7 = k"
proof -
  have "\<forall>i \<in> set [0..<8]. leading_ones (partial_mask_bytes ! i) 7 = i"
    by code_simp
  then show ?thesis using assms by simp
qed

lemma netmask_length_replicate_zero [simp]: "netmask_length (replicate n 0) = 0"
  using leading_ones_mask_byte [of 0] by (induction n) (simp_all add: partial_mask_bytes_def)

lemma netmask_length_mask_bytes: "k \<le> 8 * n \<Longrightarrow> netmask_length (mask_bytes n k) = k"
proof (induction n k rule: mask_bytes.induct)
  case (2 n k)
  show ?case
  proof (cases "8 \<le> k")
    case True
    then show ?thesis using 2 by simp
  next
    case False
    then have "partial_mask_bytes ! k \<noteq> 0xFF"
      using partial_mask_byte_iff ff_not_partial by (metis not_le)
    then show ?thesis using False leading_ones_mask_byte [of k] by simp
  qed
qed simp

section \<open>Order\<close>

lemma bytes_less_iff: "length xs = length ys \<Longrightarrow> bytes_less xs ys \<longleftrightarrow> be_val xs < be_val ys"
proof (induction xs ys rule: list_induct2)
  case (Cons x xs y ys)
  have bounds: "be_val xs < 256 ^ length ys" "be_val ys < 256 ^ length ys"
    using be_val_less [of xs] be_val_less [of ys] Cons.hyps by simp_all
  show ?case
  proof (cases "unat x = unat y")
    case True
    then show ?thesis using Cons by (simp add: be_val_Cons word_less_nat_alt)
  next
    case False
    have strict: "a * m + r < b * m + r'" if "a < b" "r < m" for a b m r r' :: nat
    proof -
      have "a * m + r < (a + 1) * m" using that by simp
      also have "\<dots> \<le> b * m" using that by (intro mult_le_mono1) simp
      finally show ?thesis by simp
    qed
    show ?thesis
      using False strict [of "unat x" "unat y" "be_val xs" "256 ^ length ys" "be_val ys"]
        strict [of "unat y" "unat x" "be_val ys" "256 ^ length ys" "be_val xs"] bounds Cons.hyps
      by (auto simp: be_val_Cons word_less_nat_alt not_less dest: order.asym)
  qed
qed simp

end
