(* ===== verification/Address_Spec.thy ===== *)
theory Address_Spec
  imports Address_Impl
begin

text \<open>
  What the address classes promise to their clients, as a chain of interfaces over an
  abstract numeric value: single steps that wrap around (\<open>wrapping_counter\<close>), offsets
  (\<open>offset_counter\<close>) and the total order (\<open>address_class\<close>). The three address
  classes interpret \<open>address_class\<close> in their own theories. The last section is the
  text vocabulary that the classes share: \<open>%d\<close> and \<open>%02X\<close> of \<open>sprintf\<close>, and the byte order of the host.
\<close>

section \<open>Interfaces\<close>

locale wrapping_counter =
  fixes valid :: "'a \<Rightarrow> bool" and val :: "'a \<Rightarrow> nat" and modulus :: nat
    and inc :: "'a \<Rightarrow> 'a" and dec :: "'a \<Rightarrow> 'a"
  assumes val_less: "valid x \<Longrightarrow> val x < modulus"
    and val_inject: "valid x \<Longrightarrow> valid y \<Longrightarrow> val x = val y \<Longrightarrow> x = y"
    and valid_inc: "valid x \<Longrightarrow> valid (inc x)"
    and valid_dec: "valid x \<Longrightarrow> valid (dec x)"
    and val_inc: "valid x \<Longrightarrow> val (inc x) = (val x + 1) mod modulus"
    and val_dec: "valid x \<Longrightarrow> (val (dec x) + 1) mod modulus = val x"
begin

lemma inc_dec: "valid x \<Longrightarrow> inc (dec x) = x"
  by (rule val_inject) (simp_all only: valid_inc valid_dec val_inc val_dec)

lemma dec_inc:
  assumes "valid x"
  shows "dec (inc x) = x"
proof (rule val_inject)
  have "inc (dec (inc x)) = inc x" using assms by (simp add: inc_dec valid_inc)
  then have "(val (dec (inc x)) + 1) mod modulus = (val x + 1) mod modulus"
    using assms by (metis val_inc valid_inc valid_dec)
  moreover have "val (dec (inc x)) < modulus" "val x < modulus"
    using assms by (simp_all add: val_less valid_inc valid_dec)
  ultimately show "val (dec (inc x)) = val x"
    by (metis Suc_eq_plus1 Suc_inject mod_Suc mod_less nat.distinct(1))
qed (use assms in \<open>simp_all add: valid_inc valid_dec\<close>)

lemma funpow_inc:
  assumes "valid x"
  shows "valid ((inc ^^ n) x)" "val ((inc ^^ n) x) = (val x + n) mod modulus"
proof (induction n)
  case 0
  show "valid ((inc ^^ 0) x)" using assms by simp
  show "val ((inc ^^ 0) x) = (val x + 0) mod modulus" using val_less [OF assms] by simp
next
  case (Suc n)
  show "valid ((inc ^^ Suc n) x)" using Suc by (simp add: valid_inc)
  show "val ((inc ^^ Suc n) x) = (val x + Suc n) mod modulus"
    using Suc by (simp add: val_inc mod_Suc_eq)
qed

lemma inc_cycle: "valid x \<Longrightarrow> (inc ^^ modulus) x = x"
  by (rule val_inject) (simp_all add: funpow_inc val_less)

lemma inc_reaches:
  assumes "valid x" "valid y"
  shows "\<exists>n < modulus. (inc ^^ n) x = y"
proof -
  let ?n = "(val y + modulus - val x) mod modulus"
  have m: "val x < modulus" "val y < modulus" using assms by (simp_all add: val_less)
  have "val ((inc ^^ ?n) x) = (val x + (val y + modulus - val x)) mod modulus"
    using assms by (simp add: funpow_inc mod_add_right_eq)
  also have "\<dots> = val y" using m by simp
  finally have "(inc ^^ ?n) x = y" using assms funpow_inc val_inject by blast
  moreover have "?n < modulus" using m by simp
  ultimately show ?thesis by blast
qed

end

locale offset_counter = wrapping_counter +
  fixes plus :: "'a \<Rightarrow> int \<Rightarrow> ub + 'a" and minus :: "'a \<Rightarrow> int \<Rightarrow> ub + 'a"
  assumes plus_spec: "valid x \<Longrightarrow> 0 \<le> k \<Longrightarrow> k \<le> ptrdiff_max \<Longrightarrow>
      \<exists>y. plus x k = Inr y \<and> valid y \<and> int (val y) = (int (val x) + k) mod int modulus"
    and minus_spec: "valid x \<Longrightarrow> 0 \<le> k \<Longrightarrow> k \<le> ptrdiff_max \<Longrightarrow>
      \<exists>y. minus x k = Inr y \<and> valid y \<and> int (val y) = (int (val x) - k) mod int modulus"
begin

lemma plus_is_inc:
  assumes "valid x" "int n \<le> ptrdiff_max"
  shows "plus x (int n) = Inr ((inc ^^ n) x)"
proof -
  obtain y where y: "plus x (int n) = Inr y" "valid y"
      "int (val y) = (int (val x) + int n) mod int modulus"
    using plus_spec [of x "int n"] assms by auto
  then have "val y = (val x + n) mod modulus"
    by (metis of_nat_add of_nat_eq_iff zmod_int)
  then have "y = (inc ^^ n) x" using assms y by (metis funpow_inc val_inject)
  with y show ?thesis by simp
qed

lemma minus_plus:
  assumes "valid x" "0 \<le> k" "k \<le> ptrdiff_max" "plus x k = Inr y"
  shows "minus y k = Inr x"
proof -
  have y: "valid y" "int (val y) = (int (val x) + k) mod int modulus"
    using plus_spec [OF assms(1-3)] assms(4) by auto
  obtain z where z: "minus y k = Inr z" "valid z" "int (val z) = (int (val y) - k) mod int modulus"
    using minus_spec [OF y(1) assms(2,3)] by blast
  have "int (val z) = int (val x) mod int modulus"
    using z(3) y(2) by (simp add: mod_diff_left_eq)
  also have "\<dots> = int (val x)" using val_less [OF assms(1)] by simp
  finally have "z = x" using z(2) assms(1) by (simp add: val_inject)
  with z show ?thesis by simp
qed

end

locale address_class = offset_counter +
  fixes less :: "'a \<Rightarrow> 'a \<Rightarrow> bool"
  assumes less_iff: "valid x \<Longrightarrow> valid y \<Longrightarrow> less x y \<longleftrightarrow> val x < val y"
begin

lemma less_irrefl: "valid x \<Longrightarrow> \<not> less x x"
  by (simp add: less_iff)

lemma less_trans: "valid x \<Longrightarrow> valid y \<Longrightarrow> valid z \<Longrightarrow> less x y \<Longrightarrow> less y z \<Longrightarrow> less x z"
  by (simp add: less_iff)

lemma less_total: "valid x \<Longrightarrow> valid y \<Longrightarrow> less x y \<or> x = y \<or> less y x"
  using val_inject by (auto simp: less_iff)

lemma inc_greater: "valid x \<Longrightarrow> val x + 1 < modulus \<Longrightarrow> less x (inc x)"
  by (simp add: less_iff valid_inc val_inc)

end

section \<open>Printed numbers\<close>

definition dec_digit :: "nat \<Rightarrow> char" where
  "dec_digit d = char_of (48 + d)"

fun dec_str :: "nat \<Rightarrow> string" where
  "dec_str n = (if n < 10 then [dec_digit n] else dec_str (n div 10) @ [dec_digit (n mod 10)])"

declare dec_str.simps [simp del]

definition hex_digit :: "nat \<Rightarrow> char" where
  "hex_digit d = char_of (if d < 10 then 48 + d else 55 + d)"

definition hex2_str :: "byte \<Rightarrow> string" where
  "hex2_str b = [hex_digit (unat b div 16), hex_digit (unat b mod 16)]"

definition is_digit :: "char \<Rightarrow> bool" where
  "is_digit c \<longleftrightarrow> 48 \<le> (of_char c :: nat) \<and> (of_char c :: nat) \<le> 57"

definition digit_val :: "char \<Rightarrow> nat" where
  "digit_val c = of_char c - 48"

definition digits_val :: "string \<Rightarrow> nat" where
  "digits_val s = foldl (\<lambda>acc c. 10 * acc + digit_val c) 0 s"

lemma dec_digit_props:
  assumes "d < 10"
  shows "is_digit (dec_digit d)" "digit_val (dec_digit d) = d"
  using assms by (simp_all add: is_digit_def dec_digit_def digit_val_def)

lemma dec_str_digits: "list_all is_digit (dec_str n)"
proof (induction n rule: dec_str.induct)
  case (1 n)
  then show ?case by (subst dec_str.simps) (simp add: dec_digit_props)
qed

lemma digits_val_dec_str: "digits_val (dec_str n) = n"
proof (induction n rule: dec_str.induct)
  case (1 n)
  then show ?case
    by (subst dec_str.simps) (simp add: digits_val_def dec_digit_props)
qed

lemma dec_str_not_Nil [simp]: "dec_str n \<noteq> []"
  by (subst dec_str.simps) simp

lemma length_dec_str_byte:
  assumes "n < 256"
  shows "length (dec_str n) \<le> 3"
proof -
  have "n div 10 div 10 < 10" using assms by simp
  then have "length (dec_str (n div 10 div 10)) = 1" by (subst dec_str.simps) simp
  then have "length (dec_str (n div 10)) \<le> 2" by (subst dec_str.simps) simp
  then show ?thesis by (subst dec_str.simps) simp
qed

section \<open>Literals of a grammar\<close>

fun lit :: "char \<Rightarrow> string \<Rightarrow> string option" where
  "lit c [] = None"
| "lit c (x # xs) = (if x = c then Some xs else None)"

section \<open>Memory of a little-endian host\<close>

text \<open>Byte \<open>k\<close> of a 32-bit object, and a 16-bit load at byte offset \<open>i\<close>.\<close>

definition mem_byte :: "u32 \<Rightarrow> nat \<Rightarrow> byte" where
  "mem_byte w k = ucast (drop_bit (8 * k) w)"

definition load16 :: "byte list \<Rightarrow> nat \<Rightarrow> u16" where
  "load16 bs i = ucast (bs ! i) OR push_bit 8 (ucast (bs ! Suc i))"

lemma unat_mem_byte: "unat (mem_byte w k) = unat w div 256 ^ k mod 256"
  by (simp add: mem_byte_def unat_ucast_mod unat_drop_bit power_mult)

section \<open>High bits of a byte\<close>

lemma unat_and_high:
  fixes b h :: byte
  assumes "h = NOT (mask k)"
  shows "unat (b AND h) = unat b div 2 ^ k * 2 ^ k"
proof -
  have high: "b AND h = push_bit k (drop_bit k b)"
    by (rule bit_word_eqI) (auto simp: assms bit_simps)
  have "b = push_bit k (drop_bit k b) + take_bit k b" by (simp add: bits_ident)
  also have "\<dots> = (b AND h) OR take_bit k b"
    unfolding high by (rule disjunctive_add) (auto simp: bit_simps)
  finally have "b = (b AND h) OR take_bit k b" .
  moreover have "drop_bit k (unat (b AND h)) = drop_bit k (unat b)"
    unfolding high by (rule bit_eqI) (auto simp: bit_simps dest: bit_imp_le_length)
  moreover have "take_bit k (unat (b AND h)) = 0"
    unfolding high by (rule bit_eqI) (auto simp: bit_simps)
  ultimately show ?thesis
    by (metis add.right_neutral bits_ident drop_bit_eq_div push_bit_eq_mult)
qed

lemma high_masks:
  "(0x80 :: byte) = NOT (mask 7)" "(0xC0 :: byte) = NOT (mask 6)" "(0xE0 :: byte) = NOT (mask 5)"
  "(0xF0 :: byte) = NOT (mask 4)" "(0xFF :: byte) = NOT (mask 0)"
  by code_simp+

lemmas high_bits_simps = high_masks [THEN unat_and_high]

lemma byte_class_ranges:
  fixes b :: byte
  shows "b AND 0x80 = 0 \<longleftrightarrow> unat b < 128"
    and "b AND 0xC0 = 0x80 \<longleftrightarrow> 128 \<le> unat b \<and> unat b < 192"
    and "b AND 0xE0 = 0xC0 \<longleftrightarrow> 192 \<le> unat b \<and> unat b < 224"
    and "b AND 0xF0 = 0xE0 \<longleftrightarrow> 224 \<le> unat b \<and> unat b < 240"
    and "b AND 0xFF = b"
  using unat_byte_less [of b] by (simp_all only: word_unat_eq_iff high_bits_simps) auto

end
