(* ===== verification/Internet4.thy ===== *)
theory Internet4
  imports Address_Spec
begin

text \<open>
  The IPv4 address class (\<^verbatim>\<open>network/internet4_address.ipp\<close>): its four bytes in network
  order, constructors, arithmetic, classification, conversion to and from a 32-bit
  number and to and from text. Byte loads and stores through \<open>reinterpret_cast\<close> are
  those of a little-endian host. The number parser of Boost.Spirit is a parameter.
\<close>

section \<open>Definitions\<close>

record internet4_address =
  i4_bytes :: "byte list"

definition i4_valid :: "internet4_address \<Rightarrow> bool" where
  "i4_valid a \<longleftrightarrow> length (i4_bytes a) = 4"

definition i4_default :: internet4_address where
  "i4_default = \<lparr>i4_bytes = [0, 0, 0, 0]\<rparr>"

definition i4_of_quad :: "byte \<Rightarrow> byte \<Rightarrow> byte \<Rightarrow> byte \<Rightarrow> internet4_address" where
  "i4_of_quad a b c d = \<lparr>i4_bytes = [a, b, c, d]\<rparr>"

definition i4_of_u32 :: "u32 \<Rightarrow> internet4_address" where
  "i4_of_u32 addr = \<lparr>i4_bytes = [mem_byte addr 3, mem_byte addr 2, mem_byte addr 1, mem_byte addr 0]\<rparr>"

definition i4_incr :: "internet4_address \<Rightarrow> internet4_address" where
  "i4_incr a = a\<lparr>i4_bytes := incr (i4_bytes a)\<rparr>"

definition i4_decr :: "internet4_address \<Rightarrow> internet4_address" where
  "i4_decr a = a\<lparr>i4_bytes := decr (i4_bytes a)\<rparr>"

definition i4_add :: "internet4_address \<Rightarrow> int \<Rightarrow> ub + internet4_address" where
  "i4_add a num = map_sum id (\<lambda>bs. a\<lparr>i4_bytes := bs\<rparr>) (add (i4_bytes a) num)"

definition i4_sub :: "internet4_address \<Rightarrow> int \<Rightarrow> ub + internet4_address" where
  "i4_sub a num = map_sum id (\<lambda>bs. a\<lparr>i4_bytes := bs\<rparr>) (sub (i4_bytes a) num)"

definition i4_is_unspecified :: "internet4_address \<Rightarrow> bool" where
  "i4_is_unspecified a \<longleftrightarrow> i4_bytes a ! 0 = 0 \<and> i4_bytes a ! 1 = 0 \<and> i4_bytes a ! 2 = 0 \<and> i4_bytes a ! 3 = 0"

definition i4_is_loopback :: "internet4_address \<Rightarrow> bool" where
  "i4_is_loopback a \<longleftrightarrow> i4_bytes a ! 0 AND 0xFF = 0x7F"

definition i4_is_class_a :: "internet4_address \<Rightarrow> bool" where
  "i4_is_class_a a \<longleftrightarrow> i4_bytes a ! 0 AND 0x80 = 0"

definition i4_is_class_b :: "internet4_address \<Rightarrow> bool" where
  "i4_is_class_b a \<longleftrightarrow> i4_bytes a ! 0 AND 0xC0 = 0x80"

definition i4_is_class_c :: "internet4_address \<Rightarrow> bool" where
  "i4_is_class_c a \<longleftrightarrow> i4_bytes a ! 0 AND 0xE0 = 0xC0"

definition i4_is_multicast :: "internet4_address \<Rightarrow> bool" where
  "i4_is_multicast a \<longleftrightarrow> i4_bytes a ! 0 AND 0xF0 = 0xE0"

definition i4_is_link_local :: "internet4_address \<Rightarrow> bool" where
  "i4_is_link_local a \<longleftrightarrow> i4_bytes a ! 0 AND 0xFF = 0xA9 \<and> i4_bytes a ! 1 AND 0xFF = 0xFE"

definition i4_is_netmask :: "internet4_address \<Rightarrow> bool" where
  "i4_is_netmask a \<longleftrightarrow> in_mask (i4_bytes a)"

definition i4_netmask_length :: "internet4_address \<Rightarrow> nat" where
  "i4_netmask_length a = netmask_length (i4_bytes a)"

text \<open>The arguments of \<open>sprintf\<close>: a \<open>"%d.%d.%d.%d"\<close> of the four bytes.\<close>

definition i4_to_string :: "internet4_address \<Rightarrow> string" where
  "i4_to_string a =
     dec_str (unat (i4_bytes a ! 0)) @ ''.'' @ dec_str (unat (i4_bytes a ! 1)) @ ''.'' @
     dec_str (unat (i4_bytes a ! 2)) @ ''.'' @ dec_str (unat (i4_bytes a ! 3))"

definition i4_to_ulong :: "internet4_address \<Rightarrow> u32" where
  "i4_to_ulong a = foldl (\<lambda>s b. push_bit 8 s + ucast b) 0 (i4_bytes a)"

definition i4_checksum :: "internet4_address \<Rightarrow> u64 \<Rightarrow> u64" where
  "i4_checksum a s = s + ucast (load16 (i4_bytes a) 0) + ucast (load16 (i4_bytes a) 2)"

definition i4_any :: internet4_address where
  "i4_any = i4_default"

definition i4_broadcast :: internet4_address where
  "i4_broadcast = \<lparr>i4_bytes = [255, 255, 255, 255]\<rparr>"

definition i4_loopback :: internet4_address where
  "i4_loopback = \<lparr>i4_bytes = [127, 0, 0, 1]\<rparr>"

definition i4_less :: "internet4_address \<Rightarrow> internet4_address \<Rightarrow> bool" where
  "i4_less a b \<longleftrightarrow> bytes_less (i4_bytes a) (i4_bytes b)"

definition i4_equal :: "internet4_address \<Rightarrow> internet4_address \<Rightarrow> bool" where
  "i4_equal a b \<longleftrightarrow> i4_bytes a = i4_bytes b"

definition i4_hash_value :: "internet4_address \<Rightarrow> u64" where
  "i4_hash_value a = foldl (\<lambda>s b. s + ucast b) 0 (i4_bytes a)"

text \<open>
  The grammar \<open>dec >> '.' >> dec >> '.' >> dec >> '.' >> dec\<close> with the whole input
  consumed; \<open>dec\<close> is \<open>qi::uint_parser<unsigned char, 10, 1, 3>\<close>. On failure the bytes
  are cleared and the error code is set; on success the error code is left alone.
\<close>

definition i4_parse :: "(string \<Rightarrow> (byte \<times> string) option) \<Rightarrow> string \<Rightarrow> (byte list \<times> string) option" where
  "i4_parse dec s =
     Option.bind (dec s) (\<lambda>(a, s). Option.bind (lit CHR ''.'' s) (\<lambda>s.
     Option.bind (dec s) (\<lambda>(b, s). Option.bind (lit CHR ''.'' s) (\<lambda>s.
     Option.bind (dec s) (\<lambda>(c, s). Option.bind (lit CHR ''.'' s) (\<lambda>s.
     Option.bind (dec s) (\<lambda>(d, s). Some ([a, b, c, d], s))))))))"

definition i4_from_string_impl ::
  "(string \<Rightarrow> (byte \<times> string) option) \<Rightarrow> string \<Rightarrow> errc option \<Rightarrow> byte list \<times> errc option" where
  "i4_from_string_impl dec s ec =
     (case i4_parse dec s of
        Some (bs, []) \<Rightarrow> (bs, ec)
      | _ \<Rightarrow> ([0, 0, 0, 0], Some address_family_not_supported))"

text \<open>The overload that throws, and the overload that reports through \<open>ec\<close>.\<close>

definition i4_from_string ::
  "(string \<Rightarrow> (byte \<times> string) option) \<Rightarrow> string \<Rightarrow> errc + internet4_address" where
  "i4_from_string dec str =
     (case i4_from_string_impl dec str None of
        (bs, None) \<Rightarrow> Inr \<lparr>i4_bytes = bs\<rparr>
      | (_, Some e) \<Rightarrow> Inl e)"

definition i4_from_string_ec ::
  "(string \<Rightarrow> (byte \<times> string) option) \<Rightarrow> string \<Rightarrow> errc option \<Rightarrow> internet4_address \<times> errc option" where
  "i4_from_string_ec dec str ec =
     (let (bs, ec') = i4_from_string_impl dec str ec in (\<lparr>i4_bytes = bs\<rparr>, ec'))"

text \<open>The C-string overloads: a null pointer is \<open>None\<close>.\<close>

definition i4_from_cstr ::
  "(string \<Rightarrow> (byte \<times> string) option) \<Rightarrow> string option \<Rightarrow> errc + internet4_address" where
  "i4_from_cstr dec str =
     (case str of None \<Rightarrow> Inl invalid_argument | Some s \<Rightarrow> i4_from_string dec s)"

definition i4_from_cstr_ec ::
  "(string \<Rightarrow> (byte \<times> string) option) \<Rightarrow> string option \<Rightarrow> errc option \<Rightarrow> internet4_address \<times> errc option" where
  "i4_from_cstr_ec dec str ec =
     (case str of None \<Rightarrow> (i4_default, Some invalid_argument) | Some s \<Rightarrow> i4_from_string_ec dec s ec)"

section \<open>The class satisfies the address interface\<close>

definition i4_val :: "internet4_address \<Rightarrow> nat" where
  "i4_val a = be_val (i4_bytes a)"

lemma i4_add_value:
  assumes "i4_valid a" "num \<noteq> ptrdiff_min"
  shows "\<exists>r. i4_add a num = Inr r \<and> i4_valid r \<and>
    int (i4_val r) = (int (i4_val a) + (if num < 0 then 2 * num else num)) mod 2 ^ 32"
  using add_value [OF assms(2), of "i4_bytes a"] assms(1)
  by (force simp: i4_add_def i4_valid_def i4_val_def)

lemma i4_sub_value:
  assumes "i4_valid a" "num \<noteq> ptrdiff_min"
  shows "\<exists>r. i4_sub a num = Inr r \<and> i4_valid r \<and>
    int (i4_val r) = (int (i4_val a) - (if num < 0 then 2 * num else num)) mod 2 ^ 32"
  using sub_value [OF assms(2), of "i4_bytes a"] assms(1)
  by (force simp: i4_sub_def i4_valid_def i4_val_def)

interpretation i4: address_class i4_valid i4_val "2 ^ 32" i4_incr i4_decr i4_add i4_sub i4_less
proof
  fix x y :: internet4_address and k :: int
  show "i4_valid x \<Longrightarrow> i4_val x < 2 ^ 32"
    using be_val_less [of "i4_bytes x"] by (simp add: i4_valid_def i4_val_def)
  show "i4_valid x \<Longrightarrow> i4_valid y \<Longrightarrow> i4_val x = i4_val y \<Longrightarrow> x = y"
    using be_val_inject [of "i4_bytes x" "i4_bytes y"] by (simp add: i4_valid_def i4_val_def)
  show "i4_valid x \<Longrightarrow> i4_valid (i4_incr x)" "i4_valid x \<Longrightarrow> i4_valid (i4_decr x)"
    by (simp_all add: i4_valid_def i4_incr_def i4_decr_def)
  show "i4_valid x \<Longrightarrow> i4_val (i4_incr x) = (i4_val x + 1) mod 2 ^ 32"
    by (simp add: i4_valid_def i4_val_def i4_incr_def be_val_incr)
  show "i4_valid x \<Longrightarrow> (i4_val (i4_decr x) + 1) mod 2 ^ 32 = i4_val x"
    using be_val_decr [of "i4_bytes x"] by (simp add: i4_valid_def i4_val_def i4_decr_def)
  show "i4_valid x \<Longrightarrow> 0 \<le> k \<Longrightarrow> k \<le> ptrdiff_max \<Longrightarrow>
      \<exists>y. i4_add x k = Inr y \<and> i4_valid y \<and> int (i4_val y) = (int (i4_val x) + k) mod int (2 ^ 32)"
    using i4_add_value [of x k] by (simp add: ptrdiff_min_def)
  show "i4_valid x \<Longrightarrow> 0 \<le> k \<Longrightarrow> k \<le> ptrdiff_max \<Longrightarrow>
      \<exists>y. i4_sub x k = Inr y \<and> i4_valid y \<and> int (i4_val y) = (int (i4_val x) - k) mod int (2 ^ 32)"
    using i4_sub_value [of x k] by (simp add: ptrdiff_min_def)
  show "i4_valid x \<Longrightarrow> i4_valid y \<Longrightarrow> i4_less x y = (i4_val x < i4_val y)"
    by (simp add: i4_less_def i4_val_def i4_valid_def bytes_less_iff)
qed

section \<open>Conversion to and from 32-bit numbers\<close>

lemma unat_shift_in_byte:
  "unat (push_bit 8 s + ucast (b :: byte) :: u32) = (unat s * 256 + unat b) mod 2 ^ 32"
proof -
  have "unat (ucast b :: u32) = unat b" by simp
  then show ?thesis
    by (simp add: unat_word_ariths push_bit_eq_mult mod_add_left_eq)
qed

lemma unat_foldl_shift:
  "unat (foldl (\<lambda>s b. push_bit 8 s + ucast b) s0 bs :: u32) = (unat s0 * 256 ^ length bs + be_val bs) mod 2 ^ 32"
proof (induction bs arbitrary: s0)
  case Nil
  show ?case using unat_less_pow [of s0] by simp
next
  case (Cons b bs)
  have "((x mod 2 ^ 32) * y + z) mod 2 ^ 32 = (x * y + z) mod (2 ^ 32 :: nat)" for x y z
    by (metis mod_add_left_eq mod_mult_left_eq)
  then show ?case
    by (simp only: foldl_Cons Cons.IH unat_shift_in_byte be_val_Cons length_Cons power_Suc)
      (simp add: algebra_simps)
qed

lemma unat_i4_to_ulong: "i4_valid a \<Longrightarrow> unat (i4_to_ulong a) = i4_val a"
  using i4.val_less [of a] by (simp add: i4_to_ulong_def i4_val_def unat_foldl_shift)

lemma four_digits:
  fixes n :: nat
  assumes "n < 2 ^ 32"
  shows "n div 16777216 mod 256 * 16777216 + (n div 65536 mod 256 * 65536 +
    (n div 256 mod 256 * 256 + n mod 256)) = n"
proof -
  define a where "a = n div 256"
  define b where "b = a div 256"
  define c where "c = b div 256"
  have "b = n div 65536" "c = n div 16777216"
    by (simp_all add: a_def b_def c_def flip: div_mult2_eq)
  moreover have "c < 256" using assms by (simp add: \<open>c = n div 16777216\<close> less_mult_imp_div_less)
  moreover have "n = 256 * a + n mod 256" "a = 256 * b + a mod 256" "b = 256 * c + b mod 256"
    by (simp_all add: a_def b_def c_def)
  ultimately show ?thesis unfolding a_def [symmetric] by simp
qed

lemma i4_valid_of_u32: "i4_valid (i4_of_u32 w)"
  by (simp add: i4_of_u32_def i4_valid_def)

lemma i4_val_of_u32: "i4_val (i4_of_u32 w) = unat w"
  using four_digits [of "unat w"] unat_less_pow [of w]
  by (simp add: i4_of_u32_def i4_val_def be_val_Cons unat_mem_byte)

text \<open>
  Conversion between an IPv4 address and its 32-bit host number is a bijection in
  both directions: \<open>internet4_address(to_ulong())\<close> gives the address back,
  \<open>to_ulong()\<close> of a constructed address gives the number back, and the number read in
  network byte order is the value of the four bytes.
\<close>

theorem i4_ulong_roundtrip:
  assumes "i4_valid a"
  shows "i4_of_u32 (i4_to_ulong a) = a \<and> i4_to_ulong (i4_of_u32 w) = w
    \<and> unat (i4_to_ulong a) = be_val (i4_bytes a)"
proof (intro conjI)
  show "i4_of_u32 (i4_to_ulong a) = a"
    using assms by (intro i4.val_inject) (simp_all add: i4_valid_of_u32 i4_val_of_u32 unat_i4_to_ulong)
  show "i4_to_ulong (i4_of_u32 w) = w"
    by (simp add: word_unat_eq_iff unat_i4_to_ulong i4_valid_of_u32 i4_val_of_u32)
  show "unat (i4_to_ulong a) = be_val (i4_bytes a)"
    using assms by (simp add: unat_i4_to_ulong i4_val_def)
qed

theorem i4_ulong_roundtrip_witness:
  "i4_of_u32 (i4_to_ulong (i4_of_quad 192 168 0 1)) = i4_of_quad 192 168 0 1
   \<and> i4_to_ulong (i4_of_u32 0xC0A80001) = 0xC0A80001
   \<and> unat (i4_to_ulong (i4_of_quad 192 168 0 1)) = 3232235521"
proof -
  have "i4_valid (i4_of_quad 192 168 0 1)" by (simp add: i4_valid_def i4_of_quad_def)
  from i4_ulong_roundtrip [OF this, of "0xC0A80001"] show ?thesis
    by (simp add: i4_of_quad_def be_val_Cons)
qed

section \<open>Text\<close>

text \<open>
  Documented behaviour of \<open>qi::uint_parser<unsigned char, 10, 1, 3>\<close> on the input that
  matters here: the decimal digits of a number below 256 that no further digit follows
  are consumed and give that number.
\<close>

definition qi_dec3 :: "(string \<Rightarrow> (byte \<times> string) option) \<Rightarrow> bool" where
  "qi_dec3 dec \<longleftrightarrow> (\<forall>n rest. n < 256 \<longrightarrow> rest = [] \<or> \<not> is_digit (hd rest) \<longrightarrow>
     dec (dec_str n @ rest) = Some (word_of_nat n, rest))"

lemma qi_dec3_byte:
  assumes "qi_dec3 dec" "rest = [] \<or> \<not> is_digit (hd rest)"
  shows "dec (dec_str (unat b) @ rest) = Some (b, rest)"
proof -
  have "dec (dec_str (unat b) @ rest) = Some (word_of_nat (unat b), rest)"
    using assms unat_byte_less [of b] unfolding qi_dec3_def by blast
  then show ?thesis by simp
qed

lemma not_digit_dot [simp]: "\<not> is_digit CHR ''.''"
  by (simp add: is_digit_def)

lemma i4_validE:
  assumes "i4_valid a"
  obtains b0 b1 b2 b3 where "a = \<lparr>i4_bytes = [b0, b1, b2, b3]\<rparr>"
proof -
  obtain b0 b1 b2 b3 where "i4_bytes a = [b0, b1, b2, b3]"
    using assms by (auto simp: i4_valid_def numeral_eq_Suc length_Suc_conv)
  then have "a = \<lparr>i4_bytes = [b0, b1, b2, b3]\<rparr>" by simp
  then show thesis by (rule that)
qed

text \<open>
  (C3) Printing and parsing an IPv4 address are inverse: \<open>from_string(to_string())\<close>
  returns the address, for every parser of decimal numbers that behaves as documented;
  and the text with its terminating zero fits in the 16-byte buffer that
  \<open>to_string\<close> hands to \<open>sprintf\<close>.
\<close>

theorem i4_string_roundtrip:
  assumes "qi_dec3 dec" "i4_valid a"
  shows "i4_from_string dec (i4_to_string a) = Inr a \<and> length (i4_to_string a) + 1 \<le> 16"
proof -
  obtain b0 b1 b2 b3 where a: "a = \<lparr>i4_bytes = [b0, b1, b2, b3]\<rparr>"
    using assms(2) by (rule i4_validE)
  have dot: "dec (dec_str (unat b) @ CHR ''.'' # rest) = Some (b, CHR ''.'' # rest)" for b rest
    using qi_dec3_byte [OF assms(1), of "CHR ''.'' # rest"] by simp
  have "dec (dec_str (unat b3)) = Some (b3, [])"
    using qi_dec3_byte [OF assms(1), of "[]" b3] by simp
  then have "i4_parse dec (i4_to_string a) = Some ([b0, b1, b2, b3], [])"
    by (simp add: a i4_parse_def i4_to_string_def dot)
  moreover have "length (dec_str (unat b)) \<le> 3" for b :: byte
    by (rule length_dec_str_byte) simp
  from this [of b0] this [of b1] this [of b2] this [of b3]
  have "length (i4_to_string a) + 1 \<le> 16" by (simp add: a i4_to_string_def)
  ultimately show ?thesis by (simp add: a i4_from_string_def i4_from_string_impl_def)
qed

text \<open>A parser that meets the documented behaviour: up to three digits, rejected above 255.\<close>

definition uint_dec3 :: "string \<Rightarrow> (byte \<times> string) option" where
  "uint_dec3 s =
     (let ds = takeWhile is_digit (take 3 s)
      in if ds = [] \<or> 255 < digits_val ds then None
         else Some (word_of_nat (digits_val ds), drop (length ds) s))"

lemma qi_dec3_uint_dec3: "qi_dec3 uint_dec3"
proof -
  have "takeWhile is_digit (take 3 (dec_str n @ rest)) = dec_str n"
    if "n < 256" "rest = [] \<or> \<not> is_digit (hd rest)" for n rest
  proof -
    have digits: "\<forall>c \<in> set (dec_str n). is_digit c"
      using dec_str_digits [of n] by (simp add: list_all_iff)
    have "take 3 (dec_str n @ rest) = dec_str n @ take (3 - length (dec_str n)) rest"
      using length_dec_str_byte [OF that(1)] by simp
    moreover have "takeWhile is_digit (take m rest) = []" for m
      using that(2) by (cases rest; cases m) auto
    ultimately show ?thesis using digits by (simp add: takeWhile_append2)
  qed
  then show ?thesis
    by (auto simp: qi_dec3_def uint_dec3_def Let_def digits_val_dec_str)
qed

theorem i4_string_roundtrip_witness:
  "i4_from_string uint_dec3 (i4_to_string i4_loopback) = Inr i4_loopback
   \<and> i4_to_string i4_loopback = ''127.0.0.1''"
proof -
  have "i4_valid i4_loopback" by (simp add: i4_valid_def i4_loopback_def)
  moreover have "i4_to_string i4_loopback = ''127.0.0.1''" by code_simp
  ultimately show ?thesis using i4_string_roundtrip [OF qi_dec3_uint_dec3, of i4_loopback] by simp
qed

section \<open>Arithmetic\<close>

text \<open>
  Offset arithmetic on IPv4 addresses, on every branch. A non-negative offset is
  added modulo \<open>2 ^ 32\<close>. A negative offset is applied twice: \<open>add\<close> calls \<open>sub\<close> on its
  negation, does not return, and runs its own loop on it again. The least 64-bit
  offset overflows in the negation. Subtraction mirrors this.
\<close>

theorem i4_offset_arithmetic:
  assumes "i4_valid a" "num \<noteq> ptrdiff_min"
  shows "(\<exists>r. i4_add a num = Inr r \<and> i4_valid r \<and>
      int (i4_val r) = (int (i4_val a) + (if num < 0 then 2 * num else num)) mod 2 ^ 32)
    \<and> (\<exists>r. i4_sub a num = Inr r \<and> i4_valid r \<and>
      int (i4_val r) = (int (i4_val a) - (if num < 0 then 2 * num else num)) mod 2 ^ 32)
    \<and> i4_add a ptrdiff_min = Inl Signed_Overflow \<and> i4_sub a ptrdiff_min = Inl Signed_Overflow"
  using i4_add_value [OF assms] i4_sub_value [OF assms]
  by (simp add: i4_add_def i4_sub_def add_def sub_def)

theorem i4_offset_arithmetic_witness:
  "\<exists>r. i4_add (i4_of_quad 10 0 0 9) (- 1) = Inr r \<and> int (i4_val r) = 10 * 256 ^ 3 + 7"
proof -
  have "i4_valid (i4_of_quad 10 0 0 9)" "(- 1 :: int) \<noteq> ptrdiff_min"
    by (simp_all add: i4_valid_def i4_of_quad_def ptrdiff_min_def)
  from i4_offset_arithmetic [OF this] show ?thesis
    by (auto simp: i4_val_def i4_of_quad_def be_val_Cons)
qed

text \<open>
  \<open>++\<close> and \<open>--\<close> on IPv4 addresses are inverse to each other, run through all
  \<open>2 ^ 32\<close> addresses in one cycle, and a non-negative offset is that many \<open>++\<close> and is
  undone by the same subtraction.
\<close>

theorem i4_steps:
  assumes "i4_valid a" "i4_valid b" "int n \<le> ptrdiff_max"
  shows "i4_decr (i4_incr a) = a \<and> i4_incr (i4_decr a) = a
    \<and> (i4_incr ^^ 2 ^ 32) a = a \<and> (\<exists>m < 2 ^ 32. (i4_incr ^^ m) a = b)
    \<and> i4_add a (int n) = Inr ((i4_incr ^^ n) a) \<and> i4_sub ((i4_incr ^^ n) a) (int n) = Inr a"
  using i4.dec_inc [OF assms(1)] i4.inc_dec [OF assms(1)] i4.inc_cycle [OF assms(1)]
    i4.inc_reaches [OF assms(1,2)] i4.plus_is_inc [OF assms(1,3)]
    i4.minus_plus [OF assms(1) _ assms(3) i4.plus_is_inc [OF assms(1,3)]]
  by simp

theorem i4_steps_witness:
  "i4_decr (i4_incr i4_broadcast) = i4_broadcast \<and> i4_incr i4_broadcast = i4_any
   \<and> i4_add i4_broadcast (int 1) = Inr i4_any"
proof -
  have "i4_valid i4_broadcast" "i4_valid i4_any" "int 1 \<le> ptrdiff_max"
    by (simp_all add: i4_valid_def i4_broadcast_def i4_any_def i4_default_def ptrdiff_max_def)
  moreover have "i4_incr i4_broadcast = i4_any" by code_simp
  ultimately show ?thesis using i4_steps [of i4_broadcast i4_any 1] by simp
qed

text \<open>
  The comparison operators of IPv4 addresses are a strict total order, the order of
  the host numbers, so comparing with another address and comparing the
  \<open>to_ulong()\<close> values (as the mixed comparison with \<open>address_v4\<close> does) agree.
\<close>

theorem i4_order:
  assumes "i4_valid a" "i4_valid b" "i4_valid c"
  shows "(i4_less a b \<longleftrightarrow> i4_to_ulong a < i4_to_ulong b) \<and> (i4_equal a b \<longleftrightarrow> i4_to_ulong a = i4_to_ulong b)
    \<and> \<not> i4_less a a \<and> (i4_less a b \<longrightarrow> i4_less b c \<longrightarrow> i4_less a c)
    \<and> (i4_less a b \<or> i4_equal a b \<or> i4_less b a)"
proof -
  have eq: "i4_equal a b \<longleftrightarrow> a = b" by (cases a; cases b) (simp add: i4_equal_def)
  show ?thesis
    using i4.less_irrefl [OF assms(1)] i4.less_trans [OF assms] i4.less_total [OF assms(1,2)]
      i4.val_inject [OF assms(1,2)] assms
    by (auto simp: eq word_less_nat_alt word_unat_eq_iff unat_i4_to_ulong i4.less_iff)
qed

theorem i4_order_witness:
  "i4_less (i4_of_quad 10 0 0 9) (i4_of_quad 10 0 1 0)
   \<and> i4_less (i4_of_quad 10 0 0 9) i4_loopback"
proof -
  have "i4_valid (i4_of_quad 10 0 0 9)" "i4_valid (i4_of_quad 10 0 1 0)" "i4_valid i4_loopback"
    by (simp_all add: i4_valid_def i4_of_quad_def i4_loopback_def)
  moreover have "i4_less (i4_of_quad 10 0 0 9) (i4_of_quad 10 0 1 0)" "i4_less (i4_of_quad 10 0 1 0) i4_loopback"
    by (simp_all add: i4_of_quad_def i4_loopback_def i4_less_def)
  ultimately show ?thesis using i4_order by blast
qed

section \<open>Classification\<close>

lemma first_byte_bound:
  fixes x r m k :: nat
  assumes "r < m"
  shows "x < k \<longleftrightarrow> x * m + r < k * m"
proof
  assume "x < k"
  then have "(x + 1) * m \<le> k * m" by (intro mult_le_mono1) simp
  with assms show "x * m + r < k * m" by simp
next
  assume "x * m + r < k * m"
  then show "x < k" by (metis add_lessD1 mult_less_cancel2)
qed

text \<open>
  The class predicates of IPv4 addresses are exactly the historical ranges: class A
  is the lower half of the address space, class B the next quarter, class C the next
  eighth, multicast the next sixteenth; loopback is 127.0.0.0/8 and link-local is
  169.254.0.0/16. Hence no two of class A, B, C and multicast overlap.
\<close>

theorem i4_class_ranges:
  assumes "i4_valid a"
  shows "(i4_is_class_a a \<longleftrightarrow> i4_val a < 0x80000000)
    \<and> (i4_is_class_b a \<longleftrightarrow> 0x80000000 \<le> i4_val a \<and> i4_val a < 0xC0000000)
    \<and> (i4_is_class_c a \<longleftrightarrow> 0xC0000000 \<le> i4_val a \<and> i4_val a < 0xE0000000)
    \<and> (i4_is_multicast a \<longleftrightarrow> 0xE0000000 \<le> i4_val a \<and> i4_val a < 0xF0000000)
    \<and> (i4_is_loopback a \<longleftrightarrow> i4_val a div 2 ^ 24 = 127)
    \<and> (i4_is_link_local a \<longleftrightarrow> i4_val a div 2 ^ 16 = 169 * 256 + 254)"
proof -
  obtain b0 b1 b2 b3 where a: "a = \<lparr>i4_bytes = [b0, b1, b2, b3]\<rparr>"
    using assms by (rule i4_validE)
  let ?r = "be_val [b1, b2, b3]" and ?r2 = "be_val [b2, b3]"
  have r: "?r < 2 ^ 24" "?r2 < 2 ^ 16"
    using be_val_less [of "[b1, b2, b3]"] be_val_less [of "[b2, b3]"] by simp_all
  have v: "i4_val a = unat b0 * 2 ^ 24 + ?r" by (simp add: a i4_val_def be_val_Cons)
  have v2: "i4_val a = (unat b0 * 256 + unat b1) * 2 ^ 16 + ?r2"
    by (simp add: a i4_val_def be_val_Cons)
  have cut: "unat b0 < k \<longleftrightarrow> i4_val a < k * 2 ^ 24" for k
    using first_byte_bound [OF r(1)] by (simp only: v)
  have "i4_val a div 2 ^ 24 = unat b0" using r by (simp add: v)
  moreover have "i4_val a div 2 ^ 16 = unat b0 * 256 + unat b1" using r by (simp add: v2)
  moreover have "unat b0 * 256 + unat b1 = 169 * 256 + 254 \<longleftrightarrow> b0 = 0xA9 \<and> b1 = 0xFE"
    using digits_256_unique [of "unat b1" 254 "unat b0" 169] by (auto simp: word_unat_eq_iff)
  moreover have "unat b0 = 127 \<longleftrightarrow> b0 = 0x7F" by (simp add: word_unat_eq_iff)
  ultimately show ?thesis
    using cut [of 128] cut [of 192] cut [of 224] cut [of 240]
    by (simp add: a i4_is_class_a_def i4_is_class_b_def i4_is_class_c_def i4_is_multicast_def
        i4_is_loopback_def i4_is_link_local_def byte_class_ranges not_less [symmetric])
qed

theorem i4_class_ranges_witness:
  "i4_is_class_c (i4_of_quad 192 168 0 1) \<and> \<not> i4_is_class_b (i4_of_quad 192 168 0 1)"
proof -
  have "i4_valid (i4_of_quad 192 168 0 1)" by (simp add: i4_valid_def i4_of_quad_def)
  from i4_class_ranges [OF this] show ?thesis
    by (simp add: i4_val_def i4_of_quad_def be_val_Cons)
qed

text \<open>
  (C6) \<open>is_netmask()\<close> holds exactly for the non-zero prefix masks, those whose value is
  \<open>2 ^ 32 - 2 ^ (32 - k)\<close> for a prefix length \<open>k\<close> from 1 to 32, and
  \<open>netmask_length()\<close> then returns that \<open>k\<close>.
\<close>

theorem i4_netmask:
  assumes "i4_valid a"
  shows "(i4_is_netmask a \<longleftrightarrow> (\<exists>k. 0 < k \<and> k \<le> 32 \<and> i4_val a + 2 ^ (32 - k) = 2 ^ 32))
    \<and> (0 < k \<and> k \<le> 32 \<and> i4_val a + 2 ^ (32 - k) = 2 ^ 32 \<longrightarrow> i4_netmask_length a = k)"
proof -
  have len: "length (i4_bytes a) = 4" using assms by (simp add: i4_valid_def)
  have mask: "i4_bytes a = mask_bytes 4 k \<longleftrightarrow> i4_val a + 2 ^ (32 - k) = 2 ^ 32" if "k \<le> 32" for k
    using be_val_mask_bytes [of k 4] be_val_inject [of "i4_bytes a" "mask_bytes 4 k"] that len
    by (auto simp: i4_val_def)
  have "in_mask_loop (i4_bytes a) \<longleftrightarrow> (\<exists>k \<le> 32. i4_bytes a = mask_bytes 4 k)"
    using in_mask_loop_iff [of "i4_bytes a"] len by simp
  moreover have "i4_bytes a ! 0 = 0 \<longleftrightarrow> k = 0" if "i4_bytes a = mask_bytes 4 k" for k
    using that by (simp add: mask_bytes_hd_zero)
  moreover have "in_mask (i4_bytes a) \<longleftrightarrow> i4_bytes a ! 0 \<noteq> 0 \<and> in_mask_loop (i4_bytes a)"
    using len by (cases "i4_bytes a") simp_all
  ultimately have "i4_is_netmask a \<longleftrightarrow> (\<exists>k. 0 < k \<and> k \<le> 32 \<and> i4_bytes a = mask_bytes 4 k)"
    unfolding i4_is_netmask_def by (metis gr0I less_irrefl)
  moreover have "i4_netmask_length a = k" if "k \<le> 32" "i4_val a + 2 ^ (32 - k) = 2 ^ 32"
    using that mask [of k] netmask_length_mask_bytes [of k 4] by (simp add: i4_netmask_length_def)
  ultimately show ?thesis using mask by blast
qed

theorem i4_netmask_witness:
  "i4_is_netmask (i4_of_quad 255 255 254 0) \<and> i4_netmask_length (i4_of_quad 255 255 254 0) = 23"
proof -
  have "i4_valid (i4_of_quad 255 255 254 0)" by (simp add: i4_valid_def i4_of_quad_def)
  moreover have "i4_val (i4_of_quad 255 255 254 0) + 2 ^ (32 - 23) = 2 ^ 32"
    by (simp add: i4_val_def i4_of_quad_def be_val_Cons)
  moreover from this have
    "\<exists>k. 0 < k \<and> k \<le> 32 \<and> i4_val (i4_of_quad 255 255 254 0) + 2 ^ (32 - k) = 2 ^ 32"
    by (intro exI [of _ 23]) simp
  ultimately show ?thesis
    using i4_netmask [of "i4_of_quad 255 255 254 0" 23] by simp
qed

end
