(* ===== verification/Internet6.thy ===== *)
theory Internet6
  imports Address_Spec
begin

text \<open>
  The IPv6 address class (\<^verbatim>\<open>network/internet6_address.ipp\<close>): sixteen bytes in network
  order. \<open>inet_ntop\<close> and \<open>inet_pton\<close> of the C library are parameters.
\<close>

section \<open>Definitions\<close>

record internet6_address =
  i6_bytes :: "byte list"

definition i6_valid :: "internet6_address \<Rightarrow> bool" where
  "i6_valid a \<longleftrightarrow> length (i6_bytes a) = 16"

definition i6_default :: internet6_address where
  "i6_default = \<lparr>i6_bytes = [0, 0, 0, 0, 0, 0, 0, 0, 0, 0, 0, 0, 0, 0, 0, 0]\<rparr>"

text \<open>The eight low bytes first, least significant byte first, then the eight high bytes.\<close>

fun emit_bytes :: "nat \<Rightarrow> u64 \<Rightarrow> byte list" where
  "emit_bytes 0 w = []"
| "emit_bytes (Suc n) w = ucast (w AND 0xFF) # emit_bytes n (drop_bit 8 w)"

definition from_uint64s :: "u64 \<Rightarrow> u64 \<Rightarrow> byte list" where
  "from_uint64s low high = emit_bytes 8 low @ emit_bytes 8 high"

definition i6_incr :: "internet6_address \<Rightarrow> internet6_address" where
  "i6_incr a = a\<lparr>i6_bytes := incr (i6_bytes a)\<rparr>"

definition i6_decr :: "internet6_address \<Rightarrow> internet6_address" where
  "i6_decr a = a\<lparr>i6_bytes := decr (i6_bytes a)\<rparr>"

definition i6_add :: "internet6_address \<Rightarrow> int \<Rightarrow> ub + internet6_address" where
  "i6_add a num = map_sum id (\<lambda>bs. a\<lparr>i6_bytes := bs\<rparr>) (add (i6_bytes a) num)"

definition i6_sub :: "internet6_address \<Rightarrow> int \<Rightarrow> ub + internet6_address" where
  "i6_sub a num = map_sum id (\<lambda>bs. a\<lparr>i6_bytes := bs\<rparr>) (sub (i6_bytes a) num)"

text \<open>\<open>zero_upto a n\<close>: the conjunction \<open>bytes_[0] == 0 && \<dots> && bytes_[n-1] == 0\<close>.\<close>

definition zero_upto :: "internet6_address \<Rightarrow> nat \<Rightarrow> bool" where
  "zero_upto a n \<longleftrightarrow> (\<forall>i \<in> set [0..<n]. i6_bytes a ! i = 0)"

definition i6_is_unspecified :: "internet6_address \<Rightarrow> bool" where
  "i6_is_unspecified a \<longleftrightarrow> zero_upto a 16"

definition i6_is_loopback :: "internet6_address \<Rightarrow> bool" where
  "i6_is_loopback a \<longleftrightarrow> zero_upto a 15 \<and> i6_bytes a ! 15 = 1"

definition i6_is_link_local :: "internet6_address \<Rightarrow> bool" where
  "i6_is_link_local a \<longleftrightarrow> i6_bytes a ! 0 = 0xFE \<and> i6_bytes a ! 1 AND 0xC0 = 0x80"

definition i6_is_site_local :: "internet6_address \<Rightarrow> bool" where
  "i6_is_site_local a \<longleftrightarrow> i6_bytes a ! 0 = 0xFE \<and> i6_bytes a ! 1 AND 0xC0 = 0xC0"

definition i6_is_v4_mapped :: "internet6_address \<Rightarrow> bool" where
  "i6_is_v4_mapped a \<longleftrightarrow> zero_upto a 10 \<and> i6_bytes a ! 10 = 0xFF \<and> i6_bytes a ! 11 = 0xFF"

definition i6_is_v4_compatible :: "internet6_address \<Rightarrow> bool" where
  "i6_is_v4_compatible a \<longleftrightarrow> zero_upto a 12
     \<and> \<not> (i6_bytes a ! 12 = 0 \<and> i6_bytes a ! 13 = 0 \<and> i6_bytes a ! 14 = 0
          \<and> (i6_bytes a ! 15 = 0 \<or> i6_bytes a ! 15 = 1))"

definition i6_is_multicast :: "internet6_address \<Rightarrow> bool" where
  "i6_is_multicast a \<longleftrightarrow> i6_bytes a ! 0 = 0xFF"

definition i6_is_multicast_global :: "internet6_address \<Rightarrow> bool" where
  "i6_is_multicast_global a \<longleftrightarrow> i6_bytes a ! 0 = 0xFF \<and> i6_bytes a ! 1 AND 0x0F = 0x0E"

definition i6_is_multicast_link_local :: "internet6_address \<Rightarrow> bool" where
  "i6_is_multicast_link_local a \<longleftrightarrow> i6_bytes a ! 0 = 0xFF \<and> i6_bytes a ! 1 AND 0x0F = 0x02"

definition i6_is_multicast_node_local :: "internet6_address \<Rightarrow> bool" where
  "i6_is_multicast_node_local a \<longleftrightarrow> i6_bytes a ! 0 = 0xFF \<and> i6_bytes a ! 1 AND 0x0F = 0x01"

definition i6_is_multicast_org_local :: "internet6_address \<Rightarrow> bool" where
  "i6_is_multicast_org_local a \<longleftrightarrow> i6_bytes a ! 0 = 0xFF \<and> i6_bytes a ! 1 AND 0x0F = 0x08"

definition i6_is_multicast_site_local :: "internet6_address \<Rightarrow> bool" where
  "i6_is_multicast_site_local a \<longleftrightarrow> i6_bytes a ! 0 = 0xFF \<and> i6_bytes a ! 1 AND 0x0F = 0x05"

definition i6_is_netmask :: "internet6_address \<Rightarrow> bool" where
  "i6_is_netmask a \<longleftrightarrow> in_mask (i6_bytes a)"

definition i6_netmask_length :: "internet6_address \<Rightarrow> nat" where
  "i6_netmask_length a = netmask_length (i6_bytes a)"

definition i6_to_string :: "(byte list \<Rightarrow> string) \<Rightarrow> internet6_address \<Rightarrow> string" where
  "i6_to_string inet_ntop a = inet_ntop (i6_bytes a)"

text \<open>Eight 16-bit loads added to a 64-bit accumulator.\<close>

definition i6_checksum :: "internet6_address \<Rightarrow> u64 \<Rightarrow> u64" where
  "i6_checksum a s = foldl (\<lambda>s i. s + ucast (load16 (i6_bytes a) (2 * i))) s [0..<8]"

definition i6_any :: internet6_address where
  "i6_any = i6_default"

definition i6_loopback :: internet6_address where
  "i6_loopback = \<lparr>i6_bytes = [0, 0, 0, 0, 0, 0, 0, 0, 0, 0, 0, 0, 0, 0, 0, 1]\<rparr>"

text \<open>
  \<open>inet_pton\<close> returns 1 and fills the buffer, or leaves the address at its default and
  the caller sets the error code.
\<close>

definition i6_from_string_impl ::
  "(string \<Rightarrow> byte list option) \<Rightarrow> string \<Rightarrow> errc option \<Rightarrow> byte list \<times> errc option" where
  "i6_from_string_impl inet_pton s ec =
     (case inet_pton s of
        Some bs \<Rightarrow> (bs, ec)
      | None \<Rightarrow> (i6_bytes i6_default, Some address_family_not_supported))"

definition i6_from_string :: "(string \<Rightarrow> byte list option) \<Rightarrow> string \<Rightarrow> errc + internet6_address" where
  "i6_from_string inet_pton str =
     (case i6_from_string_impl inet_pton str None of
        (bs, None) \<Rightarrow> Inr \<lparr>i6_bytes = bs\<rparr>
      | (_, Some e) \<Rightarrow> Inl e)"

definition i6_from_string_ec ::
  "(string \<Rightarrow> byte list option) \<Rightarrow> string \<Rightarrow> errc option \<Rightarrow> internet6_address \<times> errc option" where
  "i6_from_string_ec inet_pton str ec =
     (let (bs, ec') = i6_from_string_impl inet_pton str ec in (\<lparr>i6_bytes = bs\<rparr>, ec'))"

definition i6_from_cstr :: "(string \<Rightarrow> byte list option) \<Rightarrow> string option \<Rightarrow> errc + internet6_address" where
  "i6_from_cstr inet_pton str =
     (case str of None \<Rightarrow> Inl invalid_argument | Some s \<Rightarrow> i6_from_string inet_pton s)"

definition i6_from_cstr_ec ::
  "(string \<Rightarrow> byte list option) \<Rightarrow> string option \<Rightarrow> errc option \<Rightarrow> internet6_address \<times> errc option" where
  "i6_from_cstr_ec inet_pton str ec =
     (case str of None \<Rightarrow> (i6_default, Some invalid_argument) | Some s \<Rightarrow> i6_from_string_ec inet_pton s ec)"

definition i6_equal :: "internet6_address \<Rightarrow> internet6_address \<Rightarrow> bool" where
  "i6_equal a b \<longleftrightarrow> i6_bytes a = i6_bytes b"

definition i6_less :: "internet6_address \<Rightarrow> internet6_address \<Rightarrow> bool" where
  "i6_less a b \<longleftrightarrow> bytes_less (i6_bytes a) (i6_bytes b)"

text \<open>Two 64-bit loads of a little-endian host, combined by exclusive or.\<close>

fun load_le :: "byte list \<Rightarrow> u64" where
  "load_le [] = 0"
| "load_le (b # bs) = ucast b OR push_bit 8 (load_le bs)"

definition i6_hash_value :: "internet6_address \<Rightarrow> u64" where
  "i6_hash_value a = load_le (take 8 (i6_bytes a)) XOR load_le (take 8 (drop 8 (i6_bytes a)))"

section \<open>The class satisfies the address interface\<close>

definition i6_val :: "internet6_address \<Rightarrow> nat" where
  "i6_val a = be_val (i6_bytes a)"

lemma i6_add_value:
  assumes "i6_valid a" "num \<noteq> ptrdiff_min"
  shows "\<exists>r. i6_add a num = Inr r \<and> i6_valid r \<and>
    int (i6_val r) = (int (i6_val a) + (if num < 0 then 2 * num else num)) mod 2 ^ 128"
  using add_value [OF assms(2), of "i6_bytes a"] assms(1)
  by (force simp: i6_add_def i6_valid_def i6_val_def)

lemma i6_sub_value:
  assumes "i6_valid a" "num \<noteq> ptrdiff_min"
  shows "\<exists>r. i6_sub a num = Inr r \<and> i6_valid r \<and>
    int (i6_val r) = (int (i6_val a) - (if num < 0 then 2 * num else num)) mod 2 ^ 128"
  using sub_value [OF assms(2), of "i6_bytes a"] assms(1)
  by (force simp: i6_sub_def i6_valid_def i6_val_def)

interpretation i6: address_class i6_valid i6_val "2 ^ 128" i6_incr i6_decr i6_add i6_sub i6_less
proof
  fix x y :: internet6_address and k :: int
  show "i6_valid x \<Longrightarrow> i6_val x < 2 ^ 128"
    using be_val_less [of "i6_bytes x"] by (simp add: i6_valid_def i6_val_def)
  show "i6_valid x \<Longrightarrow> i6_valid y \<Longrightarrow> i6_val x = i6_val y \<Longrightarrow> x = y"
    using be_val_inject [of "i6_bytes x" "i6_bytes y"] by (simp add: i6_valid_def i6_val_def)
  show "i6_valid x \<Longrightarrow> i6_valid (i6_incr x)" "i6_valid x \<Longrightarrow> i6_valid (i6_decr x)"
    by (simp_all add: i6_valid_def i6_incr_def i6_decr_def)
  show "i6_valid x \<Longrightarrow> i6_val (i6_incr x) = (i6_val x + 1) mod 2 ^ 128"
    by (simp add: i6_valid_def i6_val_def i6_incr_def be_val_incr)
  show "i6_valid x \<Longrightarrow> (i6_val (i6_decr x) + 1) mod 2 ^ 128 = i6_val x"
    using be_val_decr [of "i6_bytes x"] by (simp add: i6_valid_def i6_val_def i6_decr_def)
  show "i6_valid x \<Longrightarrow> 0 \<le> k \<Longrightarrow> k \<le> ptrdiff_max \<Longrightarrow>
      \<exists>y. i6_add x k = Inr y \<and> i6_valid y \<and> int (i6_val y) = (int (i6_val x) + k) mod int (2 ^ 128)"
    using i6_add_value [of x k] by (simp add: ptrdiff_min_def)
  show "i6_valid x \<Longrightarrow> 0 \<le> k \<Longrightarrow> k \<le> ptrdiff_max \<Longrightarrow>
      \<exists>y. i6_sub x k = Inr y \<and> i6_valid y \<and> int (i6_val y) = (int (i6_val x) - k) mod int (2 ^ 128)"
    using i6_sub_value [of x k] by (simp add: ptrdiff_min_def)
  show "i6_valid x \<Longrightarrow> i6_valid y \<Longrightarrow> i6_less x y = (i6_val x < i6_val y)"
    by (simp add: i6_less_def i6_val_def i6_valid_def bytes_less_iff)
qed

section \<open>Scopes\<close>

lemma zero_upto_0: "zero_upto a n \<Longrightarrow> 0 < n \<Longrightarrow> i6_bytes a ! 0 = 0"
  by (simp add: zero_upto_def)

lemma zero_upto_Suc: "zero_upto a (Suc n) \<longleftrightarrow> zero_upto a n \<and> i6_bytes a ! n = 0"
  by (auto simp: zero_upto_def)

lemma zero_upto_mono: "zero_upto a n \<Longrightarrow> m \<le> n \<Longrightarrow> zero_upto a m"
  by (auto simp: zero_upto_def)

text \<open>
  The scope predicates of IPv6 addresses exclude one another: an address satisfies at
  most one of unspecified, loopback, IPv4-mapped, IPv4-compatible, link-local,
  site-local and multicast, and a multicast address has at most one of the five
  scopes that the class names.
\<close>

theorem i6_scopes_exclusive:
  "length (filter (\<lambda>p. p a) [i6_is_unspecified, i6_is_loopback, i6_is_v4_mapped,
      i6_is_v4_compatible, i6_is_link_local, i6_is_site_local, i6_is_multicast]) \<le> 1
   \<and> length (filter (\<lambda>p. p a) [i6_is_multicast_global, i6_is_multicast_link_local,
      i6_is_multicast_node_local, i6_is_multicast_org_local, i6_is_multicast_site_local])
     \<le> (if i6_is_multicast a then 1 else 0)"
proof -
  have z: "zero_upto a 16 \<longleftrightarrow> zero_upto a 15 \<and> i6_bytes a ! 15 = 0"
    "zero_upto a 15 \<longleftrightarrow> zero_upto a 14 \<and> i6_bytes a ! 14 = 0"
    "zero_upto a 14 \<longleftrightarrow> zero_upto a 13 \<and> i6_bytes a ! 13 = 0"
    "zero_upto a 13 \<longleftrightarrow> zero_upto a 12 \<and> i6_bytes a ! 12 = 0"
    "zero_upto a 12 \<longleftrightarrow> zero_upto a 11 \<and> i6_bytes a ! 11 = 0"
    "zero_upto a 11 \<longleftrightarrow> zero_upto a 10 \<and> i6_bytes a ! 10 = 0"
    using zero_upto_Suc [of a 15] zero_upto_Suc [of a 14] zero_upto_Suc [of a 13]
      zero_upto_Suc [of a 12] zero_upto_Suc [of a 11] zero_upto_Suc [of a 10] by simp_all
  have z0: "zero_upto a 10 \<Longrightarrow> i6_bytes a ! 0 = 0" by (simp add: zero_upto_0 [where n = 10])
  show ?thesis
    using z0
    by (auto simp: i6_is_unspecified_def i6_is_loopback_def i6_is_v4_mapped_def
        i6_is_v4_compatible_def i6_is_link_local_def i6_is_site_local_def i6_is_multicast_def
        i6_is_multicast_global_def i6_is_multicast_link_local_def i6_is_multicast_node_local_def
        i6_is_multicast_org_local_def i6_is_multicast_site_local_def z)
qed

section \<open>Construction from two 64-bit numbers\<close>

lemma unat_low_byte: "unat (ucast (w AND 0xFF :: u64) :: byte) = unat w mod 256"
proof -
  have "w AND 0xFF = take_bit 8 w" by (simp add: take_bit_eq_mask mask_eq_exp_minus_1)
  moreover have "unat (take_bit 8 w) = unat w mod 256"
    by (subst unsigned_take_bit_eq) (simp add: take_bit_eq_mod)
  ultimately show ?thesis by (simp add: unat_ucast_mod)
qed

lemma le_val_emit_bytes: "le_val (emit_bytes n w) = unat w mod 256 ^ n"
proof (induction n arbitrary: w)
  case (Suc n)
  have "unat w mod (256 * 256 ^ n) = 256 * (unat w div 256 mod 256 ^ n) + unat w mod 256"
    by (rule mod_mult2_eq)
  then show ?case
    by (simp add: Suc.IH unat_low_byte unat_drop_bit)
qed simp

lemma length_emit_bytes [simp]: "length (emit_bytes n w) = n"
  by (induction n arbitrary: w) simp_all

text \<open>
  \<open>from_uint64s\<close> stores the 128-bit number \<open>high * 2 ^ 64 + low\<close> least significant byte
  first, so it yields an address in network order only through a reverse iterator.
\<close>

lemma from_uint64s_value: "be_val (rev (from_uint64s low high)) = unat high * 2 ^ 64 + unat low"
  using unat_less_pow [of low] unat_less_pow [of high]
  by (simp add: from_uint64s_def be_val_def le_val_append le_val_emit_bytes)

end
