(* ===== verification/Prefix_Address.thy ===== *)
theory Prefix_Address
  imports Internet4 Internet6
begin

text \<open>
  Network prefixes (\<^verbatim>\<open>network/basic_prefix_address.ipp\<close>), the class template instantiated
  for IPv4 and IPv6. The address of a prefix is its byte array. Writes past the end of
  the array, shifts by the width of \<open>int\<close> or more and signed overflow are results of the
  model; the loops of \<open>+=\<close> and \<open>-=\<close>, which need not end, take fuel.
\<close>

section \<open>Definitions\<close>

datatype family = internet4 | internet6

fun max_masklen :: "family \<Rightarrow> nat" where
  "max_masklen internet4 = 32"
| "max_masklen internet6 = 128"

definition addr_bytes :: "family \<Rightarrow> nat" where
  "addr_bytes T = max_masklen T div 8"

record basic_prefix_address =
  prefix_masklen :: u16
  prefix_address :: "byte list"

definition prefix_default :: "family \<Rightarrow> basic_prefix_address" where
  "prefix_default T = \<lparr>prefix_masklen = 0, prefix_address = replicate (addr_bytes T) 0\<rparr>"

text \<open>The mask \<open>~static_cast<std::uint8_t>((0x01 << (8 - r)) - 1)\<close>.\<close>

definition high_mask :: "nat \<Rightarrow> byte" where
  "high_mask r = NOT (word_of_nat (2 ^ (8 - r) - 1))"

text \<open>
  The loop of \<open>assign\<close> and the store after it: \<open>iit\<close> and \<open>oit\<close> are what is left of the
  input and of the output array.
\<close>

fun assign_loop :: "nat \<Rightarrow> byte list \<Rightarrow> byte list \<Rightarrow> ub + byte list" where
  "assign_loop masklen (i # iit) (o' # oit) =
     (if 8 \<le> masklen then map_sum id ((#) i) (assign_loop (masklen - 8) iit oit)
      else Inr ((i AND high_mask masklen) # oit))"
| "assign_loop masklen _ _ = Inl Array_Overrun"

definition prefix_assign :: "family \<Rightarrow> byte list \<Rightarrow> u16 \<Rightarrow> ub + basic_prefix_address" where
  "prefix_assign T address masklen =
     (let ml = min masklen (word_of_nat (max_masklen T));
          any = replicate (addr_bytes T) 0
      in map_sum id (\<lambda>bs. \<lparr>prefix_masklen = ml, prefix_address = bs\<rparr>) (assign_loop (unat ml) address any))"

fun netmask_loop :: "nat \<Rightarrow> nat \<Rightarrow> byte list \<Rightarrow> ub + byte list" where
  "netmask_loop 0 r (b # it) = Inr (high_mask r # it)"
| "netmask_loop (Suc len) r (b # it) = map_sum id ((#) 0xFF) (netmask_loop len r it)"
| "netmask_loop len r [] = Inl Array_Overrun"

definition prefix_netmask :: "family \<Rightarrow> basic_prefix_address \<Rightarrow> ub + byte list" where
  "prefix_netmask T p =
     netmask_loop (unat (prefix_masklen p) div 8) (unat (prefix_masklen p) mod 8) (replicate (addr_bytes T) 0)"

text \<open>The shift distance \<open>detail::max_masklen<T>() - masklen_\<close>.\<close>

definition host_bits :: "family \<Rightarrow> basic_prefix_address \<Rightarrow> nat" where
  "host_bits T p = max_masklen T - unat (prefix_masklen p)"

text \<open>\<open>1 << s\<close> on \<open>int\<close> as C++14 has it: the sign bit is reachable, the width is not.\<close>

definition int_shl_1 :: "nat \<Rightarrow> ub + int" where
  "int_shl_1 s = (if 32 \<le> s then Inl Shift_Overflow else Inr (sint (push_bit s (1 :: u32))))"

definition prefix_incr :: "family \<Rightarrow> basic_prefix_address \<Rightarrow> ub + basic_prefix_address" where
  "prefix_incr T p =
     (case int_shl_1 (host_bits T p) of
        Inl e \<Rightarrow> Inl e
      | Inr k \<Rightarrow> map_sum id (\<lambda>bs. p\<lparr>prefix_address := bs\<rparr>) (add (prefix_address p) k))"

definition prefix_decr :: "family \<Rightarrow> basic_prefix_address \<Rightarrow> ub + basic_prefix_address" where
  "prefix_decr T p =
     (case int_shl_1 (host_bits T p) of
        Inl e \<Rightarrow> Inl e
      | Inr k \<Rightarrow> map_sum id (\<lambda>bs. p\<lparr>prefix_address := bs\<rparr>) (sub (prefix_address p) k))"

text \<open>
  The loop of \<open>+=\<close> and \<open>-=\<close>, with \<open>op\<close> the address operation: \<open>i\<close> is an \<open>unsigned int\<close>,
  \<open>num\<close> a \<open>long\<close>. Out of fuel is \<open>None\<close>.
\<close>

fun prefix_step_loop ::
  "(byte list \<Rightarrow> int \<Rightarrow> ub + byte list) \<Rightarrow> nat \<Rightarrow> nat \<Rightarrow> u32 \<Rightarrow> int \<Rightarrow> byte list \<Rightarrow> (ub + byte list) option"
where
  "prefix_step_loop op 0 len i num bs = None"
| "prefix_step_loop op (Suc fuel) len i num bs =
     (if num = 0 then Some (Inr bs)
      else if 32 \<le> len then Some (Inl Shift_Overflow)
      else case op bs (uint (push_bit len i)) of
             Inl e \<Rightarrow> Some (Inl e)
           | Inr bs' \<Rightarrow> prefix_step_loop op fuel len (push_bit 1 i) (num - uint i) bs')"

definition prefix_add :: "nat \<Rightarrow> family \<Rightarrow> basic_prefix_address \<Rightarrow> int \<Rightarrow> (ub + basic_prefix_address) option" where
  "prefix_add fuel T p num =
     (if num = ptrdiff_min then Some (Inl Signed_Overflow)
      else map_option (map_sum id (\<lambda>bs. p\<lparr>prefix_address := bs\<rparr>))
        (prefix_step_loop (if num < 0 then sub else add) fuel (host_bits T p) 1 \<bar>num\<bar> (prefix_address p)))"

definition prefix_sub :: "nat \<Rightarrow> family \<Rightarrow> basic_prefix_address \<Rightarrow> int \<Rightarrow> (ub + basic_prefix_address) option" where
  "prefix_sub fuel T p num =
     (if num = ptrdiff_min then Some (Inl Signed_Overflow)
      else map_option (map_sum id (\<lambda>bs. p\<lparr>prefix_address := bs\<rparr>))
        (prefix_step_loop (if num < 0 then add else sub) fuel (host_bits T p) 1 \<bar>num\<bar> (prefix_address p)))"

definition prefix_equal :: "basic_prefix_address \<Rightarrow> basic_prefix_address \<Rightarrow> bool" where
  "prefix_equal p q \<longleftrightarrow> prefix_masklen p = prefix_masklen q \<and> prefix_address p = prefix_address q"

definition prefix_less :: "basic_prefix_address \<Rightarrow> basic_prefix_address \<Rightarrow> bool" where
  "prefix_less p q \<longleftrightarrow> prefix_masklen p < prefix_masklen q \<or> bytes_less (prefix_address p) (prefix_address q)"

text \<open>A digit is kept only when it is not \<open>'0'\<close>, except for the last one.\<close>

definition masklen_str :: "nat \<Rightarrow> string" where
  "masklen_str n =
     (if n div 100 mod 10 \<noteq> 0 then [dec_digit (n div 100 mod 10)] else []) @
     (if n div 10 mod 10 \<noteq> 0 then [dec_digit (n div 10 mod 10)] else []) @ [dec_digit (n mod 10)]"

definition prefix_to_string :: "(byte list \<Rightarrow> string) \<Rightarrow> basic_prefix_address \<Rightarrow> string" where
  "prefix_to_string to_string p = to_string (prefix_address p) @ ''/'' @ masklen_str (unat (prefix_masklen p))"

definition prefix_valid :: "family \<Rightarrow> basic_prefix_address \<Rightarrow> bool" where
  "prefix_valid T p \<longleftrightarrow> unat (prefix_masklen p) \<le> max_masklen T \<and> length (prefix_address p) = addr_bytes T"

section \<open>Assignment and netmask\<close>

lemma addr_bytes_simps [simp]: "addr_bytes internet4 = 4" "addr_bytes internet6 = 16"
  by (simp_all add: addr_bytes_def)

lemma max_masklen_bytes: "max_masklen T = 8 * addr_bytes T"
  by (cases T) simp_all

lemma high_mask_table: "r < 8 \<Longrightarrow> high_mask r = partial_mask_bytes ! r"
proof -
  have "\<forall>i \<in> set [0..<8]. high_mask i = partial_mask_bytes ! i" by code_simp
  then show "r < 8 \<Longrightarrow> ?thesis" by simp
qed

lemma high_mask_not: "r < 8 \<Longrightarrow> high_mask r = NOT (mask (8 - r))"
proof -
  have "\<forall>i \<in> set [0..<8]. high_mask i = NOT (mask (8 - i))" by code_simp
  then show "r < 8 \<Longrightarrow> ?thesis" by simp
qed

lemma netmask_loop_mask_bytes:
  "k < 8 * n \<Longrightarrow> netmask_loop (k div 8) (k mod 8) (replicate n 0) = Inr (mask_bytes n k)"
proof (induction n k rule: mask_bytes.induct)
  case (2 n k)
  show ?case
  proof (cases "8 \<le> k")
    case True
    then have "k div 8 = Suc ((k - 8) div 8)" "k mod 8 = (k - 8) mod 8"
      by (simp_all add: le_div_geq le_mod_geq)
    then show ?thesis using 2 True by simp
  next
    case False
    then show ?thesis by (simp add: high_mask_table)
  qed
qed simp

lemma netmask_loop_overrun: "8 * n \<le> k \<Longrightarrow> netmask_loop (k div 8) r (replicate n 0) = Inl Array_Overrun"
proof (induction n arbitrary: k)
  case (Suc n)
  then have "k div 8 = Suc ((k - 8) div 8)" by (simp add: le_div_geq)
  with Suc show ?case by simp
qed simp

text \<open>
  \<open>netmask()\<close> of a prefix of length \<open>k\<close> is the mask with the first \<open>k\<close> bits set, and
  \<open>netmask_length\<close> of it is \<open>k\<close> again. At the full length (/32 for IPv4, /128 for IPv6)
  the final store is one byte past the end of the address array.
\<close>

theorem prefix_netmask_correct:
  assumes "prefix_valid T p"
  shows "(unat (prefix_masklen p) < max_masklen T \<longrightarrow>
      (\<exists>bs. prefix_netmask T p = Inr bs \<and> netmask_length bs = unat (prefix_masklen p)
        \<and> be_val bs + 2 ^ host_bits T p = 2 ^ max_masklen T))
    \<and> (unat (prefix_masklen p) = max_masklen T \<longrightarrow> prefix_netmask T p = Inl Array_Overrun)"
  using netmask_loop_mask_bytes [of "unat (prefix_masklen p)" "addr_bytes T"]
    netmask_loop_overrun [of "addr_bytes T" "unat (prefix_masklen p)"]
    be_val_mask_bytes [of "unat (prefix_masklen p)" "addr_bytes T"]
    netmask_length_mask_bytes [of "unat (prefix_masklen p)" "addr_bytes T"]
  by (auto simp: prefix_netmask_def host_bits_def max_masklen_bytes)

theorem prefix_netmask_correct_witness:
  "(\<exists>bs. prefix_netmask internet4 \<lparr>prefix_masklen = 20, prefix_address = [192, 168, 96, 0]\<rparr> = Inr bs \<and> netmask_length bs = 20)
   \<and> prefix_netmask internet4 \<lparr>prefix_masklen = 32, prefix_address = [192, 168, 96, 2]\<rparr> = Inl Array_Overrun"
  using prefix_netmask_correct [of internet4 "\<lparr>prefix_masklen = 20, prefix_address = [192, 168, 96, 0]\<rparr>"]
    prefix_netmask_correct [of internet4 "\<lparr>prefix_masklen = 32, prefix_address = [192, 168, 96, 2]\<rparr>"]
  by (auto simp: prefix_valid_def)

lemma assign_loop_value:
  "masklen < 8 * length iit \<Longrightarrow> length oit = length iit \<Longrightarrow> oit = replicate (length iit) 0 \<Longrightarrow>
   \<exists>bs. assign_loop masklen iit oit = Inr bs \<and> length bs = length iit \<and>
     be_val bs = be_val iit div 2 ^ (8 * length iit - masklen) * 2 ^ (8 * length iit - masklen)"
proof (induction masklen iit oit rule: assign_loop.induct)
  case (1 masklen i iit o' oit)
  let ?n = "length iit"
  have e: "(256 :: nat) ^ ?n = 2 ^ (8 * ?n)" by (simp add: power_mult)
  show ?case
  proof (cases "8 \<le> masklen")
    case True
    let ?k = "8 * ?n - (masklen - 8)"
    have lt: "masklen - 8 < 8 * ?n" and len: "oit = replicate ?n 0" using 1 True by auto
    obtain bs where bs: "assign_loop (masklen - 8) iit oit = Inr bs" "length bs = ?n"
        "be_val bs = be_val iit div 2 ^ ?k * 2 ^ ?k"
      using "1.IH" [OF True] lt len by auto
    have dvd: "(2 :: nat) ^ ?k dvd unat i * 256 ^ ?n" unfolding e by (simp add: le_imp_power_dvd)
    then have "(unat i * 256 ^ ?n + be_val iit) div 2 ^ ?k * 2 ^ ?k
        = unat i * 256 ^ ?n + be_val iit div 2 ^ ?k * 2 ^ ?k"
      by (simp add: div_plus_div_distrib_dvd_left add_mult_distrib)
    moreover have "8 * length (i # iit) - masklen = ?k" using True by simp
    ultimately show ?thesis using bs True by (simp add: be_val_Cons)
  next
    case False
    let ?j = "8 - masklen"
    have exp: "(2 :: nat) ^ (8 * length (i # iit) - masklen) = 256 ^ ?n * 2 ^ ?j"
      using False by (simp add: e flip: power_add)
    have "be_val (i # iit) div 256 ^ ?n = unat i"
      using be_val_less [of iit] by (simp add: be_val_Cons)
    then have "be_val (i # iit) div (256 ^ ?n * 2 ^ ?j) = unat i div 2 ^ ?j"
      by (simp add: div_mult2_eq)
    moreover have "be_val oit = 0" "length oit = ?n" using 1 by simp_all
    moreover have "unat (i AND high_mask masklen) = unat i div 2 ^ ?j * 2 ^ ?j"
      using False by (simp add: unat_and_high [OF high_mask_not])
    ultimately show ?thesis using False unfolding exp by (simp add: be_val_Cons)
  qed
qed simp_all

lemma assign_loop_overrun:
  "8 * length iit \<le> masklen \<Longrightarrow> length oit = length iit \<Longrightarrow> assign_loop masklen iit oit = Inl Array_Overrun"
  by (induction masklen iit oit rule: assign_loop.induct) auto

lemma prefix_assign_min:
  "prefix_assign T a masklen =
     (if max_masklen T \<le> unat masklen
      then map_sum id (\<lambda>bs. \<lparr>prefix_masklen = word_of_nat (max_masklen T), prefix_address = bs\<rparr>)
        (assign_loop (max_masklen T) a (replicate (addr_bytes T) 0))
      else map_sum id (\<lambda>bs. \<lparr>prefix_masklen = masklen, prefix_address = bs\<rparr>)
        (assign_loop (unat masklen) a (replicate (addr_bytes T) 0)))"
proof -
  have n: "unat (word_of_nat (max_masklen T) :: u16) = max_masklen T" by (cases T) simp_all
  then have iff: "word_of_nat (max_masklen T) \<le> masklen \<longleftrightarrow> max_masklen T \<le> unat masklen"
    by (simp add: word_le_nat_alt)
  show ?thesis
  proof (cases "max_masklen T \<le> unat masklen")
    case True
    then have "min masklen (word_of_nat (max_masklen T)) = word_of_nat (max_masklen T)"
      using iff by (simp add: min_absorb2)
    with True n show ?thesis by (simp add: prefix_assign_def Let_def)
  next
    case False
    then have "min masklen (word_of_nat (max_masklen T)) = masklen" using iff by (simp add: min_absorb1)
    with False show ?thesis by (simp add: prefix_assign_def Let_def)
  qed
qed

text \<open>
  \<open>assign\<close> keeps the first \<open>masklen\<close> bits of the address and clears the others, so
  that assigning the result again changes nothing. A length of the full width or more
  reads and writes one byte past the end of the two arrays.
\<close>

theorem prefix_assign_correct:
  assumes "length address = addr_bytes T"
  shows "(unat masklen < max_masklen T \<longrightarrow>
      (\<exists>p. prefix_assign T address masklen = Inr p \<and> prefix_valid T p \<and> prefix_masklen p = masklen
        \<and> be_val (prefix_address p) = be_val address div 2 ^ host_bits T p * 2 ^ host_bits T p
        \<and> prefix_assign T (prefix_address p) masklen = Inr p))
    \<and> (max_masklen T \<le> unat masklen \<longrightarrow> prefix_assign T address masklen = Inl Array_Overrun)"
proof (intro conjI impI)
  assume "max_masklen T \<le> unat masklen"
  then show "prefix_assign T address masklen = Inl Array_Overrun"
    using assms assign_loop_overrun [of address "max_masklen T"] by (simp add: prefix_assign_min max_masklen_bytes)
next
  let ?h = "max_masklen T - unat masklen"
  have loop: "\<exists>bs. assign_loop (unat masklen) a (replicate (addr_bytes T) 0) = Inr bs \<and> length bs = addr_bytes T
      \<and> be_val bs = be_val a div 2 ^ ?h * 2 ^ ?h"
    if "unat masklen < max_masklen T" "length a = addr_bytes T" for a
  proof -
    have "unat masklen < 8 * length a" using that by (simp only: max_masklen_bytes)
    then show ?thesis using assign_loop_value [of "unat masklen" a "replicate (length a) 0"]
      by (simp only: that(2) max_masklen_bytes length_replicate)
  qed
  assume less: "unat masklen < max_masklen T"
  obtain bs where bs: "assign_loop (unat masklen) address (replicate (addr_bytes T) 0) = Inr bs"
      "length bs = addr_bytes T" "be_val bs = be_val address div 2 ^ ?h * 2 ^ ?h"
    using loop [OF less assms] by blast
  obtain bs' where bs': "assign_loop (unat masklen) bs (replicate (addr_bytes T) 0) = Inr bs'"
      "length bs' = addr_bytes T" "be_val bs' = be_val bs div 2 ^ ?h * 2 ^ ?h"
    using loop [OF less bs(2)] by blast
  have "be_val bs' = be_val bs" unfolding bs'(3) bs(3) by simp
  then have "bs' = bs" using bs(2) bs'(2) be_val_inject by metis
  then show "\<exists>p. prefix_assign T address masklen = Inr p \<and> prefix_valid T p \<and> prefix_masklen p = masklen
      \<and> be_val (prefix_address p) = be_val address div 2 ^ host_bits T p * 2 ^ host_bits T p
      \<and> prefix_assign T (prefix_address p) masklen = Inr p"
    using bs bs' less by (simp add: prefix_assign_min prefix_valid_def host_bits_def)
qed

theorem prefix_assign_correct_witness:
  "(\<exists>p. prefix_assign internet4 [192, 168, 111, 222] 20 = Inr p \<and> be_val (prefix_address p) = be_val [192, 168, 96, 0])
   \<and> prefix_assign internet4 [192, 168, 111, 222] 32 = Inl Array_Overrun"
  using prefix_assign_correct [of "[192, 168, 111, 222]" internet4 20]
    prefix_assign_correct [of "[192, 168, 111, 222]" internet4 32]
  by (auto simp: be_val_def host_bits_def)

section \<open>Steps between prefixes\<close>

lemma int_shl_1_cases:
  "int_shl_1 s = (if 32 \<le> s then Inl Shift_Overflow else if s = 31 then Inr (- (2 ^ 31)) else Inr (2 ^ s))"
proof -
  have "\<forall>i \<in> set [0..<31]. sint (push_bit i (1 :: u32)) = 2 ^ i" by code_simp
  moreover have "sint (push_bit 31 (1 :: u32)) = - (2 ^ 31)" by code_simp
  ultimately show ?thesis by (auto simp: int_shl_1_def)
qed

lemma not_ptrdiff_min: "0 \<le> k \<Longrightarrow> k \<noteq> ptrdiff_min" "- (2 ^ 31) \<noteq> ptrdiff_min"
  by (auto simp: ptrdiff_min_def)

lemma add_int: "k \<noteq> ptrdiff_min \<Longrightarrow> \<exists>bs'. add bs k = Inr bs' \<and> length bs' = length bs \<and>
    int (be_val bs') = (int (be_val bs) + (if k < 0 then 2 * k else k)) mod 256 ^ length bs"
  by (rule add_value) auto

lemma sub_int: "k \<noteq> ptrdiff_min \<Longrightarrow> \<exists>bs'. sub bs k = Inr bs' \<and> length bs' = length bs \<and>
    int (be_val bs') = (int (be_val bs) - (if k < 0 then 2 * k else k)) mod 256 ^ length bs"
  by (rule sub_value) auto

lemma pow_max_masklen: "(256 :: int) ^ addr_bytes T = 2 ^ max_masklen T"
  by (simp add: max_masklen_bytes power_mult)

text \<open>
  \<open>++\<close> and \<open>--\<close> move a prefix with up to 30 host bits to the next and the previous
  network. With 31 host bits \<open>1 << 31\<close> is negative, and the address moves by \<open>2 ^ 32\<close> the other way:
  an IPv4 /1 prefix does not move at all. With 32 or more (IPv4 /0,
  every IPv6 prefix shorter than /97) the shift is undefined.
\<close>

theorem prefix_steps:
  assumes "prefix_valid T p"
  shows "(host_bits T p \<le> 30 \<longrightarrow>
      (\<exists>q. prefix_incr T p = Inr q \<and> prefix_valid T q \<and> prefix_masklen q = prefix_masklen p \<and> int (be_val (prefix_address q))
          = (int (be_val (prefix_address p)) + 2 ^ host_bits T p) mod 2 ^ max_masklen T) \<and>
      (\<exists>q. prefix_decr T p = Inr q \<and> prefix_valid T q \<and> prefix_masklen q = prefix_masklen p \<and> int (be_val (prefix_address q))
          = (int (be_val (prefix_address p)) - 2 ^ host_bits T p) mod 2 ^ max_masklen T))
    \<and> (host_bits T p = 31 \<longrightarrow>
      (\<exists>q. prefix_incr T p = Inr q \<and> int (be_val (prefix_address q))
          = (int (be_val (prefix_address p)) - 2 ^ 32) mod 2 ^ max_masklen T))
    \<and> (32 \<le> host_bits T p \<longrightarrow>
      prefix_incr T p = Inl Shift_Overflow \<and> prefix_decr T p = Inl Shift_Overflow)"
proof (intro conjI impI)
  let ?v = "int (be_val (prefix_address p))"
  have len: "length (prefix_address p) = addr_bytes T" using assms by (simp add: prefix_valid_def)
  show "\<exists>q. prefix_incr T p = Inr q \<and> prefix_valid T q \<and> prefix_masklen q = prefix_masklen p
      \<and> int (be_val (prefix_address q)) = (?v + 2 ^ host_bits T p) mod 2 ^ max_masklen T"
    if h: "host_bits T p \<le> 30"
  proof -
    obtain bs where "add (prefix_address p) (2 ^ host_bits T p) = Inr bs" "length bs = addr_bytes T"
        "int (be_val bs) = (?v + 2 ^ host_bits T p) mod 2 ^ max_masklen T"
      using add_int [OF not_ptrdiff_min(1), of "2 ^ host_bits T p" "prefix_address p"]
      by (auto simp: len pow_max_masklen)
    then show ?thesis using h assms by (simp add: prefix_incr_def int_shl_1_cases prefix_valid_def)
  qed
  show "\<exists>q. prefix_decr T p = Inr q \<and> prefix_valid T q \<and> prefix_masklen q = prefix_masklen p
      \<and> int (be_val (prefix_address q)) = (?v - 2 ^ host_bits T p) mod 2 ^ max_masklen T"
    if h: "host_bits T p \<le> 30"
  proof -
    obtain bs where "sub (prefix_address p) (2 ^ host_bits T p) = Inr bs" "length bs = addr_bytes T"
        "int (be_val bs) = (?v - 2 ^ host_bits T p) mod 2 ^ max_masklen T"
      using sub_int [OF not_ptrdiff_min(1), of "2 ^ host_bits T p" "prefix_address p"]
      by (auto simp: len pow_max_masklen)
    then show ?thesis using h assms by (simp add: prefix_decr_def int_shl_1_cases prefix_valid_def)
  qed
  show "\<exists>q. prefix_incr T p = Inr q \<and> int (be_val (prefix_address q)) = (?v - 2 ^ 32) mod 2 ^ max_masklen T"
    if h: "host_bits T p = 31"
    using add_int [OF not_ptrdiff_min(2), of "prefix_address p"] h
    by (auto simp: len pow_max_masklen prefix_incr_def int_shl_1_cases)
qed (simp_all add: prefix_incr_def prefix_decr_def int_shl_1_cases)

theorem prefix_steps_witness:
  "(\<exists>q. prefix_incr internet4 \<lparr>prefix_masklen = 24, prefix_address = [10, 0, 255, 0]\<rparr> = Inr q
      \<and> int (be_val (prefix_address q)) = int (be_val [10, 1, 0, 0]))
   \<and> (\<exists>q. prefix_incr internet4 \<lparr>prefix_masklen = 1, prefix_address = [0, 0, 0, 0]\<rparr> = Inr q
      \<and> be_val (prefix_address q) = 0)
   \<and> prefix_incr internet6 \<lparr>prefix_masklen = 64, prefix_address = replicate 16 0\<rparr> = Inl Shift_Overflow"
  using prefix_steps [of internet4 "\<lparr>prefix_masklen = 24, prefix_address = [10, 0, 255, 0]\<rparr>"]
    prefix_steps [of internet4 "\<lparr>prefix_masklen = 1, prefix_address = [0, 0, 0, 0]\<rparr>"]
    prefix_steps [of internet6 "\<lparr>prefix_masklen = 64, prefix_address = replicate 16 0\<rparr>"]
  by (auto simp: prefix_valid_def host_bits_def be_val_def)

section \<open>Moving by several networks\<close>

lemma push_bit_1_two_power: "push_bit 1 (word_of_nat (2 ^ j) :: u32) = word_of_nat (2 ^ Suc j)"
  by (simp add: push_bit_eq_mult)

lemma uint_word_two_power: "j \<le> 32 \<Longrightarrow> uint (word_of_nat (2 ^ j) :: u32) = (if j = 32 then 0 else 2 ^ j)"
proof -
  assume j: "j \<le> 32"
  have "uint (word_of_nat (2 ^ j) :: u32) = 2 ^ j mod 2 ^ 32"
    by (simp only: unsigned_of_nat take_bit_eq_mod zmod_int) simp
  moreover have "(2 :: int) ^ j < 2 ^ 32" if "j \<noteq> 32"
    using j that by (intro power_strict_increasing) simp_all
  ultimately show ?thesis by auto
qed

lemma word_two_power_32: "(word_of_nat (2 ^ 32) :: u32) = 0"
  by simp

lemma prefix_step_loop_next:
  assumes "len < 32" "j < 32" "num \<noteq> 0" "op bs (uint (push_bit len (word_of_nat (2 ^ j) :: u32))) = Inr bs'"
  shows "prefix_step_loop op (Suc fuel) len (word_of_nat (2 ^ j)) num bs
    = prefix_step_loop op fuel len (word_of_nat (2 ^ Suc j)) (num - 2 ^ j) bs'"
proof -
  have "uint (word_of_nat (2 ^ j) :: u32) = 2 ^ j" using uint_word_two_power [of j] assms(2) by simp
  then show ?thesis using assms(1,3,4) unfolding push_bit_1_two_power [symmetric] by (simp del: of_nat_power)
qed

lemma two_power_next: "(\<exists>k. j \<le> k \<and> k \<le> 32 \<and> (num :: int) = 2 ^ k - 2 ^ j \<and> k - j < Suc fuel) \<longleftrightarrow>
    num = 0 \<or> (\<exists>k. Suc j \<le> k \<and> k \<le> 32 \<and> num - 2 ^ j = 2 ^ k - 2 ^ Suc j \<and> k - Suc j < fuel)"
  if "j < 32"
proof -
  have "num = 2 ^ k - 2 ^ j \<longleftrightarrow> num - 2 ^ j = 2 ^ k - 2 ^ Suc j" for k by auto
  moreover have "j \<le> k \<longleftrightarrow> k = j \<or> Suc j \<le> k" for k by auto
  moreover have "k - Suc j < fuel \<longleftrightarrow> k - j < Suc fuel" if "Suc j \<le> k" for k using that by auto
  ultimately show ?thesis using that
    by (smt (verit, ccfv_threshold) diff_self_eq_0 less_imp_le zero_less_Suc)
qed

text \<open>The loop returns exactly when \<open>num\<close> is what the doubling steps add up to.\<close>

lemma prefix_step_loop_returns:
  assumes "len < 32" and op: "\<And>bs x. 0 \<le> x \<Longrightarrow> \<exists>bs'. op bs x = Inr bs'"
  shows "j \<le> 32 \<Longrightarrow> prefix_step_loop op fuel len (word_of_nat (2 ^ j)) num bs \<noteq> None \<longleftrightarrow>
    (\<exists>k. j \<le> k \<and> k \<le> 32 \<and> num = 2 ^ k - 2 ^ j \<and> k - j < fuel)"
proof (induction fuel arbitrary: j num bs)
  case (Suc fuel)
  let ?i = "word_of_nat (2 ^ j) :: u32"
  obtain bs' where bs': "op bs (uint (push_bit len ?i)) = Inr bs'" using op by fastforce
  show ?case
  proof (cases "j = 32")
    case True
    have "prefix_step_loop op fuel len 0 num bs' \<noteq> None \<longleftrightarrow> num = 0 \<and> 0 < fuel"
      using Suc.IH [of 32 num bs'] unfolding word_two_power_32 by auto
    moreover have "op bs 0 = Inr bs'" using bs' unfolding True word_two_power_32 by simp
    ultimately have "prefix_step_loop op (Suc fuel) len 0 num bs \<noteq> None \<longleftrightarrow> num = 0"
      using assms(1) by auto
    moreover have "(\<exists>k. 32 \<le> k \<and> k \<le> 32 \<and> num = 2 ^ k - 2 ^ 32 \<and> k - 32 < Suc fuel) \<longleftrightarrow> num = 0"
      by (metis diff_self diff_self_eq_0 order_antisym order_refl zero_less_Suc)
    ultimately show ?thesis unfolding True word_two_power_32 by blast
  next
    case False
    then have j: "j < 32" using Suc.prems by simp
    have "prefix_step_loop op (Suc fuel) len ?i num bs \<noteq> None \<longleftrightarrow>
        num = 0 \<or> prefix_step_loop op fuel len (word_of_nat (2 ^ Suc j)) (num - 2 ^ j) bs' \<noteq> None"
      using prefix_step_loop_next [of len j num op bs bs'] bs' assms(1) j
      by (cases "num = 0") simp_all
    also have "\<dots> \<longleftrightarrow> num = 0 \<or> (\<exists>k. Suc j \<le> k \<and> k \<le> 32 \<and> num - 2 ^ j = 2 ^ k - 2 ^ Suc j \<and> k - Suc j < fuel)"
      using Suc.IH [of "Suc j" "num - 2 ^ j" bs'] j by simp
    finally show ?thesis unfolding two_power_next [OF j] .
  qed
qed simp

lemma uint_shifted_power:
  "uint (push_bit len (word_of_nat (2 ^ j) :: u32)) = 2 ^ min (Suc j + len) 32 - 2 ^ min (j + len) 32"
proof -
  have p: "push_bit len (word_of_nat (2 ^ j) :: u32) = word_of_nat (2 ^ (j + len))"
    by (simp add: push_bit_eq_mult power_add)
  show ?thesis
  proof (cases "j + len < 32")
    case True
    then show ?thesis unfolding p using uint_word_two_power [of "j + len"] by (simp del: of_nat_power)
  next
    case False
    then have "(2 :: nat) ^ (j + len) = 2 ^ 32 * 2 ^ (j + len - 32)" 
      by (metis le_add_diff_inverse not_less power_add)
    then have "(word_of_nat (2 ^ (j + len)) :: u32) = 0" by (simp only: of_nat_mult word_two_power_32 mult_zero_left)
    then show ?thesis unfolding p using False by (simp del: of_nat_power)
  qed
qed

lemma prefix_step_loop_value:
  assumes "len < 32" and op: "\<And>bs x. 0 \<le> x \<Longrightarrow> \<exists>bs'. op bs x = Inr bs' \<and> length bs' = length bs
      \<and> int (be_val bs') = (int (be_val bs) + sg * x) mod 256 ^ length bs"
  shows "j \<le> k \<Longrightarrow> k \<le> 32 \<Longrightarrow> k - j < fuel \<Longrightarrow>
    \<exists>bs'. prefix_step_loop op fuel len (word_of_nat (2 ^ j)) (2 ^ k - 2 ^ j) bs = Some (Inr bs') \<and> length bs' = length bs
      \<and> int (be_val bs') = (int (be_val bs) + sg * (2 ^ min (k + len) 32 - 2 ^ min (j + len) 32)) mod 256 ^ length bs"
proof (induction fuel arbitrary: j bs)
  case (Suc fuel)
  show ?case
  proof (cases "j = k")
    case True
    have "int (be_val bs) mod 256 ^ length bs = int (be_val bs)"
      using int_le_val_mod [of "rev bs"] by (simp add: be_val_def)
    with True show ?thesis by simp
  next
    case False
    then have j: "Suc j \<le> k" "j < 32" and lt: "k - Suc j < fuel" using Suc.prems by simp_all
    let ?x = "uint (push_bit len (word_of_nat (2 ^ j) :: u32))"
    obtain bs' where bs': "op bs ?x = Inr bs'" "length bs' = length bs"
        "int (be_val bs') = (int (be_val bs) + sg * ?x) mod 256 ^ length bs"
      using op [of ?x bs] by auto
    obtain bs'' where bs'': "prefix_step_loop op fuel len (word_of_nat (2 ^ Suc j)) (2 ^ k - 2 ^ Suc j) bs' = Some (Inr bs'')"
        "length bs'' = length bs'"
        "int (be_val bs'') = (int (be_val bs') + sg * (2 ^ min (k + len) 32 - 2 ^ min (Suc j + len) 32)) mod 256 ^ length bs'"
      using Suc.IH [OF j(1) Suc.prems(2) lt, of bs'] by blast
    have ne: "(2 :: int) ^ k - 2 ^ j \<noteq> 0" using False by simp
    have "prefix_step_loop op (Suc fuel) len (word_of_nat (2 ^ j)) (2 ^ k - 2 ^ j) bs = Some (Inr bs'')"
      using prefix_step_loop_next [of len j _ op bs bs', OF assms(1) j(2) ne bs'(1)] bs''(1) by simp
    moreover have "int (be_val bs'') = (int (be_val bs) + sg * (2 ^ min (k + len) 32 - 2 ^ min (j + len) 32)) mod 256 ^ length bs"
      unfolding bs''(3) bs'(2,3) uint_shifted_power mod_add_left_eq by (rule arg_cong [where f = "\<lambda>v. v mod _"]) (simp only: algebra_simps)
    ultimately show ?thesis using bs'(2) bs''(2) by auto
  qed
qed simp

text \<open>
  \<open>+=\<close> on a prefix with fewer than 32 host bits, for a non-negative operand. The
  loop takes away 1, 2, 4, ... from \<open>num\<close> and stops only when it hits 0, so it
  returns exactly for the operands \<open>2 ^ k - 1\<close> with \<open>k \<le> 32\<close> (33 rounds are enough) and runs
  forever for every other one, for instance for \<open>p += 2\<close>. When it returns and
  \<open>num\<close> networks fit in 32 bits, the prefix has moved by \<open>num\<close> networks.
\<close>

theorem prefix_add_returns:
  assumes "prefix_valid T p" "host_bits T p < 32" "0 \<le> num"
  shows "((\<exists>fuel r. prefix_add fuel T p num = Some r) \<longleftrightarrow> (\<exists>k \<le> 32. num = 2 ^ k - 1))
    \<and> (\<forall>k \<le> 32. num = 2 ^ k - 1 \<longrightarrow> (\<exists>q. prefix_add 33 T p num = Some (Inr q) \<and> prefix_valid T q
        \<and> int (be_val (prefix_address q)) =
          (int (be_val (prefix_address p)) + (2 ^ min (k + host_bits T p) 32 - 2 ^ host_bits T p)) mod 2 ^ max_masklen T
        \<and> (k + host_bits T p \<le> 32 \<longrightarrow> int (be_val (prefix_address q)) =
          (int (be_val (prefix_address p)) + num * 2 ^ host_bits T p) mod 2 ^ max_masklen T)))"
proof -
  let ?loop = "\<lambda>fuel. prefix_step_loop add fuel (host_bits T p) 1 num (prefix_address p)"
  have len: "length (prefix_address p) = addr_bytes T" using assms by (simp add: prefix_valid_def)
  have add: "prefix_add fuel T p num = map_option (map_sum id (\<lambda>bs. p\<lparr>prefix_address := bs\<rparr>)) (?loop fuel)" for fuel
    using assms(3) not_ptrdiff_min(1) [OF assms(3)] by (simp add: prefix_add_def)
  have op: "\<exists>bs'. add bs x = Inr bs' \<and> length bs' = length bs
      \<and> int (be_val bs') = (int (be_val bs) + 1 * x) mod 256 ^ length bs" if "0 \<le> x" for bs x
    using add_int [OF not_ptrdiff_min(1) [OF that], of bs] that by auto
  have "?loop fuel \<noteq> None \<longleftrightarrow> (\<exists>k \<le> 32. num = 2 ^ k - 1 \<and> k < fuel)" for fuel
    using prefix_step_loop_returns [of "host_bits T p" add 0 fuel num "prefix_address p"] assms(2) op by fastforce
  then have ret: "(\<exists>fuel r. prefix_add fuel T p num = Some r) \<longleftrightarrow> (\<exists>k \<le> 32. num = 2 ^ k - 1)"
    unfolding add map_option_eq_Some by (metis lessI not_None_eq)
  have "\<exists>q. prefix_add 33 T p num = Some (Inr q) \<and> prefix_valid T q
        \<and> int (be_val (prefix_address q)) =
          (int (be_val (prefix_address p)) + (2 ^ min (k + host_bits T p) 32 - 2 ^ host_bits T p)) mod 2 ^ max_masklen T
        \<and> (k + host_bits T p \<le> 32 \<longrightarrow> int (be_val (prefix_address q)) =
          (int (be_val (prefix_address p)) + num * 2 ^ host_bits T p) mod 2 ^ max_masklen T)"
    if k: "k \<le> 32" "num = 2 ^ k - 1" for k
  proof -
    obtain bs where bs: "?loop 33 = Some (Inr bs)" "length bs = addr_bytes T" "int (be_val bs) =
        (int (be_val (prefix_address p)) + (2 ^ min (k + host_bits T p) 32 - 2 ^ host_bits T p)) mod 2 ^ max_masklen T"
      using prefix_step_loop_value [OF assms(2) op, of 0 k 33 "prefix_address p"] k assms(2)
      by (auto simp: len pow_max_masklen min_def)
    moreover have "(2 :: int) ^ min (k + host_bits T p) 32 - 2 ^ host_bits T p = num * 2 ^ host_bits T p"
      if "k + host_bits T p \<le> 32" unfolding k(2) using that by (simp add: power_add algebra_simps)
    ultimately show ?thesis using assms(1) by (auto simp: add prefix_valid_def)
  qed
  with ret show ?thesis by blast
qed

theorem prefix_add_returns_witness:
  "(\<exists>q. prefix_add 33 internet4 \<lparr>prefix_masklen = 24, prefix_address = [10, 0, 255, 0]\<rparr> 3 = Some (Inr q)
      \<and> int (be_val (prefix_address q)) = int (be_val [10, 1, 2, 0]))
   \<and> \<not> (\<exists>fuel r. prefix_add fuel internet4 \<lparr>prefix_masklen = 24, prefix_address = [10, 0, 255, 0]\<rparr> 2 = Some r)"
proof
  let ?p = "\<lparr>prefix_masklen = 24, prefix_address = [10, 0, 255, 0]\<rparr>"
  have v: "prefix_valid internet4 ?p" "host_bits internet4 ?p = 8" by (simp_all add: prefix_valid_def host_bits_def)
  show "\<exists>q. prefix_add 33 internet4 ?p 3 = Some (Inr q) \<and> int (be_val (prefix_address q)) = int (be_val [10, 1, 2, 0])"
    using conjunct2 [OF prefix_add_returns [of internet4 ?p 3], THEN spec, of 2] v by (auto simp: be_val_def)
  have "(2 :: int) \<noteq> 2 ^ k - 1" for k :: nat
  proof
    assume "(2 :: int) = 2 ^ k - 1"
    then have "(2 :: int) ^ k = 3" by simp
    then show False by (cases k) (auto, presburger)
  qed
  then show "\<not> (\<exists>fuel r. prefix_add fuel internet4 ?p 2 = Some r)"
    using conjunct1 [OF prefix_add_returns [of internet4 ?p 2]] v by auto
qed

section \<open>Text and order\<close>

lemma dec_str_three:
  "n < 1000 \<Longrightarrow> dec_str n = (if n < 10 then [dec_digit n]
     else if n < 100 then [dec_digit (n div 10), dec_digit (n mod 10)]
     else [dec_digit (n div 100), dec_digit (n div 10 mod 10), dec_digit (n mod 10)])"
proof -
  assume "n < 1000"
  then have "n div 100 < 10" "n div 10 div 10 = n div 100" "n div 10 < 10 \<longleftrightarrow> n < 100"
    by (auto simp flip: div_mult2_eq)
  then show ?thesis
    by (simp add: dec_str.simps [of n] dec_str.simps [of "n div 10"] dec_str.simps [of "n div 100"])
qed

lemma masklen_str_decimal:
  assumes "n \<le> 128"
  shows "masklen_str n = dec_str n \<longleftrightarrow> \<not> (100 \<le> n \<and> n < 110)"
proof -
  consider "n < 10" | "10 \<le> n" "n < 100" | "100 \<le> n" "n < 110" | "110 \<le> n" by linarith
  then show ?thesis
  proof cases
    case 2
    then have "1 \<le> n div 10" "n div 10 < 10" by auto
    then show ?thesis using 2 assms by (simp add: masklen_str_def dec_str_three)
  next
    case 3
    then have "n div 10 = 10" "n div 100 = 1" by auto
    then show ?thesis using 3 by (simp add: masklen_str_def dec_str_three)
  next
    case 4
    then have "n div 10 = 11 \<or> n div 10 = 12" "n div 100 = 1" using assms by auto
    then have "n div 100 = 1" "n div 10 mod 10 \<noteq> 0" by auto
    then show ?thesis using 4 assms by (simp add: masklen_str_def dec_str_three)
  qed (simp add: masklen_str_def dec_str_three)
qed

text \<open>
  The printed prefix length is the decimal number for lengths below 100 and from
  110, but a middle digit 0 is dropped, so that \<open>/100\<close> prints as \<open>/10\<close> and \<open>/105\<close> as \<open>/15\<close>:
  two different IPv6 prefixes have the same text.
\<close>

theorem prefix_text:
  assumes "n \<le> 128"
  shows "(masklen_str n = dec_str n \<longleftrightarrow> \<not> (100 \<le> n \<and> n < 110))
    \<and> (100 \<le> n \<and> n < 110 \<longrightarrow>
        prefix_to_string f \<lparr>prefix_masklen = word_of_nat n, prefix_address = a\<rparr>
        = prefix_to_string f \<lparr>prefix_masklen = word_of_nat (n - 90), prefix_address = a\<rparr>)"
proof -
  have "masklen_str n = masklen_str (n - 90)" if "100 \<le> n" "n < 110"
  proof -
    have tab: "\<forall>i \<in> set [0..<10]. masklen_str (100 + i) = masklen_str (10 + i)" by code_simp
    define d where "d = n - 100"
    have d: "n = 100 + d" "n - 90 = 10 + d" "d < 10" using that by (simp_all add: d_def)
    have "d \<in> set [0..<10]" using d(3) by simp
    with tab have "masklen_str (100 + d) = masklen_str (10 + d)" by (rule bspec)
    then show ?thesis using d(1,2) by simp
  qed
  moreover have "unat (word_of_nat i :: u16) = i" if "i \<le> 128" for i
    using that by (simp add: unsigned_of_nat take_bit_eq_mod)
  ultimately show ?thesis using assms masklen_str_decimal [OF assms] by (simp add: prefix_to_string_def del: of_nat_diff)
qed

theorem prefix_text_witness:
  "masklen_str 64 = dec_str 64 \<and> masklen_str 105 \<noteq> dec_str 105
   \<and> prefix_to_string (\<lambda>_. ''::'') \<lparr>prefix_masklen = 105, prefix_address = []\<rparr>
     = prefix_to_string (\<lambda>_. ''::'') \<lparr>prefix_masklen = 15, prefix_address = []\<rparr>"
  using prefix_text [of 64 "\<lambda>_. ''::''" "[]"] prefix_text [of 105 "\<lambda>_. ''::''" "[]"] by simp

text \<open>
  \<open>operator<\<close> of prefixes is not an order: it compares lengths or addresses, so two
  prefixes of which one is longer and has the smaller address are below each other. It is a
  strict order only among prefixes of one length.
\<close>

theorem prefix_order:
  assumes "prefix_valid T p" "prefix_valid T q"
  shows "(prefix_less p q \<and> prefix_less q p \<longleftrightarrow>
      (prefix_masklen p < prefix_masklen q \<and> be_val (prefix_address q) < be_val (prefix_address p)
       \<or> prefix_masklen q < prefix_masklen p \<and> be_val (prefix_address p) < be_val (prefix_address q)))
    \<and> (prefix_masklen p = prefix_masklen q \<longrightarrow> (prefix_less p q \<or> prefix_equal p q \<or> prefix_less q p))"
proof -
  have l: "length (prefix_address p) = length (prefix_address q)" using assms by (simp add: prefix_valid_def)
  show ?thesis
    using be_val_inject [OF l] by (auto simp: prefix_less_def prefix_equal_def bytes_less_iff l)
qed

theorem prefix_order_witness:
  "prefix_less \<lparr>prefix_masklen = 8, prefix_address = [192, 0, 0, 0]\<rparr> \<lparr>prefix_masklen = 16, prefix_address = [10, 0, 0, 0]\<rparr>
   \<and> prefix_less \<lparr>prefix_masklen = 16, prefix_address = [10, 0, 0, 0]\<rparr> \<lparr>prefix_masklen = 8, prefix_address = [192, 0, 0, 0]\<rparr>"
  using prefix_order [of internet4 "\<lparr>prefix_masklen = 8, prefix_address = [192, 0, 0, 0]\<rparr>"
      "\<lparr>prefix_masklen = 16, prefix_address = [10, 0, 0, 0]\<rparr>"]
  by (simp add: prefix_valid_def be_val_def)

end
