(* ===== verification/Header_Field.thy ===== *)
theory Header_Field
  imports Address_Spec
begin

text \<open>
  A packet header is a view on the bytes of a buffer: the header classes inherit from the
  structures of the system headers, whose members lie at fixed offsets without padding, and
  are reached by \<open>reinterpret_cast\<close>. A header is thus a byte list that begins at the header
  and is at least as long as it; a multi-byte member is stored in host (little-endian)
  order and converted by \<open>ntohs\<close> and \<open>htons\<close>. The interface \<open>byte_field\<close> says what a
  getter and its setter promise: they form a field at a fixed range of bytes and touch nothing else.
\<close>

section \<open>Memory access\<close>

definition ntohs :: "u16 \<Rightarrow> u16" where
  "ntohs w = push_bit 8 w OR drop_bit 8 w"

definition htons :: "u16 \<Rightarrow> u16" where
  "htons w = push_bit 8 w OR drop_bit 8 w"

definition store16 :: "byte list \<Rightarrow> nat \<Rightarrow> u16 \<Rightarrow> byte list" where
  "store16 h i w = h[i := ucast w, Suc i := ucast (drop_bit 8 w)]"

definition load_bytes :: "byte list \<Rightarrow> nat \<Rightarrow> nat \<Rightarrow> byte list" where
  "load_bytes h i n = take n (drop i h)"

definition store_bytes :: "byte list \<Rightarrow> nat \<Rightarrow> byte list \<Rightarrow> byte list" where
  "store_bytes h i bs = take i h @ bs @ drop (i + length bs) h"

lemma ntohs_htons [simp]: "ntohs (htons w) = w"
  by (rule bit_word_eqI) (auto simp: ntohs_def htons_def bit_simps)

lemma htons_ntohs [simp]: "htons (ntohs w) = w"
  by (rule bit_word_eqI) (auto simp: ntohs_def htons_def bit_simps)

lemma length_store16 [simp]: "length (store16 h i w) = length h"
  by (simp add: store16_def)

lemma load16_store16 [simp]: "Suc i < length h \<Longrightarrow> load16 (store16 h i w) i = w"
  by (rule bit_word_eqI) (auto simp: load16_def store16_def nth_list_update bit_simps)

lemma load16_cong: "h ! i = h' ! i \<Longrightarrow> h ! Suc i = h' ! Suc i \<Longrightarrow> load16 h i = load16 h' i"
  by (simp add: load16_def)

lemma store16_nth: "j \<noteq> i \<Longrightarrow> j \<noteq> Suc i \<Longrightarrow> store16 h i w ! j = h ! j"
  by (simp add: store16_def)

lemma unat_ntohs_load16: "unat (ntohs (load16 h i)) = 256 * unat (h ! i) + unat (h ! Suc i)"
proof -
  have "ntohs (load16 h i) = push_bit 8 (ucast (h ! i)) OR ucast (h ! Suc i)"
    by (rule bit_word_eqI) (auto simp: ntohs_def load16_def bit_simps dest: bit_imp_le_length)
  also have "\<dots> = push_bit 8 (ucast (h ! i)) + ucast (h ! Suc i)"
    by (rule disjunctive_add [symmetric]) (auto simp: bit_simps dest: bit_imp_le_length)
  finally have e: "ntohs (load16 h i) = push_bit 8 (ucast (h ! i)) + ucast (h ! Suc i)" .
  have "256 * unat (h ! i) + unat (h ! Suc i) < 65536"
    using unat_byte_less [of "h ! i"] unat_byte_less [of "h ! Suc i"] by linarith
  then show ?thesis
    unfolding e by (simp add: push_bit_eq_mult unat_word_ariths mult.commute [of 256] mod_less)
qed

lemma length_store_bytes [simp]: "i + length bs \<le> length h \<Longrightarrow> length (store_bytes h i bs) = length h"
  by (simp add: store_bytes_def)

lemma load_store_bytes [simp]: "i + length bs \<le> length h \<Longrightarrow> load_bytes (store_bytes h i bs) i (length bs) = bs"
  by (simp add: load_bytes_def store_bytes_def)

lemma store_bytes_nth:
  assumes "i + length bs \<le> length h" "j < i \<or> i + length bs \<le> j"
  shows "store_bytes h i bs ! j = h ! j"
proof -
  have "length (take i h) = i" using assms(1) by simp
  then show ?thesis using assms by (auto simp: store_bytes_def nth_append)
qed

lemma load_bytes_cong:
  assumes "i + n \<le> length h" "i + n \<le> length h'" "\<And>j. i \<le> j \<Longrightarrow> j < i + n \<Longrightarrow> h ! j = h' ! j"
  shows "load_bytes h i n = load_bytes h' i n"
  by (rule nth_equalityI) (use assms in \<open>auto simp: load_bytes_def\<close>)

section \<open>Fields\<close>

text \<open>
  A field of \<open>n\<close> bytes at offset \<open>off\<close> of a header of \<open>sz\<close> bytes; \<open>ok\<close> tells the values
  that fit into it.
\<close>

locale byte_field =
  fixes sz :: nat and off :: nat and n :: nat and ok :: "'v \<Rightarrow> bool"
    and get :: "byte list \<Rightarrow> 'v" and put :: "'v \<Rightarrow> byte list \<Rightarrow> byte list"
  assumes in_range: "off + n \<le> sz"
    and length_put: "sz \<le> length h \<Longrightarrow> ok v \<Longrightarrow> length (put v h) = length h"
    and get_put: "sz \<le> length h \<Longrightarrow> ok v \<Longrightarrow> get (put v h) = v"
    and frame: "sz \<le> length h \<Longrightarrow> ok v \<Longrightarrow> j < off \<or> off + n \<le> j \<Longrightarrow> put v h ! j = h ! j"
    and local: "sz \<le> length h \<Longrightarrow> sz \<le> length h' \<Longrightarrow>
      (\<And>j. off \<le> j \<Longrightarrow> j < off + n \<Longrightarrow> h ! j = h' ! j) \<Longrightarrow> get h = get h'"
begin

lemma get_put_elsewhere:
  assumes "sz \<le> length h" "length h' = length h" "\<And>j. off \<le> j \<Longrightarrow> j < off + n \<Longrightarrow> h' ! j = h ! j"
  shows "get h' = get h"
  using assms by (intro local) simp_all

end

text \<open>Two fields of one header whose ranges do not meet.\<close>

locale disjoint_fields =
  f: byte_field sz off1 n1 ok1 get1 put1 + g: byte_field sz off2 n2 ok2 get2 put2
  for sz off1 n1 off2 n2 :: nat and ok1 :: "'v \<Rightarrow> bool" and get1 put1
    and ok2 :: "'w \<Rightarrow> bool" and get2 put2 +
  assumes apart: "off1 + n1 \<le> off2"
begin

lemma get1_put2: "sz \<le> length h \<Longrightarrow> ok2 w \<Longrightarrow> get1 (put2 w h) = get1 h"
  using apart by (intro f.get_put_elsewhere) (simp_all add: g.length_put g.frame)

lemma get2_put1: "sz \<le> length h \<Longrightarrow> ok1 v \<Longrightarrow> get2 (put1 v h) = get2 h"
  using apart by (intro g.get_put_elsewhere) (simp_all add: f.length_put f.frame)

lemma get_both:
  assumes "sz \<le> length h" "ok1 v" "ok2 w"
  shows "get1 (put2 w (put1 v h)) = v \<and> get2 (put2 w (put1 v h)) = w"
  using assms by (simp add: get1_put2 f.get_put g.get_put f.length_put)

end

lemma byte_field8:
  "off < sz \<Longrightarrow> byte_field sz off 1 (\<lambda>_. True) (\<lambda>h. h ! off) (\<lambda>v h. h[off := v])"
  by unfold_locales auto

lemma byte_field16:
  "off + 2 \<le> sz \<Longrightarrow>
   byte_field sz off 2 (\<lambda>_. True) (\<lambda>h. ntohs (load16 h off)) (\<lambda>v h. store16 h off (htons v))"
  by unfold_locales (auto simp: store16_nth intro!: load16_cong arg_cong [where f = ntohs])

lemma byte_field16_raw:
  "off + 2 \<le> sz \<Longrightarrow> byte_field sz off 2 (\<lambda>_. True) (\<lambda>h. load16 h off) (\<lambda>v h. store16 h off v)"
  by unfold_locales (auto simp: store16_nth intro!: load16_cong arg_cong [where f = ntohs])

text \<open>A member that holds the bytes of an address object.\<close>

lemma byte_field_bytes:
  assumes "off + n \<le> sz" "\<And>a. length (bytes a) = n \<Longrightarrow> make (bytes a) = a"
  shows "byte_field sz off n (\<lambda>a. length (bytes a) = n) (\<lambda>h. make (load_bytes h off n)) (\<lambda>a h. store_bytes h off (bytes a))"
proof
  fix h :: "byte list" and a assume "sz \<le> length h" "length (bytes a) = n"
  then show "make (load_bytes (store_bytes h off (bytes a)) off n) = a"
    using assms load_store_bytes [of off "bytes a" h] by simp
next
  fix h h' :: "byte list" assume "sz \<le> length h" "sz \<le> length h'"
    "\<And>j. off \<le> j \<Longrightarrow> j < off + n \<Longrightarrow> h ! j = h' ! j"
  then show "make (load_bytes h off n) = make (load_bytes h' off n)"
    using assms(1) load_bytes_cong [of off n h h'] by simp
qed (use assms(1) in \<open>auto intro: store_bytes_nth\<close>)

end
