(* ===== verification/Linklayer.thy ===== *)
theory Linklayer
  imports Address_Spec
begin

text \<open>
  The link-layer (MAC) address class (\<^verbatim>\<open>network/linklayer_address.ipp\<close>): six bytes in
  transmission order. The two-digit hexadecimal parser of Boost.Spirit is a parameter.
\<close>

section \<open>Definitions\<close>

record linklayer_address =
  ll_bytes :: "byte list"

definition ll_valid :: "linklayer_address \<Rightarrow> bool" where
  "ll_valid a \<longleftrightarrow> length (ll_bytes a) = 6"

definition ll_default :: linklayer_address where
  "ll_default = \<lparr>ll_bytes = [0, 0, 0, 0, 0, 0]\<rparr>"

definition ll_incr :: "linklayer_address \<Rightarrow> linklayer_address" where
  "ll_incr a = a\<lparr>ll_bytes := incr (ll_bytes a)\<rparr>"

definition ll_decr :: "linklayer_address \<Rightarrow> linklayer_address" where
  "ll_decr a = a\<lparr>ll_bytes := decr (ll_bytes a)\<rparr>"

definition ll_add :: "linklayer_address \<Rightarrow> int \<Rightarrow> ub + linklayer_address" where
  "ll_add a num = map_sum id (\<lambda>bs. a\<lparr>ll_bytes := bs\<rparr>) (add (ll_bytes a) num)"

definition ll_sub :: "linklayer_address \<Rightarrow> int \<Rightarrow> ub + linklayer_address" where
  "ll_sub a num = map_sum id (\<lambda>bs. a\<lparr>ll_bytes := bs\<rparr>) (sub (ll_bytes a) num)"

definition ll_is_unspecified :: "linklayer_address \<Rightarrow> bool" where
  "ll_is_unspecified a \<longleftrightarrow> (\<forall>i \<in> set [0..<6]. ll_bytes a ! i = 0)"

definition ll_to_oui :: "linklayer_address \<Rightarrow> u32" where
  "ll_to_oui a =
     (let oui = ucast (ll_bytes a ! 0);
          oui = push_bit 8 oui OR ucast (ll_bytes a ! 1)
      in push_bit 8 oui OR ucast (ll_bytes a ! 2))"

text \<open>\<open>"%02X:%02X:%02X:%02X:%02X:%02X"\<close>\<close>

definition ll_to_string :: "linklayer_address \<Rightarrow> string" where
  "ll_to_string a =
     hex2_str (ll_bytes a ! 0) @ '':'' @ hex2_str (ll_bytes a ! 1) @ '':'' @
     hex2_str (ll_bytes a ! 2) @ '':'' @ hex2_str (ll_bytes a ! 3) @ '':'' @
     hex2_str (ll_bytes a ! 4) @ '':'' @ hex2_str (ll_bytes a ! 5)"

definition ll_any :: linklayer_address where
  "ll_any = ll_default"

definition ll_broadcast :: linklayer_address where
  "ll_broadcast = \<lparr>ll_bytes = [255, 255, 255, 255, 255, 255]\<rparr>"

definition ll_equal :: "linklayer_address \<Rightarrow> linklayer_address \<Rightarrow> bool" where
  "ll_equal a b \<longleftrightarrow> ll_bytes a = ll_bytes b"

definition ll_less :: "linklayer_address \<Rightarrow> linklayer_address \<Rightarrow> bool" where
  "ll_less a b \<longleftrightarrow> bytes_less (ll_bytes a) (ll_bytes b)"

text \<open>
  \<open>hash_func\<close> for a 64-bit \<open>std::size_t\<close>: a 32-bit load shifted left by 16 as a 32-bit
  number, combined with a 16-bit load. The two halves of the 32-bit load are its 16-bit
  loads at offsets 0 and 2.
\<close>

definition load32 :: "byte list \<Rightarrow> nat \<Rightarrow> u32" where
  "load32 bs i = ucast (load16 bs i) OR push_bit 16 (ucast (load16 bs (i + 2)))"

definition ll_hash_value :: "linklayer_address \<Rightarrow> u64" where
  "ll_hash_value a = ucast (push_bit 16 (load32 (ll_bytes a) 0) XOR ucast (load16 (ll_bytes a) 4))"

text \<open>
  The grammar of \<open>from_string\<close>: six \<open>hex\<close> separated by \<open>':'\<close> or \<open>'-'\<close>, where
  \<open>hex\<close> is \<open>qi::uint_parser<unsigned char, 16, 2, 2>\<close>. What follows is not looked at.
\<close>

definition ll_sep :: "string \<Rightarrow> string option" where
  "ll_sep s = (case lit CHR '':'' s of Some s' \<Rightarrow> Some s' | None \<Rightarrow> lit CHR ''-'' s)"

definition ll_parse :: "(string \<Rightarrow> (byte \<times> string) option) \<Rightarrow> string \<Rightarrow> (byte list \<times> string) option" where
  "ll_parse hex s =
     Option.bind (hex s) (\<lambda>(a, s). Option.bind (ll_sep s) (\<lambda>s.
     Option.bind (hex s) (\<lambda>(b, s). Option.bind (ll_sep s) (\<lambda>s.
     Option.bind (hex s) (\<lambda>(c, s). Option.bind (ll_sep s) (\<lambda>s.
     Option.bind (hex s) (\<lambda>(d, s). Option.bind (ll_sep s) (\<lambda>s.
     Option.bind (hex s) (\<lambda>(e, s). Option.bind (ll_sep s) (\<lambda>s.
     Option.bind (hex s) (\<lambda>(f, s). Some ([a, b, c, d, e, f], s))))))))))))"

definition ll_from_string_impl ::
  "(string \<Rightarrow> (byte \<times> string) option) \<Rightarrow> string \<Rightarrow> errc option \<Rightarrow> byte list \<times> errc option" where
  "ll_from_string_impl hex s ec =
     (case ll_parse hex s of
        Some (bs, _) \<Rightarrow> (bs, ec)
      | None \<Rightarrow> ([0, 0, 0, 0, 0, 0], Some address_family_not_supported))"

definition ll_from_string ::
  "(string \<Rightarrow> (byte \<times> string) option) \<Rightarrow> string \<Rightarrow> errc + linklayer_address" where
  "ll_from_string hex str =
     (case ll_from_string_impl hex str None of
        (bs, None) \<Rightarrow> Inr \<lparr>ll_bytes = bs\<rparr>
      | (_, Some e) \<Rightarrow> Inl e)"

definition ll_from_string_ec ::
  "(string \<Rightarrow> (byte \<times> string) option) \<Rightarrow> string \<Rightarrow> errc option \<Rightarrow> linklayer_address \<times> errc option" where
  "ll_from_string_ec hex str ec =
     (let (bs, ec') = ll_from_string_impl hex str ec in (\<lparr>ll_bytes = bs\<rparr>, ec'))"

text \<open>
  The C-string overloads. With a null pointer the throwing one assigns the error code to
  its local variable and returns the default address: \<open>throw_error\<close> is only on the
  other branch.
\<close>

definition ll_from_cstr ::
  "(string \<Rightarrow> (byte \<times> string) option) \<Rightarrow> string option \<Rightarrow> errc + linklayer_address" where
  "ll_from_cstr hex str =
     (case str of None \<Rightarrow> Inr ll_default | Some s \<Rightarrow> ll_from_string hex s)"

definition ll_from_cstr_ec ::
  "(string \<Rightarrow> (byte \<times> string) option) \<Rightarrow> string option \<Rightarrow> errc option \<Rightarrow> linklayer_address \<times> errc option" where
  "ll_from_cstr_ec hex str ec =
     (case str of None \<Rightarrow> (ll_default, Some invalid_argument) | Some s \<Rightarrow> ll_from_string_ec hex s ec)"

section \<open>The class satisfies the address interface\<close>

definition ll_val :: "linklayer_address \<Rightarrow> nat" where
  "ll_val a = be_val (ll_bytes a)"

lemma ll_add_value:
  assumes "ll_valid a" "num \<noteq> ptrdiff_min"
  shows "\<exists>r. ll_add a num = Inr r \<and> ll_valid r \<and>
    int (ll_val r) = (int (ll_val a) + (if num < 0 then 2 * num else num)) mod 2 ^ 48"
  using add_value [OF assms(2), of "ll_bytes a"] assms(1)
  by (force simp: ll_add_def ll_valid_def ll_val_def)

lemma ll_sub_value:
  assumes "ll_valid a" "num \<noteq> ptrdiff_min"
  shows "\<exists>r. ll_sub a num = Inr r \<and> ll_valid r \<and>
    int (ll_val r) = (int (ll_val a) - (if num < 0 then 2 * num else num)) mod 2 ^ 48"
  using sub_value [OF assms(2), of "ll_bytes a"] assms(1)
  by (force simp: ll_sub_def ll_valid_def ll_val_def)

interpretation ll: address_class ll_valid ll_val "2 ^ 48" ll_incr ll_decr ll_add ll_sub ll_less
proof
  fix x y :: linklayer_address and k :: int
  show "ll_valid x \<Longrightarrow> ll_val x < 2 ^ 48"
    using be_val_less [of "ll_bytes x"] by (simp add: ll_valid_def ll_val_def)
  show "ll_valid x \<Longrightarrow> ll_valid y \<Longrightarrow> ll_val x = ll_val y \<Longrightarrow> x = y"
    using be_val_inject [of "ll_bytes x" "ll_bytes y"] by (simp add: ll_valid_def ll_val_def)
  show "ll_valid x \<Longrightarrow> ll_valid (ll_incr x)" "ll_valid x \<Longrightarrow> ll_valid (ll_decr x)"
    by (simp_all add: ll_valid_def ll_incr_def ll_decr_def)
  show "ll_valid x \<Longrightarrow> ll_val (ll_incr x) = (ll_val x + 1) mod 2 ^ 48"
    by (simp add: ll_valid_def ll_val_def ll_incr_def be_val_incr)
  show "ll_valid x \<Longrightarrow> (ll_val (ll_decr x) + 1) mod 2 ^ 48 = ll_val x"
    using be_val_decr [of "ll_bytes x"] by (simp add: ll_valid_def ll_val_def ll_decr_def)
  show "ll_valid x \<Longrightarrow> 0 \<le> k \<Longrightarrow> k \<le> ptrdiff_max \<Longrightarrow>
      \<exists>y. ll_add x k = Inr y \<and> ll_valid y \<and> int (ll_val y) = (int (ll_val x) + k) mod int (2 ^ 48)"
    using ll_add_value [of x k] by (simp add: ptrdiff_min_def)
  show "ll_valid x \<Longrightarrow> 0 \<le> k \<Longrightarrow> k \<le> ptrdiff_max \<Longrightarrow>
      \<exists>y. ll_sub x k = Inr y \<and> ll_valid y \<and> int (ll_val y) = (int (ll_val x) - k) mod int (2 ^ 48)"
    using ll_sub_value [of x k] by (simp add: ptrdiff_min_def)
  show "ll_valid x \<Longrightarrow> ll_valid y \<Longrightarrow> ll_less x y = (ll_val x < ll_val y)"
    by (simp add: ll_less_def ll_val_def ll_valid_def bytes_less_iff)
qed

section \<open>Text\<close>

text \<open>
  Documented behaviour of \<open>qi::uint_parser<unsigned char, 16, 2, 2>\<close>: exactly two
  hexadecimal digits are consumed, whatever follows.
\<close>

definition qi_hex2 :: "(string \<Rightarrow> (byte \<times> string) option) \<Rightarrow> bool" where
  "qi_hex2 hex \<longleftrightarrow> (\<forall>b rest. hex (hex2_str b @ rest) = Some (b, rest))"

lemma ll_validE:
  assumes "ll_valid a"
  obtains b0 b1 b2 b3 b4 b5 where "a = \<lparr>ll_bytes = [b0, b1, b2, b3, b4, b5]\<rparr>"
proof -
  obtain b0 b1 b2 b3 b4 b5 where "ll_bytes a = [b0, b1, b2, b3, b4, b5]"
    using assms by (auto simp: ll_valid_def numeral_eq_Suc length_Suc_conv)
  then have "a = \<lparr>ll_bytes = [b0, b1, b2, b3, b4, b5]\<rparr>" by simp
  then show thesis by (rule that)
qed

lemma ll_sep_colon [simp]: "ll_sep (CHR '':'' # s) = Some s"
  by (simp add: ll_sep_def)

text \<open>
  Parsing the text of a link-layer address gives the address back, the text fills the
  18-byte buffer exactly, and whatever text follows is ignored: unlike the IPv4 parser,
  this one does not compare the final position with the end of the input, so an
  address followed by arbitrary characters is accepted.
\<close>

theorem ll_string_roundtrip:
  assumes "qi_hex2 hex" "ll_valid a"
  shows "ll_from_string hex (ll_to_string a @ junk) = Inr a \<and> length (ll_to_string a) + 1 = 18"
proof -
  obtain b0 b1 b2 b3 b4 b5 where a: "a = \<lparr>ll_bytes = [b0, b1, b2, b3, b4, b5]\<rparr>"
    using assms(2) by (rule ll_validE)
  have hex: "hex (hex2_str b @ rest) = Some (b, rest)" for b rest
    using assms(1) by (simp add: qi_hex2_def)
  have "ll_parse hex (ll_to_string a @ junk) = Some ([b0, b1, b2, b3, b4, b5], junk)"
    by (simp add: a ll_parse_def ll_to_string_def hex)
  moreover have "length (ll_to_string a) = 17" by (simp add: a ll_to_string_def hex2_str_def)
  ultimately show ?thesis by (simp add: a ll_from_string_def ll_from_string_impl_def)
qed

definition hex_val :: "char \<Rightarrow> nat option" where
  "hex_val c = List.find (\<lambda>d. hex_digit d = c) [0..<16]"

fun uint_hex2 :: "string \<Rightarrow> (byte \<times> string) option" where
  "uint_hex2 (x # y # s) =
     Option.bind (hex_val x) (\<lambda>h. Option.bind (hex_val y) (\<lambda>l. Some (word_of_nat (16 * h + l), s)))"
| "uint_hex2 _ = None"

lemma hex_val_hex_digit: "d < 16 \<Longrightarrow> hex_val (hex_digit d) = Some d"
proof -
  have "\<forall>i \<in> set [0..<16]. hex_val (hex_digit i) = Some i" by code_simp
  then show "d < 16 \<Longrightarrow> ?thesis" by simp
qed

lemma qi_hex2_uint_hex2: "qi_hex2 uint_hex2"
proof -
  have "hex_val (hex_digit (unat b div 16)) = Some (unat b div 16)"
    and "hex_val (hex_digit (unat b mod 16)) = Some (unat b mod 16)" for b :: byte
    by (rule hex_val_hex_digit, simp add: less_mult_imp_div_less)+
  moreover have "word_of_nat (16 * (unat b div 16) + unat b mod 16) = b" for b :: byte
    by (simp add: mult_div_mod_eq del: of_nat_add of_nat_mult)
  ultimately show ?thesis by (simp add: qi_hex2_def hex2_str_def del: of_nat_add of_nat_mult)
qed

theorem ll_string_roundtrip_witness:
  "ll_from_string uint_hex2 (ll_to_string ll_broadcast @ '' eth0'') = Inr ll_broadcast"
proof -
  have "ll_valid ll_broadcast" by (simp add: ll_valid_def ll_broadcast_def)
  with ll_string_roundtrip [OF qi_hex2_uint_hex2, of ll_broadcast "'' eth0''"] show ?thesis by simp
qed

section \<open>The organisation identifier and the hash\<close>

lemma push_bit_16_load32: "push_bit 16 (load32 bs i) = push_bit 16 (ucast (load16 bs i))"
proof -
  have "push_bit 32 (w :: u32) = 0" for w
    by (rule bit_word_eqI) (simp add: bit_simps)
  then show ?thesis by (simp add: load32_def push_bit_or)
qed

text \<open>
  \<open>hash_value\<close> of a link-layer address does not depend on its third and fourth byte:
  the 32-bit load is shifted left by 16 before it is widened to 64 bits, which
  discards its upper half. Addresses that differ only there always collide.
\<close>

theorem ll_hash_ignores_bytes:
  "ll_hash_value \<lparr>ll_bytes = [b0, b1, b2, b3, b4, b5]\<rparr> = ll_hash_value \<lparr>ll_bytes = [b0, b1, c2, c3, b4, b5]\<rparr>"
  by (simp add: ll_hash_value_def push_bit_16_load32 load16_def)

lemma unat_shift_or_byte:
  assumes "unat w < 2 ^ 24"
  shows "unat (push_bit 8 w OR ucast (b :: byte) :: u32) = unat w * 256 + unat b"
proof -
  have "push_bit 8 w OR ucast b = push_bit 8 w + (ucast b :: u32)"
    by (rule disjunctive_add [symmetric]) (auto simp: bit_simps dest: bit_imp_le_length)
  moreover have "unat (push_bit 8 w) = unat w * 256"
    using assms by (simp add: push_bit_eq_mult unat_word_ariths)
  moreover have "unat w * 256 + unat b < 2 ^ 32" using assms unat_byte_less [of b] by (simp del: unat_byte_less)
  ultimately show ?thesis by (simp add: unat_word_ariths)
qed

text \<open>The organisationally unique identifier is the value of the first three bytes.\<close>

lemma ll_to_oui_value:
  assumes "ll_valid a"
  shows "unat (ll_to_oui a) = be_val (take 3 (ll_bytes a))"
proof -
  obtain b0 b1 b2 b3 b4 b5 where a: "a = \<lparr>ll_bytes = [b0, b1, b2, b3, b4, b5]\<rparr>"
    using assms by (rule ll_validE)
  have "unat (push_bit 8 (ucast b0 :: u32) OR ucast b1) = unat b0 * 256 + unat b1"
    using unat_byte_less [of b0] by (subst unat_shift_or_byte) (simp_all del: unat_byte_less)
  moreover from this have "unat (push_bit 8 (ucast b0 :: u32) OR ucast b1) < 2 ^ 24"
    using unat_byte_less [of b0] unat_byte_less [of b1] by (simp del: unat_byte_less)
  ultimately show ?thesis
    by (simp add: a ll_to_oui_def unat_shift_or_byte be_val_Cons del: push_bit_or)
qed

end
