(* ===== verification/Headers.thy ===== *)
theory Headers
  imports Header_Field Internet4 Internet6 Linklayer
begin

text \<open>
  The packet header classes: \<^verbatim>\<open>ethernet_header\<close>, \<^verbatim>\<open>ethernet_arp\<close>, \<^verbatim>\<open>ipv4_header\<close>,
  \<^verbatim>\<open>ipv6_header\<close>, \<^verbatim>\<open>tcp_header\<close>, \<^verbatim>\<open>udp_header\<close>, \<^verbatim>\<open>icmp_header\<close> and
  \<^verbatim>\<open>icmpv6_header\<close> under \<^verbatim>\<open>network/\<close>. One definition per accessor, on the bytes that
  start at the header; an enumeration is its underlying number. The accessor pairs
  interpret \<open>byte_field\<close> at the place that the protocol gives the field.
\<close>

section \<open>Ethernet and ARP\<close>

definition sizeof_ethernet_header :: nat where
  "sizeof_ethernet_header = 14"

definition eth_destinate :: "byte list \<Rightarrow> linklayer_address" where
  "eth_destinate h = \<lparr>ll_bytes = load_bytes h 0 6\<rparr>"

definition eth_set_destinate :: "linklayer_address \<Rightarrow> byte list \<Rightarrow> byte list" where
  "eth_set_destinate a h = store_bytes h 0 (ll_bytes a)"

definition eth_source :: "byte list \<Rightarrow> linklayer_address" where
  "eth_source h = \<lparr>ll_bytes = load_bytes h 6 6\<rparr>"

definition eth_set_source :: "linklayer_address \<Rightarrow> byte list \<Rightarrow> byte list" where
  "eth_set_source a h = store_bytes h 6 (ll_bytes a)"

definition eth_protocol :: "byte list \<Rightarrow> u16" where
  "eth_protocol h = ntohs (load16 h 12)"

definition eth_set_protocol :: "u16 \<Rightarrow> byte list \<Rightarrow> byte list" where
  "eth_set_protocol v h = store16 h 12 (htons v)"

definition eth_type_ip :: u16 where
  "eth_type_ip = 0x0800"

definition eth_type_arp :: u16 where
  "eth_type_arp = 0x0806"

definition eth_type_ipv6 :: u16 where
  "eth_type_ipv6 = 0x86dd"

definition sizeof_ethernet_arp :: nat where
  "sizeof_ethernet_arp = 28"

definition arp_hardware :: "byte list \<Rightarrow> u16" where
  "arp_hardware h = ntohs (load16 h 0)"

definition arp_set_hardware :: "u16 \<Rightarrow> byte list \<Rightarrow> byte list" where
  "arp_set_hardware v h = store16 h 0 (htons v)"

definition arp_protocol :: "byte list \<Rightarrow> u16" where
  "arp_protocol h = ntohs (load16 h 2)"

definition arp_set_protocol :: "u16 \<Rightarrow> byte list \<Rightarrow> byte list" where
  "arp_set_protocol v h = store16 h 2 (htons v)"

definition arp_hardware_length :: "byte list \<Rightarrow> byte" where
  "arp_hardware_length h = h ! 4"

definition arp_set_hardware_length :: "byte \<Rightarrow> byte list \<Rightarrow> byte list" where
  "arp_set_hardware_length v h = h[4 := v]"

text \<open>The getter reads \<open>ar_hln\<close>, the setter writes \<open>ar_pln\<close>.\<close>

definition arp_protocol_length :: "byte list \<Rightarrow> byte" where
  "arp_protocol_length h = h ! 4"

definition arp_set_protocol_length :: "byte \<Rightarrow> byte list \<Rightarrow> byte list" where
  "arp_set_protocol_length v h = h[5 := v]"

definition arp_operation :: "byte list \<Rightarrow> u16" where
  "arp_operation h = ntohs (load16 h 6)"

definition arp_set_operation :: "u16 \<Rightarrow> byte list \<Rightarrow> byte list" where
  "arp_set_operation v h = store16 h 6 (htons v)"

definition arp_sender_lladdr :: "byte list \<Rightarrow> linklayer_address" where
  "arp_sender_lladdr h = \<lparr>ll_bytes = load_bytes h 8 6\<rparr>"

definition arp_set_sender_lladdr :: "linklayer_address \<Rightarrow> byte list \<Rightarrow> byte list" where
  "arp_set_sender_lladdr a h = store_bytes h 8 (ll_bytes a)"

definition arp_sender_inaddr :: "byte list \<Rightarrow> internet4_address" where
  "arp_sender_inaddr h = \<lparr>i4_bytes = load_bytes h 14 4\<rparr>"

definition arp_set_sender_inaddr :: "internet4_address \<Rightarrow> byte list \<Rightarrow> byte list" where
  "arp_set_sender_inaddr a h = store_bytes h 14 (i4_bytes a)"

definition arp_target_lladdr :: "byte list \<Rightarrow> linklayer_address" where
  "arp_target_lladdr h = \<lparr>ll_bytes = load_bytes h 18 6\<rparr>"

definition arp_set_target_lladdr :: "linklayer_address \<Rightarrow> byte list \<Rightarrow> byte list" where
  "arp_set_target_lladdr a h = store_bytes h 18 (ll_bytes a)"

definition arp_target_inaddr :: "byte list \<Rightarrow> internet4_address" where
  "arp_target_inaddr h = \<lparr>i4_bytes = load_bytes h 24 4\<rparr>"

definition arp_set_target_inaddr :: "internet4_address \<Rightarrow> byte list \<Rightarrow> byte list" where
  "arp_set_target_inaddr a h = store_bytes h 24 (i4_bytes a)"

section \<open>IPv4\<close>

text \<open>\<open>ip_hl\<close> is the low half of the first byte, \<open>ip_v\<close> the high one.\<close>

definition sizeof_ipv4_header :: nat where
  "sizeof_ipv4_header = 20"

definition ipv4_header_size :: "byte list \<Rightarrow> nat" where
  "ipv4_header_size h = unat (h ! 0 AND 0x0F) * 4"

definition ipv4_version :: "byte list \<Rightarrow> byte" where
  "ipv4_version h = drop_bit 4 (h ! 0)"

definition ipv4_set_version :: "byte \<Rightarrow> byte list \<Rightarrow> byte list" where
  "ipv4_set_version v h = h[0 := push_bit 4 (v AND 0x0F) OR (h ! 0 AND 0x0F)]"

definition ipv4_header_length :: "byte list \<Rightarrow> u16" where
  "ipv4_header_length h = ucast (h ! 0 AND 0x0F) * 4"

definition ipv4_set_header_length :: "u16 \<Rightarrow> byte list \<Rightarrow> byte list" where
  "ipv4_set_header_length v h = h[0 := (h ! 0 AND 0xF0) OR ucast (v div 4 AND 0x0F)]"

definition ipv4_type_of_service :: "byte list \<Rightarrow> byte" where
  "ipv4_type_of_service h = h ! 1"

definition ipv4_set_type_of_service :: "byte \<Rightarrow> byte list \<Rightarrow> byte list" where
  "ipv4_set_type_of_service v h = h[1 := v]"

definition ipv4_total_length :: "byte list \<Rightarrow> u16" where
  "ipv4_total_length h = ntohs (load16 h 2)"

definition ipv4_set_total_length :: "u16 \<Rightarrow> byte list \<Rightarrow> byte list" where
  "ipv4_set_total_length v h = store16 h 2 (htons v)"

definition ipv4_id :: "byte list \<Rightarrow> u16" where
  "ipv4_id h = ntohs (load16 h 4)"

definition ipv4_set_id :: "u16 \<Rightarrow> byte list \<Rightarrow> byte list" where
  "ipv4_set_id v h = store16 h 4 (htons v)"

definition IP_DF :: u16 where
  "IP_DF = 0x4000"

definition ipv4_is_dont_flagment :: "byte list \<Rightarrow> bool" where
  "ipv4_is_dont_flagment h \<longleftrightarrow> ntohs (load16 h 6) AND IP_DF \<noteq> 0"

definition ipv4_set_dont_flagment :: "byte list \<Rightarrow> byte list" where
  "ipv4_set_dont_flagment h = store16 h 6 (htons IP_DF)"

definition ipv4_time_of_live :: "byte list \<Rightarrow> byte" where
  "ipv4_time_of_live h = h ! 8"

definition ipv4_set_time_of_live :: "byte \<Rightarrow> byte list \<Rightarrow> byte list" where
  "ipv4_set_time_of_live v h = h[8 := v]"

definition ipv4_protocol :: "byte list \<Rightarrow> byte" where
  "ipv4_protocol h = h ! 9"

definition ipv4_set_protocol :: "byte \<Rightarrow> byte list \<Rightarrow> byte list" where
  "ipv4_set_protocol v h = h[9 := v]"

definition ipv4_checksum :: "byte list \<Rightarrow> u16" where
  "ipv4_checksum h = load16 h 10"

definition ipv4_set_checksum :: "u16 \<Rightarrow> byte list \<Rightarrow> byte list" where
  "ipv4_set_checksum s h = store16 h 10 s"

definition ipv4_source :: "byte list \<Rightarrow> internet4_address" where
  "ipv4_source h = \<lparr>i4_bytes = load_bytes h 12 4\<rparr>"

definition ipv4_set_source :: "internet4_address \<Rightarrow> byte list \<Rightarrow> byte list" where
  "ipv4_set_source a h = store_bytes h 12 (i4_bytes a)"

definition ipv4_destinate :: "byte list \<Rightarrow> internet4_address" where
  "ipv4_destinate h = \<lparr>i4_bytes = load_bytes h 16 4\<rparr>"

definition ipv4_set_destinate :: "internet4_address \<Rightarrow> byte list \<Rightarrow> byte list" where
  "ipv4_set_destinate a h = store_bytes h 16 (i4_bytes a)"

text \<open>
  \<open>shrink_into_end\<close>, with the position of \<open>end\<close> relative to the header: the new position
  of the end of the payload.
\<close>

definition ipv4_shrink_into_end :: "byte list \<Rightarrow> int \<Rightarrow> int" where
  "ipv4_shrink_into_end h size' =
     (let len = size' - int (unat (ntohs (load16 h 2)))
      in if 0 < len \<and> len < size' then size' - len else size')"

section \<open>IPv6\<close>

definition sizeof_ipv6_header :: nat where
  "sizeof_ipv6_header = 40"

definition ipv6_protocol :: "byte list \<Rightarrow> byte" where
  "ipv6_protocol h = h ! 6"

definition ipv6_set_protocol :: "byte \<Rightarrow> byte list \<Rightarrow> byte list" where
  "ipv6_set_protocol v h = h[6 := v]"

definition ipv6_source :: "byte list \<Rightarrow> internet6_address" where
  "ipv6_source h = \<lparr>i6_bytes = load_bytes h 8 16\<rparr>"

definition ipv6_set_source :: "internet6_address \<Rightarrow> byte list \<Rightarrow> byte list" where
  "ipv6_set_source a h = store_bytes h 8 (i6_bytes a)"

definition ipv6_destinate :: "byte list \<Rightarrow> internet6_address" where
  "ipv6_destinate h = \<lparr>i6_bytes = load_bytes h 24 16\<rparr>"

definition ipv6_set_destinate :: "internet6_address \<Rightarrow> byte list \<Rightarrow> byte list" where
  "ipv6_set_destinate a h = store_bytes h 24 (i6_bytes a)"

definition ipv6_shrink_into_end :: "byte list \<Rightarrow> int \<Rightarrow> int" where
  "ipv6_shrink_into_end h size' =
     (let len = size' - int (unat (ntohs (load16 h 4)) + sizeof_ipv6_header)
      in if len < size' then size' - len else size')"

section \<open>TCP and UDP\<close>

definition sizeof_tcp_header :: nat where
  "sizeof_tcp_header = 20"

definition tcp_source :: "byte list \<Rightarrow> u16" where
  "tcp_source h = ntohs (load16 h 0)"

definition tcp_set_source :: "u16 \<Rightarrow> byte list \<Rightarrow> byte list" where
  "tcp_set_source v h = store16 h 0 (htons v)"

definition tcp_destinate :: "byte list \<Rightarrow> u16" where
  "tcp_destinate h = ntohs (load16 h 2)"

definition tcp_set_destinate :: "u16 \<Rightarrow> byte list \<Rightarrow> byte list" where
  "tcp_set_destinate v h = store16 h 2 (htons v)"

definition tcp_checksum :: "byte list \<Rightarrow> u16" where
  "tcp_checksum h = load16 h 16"

definition tcp_set_checksum :: "u16 \<Rightarrow> byte list \<Rightarrow> byte list" where
  "tcp_set_checksum s h = store16 h 16 s"

definition sizeof_udp_header :: nat where
  "sizeof_udp_header = 8"

definition udp_source :: "byte list \<Rightarrow> u16" where
  "udp_source h = ntohs (load16 h 0)"

definition udp_set_source :: "u16 \<Rightarrow> byte list \<Rightarrow> byte list" where
  "udp_set_source v h = store16 h 0 (htons v)"

definition udp_destinate :: "byte list \<Rightarrow> u16" where
  "udp_destinate h = ntohs (load16 h 2)"

definition udp_set_destinate :: "u16 \<Rightarrow> byte list \<Rightarrow> byte list" where
  "udp_set_destinate v h = store16 h 2 (htons v)"

definition udp_checksum :: "byte list \<Rightarrow> u16" where
  "udp_checksum h = load16 h 6"

definition udp_set_checksum :: "u16 \<Rightarrow> byte list \<Rightarrow> byte list" where
  "udp_set_checksum s h = store16 h 6 s"

section \<open>ICMP and ICMPv6\<close>

definition sizeof_icmp_echo :: nat where
  "sizeof_icmp_echo = 8"

definition icmp_type :: "byte list \<Rightarrow> byte" where
  "icmp_type h = h ! 0"

definition icmp_set_type :: "byte \<Rightarrow> byte list \<Rightarrow> byte list" where
  "icmp_set_type v h = h[0 := v]"

definition icmp_code :: "byte list \<Rightarrow> byte" where
  "icmp_code h = h ! 1"

definition icmp_set_code :: "byte \<Rightarrow> byte list \<Rightarrow> byte list" where
  "icmp_set_code v h = h[1 := v]"

definition icmp_checksum :: "byte list \<Rightarrow> u16" where
  "icmp_checksum h = load16 h 2"

definition icmp_set_checksum :: "u16 \<Rightarrow> byte list \<Rightarrow> byte list" where
  "icmp_set_checksum s h = store16 h 2 s"

definition icmp_id :: "byte list \<Rightarrow> u16" where
  "icmp_id h = ntohs (load16 h 4)"

definition icmp_set_id :: "u16 \<Rightarrow> byte list \<Rightarrow> byte list" where
  "icmp_set_id v h = store16 h 4 (htons v)"

definition icmp_seq :: "byte list \<Rightarrow> u16" where
  "icmp_seq h = ntohs (load16 h 6)"

definition icmp_set_seq :: "u16 \<Rightarrow> byte list \<Rightarrow> byte list" where
  "icmp_set_seq v h = store16 h 6 (htons v)"

text \<open>An ICMPv6 neighbour message has the target address behind the structure.\<close>

definition sizeof_icmpv6_header :: nat where
  "sizeof_icmpv6_header = 8"

definition icmpv6_neighbor_header_size :: nat where
  "icmpv6_neighbor_header_size = sizeof_icmpv6_header + 16"

definition icmpv6_type :: "byte list \<Rightarrow> byte" where
  "icmpv6_type h = h ! 0"

definition icmpv6_set_type :: "byte \<Rightarrow> byte list \<Rightarrow> byte list" where
  "icmpv6_set_type v h = h[0 := v]"

definition icmpv6_code :: "byte list \<Rightarrow> byte" where
  "icmpv6_code h = h ! 1"

definition icmpv6_set_code :: "byte \<Rightarrow> byte list \<Rightarrow> byte list" where
  "icmpv6_set_code v h = h[1 := v]"

definition icmpv6_checksum :: "byte list \<Rightarrow> u16" where
  "icmpv6_checksum h = load16 h 2"

definition icmpv6_set_checksum :: "u16 \<Rightarrow> byte list \<Rightarrow> byte list" where
  "icmpv6_set_checksum s h = store16 h 2 s"

definition icmpv6_id :: "byte list \<Rightarrow> u16" where
  "icmpv6_id h = ntohs (load16 h 4)"

definition icmpv6_set_id :: "u16 \<Rightarrow> byte list \<Rightarrow> byte list" where
  "icmpv6_set_id v h = store16 h 4 (htons v)"

definition icmpv6_seq :: "byte list \<Rightarrow> u16" where
  "icmpv6_seq h = ntohs (load16 h 6)"

definition icmpv6_set_seq :: "u16 \<Rightarrow> byte list \<Rightarrow> byte list" where
  "icmpv6_set_seq v h = store16 h 6 (htons v)"

definition icmpv6_is_router :: "byte list \<Rightarrow> bool" where
  "icmpv6_is_router h \<longleftrightarrow> h ! 4 AND 0x80 \<noteq> 0"

definition icmpv6_set_router :: "bool \<Rightarrow> byte list \<Rightarrow> byte list" where
  "icmpv6_set_router b h = (if b then h[4 := h ! 4 OR 0x80] else h[4 := h ! 4 AND NOT 0x80])"

definition icmpv6_is_solicited :: "byte list \<Rightarrow> bool" where
  "icmpv6_is_solicited h \<longleftrightarrow> h ! 4 AND 0x40 \<noteq> 0"

definition icmpv6_set_solicited :: "bool \<Rightarrow> byte list \<Rightarrow> byte list" where
  "icmpv6_set_solicited b h = (if b then h[4 := h ! 4 OR 0x40] else h[4 := h ! 4 AND NOT 0x40])"

definition icmpv6_is_override :: "byte list \<Rightarrow> bool" where
  "icmpv6_is_override h \<longleftrightarrow> h ! 4 AND 0x20 \<noteq> 0"

definition icmpv6_set_override :: "bool \<Rightarrow> byte list \<Rightarrow> byte list" where
  "icmpv6_set_override b h = (if b then h[4 := h ! 4 OR 0x20] else h[4 := h ! 4 AND NOT 0x20])"

definition icmpv6_target_address :: "byte list \<Rightarrow> internet6_address" where
  "icmpv6_target_address h = \<lparr>i6_bytes = load_bytes h 8 16\<rparr>"

definition icmpv6_set_target_address :: "internet6_address \<Rightarrow> byte list \<Rightarrow> byte list" where
  "icmpv6_set_target_address a h = store_bytes h 8 (i6_bytes a)"

section \<open>Which header may follow which\<close>

definition match_ethernet_ipv4 :: "byte list \<Rightarrow> byte list \<Rightarrow> bool" where
  "match_ethernet_ipv4 from to \<longleftrightarrow> eth_protocol from = eth_type_ip"

definition match_ethernet_ipv6 :: "byte list \<Rightarrow> byte list \<Rightarrow> bool" where
  "match_ethernet_ipv6 from to \<longleftrightarrow> eth_protocol from = eth_type_ipv6"

definition match_ethernet_arp :: "byte list \<Rightarrow> byte list \<Rightarrow> bool" where
  "match_ethernet_arp from to \<longleftrightarrow> eth_protocol from = eth_type_arp"

definition match_ipv4_tcp :: "byte list \<Rightarrow> byte list \<Rightarrow> bool" where
  "match_ipv4_tcp from to \<longleftrightarrow> ipv4_protocol from = 6"

definition match_ipv4_udp :: "byte list \<Rightarrow> byte list \<Rightarrow> bool" where
  "match_ipv4_udp from to \<longleftrightarrow> ipv4_protocol from = 17"

definition match_ipv4_icmp_echo :: "byte list \<Rightarrow> byte list \<Rightarrow> bool" where
  "match_ipv4_icmp_echo from to \<longleftrightarrow> ipv4_protocol from = 1 \<and> (icmp_type to = 8 \<or> icmp_type to = 0)"

definition match_ipv6_tcp :: "byte list \<Rightarrow> byte list \<Rightarrow> bool" where
  "match_ipv6_tcp from to \<longleftrightarrow> ipv6_protocol from = 6"

definition match_ipv6_udp :: "byte list \<Rightarrow> byte list \<Rightarrow> bool" where
  "match_ipv6_udp from to \<longleftrightarrow> ipv6_protocol from = 17"

definition match_ipv6_icmpv6_echo :: "byte list \<Rightarrow> byte list \<Rightarrow> bool" where
  "match_ipv6_icmpv6_echo from to \<longleftrightarrow> ipv6_protocol from = 58 \<and> (icmpv6_type to = 128 \<or> icmpv6_type to = 129)"

definition match_ipv6_icmpv6_neighbor :: "byte list \<Rightarrow> byte list \<Rightarrow> bool" where
  "match_ipv6_icmpv6_neighbor from to \<longleftrightarrow> ipv6_protocol from = 58 \<and> (icmpv6_type to = 135 \<or> icmpv6_type to = 136)"

section \<open>Every accessor pair is a field\<close>

lemma byte_field_i4: "off + 4 \<le> sz \<Longrightarrow>
    byte_field sz off 4 i4_valid (\<lambda>h. \<lparr>i4_bytes = load_bytes h off 4\<rparr>) (\<lambda>a h. store_bytes h off (i4_bytes a))"
  using byte_field_bytes [of off 4 sz i4_bytes "\<lambda>bs. \<lparr>i4_bytes = bs\<rparr>"] by (simp add: i4_valid_def [abs_def])

lemma byte_field_i6: "off + 16 \<le> sz \<Longrightarrow>
    byte_field sz off 16 i6_valid (\<lambda>h. \<lparr>i6_bytes = load_bytes h off 16\<rparr>) (\<lambda>a h. store_bytes h off (i6_bytes a))"
  using byte_field_bytes [of off 16 sz i6_bytes "\<lambda>bs. \<lparr>i6_bytes = bs\<rparr>"] by (simp add: i6_valid_def [abs_def])

lemma byte_field_ll: "off + 6 \<le> sz \<Longrightarrow>
    byte_field sz off 6 ll_valid (\<lambda>h. \<lparr>ll_bytes = load_bytes h off 6\<rparr>) (\<lambda>a h. store_bytes h off (ll_bytes a))"
  using byte_field_bytes [of off 6 sz ll_bytes "\<lambda>bs. \<lparr>ll_bytes = bs\<rparr>"] by (simp add: ll_valid_def [abs_def])

interpretation eth_destinate: byte_field 14 0 6 "ll_valid" eth_destinate eth_set_destinate
  unfolding eth_destinate_def [abs_def] eth_set_destinate_def [abs_def] by (rule byte_field_ll) simp

interpretation eth_source: byte_field 14 6 6 "ll_valid" eth_source eth_set_source
  unfolding eth_source_def [abs_def] eth_set_source_def [abs_def] by (rule byte_field_ll) simp

interpretation eth_protocol: byte_field 14 12 2 "(\<lambda>_. True)" eth_protocol eth_set_protocol
  unfolding eth_protocol_def [abs_def] eth_set_protocol_def [abs_def] by (rule byte_field16) simp

interpretation arp_hardware: byte_field 28 0 2 "(\<lambda>_. True)" arp_hardware arp_set_hardware
  unfolding arp_hardware_def [abs_def] arp_set_hardware_def [abs_def] by (rule byte_field16) simp

interpretation arp_protocol: byte_field 28 2 2 "(\<lambda>_. True)" arp_protocol arp_set_protocol
  unfolding arp_protocol_def [abs_def] arp_set_protocol_def [abs_def] by (rule byte_field16) simp

interpretation arp_hardware_length: byte_field 28 4 1 "(\<lambda>_. True)" arp_hardware_length arp_set_hardware_length
  unfolding arp_hardware_length_def [abs_def] arp_set_hardware_length_def [abs_def] by (rule byte_field8) simp

interpretation arp_operation: byte_field 28 6 2 "(\<lambda>_. True)" arp_operation arp_set_operation
  unfolding arp_operation_def [abs_def] arp_set_operation_def [abs_def] by (rule byte_field16) simp

interpretation arp_sender_lladdr: byte_field 28 8 6 "ll_valid" arp_sender_lladdr arp_set_sender_lladdr
  unfolding arp_sender_lladdr_def [abs_def] arp_set_sender_lladdr_def [abs_def] by (rule byte_field_ll) simp

interpretation arp_sender_inaddr: byte_field 28 14 4 "i4_valid" arp_sender_inaddr arp_set_sender_inaddr
  unfolding arp_sender_inaddr_def [abs_def] arp_set_sender_inaddr_def [abs_def] by (rule byte_field_i4) simp

interpretation arp_target_lladdr: byte_field 28 18 6 "ll_valid" arp_target_lladdr arp_set_target_lladdr
  unfolding arp_target_lladdr_def [abs_def] arp_set_target_lladdr_def [abs_def] by (rule byte_field_ll) simp

interpretation arp_target_inaddr: byte_field 28 24 4 "i4_valid" arp_target_inaddr arp_set_target_inaddr
  unfolding arp_target_inaddr_def [abs_def] arp_set_target_inaddr_def [abs_def] by (rule byte_field_i4) simp

interpretation ipv4_type_of_service: byte_field 20 1 1 "(\<lambda>_. True)" ipv4_type_of_service ipv4_set_type_of_service
  unfolding ipv4_type_of_service_def [abs_def] ipv4_set_type_of_service_def [abs_def] by (rule byte_field8) simp

interpretation ipv4_total_length: byte_field 20 2 2 "(\<lambda>_. True)" ipv4_total_length ipv4_set_total_length
  unfolding ipv4_total_length_def [abs_def] ipv4_set_total_length_def [abs_def] by (rule byte_field16) simp

interpretation ipv4_id: byte_field 20 4 2 "(\<lambda>_. True)" ipv4_id ipv4_set_id
  unfolding ipv4_id_def [abs_def] ipv4_set_id_def [abs_def] by (rule byte_field16) simp

interpretation ipv4_time_of_live: byte_field 20 8 1 "(\<lambda>_. True)" ipv4_time_of_live ipv4_set_time_of_live
  unfolding ipv4_time_of_live_def [abs_def] ipv4_set_time_of_live_def [abs_def] by (rule byte_field8) simp

interpretation ipv4_protocol: byte_field 20 9 1 "(\<lambda>_. True)" ipv4_protocol ipv4_set_protocol
  unfolding ipv4_protocol_def [abs_def] ipv4_set_protocol_def [abs_def] by (rule byte_field8) simp

interpretation ipv4_checksum: byte_field 20 10 2 "(\<lambda>_. True)" ipv4_checksum ipv4_set_checksum
  unfolding ipv4_checksum_def [abs_def] ipv4_set_checksum_def [abs_def] by (rule byte_field16_raw) simp

interpretation ipv4_source: byte_field 20 12 4 "i4_valid" ipv4_source ipv4_set_source
  unfolding ipv4_source_def [abs_def] ipv4_set_source_def [abs_def] by (rule byte_field_i4) simp

interpretation ipv4_destinate: byte_field 20 16 4 "i4_valid" ipv4_destinate ipv4_set_destinate
  unfolding ipv4_destinate_def [abs_def] ipv4_set_destinate_def [abs_def] by (rule byte_field_i4) simp

interpretation ipv6_protocol: byte_field 40 6 1 "(\<lambda>_. True)" ipv6_protocol ipv6_set_protocol
  unfolding ipv6_protocol_def [abs_def] ipv6_set_protocol_def [abs_def] by (rule byte_field8) simp

interpretation ipv6_source: byte_field 40 8 16 "i6_valid" ipv6_source ipv6_set_source
  unfolding ipv6_source_def [abs_def] ipv6_set_source_def [abs_def] by (rule byte_field_i6) simp

interpretation ipv6_destinate: byte_field 40 24 16 "i6_valid" ipv6_destinate ipv6_set_destinate
  unfolding ipv6_destinate_def [abs_def] ipv6_set_destinate_def [abs_def] by (rule byte_field_i6) simp

interpretation tcp_source: byte_field 20 0 2 "(\<lambda>_. True)" tcp_source tcp_set_source
  unfolding tcp_source_def [abs_def] tcp_set_source_def [abs_def] by (rule byte_field16) simp

interpretation tcp_destinate: byte_field 20 2 2 "(\<lambda>_. True)" tcp_destinate tcp_set_destinate
  unfolding tcp_destinate_def [abs_def] tcp_set_destinate_def [abs_def] by (rule byte_field16) simp

interpretation tcp_checksum: byte_field 20 16 2 "(\<lambda>_. True)" tcp_checksum tcp_set_checksum
  unfolding tcp_checksum_def [abs_def] tcp_set_checksum_def [abs_def] by (rule byte_field16_raw) simp

interpretation udp_source: byte_field 8 0 2 "(\<lambda>_. True)" udp_source udp_set_source
  unfolding udp_source_def [abs_def] udp_set_source_def [abs_def] by (rule byte_field16) simp

interpretation udp_destinate: byte_field 8 2 2 "(\<lambda>_. True)" udp_destinate udp_set_destinate
  unfolding udp_destinate_def [abs_def] udp_set_destinate_def [abs_def] by (rule byte_field16) simp

interpretation udp_checksum: byte_field 8 6 2 "(\<lambda>_. True)" udp_checksum udp_set_checksum
  unfolding udp_checksum_def [abs_def] udp_set_checksum_def [abs_def] by (rule byte_field16_raw) simp

interpretation icmp_type: byte_field 8 0 1 "(\<lambda>_. True)" icmp_type icmp_set_type
  unfolding icmp_type_def [abs_def] icmp_set_type_def [abs_def] by (rule byte_field8) simp

interpretation icmp_code: byte_field 8 1 1 "(\<lambda>_. True)" icmp_code icmp_set_code
  unfolding icmp_code_def [abs_def] icmp_set_code_def [abs_def] by (rule byte_field8) simp

interpretation icmp_checksum: byte_field 8 2 2 "(\<lambda>_. True)" icmp_checksum icmp_set_checksum
  unfolding icmp_checksum_def [abs_def] icmp_set_checksum_def [abs_def] by (rule byte_field16_raw) simp

interpretation icmp_id: byte_field 8 4 2 "(\<lambda>_. True)" icmp_id icmp_set_id
  unfolding icmp_id_def [abs_def] icmp_set_id_def [abs_def] by (rule byte_field16) simp

interpretation icmp_seq: byte_field 8 6 2 "(\<lambda>_. True)" icmp_seq icmp_set_seq
  unfolding icmp_seq_def [abs_def] icmp_set_seq_def [abs_def] by (rule byte_field16) simp

interpretation icmpv6_type: byte_field 8 0 1 "(\<lambda>_. True)" icmpv6_type icmpv6_set_type
  unfolding icmpv6_type_def [abs_def] icmpv6_set_type_def [abs_def] by (rule byte_field8) simp

interpretation icmpv6_code: byte_field 8 1 1 "(\<lambda>_. True)" icmpv6_code icmpv6_set_code
  unfolding icmpv6_code_def [abs_def] icmpv6_set_code_def [abs_def] by (rule byte_field8) simp

interpretation icmpv6_checksum: byte_field 8 2 2 "(\<lambda>_. True)" icmpv6_checksum icmpv6_set_checksum
  unfolding icmpv6_checksum_def [abs_def] icmpv6_set_checksum_def [abs_def] by (rule byte_field16_raw) simp

interpretation icmpv6_id: byte_field 8 4 2 "(\<lambda>_. True)" icmpv6_id icmpv6_set_id
  unfolding icmpv6_id_def [abs_def] icmpv6_set_id_def [abs_def] by (rule byte_field16) simp

interpretation icmpv6_seq: byte_field 8 6 2 "(\<lambda>_. True)" icmpv6_seq icmpv6_set_seq
  unfolding icmpv6_seq_def [abs_def] icmpv6_set_seq_def [abs_def] by (rule byte_field16) simp

interpretation icmpv6_target_address: byte_field 24 8 16 "i6_valid" icmpv6_target_address icmpv6_set_target_address
  unfolding icmpv6_target_address_def [abs_def] icmpv6_set_target_address_def [abs_def] by (rule byte_field_i6) simp

text \<open>The two halves of the first byte of an IPv4 header, and the flags of a neighbour message.\<close>

lemma nibble_bits:
  fixes b v :: byte
  shows "v < 16 \<Longrightarrow> drop_bit 4 (push_bit 4 (v AND 0x0F) OR (b AND 0x0F)) = v"
    and "(push_bit 4 (v AND 0x0F) OR (b AND 0x0F)) AND 0x0F = b AND 0x0F"
    and "((b AND 0xF0) OR (v AND 0x0F)) AND 0x0F = v AND 0x0F"
    and "drop_bit 4 ((b AND 0xF0) OR (v AND 0x0F)) = drop_bit 4 b"
proof -
  have m: "(0x0F :: byte) = mask 4" "(0xF0 :: byte) = NOT (mask 4)" by code_simp+
  show "drop_bit 4 (push_bit 4 (v AND 0x0F) OR (b AND 0x0F)) = v" if "v < 16"
  proof -
    have "take_bit 4 v = v"
      using that by (simp only: word_unat_eq_iff unsigned_take_bit_eq word_less_nat_alt)
        (simp add: take_bit_nat_eq_self)
    then have "bit v i \<Longrightarrow> i < 4" for i by (metis bit_take_bit_iff)
    then show ?thesis unfolding m by (intro bit_word_eqI) (auto simp: bit_simps)
  qed
  show "(push_bit 4 (v AND 0x0F) OR (b AND 0x0F)) AND 0x0F = b AND 0x0F"
    "((b AND 0xF0) OR (v AND 0x0F)) AND 0x0F = v AND 0x0F"
    "drop_bit 4 ((b AND 0xF0) OR (v AND 0x0F)) = drop_bit 4 b"
    unfolding m by (rule bit_word_eqI, auto simp: bit_simps dest: bit_imp_le_length)+
qed

lemma ucast_nibble: "(ucast (w AND 0x0F :: u16) :: byte) = ucast w AND 0x0F"
proof -
  have m: "(0x0F :: byte) = mask 4" "(0x0F :: u16) = mask 4" by code_simp+
  show ?thesis unfolding m by (rule bit_word_eqI) (auto simp: bit_simps)
qed

lemma quarter_bits:
  assumes "4 dvd unat v" "v < (64 :: u16)"
  shows "ucast (ucast (v div 4) AND 0x0F :: byte) * 4 = v"
proof -
  have n: "unat v < 64" using assms(2) by (simp add: word_less_nat_alt)
  then have d: "unat (v div 4) = unat v div 4" "unat v div 4 < 16" by (simp_all add: unat_div)
  have "unat (ucast (v div 4) AND 0x0F :: byte) = unat v div 4"
  proof -
    have "(0x0F :: byte) = mask 4" by code_simp
    then have "(ucast (v div 4) AND 0x0F :: byte) = take_bit 4 (ucast (v div 4))"
      by (simp only: take_bit_eq_mask)
    then have "unat (ucast (v div 4) AND 0x0F :: byte) = unat (ucast (v div 4) :: byte) mod 16"
      by (simp only: unsigned_take_bit_eq) (simp add: take_bit_eq_mod)
    then show ?thesis using d by (simp add: unat_ucast_mod)
  qed
  then have "unat (ucast (ucast (v div 4) AND 0x0F :: byte) * 4 :: u16) = unat v div 4 * 4"
    using d(2) by (simp add: unat_word_ariths del: ucast_nibble)
  then show ?thesis using assms(1) by (simp add: word_unat_eq_iff)
qed

lemma nth_update_0: "20 \<le> length h \<Longrightarrow> h[0 := x] ! 0 = x"
  by (cases h) auto

interpretation ipv4_version: byte_field 20 0 1 "\<lambda>v. v < 16" ipv4_version ipv4_set_version
  by unfold_locales (auto simp: ipv4_version_def ipv4_set_version_def nibble_bits nth_update_0 simp del: push_bit_and drop_bit_or)

interpretation ipv4_header_length: byte_field 20 0 1 "\<lambda>v. 4 dvd unat v \<and> v < 64" ipv4_header_length ipv4_set_header_length
  by unfold_locales
    (auto simp: ipv4_header_length_def ipv4_set_header_length_def ucast_nibble nibble_bits quarter_bits nth_update_0)

lemma flag_bits:
  fixes b :: byte
  assumes "f = push_bit k 1" "k < 8"
  shows "(b OR f) AND f \<noteq> 0" "(b AND NOT f) AND f = 0"
    and "g = push_bit l 1 \<Longrightarrow> l \<noteq> k \<Longrightarrow> (b OR f) AND g = b AND g \<and> (b AND NOT f) AND g = b AND g"
proof -
  have "bit ((b OR f) AND f) k" using assms by (simp add: bit_simps)
  then show "(b OR f) AND f \<noteq> 0" by auto
  show "(b AND NOT f) AND f = 0" by (rule bit_word_eqI) (auto simp: bit_simps)
  show "(b OR f) AND g = b AND g \<and> (b AND NOT f) AND g = b AND g" if "g = push_bit l 1" "l \<noteq> k"
    by (intro conjI; rule bit_word_eqI) (use that assms in \<open>auto simp: bit_simps\<close>)
qed

lemma flag_masks: "(0x80 :: byte) = push_bit 7 1" "(0x40 :: byte) = push_bit 6 1" "(0x20 :: byte) = push_bit 5 1"
  by code_simp+

lemmas neighbor_flags = flag_masks [THEN flag_bits(1)] flag_masks [THEN flag_bits(2)]

lemma neighbor_flag_get_put:
  assumes "8 \<le> length h"
  shows "icmpv6_is_router (icmpv6_set_router b h) = b" "icmpv6_is_solicited (icmpv6_set_solicited b h) = b"
    "icmpv6_is_override (icmpv6_set_override b h) = b"
proof -
  have l: "4 < length h" using assms by simp
  show "icmpv6_is_router (icmpv6_set_router b h) = b" "icmpv6_is_solicited (icmpv6_set_solicited b h) = b"
    "icmpv6_is_override (icmpv6_set_override b h) = b"
    by (cases b; simp only: icmpv6_is_router_def icmpv6_set_router_def icmpv6_is_solicited_def icmpv6_set_solicited_def
      icmpv6_is_override_def icmpv6_set_override_def if_True if_False nth_list_update_eq [OF l] neighbor_flags simp_thms)+
qed

interpretation icmpv6_router: byte_field 8 4 1 "\<lambda>_. True" icmpv6_is_router icmpv6_set_router
  by unfold_locales (simp_all add: neighbor_flag_get_put, auto simp: icmpv6_is_router_def icmpv6_set_router_def)

interpretation icmpv6_solicited: byte_field 8 4 1 "\<lambda>_. True" icmpv6_is_solicited icmpv6_set_solicited
  by unfold_locales (simp_all add: neighbor_flag_get_put, auto simp: icmpv6_is_solicited_def icmpv6_set_solicited_def)

interpretation icmpv6_override: byte_field 8 4 1 "\<lambda>_. True" icmpv6_is_override icmpv6_set_override
  by unfold_locales (simp_all add: neighbor_flag_get_put, auto simp: icmpv6_is_override_def icmpv6_set_override_def)

lemma ipv4_halves:
  assumes "20 \<le> length h"
  shows "ipv4_header_length (ipv4_set_version v h) = ipv4_header_length h"
    "ipv4_version (ipv4_set_header_length w h) = ipv4_version h"
  by (simp_all only: ipv4_header_length_def ipv4_set_version_def ipv4_version_def ipv4_set_header_length_def
      ucast_nibble nibble_bits nth_update_0 [OF assms])

lemma ipv4_header_size_length: "ipv4_header_size h = unat (ipv4_header_length h)"
proof -
  have "unat (h ! 0 AND 0x0F) * 4 < 65536" using unat_byte_less [of "h ! 0 AND 0x0F"] by linarith
  then show ?thesis by (simp add: ipv4_header_size_def ipv4_header_length_def unat_word_ariths)
qed

lemma ipv4_dont_flagment: "20 \<le> length h \<Longrightarrow> ipv4_is_dont_flagment (ipv4_set_dont_flagment h)"
  by (simp add: ipv4_is_dont_flagment_def ipv4_set_dont_flagment_def IP_DF_def)

lemma neighbor_flags_apart:
  assumes "8 \<le> length h"
  shows "icmpv6_is_solicited (icmpv6_set_router b h) = icmpv6_is_solicited h"
    "icmpv6_is_override (icmpv6_set_router b h) = icmpv6_is_override h"
    "icmpv6_is_router (icmpv6_set_solicited b h) = icmpv6_is_router h"
    "icmpv6_is_override (icmpv6_set_solicited b h) = icmpv6_is_override h"
    "icmpv6_is_router (icmpv6_set_override b h) = icmpv6_is_router h"
    "icmpv6_is_solicited (icmpv6_set_override b h) = icmpv6_is_solicited h"
proof -
  have l: "4 < length h" using assms by simp
  note other = flag_bits(3) [OF flag_masks(1) _ flag_masks(2)] flag_bits(3) [OF flag_masks(1) _ flag_masks(3)]
    flag_bits(3) [OF flag_masks(2) _ flag_masks(1)] flag_bits(3) [OF flag_masks(2) _ flag_masks(3)]
    flag_bits(3) [OF flag_masks(3) _ flag_masks(1)] flag_bits(3) [OF flag_masks(3) _ flag_masks(2)]
  show "icmpv6_is_solicited (icmpv6_set_router b h) = icmpv6_is_solicited h"
    "icmpv6_is_override (icmpv6_set_router b h) = icmpv6_is_override h"
    "icmpv6_is_router (icmpv6_set_solicited b h) = icmpv6_is_router h"
    "icmpv6_is_override (icmpv6_set_solicited b h) = icmpv6_is_override h"
    "icmpv6_is_router (icmpv6_set_override b h) = icmpv6_is_router h"
    "icmpv6_is_solicited (icmpv6_set_override b h) = icmpv6_is_solicited h"
    using other [of "h ! 4"]
    by (cases b; simp only: icmpv6_is_router_def icmpv6_set_router_def icmpv6_is_solicited_def icmpv6_set_solicited_def
      icmpv6_is_override_def icmpv6_set_override_def if_True if_False nth_list_update_eq [OF l])+
qed

interpretation ipv4_addresses: disjoint_fields 20 12 4 16 4 i4_valid ipv4_source ipv4_set_source
    i4_valid ipv4_destinate ipv4_set_destinate
  by unfold_locales simp

interpretation ipv4_length_checksum: disjoint_fields 20 0 1 10 2 "\<lambda>v. 4 dvd unat v \<and> v < 64" ipv4_header_length
    ipv4_set_header_length "\<lambda>_. True" ipv4_checksum ipv4_set_checksum
  by unfold_locales simp

section \<open>The header classes\<close>

text \<open>
  The accessors of \<open>ethernet_header\<close> and \<open>ethernet_arp\<close>: each getter returns what its
  setter stored, at the place and in the byte order of the protocol, and a setter changes
  no byte outside its field. The exception is \<open>ethernet_arp::protocol_length\<close>, whose getter
  returns the hardware length.
\<close>

theorem ethernet_arp_fields:
  "byte_field 14 0 6 ll_valid eth_destinate eth_set_destinate
    \<and> byte_field 14 6 6 ll_valid eth_source eth_set_source
    \<and> byte_field 14 12 2 (\<lambda>_. True) eth_protocol eth_set_protocol
    \<and> byte_field 28 0 2 (\<lambda>_. True) arp_hardware arp_set_hardware
    \<and> byte_field 28 2 2 (\<lambda>_. True) arp_protocol arp_set_protocol
    \<and> byte_field 28 4 1 (\<lambda>_. True) arp_hardware_length arp_set_hardware_length
    \<and> byte_field 28 6 2 (\<lambda>_. True) arp_operation arp_set_operation
    \<and> byte_field 28 8 6 ll_valid arp_sender_lladdr arp_set_sender_lladdr
    \<and> byte_field 28 14 4 i4_valid arp_sender_inaddr arp_set_sender_inaddr
    \<and> byte_field 28 18 6 ll_valid arp_target_lladdr arp_set_target_lladdr
    \<and> byte_field 28 24 4 i4_valid arp_target_inaddr arp_set_target_inaddr
    \<and> (\<forall>h v. 28 \<le> length h \<longrightarrow> arp_protocol_length (arp_set_protocol_length v h) = arp_hardware_length h)"
  by (intro conjI; (rule eth_destinate.byte_field_axioms eth_source.byte_field_axioms eth_protocol.byte_field_axioms
      arp_hardware.byte_field_axioms arp_protocol.byte_field_axioms arp_hardware_length.byte_field_axioms
      arp_operation.byte_field_axioms arp_sender_lladdr.byte_field_axioms
      arp_sender_inaddr.byte_field_axioms arp_target_lladdr.byte_field_axioms
      arp_target_inaddr.byte_field_axioms)?)
    (simp add: arp_protocol_length_def arp_set_protocol_length_def arp_hardware_length_def)

theorem ethernet_arp_fields_witness:
  "arp_protocol_length (arp_set_protocol_length 4 (arp_set_hardware_length 6 (replicate 28 0))) = 6"
proof -
  have "\<forall>h v. 28 \<le> length h \<longrightarrow> arp_protocol_length (arp_set_protocol_length v h) = arp_hardware_length h"
    using ethernet_arp_fields by blast
  then show ?thesis by (simp add: arp_hardware_length.get_put arp_hardware_length.length_put)
qed

text \<open>
  The accessors of \<open>ipv4_header\<close> likewise, with the version below 16 and the header
  length a multiple of 4 below 64. Setting one half of the first byte keeps the other, and
  \<open>set_dont_flagment\<close> sets the flag it tests.
\<close>

theorem ipv4_fields:
  "byte_field 20 1 1 (\<lambda>_. True) ipv4_type_of_service ipv4_set_type_of_service
    \<and> byte_field 20 2 2 (\<lambda>_. True) ipv4_total_length ipv4_set_total_length
    \<and> byte_field 20 4 2 (\<lambda>_. True) ipv4_id ipv4_set_id
    \<and> byte_field 20 8 1 (\<lambda>_. True) ipv4_time_of_live ipv4_set_time_of_live
    \<and> byte_field 20 9 1 (\<lambda>_. True) ipv4_protocol ipv4_set_protocol
    \<and> byte_field 20 10 2 (\<lambda>_. True) ipv4_checksum ipv4_set_checksum
    \<and> byte_field 20 12 4 i4_valid ipv4_source ipv4_set_source
    \<and> byte_field 20 16 4 i4_valid ipv4_destinate ipv4_set_destinate
    \<and> byte_field 20 0 1 (\<lambda>v. v < 16) ipv4_version ipv4_set_version
    \<and> byte_field 20 0 1 (\<lambda>v. 4 dvd unat v \<and> v < 64) ipv4_header_length ipv4_set_header_length
    \<and> (\<forall>h v. 20 \<le> length h \<longrightarrow> ipv4_header_length (ipv4_set_version v h) = ipv4_header_length h)
    \<and> (\<forall>h v. 20 \<le> length h \<longrightarrow> ipv4_version (ipv4_set_header_length v h) = ipv4_version h)
    \<and> (\<forall>h. 20 \<le> length h \<longrightarrow> ipv4_is_dont_flagment (ipv4_set_dont_flagment h))
    \<and> (\<forall>h. 20 \<le> length h \<longrightarrow> ipv4_header_size h = unat (ipv4_header_length h))"
  by (intro conjI; (rule ipv4_type_of_service.byte_field_axioms ipv4_total_length.byte_field_axioms ipv4_id.byte_field_axioms
      ipv4_time_of_live.byte_field_axioms ipv4_protocol.byte_field_axioms ipv4_checksum.byte_field_axioms
      ipv4_source.byte_field_axioms ipv4_destinate.byte_field_axioms ipv4_version.byte_field_axioms
      ipv4_header_length.byte_field_axioms)?)
    (auto simp: ipv4_halves ipv4_dont_flagment ipv4_header_size_length)

theorem ipv4_fields_witness:
  "ipv4_version (ipv4_set_header_length 24 (ipv4_set_version 4 (replicate 20 0))) = 4
   \<and> ipv4_header_size (ipv4_set_header_length 24 (replicate 20 0)) = 24"
proof -
  have "\<forall>h v. 20 \<le> length h \<longrightarrow> ipv4_version (ipv4_set_header_length v h) = ipv4_version h"
    "\<forall>h. 20 \<le> length h \<longrightarrow> ipv4_header_size h = unat (ipv4_header_length h)"
    using ipv4_fields by blast+
  then show ?thesis
    by (simp add: ipv4_version.get_put ipv4_version.length_put ipv4_header_length.get_put ipv4_header_length.length_put)
qed

text \<open>
  The accessors of \<open>ipv6_header\<close>, \<open>tcp_header\<close> and \<open>udp_header\<close> likewise.
\<close>

theorem transport_fields:
  "byte_field 40 6 1 (\<lambda>_. True) ipv6_protocol ipv6_set_protocol
    \<and> byte_field 40 8 16 i6_valid ipv6_source ipv6_set_source
    \<and> byte_field 40 24 16 i6_valid ipv6_destinate ipv6_set_destinate
    \<and> byte_field 20 0 2 (\<lambda>_. True) tcp_source tcp_set_source
    \<and> byte_field 20 2 2 (\<lambda>_. True) tcp_destinate tcp_set_destinate
    \<and> byte_field 20 16 2 (\<lambda>_. True) tcp_checksum tcp_set_checksum
    \<and> byte_field 8 0 2 (\<lambda>_. True) udp_source udp_set_source
    \<and> byte_field 8 2 2 (\<lambda>_. True) udp_destinate udp_set_destinate
    \<and> byte_field 8 6 2 (\<lambda>_. True) udp_checksum udp_set_checksum"
  by (intro conjI; rule ipv6_protocol.byte_field_axioms ipv6_source.byte_field_axioms ipv6_destinate.byte_field_axioms
      tcp_source.byte_field_axioms tcp_destinate.byte_field_axioms tcp_checksum.byte_field_axioms
      udp_source.byte_field_axioms udp_destinate.byte_field_axioms udp_checksum.byte_field_axioms)

text \<open>
  The accessors of \<open>icmp_header\<close> and \<open>icmpv6_header\<close> likewise; the three flags of a
  neighbour message lie in one byte and do not disturb each other.
\<close>

theorem icmp_fields:
  "byte_field 8 0 1 (\<lambda>_. True) icmp_type icmp_set_type
    \<and> byte_field 8 1 1 (\<lambda>_. True) icmp_code icmp_set_code
    \<and> byte_field 8 2 2 (\<lambda>_. True) icmp_checksum icmp_set_checksum
    \<and> byte_field 8 4 2 (\<lambda>_. True) icmp_id icmp_set_id
    \<and> byte_field 8 6 2 (\<lambda>_. True) icmp_seq icmp_set_seq
    \<and> byte_field 8 0 1 (\<lambda>_. True) icmpv6_type icmpv6_set_type
    \<and> byte_field 8 1 1 (\<lambda>_. True) icmpv6_code icmpv6_set_code
    \<and> byte_field 8 2 2 (\<lambda>_. True) icmpv6_checksum icmpv6_set_checksum
    \<and> byte_field 8 4 2 (\<lambda>_. True) icmpv6_id icmpv6_set_id
    \<and> byte_field 8 6 2 (\<lambda>_. True) icmpv6_seq icmpv6_set_seq
    \<and> byte_field 24 8 16 i6_valid icmpv6_target_address icmpv6_set_target_address
    \<and> byte_field 8 4 1 (\<lambda>_. True) icmpv6_is_router icmpv6_set_router
    \<and> byte_field 8 4 1 (\<lambda>_. True) icmpv6_is_solicited icmpv6_set_solicited
    \<and> byte_field 8 4 1 (\<lambda>_. True) icmpv6_is_override icmpv6_set_override
    \<and> (\<forall>h b. 8 \<le> length h \<longrightarrow> icmpv6_is_solicited (icmpv6_set_router b h) = icmpv6_is_solicited h
      \<and> icmpv6_is_override (icmpv6_set_router b h) = icmpv6_is_override h
      \<and> icmpv6_is_router (icmpv6_set_solicited b h) = icmpv6_is_router h
      \<and> icmpv6_is_override (icmpv6_set_solicited b h) = icmpv6_is_override h
      \<and> icmpv6_is_router (icmpv6_set_override b h) = icmpv6_is_router h
      \<and> icmpv6_is_solicited (icmpv6_set_override b h) = icmpv6_is_solicited h)"
  by (intro conjI; (rule icmp_type.byte_field_axioms icmp_code.byte_field_axioms icmp_checksum.byte_field_axioms
      icmp_id.byte_field_axioms icmp_seq.byte_field_axioms icmpv6_type.byte_field_axioms
      icmpv6_code.byte_field_axioms icmpv6_checksum.byte_field_axioms icmpv6_id.byte_field_axioms
      icmpv6_seq.byte_field_axioms icmpv6_target_address.byte_field_axioms icmpv6_router.byte_field_axioms
      icmpv6_solicited.byte_field_axioms icmpv6_override.byte_field_axioms)?)
    (simp add: neighbor_flags_apart)

theorem icmp_fields_witness:
  "icmpv6_is_router (icmpv6_set_override False (icmpv6_set_router True (replicate 8 0)))"
proof -
  have "\<forall>h b. 8 \<le> length h \<longrightarrow> icmpv6_is_router (icmpv6_set_override b h) = icmpv6_is_router h"
    using icmp_fields by blast
  then show ?thesis by (simp add: icmpv6_router.get_put icmpv6_router.length_put)
qed

end
