(* ===== verification/Checksum.thy ===== *)
theory Checksum
  imports Headers
begin

text \<open>
  The Internet checksum (\<^verbatim>\<open>network/detail/checkable.hpp\<close>) and its three uses: over an IPv4
  header, over an ICMP message with its payload, and over a TCP or UDP segment with a pseudo
  header. The bytes from the header to the end of the payload are a byte list. A
  \<open>std::size_t\<close> sum is a natural number; all sums stay far below \<open>2 ^ 64\<close>.
\<close>

section \<open>Definitions\<close>

definition fold16 :: "nat \<Rightarrow> nat" where
  "fold16 s = s mod 2 ^ 16 + s div 2 ^ 16"

fun checksum_loop :: "byte list \<Rightarrow> nat \<Rightarrow> nat" where
  "checksum_loop (a # b # bs) s = checksum_loop bs (fold16 (s + unat (ntohs (load16 [a, b] 0))))"
| "checksum_loop _ s = s"

definition total_checksum :: "byte list \<Rightarrow> nat" where
  "total_checksum bs =
     (let s = (if odd (length bs) then checksum_loop (butlast bs) (unat (ntohs (ucast (last bs))))
               else checksum_loop bs 0)
      in unat (htons (word_of_nat s)))"

text \<open>\<open>ipv4_checksum_method\<close>: the range is the header as long as its own length field says.\<close>

definition ipv4_check_checksum :: "byte list \<Rightarrow> ub + bool" where
  "ipv4_check_checksum h =
     (if length h < ipv4_header_size h then Inl Array_Overrun
      else Inr (fold16 (fold16 (total_checksum (take (ipv4_header_size h) h))) = 0xffff))"

definition ipv4_compute_checksum :: "byte list \<Rightarrow> ub + byte list" where
  "ipv4_compute_checksum h =
     (let h0 = ipv4_set_checksum 0 h
      in if length h0 < ipv4_header_size h0 then Inl Array_Overrun
         else let s = fold16 (fold16 (total_checksum (take (ipv4_header_size h0) h0)))
              in Inr (ipv4_set_checksum (NOT (word_of_nat s)) h0))"

text \<open>\<open>payload_checksum_method\<close>; \<open>set_checksum\<close> is the setter of the derived class.\<close>

definition payload_check_checksum :: "byte list \<Rightarrow> bool" where
  "payload_check_checksum h \<longleftrightarrow> fold16 (fold16 (total_checksum h)) = 0xffff"

definition payload_compute_checksum :: "(u16 \<Rightarrow> byte list \<Rightarrow> byte list) \<Rightarrow> byte list \<Rightarrow> byte list" where
  "payload_compute_checksum set_checksum h =
     (let h0 = set_checksum 0 h; s = fold16 (fold16 (total_checksum h0))
      in set_checksum (NOT (word_of_nat s)) h0)"

text \<open>\<open>pseudo_header\<close> for the two network layers, and \<open>pseudo_checksum_method::compute_checksum\<close>.\<close>

definition ipv4_pseudo_header :: "byte list \<Rightarrow> nat \<Rightarrow> nat" where
  "ipv4_pseudo_header hdr size' =
     (let s = i4_checksum (ipv4_destinate hdr) (i4_checksum (ipv4_source hdr) 0)
      in unat s + unat (htons (word_of_nat size')) + unat (ipv4_protocol hdr) * 2 ^ 8)"

definition ipv6_pseudo_header :: "byte list \<Rightarrow> nat \<Rightarrow> nat" where
  "ipv6_pseudo_header hdr size' =
     (let s = i6_checksum (ipv6_destinate hdr) (i6_checksum (ipv6_source hdr) 0);
          len = (word_of_nat size' :: u32)
      in unat s + unat (htons (ucast (drop_bit 16 len))) + unat (htons (ucast len))
         + unat (push_bit 8 (ucast (ipv6_protocol hdr) :: u16)))"

text \<open>\<open>pseudo_header::checksum(sum)\<close> assigns to its argument.\<close>

definition pseudo_checksum :: "nat \<Rightarrow> nat \<Rightarrow> nat" where
  "pseudo_checksum pseudo s = pseudo"

definition pseudo_compute_checksum ::
  "(nat \<Rightarrow> nat) \<Rightarrow> (u16 \<Rightarrow> byte list \<Rightarrow> byte list) \<Rightarrow> byte list \<Rightarrow> byte list" where
  "pseudo_compute_checksum pseudo_header set_checksum h =
     (let h0 = set_checksum 0 h; s = total_checksum h0;
          s = pseudo_checksum (pseudo_header (length h0)) s; s = fold16 (fold16 s)
      in set_checksum (NOT (word_of_nat s)) h0)"

section \<open>The one's complement sum\<close>

text \<open>The reference: the plain sum of the 16-bit words in network order, an odd byte padded with 0.\<close>

fun words_sum :: "byte list \<Rightarrow> nat" where
  "words_sum (a # b # bs) = 256 * unat a + unat b + words_sum bs"
| "words_sum [a] = 256 * unat a"
| "words_sum [] = 0"

lemma fold16_props:
  assumes "s \<le> 2 * 65535"
  shows "fold16 s \<le> 65535" "fold16 s mod 65535 = s mod 65535" "fold16 s = 0 \<longleftrightarrow> s = 0"
proof -
  consider "s < 65536" | "65536 \<le> s" "s - 65536 < 65536" using assms by linarith
  then have "(s < 65536 \<and> fold16 s = s) \<or> (65536 \<le> s \<and> fold16 s = s - 65535)"
  proof cases
    case 2
    have "s mod 65536 = s - 65536" using 2 by (simp add: le_mod_geq)
    moreover have "s div 65536 = 1" using 2 by (simp add: le_div_geq)
    ultimately show ?thesis using 2 by (simp add: fold16_def)
  qed (simp add: fold16_def)
  then show "fold16 s \<le> 65535" "fold16 s mod 65535 = s mod 65535" "fold16 s = 0 \<longleftrightarrow> s = 0"
    using assms by (auto simp: le_mod_geq)
qed

lemma fold16_small [simp]: "s < 65536 \<Longrightarrow> fold16 s = s"
  by (simp add: fold16_def)

lemma checksum_loop_props:
  "s \<le> 65535 \<Longrightarrow> even (length bs) \<Longrightarrow> checksum_loop bs s \<le> 65535 \<and>
   checksum_loop bs s mod 65535 = (s + words_sum bs) mod 65535 \<and>
   (checksum_loop bs s = 0 \<longleftrightarrow> s + words_sum bs = 0)"
proof (induction bs s rule: checksum_loop.induct)
  case (1 a b bs s)
  let ?w = "256 * unat a + unat b"
  have w: "unat (ntohs (load16 [a, b] 0)) = ?w" by (simp add: unat_ntohs_load16)
  have "?w \<le> 65535" using unat_byte_less [of a] unat_byte_less [of b] by linarith
  then have f: "fold16 (s + ?w) \<le> 65535" "fold16 (s + ?w) mod 65535 = (s + ?w) mod 65535"
      "fold16 (s + ?w) = 0 \<longleftrightarrow> s + ?w = 0"
    using 1 fold16_props [of "s + ?w"] by simp_all
  have "(fold16 (s + ?w) + words_sum bs) mod 65535 = (s + ?w + words_sum bs) mod 65535"
    by (rule mod_add_cong [OF f(2) refl])
  then show ?case using 1 f by (auto simp: w add.assoc)
qed auto

lemma words_sum_snoc: "even (length bs) \<Longrightarrow> words_sum (bs @ [b]) = words_sum bs + 256 * unat b"
  by (induction bs rule: words_sum.induct) auto

lemma ntohs_byte: "unat (ntohs (ucast (b :: byte))) = 256 * unat b"
  using unat_ntohs_load16 [of "[b, 0]" 0] by (simp add: load16_def)

text \<open>\<open>total_checksum\<close> is a 16-bit value \<open>r\<close> in host order, congruent to the plain sum.\<close>

lemma total_checksum_props:
  obtains r where "total_checksum bs = unat (htons (word_of_nat r))" "r \<le> 65535"
    "r mod 65535 = words_sum bs mod 65535" "r = 0 \<longleftrightarrow> words_sum bs = 0"
proof (cases "odd (length bs)")
  case True
  then obtain xs b where bs: "bs = xs @ [b]" by (cases bs rule: rev_cases) auto
  let ?r = "checksum_loop xs (256 * unat b)"
  have "256 * unat b \<le> 65535" using unat_byte_less [of b] by linarith
  then show thesis
    using True that [of ?r] checksum_loop_props [of "256 * unat b" xs]
    by (auto simp: bs total_checksum_def ntohs_byte words_sum_snoc Let_def add.commute)
next
  case False
  then show thesis
    using that [of "checksum_loop bs 0"] checksum_loop_props [of 0 bs] by (auto simp: total_checksum_def Let_def)
qed

lemma htons_inject: "htons v = htons w \<longleftrightarrow> v = w"
  by (metis ntohs_htons)

lemma unat_u16_less [simp]: "unat (w :: u16) < 65536"
  using unat_less_pow [of w] by simp

lemma check_iff:
  "fold16 (fold16 (total_checksum bs)) = 0xffff \<longleftrightarrow> 65535 dvd words_sum bs \<and> words_sum bs \<noteq> 0"
proof -
  obtain r where r: "total_checksum bs = unat (htons (word_of_nat r))" "r \<le> 65535"
      "r mod 65535 = words_sum bs mod 65535" "r = 0 \<longleftrightarrow> words_sum bs = 0"
    by (rule total_checksum_props)
  have "htons (0xffff :: u16) = 0xffff" by (simp only: htons_def, code_simp)
  then have "total_checksum bs = 0xffff \<longleftrightarrow> (word_of_nat r :: u16) = 0xffff"
    unfolding r(1) using htons_inject [of "word_of_nat r" "0xffff"] by (simp add: word_unat_eq_iff)
  also have "\<dots> \<longleftrightarrow> r = 65535" using r(2) by (simp add: word_unat_eq_iff unsigned_of_nat take_bit_eq_mod)
  also have "\<dots> \<longleftrightarrow> r mod 65535 = 0 \<and> r \<noteq> 0" using r(2) by (cases "r = 65535") auto
  finally show ?thesis using r by (simp add: dvd_eq_mod_eq_0)
qed

lemma words_sum_store16:
  "even i \<Longrightarrow> Suc i < length bs \<Longrightarrow>
   words_sum (store16 bs i w) + unat (ntohs (load16 bs i)) = words_sum bs + unat (ntohs w)"
proof (induction bs arbitrary: i rule: words_sum.induct)
  case (1 a b bs)
  show ?case
  proof (cases i)
    case 0
    have "unat (ntohs w) = unat (ntohs (load16 (store16 (a # b # bs) 0 w) 0))" by simp
    then show ?thesis using 0 by (simp add: unat_ntohs_load16 store16_def del: load16_store16)
  next
    case (Suc k)
    then obtain j where i: "i = Suc (Suc j)" using 1 by (cases k) auto
    then have "words_sum (store16 bs j w) + unat (ntohs (load16 bs j)) = words_sum bs + unat (ntohs w)"
      using 1 by simp
    then show ?thesis by (simp add: i store16_def load16_def)
  qed
qed auto

lemma unat_ntohs_not: "unat (ntohs (NOT w)) = 65535 - unat (ntohs w)"
proof -
  have "ntohs (NOT w) = NOT (ntohs w)"
    by (rule bit_word_eqI) (auto simp: ntohs_def bit_simps dest: bit_imp_le_length)
  also have "\<dots> = - 1 - ntohs w" by (simp add: not_eq_complement)
  finally show ?thesis by (simp add: unat_sub unsigned_minus_1_eq_mask mask_eq_exp_minus_1)
qed

text \<open>Storing the complement of the sum makes the sum come out right.\<close>

lemma complement_checks:
  assumes "even i" "Suc i < length bs"
  defines "h0 \<equiv> store16 bs i 0"
  shows "fold16 (fold16 (total_checksum
    (store16 h0 i (NOT (word_of_nat (fold16 (fold16 (total_checksum h0)))))))) = 0xffff"
proof -
  obtain r where r: "total_checksum h0 = unat (htons (word_of_nat r))" "r \<le> 65535"
      "r mod 65535 = words_sum h0 mod 65535" "r = 0 \<longleftrightarrow> words_sum h0 = 0"
    by (rule total_checksum_props)
  let ?w = "NOT (htons (word_of_nat r)) :: u16"
  have "word_of_nat (fold16 (fold16 (total_checksum h0))) = htons (word_of_nat r :: u16)" by (simp add: r(1))
  moreover have "unat (ntohs ?w) = 65535 - r"
    using r(2) by (simp add: unat_ntohs_not unsigned_of_nat take_bit_eq_mod)
  then have s: "words_sum (store16 h0 i ?w) = words_sum h0 + (65535 - r)"
    using words_sum_store16 [of i h0 ?w] assms by (simp add: ntohs_def)
  have "65535 dvd words_sum h0 + (65535 - r)"
  proof -
    have "(words_sum h0 + (65535 - r)) mod 65535 = (r + (65535 - r)) mod 65535"
      by (rule mod_add_cong) (simp_all add: r(3))
    also have "\<dots> = 0" using r(2) by simp
    finally show ?thesis by (simp add: dvd_eq_mod_eq_0)
  qed
  moreover have "words_sum h0 + (65535 - r) \<noteq> 0" using r(4) by auto
  ultimately show ?thesis unfolding check_iff by (simp add: s)
qed

section \<open>Compute, then check\<close>

lemma unat_ntohs_extreme:
  "unat (ntohs v) = 0 \<longleftrightarrow> v = 0" "unat (ntohs v) = 65535 \<longleftrightarrow> v = 0xffff"
proof -
  have e: "ntohs 0 = 0" "ntohs 0xffff = 0xffff" by (simp_all only: ntohs_def, code_simp+)
  have inj: "ntohs v = ntohs w \<longleftrightarrow> v = w" for w by (metis htons_ntohs)
  show "unat (ntohs v) = 0 \<longleftrightarrow> v = 0" using inj [of 0] e by (simp add: unat_eq_0)
  have "unat (ntohs v) = 65535 \<longleftrightarrow> ntohs v = 0xffff" by (simp add: word_unat_eq_iff)
  then show "unat (ntohs v) = 65535 \<longleftrightarrow> v = 0xffff" using inj [of "0xffff"] e by simp
qed

lemma take_store16: "Suc i < n \<Longrightarrow> take n (store16 h i w) = store16 (take n h) i w"
  by (simp add: store16_def take_update_swap)

lemma ipv4_header_size_checksum: "20 \<le> length h \<Longrightarrow> ipv4_header_size (ipv4_set_checksum w h) = ipv4_header_size h"
  by (simp add: ipv4_header_size_length ipv4_length_checksum.get1_put2)

text \<open>
  (C2) After \<open>compute_checksum\<close> an IPv4 header passes \<open>check_checksum\<close>, and only the two
  checksum bytes have changed, provided the header length field covers the fixed part and
  the header lies in the buffer. If the length field points past the buffer both read beyond it.
\<close>

theorem ipv4_checksum_valid:
  assumes "20 \<le> length h" "20 \<le> ipv4_header_size h"
  shows "(ipv4_header_size h \<le> length h \<longrightarrow>
      (\<exists>h'. ipv4_compute_checksum h = Inr h' \<and> ipv4_check_checksum h' = Inr True \<and> length h' = length h
        \<and> (\<forall>i. i \<noteq> 10 \<and> i \<noteq> 11 \<longrightarrow> h' ! i = h ! i)))
    \<and> (length h < ipv4_header_size h \<longrightarrow>
      ipv4_compute_checksum h = Inl Array_Overrun \<and> ipv4_check_checksum h = Inl Array_Overrun)"
proof (intro conjI impI)
  let ?n = "ipv4_header_size h" and ?h0 = "ipv4_set_checksum 0 h"
  assume n: "?n \<le> length h"
  define w where "w = NOT (word_of_nat (fold16 (fold16 (total_checksum (take ?n ?h0)))) :: u16)"
  have "ipv4_compute_checksum h = Inr (ipv4_set_checksum w ?h0)"
    using n assms by (simp add: ipv4_compute_checksum_def w_def ipv4_header_size_checksum ipv4_checksum.length_put Let_def)
  moreover have "ipv4_check_checksum (ipv4_set_checksum w ?h0) = Inr True"
    using complement_checks [of 10 "take ?n h"] assms n
    by (simp add: ipv4_check_checksum_def ipv4_header_size_checksum ipv4_checksum.length_put)
      (simp add: w_def ipv4_set_checksum_def take_store16)
  moreover have "\<forall>i. i \<noteq> 10 \<and> i \<noteq> 11 \<longrightarrow> ipv4_set_checksum w ?h0 ! i = h ! i"
    by (simp add: ipv4_set_checksum_def store16_nth)
  ultimately show "\<exists>h'. ipv4_compute_checksum h = Inr h' \<and> ipv4_check_checksum h' = Inr True \<and> length h' = length h
      \<and> (\<forall>i. i \<noteq> 10 \<and> i \<noteq> 11 \<longrightarrow> h' ! i = h ! i)"
    using assms by (auto simp: ipv4_checksum.length_put)
qed (use assms in \<open>simp_all add: ipv4_compute_checksum_def ipv4_check_checksum_def ipv4_header_size_checksum
  ipv4_checksum.length_put\<close>)

theorem ipv4_checksum_valid_witness:
  "\<exists>h'. ipv4_compute_checksum (0x45 # replicate 19 7) = Inr h' \<and> ipv4_check_checksum h' = Inr True"
proof -
  have "ipv4_header_size (0x45 # replicate 19 7) = 20" by (simp add: ipv4_header_size_def)
  then show ?thesis using ipv4_checksum_valid [of "0x45 # replicate 19 7"] by auto
qed

text \<open>
  After \<open>compute_checksum\<close> an ICMP or ICMPv6 message of any length, odd ones included,
  passes \<open>check_checksum\<close>, and only the two checksum bytes have changed.
\<close>

theorem icmp_checksum_valid:
  assumes "8 \<le> length h"
  shows "payload_check_checksum (payload_compute_checksum icmp_set_checksum h)
    \<and> payload_check_checksum (payload_compute_checksum icmpv6_set_checksum h)
    \<and> (\<forall>i. i \<noteq> 2 \<and> i \<noteq> 3 \<longrightarrow> payload_compute_checksum icmp_set_checksum h ! i = h ! i
        \<and> payload_compute_checksum icmpv6_set_checksum h ! i = h ! i)"
  using complement_checks [of 2 h] assms
  by (simp add: payload_check_checksum_def payload_compute_checksum_def icmp_set_checksum_def icmpv6_set_checksum_def
      store16_nth Let_def)

theorem icmp_checksum_valid_witness:
  "payload_check_checksum (payload_compute_checksum icmp_set_checksum [8, 0, 1, 2, 0x12, 0x34, 0, 1, 0x61])"
  using icmp_checksum_valid [of "[8, 0, 1, 2, 0x12, 0x34, 0, 1, 0x61]"] by simp

text \<open>
  A message passes \<open>check_checksum\<close> exactly when the plain sum of its 16-bit words is
  a non-zero multiple of 65535. Hence a change of a single word of a message that passes is
  detected, unless it exchanges 0 and 0xffff.
\<close>

theorem checksum_detects_change:
  "(payload_check_checksum h \<longleftrightarrow> 65535 dvd words_sum h \<and> words_sum h \<noteq> 0)
   \<and> (payload_check_checksum h \<and> even i \<and> Suc i < length h \<and> v \<noteq> load16 h i \<and> payload_check_checksum (store16 h i v)
      \<longrightarrow> {v, load16 h i} = {0, 0xffff})"
proof (intro conjI impI)
  show iff: "payload_check_checksum h \<longleftrightarrow> 65535 dvd words_sum h \<and> words_sum h \<noteq> 0" for h
    by (simp only: payload_check_checksum_def check_iff)
  assume a: "payload_check_checksum h \<and> even i \<and> Suc i < length h \<and> v \<noteq> load16 h i \<and> payload_check_checksum (store16 h i v)"
  let ?x = "unat (ntohs v)" and ?y = "unat (ntohs (load16 h i))"
  have dvd: "65535 dvd words_sum h" "65535 dvd words_sum (store16 h i v)" using a iff by blast+
  have "words_sum (store16 h i v) + ?y = words_sum h + ?x" using a words_sum_store16 by blast
  then have "(words_sum (store16 h i v) + ?y) mod 65535 = (words_sum h + ?x) mod 65535" by simp
  then have "?y mod 65535 = ?x mod 65535" using dvd by (metis add.commute dvd_add_right_iff mod_add_self2 dvdE mod_mult_self2)
  moreover have "?x \<noteq> ?y" using a by (metis htons_ntohs word_unat_eq_iff)
  moreover have "?x \<le> 65535" "?y \<le> 65535"
    using unat_u16_less [of "ntohs v"] unat_u16_less [of "ntohs (load16 h i)"] by linarith+
  ultimately have "?x = 0 \<and> ?y = 65535 \<or> ?x = 65535 \<and> ?y = 0"
    by (cases "?x = 65535"; cases "?y = 65535") auto
  then show "{v, load16 h i} = {0, 0xffff}" by (auto simp: unat_ntohs_extreme)
qed

theorem checksum_detects_change_witness:
  "payload_check_checksum [8, 0, 0xf7, 0xff] \<and> \<not> payload_check_checksum (store16 [8, 0, 0xf7, 0xff] 0 1)"
proof -
  let ?h = "[8, 0, 0xf7, 0xff] :: byte list"
  have ok: "payload_check_checksum ?h" using checksum_detects_change [of ?h] by simp
  have "load16 ?h 0 = 8" by (simp add: load16_def)
  then have "(1 :: u16) \<noteq> load16 ?h 0" "{1, load16 ?h 0} \<noteq> {0, 0xffff}" by (auto simp: doubleton_eq_iff)
  then show ?thesis using ok checksum_detects_change [of ?h 0 1] by auto
qed

section \<open>The pseudo header\<close>

text \<open>
  The checksum that \<open>compute_checksum\<close> stores into a TCP or UDP header depends on the
  pseudo header and the length of the segment only: \<open>pseudo_header::checksum\<close> overwrites the
  sum over the segment, so that two segments of one length get the same checksum whatever
  their ports and their payload are.
\<close>

theorem pseudo_checksum_ignores_segment:
  assumes "length h = length g" "20 \<le> length h"
  shows "tcp_checksum (pseudo_compute_checksum f tcp_set_checksum h) = tcp_checksum (pseudo_compute_checksum f tcp_set_checksum g)
    \<and> udp_checksum (pseudo_compute_checksum f udp_set_checksum h) = udp_checksum (pseudo_compute_checksum f udp_set_checksum g)"
  using assms
  by (simp add: pseudo_compute_checksum_def pseudo_checksum_def tcp_set_checksum_def udp_set_checksum_def tcp_checksum_def
      udp_checksum_def Let_def)

theorem pseudo_checksum_ignores_segment_witness:
  "udp_checksum (pseudo_compute_checksum (ipv4_pseudo_header (replicate 20 1)) udp_set_checksum (replicate 24 1))
   = udp_checksum (pseudo_compute_checksum (ipv4_pseudo_header (replicate 20 1)) udp_set_checksum (replicate 24 2))"
  using pseudo_checksum_ignores_segment [of "replicate 24 1" "replicate 24 2"] by simp

end
