(* ===== verification/Parse.thy ===== *)
theory Parse
  imports Checksum
begin

text \<open>
  Finding the headers of a packet (\<^verbatim>\<open>network/parse.hpp\<close>). The buffer is a byte list, iterators
  and header pointers are positions in it, and \<open>end\<close> may move: a header with a length field
  takes the padding behind the packet away. The result of a successful \<open>parse\<close> is the position
  of the header and the new \<open>end\<close>. Reading beyond the buffer is a result of the model.
\<close>

section \<open>Definitions\<close>

datatype hdr = Ethernet | Arp | Ipv4 | Ipv6 | Tcp | Udp | Icmp_echo | Icmpv6_echo | Icmpv6_neighbor

fun sizeof :: "hdr \<Rightarrow> nat" where
  "sizeof Ethernet = sizeof_ethernet_header"
| "sizeof Arp = sizeof_ethernet_arp"
| "sizeof Ipv4 = sizeof_ipv4_header"
| "sizeof Ipv6 = sizeof_ipv6_header"
| "sizeof Tcp = sizeof_tcp_header"
| "sizeof Udp = sizeof_udp_header"
| "sizeof Icmp_echo = sizeof_icmp_echo"
| "sizeof Icmpv6_echo = sizeof_icmpv6_header"
| "sizeof Icmpv6_neighbor = sizeof_icmpv6_header"

fun header_size :: "hdr \<Rightarrow> byte list \<Rightarrow> nat" where
  "header_size Ipv4 h = ipv4_header_size h"
| "header_size Icmpv6_neighbor h = icmpv6_neighbor_header_size"
| "header_size T h = sizeof T"

fun shrink_into_end :: "hdr \<Rightarrow> byte list \<Rightarrow> int \<Rightarrow> int" where
  "shrink_into_end Ipv4 h size' = ipv4_shrink_into_end h size'"
| "shrink_into_end Ipv6 h size' = ipv6_shrink_into_end h size'"
| "shrink_into_end T h size' = size'"

text \<open>How many bytes of the header \<open>shrink_into_end\<close> looks at.\<close>

fun shrink_reads :: "hdr \<Rightarrow> nat" where
  "shrink_reads Ipv4 = 4"
| "shrink_reads Ipv6 = 6"
| "shrink_reads T = 0"

text \<open>\<open>None\<close> where there is no specialisation, which the compiler rejects.\<close>

fun is_match_condition :: "hdr \<Rightarrow> hdr \<Rightarrow> (byte list \<Rightarrow> byte list \<Rightarrow> bool) option" where
  "is_match_condition Ethernet Ipv4 = Some match_ethernet_ipv4"
| "is_match_condition Ethernet Ipv6 = Some match_ethernet_ipv6"
| "is_match_condition Ethernet Arp = Some match_ethernet_arp"
| "is_match_condition Ipv4 Tcp = Some match_ipv4_tcp"
| "is_match_condition Ipv4 Udp = Some match_ipv4_udp"
| "is_match_condition Ipv4 Icmp_echo = Some match_ipv4_icmp_echo"
| "is_match_condition Ipv6 Tcp = Some match_ipv6_tcp"
| "is_match_condition Ipv6 Udp = Some match_ipv6_udp"
| "is_match_condition Ipv6 Icmpv6_echo = Some match_ipv6_icmpv6_echo"
| "is_match_condition Ipv6 Icmpv6_neighbor = Some match_ipv6_icmpv6_neighbor"
| "is_match_condition T U = None"

text \<open>\<open>parse<T>(beg, end)\<close>: the first header of a buffer.\<close>

definition parse_first :: "hdr \<Rightarrow> byte list \<Rightarrow> nat \<Rightarrow> nat \<Rightarrow> (nat \<times> int) option" where
  "parse_first T mem beg e =
     (if beg + sizeof T < e then
        let h = drop beg mem
        in if beg + header_size T h < e
           then Some (beg, int beg + shrink_into_end T h (int e - int beg))
           else None
      else None)"

text \<open>\<open>parse<U>(hdr, end)\<close>: the header of type \<open>U\<close> after a header of type \<open>T\<close>.\<close>

definition parse_next :: "hdr \<Rightarrow> hdr \<Rightarrow> byte list \<Rightarrow> nat \<Rightarrow> nat \<Rightarrow> ub + (nat \<times> int) option" where
  "parse_next T U mem beg e =
     (let h = drop beg mem; nxt = beg + header_size T h; n = drop nxt mem
      in if nxt < e then
           if beg + header_size U n < e \<and> (case is_match_condition T U of None \<Rightarrow> False | Some P \<Rightarrow> P h n)
           then if length n < shrink_reads U then Inl Array_Overrun
                else Inr (Some (nxt, int nxt + shrink_into_end U n (int e - int nxt)))
           else Inr None
         else Inr None)"

lemmas sizeof_defs = sizeof_ethernet_header_def sizeof_ethernet_arp_def sizeof_ipv4_header_def sizeof_ipv6_header_def
  sizeof_tcp_header_def sizeof_udp_header_def sizeof_icmp_echo_def sizeof_icmpv6_header_def icmpv6_neighbor_header_size_def

section \<open>The first header\<close>

lemma ipv4_shrink_cases:
  assumes "0 \<le> size'"
  shows "ipv4_shrink_into_end h size' =
    (if 0 < unat (ipv4_total_length h) \<and> int (unat (ipv4_total_length h)) < size'
     then int (unat (ipv4_total_length h)) else size')"
proof -
  define n where "n = unat (ntohs (load16 h 2))"
  show ?thesis using assms by (auto simp: ipv4_shrink_into_end_def ipv4_total_length_def Let_def simp flip: n_def)
qed

lemma ipv6_shrink_value: "ipv6_shrink_into_end h size' = int (unat (ntohs (load16 h 4)) + 40)"
proof -
  define n where "n = unat (ntohs (load16 h 4))"
  show ?thesis by (simp add: ipv6_shrink_into_end_def sizeof_ipv6_header_def Let_def flip: n_def)
qed

lemma shrink_bounds:
  assumes "T \<noteq> Ipv6" "0 < size'"
  shows "0 < shrink_into_end T h size' \<and> shrink_into_end T h size' \<le> size'"
proof (cases "T = Ipv4")
  case True
  define n where "n = unat (ipv4_total_length h)"
  show ?thesis using assms True by (simp add: ipv4_shrink_cases flip: n_def)
next
  case False
  then show ?thesis using assms by (cases T) simp_all
qed

text \<open>
  \<open>parse(beg, end)\<close> on a buffer that contains \<open>end\<close>. It succeeds exactly when the
  structure and the header with its options lie strictly before \<open>end\<close> (a buffer that holds the header
  and nothing else is refused). The new \<open>end\<close> is behind \<open>beg\<close> and not behind the old one, for IPv4
  the smaller of the old end and the total length, except for IPv6: there it is where the
  payload length says, even beyond the buffer.
\<close>

theorem parse_first_correct:
  assumes "beg \<le> e" "e \<le> length mem"
  defines "h \<equiv> drop beg mem"
  shows "(parse_first T mem beg e \<noteq> None \<longleftrightarrow> beg + sizeof T < e \<and> beg + header_size T h < e)
    \<and> (\<forall>p e'. parse_first T mem beg e = Some (p, e') \<longrightarrow> p = beg
        \<and> (T \<noteq> Ipv6 \<longrightarrow> int beg < e' \<and> e' \<le> int e)
        \<and> (T = Ipv4 \<and> 0 < unat (ipv4_total_length h) \<longrightarrow> e' = min (int e) (int beg + int (unat (ipv4_total_length h))))
        \<and> (T = Ipv6 \<longrightarrow> e' = int beg + 40 + int (unat (ntohs (load16 h 4)))))"
proof (intro conjI allI impI)
  show "parse_first T mem beg e \<noteq> None \<longleftrightarrow> beg + sizeof T < e \<and> beg + header_size T h < e"
    by (simp add: parse_first_def h_def Let_def)
  fix p e' assume "parse_first T mem beg e = Some (p, e')"
  then have p: "p = beg" "e' = int beg + shrink_into_end T h (int e - int beg)" "beg < e"
    by (auto simp: parse_first_def h_def Let_def split: if_splits)
  then show "p = beg" by simp
  show "int beg < e'" "e' \<le> int e" if "T \<noteq> Ipv6"
    using p shrink_bounds [OF that, of "int e - int beg" h] by simp_all
  show "e' = min (int e) (int beg + int (unat (ipv4_total_length h)))" if "T = Ipv4 \<and> 0 < unat (ipv4_total_length h)"
    using p that by (simp add: ipv4_shrink_cases min_def)
  show "e' = int beg + 40 + int (unat (ntohs (load16 h 4)))" if "T = Ipv6"
    using p that by (simp add: ipv6_shrink_value)
qed

theorem parse_first_correct_witness:
  "parse_first Udp (replicate 9 0) 0 9 \<noteq> None \<and> parse_first Udp (replicate 8 0) 0 8 = None"
  using conjunct1 [OF parse_first_correct [of 0 9 "replicate 9 0" Udp]]
    conjunct1 [OF parse_first_correct [of 0 8 "replicate 8 0" Udp]]
  by (simp add: sizeof_udp_header_def del: not_None_eq)

section \<open>The next header\<close>

text \<open>
  \<open>parse(hdr, end)\<close> compares the size of the next header with the distance from the
  \<^emph>\<open>current\<close> header: behind an Ethernet header an ARP message is accepted exactly when the type
  matches and more than 28 bytes follow the start of the frame, although frame and message need 42.
  For 29 to 41 bytes the message returned reaches beyond \<open>end\<close>; an IPv4 header is then even read
  beyond the buffer.
\<close>

theorem parse_next_bounds:
  assumes "beg + 14 \<le> e" "e \<le> length mem" "eth_protocol (drop beg mem) = eth_type_arp"
  shows "parse_next Ethernet Arp mem beg e = Inr (if beg + 28 < e then Some (beg + 14, int e) else None)
    \<and> (beg + 28 < e \<and> e < beg + 42 \<longrightarrow>
        (\<exists>p e'. parse_next Ethernet Arp mem beg e = Inr (Some (p, e')) \<and> e' < int p + int (sizeof Arp)))"
  using assms by (simp add: parse_next_def Let_def sizeof_defs match_ethernet_arp_def)

theorem parse_next_bounds_witness:
  "\<exists>p e'. parse_next Ethernet Arp (replicate 12 0 @ [8, 6] @ replicate 15 0) 0 29 = Inr (Some (p, e')) \<and> e' < int p + int (sizeof Arp)"
proof -
  have "eth_protocol (replicate 12 0 @ [8, 6] @ replicate 15 0) = eth_type_arp" by code_simp
  then show ?thesis
    using parse_next_bounds [of 0 29 "replicate 12 0 @ [8, 6] @ replicate 15 0"] by (simp add: sizeof_ethernet_arp_def)
qed

text \<open>
  (C5) The chain of headers of a well-formed frame is found: an Ethernet frame with an
  IPv4 packet whose header and total length are consistent and lie within the frame, and
  a UDP datagram in it, gives the three headers at their places and the end of the IPv4 packet, with
  the padding of the frame cut off.
\<close>

theorem parse_chain:
  assumes "eth_protocol mem = eth_type_ip"
    and "ihl = ipv4_header_size (drop 14 mem)" "20 \<le> ihl"
    and "tlen = unat (ipv4_total_length (drop 14 mem))" "ihl + 8 \<le> tlen" "14 + tlen \<le> length mem"
    and "ipv4_protocol (drop 14 mem) = 17"
  shows "parse_first Ethernet mem 0 (length mem) = Some (0, int (length mem))
    \<and> parse_next Ethernet Ipv4 mem 0 (length mem) = Inr (Some (14, int (14 + tlen)))
    \<and> parse_next Ipv4 Udp mem 14 (14 + tlen) = Inr (Some (14 + ihl, int (14 + tlen)))"
proof (intro conjI)
  show "parse_first Ethernet mem 0 (length mem) = Some (0, int (length mem))"
    using assms by (simp add: parse_first_def sizeof_defs)
  have "ipv4_shrink_into_end (drop 14 mem) (int (length mem) - 14) = int tlen"
    using assms(3,5,6) by (simp add: ipv4_shrink_cases assms(4) [symmetric] del: of_nat_unat)
  then show "parse_next Ethernet Ipv4 mem 0 (length mem) = Inr (Some (14, int (14 + tlen)))"
    using assms by (simp add: parse_next_def Let_def sizeof_defs match_ethernet_ipv4_def)
  show "parse_next Ipv4 Udp mem 14 (14 + tlen) = Inr (Some (14 + ihl, int (14 + tlen)))"
    using assms by (simp add: parse_next_def Let_def sizeof_defs match_ipv4_udp_def)
qed

theorem parse_chain_witness:
  "let mem = replicate 12 0 @ [8, 0] @ [0x45, 0, 0, 30, 0, 0, 0, 0, 64, 17] @ replicate 30 0
   in parse_next Ipv4 Udp mem 14 44 = Inr (Some (34, 44))"
proof -
  let ?mem = "replicate 12 0 @ [8, 0] @ [0x45, 0, 0, 30, 0, 0, 0, 0, 64, 17] @ replicate 30 0 :: byte list"
  have "eth_protocol ?mem = eth_type_ip" "ipv4_header_size (drop 14 ?mem) = 20"
    "unat (ipv4_total_length (drop 14 ?mem)) = 30" "ipv4_protocol (drop 14 ?mem) = 17" by code_simp+
  then show ?thesis using parse_chain [of ?mem 20 30] by simp
qed

end
