(* ===== verification/Sequenced_Map.thy ===== *)
theory Sequenced_Map
  imports Acqua_Prelude
begin

text \<open>
  Maps that keep the order of insertion (\<^verbatim>\<open>container/sequenced_map.hpp\<close> and
  \<^verbatim>\<open>container/detail/sequenced_map_base.hpp\<close>). The state is the sequence \<open>data_\<close>, a list of
  pairs; an iterator is a position, \<open>end()\<close> the length of the list. The key predicate \<open>Pred\<close> is the
  parameter \<open>eq\<close>, an equivalence as the containers require it (locale \<open>key_equivalence\<close>).
\<close>

section \<open>Definitions\<close>

text \<open>\<open>std::find_if\<close>: the position of the first match, or the end.\<close>

fun find_if :: "('a \<Rightarrow> bool) \<Rightarrow> 'a list \<Rightarrow> nat" where
  "find_if P [] = 0"
| "find_if P (x # xs) = (if P x then 0 else Suc (find_if P xs))"

definition sm_find :: "('k \<Rightarrow> 'k \<Rightarrow> bool) \<Rightarrow> ('k \<times> 'v) list \<Rightarrow> 'k \<Rightarrow> nat" where
  "sm_find eq data key = find_if (\<lambda>elem. eq (fst elem) key) data"

datatype sm_error = out_of_range | bad_iterator

definition sm_at :: "('k \<Rightarrow> 'k \<Rightarrow> bool) \<Rightarrow> ('k \<times> 'v) list \<Rightarrow> 'k \<Rightarrow> sm_error + 'v" where
  "sm_at eq data key =
     (let it = sm_find eq data key
      in if it = length data then Inl out_of_range else Inr (snd (data ! it)))"

definition sm_clear :: "('k \<times> 'v) list \<Rightarrow> ('k \<times> 'v) list" where
  "sm_clear data = []"

definition sm_erase :: "('k \<times> 'v) list \<Rightarrow> nat \<Rightarrow> sm_error + ('k \<times> 'v) list \<times> nat" where
  "sm_erase data it =
     (if it < length data then Inr (take it data @ drop (Suc it) data, it) else Inl bad_iterator)"

definition sm_erase_range :: "('k \<times> 'v) list \<Rightarrow> nat \<Rightarrow> nat \<Rightarrow> sm_error + ('k \<times> 'v) list \<times> nat" where
  "sm_erase_range data b e =
     (if b \<le> e \<and> e \<le> length data then Inr (take b data @ drop e data, b) else Inl bad_iterator)"

text \<open>\<open>sequenced_map\<close>: insertion with a hint, insertion, \<open>emplace\<close> and \<open>operator[]\<close>.\<close>

definition sm_insert_hint :: "('k \<Rightarrow> 'k \<Rightarrow> bool) \<Rightarrow> ('k \<times> 'v) list \<Rightarrow> 'k \<times> 'v \<Rightarrow> ('k \<times> 'v) list \<times> nat" where
  "sm_insert_hint eq data val =
     (let it = sm_find eq data (fst val)
      in if it \<noteq> length data then (data, it) else (data @ [val], length data))"

definition sm_insert :: "('k \<Rightarrow> 'k \<Rightarrow> bool) \<Rightarrow> ('k \<times> 'v) list \<Rightarrow> 'k \<times> 'v \<Rightarrow> ('k \<times> 'v) list \<times> nat \<times> bool" where
  "sm_insert eq data val =
     (let it = sm_find eq data (fst val)
      in if it \<noteq> length data then (data, it, False) else (data @ [val], length data, True))"

definition sm_emplace_hint :: "('k \<Rightarrow> 'k \<Rightarrow> bool) \<Rightarrow> ('k \<times> 'v) list \<Rightarrow> 'k \<Rightarrow> 'v \<Rightarrow> ('k \<times> 'v) list \<times> nat" where
  "sm_emplace_hint eq data k v =
     (let it = sm_find eq data k
      in if it \<noteq> length data then (data, it) else (data @ [(k, v)], length data))"

definition sm_emplace :: "('k \<Rightarrow> 'k \<Rightarrow> bool) \<Rightarrow> ('k \<times> 'v) list \<Rightarrow> 'k \<Rightarrow> 'v \<Rightarrow> ('k \<times> 'v) list \<times> nat \<times> bool" where
  "sm_emplace eq data k v =
     (let it = sm_find eq data k
      in if it \<noteq> length data then (data, it, False) else (data @ [(k, v)], length data, True))"

text \<open>\<open>operator[]\<close> returns a reference: the position of the element; \<open>dflt\<close> is \<open>Value()\<close>.\<close>

definition sm_index :: "('k \<Rightarrow> 'k \<Rightarrow> bool) \<Rightarrow> 'v \<Rightarrow> ('k \<times> 'v) list \<Rightarrow> 'k \<Rightarrow> ('k \<times> 'v) list \<times> nat" where
  "sm_index eq dflt data key =
     (let it = sm_find eq data key
      in if it = length data then (data @ [(key, dflt)], length data) else (data, it))"

text \<open>
  The range insertion of the base class, with the derived class's \<open>insert\<close> as \<open>ins\<close>: the
  iterator that is returned is incremented, also when the range was empty and it was
  never set.
\<close>

fun insert_range_loop ::
  "(('k \<times> 'v) list \<Rightarrow> 'k \<times> 'v \<Rightarrow> ('k \<times> 'v) list \<times> nat) \<Rightarrow> ('k \<times> 'v) list \<Rightarrow> nat option \<Rightarrow> ('k \<times> 'v) list
   \<Rightarrow> ('k \<times> 'v) list \<times> nat option" where
  "insert_range_loop ins data it [] = (data, it)"
| "insert_range_loop ins data it (v # vs) = (let (data', it') = ins data v in insert_range_loop ins data' (Some it') vs)"

definition sm_insert_range ::
  "(('k \<times> 'v) list \<Rightarrow> 'k \<times> 'v \<Rightarrow> ('k \<times> 'v) list \<times> nat) \<Rightarrow> ('k \<times> 'v) list \<Rightarrow> ('k \<times> 'v) list
   \<Rightarrow> sm_error + ('k \<times> 'v) list \<times> nat" where
  "sm_insert_range ins data vs =
     (case insert_range_loop ins data None vs of
        (data', None) \<Rightarrow> Inl bad_iterator
      | (data', Some it) \<Rightarrow> Inr (data', Suc it))"

definition sm_assign ::
  "(('k \<times> 'v) list \<Rightarrow> 'k \<times> 'v \<Rightarrow> ('k \<times> 'v) list \<times> nat) \<Rightarrow> ('k \<times> 'v) list \<Rightarrow> ('k \<times> 'v) list
   \<Rightarrow> sm_error + ('k \<times> 'v) list \<times> nat" where
  "sm_assign ins data vs = sm_insert_range ins (sm_clear data) vs"

text \<open>\<open>sequenced_multimap\<close>: \<open>advance_to_next_key\<close> and the insertions.\<close>

fun advance_loop :: "('k \<Rightarrow> 'k \<Rightarrow> bool) \<Rightarrow> 'k \<Rightarrow> ('k \<times> 'v) list \<Rightarrow> nat" where
  "advance_loop eq key [] = 0"
| "advance_loop eq key (e # es) = (if \<not> eq key (fst e) then 0 else Suc (advance_loop eq key es))"

definition advance_to_next_key :: "('k \<Rightarrow> 'k \<Rightarrow> bool) \<Rightarrow> ('k \<times> 'v) list \<Rightarrow> nat \<Rightarrow> nat" where
  "advance_to_next_key eq data it = Suc it + advance_loop eq (fst (data ! it)) (drop (Suc it) data)"

definition mm_insert_hint :: "('k \<Rightarrow> 'k \<Rightarrow> bool) \<Rightarrow> ('k \<times> 'v) list \<Rightarrow> 'k \<times> 'v \<Rightarrow> ('k \<times> 'v) list \<times> nat" where
  "mm_insert_hint eq data val =
     (let it = sm_find eq data (fst val)
      in if it \<noteq> length data
         then let it' = advance_to_next_key eq data it in (take it' data @ val # drop it' data, it')
         else (data @ [val], length data))"

definition mm_insert :: "('k \<Rightarrow> 'k \<Rightarrow> bool) \<Rightarrow> ('k \<times> 'v) list \<Rightarrow> 'k \<times> 'v \<Rightarrow> ('k \<times> 'v) list \<times> nat \<times> bool" where
  "mm_insert eq data val = (let (data', it) = mm_insert_hint eq data val in (data', it, True))"

definition mm_emplace_hint :: "('k \<Rightarrow> 'k \<Rightarrow> bool) \<Rightarrow> ('k \<times> 'v) list \<Rightarrow> 'k \<Rightarrow> 'v \<Rightarrow> ('k \<times> 'v) list \<times> nat" where
  "mm_emplace_hint eq data k v =
     (let it = sm_find eq data k
      in if it \<noteq> length data
         then let it' = advance_to_next_key eq data it in (take it' data @ (k, v) # drop it' data, it')
         else (data @ [(k, v)], length data))"

definition mm_emplace :: "('k \<Rightarrow> 'k \<Rightarrow> bool) \<Rightarrow> ('k \<times> 'v) list \<Rightarrow> 'k \<Rightarrow> 'v \<Rightarrow> ('k \<times> 'v) list \<times> nat \<times> bool" where
  "mm_emplace eq data k v = (let (data', it) = mm_emplace_hint eq data k v in (data', it, True))"

section \<open>Specifications\<close>

text \<open>The finite map that a sequence stands for, and the values of a key in their order.\<close>

definition sm_lookup :: "('k \<Rightarrow> 'k \<Rightarrow> bool) \<Rightarrow> ('k \<times> 'v) list \<Rightarrow> 'k \<Rightarrow> 'v option" where
  "sm_lookup eq data k = map_option snd (List.find (\<lambda>e. eq (fst e) k) data)"

definition sm_values :: "('k \<Rightarrow> 'k \<Rightarrow> bool) \<Rightarrow> ('k \<times> 'v) list \<Rightarrow> 'k \<Rightarrow> 'v list" where
  "sm_values eq data k = map snd (filter (\<lambda>e. eq (fst e) k) data)"

text \<open>No two elements have equal keys; the elements with equal keys are neighbours.\<close>

fun sm_unique :: "('k \<Rightarrow> 'k \<Rightarrow> bool) \<Rightarrow> ('k \<times> 'v) list \<Rightarrow> bool" where
  "sm_unique eq [] = True"
| "sm_unique eq (e # es) = ((\<forall>x \<in> set es. \<not> eq (fst e) (fst x)) \<and> sm_unique eq es)"

fun sm_grouped :: "('k \<Rightarrow> 'k \<Rightarrow> bool) \<Rightarrow> ('k \<times> 'v) list \<Rightarrow> bool" where
  "sm_grouped eq [] = True"
| "sm_grouped eq (e # es) =
     ((\<forall>x \<in> set (dropWhile (\<lambda>x. eq (fst e) (fst x)) es). \<not> eq (fst e) (fst x)) \<and> sm_grouped eq es)"

section \<open>Lemmas on positions\<close>

lemma find_if_end: "find_if P xs = length xs \<longleftrightarrow> (\<forall>x \<in> set xs. \<not> P x)"
  by (induction xs) auto

lemma find_if_split:
  assumes "find_if P xs \<noteq> length xs"
  obtains ys x zs where "xs = ys @ x # zs" "find_if P xs = length ys" "P x" "\<forall>y \<in> set ys. \<not> P y"
proof -
  have "\<exists>ys x zs. xs = ys @ x # zs \<and> find_if P xs = length ys \<and> P x \<and> (\<forall>y \<in> set ys. \<not> P y)"
    using assms
  proof (induction xs)
    case (Cons a xs)
    show ?case
    proof (cases "P a")
      case False
      then obtain ys x zs where "xs = ys @ x # zs" "find_if P xs = length ys" "P x" "\<forall>y \<in> set ys. \<not> P y"
        using Cons by auto
      then show ?thesis using False by (intro exI [of _ "a # ys"]) auto
    qed (auto intro: exI [of _ "[]"])
  qed simp
  then show thesis using that by blast
qed

lemma find_none: "List.find P xs = None \<longleftrightarrow> (\<forall>x \<in> set xs. \<not> P x)"
  by (induction xs) auto

lemma set_dropWhile_snoc: "set (dropWhile P (xs @ [x])) \<subseteq> insert x (set (dropWhile P xs))"
  by (induction xs) auto

lemma ball_subset_insert: "A \<subseteq> insert e B \<Longrightarrow> Q e \<Longrightarrow> \<forall>x \<in> B. Q x \<Longrightarrow> \<forall>x \<in> A. Q x"
  by auto

lemma sm_find_end: "sm_find eq data k = length data \<longleftrightarrow> sm_lookup eq data k = None"
  by (simp add: sm_find_def sm_lookup_def find_if_end find_none)

lemma find_append: "List.find P (xs @ ys) = (case List.find P xs of None \<Rightarrow> List.find P ys | Some x \<Rightarrow> Some x)"
  by (induction xs) auto

lemma sm_find_split:
  assumes "sm_find eq data k \<noteq> length data"
  obtains ys e zs where "data = ys @ e # zs" "sm_find eq data k = length ys" "eq (fst e) k"
    "\<forall>y \<in> set ys. \<not> eq (fst y) k" "sm_lookup eq data k = Some (snd e)"
proof -
  obtain ys e zs where s: "data = ys @ e # zs" "sm_find eq data k = length ys" "eq (fst e) k"
      "\<forall>y \<in> set ys. \<not> eq (fst y) k"
    using assms unfolding sm_find_def by (rule find_if_split)
  have "List.find (\<lambda>e. eq (fst e) k) ys = None" using s(4) by (simp only: find_none)
  then have "List.find (\<lambda>e. eq (fst e) k) data = Some e" using s(1,3) by (simp add: find_append)
  then have "sm_lookup eq data k = Some (snd e)" by (simp add: sm_lookup_def)
  with s show thesis by (rule that)
qed

lemma sm_lookup_append:
  "sm_lookup eq (xs @ ys) k = (case sm_lookup eq xs k of None \<Rightarrow> sm_lookup eq ys k | Some v \<Rightarrow> Some v)"
  by (simp add: sm_lookup_def find_append split: option.splits)

lemma sm_lookup_Cons: "sm_lookup eq (e # es) k = (if eq (fst e) k then Some (snd e) else sm_lookup eq es k)"
  by (simp add: sm_lookup_def)

lemma advance_loop_takeWhile: "advance_loop eq k es = length (takeWhile (\<lambda>e. eq k (fst e)) es)"
  by (induction es) auto

lemma sm_unique_snoc:
  "sm_unique eq (data @ [e]) \<longleftrightarrow> sm_unique eq data \<and> (\<forall>x \<in> set data. \<not> eq (fst x) (fst e))"
  by (induction data) auto

lemma sm_unique_remove: "sm_unique eq (xs @ e # ys) \<Longrightarrow> sm_unique eq (xs @ ys)"
  by (induction xs) auto

section \<open>Equivalence of keys\<close>

locale key_equivalence =
  fixes eq :: "'k \<Rightarrow> 'k \<Rightarrow> bool"
  assumes refl: "eq k k" and sym: "eq k l \<Longrightarrow> eq l k" and trans: "eq k l \<Longrightarrow> eq l m \<Longrightarrow> eq k m"
begin

lemma cong_right: "eq k l \<Longrightarrow> eq m k = eq m l"
  using sym trans by blast

lemma cong_left: "eq k l \<Longrightarrow> eq k m = eq l m"
  using sym trans by blast

lemma lookup_cong: "eq k l \<Longrightarrow> sm_lookup eq data k = sm_lookup eq data l"
  by (induction data) (simp_all add: sm_lookup_Cons cong_right sm_lookup_def [of eq "[]"])

lemma unique_others:
  assumes "sm_unique eq (xs @ e # ys)" "x \<in> set (xs @ ys)"
  shows "\<not> eq (fst x) (fst e)"
  using assms by (induction xs) (auto dest: sym)

text \<open>A block of equal keys in front of other keys is grouped if the rest is.\<close>

lemma grouped_block:
  assumes "\<forall>x \<in> set mid. eq (fst x) k" "\<forall>x \<in> set es. \<not> eq (fst x) k"
  shows "sm_grouped eq (mid @ es) \<longleftrightarrow> sm_grouped eq es"
  using assms(1)
proof (induction mid)
  case (Cons m mid)
  have "\<forall>x \<in> set mid. eq (fst m) (fst x)" using Cons.prems by (metis cong_left cong_right list.set_intros refl)
  then have "dropWhile (\<lambda>x. eq (fst m) (fst x)) (mid @ es) = dropWhile (\<lambda>x. eq (fst m) (fst x)) es" by simp
  moreover have "\<forall>x \<in> set es. \<not> eq (fst m) (fst x)"
    using Cons.prems assms(2) sym trans by (meson list.set_intros(1))
  ultimately show ?case using Cons by (auto dest: set_dropWhileD)
qed simp

lemma grouped_insert:
  assumes "\<forall>x \<in> set ys. \<not> eq (fst x) k" "\<forall>x \<in> set mid. eq (fst x) k" "mid \<noteq> []"
    "\<forall>x \<in> set es. \<not> eq (fst x) k" "eq (fst e) k" "sm_grouped eq (ys @ mid @ es)"
  shows "sm_grouped eq (ys @ mid @ e # es)"
  using assms(1,6)
proof (induction ys)
  case Nil
  then show ?case using assms grouped_block [of "mid @ [e]" k es] grouped_block [of mid k es] by simp
next
  case (Cons y ys)
  let ?P = "\<lambda>x. eq (fst y) (fst x)"
  have y: "\<not> eq (fst y) k" using Cons.prems by simp
  obtain m where m: "m \<in> set (ys @ mid)" "\<not> ?P m" using assms(2,3) y trans by (metis UnCI last_in_set set_append)
  have "dropWhile ?P ((ys @ mid) @ zs) = dropWhile ?P (ys @ mid) @ zs" for zs
    using dropWhile_append1 [of m "ys @ mid" ?P zs] m by blast
  then have sub: "set (dropWhile ?P (ys @ mid @ e # es)) \<subseteq> insert e (set (dropWhile ?P (ys @ mid @ es)))" by simp
  have e: "\<not> ?P e" using y assms(5) trans by blast
  have g: "\<forall>x \<in> set (dropWhile ?P (ys @ mid @ es)). \<not> ?P x" "sm_grouped eq (ys @ mid @ es)"
    using Cons.prems(2) unfolding append_Cons sm_grouped.simps by blast+
  have "\<forall>x \<in> set (dropWhile ?P (ys @ mid @ e # es)). \<not> ?P x" by (rule ball_subset_insert [OF sub e g(1)])
  moreover have "sm_grouped eq (ys @ mid @ e # es)" by (rule Cons.IH) (use Cons.prems(1) g(2) in auto)
  ultimately show ?case by (simp only: append_Cons sm_grouped.simps)
qed

lemma grouped_rest:
  assumes "sm_grouped eq (ys @ e # zs)" "eq (fst e) k"
  shows "\<forall>x \<in> set (dropWhile (\<lambda>x. eq (fst e) (fst x)) zs). \<not> eq (fst x) k"
  using assms
proof (induction ys)
  case Nil
  then show ?case using sym trans by (metis append_Nil sm_grouped.simps(2))
qed simp

end

interpretation std_equal_to: key_equivalence "(=)"
  by unfold_locales auto

section \<open>The map\<close>

text \<open>
  \<open>sequenced_map::insert\<close> on a sequence without equal keys: an element is appended
  exactly when its key is new, so that the order of insertion and the values already stored are kept;
  the keys stay unique, the returned iterator points to the element of the key, and the map is
  updated at this key only.
\<close>

theorem sequenced_map_insert:
  assumes "key_equivalence eq" "sm_unique eq data" "sm_insert eq data (k, v) = (data', it, b)"
  shows "sm_unique eq data' \<and> data' = data @ (if b then [(k, v)] else [])
    \<and> (b \<longleftrightarrow> sm_lookup eq data k = None) \<and> it < length data' \<and> eq (fst (data' ! it)) k
    \<and> sm_lookup eq data' l =
        (if eq k l then Some (case sm_lookup eq data k of None \<Rightarrow> v | Some w \<Rightarrow> w) else sm_lookup eq data l)"
proof (cases "sm_find eq data k = length data")
  case True
  then have n: "sm_lookup eq data k = None" "data' = data @ [(k, v)]" "it = length data" b
    using assms(3) by (simp_all add: sm_insert_def sm_find_end)
  have "\<forall>x \<in> set data. \<not> eq (fst x) k" using True by (simp add: sm_find_def find_if_end)
  then show ?thesis
    using n assms(2) key_equivalence.lookup_cong [OF assms(1), of k l data] key_equivalence.refl [OF assms(1)]
    by (simp add: sm_unique_snoc sm_lookup_append sm_lookup_Cons sm_lookup_def [of eq "[]"] split: option.splits)
next
  case False
  then obtain ys e zs where "data = ys @ e # zs" "sm_find eq data k = length ys" "eq (fst e) k"
      "sm_lookup eq data k = Some (snd e)"
    by (rule sm_find_split)
  moreover from this have "data' = data" "it = length ys" "\<not> b"
    using assms(3) by (simp_all add: sm_insert_def)
  moreover from calculation have "data ! it = e" by (simp only: nth_append_length)
  moreover have "sm_lookup eq data l = Some (snd e)" if "eq k l"
    using key_equivalence.lookup_cong [OF assms(1) that, of data] calculation by simp
  ultimately show ?thesis using assms(2) by auto
qed

theorem sequenced_map_insert_witness:
  "sm_insert (=) [(5 :: nat, ''a''), (0, ''b'')] (2, ''c'') = ([(5, ''a''), (0, ''b''), (2, ''c'')], 2, True)
   \<and> sm_lookup (=) [(5 :: nat, ''a''), (0, ''b''), (2, ''c'')] 0 = sm_lookup (=) [(5 :: nat, ''a''), (0, ''b'')] 0"
proof -
  have i: "sm_insert (=) [(5 :: nat, ''a''), (0, ''b'')] (2, ''c'') = ([(5, ''a''), (0, ''b''), (2, ''c'')], 2, True)"
    by (simp add: sm_insert_def sm_find_def)
  from sequenced_map_insert [OF std_equal_to.key_equivalence_axioms _ i, of 0] i show ?thesis by simp
qed

text \<open>
  \<open>at\<close> is the lookup and throws \<open>out_of_range\<close> exactly for unknown keys; erasing
  the element that \<open>find\<close> returns removes this key and no other, and keeps the order of the rest.
\<close>

theorem sequenced_map_erase:
  assumes "key_equivalence eq" "sm_unique eq data"
  shows "sm_at eq data k = (case sm_lookup eq data k of None \<Rightarrow> Inl out_of_range | Some v \<Rightarrow> Inr v)
    \<and> (sm_lookup eq data k \<noteq> None \<longrightarrow>
        (\<exists>data' it. sm_erase data (sm_find eq data k) = Inr (data', it) \<and> sm_unique eq data'
          \<and> data' = filter (\<lambda>e. \<not> eq (fst e) k) data
          \<and> sm_lookup eq data' l = (if eq k l then None else sm_lookup eq data l)))"
proof (cases "sm_find eq data k = length data")
  case True
  then show ?thesis by (simp add: sm_at_def sm_find_end)
next
  case False
  then obtain ys e zs where s: "data = ys @ e # zs" "sm_find eq data k = length ys" "eq (fst e) k"
      "\<forall>y \<in> set ys. \<not> eq (fst y) k" "sm_lookup eq data k = Some (snd e)"
    by (rule sm_find_split)
  have others: "\<not> eq (fst x) k" if "x \<in> set (ys @ zs)" for x
    using key_equivalence.unique_others [OF assms(1)] assms(2) s(1,3) that
    by (metis assms(1) key_equivalence.cong_right)
  have "sm_lookup eq (ys @ zs) l = (if eq k l then None else sm_lookup eq data l)"
  proof (cases "eq k l")
    case True
    then have "\<forall>x \<in> set (ys @ zs). \<not> eq (fst x) l"
      using others key_equivalence.cong_right [OF assms(1)] by blast
    then show ?thesis using True by (simp add: sm_lookup_def find_none)
  next
    case False
    then have "\<not> eq (fst e) l" using s(3) key_equivalence.cong_left [OF assms(1)] by blast
    then show ?thesis using False by (simp add: s(1) sm_lookup_append sm_lookup_Cons split: option.split)
  qed
  moreover have "ys @ zs = filter (\<lambda>e. \<not> eq (fst e) k) data" using others s(1,3) by (simp add: filter_True)
  moreover have "sm_unique eq (ys @ zs)" using assms(2) s(1) sm_unique_remove by metis
  ultimately show ?thesis using s by (simp add: sm_at_def sm_erase_def Let_def nth_append)
qed

theorem sequenced_map_erase_witness:
  "\<exists>data' it. sm_erase [(5 :: nat, ''a''), (0, ''b'')] (sm_find (=) [(5 :: nat, ''a''), (0, ''b'')] 5) = Inr (data', it)
     \<and> data' = filter (\<lambda>e. fst e \<noteq> 5) [(5, ''a''), (0, ''b'')]"
  using sequenced_map_erase [OF std_equal_to.key_equivalence_axioms, of "[(5 :: nat, ''a''), (0, ''b'')]" 5 0]
  by (auto simp: sm_lookup_Cons)

text \<open>Inserting a pair is looking up in the sequence with the pair appended.\<close>

lemma sm_insert_hint_lookup:
  assumes "key_equivalence eq" "sm_unique eq data" "sm_insert_hint eq data e = (data', it)"
  shows "sm_unique eq data' \<and> sm_lookup eq data' l = sm_lookup eq (data @ [e]) l \<and> it < length data'"
proof (cases "sm_find eq data (fst e) = length data")
  case True
  then have "\<forall>x \<in> set data. \<not> eq (fst x) (fst e)" by (simp add: sm_find_def find_if_end)
  then show ?thesis using True assms by (auto simp: sm_insert_hint_def sm_unique_snoc)
next
  case False
  then obtain ys x zs where s: "data = ys @ x # zs" "sm_find eq data (fst e) = length ys" "eq (fst x) (fst e)"
      "sm_lookup eq data (fst e) = Some (snd x)"
    by (rule sm_find_split)
  have "sm_lookup eq (data @ [e]) l = sm_lookup eq data l"
    using s(4) key_equivalence.lookup_cong [OF assms(1), of "fst e" l data]
    by (cases "eq (fst e) l") (auto simp: sm_lookup_append sm_lookup_Cons sm_lookup_def [of eq "[]"] split: option.splits)
  then show ?thesis using False assms s(1,2) by (auto simp: sm_insert_hint_def)
qed

lemma insert_range_loop_lookup:
  assumes "key_equivalence eq"
  shows "sm_unique eq data \<Longrightarrow> insert_range_loop (sm_insert_hint eq) data it vs = (data', it') \<Longrightarrow>
    sm_unique eq data' \<and> sm_lookup eq data' l = sm_lookup eq (data @ vs) l \<and> (it' = None \<longleftrightarrow> vs = [] \<and> it = None)"
proof (induction vs arbitrary: data it)
  case (Cons v vs)
  obtain d p where d: "sm_insert_hint eq data v = (d, p)" by fastforce
  note step = sm_insert_hint_lookup [OF assms Cons.prems(1) d]
  have "insert_range_loop (sm_insert_hint eq) d (Some p) vs = (data', it')" using Cons.prems(2) d by simp
  then have "sm_unique eq data' \<and> sm_lookup eq data' l = sm_lookup eq (d @ vs) l \<and> it' \<noteq> None"
    using Cons.IH step by blast
  moreover have "sm_lookup eq (d @ vs) l = sm_lookup eq (data @ v # vs) l"
    using step sm_lookup_append [of eq d vs l] sm_lookup_append [of eq "data @ [v]" vs l] by simp
  ultimately show ?case by simp
qed auto

text \<open>
  Range insertion into a \<open>sequenced_map\<close>: for a non-empty range the result maps every
  key to its first value in the old sequence followed by the range. For an empty range
  an iterator that was never set is incremented.
\<close>

theorem sequenced_map_insert_range:
  assumes "key_equivalence eq" "sm_unique eq data"
  shows "(vs \<noteq> [] \<longrightarrow> (\<exists>data' it. sm_insert_range (sm_insert_hint eq) data vs = Inr (data', it)
      \<and> sm_unique eq data' \<and> sm_lookup eq data' l = sm_lookup eq (data @ vs) l))
    \<and> sm_insert_range (sm_insert_hint eq) data [] = Inl bad_iterator"
proof (intro conjI impI)
  assume "vs \<noteq> []"
  obtain d p where "insert_range_loop (sm_insert_hint eq) data None vs = (d, p)" by fastforce
  with insert_range_loop_lookup [OF assms this] \<open>vs \<noteq> []\<close>
  show "\<exists>data' it. sm_insert_range (sm_insert_hint eq) data vs = Inr (data', it)
      \<and> sm_unique eq data' \<and> sm_lookup eq data' l = sm_lookup eq (data @ vs) l"
    by (cases p) (auto simp: sm_insert_range_def)
qed (simp add: sm_insert_range_def)

theorem sequenced_map_insert_range_witness:
  "\<exists>data' it. sm_insert_range (sm_insert_hint (=)) [(5 :: nat, ''a'')] [(7, ''b''), (5, ''c'')] = Inr (data', it)
     \<and> sm_lookup (=) data' 5 = Some ''a''"
  using sequenced_map_insert_range [OF std_equal_to.key_equivalence_axioms, of "[(5 :: nat, ''a'')]" "[(7, ''b''), (5, ''c'')]" 5]
  by (auto simp: sm_lookup_Cons)

section \<open>The multimap\<close>

text \<open>
  (C4) \<open>sequenced_multimap::insert\<close> on a sequence whose equal keys are neighbours: the new
  element comes directly behind the last one with an equal key, or at the end when there
  is none. Equal keys stay neighbours, the values of the key are those before followed by the
  new one, and the elements before keep their order.
\<close>

theorem sequenced_multimap_insert:
  assumes "key_equivalence eq" "sm_grouped eq data" "mm_insert eq data (k, v) = (data', it, b)"
  shows "sm_grouped eq data' \<and> it < length data' \<and> data' ! it = (k, v)
    \<and> take it data' @ drop (Suc it) data' = data
    \<and> sm_values eq data' l = sm_values eq data l @ (if eq k l then [v] else [])"
proof (cases "sm_find eq data k = length data")
  case True
  then have new: "\<forall>x \<in> set data. \<not> eq (fst x) k" by (simp add: sm_find_def find_if_end)
  have d: "data' = data @ [(k, v)]" "it = length data"
    using assms(3) True by (simp_all add: mm_insert_def mm_insert_hint_def)
  have "sm_grouped eq (data @ [(k, v)])"
    using new assms(2)
  proof (induction data)
    case (Cons y ys)
    have new: "\<not> eq (fst y) (fst (k, v))" using Cons.prems by simp
    have sub: "set (dropWhile (\<lambda>x. eq (fst y) (fst x)) (ys @ [(k, v)]))
        \<subseteq> insert (k, v) (set (dropWhile (\<lambda>x. eq (fst y) (fst x)) ys))"
      by (rule set_dropWhile_snoc)
    have g: "\<forall>x \<in> set (dropWhile (\<lambda>x. eq (fst y) (fst x)) ys). \<not> eq (fst y) (fst x)" "sm_grouped eq ys"
      using Cons.prems(2) unfolding sm_grouped.simps by blast+
    have "\<forall>x \<in> set (dropWhile (\<lambda>x. eq (fst y) (fst x)) (ys @ [(k, v)])). \<not> eq (fst y) (fst x)"
      by (rule ball_subset_insert [OF sub new g(1)])
    moreover have "sm_grouped eq (ys @ [(k, v)])" by (rule Cons.IH) (use Cons.prems(1) g(2) in auto)
    ultimately show ?case by (simp only: append_Cons sm_grouped.simps)
  qed simp
  then show ?thesis using d by (simp add: sm_values_def nth_append)
next
  case False
  then obtain ys e zs where s: "data = ys @ e # zs" "sm_find eq data k = length ys" "eq (fst e) k"
      "\<forall>y \<in> set ys. \<not> eq (fst y) k"
    by (rule sm_find_split)
  define mid es where "mid = takeWhile (\<lambda>x. eq (fst e) (fst x)) zs" and "es = dropWhile (\<lambda>x. eq (fst e) (fst x)) zs"
  have zs: "zs = mid @ es" by (simp add: mid_def es_def)
  have adv: "advance_to_next_key eq data (length ys) = length (ys @ e # mid)"
    by (simp add: advance_to_next_key_def advance_loop_takeWhile s(1) mid_def)
  have it: "it = length (ys @ e # mid)" "data' = ys @ (e # mid) @ (k, v) # es"
    using assms(3) False adv [unfolded s(1) zs]
    by (simp_all add: mm_insert_def mm_insert_hint_def s(2) Let_def del: append_assoc) (simp_all add: s(1) zs)
  have mid: "\<forall>x \<in> set (e # mid). eq (fst x) k"
    using s(3) set_takeWhileD key_equivalence.cong_left [OF assms(1)] unfolding mid_def by fastforce
  have es: "\<forall>x \<in> set es. \<not> eq (fst x) k"
    using key_equivalence.grouped_rest [OF assms(1), of ys e zs k] assms(2) s by (simp add: es_def)
  have "sm_grouped eq data'"
    using key_equivalence.grouped_insert [OF assms(1) s(4) mid _ es, of "(k, v)"] assms(2) it(2) s(1) zs
      key_equivalence.refl [OF assms(1)] by simp
  moreover have "sm_values eq es l = []" if "eq k l"
    using es that key_equivalence.cong_right [OF assms(1) that] by (auto simp: sm_values_def filter_empty_conv)
  then have "sm_values eq data' l = sm_values eq data l @ (if eq k l then [v] else [])"
    unfolding it(2) s(1) zs by (simp add: sm_values_def)
  ultimately show ?thesis using it s(1) zs by (simp add: nth_append)
qed

theorem sequenced_multimap_insert_witness:
  "mm_insert (=) [(5 :: nat, ''a''), (5, ''b''), (0, ''c'')] (5, ''d'') = ([(5, ''a''), (5, ''b''), (5, ''d''), (0, ''c'')], 2, True)
   \<and> sm_grouped (=) [(5 :: nat, ''a''), (5, ''b''), (5, ''d''), (0, ''c'')]"
proof -
  have i: "mm_insert (=) [(5 :: nat, ''a''), (5, ''b''), (0, ''c'')] (5, ''d'')
      = ([(5, ''a''), (5, ''b''), (5, ''d''), (0, ''c'')], 2, True)"
    by (simp add: mm_insert_def mm_insert_hint_def sm_find_def advance_to_next_key_def)
  from sequenced_multimap_insert [OF std_equal_to.key_equivalence_axioms _ i, of 5] i show ?thesis by simp
qed

end
