(* ===== verification/Lru_Cache.thy ===== *)
theory Lru_Cache
  imports Sequenced_Map
begin

text \<open>
  The least-recently-used containers: \<^verbatim>\<open>container/detail/lru_cache_facade.ipp\<close> with its four
  implementations \<^verbatim>\<open>lru_map_impl\<close>, \<^verbatim>\<open>lru_set_impl\<close>, \<^verbatim>\<open>timed_lru_map_impl\<close> and
  \<^verbatim>\<open>timed_lru_set_impl\<close>. Nodes live in a heap and are linked into two intrusive containers of
  Boost, a list in the order of use and a hash set; both containers are parameters of the
  definitions (record \<open>containers\<close>) with their documented laws in the locale
  \<open>intrusive_containers\<close>. The clock is a parameter too: \<open>clk n\<close> is what the \<open>n\<close>-th call of
  \<open>now()\<close> returns.
\<close>

section \<open>Parameters\<close>

text \<open>
  The intrusive list and the intrusive hash set. \<open>order\<close> is what iteration over the list
  yields; a hash operation gets the key of every node, since an intrusive set looks into its elements.
\<close>

record ('l, 'h, 'k) containers =
  order :: "'l \<Rightarrow> nat list"
  list_new :: 'l
  list_erase :: "'l \<Rightarrow> nat \<Rightarrow> 'l"
  list_push_front :: "'l \<Rightarrow> nat \<Rightarrow> 'l"
  hash_new :: "nat \<Rightarrow> 'h"
  hash_find :: "(nat \<Rightarrow> 'k) \<Rightarrow> 'h \<Rightarrow> 'k \<Rightarrow> nat option"
  hash_insert :: "(nat \<Rightarrow> 'k) \<Rightarrow> 'h \<Rightarrow> nat \<Rightarrow> 'h"
  hash_erase :: "(nat \<Rightarrow> 'k) \<Rightarrow> 'h \<Rightarrow> nat \<Rightarrow> 'h"
  hash_rehash :: "'h \<Rightarrow> nat \<Rightarrow> 'h"
  bucket_count :: "'h \<Rightarrow> nat"

section \<open>State and operations\<close>

text \<open>A node holds its value and, in the timed containers, the time it was stored.\<close>

record ('v, 'l, 'h) cache =
  heap :: "nat \<Rightarrow> 'v \<times> int"
  next_addr :: nat
  lru_list :: 'l
  lru_hash :: 'h
  max_size :: nat
  min_expire :: int
  ticks :: nat

text \<open>
  What differs between the implementations: the key of a value, and \<open>is_limits\<close>, which gets
  \<open>max_size_\<close>, \<open>min_expire_\<close>, the size, the time of the last node and the current time.
\<close>

record ('v, 'k) impl =
  key_of :: "'v \<Rightarrow> 'k"
  is_limits :: "nat \<Rightarrow> int \<Rightarrow> nat \<Rightarrow> int \<Rightarrow> int \<Rightarrow> ub + bool"

definition lru_is_limits :: "nat \<Rightarrow> int \<Rightarrow> nat \<Rightarrow> int \<Rightarrow> int \<Rightarrow> ub + bool" where
  "lru_is_limits mx me n t now = Inr (mx < n)"

definition timed_lru_map_is_limits :: "nat \<Rightarrow> int \<Rightarrow> nat \<Rightarrow> int \<Rightarrow> int \<Rightarrow> ub + bool" where
  "timed_lru_map_is_limits mx me n t now =
     (if mx < n then if 2 ^ 63 \<le> now + me then Inl Signed_Overflow else Inr (t < now + me) else Inr False)"

definition timed_lru_set_is_limits :: "nat \<Rightarrow> int \<Rightarrow> nat \<Rightarrow> int \<Rightarrow> int \<Rightarrow> ub + bool" where
  "timed_lru_set_is_limits mx me n t now = Inr (mx < n \<and> t < now)"

definition lru_map_impl :: "('k \<times> 'm, 'k) impl" where
  "lru_map_impl = \<lparr>key_of = fst, is_limits = lru_is_limits\<rparr>"

definition lru_set_impl :: "('v, 'v) impl" where
  "lru_set_impl = \<lparr>key_of = id, is_limits = lru_is_limits\<rparr>"

definition timed_lru_map_impl :: "('k \<times> 'm, 'k) impl" where
  "timed_lru_map_impl = \<lparr>key_of = fst, is_limits = timed_lru_map_is_limits\<rparr>"

definition timed_lru_set_impl :: "('v, 'v) impl" where
  "timed_lru_set_impl = \<lparr>key_of = id, is_limits = timed_lru_set_is_limits\<rparr>"

definition size_max :: nat where
  "size_max = 2 ^ 64 - 1"

definition duration_max :: int where
  "duration_max = 2 ^ 63 - 1"

definition min_bucket_size :: nat where
  "min_bucket_size = 32"

definition cache_new :: "('l, 'h, 'k) containers \<Rightarrow> nat \<Rightarrow> 'v \<times> int \<Rightarrow> ('v, 'l, 'h) cache" where
  "cache_new C n junk =
     \<lparr>heap = \<lambda>_. junk, next_addr = 0, lru_list = list_new C, lru_hash = hash_new C n,
      max_size = size_max, min_expire = duration_max, ticks = 0\<rparr>"

definition node_key :: "('v, 'k) impl \<Rightarrow> ('v, 'l, 'h) cache \<Rightarrow> nat \<Rightarrow> 'k" where
  "node_key I s a = key_of I (fst (heap s a))"

definition cache_order :: "('l, 'h, 'k) containers \<Rightarrow> ('v, 'l, 'h) cache \<Rightarrow> nat list" where
  "cache_order C s = order C (lru_list s)"

definition cache_size :: "('l, 'h, 'k) containers \<Rightarrow> ('v, 'l, 'h) cache \<Rightarrow> nat" where
  "cache_size C s = length (cache_order C s)"

definition cache_empty :: "('l, 'h, 'k) containers \<Rightarrow> ('v, 'l, 'h) cache \<Rightarrow> bool" where
  "cache_empty C s \<longleftrightarrow> cache_order C s = []"

definition cache_begin :: "('l, 'h, 'k) containers \<Rightarrow> ('v, 'l, 'h) cache \<Rightarrow> nat option" where
  "cache_begin C s = (case cache_order C s of [] \<Rightarrow> None | a # _ \<Rightarrow> Some a)"

text \<open>\<open>front()\<close> and \<open>back()\<close> of an empty list are undefined.\<close>

definition cache_front :: "('l, 'h, 'k) containers \<Rightarrow> ('v, 'l, 'h) cache \<Rightarrow> 'v option" where
  "cache_front C s = (case cache_order C s of [] \<Rightarrow> None | a # _ \<Rightarrow> Some (fst (heap s a)))"

definition cache_back :: "('l, 'h, 'k) containers \<Rightarrow> ('v, 'l, 'h) cache \<Rightarrow> 'v option" where
  "cache_back C s = (if cache_empty C s then None else Some (fst (heap s (last (cache_order C s)))))"

text \<open>\<open>find\<close>; an iterator is the address of a node, \<open>end()\<close> is \<open>None\<close>.\<close>

definition cache_find :: "('l, 'h, 'k) containers \<Rightarrow> ('v, 'k) impl \<Rightarrow> ('v, 'l, 'h) cache \<Rightarrow> 'k \<Rightarrow> nat option" where
  "cache_find C I s k = hash_find C (node_key I s) (lru_hash s) k"

definition rehash :: "('l, 'h, 'k) containers \<Rightarrow> nat \<Rightarrow> ('v, 'l, 'h) cache \<Rightarrow> ('v, 'l, 'h) cache" where
  "rehash C n s = s\<lparr>lru_hash := hash_rehash C (lru_hash s) n\<rparr>"

definition auto_rehash :: "('l, 'h, 'k) containers \<Rightarrow> ('v, 'l, 'h) cache \<Rightarrow> ('v, 'l, 'h) cache" where
  "auto_rehash C s =
     (let n = bucket_count C (lru_hash s)
      in if n < cache_size C s then rehash C (n * 2) s
         else if min_bucket_size < cache_size C s \<and> cache_size C s < n div 2 then rehash C (n div 2) s
         else s)"

text \<open>The part of \<open>erase\<close> that unlinks a node and deletes it; the iterator to the next node.\<close>

definition unlink :: "('l, 'h, 'k) containers \<Rightarrow> ('v, 'k) impl \<Rightarrow> nat \<Rightarrow> ('v, 'l, 'h) cache \<Rightarrow> ('v, 'l, 'h) cache" where
  "unlink C I a s = s\<lparr>lru_list := list_erase C (lru_list s) a, lru_hash := hash_erase C (node_key I s) (lru_hash s) a\<rparr>"

fun next_in :: "nat list \<Rightarrow> nat \<Rightarrow> nat option" where
  "next_in [] a = None"
| "next_in (x # xs) a = (if x = a then (case xs of [] \<Rightarrow> None | y # _ \<Rightarrow> Some y) else next_in xs a)"

definition cache_erase ::
  "('l, 'h, 'k) containers \<Rightarrow> ('v, 'k) impl \<Rightarrow> nat option \<Rightarrow> ('v, 'l, 'h) cache \<Rightarrow> ('v, 'l, 'h) cache \<times> nat option" where
  "cache_erase C I it s =
     (case it of None \<Rightarrow> (s, None) | Some a \<Rightarrow> (unlink C I a s, next_in (cache_order C s) a))"

definition cache_erase_key ::
  "('l, 'h, 'k) containers \<Rightarrow> ('v, 'k) impl \<Rightarrow> 'k \<Rightarrow> ('v, 'l, 'h) cache \<Rightarrow> ('v, 'l, 'h) cache \<times> nat option" where
  "cache_erase_key C I k s = cache_erase C I (cache_find C I s k) s"

text \<open>\<open>erase(beg, end)\<close>: stepping past the last node is undefined, running out of fuel is \<open>None\<close>.\<close>

fun erase_range_loop ::
  "nat \<Rightarrow> ('l, 'h, 'k) containers \<Rightarrow> ('v, 'k) impl \<Rightarrow> nat option \<Rightarrow> nat option \<Rightarrow> ('v, 'l, 'h) cache
   \<Rightarrow> (ub + ('v, 'l, 'h) cache) option" where
  "erase_range_loop 0 C I b e s = None"
| "erase_range_loop (Suc fuel) C I b e s =
     (if b = e then Some (Inr s)
      else case b of
             None \<Rightarrow> Some (Inl Array_Overrun)
           | Some a \<Rightarrow> erase_range_loop fuel C I (next_in (cache_order C s) a) e (unlink C I a s))"

definition cache_clear :: "('l, 'h, 'k) containers \<Rightarrow> ('v, 'k) impl \<Rightarrow> ('v, 'l, 'h) cache \<Rightarrow> (ub + ('v, 'l, 'h) cache) option" where
  "cache_clear C I s = erase_range_loop (Suc (cache_size C s)) C I (cache_begin C s) None s"

text \<open>\<open>is_limits(*this)\<close>: the last node is looked at only when there are too many.\<close>

definition cache_limits :: "('l, 'h, 'k) containers \<Rightarrow> ('v, 'k) impl \<Rightarrow> (nat \<Rightarrow> int) \<Rightarrow> ('v, 'l, 'h) cache \<Rightarrow> ub + bool" where
  "cache_limits C I clk s =
     is_limits I (max_size s) (min_expire s) (cache_size C s) (snd (heap s (last (cache_order C s)))) (clk (ticks s))"

text \<open>\<open>node_base::replace\<close> and the construction of a node store the value and the time.\<close>

definition store :: "nat \<Rightarrow> 'v \<Rightarrow> int \<Rightarrow> ('v, 'l, 'h) cache \<Rightarrow> ('v, 'l, 'h) cache" where
  "store a v t s = s\<lparr>heap := (heap s)(a := (v, t)), ticks := Suc (ticks s)\<rparr>"

definition cache_push ::
  "('l, 'h, 'k) containers \<Rightarrow> ('v, 'k) impl \<Rightarrow> (nat \<Rightarrow> int) \<Rightarrow> 'v \<Rightarrow> ('v, 'l, 'h) cache \<Rightarrow> ub + ('v, 'l, 'h) cache \<times> bool" where
  "cache_push C I clk v s =
     (case hash_find C (node_key I s) (lru_hash s) (key_of I v) of
        Some a \<Rightarrow>
          let s1 = s\<lparr>lru_list := list_erase C (lru_list s) a\<rparr>;
              s2 = store a v (clk (ticks s1)) s1
          in Inr (s2\<lparr>lru_list := list_push_front C (lru_list s2) a\<rparr>, False)
      | None \<Rightarrow>
          (case (if cache_empty C s then Inr False else cache_limits C I clk s) of
             Inl e \<Rightarrow> Inl e
           | Inr True \<Rightarrow>
               let s0 = s\<lparr>ticks := Suc (ticks s)\<rparr>; a = last (cache_order C s);
                   s1 = unlink C I a s0;
                   s2 = store a v (clk (ticks s1)) s1;
                   s3 = s2\<lparr>lru_list := list_push_front C (lru_list s2) a\<rparr>
               in Inr (s3\<lparr>lru_hash := hash_insert C (node_key I s3) (lru_hash s3) a\<rparr>, True)
           | Inr False \<Rightarrow>
               let s0 = s\<lparr>ticks := Suc (ticks s)\<rparr>; a = next_addr s;
                   s1 = store a v (clk (ticks s0)) (s0\<lparr>next_addr := Suc a\<rparr>);
                   s2 = s1\<lparr>lru_hash := hash_insert C (node_key I s1) (lru_hash s1) a\<rparr>;
                   s3 = s2\<lparr>lru_list := list_push_front C (lru_list s2) a\<rparr>
               in Inr (auto_rehash C s3, True)))"

text \<open>\<open>insert\<close> and \<open>emplace\<close> are \<open>push\<close> with an iterator to the front.\<close>

definition cache_insert ::
  "('l, 'h, 'k) containers \<Rightarrow> ('v, 'k) impl \<Rightarrow> (nat \<Rightarrow> int) \<Rightarrow> 'v \<Rightarrow> ('v, 'l, 'h) cache
   \<Rightarrow> ub + ('v, 'l, 'h) cache \<times> nat option \<times> bool" where
  "cache_insert C I clk v s = map_sum id (\<lambda>(s', b). (s', cache_begin C s', b)) (cache_push C I clk v s)"

text \<open>The loop of \<open>shrink_to_fit\<close> erases the last node; one round per node is enough fuel.\<close>

fun shrink_loop ::
  "nat \<Rightarrow> ('l, 'h, 'k) containers \<Rightarrow> ('v, 'k) impl \<Rightarrow> (nat \<Rightarrow> int) \<Rightarrow> ('v, 'l, 'h) cache
   \<Rightarrow> (ub + ('v, 'l, 'h) cache) option" where
  "shrink_loop 0 C I clk s = None"
| "shrink_loop (Suc fuel) C I clk s =
     (if cache_empty C s then Some (Inr s)
      else case cache_limits C I clk s of
             Inl e \<Rightarrow> Some (Inl e)
           | Inr False \<Rightarrow> Some (Inr s)
           | Inr True \<Rightarrow> shrink_loop fuel C I clk (unlink C I (last (cache_order C s)) (s\<lparr>ticks := Suc (ticks s)\<rparr>)))"

definition shrink_to_fit ::
  "('l, 'h, 'k) containers \<Rightarrow> ('v, 'k) impl \<Rightarrow> (nat \<Rightarrow> int) \<Rightarrow> ('v, 'l, 'h) cache \<Rightarrow> (ub + ('v, 'l, 'h) cache) option" where
  "shrink_to_fit C I clk s =
     map_option (map_sum id (auto_rehash C)) (shrink_loop (Suc (cache_size C s)) C I clk s)"

definition lru_max_size ::
  "('l, 'h, 'k) containers \<Rightarrow> ('v, 'k) impl \<Rightarrow> (nat \<Rightarrow> int) \<Rightarrow> nat \<Rightarrow> ('v, 'l, 'h) cache \<Rightarrow> (ub + ('v, 'l, 'h) cache) option" where
  "lru_max_size C I clk n s = shrink_to_fit C I clk (s\<lparr>max_size := n\<rparr>)"

text \<open>Copying pushes the elements of the other container one by one, from its front to its back.\<close>

fun push_all ::
  "('l, 'h, 'k) containers \<Rightarrow> ('v, 'k) impl \<Rightarrow> (nat \<Rightarrow> int) \<Rightarrow> 'v list \<Rightarrow> ('v, 'l, 'h) cache \<Rightarrow> ub + ('v, 'l, 'h) cache" where
  "push_all C I clk [] s = Inr s"
| "push_all C I clk (v # vs) s =
     (case cache_push C I clk v s of Inl e \<Rightarrow> Inl e | Inr (s', _) \<Rightarrow> push_all C I clk vs s')"

definition cache_values :: "('l, 'h, 'k) containers \<Rightarrow> ('v, 'l, 'h) cache \<Rightarrow> 'v list" where
  "cache_values C s = map (\<lambda>a. fst (heap s a)) (cache_order C s)"

definition cache_copy ::
  "('l, 'h, 'k) containers \<Rightarrow> ('v, 'k) impl \<Rightarrow> (nat \<Rightarrow> int) \<Rightarrow> 'v \<times> int \<Rightarrow> ('v, 'l, 'h) cache \<Rightarrow> ub + ('v, 'l, 'h) cache" where
  "cache_copy C I clk junk rhs =
     push_all C I clk (cache_values C rhs) (cache_new C (bucket_count C (lru_hash rhs)) junk)"

text \<open>Copy assignment; \<open>self\<close> tells whether both sides are the same object.\<close>

definition cache_assign ::
  "('l, 'h, 'k) containers \<Rightarrow> ('v, 'k) impl \<Rightarrow> (nat \<Rightarrow> int) \<Rightarrow> bool \<Rightarrow> ('v, 'l, 'h) cache \<Rightarrow> ('v, 'l, 'h) cache
   \<Rightarrow> (ub + ('v, 'l, 'h) cache) option" where
  "cache_assign C I clk self rhs s =
     (if self then Some (Inr s)
      else map_option (\<lambda>r. case r of Inl e \<Rightarrow> Inl e | Inr s0 \<Rightarrow> push_all C I clk (cache_values C rhs) s0) (cache_clear C I s))"

section \<open>Specification\<close>

text \<open>The invariant: list and hash set hold the same nodes, with pairwise different keys.\<close>

definition cache_inv ::
  "('l, 'h, 'k) containers \<Rightarrow> ('k \<Rightarrow> 'k \<Rightarrow> bool) \<Rightarrow> ('h \<Rightarrow> nat set) \<Rightarrow> ((nat \<Rightarrow> 'k) \<Rightarrow> 'h \<Rightarrow> bool)
   \<Rightarrow> ('v, 'k) impl \<Rightarrow> ('v, 'l, 'h) cache \<Rightarrow> bool" where
  "cache_inv C eq nodes hash_ok I s \<longleftrightarrow> distinct (cache_order C s) \<and> nodes (lru_hash s) = set (cache_order C s)
     \<and> hash_ok (node_key I s) (lru_hash s) \<and> (\<forall>a \<in> set (cache_order C s). a < next_addr s)
     \<and> (\<forall>a \<in> set (cache_order C s). \<forall>b \<in> set (cache_order C s). eq (node_key I s a) (node_key I s b) \<longrightarrow> a = b)"

text \<open>
  The abstract container is the list of its values, the most recently used first. \<open>full\<close>
  tells whether the last value has to go when a new one comes.
\<close>

definition push_spec :: "('k \<Rightarrow> 'k \<Rightarrow> bool) \<Rightarrow> ('v \<Rightarrow> 'k) \<Rightarrow> bool \<Rightarrow> 'v \<Rightarrow> 'v list \<Rightarrow> 'v list \<times> bool" where
  "push_spec eq key full v vs =
     (if \<exists>x \<in> set vs. eq (key v) (key x) then (v # filter (\<lambda>x. \<not> eq (key v) (key x)) vs, False)
      else (v # (if vs \<noteq> [] \<and> full then butlast vs else vs), True))"

lemma remove1_last: "distinct xs \<Longrightarrow> xs \<noteq> [] \<Longrightarrow> remove1 (last xs) xs = butlast xs"
  by (cases xs rule: rev_cases) (auto simp: remove1_append)

lemma link_swap: "s\<lparr>lru_hash := h, lru_list := l\<rparr> = s\<lparr>lru_list := l, lru_hash := h\<rparr>"
  by simp

lemma sm_unique_middle:
  "sm_unique eq (xs @ ys) \<Longrightarrow> \<forall>x \<in> set xs. \<not> eq (fst x) (fst e) \<Longrightarrow> \<forall>y \<in> set ys. \<not> eq (fst e) (fst y) \<Longrightarrow>
   sm_unique eq (xs @ e # ys)"
  by (induction xs) auto

section \<open>The laws of the containers\<close>

text \<open>
  What Boost.Intrusive documents: the list is a sequence of nodes; the hash set holds nodes
  with pairwise different keys and finds the node with an equal key, as long as the key of a node
  in it is changed to an equal key only.
\<close>

locale intrusive_containers = key_equivalence eq
  for eq :: "'k \<Rightarrow> 'k \<Rightarrow> bool" +
  fixes C :: "('l, 'h, 'k) containers" and nodes :: "'h \<Rightarrow> nat set" and hash_ok :: "(nat \<Rightarrow> 'k) \<Rightarrow> 'h \<Rightarrow> bool"
  assumes order_new: "order C (list_new C) = []"
    and order_erase: "order C (list_erase C l a) = remove1 a (order C l)"
    and order_push_front: "order C (list_push_front C l a) = a # order C l"
    and ok_new: "hash_ok key (hash_new C n)" and nodes_new: "nodes (hash_new C n) = {}"
    and ok_cong: "hash_ok key h \<Longrightarrow> (\<And>a. a \<in> nodes h \<Longrightarrow> eq (key a) (key' a)) \<Longrightarrow> hash_ok key' h"
    and find_some: "hash_ok key h \<Longrightarrow> hash_find C key h k = Some a \<Longrightarrow> a \<in> nodes h \<and> eq k (key a)"
    and find_end: "hash_ok key h \<Longrightarrow> hash_find C key h k = None \<Longrightarrow> a \<in> nodes h \<Longrightarrow> \<not> eq k (key a)"
    and insert_new: "hash_ok key h \<Longrightarrow> a \<notin> nodes h \<Longrightarrow> (\<And>b. b \<in> nodes h \<Longrightarrow> \<not> eq (key a) (key b)) \<Longrightarrow>
      hash_ok key (hash_insert C key h a) \<and> nodes (hash_insert C key h a) = insert a (nodes h)"
    and erase_old: "hash_ok key h \<Longrightarrow> a \<in> nodes h \<Longrightarrow>
      hash_ok key (hash_erase C key h a) \<and> nodes (hash_erase C key h a) = nodes h - {a}"
    and rehash_keeps: "hash_ok key h \<Longrightarrow> hash_ok key (hash_rehash C h n) \<and> nodes (hash_rehash C h n) = nodes h"
begin

abbreviation cinv :: "('v, 'k) impl \<Rightarrow> ('v, 'l, 'h) cache \<Rightarrow> bool" where
  "cinv \<equiv> cache_inv C eq nodes hash_ok"

lemmas cinv_def = cache_inv_def [of C eq nodes hash_ok]

lemma order_simps [simp]:
  "cache_order C (s\<lparr>lru_list := list_erase C (lru_list s) a\<rparr>) = remove1 a (cache_order C s)"
  "cache_order C (s\<lparr>lru_list := list_push_front C (lru_list s) a\<rparr>) = a # cache_order C s"
  "cache_order C (s\<lparr>lru_hash := h\<rparr>) = cache_order C s"
  "cache_order C (s\<lparr>ticks := n\<rparr>) = cache_order C s"
  "cache_order C (s\<lparr>next_addr := n\<rparr>) = cache_order C s"
  "cache_order C (s\<lparr>max_size := n\<rparr>) = cache_order C s"
  "cache_order C (store a v t s) = cache_order C s"
  "cache_order C (rehash C n s) = cache_order C s"
  "cache_order C (auto_rehash C s) = cache_order C s"
  "cache_order C (unlink C I a s) = remove1 a (cache_order C s)"
  by (simp_all add: cache_order_def order_erase order_push_front store_def rehash_def auto_rehash_def unlink_def Let_def)

lemma inv_new: "cinv I (cache_new C n junk)"
  by (simp add: cinv_def cache_new_def cache_order_def order_new ok_new nodes_new)

lemma auto_rehash_fields [simp]:
  "heap (auto_rehash C s) = heap s" "next_addr (auto_rehash C s) = next_addr s" "max_size (auto_rehash C s) = max_size s"
  "min_expire (auto_rehash C s) = min_expire s" "node_key I (auto_rehash C s) = node_key I s"
  by (simp_all add: auto_rehash_def rehash_def node_key_def fun_eq_iff Let_def)

lemma inv_auto_rehash: "cinv I s \<Longrightarrow> cinv I (auto_rehash C s)"
  using rehash_keeps by (auto simp: cinv_def auto_rehash_def rehash_def cache_order_def node_key_def [abs_def] Let_def)

lemma node_key_simps [simp]:
  "node_key I (s\<lparr>lru_list := l\<rparr>) = node_key I s" "node_key I (s\<lparr>lru_hash := h\<rparr>) = node_key I s"
  "node_key I (s\<lparr>ticks := n\<rparr>) = node_key I s" "node_key I (s\<lparr>next_addr := n\<rparr>) = node_key I s"
  "node_key I (s\<lparr>max_size := n\<rparr>) = node_key I s" "node_key I (unlink C I' a s) = node_key I s"
  "node_key I (store a v t s) = (node_key I s)(a := key_of I v)"
  by (auto simp: node_key_def unlink_def store_def)

lemma inv_unlink:
  assumes "cinv I s" "a \<in> set (cache_order C s)"
  shows "cinv I (unlink C I a s)"
proof -
  have "hash_ok (node_key I s) (hash_erase C (node_key I s) (lru_hash s) a)
      \<and> nodes (hash_erase C (node_key I s) (lru_hash s) a) = nodes (lru_hash s) - {a}"
    using assms by (intro erase_old) (simp_all add: cinv_def)
  moreover have "lru_hash (unlink C I a s) = hash_erase C (node_key I s) (lru_hash s) a"
      "next_addr (unlink C I a s) = next_addr s" by (simp_all add: unlink_def)
  ultimately show ?thesis using assms by (auto simp: cinv_def)
qed

lemma find_iff:
  assumes "cinv I s"
  shows "cache_find C I s k = Some a \<longleftrightarrow> a \<in> set (cache_order C s) \<and> eq k (node_key I s a)"
proof
  assume "cache_find C I s k = Some a"
  then show "a \<in> set (cache_order C s) \<and> eq k (node_key I s a)"
    using assms find_some [of "node_key I s" "lru_hash s" k a] by (simp add: cinv_def cache_find_def)
next
  assume a: "a \<in> set (cache_order C s) \<and> eq k (node_key I s a)"
  then obtain b where b: "cache_find C I s k = Some b"
    using assms find_end [of "node_key I s" "lru_hash s" k a] by (cases "cache_find C I s k") (auto simp: cinv_def cache_find_def)
  then have "b \<in> set (cache_order C s) \<and> eq k (node_key I s b)"
    using assms find_some [of "node_key I s" "lru_hash s" k b] by (simp add: cinv_def cache_find_def)
  with a have "eq (node_key I s b) (node_key I s a)" using sym trans by blast
  then have "b = a" using assms a \<open>b \<in> _ \<and> _\<close> by (auto simp: cinv_def)
  with b show "cache_find C I s k = Some a" by simp
qed

lemma hash_node_key: "cinv I s \<Longrightarrow> cache_find C I s k = None \<Longrightarrow> a \<in> set (cache_order C s) \<Longrightarrow> \<not> eq k (node_key I s a)"
  by (metis find_iff option.distinct(1))

lemma values_remove:
  assumes "cinv I s" "a \<in> set (cache_order C s)" "eq k (node_key I s a)"
  shows "map (\<lambda>b. fst (heap s b)) (remove1 a (cache_order C s)) = filter (\<lambda>x. \<not> eq k (key_of I x)) (cache_values C s)"
proof -
  obtain xs ys where o: "cache_order C s = xs @ a # ys" "a \<notin> set xs" using assms(2) by (meson split_list_first)
  have "\<not> eq k (node_key I s b)" if "b \<in> set (xs @ ys)" for b
  proof
    assume "eq k (node_key I s b)"
    then have "eq (node_key I s a) (node_key I s b)" using assms(3) sym trans by blast
    then have "a = b" using assms(1) o that by (auto simp: cinv_def)
    then show False using that o assms(1) by (auto simp: cinv_def)
  qed
  then show ?thesis
    using o assms(3) by (auto simp: cache_values_def remove1_append node_key_def filter_map o_def filter_id_conv)
qed

lemma inv_store_new:
  assumes "cinv I s" "a \<notin> set (cache_order C s)" "\<And>b. b \<in> set (cache_order C s) \<Longrightarrow> \<not> eq (key_of I v) (node_key I s b)"
    "a < next_addr s" and s': "s' = store a v t s"
  shows "cinv I (s'\<lparr>lru_list := list_push_front C (lru_list s') a, lru_hash := hash_insert C (node_key I s') (lru_hash s') a\<rparr>)"
proof -
  let ?key = "(node_key I s)(a := key_of I v)" and ?h = "lru_hash s"
  have h: "hash_ok (node_key I s) ?h" "nodes ?h = set (cache_order C s)" using assms(1) by (simp_all add: cinv_def)
  have "eq (node_key I s b) (?key b)" "\<not> eq (?key a) (?key b)" if "b \<in> nodes ?h" for b
    using assms(2,3) that h(2) refl [of "node_key I s b"] by (cases "b = a"; simp)+
  then have "hash_ok ?key (hash_insert C ?key ?h a) \<and> nodes (hash_insert C ?key ?h a) = insert a (nodes ?h)"
    using assms(2) h by (intro insert_new ok_cong [OF h(1)]) simp_all
  moreover define f where "f = s'\<lparr>lru_list := list_push_front C (lru_list s') a, lru_hash := hash_insert C (node_key I s') (lru_hash s') a\<rparr>"
  have "cache_order C f = a # cache_order C s" by (simp add: f_def s')
  moreover have "lru_hash f = hash_insert C ?key ?h a" "next_addr f = next_addr s" "node_key I f = ?key"
    by (simp_all add: f_def s') (simp_all add: store_def)
  moreover have "\<forall>b \<in> set (cache_order C s). \<not> eq (key_of I v) (node_key I s b) \<and> \<not> eq (node_key I s b) (key_of I v)"
    using assms(3) sym by blast
  ultimately show ?thesis using assms(1,2,4) unfolding f_def [symmetric] cinv_def by auto
qed

lemma values_store:
  assumes "cache_order C s' = a # os" "a \<notin> set os" "heap s' = (heap s)(a := (v, t))"
  shows "cache_values C s' = v # map (\<lambda>b. fst (heap s b)) os"
  using assms by (auto simp: cache_values_def)

lemma inv_same_nodes:
  assumes "cinv I s" "set (cache_order C s') = set (cache_order C s)" "distinct (cache_order C s')"
    "lru_hash s' = lru_hash s" "next_addr s' = next_addr s" and same: "\<And>b. eq (node_key I s b) (node_key I s' b)"
  shows "cinv I s'"
proof -
  have "hash_ok (node_key I s') (lru_hash s)"
    by (rule ok_cong [OF _ same]) (use assms(1) in \<open>simp add: cinv_def\<close>)
  moreover have "b = c" if "b \<in> set (cache_order C s)" "c \<in> set (cache_order C s)" "eq (node_key I s' b) (node_key I s' c)" for b c
  proof -
    have "eq (node_key I s b) (node_key I s c)" using same [of b] same [of c] that(3) sym trans by blast
    then show ?thesis using assms(1) that(1,2) by (simp add: cinv_def)
  qed
  ultimately show ?thesis using assms(1-5) by (simp add: cinv_def)
qed

lemma push_update:
  assumes "cinv I s" "cache_find C I s (key_of I v) = Some a"
  shows "\<exists>s'. cache_push C I clk v s = Inr (s', False) \<and> cinv I s' \<and> max_size s' = max_size s
    \<and> cache_values C s' = v # filter (\<lambda>x. \<not> eq (key_of I v) (key_of I x)) (cache_values C s)"
proof -
  let ?o = "cache_order C s" and ?key = "(node_key I s)(a := key_of I v)"
  have a: "a \<in> set ?o" "eq (key_of I v) (node_key I s a)" using find_iff [OF assms(1)] assms(2) by blast+
  define s1 where "s1 = store a v (clk (ticks s)) (s\<lparr>lru_list := list_erase C (lru_list s) a\<rparr>)"
  define s' where "s' = s1\<lparr>lru_list := list_push_front C (lru_list s1) a\<rparr>"
  have push: "cache_push C I clk v s = Inr (s', False)"
    using assms(2) by (simp add: cache_push_def cache_find_def Let_def s1_def s'_def)
  have d: "distinct ?o" using assms(1) by (simp add: cinv_def)
  have o: "cache_order C s' = a # remove1 a ?o" by (simp add: s'_def s1_def)
  have fields: "lru_hash s' = lru_hash s" "next_addr s' = next_addr s" "node_key I s' = ?key" "max_size s' = max_size s"
      "heap s' = (heap s)(a := (v, clk (ticks s)))"
    by (simp_all add: s'_def s1_def) (simp_all add: store_def)
  have same: "eq (node_key I s b) (node_key I s' b)" for b
    using sym [OF a(2)] refl [of "node_key I s b"] by (cases "b = a") (simp_all add: fields(3))
  have ord: "set (cache_order C s') = set ?o" "distinct (cache_order C s')" unfolding o using a(1) d by auto
  have "cinv I s'" by (rule inv_same_nodes [OF assms(1) ord fields(1,2) same])
  moreover have "cache_values C s' = v # map (\<lambda>b. fst (heap s b)) (remove1 a ?o)"
    by (rule values_store [OF o _ fields(5)]) (simp add: d)
  ultimately show ?thesis using push fields(4) values_remove [OF assms(1) a] by simp
qed

lemma push_replace:
  assumes "cinv I s" "cache_find C I s (key_of I v) = None" "cache_order C s \<noteq> []" "cache_limits C I clk s = Inr True"
  shows "\<exists>s'. cache_push C I clk v s = Inr (s', True) \<and> cinv I s' \<and> max_size s' = max_size s
    \<and> cache_values C s' = v # butlast (cache_values C s)"
proof -
  let ?o = "cache_order C s"
  define a where "a = last ?o"
  have a: "a \<in> set ?o" "distinct ?o" "remove1 a ?o = butlast ?o"
    using assms(1,3) by (simp_all add: a_def cinv_def remove1_last)
  define s1 where "s1 = unlink C I a (s\<lparr>ticks := Suc (ticks s)\<rparr>)"
  define s2 where "s2 = store a v (clk (ticks s1)) s1"
  define s' where "s' = s2\<lparr>lru_list := list_push_front C (lru_list s2) a,
    lru_hash := hash_insert C (node_key I s2) (lru_hash s2) a\<rparr>"
  have push: "cache_push C I clk v s = Inr (s', True)"
    using assms(2-4) by (simp add: cache_push_def cache_find_def cache_empty_def Let_def s1_def s2_def s'_def a_def)
  have "cinv I (s\<lparr>ticks := Suc (ticks s)\<rparr>)" using assms(1) by (simp add: cinv_def)
  then have inv1: "cinv I s1" unfolding s1_def by (rule inv_unlink) (simp add: a)
  have o1: "cache_order C s1 = butlast ?o" using a(3) by (simp add: s1_def)
  have fresh: "a \<notin> set (butlast ?o)" using a(2,3) by (metis set_remove1_eq DiffE singletonI)
  have "a < next_addr s1" using assms(1) a(1) by (simp add: s1_def unlink_def cinv_def)
  then have "cinv I s'"
    unfolding s'_def using inv1 fresh o1 hash_node_key [OF assms(1,2)]
    by (intro inv_store_new [OF _ _ _ _ s2_def]) (auto simp: s1_def dest: in_set_butlastD)
  moreover have "cache_values C s' = v # map (\<lambda>b. fst (heap s b)) (butlast ?o)"
    by (rule values_store [OF _ fresh]) (simp_all add: s'_def s2_def o1, simp add: store_def s1_def unlink_def)
  moreover have "max_size s' = max_size s" by (simp add: s'_def s2_def s1_def store_def unlink_def)
  ultimately show ?thesis using push by (simp add: cache_values_def map_butlast)
qed

lemma push_new:
  assumes "cinv I s" "cache_find C I s (key_of I v) = None"
    "cache_order C s = [] \<or> cache_limits C I clk s = Inr False"
  shows "\<exists>s'. cache_push C I clk v s = Inr (s', True) \<and> cinv I s' \<and> max_size s' = max_size s
    \<and> cache_values C s' = v # cache_values C s"
proof -
  let ?o = "cache_order C s"
  define a where "a = next_addr s"
  define s1 where "s1 = s\<lparr>ticks := Suc (ticks s), next_addr := Suc a\<rparr>"
  define s2 where "s2 = store a v (clk (ticks s1)) s1"
  define s3 where "s3 = s2\<lparr>lru_list := list_push_front C (lru_list s2) a,
    lru_hash := hash_insert C (node_key I s2) (lru_hash s2) a\<rparr>"
  have push: "cache_push C I clk v s = Inr (auto_rehash C s3, True)"
    using assms(2,3)
    by (auto simp: cache_push_def cache_find_def cache_empty_def Let_def s1_def s2_def s3_def a_def link_swap)
  have fresh: "a \<notin> set ?o" using assms(1) by (auto simp: a_def cinv_def)
  have "cinv I s1" using assms(1) by (auto simp: s1_def a_def cinv_def)
  then have "cinv I s3"
    unfolding s3_def using fresh hash_node_key [OF assms(1,2)]
    by (intro inv_store_new [OF _ _ _ _ s2_def]) (auto simp: s1_def)
  then have "cinv I (auto_rehash C s3)" by (rule inv_auto_rehash)
  moreover have "cache_values C (auto_rehash C s3) = v # map (\<lambda>b. fst (heap s b)) ?o"
    by (rule values_store [OF _ fresh]) (simp_all add: s3_def s2_def s1_def, simp add: store_def)
  moreover have "max_size (auto_rehash C s3) = max_size s" by (simp add: s3_def s2_def s1_def store_def)
  ultimately show ?thesis using push by (simp add: cache_values_def)
qed

lemma length_values: "length (cache_values C s) = cache_size C s"
  by (simp add: cache_values_def cache_size_def)

lemma values_find: "cinv I s \<Longrightarrow> (\<exists>x \<in> set (cache_values C s). eq k (key_of I x)) \<longleftrightarrow> cache_find C I s k \<noteq> None"
  using find_iff [of I s k] by (auto simp: cache_values_def node_key_def)

lemma push_refines:
  assumes "cinv I s" "cache_order C s \<noteq> [] \<Longrightarrow> cache_limits C I clk s = Inr full"
  shows "\<exists>s' b. cache_push C I clk v s = Inr (s', b) \<and> cinv I s' \<and> max_size s' = max_size s
    \<and> (cache_values C s', b) = push_spec eq (key_of I) full v (cache_values C s)"
proof (cases "cache_find C I s (key_of I v)")
  case (Some a)
  then show ?thesis
    using push_update [OF assms(1) Some, of clk] values_find [OF assms(1), of "key_of I v"] by (auto simp: push_spec_def)
next
  case None
  have new: "\<not> (\<exists>x \<in> set (cache_values C s). eq (key_of I v) (key_of I x))" using None values_find [OF assms(1)] by simp
  have nil: "cache_values C s = [] \<longleftrightarrow> cache_order C s = []" by (simp add: cache_values_def)
  show ?thesis
  proof (cases "cache_order C s \<noteq> [] \<and> full")
    case True
    then show ?thesis using push_replace [OF assms(1) None, of clk] new nil assms(2) by (auto simp: push_spec_def)
  next
    case False
    then have "cache_order C s = [] \<or> cache_limits C I clk s = Inr False" using assms(2) by (cases "cache_order C s = []") auto
    then show ?thesis using push_new [OF assms(1) None, of clk] new nil False by (auto simp: push_spec_def)
  qed
qed

lemma values_unlink_last:
  assumes "cinv I s" "cache_order C s \<noteq> []"
  shows "cache_values C (unlink C I (last (cache_order C s)) s) = butlast (cache_values C s)"
  using assms by (simp add: cache_values_def remove1_last cinv_def map_butlast) (simp add: unlink_def)

lemma shrink_loop_result:
  assumes "is_limits I = lru_is_limits"
  shows "cinv I s \<Longrightarrow> cache_size C s < fuel \<Longrightarrow>
    \<exists>s'. shrink_loop fuel C I clk s = Some (Inr s') \<and> cinv I s' \<and> max_size s' = max_size s
      \<and> cache_values C s' = take (max_size s) (cache_values C s)"
proof (induction fuel arbitrary: s)
  case (Suc fuel)
  have lim: "cache_limits C I clk s = Inr (max_size s < cache_size C s)" by (simp add: cache_limits_def assms lru_is_limits_def)
  show ?case
  proof (cases "max_size s < cache_size C s")
    case False
    then show ?thesis using Suc.prems lim by (simp add: cache_empty_def length_values)
  next
    case True
    let ?s0 = "s\<lparr>ticks := Suc (ticks s)\<rparr>" and ?a = "last (cache_order C s)"
    have ne: "cache_order C s \<noteq> []" using True by (auto simp: cache_size_def)
    have inv0: "cinv I ?s0" using Suc.prems by (simp add: cinv_def)
    then have inv1: "cinv I (unlink C I ?a ?s0)" using ne by (intro inv_unlink) simp_all
    have vals: "cache_values C (unlink C I ?a ?s0) = butlast (cache_values C s)"
      using values_unlink_last [OF inv0] ne by (simp add: cache_values_def)
    then have "cache_size C (unlink C I ?a ?s0) < fuel" using Suc.prems(2) ne
      by (simp flip: length_values) (simp add: cache_values_def less_diff_conv2 Suc_leI)
    from Suc.IH [OF inv1 this] vals lim True ne show ?thesis
      by (auto simp: cache_empty_def unlink_def take_butlast length_values)
  qed
qed simp

lemma shrink_result:
  assumes "is_limits I = lru_is_limits" "cinv I s"
  shows "\<exists>s'. shrink_to_fit C I clk s = Some (Inr s') \<and> cinv I s' \<and> max_size s' = max_size s
    \<and> cache_values C s' = take (max_size s) (cache_values C s)"
proof -
  obtain s' where s': "shrink_loop (Suc (cache_size C s)) C I clk s = Some (Inr s')" "cinv I s'"
      "max_size s' = max_size s" "cache_values C s' = take (max_size s) (cache_values C s)"
    using shrink_loop_result [OF assms] by blast
  have "cache_values C (auto_rehash C s') = cache_values C s'" by (simp add: cache_values_def)
  then show ?thesis using s' inv_auto_rehash by (auto simp: shrink_to_fit_def)
qed

lemma erase_all:
  "cinv I s \<Longrightarrow> cache_size C s < fuel \<Longrightarrow>
   \<exists>s'. erase_range_loop fuel C I (cache_begin C s) None s = Some (Inr s') \<and> cinv I s' \<and> cache_values C s' = []
     \<and> max_size s' = max_size s"
proof (induction fuel arbitrary: s)
  case (Suc fuel)
  show ?case
  proof (cases "cache_order C s")
    case Nil
    then show ?thesis using Suc.prems by (simp add: cache_begin_def cache_values_def)
  next
    case (Cons a os)
    have inv1: "cinv I (unlink C I a s)" using Suc.prems Cons by (intro inv_unlink) simp_all
    have o: "cache_order C (unlink C I a s) = os" using Cons by simp
    have "cache_begin C (unlink C I a s) = next_in (cache_order C s) a" using Cons o by (simp add: cache_begin_def)
    moreover have "cache_size C (unlink C I a s) < fuel" using Suc.prems(2) Cons o by (simp add: cache_size_def)
    moreover have "max_size (unlink C I a s) = max_size s" by (simp add: unlink_def)
    ultimately show ?thesis using Suc.IH [OF inv1] Cons by (simp add: cache_begin_def)
  qed
qed simp

lemma push_all_fresh:
  assumes "is_limits I = lru_is_limits"
  shows "cinv I s \<Longrightarrow> length (vs @ cache_values C s) \<le> max_size s \<Longrightarrow>
    sm_unique eq (map (\<lambda>x. (key_of I x, x)) (vs @ cache_values C s)) \<Longrightarrow>
    \<exists>s'. push_all C I clk vs s = Inr s' \<and> cinv I s' \<and> max_size s' = max_size s
      \<and> cache_values C s' = rev vs @ cache_values C s"
proof (induction vs arbitrary: s)
  case (Cons v vs)
  let ?f = "map (\<lambda>x. (key_of I x, x))"
  have "sm_unique eq ((key_of I v, v) # ?f (vs @ cache_values C s))" using Cons.prems(3) by simp
  then have u: "sm_unique eq (?f vs @ ?f (cache_values C s))"
      "\<forall>x \<in> set vs \<union> set (cache_values C s). \<not> eq (key_of I v) (key_of I x)"
    by (simp_all add: ball_Un)
  have "cache_limits C I clk s = Inr False"
    using Cons.prems(2) by (simp add: cache_limits_def assms lru_is_limits_def length_values)
  then obtain s1 b where s1: "cache_push C I clk v s = Inr (s1, b)" "cinv I s1" "max_size s1 = max_size s"
      "(cache_values C s1, b) = push_spec eq (key_of I) False v (cache_values C s)"
    using push_refines [OF Cons.prems(1), of clk False v] by blast
  moreover have "\<not> (\<exists>x \<in> set (cache_values C s). eq (key_of I v) (key_of I x))" using u(2) by blast
  ultimately have vals: "cache_values C s1 = v # cache_values C s" by (simp add: push_spec_def)
  have "\<forall>x \<in> set vs. \<not> eq (key_of I x) (key_of I v)" using u(2) sym by blast
  then have "sm_unique eq (?f (vs @ cache_values C s1))"
    unfolding vals using sm_unique_middle [of eq "?f vs" "?f (cache_values C s)" "(key_of I v, v)"] u by simp
  then show ?case using Cons.IH [OF s1(2)] Cons.prems(2) s1 vals by auto
qed simp

end

section \<open>A reference implementation of the containers\<close>

text \<open>Lists of nodes with a linear search have the documented behaviour.\<close>

definition list_containers :: "('k \<Rightarrow> 'k \<Rightarrow> bool) \<Rightarrow> (nat list, nat list \<times> nat, 'k) containers" where
  "list_containers eq =
     \<lparr>order = id, list_new = [], list_erase = (\<lambda>l a. remove1 a l), list_push_front = (\<lambda>l a. a # l),
      hash_new = (\<lambda>n. ([], n)), hash_find = (\<lambda>key h k. List.find (\<lambda>a. eq k (key a)) (fst h)),
      hash_insert = (\<lambda>key h a. (a # fst h, snd h)), hash_erase = (\<lambda>key h a. (removeAll a (fst h), snd h)),
      hash_rehash = (\<lambda>h n. (fst h, n)), bucket_count = snd\<rparr>"

lemma list_containers_laws:
  assumes "key_equivalence eq"
  shows "intrusive_containers eq (list_containers eq) (\<lambda>h. set (fst h)) (\<lambda>_ _. True)"
  by (intro intrusive_containers.intro intrusive_containers_axioms.intro assms)
    (auto simp: list_containers_def find_none find_Some_iff)

interpretation std_lru: intrusive_containers "(=)" "list_containers (=)" "\<lambda>h. set (fst h)" "\<lambda>_ _. True"
  by (rule list_containers_laws [OF std_equal_to.key_equivalence_axioms])

text \<open>The instance of the examples below, with natural numbers for keys.\<close>

abbreviation nat_containers :: "(nat list, nat list \<times> nat, nat) containers" where
  "nat_containers \<equiv> list_containers (=)"

section \<open>The containers\<close>

text \<open>
  (C1) \<open>push\<close> of the map and the set without a clock implements its specification and keeps
  list and hash set consistent: an equal key is replaced and moved to the front, otherwise the
  value comes to the front and, when there are more than \<open>max_size\<close> elements, the least recently
  used one goes. As the test is made before the insertion, the container settles at
  \<open>max_size + 1\<close> elements.
\<close>

theorem lru_push_correct:
  assumes "intrusive_containers eq C nodes hash_ok" "is_limits I = lru_is_limits" "cache_inv C eq nodes hash_ok I s"
  shows "\<exists>s' b. cache_push C I clk v s = Inr (s', b) \<and> cache_inv C eq nodes hash_ok I s' \<and> max_size s' = max_size s
    \<and> (cache_values C s', b) = push_spec eq (key_of I) (max_size s < cache_size C s) v (cache_values C s)
    \<and> cache_size C s' \<le> max (cache_size C s) (Suc (max_size s))
    \<and> (b \<and> cache_size C s \<le> max_size s \<longrightarrow> cache_size C s' = Suc (cache_size C s))"
proof -
  have "cache_limits C I clk s = Inr (max_size s < cache_size C s)"
    by (simp add: cache_limits_def assms(2) lru_is_limits_def)
  then obtain s' b where s': "cache_push C I clk v s = Inr (s', b)" "cache_inv C eq nodes hash_ok I s'" "max_size s' = max_size s"
      "(cache_values C s', b) = push_spec eq (key_of I) (max_size s < cache_size C s) v (cache_values C s)"
    using intrusive_containers.push_refines [OF assms(1,3), of clk _ v] by blast
  let ?vs = "cache_values C s"
  have len: "length ?vs = cache_size C s" "length (cache_values C s') = cache_size C s'"
    by (simp_all add: cache_values_def cache_size_def)
  have "cache_size C s' \<le> max (cache_size C s) (Suc (max_size s))
    \<and> (b \<and> cache_size C s \<le> max_size s \<longrightarrow> cache_size C s' = Suc (cache_size C s))"
  proof (cases "\<exists>x \<in> set ?vs. eq (key_of I v) (key_of I x)")
    case True
    then have "length (filter (\<lambda>x. \<not> eq (key_of I v) (key_of I x)) ?vs) < length ?vs"
      by (auto intro!: length_filter_less)
    then show ?thesis using True s'(4) len by (auto simp: push_spec_def)
  next
    case False
    then show ?thesis using s'(4) len by (auto simp: push_spec_def split: if_splits)
  qed
  with s' show ?thesis by blast
qed

theorem lru_push_correct_witness:
  "let s = cache_new nat_containers 32 (0, 0)\<lparr>max_size := 1\<rparr>
   in \<exists>s' b. cache_push nat_containers lru_set_impl (\<lambda>_. 0) (7 :: nat) s = Inr (s', b)
     \<and> cache_values nat_containers s' = [7]"
proof -
  let ?s = "cache_new nat_containers 32 (0 :: nat, 0)\<lparr>max_size := 1\<rparr>"
  have v: "cache_values nat_containers ?s = []"
    by (simp add: cache_values_def cache_order_def cache_new_def list_containers_def)
  have "cache_inv nat_containers (=) (\<lambda>h. set (fst h)) (\<lambda>_ _. True) lru_set_impl ?s"
    by (simp add: cache_inv_def cache_order_def cache_new_def list_containers_def)
  from lru_push_correct [OF std_lru.intrusive_containers_axioms _ this, of "\<lambda>_. 0" 7] v
  show ?thesis by (auto simp: lru_set_impl_def push_spec_def Let_def)
qed

text \<open>
  (C7) \<open>max_size(n)\<close> and \<open>shrink_to_fit\<close> end and leave the \<open>n\<close> most recently used elements
  in their order; \<open>clear\<close> ends and leaves none.
\<close>

theorem lru_shrink_correct:
  assumes "intrusive_containers eq C nodes hash_ok" "is_limits I = lru_is_limits" "cache_inv C eq nodes hash_ok I s"
  shows "(\<exists>s'. lru_max_size C I clk n s = Some (Inr s') \<and> cache_inv C eq nodes hash_ok I s' \<and> max_size s' = n
      \<and> cache_values C s' = take n (cache_values C s))
    \<and> (\<exists>s'. cache_clear C I s = Some (Inr s') \<and> cache_inv C eq nodes hash_ok I s' \<and> cache_values C s' = [])"
proof
  let ?s = "s\<lparr>max_size := n\<rparr>"
  have "cache_order C ?s = cache_order C s" "node_key I ?s = node_key I s"
    by (simp_all add: cache_order_def node_key_def fun_eq_iff)
  then have "cache_inv C eq nodes hash_ok I ?s" "cache_values C ?s = cache_values C s"
    using assms(3) by (simp_all add: cache_inv_def cache_values_def)
  then show "\<exists>s'. lru_max_size C I clk n s = Some (Inr s') \<and> cache_inv C eq nodes hash_ok I s' \<and> max_size s' = n
      \<and> cache_values C s' = take n (cache_values C s)"
    using intrusive_containers.shrink_result [OF assms(1,2), of ?s clk] by (simp add: lru_max_size_def)
  show "\<exists>s'. cache_clear C I s = Some (Inr s') \<and> cache_inv C eq nodes hash_ok I s' \<and> cache_values C s' = []"
    using intrusive_containers.erase_all [OF assms(1,3), of "Suc (cache_size C s)"] unfolding cache_clear_def by blast
qed

theorem lru_shrink_correct_witness:
  "\<exists>s'. cache_clear nat_containers lru_set_impl (cache_new nat_containers 32 (0 :: nat, 0)) = Some (Inr s')
     \<and> cache_values nat_containers s' = []"
  using lru_shrink_correct [OF std_lru.intrusive_containers_axioms _ std_lru.inv_new [of lru_set_impl 32 "(0 :: nat, 0)"],
      of "\<lambda>_. 0" 0]
  by (auto simp: lru_set_impl_def)

text \<open>
  \<open>find\<close> returns the node with an equal key, if there is one, and leaves the order of
  use alone; \<open>erase(key)\<close> removes this element and no other.
\<close>

theorem lru_find_erase:
  assumes "intrusive_containers eq C nodes hash_ok" "cache_inv C eq nodes hash_ok I s"
  shows "(\<forall>a. cache_find C I s k = Some a \<longleftrightarrow> a \<in> set (cache_order C s) \<and> eq k (node_key I s a))
    \<and> cache_inv C eq nodes hash_ok I (fst (cache_erase_key C I k s))
    \<and> cache_values C (fst (cache_erase_key C I k s)) = filter (\<lambda>x. \<not> eq k (key_of I x)) (cache_values C s)"
proof (intro conjI allI)
  note find = intrusive_containers.find_iff [OF assms]
  show "cache_find C I s k = Some a \<longleftrightarrow> a \<in> set (cache_order C s) \<and> eq k (node_key I s a)" for a by (rule find)
  show "cache_inv C eq nodes hash_ok I (fst (cache_erase_key C I k s))"
  proof (cases "cache_find C I s k")
    case (Some a)
    then have "a \<in> set (cache_order C s)" using find by blast
    then show ?thesis
      using Some intrusive_containers.inv_unlink [OF assms, of a] by (simp add: cache_erase_key_def cache_erase_def)
  qed (simp add: cache_erase_key_def cache_erase_def assms(2))
  show "cache_values C (fst (cache_erase_key C I k s)) = filter (\<lambda>x. \<not> eq k (key_of I x)) (cache_values C s)"
  proof (cases "cache_find C I s k")
    case None
    then have "\<not> (\<exists>x \<in> set (cache_values C s). eq k (key_of I x))"
      using intrusive_containers.values_find [OF assms] by simp
    then show ?thesis using None by (simp add: cache_erase_key_def cache_erase_def filter_id_conv)
  next
    case (Some a)
    have "cache_values C (unlink C I a s) = map (\<lambda>b. fst (heap s b)) (remove1 a (cache_order C s))"
      by (simp add: cache_values_def intrusive_containers.order_simps [OF assms(1)]) (simp add: unlink_def)
    moreover have "a \<in> set (cache_order C s)" "eq k (node_key I s a)" using Some find by blast+
    ultimately show ?thesis
      using Some intrusive_containers.values_remove [OF assms, of a k] by (simp add: cache_erase_key_def cache_erase_def)
  qed
qed

theorem lru_find_erase_witness:
  "cache_values nat_containers (fst (cache_erase_key nat_containers lru_set_impl (5 :: nat)
     (cache_new nat_containers 32 (0, 0)))) = []"
  using lru_find_erase [OF std_lru.intrusive_containers_axioms std_lru.inv_new [of lru_set_impl 32 "(0 :: nat, 0)"], of 5]
  by (simp add: cache_values_def cache_new_def cache_order_def list_containers_def)

text \<open>
  A copy has the same elements in the reverse order of use and the default \<open>max_size\<close>: the
  copy constructor pushes the elements from the most to the least recently used one and does
  not copy the implementation part.
\<close>

theorem lru_copy_reverses:
  assumes "intrusive_containers eq C nodes hash_ok" "is_limits I = lru_is_limits" "cache_inv C eq nodes hash_ok I rhs"
    "cache_size C rhs \<le> size_max"
  shows "\<exists>s'. cache_copy C I clk junk rhs = Inr s' \<and> cache_inv C eq nodes hash_ok I s'
    \<and> cache_values C s' = rev (cache_values C rhs) \<and> max_size s' = size_max"
proof -
  let ?new = "cache_new C (bucket_count C (lru_hash rhs)) junk"
  have new: "cache_values C ?new = []" "max_size ?new = size_max"
    by (simp_all add: cache_values_def cache_new_def cache_order_def intrusive_containers.order_new [OF assms(1)])
  have "sm_unique eq (map (\<lambda>a. (node_key I rhs a, fst (heap rhs a))) os)"
    if "set os \<subseteq> set (cache_order C rhs)" "distinct os" for os
    using that
  proof (induction os)
    case (Cons a os)
    have "\<not> eq (node_key I rhs a) (node_key I rhs b)" if "b \<in> set os" for b
      using assms(3) Cons.prems that unfolding cache_inv_def by (metis distinct.simps(2) list.set_intros subsetD)
    then show ?case using Cons by auto
  qed simp
  then have "sm_unique eq (map (\<lambda>x. (key_of I x, x)) (cache_values C rhs))"
    using assms(3) by (simp add: cache_values_def node_key_def o_def cache_inv_def)
  then have "sm_unique eq (map (\<lambda>x. (key_of I x, x)) (cache_values C rhs @ cache_values C ?new))"
    by (simp add: new(1))
  then show ?thesis
    using intrusive_containers.push_all_fresh [OF assms(1,2) intrusive_containers.inv_new [OF assms(1)],
        of "cache_values C rhs" "bucket_count C (lru_hash rhs)" junk clk] new assms(4)
    by (auto simp: cache_copy_def intrusive_containers.length_values [OF assms(1)])
qed

theorem lru_copy_reverses_witness:
  "\<exists>s'. cache_copy nat_containers lru_set_impl (\<lambda>_. 0) (0 :: nat, 0) (cache_new nat_containers 32 (0, 0)\<lparr>max_size := 3\<rparr>)
     = Inr s' \<and> max_size s' = size_max"
proof -
  let ?s = "cache_new nat_containers 32 (0 :: nat, 0)\<lparr>max_size := 3\<rparr>"
  have "cache_inv nat_containers (=) (\<lambda>h. set (fst h)) (\<lambda>_ _. True) lru_set_impl ?s"
    "cache_size nat_containers ?s \<le> size_max"
    by (simp_all add: cache_inv_def cache_order_def cache_new_def list_containers_def cache_size_def)
  from lru_copy_reverses [OF std_lru.intrusive_containers_axioms _ this, of "\<lambda>_. 0" "(0, 0)"]
  show ?thesis by (auto simp: lru_set_impl_def)
qed

text \<open>
  The expiry of the timed containers. \<open>timed_lru_set\<close> never looks at its \<open>min_expire_\<close>.
  In \<open>timed_lru_map\<close> a positive \<open>min_expire_\<close> protects nothing, since the time of storing is
  compared with a time in the future: an over-full map evicts as the untimed one does; and with the default
  \<open>min_expire_\<close> the comparison overflows as soon as the clock is past its epoch, so that \<open>push\<close> of a
  new key into a map with more than \<open>max_size\<close> elements is undefined.
\<close>

theorem timed_lru_expiry:
  "timed_lru_set_is_limits mx me n t now = timed_lru_set_is_limits mx me' n t now
   \<and> (t \<le> now \<and> 0 < me \<and> now + me < 2 ^ 63 \<longrightarrow> timed_lru_map_is_limits mx me n t now = lru_is_limits mx me n t now)
   \<and> (hash_find C (node_key timed_lru_map_impl s) (lru_hash s) (fst v) = None
        \<and> cache_order C s \<noteq> [] \<and> max_size s < cache_size C s \<and> min_expire s = duration_max \<and> 0 < clk (ticks s)
      \<longrightarrow> cache_push C timed_lru_map_impl clk v s = Inl Signed_Overflow)"
proof (intro conjI impI)
  assume a: "hash_find C (node_key timed_lru_map_impl s) (lru_hash s) (fst v) = None
        \<and> cache_order C s \<noteq> [] \<and> max_size s < cache_size C s \<and> min_expire s = duration_max \<and> 0 < clk (ticks s)"
  then have "cache_limits C timed_lru_map_impl clk s = Inl Signed_Overflow"
    by (simp add: cache_limits_def timed_lru_map_impl_def timed_lru_map_is_limits_def duration_max_def)
  with a show "cache_push C timed_lru_map_impl clk v s = Inl Signed_Overflow"
    by (simp add: cache_push_def cache_empty_def timed_lru_map_impl_def)
qed (auto simp: timed_lru_set_is_limits_def timed_lru_map_is_limits_def lru_is_limits_def)

theorem timed_lru_expiry_witness:
  "timed_lru_map_is_limits 3 60 4 100 100 = lru_is_limits 3 60 4 100 100
   \<and> (let s = \<lparr>heap = \<lambda>_. ((5 :: nat, 5 :: nat), 90), next_addr = 1, lru_list = [0], lru_hash = ([0], 32), max_size = 0,
              min_expire = duration_max, ticks = 0\<rparr>
      in cache_push nat_containers timed_lru_map_impl (\<lambda>_. 100) (7, 7) s = Inl Signed_Overflow)"
proof -
  let ?s = "\<lparr>heap = \<lambda>_. ((5 :: nat, 5 :: nat), 90), next_addr = 1, lru_list = [0], lru_hash = ([0 :: nat], 32), max_size = 0,
              min_expire = duration_max, ticks = 0\<rparr>"
  have "hash_find nat_containers (node_key timed_lru_map_impl ?s) (lru_hash ?s) (fst (7, 7)) = None
      \<and> cache_order nat_containers ?s \<noteq> [] \<and> max_size ?s < cache_size nat_containers ?s \<and> min_expire ?s = duration_max"
    by (simp add: list_containers_def node_key_def timed_lru_map_impl_def cache_order_def cache_size_def)
  then have "cache_push nat_containers timed_lru_map_impl (\<lambda>_. 100) (7, 7) ?s = Inl Signed_Overflow"
    using conjunct2 [OF conjunct2 [OF timed_lru_expiry [of 3 60 4 100 100 60 nat_containers ?s "(7, 7)" "\<lambda>_. 100"]]]
    by (metis zero_less_numeral)
  moreover have "timed_lru_map_is_limits 3 60 4 100 100 = lru_is_limits 3 60 4 100 100"
    using conjunct1 [OF conjunct2 [OF timed_lru_expiry [of 3 60 4 100 100]]] by simp
  ultimately show ?thesis by (simp add: Let_def)
qed

end
