(* ===== verification/Ctype.thy ===== *)
theory Ctype
  imports Acqua_Prelude
begin

text \<open>
  The character classes of \<^verbatim>\<open><cctype>\<close> and \<^verbatim>\<open><locale>\<close> in the classic locale, as
  the parsers use them: no byte from 128 on belongs to a class.
\<close>

definition isdigit :: "byte \<Rightarrow> bool" where
  "isdigit ch \<longleftrightarrow> 48 \<le> ch \<and> ch \<le> 57"

definition isxdigit :: "byte \<Rightarrow> bool" where
  "isxdigit ch \<longleftrightarrow> isdigit ch \<or> (65 \<le> ch \<and> ch \<le> 70) \<or> (97 \<le> ch \<and> ch \<le> 102)"

definition isalpha :: "byte \<Rightarrow> bool" where
  "isalpha ch \<longleftrightarrow> (65 \<le> ch \<and> ch \<le> 90) \<or> (97 \<le> ch \<and> ch \<le> 122)"

definition isalnum :: "byte \<Rightarrow> bool" where
  "isalnum ch \<longleftrightarrow> isalpha ch \<or> isdigit ch"

definition isprint :: "byte \<Rightarrow> bool" where
  "isprint ch \<longleftrightarrow> 32 \<le> ch \<and> ch \<le> 126"

definition isgraph :: "byte \<Rightarrow> bool" where
  "isgraph ch \<longleftrightarrow> 33 \<le> ch \<and> ch \<le> 126"

definition isspace :: "byte \<Rightarrow> bool" where
  "isspace ch \<longleftrightarrow> ch = 32 \<or> (9 \<le> ch \<and> ch \<le> 13)"

definition ascii_tolower :: "byte \<Rightarrow> byte" where
  "ascii_tolower ch = (if 65 \<le> ch \<and> ch \<le> 90 then ch + 32 else ch)"

lemmas ctype_defs = isdigit_def isxdigit_def isalpha_def isalnum_def isprint_def isgraph_def isspace_def

text \<open>Hexadecimal digits, as \<open>strtol(\<dots>, 16)\<close> reads them.\<close>

definition xdigit_value :: "byte \<Rightarrow> nat" where
  "xdigit_value ch = (if isdigit ch then unat ch - 48 else if ch \<le> 70 then unat ch - 55 else unat ch - 87)"

definition hex_upper :: "byte \<Rightarrow> byte" where
  "hex_upper n = (if n < 10 then n + 48 else n + 65 - 10)"

text \<open>The decimal text of a natural number.\<close>

fun dec_text :: "nat \<Rightarrow> byte list" where
  "dec_text n = (if n < 10 then [word_of_nat (48 + n)] else dec_text (n div 10) @ [word_of_nat (48 + n mod 10)])"

declare dec_text.simps [simp del]

text \<open>A nibble is one of sixteen bytes.\<close>

lemma nibble_in: "n AND 0xF \<in> set (map word_of_nat [0..<16] :: byte list)"
proof -
  have m: "n AND 0xF = take_bit 4 n" by (simp add: take_bit_eq_mask mask_eq_exp_minus_1)
  have "unat (n AND 0xF) < 16" unfolding m unsigned_take_bit_eq using take_bit_nat_less_exp [of 4 "unat n"] by simp
  then have "unat (n AND 0xF) \<in> set [0..<16]" by (simp del: upt_rec_numeral)
  moreover have "n AND 0xF = word_of_nat (unat (n AND 0xF))" by simp
  ultimately show ?thesis unfolding set_map by (rule image_eqI [rotated])
qed

lemma nibbles_join: "push_bit 4 (drop_bit 4 c AND 0xF) OR (c AND 0xF) = (c :: byte)"
proof -
  have m: "(0xF :: byte) = mask 4" by (simp add: mask_eq_exp_minus_1)
  show ?thesis unfolding m by (rule byte_eqI; simp add: bit_simps)
qed

lemma nibbles_sum: "16 * (drop_bit 4 c AND 0xF) + (c AND 0xF) = (c :: byte)"
proof -
  have "bit (push_bit 4 (drop_bit 4 c AND 0xF)) n \<Longrightarrow> bit (c AND 0xF) n \<Longrightarrow> False" for n
  proof -
    have m: "(0xF :: byte) = mask 4" by (simp add: mask_eq_exp_minus_1)
    show "bit (push_bit 4 (drop_bit 4 c AND 0xF)) n \<Longrightarrow> bit (c AND 0xF) n \<Longrightarrow> False" unfolding m by (simp add: bit_simps)
  qed
  then have "push_bit 4 (drop_bit 4 c AND 0xF) + (c AND 0xF) = push_bit 4 (drop_bit 4 c AND 0xF) OR (c AND 0xF)"
    by (intro disjunctive_add) blast
  then show ?thesis using nibbles_join [of c] by (simp add: push_bit_eq_mult mult.commute)
qed

end
