(* ===== verification/Json_Parser.thy ===== *)
theory Json_Parser
  imports Ctype
begin

text \<open>
  The incremental JSON parser (\<^verbatim>\<open>iostreams/json_parser.ipp\<close>) over \<open>char\<close>, with the adaptor for a
  property tree (\<^verbatim>\<open>iostreams/json_adapt_boost_ptree.hpp\<close>). The parser is a tree of variants: the
  parser of an array or of an object owns the parser of its current element, and every parser
  writes to the node of the property tree that it has a reference to. The current element is always
  the last child of its parent's node, so the reference is modelled by passing this child down and
  putting it back.

  A character that the current parser does not take ends a number or a literal and is given to the
  enclosing parser again: this is the result \<open>False\<close>. A signed overflow of the accumulators, which
  is undefined in C++, is the error \<open>Overflow\<close>. What the parser uses of other libraries is the
  parameter \<open>utf\<close>: the bytes that Boost.Locale makes of a UTF-16 unit, and the text that \<open>std::to_string\<close> gives for a
  \<open>double\<close>, by the operands that the \<open>double\<close> was computed from.
\<close>

datatype json_error = Syntax_Error | Overflow

section \<open>Data\<close>

text \<open>
  What is passed to \<open>Adapt::data\<close>. A \<open>double\<close> is kept as the operands of its division \<open>D_ratio\<close>, or
  of its product and division \<open>D_scaled\<close>.
\<close>

datatype json_data =
  D_null | D_bool bool | D_long int | D_ratio int int | D_scaled int int int | D_string "byte list"

record json_lib =
  jl_utf16 :: "16 word \<Rightarrow> byte list"
  jl_ratio :: "int \<Rightarrow> int \<Rightarrow> byte list"
  jl_scaled :: "int \<Rightarrow> int \<Rightarrow> int \<Rightarrow> byte list"

text \<open>The property tree: the data of a node is a text. A node without data has the empty one.\<close>

datatype ptree = PT (pt_data: "byte list") (pt_children: "(byte list \<times> ptree) list")

definition pt_empty :: ptree where
  "pt_empty = PT [] []"

text \<open>\<open>std::to_string(long)\<close>.\<close>

definition long_text :: "int \<Rightarrow> byte list" where
  "long_text n = (if n < 0 then 45 # dec_text (nat (- n)) else dec_text (nat n))"

text \<open>The overloads of \<open>data\<close>.\<close>

definition adapt_text :: "json_lib \<Rightarrow> json_data \<Rightarrow> byte list" where
  "adapt_text utf d =
     (case d of
        D_null \<Rightarrow> [110, 117, 108, 108]
      | D_bool flag \<Rightarrow> (if flag then [116, 114, 117, 101] else [102, 97, 108, 115, 101])
      | D_long n \<Rightarrow> long_text n
      | D_ratio n m \<Rightarrow> jl_ratio utf n m
      | D_scaled n k m \<Rightarrow> jl_scaled utf n k m
      | D_string str \<Rightarrow> str)"

definition adapt_data :: "json_lib \<Rightarrow> json_data \<Rightarrow> ptree \<Rightarrow> ptree" where
  "adapt_data utf d t = PT (adapt_text utf d) (pt_children t)"

text \<open>\<open>add_child\<close>: with an empty key for an element of an array.\<close>

definition add_child :: "byte list \<Rightarrow> ptree \<Rightarrow> ptree" where
  "add_child key t = PT (pt_data t) (pt_children t @ [(key, pt_empty)])"

definition last_child :: "ptree \<Rightarrow> ptree" where
  "last_child t = (if pt_children t = [] then pt_empty else snd (last (pt_children t)))"

definition set_last_child :: "ptree \<Rightarrow> ptree \<Rightarrow> ptree" where
  "set_last_child c t =
     (if pt_children t = [] then t else PT (pt_data t) (butlast (pt_children t) @ [(fst (last (pt_children t)), c)]))"

section \<open>Literals\<close>

datatype literal = l_null | l_true | l_false

definition literal_c_str :: "literal \<Rightarrow> byte list" where
  "literal_c_str l = (case l of l_null \<Rightarrow> [110, 117, 108, 108] | l_true \<Rightarrow> [116, 114, 117, 101] | l_false \<Rightarrow> [102, 97, 108, 115, 101])"

definition literal_data :: "literal \<Rightarrow> json_data" where
  "literal_data l = (case l of l_null \<Rightarrow> D_null | l_true \<Rightarrow> D_bool True | l_false \<Rightarrow> D_bool False)"

text \<open>The result of a step of a scalar parser: the next state, or the completed data.\<close>

datatype 'a progress = More 'a | Complete json_data

definition literal_step :: "byte \<Rightarrow> literal \<Rightarrow> nat \<Rightarrow> json_error + nat progress" where
  "literal_step ch l lit =
     (let lit' = Suc lit
      in if length (literal_c_str l) \<le> lit' then Inr (Complete (literal_data l))
         else if ascii_tolower ch = literal_c_str l ! lit' then Inr (More lit')
         else Inl Syntax_Error)"

section \<open>Numbers\<close>

datatype sign = sign_plus | sign_minus

datatype n_type = n_decimal | n_fraction | n_exp | n_exponent

record number_parser =
  np_n :: n_type
  np_decimal :: int
  np_fraction :: int
  np_exponent :: int
  np_sign :: sign

definition number_parser_new :: "int \<Rightarrow> sign \<Rightarrow> number_parser" where
  "number_parser_new decimal s =
     \<lparr>np_n = n_decimal, np_decimal = decimal, np_fraction = 1, np_exponent = 0, np_sign = s\<rparr>"

definition long_max :: int where
  "long_max = 2 ^ 63 - 1"

definition int_max :: int where
  "int_max = 2 ^ 31 - 1"

definition signed_decimal :: "number_parser \<Rightarrow> int" where
  "signed_decimal n = (if np_sign n = sign_minus then np_decimal n * - 1 else np_decimal n)"

definition number_step :: "byte \<Rightarrow> number_parser \<Rightarrow> json_error + number_parser progress" where
  "number_step ch n =
     (case np_n n of
        n_decimal \<Rightarrow>
          if ch = 101 \<or> ch = 69 then Inr (More (n\<lparr>np_decimal := signed_decimal n, np_n := n_exp\<rparr>))
          else if ch = 46 then Inr (More (n\<lparr>np_n := n_fraction\<rparr>))
          else if isdigit ch then
            (let d = np_decimal n * 10 + (uint ch - 48)
             in if d \<le> long_max then Inr (More (n\<lparr>np_decimal := d\<rparr>)) else Inl Overflow)
          else Inr (Complete (D_long (signed_decimal n)))
      | n_fraction \<Rightarrow>
          if ch = 101 \<or> ch = 69 then Inr (More (n\<lparr>np_decimal := signed_decimal n, np_n := n_exp\<rparr>))
          else if isdigit ch then
            (if np_decimal n * 10 + uint ch \<le> long_max \<and> np_fraction n * 10 \<le> int_max
             then Inr (More (n\<lparr>np_decimal := np_decimal n * 10 + uint ch - 48, np_fraction := np_fraction n * 10\<rparr>))
             else Inl Overflow)
          else Inr (Complete (D_ratio (signed_decimal n) (np_fraction n)))
      | n_exp \<Rightarrow>
          if 49 \<le> ch \<and> ch \<le> 57 then
            Inr (More (n\<lparr>np_exponent := uint ch - 48, np_n := n_exponent, np_sign := sign_plus\<rparr>))
          else if ch = 43 \<or> ch = 48 then Inr (More (n\<lparr>np_n := n_exponent, np_sign := sign_plus\<rparr>))
          else if ch = 45 then Inr (More (n\<lparr>np_n := n_exponent, np_sign := sign_minus\<rparr>))
          else Inl Syntax_Error
      | n_exponent \<Rightarrow>
          if isdigit ch then
            (let e = np_exponent n * 10 + (uint ch - 48)
             in if e \<le> int_max then Inr (More (n\<lparr>np_exponent := e\<rparr>)) else Inl Overflow)
          else Inr (Complete (D_scaled (np_decimal n)
                 (if np_sign n = sign_minus then np_exponent n * - 1 else np_exponent n) (np_fraction n))))"

section \<open>Strings\<close>

text \<open>
  \<open>hex_\<close> is a string: the list holds the characters before its terminating 0. It is
  empty when an escape begins.
\<close>

record string_parser =
  sp_escape :: bool
  sp_hex :: "byte list"
  sp_str :: "byte list"

definition string_parser_new :: string_parser where
  "string_parser_new = \<lparr>sp_escape = False, sp_hex = [], sp_str = []\<rparr>"

definition strtol16 :: "byte list \<Rightarrow> 16 word" where
  "strtol16 cs = word_of_nat (foldl (\<lambda>n c. 16 * n + xdigit_value c) 0 cs)"

text \<open>The escapes of one character, of the first \<open>switch\<close>.\<close>

definition simple_escape :: "byte \<Rightarrow> byte option" where
  "simple_escape ch =
     (if ch = 34 then Some 34 else if ch = 92 then Some 92 else if ch = 47 then Some 47
      else if ch = 98 then Some 8 else if ch = 102 then Some 12 else if ch = 110 then Some 10
      else if ch = 114 then Some 13 else if ch = 116 then Some 9 else None)"

definition string_step :: "json_lib \<Rightarrow> byte \<Rightarrow> string_parser \<Rightarrow> json_error + string_parser progress" where
  "string_step utf ch s =
     (if sp_escape s then
        if sp_hex s = [] then
          (case simple_escape ch of
             Some c \<Rightarrow> Inr (More (s\<lparr>sp_str := sp_str s @ [c], sp_escape := False\<rparr>))
           | None \<Rightarrow> if ch = 117 \<or> ch = 85 then Inr (More (s\<lparr>sp_hex := [ch]\<rparr>)) else Inl Syntax_Error)
        else if isxdigit ch then
          if length (sp_hex s) < 4 then Inr (More (s\<lparr>sp_hex := sp_hex s @ [ch]\<rparr>))
          else Inr (More (s\<lparr>sp_hex := sp_hex s @ [ch], sp_escape := False,
                            sp_str := sp_str s @ jl_utf16 utf (strtol16 (drop 1 (sp_hex s @ [ch])))\<rparr>))
        else Inl Syntax_Error
      else if ch = 34 then Inr (Complete (D_string (sp_str s)))
      else if ch = 92 then Inr (More (s\<lparr>sp_escape := True, sp_hex := []\<rparr>))
      else if isprint ch then Inr (More (s\<lparr>sp_str := sp_str s @ [ch]\<rparr>))
      else Inl Syntax_Error)"

section \<open>The parser\<close>

text \<open>
  The variant and \<open>parser_impl\<close> with \<open>in_progress\<close>. The key of an object has its own
  \<open>in_progress\<close>.
\<close>

datatype parser =
    P_any
  | P_lit literal nat
  | P_num number_parser
  | P_str string_parser
  | P_arr "parser_impl option" int
  | P_obj "(string_parser \<times> bool) option" "parser_impl option" bool
and parser_impl = Impl parser bool

definition parser_impl_new :: parser_impl where
  "parser_impl_new = Impl P_any True"

fun in_progress :: "parser_impl \<Rightarrow> bool" where
  "in_progress (Impl p b) = b"

definition is_json_space :: "byte \<Rightarrow> bool" where
  "is_json_space ch \<longleftrightarrow> ch = 32 \<or> ch = 9 \<or> ch = 13 \<or> ch = 10"

text \<open>\<open>any_parser\<close> with \<open>new_literal\<close>, \<open>new_number\<close>, \<open>new_string\<close>, \<open>new_array\<close> and \<open>new_object\<close>.\<close>

definition new_number :: "byte \<Rightarrow> parser" where
  "new_number ch =
     P_num (if ch = 45 then number_parser_new 0 sign_minus
            else if ch = 43 then number_parser_new 0 sign_plus
            else number_parser_new (uint ch - 48) sign_plus)"

definition any_parser :: "byte \<Rightarrow> json_error + parser" where
  "any_parser ch =
     (if ch = 0 \<or> is_json_space ch then Inr P_any
      else if ch = 110 \<or> ch = 78 then Inr (P_lit l_null 0)
      else if ch = 116 \<or> ch = 84 then Inr (P_lit l_true 0)
      else if ch = 102 \<or> ch = 70 then Inr (P_lit l_false 0)
      else if ch = 34 then Inr (P_str string_parser_new)
      else if ch = 91 then Inr (P_arr None 0)
      else if ch = 123 then Inr (P_obj None None True)
      else if ch = 45 \<or> ch = 43 \<or> isdigit ch then Inr (new_number ch)
      else Inl Syntax_Error)"

text \<open>\<open>complete(t)\<close> and \<open>complete()\<close>.\<close>

definition completed :: parser_impl where
  "completed = Impl P_any False"

text \<open>A scalar step inside \<open>parse_1\<close>; the result of a completion is \<open>ret\<close>.\<close>

definition scalar ::
  "json_lib \<Rightarrow> ('a \<Rightarrow> parser) \<Rightarrow> bool \<Rightarrow> bool \<Rightarrow> ptree \<Rightarrow> json_error + 'a progress \<Rightarrow> json_error + (bool \<times> parser_impl \<times> ptree)" where
  "scalar utf mk b ret t r =
     (case r of
        Inl e \<Rightarrow> Inl e
      | Inr (More x) \<Rightarrow> Inr (True, Impl (mk x) b, t)
      | Inr (Complete d) \<Rightarrow> Inr (ret, completed, adapt_data utf d t))"

text \<open>A step of the current element.\<close>

definition element :: "(parser_impl \<Rightarrow> parser_impl) \<Rightarrow> ptree \<Rightarrow> json_error + (bool \<times> parser_impl \<times> ptree) \<Rightarrow> json_error + (bool \<times> parser_impl \<times> ptree)" where
  "element mk t r =
     (case r of Inl e \<Rightarrow> Inl e | Inr (ret, d, c) \<Rightarrow> Inr (ret, mk d, set_last_child c t))"

fun parse_1 :: "json_lib \<Rightarrow> byte \<Rightarrow> parser_impl \<Rightarrow> ptree \<Rightarrow> json_error + (bool \<times> parser_impl \<times> ptree)" where
  "parse_1 utf ch (Impl P_any b) t =
     (case any_parser ch of Inl e \<Rightarrow> Inl e | Inr p \<Rightarrow> Inr (True, Impl p b, t))"
| "parse_1 utf ch (Impl (P_lit l lit) b) t = scalar utf (P_lit l) b False t (literal_step ch l lit)"
| "parse_1 utf ch (Impl (P_num n) b) t = scalar utf P_num b False t (number_step ch n)"
| "parse_1 utf ch (Impl (P_str s) b) t = scalar utf P_str b True t (string_step utf ch s)"
| "parse_1 utf ch (Impl (P_arr None i) b) t =
     (if ch = 93 then Inr (True, completed, t)
      else case any_parser ch of
        Inl e \<Rightarrow> Inl e
      | Inr p \<Rightarrow> Inr (True, Impl (P_arr (Some (Impl p True)) (i + 1)) b, add_child [] t))"
| "parse_1 utf ch (Impl (P_arr (Some d) i) b) t =
     (if in_progress d then element (\<lambda>d'. Impl (P_arr (Some d') i) b) t (parse_1 utf ch d (last_child t))
      else if ch = 93 then Inr (True, completed, t)
      else if ch = 44 then Inr (True, Impl (P_arr (Some parser_impl_new) (i + 1)) b, add_child [] t)
      else if is_json_space ch then Inr (True, Impl (P_arr (Some d) i) b, t)
      else Inl Syntax_Error)"
| "parse_1 utf ch (Impl (P_obj key (Some v) fst') b) t =
     (if in_progress v then element (\<lambda>v'. Impl (P_obj key (Some v') fst') b) t (parse_1 utf ch v (last_child t))
      else if ch = 125 then Inr (True, completed, t)
      else if ch = 44 then Inr (True, Impl (P_obj None None fst') b, t)
      else if is_json_space ch then Inr (True, Impl (P_obj key (Some v) fst') b, t)
      else Inl Syntax_Error)"
| "parse_1 utf ch (Impl (P_obj None None fst') b) t =
     (if fst' \<and> ch = 125 then Inr (True, completed, t)
      else if ch = 34 then Inr (True, Impl (P_obj (Some (string_parser_new, True)) None False) b, t)
      else if is_json_space ch then Inr (True, Impl (P_obj None None fst') b, t)
      else Inl Syntax_Error)"
| "parse_1 utf ch (Impl (P_obj (Some (s, prog)) None fst') b) t =
     (if prog then
        (case string_step utf ch s of
           Inl e \<Rightarrow> Inl e
         | Inr (More s') \<Rightarrow> Inr (True, Impl (P_obj (Some (s', True)) None fst') b, t)
         | Inr (Complete d) \<Rightarrow> Inr (True, Impl (P_obj (Some (s, False)) None fst') b, t))
      else if ch = 58 then
        Inr (True, Impl (P_obj (Some (s, False)) (Some parser_impl_new) fst') b, add_child (sp_str s) t)
      else if is_json_space ch then Inr (True, Impl (P_obj (Some (s, False)) None fst') b, t)
      else Inl Syntax_Error)"

text \<open>\<open>while (in_progress && !parse_1(*s));\<close>, with fuel.\<close>

fun parse_loop :: "nat \<Rightarrow> json_lib \<Rightarrow> byte \<Rightarrow> parser_impl \<Rightarrow> ptree \<Rightarrow> (json_error + (parser_impl \<times> ptree)) option" where
  "parse_loop 0 utf ch p t = None"
| "parse_loop (Suc fuel) utf ch p t =
     (if in_progress p then
        (case parse_1 utf ch p t of
           Inl e \<Rightarrow> Some (Inl e)
         | Inr (True, p', t') \<Rightarrow> Some (Inr (p', t'))
         | Inr (False, p', t') \<Rightarrow> parse_loop fuel utf ch p' t')
      else Some (Inr (p, t)))"

text \<open>The loop of \<open>write\<close>, with the number of characters that it has consumed.\<close>

fun write_loop :: "nat \<Rightarrow> json_lib \<Rightarrow> byte list \<Rightarrow> nat \<Rightarrow> parser_impl \<Rightarrow> ptree \<Rightarrow> (json_error + (nat \<times> parser_impl \<times> ptree)) option" where
  "write_loop fuel utf [] i p t = Some (Inr (i, p, t))"
| "write_loop fuel utf (ch # cs) i p t =
     (if in_progress p then
        (case parse_loop fuel utf ch p t of
           None \<Rightarrow> None
         | Some (Inl e) \<Rightarrow> Some (Inl e)
         | Some (Inr (p', t')) \<Rightarrow> write_loop fuel utf cs (Suc i) p' t')
      else Some (Inr (i, p, t)))"

definition json_write :: "nat \<Rightarrow> json_lib \<Rightarrow> byte list \<Rightarrow> parser_impl \<Rightarrow> ptree \<Rightarrow> (json_error + (int \<times> parser_impl \<times> ptree)) option" where
  "json_write fuel utf cs p t =
     (if in_progress p then map_option (map_sum id (\<lambda>(i, r). (int i, r))) (write_loop fuel utf cs 0 p t)
      else Some (Inr (- 1, p, t)))"

section \<open>The loop of a character ends\<close>

lemma scalar_False:
  "scalar utf mk b ret t r = Inr (False, p', t') \<Longrightarrow> p' = completed"
  by (auto simp: scalar_def split: sum.splits progress.splits)

lemma element_False:
  "element mk t r = Inr (False, p', t') \<longleftrightarrow> (\<exists>d c. r = Inr (False, d, c) \<and> p' = mk d \<and> t' = set_last_child c t)"
  by (auto simp: element_def split: sum.splits)

text \<open>A character that was not taken is not refused a second time.\<close>

lemma parse_1_twice:
  "parse_1 utf ch p t = Inr (False, p', t') \<Longrightarrow> in_progress p' \<Longrightarrow> parse_1 utf ch p' u \<noteq> Inr (False, p'', u')"
proof (induction utf ch p t arbitrary: p' t' u p'' u' rule: parse_1.induct)
  case (2 utf ch l lit b t)
  then show ?case using scalar_False by (fastforce simp: completed_def)
next
  case (3 utf ch n b t)
  then show ?case using scalar_False by (fastforce simp: completed_def)
next
  case (4 utf ch s b t)
  then show ?case using scalar_False by (fastforce simp: completed_def)
next
  case (6 utf ch d i b t)
  then show ?case by (auto simp: element_False split: if_splits)
next
  case (7 utf ch key v f b t)
  then show ?case by (auto simp: element_False split: if_splits)
qed (auto split: if_splits sum.splits progress.splits)

lemma parse_loop_three: "parse_loop (Suc (Suc (Suc k))) utf ch p t = parse_loop 3 utf ch p t" "parse_loop 3 utf ch p t \<noteq> None"
  using parse_1_twice [of utf ch p t]
  by (auto simp: eval_nat_numeral split: sum.splits prod.splits bool.splits)

lemma write_loop_three:
  "write_loop (Suc (Suc (Suc k))) utf cs i p t = write_loop 3 utf cs i p t \<and> write_loop 3 utf cs i p t \<noteq> None"
proof (induction cs arbitrary: i p t)
  case (Cons ch cs)
  show ?case
  proof (cases "parse_loop 3 utf ch p t")
    case None
    then show ?thesis using parse_loop_three(2) by blast
  next
    case (Some r)
    then show ?thesis using Cons parse_loop_three(1) [of k utf ch p t]
      by (auto simp del: parse_loop.simps split: sum.splits prod.splits)
  qed
qed simp

lemma write_loop_count:
  "write_loop fuel utf cs i p t = Some (Inr (j, p', t')) \<Longrightarrow> i \<le> j \<and> j \<le> i + length cs \<and> (in_progress p' \<longrightarrow> j = i + length cs)"
proof (induction cs arbitrary: i p t)
  case (Cons ch cs)
  then show ?case by (fastforce split: if_splits option.splits sum.splits prod.splits)
qed simp

text \<open>
  \<open>write\<close> returns for every state and every text: the inner loop runs at most twice
  on a character. It consumes at most what it is given, all of it while a value is in progress, and
  returns \<open>EOF\<close> once the value is complete.
\<close>

theorem json_write_returns:
  "(\<forall>fuel \<ge> 3. json_write fuel utf cs p t = json_write 3 utf cs p t \<and> json_write 3 utf cs p t \<noteq> None)
   \<and> (in_progress p \<longrightarrow> json_write 3 utf cs p t = Some (Inr (n, p', t')) \<longrightarrow>
        0 \<le> n \<and> n \<le> int (length cs) \<and> (in_progress p' \<longrightarrow> n = int (length cs)))
   \<and> (\<not> in_progress p \<longrightarrow> json_write 3 utf cs p t = Some (Inr (- 1, p, t)))"
proof (intro conjI allI impI)
  fix fuel :: nat
  assume "3 \<le> fuel"
  then obtain k where k: "fuel = Suc (Suc (Suc k))" using le_Suc_ex [of 3 fuel] by (auto simp: eval_nat_numeral)
  show "json_write fuel utf cs p t = json_write 3 utf cs p t"
    unfolding k using write_loop_three [of k utf cs 0 p t] by (simp add: json_write_def)
  show "json_write 3 utf cs p t \<noteq> None" using write_loop_three [of 0 utf cs 0 p t] by (simp add: json_write_def)
next
  assume "in_progress p" "json_write 3 utf cs p t = Some (Inr (n, p', t'))"
  then obtain r where "write_loop 3 utf cs 0 p t = Some r" "map_sum id (\<lambda>(i, r). (int i, r)) r = Inr (n, p', t')"
    by (auto simp: json_write_def)
  then obtain j where "write_loop 3 utf cs 0 p t = Some (Inr (j, p', t'))" "n = int j" by (cases r) auto
  then show "0 \<le> n" "n \<le> int (length cs)" "in_progress p' \<Longrightarrow> n = int (length cs)"
    using write_loop_count [of 3 utf cs 0 p t j p' t'] by auto
next
  assume "\<not> in_progress p"
  then show "json_write 3 utf cs p t = Some (Inr (- 1, p, t))" by (simp add: json_write_def)
qed

definition no_lib :: json_lib where
  "no_lib = \<lparr>jl_utf16 = (\<lambda>_. []), jl_ratio = (\<lambda>_ _. []), jl_scaled = (\<lambda>_ _ _. [])\<rparr>"

theorem json_write_returns_witness:
  "json_write 9 no_lib [91, 49, 93, 44] parser_impl_new pt_empty = json_write 3 no_lib [91, 49, 93, 44] parser_impl_new pt_empty
   \<and> json_write 3 no_lib [91, 49, 93, 44] completed pt_empty = Some (Inr (- 1, completed, pt_empty))"
proof
  show "json_write 9 no_lib [91, 49, 93, 44] parser_impl_new pt_empty = json_write 3 no_lib [91, 49, 93, 44] parser_impl_new pt_empty"
    by (rule json_write_returns [THEN conjunct1, rule_format, THEN conjunct1]) simp
  show "json_write 3 no_lib [91, 49, 93, 44] completed pt_empty = Some (Inr (- 1, completed, pt_empty))"
    by (rule json_write_returns [THEN conjunct2, THEN conjunct2, rule_format]) (simp add: completed_def)
qed

section \<open>Texts of values\<close>

datatype json =
  J_null | J_bool bool | J_long int | J_string "byte list" | J_array "json list" | J_object "(byte list \<times> json) list"

definition escape_char :: "byte \<Rightarrow> byte list" where
  "escape_char c =
     (if c = 34 then [92, 34] else if c = 92 then [92, 92] else if c = 8 then [92, 98] else if c = 12 then [92, 102]
      else if c = 10 then [92, 110] else if c = 13 then [92, 114] else if c = 9 then [92, 116] else [c])"

definition string_text :: "byte list \<Rightarrow> byte list" where
  "string_text s = 34 # concat (map escape_char s) @ [34]"

fun separated :: "byte list list \<Rightarrow> byte list" where
  "separated [] = []"
| "separated (x # xs) = x @ concat (map (\<lambda>y. 44 # y) xs)"

fun json_text :: "json \<Rightarrow> byte list" where
  "json_text J_null = literal_c_str l_null"
| "json_text (J_bool b) = literal_c_str (if b then l_true else l_false)"
| "json_text (J_long n) = (if n < 0 then 45 # dec_text (nat (- n)) else dec_text (nat n))"
| "json_text (J_string s) = string_text s"
| "json_text (J_array js) = 91 # separated (map json_text js) @ [93]"
| "json_text (J_object ms) = 123 # separated (map (\<lambda>(k, j). string_text k @ 58 # json_text j) ms) @ [125]"

definition valid_char :: "byte \<Rightarrow> bool" where
  "valid_char c \<longleftrightarrow> isprint c \<or> c \<in> {8, 12, 10, 13, 9}"

fun json_valid :: "json \<Rightarrow> bool" where
  "json_valid (J_long n) \<longleftrightarrow> - long_max \<le> n \<and> n \<le> long_max"
| "json_valid (J_string s) \<longleftrightarrow> list_all valid_char s"
| "json_valid (J_array js) \<longleftrightarrow> list_all json_valid js"
| "json_valid (J_object ms) \<longleftrightarrow> list_all (\<lambda>(k, j). list_all valid_char k \<and> json_valid j) ms"
| "json_valid _ \<longleftrightarrow> True"

text \<open>The tree of a value: a scalar is a leaf with its text, a string with its characters.\<close>

fun tree_of :: "json \<Rightarrow> ptree" where
  "tree_of J_null = PT (map of_char ''null'') []"
| "tree_of (J_bool b) = PT (map of_char (if b then ''true'' else ''false'')) []"
| "tree_of (J_long n) = PT (if n < 0 then 45 # dec_text (nat (- n)) else dec_text (nat n)) []"
| "tree_of (J_string s) = PT s []"
| "tree_of (J_array js) = PT [] (map (\<lambda>j. ([], tree_of j)) js)"
| "tree_of (J_object ms) = PT [] (map (\<lambda>(k, j). (k, tree_of j)) ms)"

section \<open>Runs of the parser\<close>

text \<open>A character that is taken, at once or by the enclosing parser, and a text all of whose characters are.\<close>

inductive takes :: "json_lib \<Rightarrow> byte \<Rightarrow> parser_impl \<Rightarrow> ptree \<Rightarrow> parser_impl \<Rightarrow> ptree \<Rightarrow> bool" for utf ch where
  takes_once: "in_progress p \<Longrightarrow> parse_1 utf ch p t = Inr (True, p', t') \<Longrightarrow> takes utf ch p t p' t'"
| takes_again: "in_progress p \<Longrightarrow> parse_1 utf ch p t = Inr (False, p1, t1) \<Longrightarrow> in_progress p1
    \<Longrightarrow> parse_1 utf ch p1 t1 = Inr (True, p', t') \<Longrightarrow> takes utf ch p t p' t'"

inductive runs :: "json_lib \<Rightarrow> byte list \<Rightarrow> parser_impl \<Rightarrow> ptree \<Rightarrow> parser_impl \<Rightarrow> ptree \<Rightarrow> bool" for utf where
  runs_nil: "runs utf [] p t p t"
| runs_cons: "takes utf ch p t p1 t1 \<Longrightarrow> runs utf cs p1 t1 p' t' \<Longrightarrow> runs utf (ch # cs) p t p' t'"

inductive_cases runs_consE: "runs utf (ch # cs) p t p' t'"

lemma runs_append: "runs utf cs p t p1 t1 \<Longrightarrow> runs utf ds p1 t1 p' t' \<Longrightarrow> runs utf (cs @ ds) p t p' t'"
  by (induction rule: runs.induct) (auto intro: runs_cons)

lemma runs_single: "takes utf ch p t p' t' \<Longrightarrow> runs utf [ch] p t p' t'"
  by (blast intro: runs_nil runs_cons)

lemma takes_loop: "takes utf ch p t p' t' \<Longrightarrow> parse_loop 3 utf ch p t = Some (Inr (p', t'))"
  by (induction rule: takes.induct) (simp_all add: eval_nat_numeral)

lemma takes_in_progress: "takes utf ch p t p' t' \<Longrightarrow> in_progress p"
  by (cases rule: takes.cases) auto

lemma runs_write: "runs utf cs p t p' t' \<Longrightarrow> write_loop 3 utf (cs @ ds) i p t = write_loop 3 utf ds (i + length cs) p' t'"
proof (induction arbitrary: i rule: runs.induct)
  case (runs_cons ch p t p1 t1 cs p' t')
  show ?case using takes_in_progress [OF runs_cons(1)] runs_cons.IH [of "Suc i"] by (simp add: takes_loop [OF runs_cons(1)] del: parse_loop.simps)
qed simp

text \<open>The current element of an array or an object.\<close>

lemma last_child_simps [simp]:
  "pt_children (add_child k t) \<noteq> []" "last_child (add_child k t) = pt_empty"
  "pt_children t \<noteq> [] \<Longrightarrow> last_child (set_last_child c t) = c" "set_last_child d (set_last_child c t) = set_last_child d t"
  "pt_children t \<noteq> [] \<Longrightarrow> set_last_child (last_child t) t = t" "pt_children t \<noteq> [] \<Longrightarrow> pt_children (set_last_child c t) \<noteq> []"
  by (auto simp: add_child_def last_child_def set_last_child_def ptree.expand)

definition wraps :: "(parser_impl \<Rightarrow> parser_impl) \<Rightarrow> bool" where
  "wraps mk \<longleftrightarrow> (\<forall>utf ch d t. in_progress d \<longrightarrow> parse_1 utf ch (mk d) t = element mk t (parse_1 utf ch d (last_child t)))
     \<and> (\<forall>d. in_progress (mk d))"

lemma wraps_arr: "wraps (\<lambda>d. Impl (P_arr (Some d) i) True)" and wraps_obj: "wraps (\<lambda>d. Impl (P_obj k (Some d) f) True)"
  by (simp_all add: wraps_def)

lemma wraps_takes:
  assumes "wraps mk" "takes utf ch d (last_child t) d' c'" "pt_children t \<noteq> []"
  shows "takes utf ch (mk d) t (mk d') (set_last_child c' t)"
  using assms(2)
proof (cases rule: takes.cases)
  case takes_once
  then show ?thesis using assms(1) by (intro takes.takes_once) (simp_all add: wraps_def element_def)
next
  case (takes_again d1 c1)
  then show ?thesis using assms(1,3)
    by (intro takes.takes_again [of _ _ _ _ "mk d1" "set_last_child c1 t"]) (simp_all add: wraps_def element_def)
qed

lemma wraps_runs:
  assumes "wraps mk" "runs utf cs d c d' c'" "pt_children t \<noteq> []" "last_child t = c"
  shows "runs utf cs (mk d) t (mk d') (set_last_child c' t)"
  using assms(2-)
proof (induction arbitrary: t rule: runs.induct)
  case (runs_nil p t')
  then show ?case using runs.runs_nil by (metis last_child_simps(5))
next
  case (runs_cons ch p t1 p1 t2 cs p' t')
  have "takes utf ch (mk p) t (mk p1) (set_last_child t2 t)" using wraps_takes [OF assms(1)] runs_cons by blast
  moreover have "runs utf cs (mk p1) (set_last_child t2 t) (mk p') (set_last_child t' (set_last_child t2 t))"
    using runs_cons by (intro runs_cons.IH) simp_all
  ultimately show ?case using runs.runs_cons by simp
qed

text \<open>
  A state that has the value \<open>u\<close>: complete, or a number or a literal that the next
  delimiter completes.
\<close>

definition delimiter :: "byte \<Rightarrow> bool" where
  "delimiter ch \<longleftrightarrow> ch \<in> {44, 93, 125, 32, 9, 13, 10}"

definition ready :: "json_lib \<Rightarrow> parser_impl \<Rightarrow> ptree \<Rightarrow> ptree \<Rightarrow> bool" where
  "ready utf p t u \<longleftrightarrow> (p = completed \<and> t = u) \<or> (in_progress p \<and> (\<forall>ch. delimiter ch \<longrightarrow> parse_1 utf ch p t = Inr (False, completed, u)))"

lemma ready_takes:
  assumes "wraps mk" "ready utf d (last_child t) u" "delimiter ch" "pt_children t \<noteq> []"
    and "parse_1 utf ch (mk completed) (set_last_child u t) = Inr (True, p', t')"
  shows "takes utf ch (mk d) t p' t'"
  using assms(2) unfolding ready_def
proof (elim disjE conjE)
  assume "d = completed" "last_child t = u"
  then show ?thesis using assms by (intro takes_once) (auto simp: wraps_def)
next
  assume "in_progress d" "\<forall>ch. delimiter ch \<longrightarrow> parse_1 utf ch d (last_child t) = Inr (False, completed, u)"
  then show ?thesis using assms
    by (intro takes_again [of _ _ _ _ "mk completed" "set_last_child u t"]) (simp_all add: wraps_def element_def)
qed

section \<open>Runs over the text of a value\<close>

text \<open>What holds for the text of a value: its first character starts a parser, and the rest runs to a state that has the value.\<close>

definition parses :: "json_lib \<Rightarrow> byte list \<Rightarrow> ptree \<Rightarrow> bool" where
  "parses utf cs u \<longleftrightarrow> (\<exists>c cs' p1 p t. cs = c # cs' \<and> c \<noteq> 93 \<and> any_parser c = Inr p1
     \<and> runs utf cs' (Impl p1 True) pt_empty p t \<and> ready utf p t u)"

lemma parses_new:
  assumes "parses utf cs u"
  obtains p t where "runs utf cs parser_impl_new pt_empty p t" "ready utf p t u"
proof -
  obtain c cs' p1 p t where c: "cs = c # cs'" "any_parser c = Inr p1" "runs utf cs' (Impl p1 True) pt_empty p t" "ready utf p t u"
    using assms unfolding parses_def by blast
  have "takes utf c parser_impl_new pt_empty (Impl p1 True) pt_empty"
    using c(2) by (intro takes_once) (simp_all add: parser_impl_new_def)
  then show ?thesis using that runs_cons c by blast
qed

text \<open>Literals.\<close>

lemma parses_literal: "parses utf (literal_c_str l) (PT (adapt_text utf (literal_data l)) [])"
proof -
  have step: "takes utf (literal_c_str l ! Suc k) (Impl (P_lit l k) True) pt_empty (Impl (P_lit l (Suc k)) True) pt_empty"
    if "Suc k < length (literal_c_str l)" for k
  proof -
    have "ascii_tolower c = c" if "c \<in> set (literal_c_str l)" for c
      using that by (cases l) (auto simp: literal_c_str_def ascii_tolower_def)
    then have "literal_step (literal_c_str l ! Suc k) l k = Inr (More (Suc k))" using that by (simp add: literal_step_def)
    then show ?thesis by (intro takes_once) (simp_all add: scalar_def)
  qed
  have "runs utf (drop (Suc k) (literal_c_str l)) (Impl (P_lit l k) True) pt_empty (Impl (P_lit l (length (literal_c_str l) - 1)) True) pt_empty"
    if "k < length (literal_c_str l)" for k
    using that
  proof (induction "length (literal_c_str l) - k" arbitrary: k)
    case (Suc n)
    show ?case
    proof (cases "Suc k < length (literal_c_str l)")
      case True
      then show ?thesis using Suc runs_cons [OF step [OF True]] by (simp add: Cons_nth_drop_Suc [symmetric])
    next
      case False
      then have "k = length (literal_c_str l) - 1" using Suc.prems by simp
      then show ?thesis using False by (auto intro: runs_nil)
    qed
  qed simp
  from this [of 0] have "runs utf (tl (literal_c_str l)) (Impl (P_lit l 0) True) pt_empty (Impl (P_lit l (length (literal_c_str l) - 1)) True) pt_empty"
    by (cases l) (simp_all add: literal_c_str_def drop_Suc)
  moreover have "any_parser (hd (literal_c_str l)) = Inr (P_lit l 0)" "hd (literal_c_str l) \<noteq> 93" "literal_c_str l = hd (literal_c_str l) # tl (literal_c_str l)"
    by (cases l; simp add: literal_c_str_def any_parser_def is_json_space_def)+
  moreover have "ready utf (Impl (P_lit l (length (literal_c_str l) - 1)) True) pt_empty (PT (adapt_text utf (literal_data l)) [])"
    unfolding ready_def by (cases l) (simp_all add: scalar_def literal_step_def literal_c_str_def adapt_data_def adapt_text_def pt_empty_def)
  ultimately show ?thesis unfolding parses_def by metis
qed

text \<open>Numbers.\<close>

definition digits_run :: "json_lib \<Rightarrow> byte list \<Rightarrow> sign \<Rightarrow> int \<Rightarrow> int \<Rightarrow> bool" where
  "digits_run utf cs s a b \<longleftrightarrow>
     runs utf cs (Impl (P_num (number_parser_new a s)) True) pt_empty (Impl (P_num (number_parser_new b s)) True) pt_empty"

lemma digit_props:
  assumes "k < 10"
  shows "isdigit (word_of_nat (48 + k))" "uint (word_of_nat (48 + k) :: byte) = 48 + int k"
    "(word_of_nat (48 + k) :: byte) \<noteq> 101" "(word_of_nat (48 + k) :: byte) \<noteq> 69" "(word_of_nat (48 + k) :: byte) \<noteq> 46"
proof -
  have "k \<in> {0, 1, 2, 3, 4, 5, 6, 7, 8, 9}" using assms by auto
  then show "isdigit (word_of_nat (48 + k))" "uint (word_of_nat (48 + k) :: byte) = 48 + int k"
    "(word_of_nat (48 + k) :: byte) \<noteq> 101" "(word_of_nat (48 + k) :: byte) \<noteq> 69" "(word_of_nat (48 + k) :: byte) \<noteq> 46"
    by (auto simp: isdigit_def)
qed

lemma digit_step:
  "k < 10 \<Longrightarrow> a * 10 + int k \<le> long_max \<Longrightarrow>
   number_step (word_of_nat (48 + k)) (number_parser_new a s) = Inr (More (number_parser_new (a * 10 + int k) s))"
  using digit_props [of k] by (simp add: number_step_def number_parser_new_def Let_def del: of_nat_add)

lemma digit_run: "k < 10 \<Longrightarrow> a * 10 + int k \<le> long_max \<Longrightarrow> digits_run utf [word_of_nat (48 + k)] s a (a * 10 + int k)"
  unfolding digits_run_def by (intro runs_single takes_once) (simp_all add: digit_step scalar_def del: of_nat_add)

lemma dec_text_run: "int n \<le> long_max \<Longrightarrow> digits_run utf (dec_text n) s 0 (int n)"
proof (induction n rule: dec_text.induct)
  case (1 n)
  show ?case
  proof (cases "n < 10")
    case True
    then show ?thesis using digit_run [of n 0 utf s] 1 by (simp add: dec_text.simps [of n])
  next
    case False
    have "int (n div 10) \<le> long_max" using 1 by linarith
    then have "digits_run utf (dec_text (n div 10)) s 0 (int (n div 10))" using 1 False by blast
    moreover have "digits_run utf [word_of_nat (48 + n mod 10)] s (int (n div 10)) (int n)"
      using digit_run [of "n mod 10" "int (n div 10)" utf s] 1 by (simp add: zdiv_int zmod_int del: of_nat_add)
    ultimately show ?thesis unfolding dec_text.simps [of n] digits_run_def using False runs_append by auto
  qed
qed

lemma ready_number:
  "ready utf (Impl (P_num (number_parser_new a s)) True) pt_empty (PT (long_text (if s = sign_minus then - a else a)) [])"
  by (auto simp: ready_def delimiter_def scalar_def number_step_def number_parser_new_def isdigit_def signed_decimal_def adapt_data_def adapt_text_def pt_empty_def)

lemma dec_text_first:
  obtains k cs where "dec_text n = word_of_nat (48 + k) # cs" "k < 10"
proof (induction n arbitrary: thesis rule: dec_text.induct)
  case (1 n)
  show ?case
  proof (cases "n < 10")
    case True
    then show ?thesis using 1(2) by (simp add: dec_text.simps [of n] del: of_nat_add)
  next
    case False
    then obtain k cs where "dec_text (n div 10) = word_of_nat (48 + k) # cs" "k < 10" using 1(1) by blast
    then show ?thesis using 1(2) False by (simp add: dec_text.simps [of n] del: of_nat_add)
  qed
qed

lemma runs_tail: "runs utf (ch # cs) p t p' t' \<Longrightarrow> parse_1 utf ch p t = Inr (True, p1, t1) \<Longrightarrow> runs utf cs p1 t1 p' t'"
  by (erule runs_consE, erule takes.cases) auto

lemma any_parser_digit: "k < 10 \<Longrightarrow> any_parser (word_of_nat (48 + k)) = Inr (P_num (number_parser_new (int k) sign_plus))"
proof -
  assume "k < 10"
  then have "k \<in> {0, 1, 2, 3, 4, 5, 6, 7, 8, 9}" by auto
  then show ?thesis by (elim insertE emptyE) (simp_all add: any_parser_def is_json_space_def isdigit_def new_number_def)
qed

lemma parses_long: "json_valid (J_long n) \<Longrightarrow> parses utf (json_text (J_long n)) (tree_of (J_long n))"
proof (cases "n < 0")
  case True
  assume "json_valid (J_long n)"
  then have "digits_run utf (dec_text (nat (- n))) sign_minus 0 (- n)" using dec_text_run [of "nat (- n)" utf sign_minus] True by simp
  moreover have "any_parser 45 = Inr (P_num (number_parser_new 0 sign_minus))" by (simp add: any_parser_def is_json_space_def isdigit_def new_number_def)
  ultimately show ?thesis
    unfolding parses_def digits_run_def using True ready_number [of utf "- n" sign_minus] by (auto simp: long_text_def)
next
  case False
  assume v: "json_valid (J_long n)"
  obtain k cs where k: "dec_text (nat n) = word_of_nat (48 + k) # cs" "k < 10" by (rule dec_text_first)
  have "int k \<le> long_max" using k(2) by (simp add: long_max_def)
  then have "parse_1 utf (word_of_nat (48 + k)) (Impl (P_num (number_parser_new 0 sign_plus)) True) pt_empty
      = Inr (True, Impl (P_num (number_parser_new (int k) sign_plus)) True, pt_empty)"
    using digit_step [of k 0 sign_plus] k(2) by (simp add: scalar_def del: of_nat_add)
  moreover have "digits_run utf (dec_text (nat n)) sign_plus 0 n" using dec_text_run [of "nat n" utf sign_plus] v False by simp
  ultimately have "runs utf cs (Impl (P_num (number_parser_new (int k) sign_plus)) True) pt_empty (Impl (P_num (number_parser_new n sign_plus)) True) pt_empty"
    unfolding digits_run_def k(1) using runs_tail by blast
  moreover have "(word_of_nat (48 + k) :: byte) \<noteq> 93" using digit_props(1) [OF k(2)] by (auto simp: isdigit_def)
  ultimately show ?thesis
    unfolding parses_def using False k any_parser_digit [OF k(2)] ready_number [of utf n sign_plus]
    by (simp add: long_text_def del: of_nat_add) blast
qed

text \<open>Strings, as values and as keys.\<close>

definition plain_string :: "string_parser \<Rightarrow> byte list \<Rightarrow> bool" where
  "plain_string s str \<longleftrightarrow> \<not> sp_escape s \<and> sp_str s = str"

fun string_feed :: "json_lib \<Rightarrow> byte list \<Rightarrow> string_parser \<Rightarrow> string_parser option" where
  "string_feed utf [] s = Some s"
| "string_feed utf (c # cs) s = (case string_step utf c s of Inr (More s') \<Rightarrow> string_feed utf cs s' | _ \<Rightarrow> None)"

lemma string_feed_append: "string_feed utf cs s = Some s' \<Longrightarrow> string_feed utf (cs @ ds) s = string_feed utf ds s'"
  by (induction cs arbitrary: s) (auto split: sum.splits progress.splits)

lemma string_feed_char:
  assumes "plain_string s str" "valid_char c"
  shows "\<exists>s'. string_feed utf (escape_char c) s = Some s' \<and> plain_string s' (str @ [c])"
proof (cases "c \<in> {34, 92, 8, 12, 10, 13, 9}")
  case True
  have "\<exists>d. escape_char c = [92, d] \<and> simple_escape d = Some c"
    using True by (elim insertE emptyE) (simp_all add: escape_char_def simple_escape_def)
  then show ?thesis using assms(1) by (auto simp: plain_string_def string_step_def)
next
  case False
  then have "isprint c" "escape_char c = [c]" "c \<noteq> 34" "c \<noteq> 92" using assms(2) by (auto simp: valid_char_def escape_char_def)
  then show ?thesis using assms(1) by (simp add: plain_string_def string_step_def)
qed

lemma string_feed_chars:
  "plain_string s str \<Longrightarrow> list_all valid_char cs \<Longrightarrow> \<exists>s'. string_feed utf (concat (map escape_char cs)) s = Some s' \<and> plain_string s' (str @ cs)"
proof (induction cs arbitrary: s str)
  case (Cons c cs)
  then obtain s1 where "string_feed utf (escape_char c) s = Some s1" "plain_string s1 (str @ [c])"
    using string_feed_char [of s str c utf] by auto
  then show ?case using Cons string_feed_append [of utf "escape_char c" s s1] by fastforce
qed simp

lemma string_feed_runs: "string_feed utf cs s = Some s' \<Longrightarrow> runs utf cs (Impl (P_str s) True) t (Impl (P_str s') True) t"
proof (induction cs arbitrary: s)
  case (Cons c cs)
  then obtain s1 where s1: "string_step utf c s = Inr (More s1)" "string_feed utf cs s1 = Some s'"
    by (auto split: sum.splits progress.splits)
  then have "takes utf c (Impl (P_str s) True) t (Impl (P_str s1) True) t" by (intro takes_once) (simp_all add: scalar_def)
  then show ?case using Cons.IH [OF s1(2)] by (rule runs_cons)
qed (simp add: runs_nil)

lemma string_feed_key_runs:
  "string_feed utf cs s = Some s' \<Longrightarrow> runs utf cs (Impl (P_obj (Some (s, True)) None f) True) t (Impl (P_obj (Some (s', True)) None f) True) t"
proof (induction cs arbitrary: s)
  case (Cons c cs)
  then obtain s1 where s1: "string_step utf c s = Inr (More s1)" "string_feed utf cs s1 = Some s'"
    by (auto split: sum.splits progress.splits)
  then have "takes utf c (Impl (P_obj (Some (s, True)) None f) True) t (Impl (P_obj (Some (s1, True)) None f) True) t"
    by (intro takes_once) simp_all
  then show ?case using Cons.IH [OF s1(2)] by (rule runs_cons)
qed (simp add: runs_nil)

lemma string_end: "plain_string s str \<Longrightarrow> string_step utf 34 s = Inr (Complete (D_string str))"
  by (simp add: plain_string_def string_step_def)

lemma plain_new: "plain_string string_parser_new []"
  by (simp add: plain_string_def string_parser_new_def)

lemma parses_string:
  assumes "list_all valid_char str"
  shows "parses utf (string_text str) (PT str [])"
proof -
  obtain s where s: "string_feed utf (concat (map escape_char str)) string_parser_new = Some s" "plain_string s str"
    using string_feed_chars [OF plain_new assms] by auto
  have "takes utf 34 (Impl (P_str s) True) pt_empty completed (PT str [])"
    by (intro takes_once) (simp_all add: string_end [OF s(2)] scalar_def adapt_data_def adapt_text_def pt_empty_def)
  then have "runs utf (concat (map escape_char str) @ [34]) (Impl (P_str string_parser_new) True) pt_empty completed (PT str [])"
    using runs_append [OF string_feed_runs [OF s(1)]] runs_single by blast
  moreover have "any_parser 34 = Inr (P_str string_parser_new)" by (simp add: any_parser_def is_json_space_def)
  ultimately show ?thesis unfolding parses_def string_text_def ready_def by fastforce
qed

text \<open>Arrays: the elements are given by their texts and their trees.\<close>

definition extend :: "ptree \<Rightarrow> (byte list \<times> ptree) list \<Rightarrow> ptree" where
  "extend t cs = PT (pt_data t) (pt_children t @ cs)"

lemma extend_simps [simp]:
  "set_last_child v (add_child k t) = extend t [(k, v)]" "extend (extend t as) bs = extend t (as @ bs)" "extend t [] = t"
  "pt_children (extend t [a]) \<noteq> []" "last_child (extend t [a]) = snd a" "set_last_child v (extend t [(k, u)]) = extend t [(k, v)]"
  by (simp_all add: extend_def add_child_def set_last_child_def last_child_def)

lemma arr_sep:
  assumes "ready utf d (last_child t) u" "pt_children t \<noteq> []"
  shows "takes utf 44 (Impl (P_arr (Some d) i) True) t (Impl (P_arr (Some parser_impl_new) (i + 1)) True) (add_child [] (set_last_child u t))"
    and "takes utf 93 (Impl (P_arr (Some d) i) True) t completed (set_last_child u t)"
  by (rule ready_takes [OF wraps_arr assms(1) _ assms(2)]; simp add: delimiter_def completed_def)+

lemma arr_rest:
  assumes "ready utf d (last_child t) u" "pt_children t \<noteq> []" "list_all (\<lambda>(x, v). parses utf x v) xs"
  shows "runs utf (concat (map (\<lambda>(x, v). 44 # x) xs) @ [93]) (Impl (P_arr (Some d) i) True) t
    completed (extend (set_last_child u t) (map (\<lambda>(x, v). ([], v)) xs))"
  using assms
proof (induction xs arbitrary: d t u i)
  case Nil
  then show ?case using runs_single [OF arr_sep(2) [OF Nil(1,2)]] by simp
next
  case (Cons a xs)
  obtain x v where a: "a = (x, v)" by (cases a)
  let ?t = "set_last_child u t" and ?mk = "\<lambda>d. Impl (P_arr (Some d) (i + 1)) True"
  have "parses utf x v" using Cons.prems(3) a by simp
  then obtain p c where p: "runs utf x parser_impl_new pt_empty p c" "ready utf p c v" by (rule parses_new)
  have "runs utf x (?mk parser_impl_new) (add_child [] ?t) (?mk p) (extend ?t [([], c)])"
    using wraps_runs [OF wraps_arr p(1), of "add_child [] ?t"] by simp
  moreover have "runs utf (concat (map (\<lambda>(x, v). 44 # x) xs) @ [93]) (?mk p) (extend ?t [([], c)])
      completed (extend (set_last_child v (extend ?t [([], c)])) (map (\<lambda>(x, v). ([], v)) xs))"
    using Cons.prems(3) p(2) by (intro Cons.IH) simp_all
  ultimately show ?case
    using runs_cons [OF arr_sep(1) [OF Cons.prems(1,2)]] runs_append a by simp
qed

lemma parses_array:
  assumes "list_all (\<lambda>(x, v). parses utf x v) xs"
  shows "parses utf (91 # separated (map fst xs) @ [93]) (PT [] (map (\<lambda>(x, v). ([], v)) xs))"
proof -
  have "runs utf (separated (map fst xs) @ [93]) (Impl (P_arr None 0) True) pt_empty completed (extend pt_empty (map (\<lambda>(x, v). ([], v)) xs))"
  proof (cases xs)
    case Nil
    then show ?thesis by (auto intro!: runs_single takes_once)
  next
    case (Cons a ys)
    obtain x v where a: "a = (x, v)" by (cases a)
    obtain c cs p1 p t where c: "x = c # cs" "c \<noteq> 93" "any_parser c = Inr p1" "runs utf cs (Impl p1 True) pt_empty p t" "ready utf p t v"
      using assms Cons a by (auto simp: parses_def)
    let ?mk = "\<lambda>d. Impl (P_arr (Some d) 1) True"
    have "takes utf c (Impl (P_arr None 0) True) pt_empty (?mk (Impl p1 True)) (add_child [] pt_empty)"
      using c by (intro takes_once) simp_all
    moreover have "runs utf cs (?mk (Impl p1 True)) (add_child [] pt_empty) (?mk p) (extend pt_empty [([], t)])"
      using wraps_runs [OF wraps_arr c(4), of "add_child [] pt_empty"] by simp
    moreover have "runs utf (concat (map (\<lambda>(x, v). 44 # x) ys) @ [93]) (?mk p) (extend pt_empty [([], t)])
        completed (extend (set_last_child v (extend pt_empty [([], t)])) (map (\<lambda>(x, v). ([], v)) ys))"
      using c(5) assms Cons by (intro arr_rest) simp_all
    moreover have "map (\<lambda>(x, v). 44 # x) ys = map ((#) 44) (map fst ys)" by (simp add: case_prod_beta)
    ultimately show ?thesis using runs_cons runs_append c(1) Cons a by simp
  qed
  moreover have "any_parser 91 = Inr (P_arr None 0)" by (simp add: any_parser_def is_json_space_def)
  ultimately show ?thesis unfolding parses_def ready_def by (fastforce simp: extend_def pt_empty_def)
qed

text \<open>Objects: the members are given by their keys, the texts of their values and the trees.\<close>

definition member_text :: "byte list \<times> byte list \<times> ptree \<Rightarrow> byte list" where
  "member_text m = string_text (fst m) @ 58 # fst (snd m)"

definition member_ok :: "json_lib \<Rightarrow> byte list \<times> byte list \<times> ptree \<Rightarrow> bool" where
  "member_ok utf m \<longleftrightarrow> list_all valid_char (fst m) \<and> parses utf (fst (snd m)) (snd (snd m))"

definition member_tree :: "byte list \<times> byte list \<times> ptree \<Rightarrow> byte list \<times> ptree" where
  "member_tree m = (fst m, snd (snd m))"

lemma obj_key:
  assumes "list_all valid_char k"
  obtains s where "runs utf (string_text k) (Impl (P_obj None None f) True) t (Impl (P_obj (Some (s, False)) None False) True) t" "sp_str s = k"
proof -
  obtain s where s: "string_feed utf (concat (map escape_char k)) string_parser_new = Some s" "plain_string s k"
    using string_feed_chars [OF plain_new assms] by auto
  have start: "takes utf 34 (Impl (P_obj None None f) True) t (Impl (P_obj (Some (string_parser_new, True)) None False) True) t"
    by (intro takes_once) simp_all
  have stop: "takes utf 34 (Impl (P_obj (Some (s, True)) None False) True) t (Impl (P_obj (Some (s, False)) None False) True) t"
    by (intro takes_once) (simp_all add: string_end [OF s(2)])
  have "runs utf (string_text k) (Impl (P_obj None None f) True) t (Impl (P_obj (Some (s, False)) None False) True) t"
    unfolding string_text_def by (rule runs_cons [OF start runs_append [OF string_feed_key_runs [OF s(1)] runs_single [OF stop]]])
  then show ?thesis using that s(2) by (simp add: plain_string_def)
qed

lemma obj_member:
  assumes "member_ok utf m"
  obtains key p c where "runs utf (member_text m) (Impl (P_obj None None f) True) t (Impl (P_obj key (Some p) False) True) (extend t [(fst m, c)])"
    "ready utf p c (snd (snd m))"
proof -
  obtain s where s: "runs utf (string_text (fst m)) (Impl (P_obj None None f) True) t (Impl (P_obj (Some (s, False)) None False) True) t" "sp_str s = fst m"
    using obj_key assms unfolding member_ok_def by metis
  obtain p c where p: "runs utf (fst (snd m)) parser_impl_new pt_empty p c" "ready utf p c (snd (snd m))"
    using parses_new assms unfolding member_ok_def by metis
  let ?mk = "\<lambda>d. Impl (P_obj (Some (s, False)) (Some d) False) True"
  have "takes utf 58 (Impl (P_obj (Some (s, False)) None False) True) t (?mk parser_impl_new) (add_child (fst m) t)"
    using s(2) by (intro takes_once) simp_all
  moreover have "runs utf (fst (snd m)) (?mk parser_impl_new) (add_child (fst m) t) (?mk p) (extend t [(fst m, c)])"
    using wraps_runs [OF wraps_obj p(1), of "add_child (fst m) t"] by simp
  ultimately have "runs utf (member_text m) (Impl (P_obj None None f) True) t (?mk p) (extend t [(fst m, c)])"
    unfolding member_text_def using runs_append [OF s(1)] runs_cons by blast
  then show ?thesis using that p(2) by blast
qed

lemma obj_sep:
  assumes "ready utf d (last_child t) u" "pt_children t \<noteq> []"
  shows "takes utf 44 (Impl (P_obj key (Some d) f) True) t (Impl (P_obj None None f) True) (set_last_child u t)"
    and "takes utf 125 (Impl (P_obj key (Some d) f) True) t completed (set_last_child u t)"
  by (rule ready_takes [OF wraps_obj assms(1) _ assms(2)]; simp add: delimiter_def completed_def)+

lemma obj_rest:
  assumes "ready utf d (last_child t) u" "pt_children t \<noteq> []" "list_all (member_ok utf) ms"
  shows "runs utf (concat (map (\<lambda>m. 44 # member_text m) ms) @ [125]) (Impl (P_obj key (Some d) False) True) t
    completed (extend (set_last_child u t) (map member_tree ms))"
  using assms
proof (induction ms arbitrary: d t u key)
  case Nil
  then show ?case using runs_single [OF obj_sep(2) [OF Nil(1,2)]] by simp
next
  case (Cons m ms)
  let ?t = "set_last_child u t"
  have "member_ok utf m" using Cons.prems(3) by simp
  then obtain key' p c where p: "runs utf (member_text m) (Impl (P_obj None None False) True) ?t (Impl (P_obj key' (Some p) False) True) (extend ?t [(fst m, c)])"
      "ready utf p c (snd (snd m))"
    by (rule obj_member)
  have "runs utf (concat (map (\<lambda>m. 44 # member_text m) ms) @ [125]) (Impl (P_obj key' (Some p) False) True) (extend ?t [(fst m, c)])
      completed (extend (set_last_child (snd (snd m)) (extend ?t [(fst m, c)])) (map member_tree ms))"
    using Cons.prems(3) p(2) by (intro Cons.IH) simp_all
  from runs_cons [OF obj_sep(1) [OF Cons.prems(1,2)] runs_append [OF p(1) this]]
  show ?case by (simp add: member_tree_def [of m])
qed

lemma parses_object:
  assumes "list_all (member_ok utf) ms"
  shows "parses utf (123 # separated (map member_text ms) @ [125]) (PT [] (map member_tree ms))"
proof -
  have "runs utf (separated (map member_text ms) @ [125]) (Impl (P_obj None None True) True) pt_empty completed (extend pt_empty (map member_tree ms))"
  proof (cases ms)
    case Nil
    then show ?thesis by (auto intro!: runs_single takes_once)
  next
    case (Cons m ns)
    have "member_ok utf m" using assms Cons by simp
    then obtain key p c where p: "runs utf (member_text m) (Impl (P_obj None None True) True) pt_empty (Impl (P_obj key (Some p) False) True) (extend pt_empty [(fst m, c)])"
        "ready utf p c (snd (snd m))"
      by (rule obj_member)
    have "runs utf (concat (map (\<lambda>m. 44 # member_text m) ns) @ [125]) (Impl (P_obj key (Some p) False) True) (extend pt_empty [(fst m, c)])
        completed (extend (set_last_child (snd (snd m)) (extend pt_empty [(fst m, c)])) (map member_tree ns))"
      using assms Cons p(2) by (intro obj_rest) simp_all
    from runs_append [OF p(1) this] show ?thesis using Cons by (simp add: member_tree_def comp_def)
  qed
  moreover have "any_parser 123 = Inr (P_obj None None True)" by (simp add: any_parser_def is_json_space_def)
  ultimately show ?thesis unfolding parses_def ready_def by (fastforce simp: extend_def pt_empty_def)
qed

lemma parses_json: "json_valid v \<Longrightarrow> parses utf (json_text v) (tree_of v)"
proof (induction v rule: json.induct)
  case J_null
  then show ?case using parses_literal [of utf l_null] by (simp add: literal_data_def adapt_text_def)
next
  case (J_bool b)
  then show ?case using parses_literal [of utf "if b then l_true else l_false"] by (cases b) (simp_all add: literal_data_def adapt_text_def)
next
  case (J_long n)
  then show ?case by (rule parses_long)
next
  case (J_string s)
  then show ?case using parses_string by simp
next
  case (J_array js)
  then have "list_all (\<lambda>(x, v). parses utf x v) (map (\<lambda>j. (json_text j, tree_of j)) js)" by (auto simp: list_all_iff)
  from parses_array [OF this] show ?case by (simp add: comp_def)
next
  case (J_object ms)
  then have "list_all (member_ok utf) (map (\<lambda>(k, j). (k, json_text j, tree_of j)) ms)"
    by (fastforce simp: list_all_iff member_ok_def)
  from parses_object [OF this] show ?case by (simp add: comp_def member_text_def member_tree_def case_prod_unfold)
qed

section \<open>Round trip\<close>



text \<open>Fractional digits multiply the \<open>int\<close> accumulator of the denominator by ten.\<close>

definition zero_fraction :: "nat \<Rightarrow> number_parser" where
  "zero_fraction k = \<lparr>np_n = n_fraction, np_decimal = 0, np_fraction = 10 ^ k, np_exponent = 0, np_sign = sign_plus\<rparr>"

lemma zero_fraction_step: "k < 9 \<Longrightarrow> number_step 48 (zero_fraction k) = Inr (More (zero_fraction (Suc k)))"
proof -
  assume "k < 9"
  then have "(10 :: int) ^ Suc k \<le> 10 ^ 9" by (intro power_increasing) simp_all
  then show ?thesis by (simp add: number_step_def zero_fraction_def isdigit_def int_max_def long_max_def)
qed

lemma zero_fraction_run: "k \<le> 9 \<Longrightarrow> runs utf (replicate k 48) (Impl (P_num (zero_fraction 0)) True) pt_empty (Impl (P_num (zero_fraction k)) True) pt_empty"
proof (induction k)
  case (Suc k)
  have "takes utf 48 (Impl (P_num (zero_fraction k)) True) pt_empty (Impl (P_num (zero_fraction (Suc k))) True) pt_empty"
    using Suc.prems by (intro takes_once) (simp_all add: zero_fraction_step scalar_def)
  from runs_append [OF Suc.IH runs_single [OF this]] show ?case using Suc.prems by (simp add: replicate_append_same)
qed (simp add: runs_nil)

lemma zero_fraction_overflow: "number_step 48 (zero_fraction 9) = Inl Overflow"
  by (simp add: number_step_def zero_fraction_def isdigit_def int_max_def long_max_def)

text \<open>
  Where the parser differs from JSON: an empty array with a blank inside is refused,
  and so is every string with a byte beyond ASCII; a number with ten fractional digits overflows the
  accumulator, while a sign alone, a leading plus and a trailing point are accepted.
\<close>

theorem json_deviations:
  assumes "is_json_space sp" "126 < ch" "list_all valid_char s"
  shows "json_write 3 utf [91, sp, 93] parser_impl_new pt_empty = Some (Inl Syntax_Error)
    \<and> json_write 3 utf (34 # concat (map escape_char s) @ ch # cs) parser_impl_new pt_empty = Some (Inl Syntax_Error)
    \<and> json_write 3 utf ([48, 46] @ replicate 10 48) parser_impl_new pt_empty = Some (Inl Overflow)
    \<and> json_write 3 utf [45, 32] parser_impl_new pt_empty = Some (Inr (2, completed, PT [48] []))
    \<and> json_write 3 utf [43, 49, 46, 32] parser_impl_new pt_empty = Some (Inr (4, completed, PT (jl_ratio utf 1 1) []))"
proof (intro conjI)
  show "json_write 3 utf [91, sp, 93] parser_impl_new pt_empty = Some (Inl Syntax_Error)"
  proof -
    have "sp \<noteq> 93" "any_parser sp = Inr P_any" using assms(1) by (auto simp: is_json_space_def any_parser_def)
    then have two: "takes utf sp (Impl (P_arr None 0) True) pt_empty (Impl (P_arr (Some (Impl P_any True)) 1) True) (add_child [] pt_empty)"
      by (intro takes_once) simp_all
    have one: "takes utf 91 parser_impl_new pt_empty (Impl (P_arr None 0) True) pt_empty"
      by (intro takes_once) (simp_all add: parser_impl_new_def any_parser_def is_json_space_def)
    have "any_parser 93 = Inl Syntax_Error" by (simp add: any_parser_def is_json_space_def isdigit_def)
    then show ?thesis using runs_write [OF runs_cons [OF one runs_single [OF two]], of "[93]" 0]
      by (simp add: json_write_def parser_impl_new_def element_def eval_nat_numeral)
  qed
  show "json_write 3 utf ([48, 46] @ replicate 10 48) parser_impl_new pt_empty = Some (Inl Overflow)"
  proof -
    have one: "takes utf 48 parser_impl_new pt_empty (Impl (P_num (number_parser_new 0 sign_plus)) True) pt_empty"
      by (intro takes_once) (simp_all add: parser_impl_new_def any_parser_def is_json_space_def isdigit_def new_number_def)
    have two: "takes utf 46 (Impl (P_num (number_parser_new 0 sign_plus)) True) pt_empty (Impl (P_num (zero_fraction 0)) True) pt_empty"
      by (intro takes_once) (simp_all add: number_step_def number_parser_new_def scalar_def zero_fraction_def)
    have "runs utf ([48, 46] @ replicate 9 48) parser_impl_new pt_empty (Impl (P_num (zero_fraction 9)) True) pt_empty"
      using runs_cons [OF one runs_cons [OF two zero_fraction_run [of 9 utf]]] by simp
    from runs_write [OF this, of "[48]" 0] show ?thesis
      using zero_fraction_overflow by (simp add: json_write_def parser_impl_new_def scalar_def eval_nat_numeral)
  qed
  show "json_write 3 utf [45, 32] parser_impl_new pt_empty = Some (Inr (2, completed, PT [48] []))" by code_simp
  show "json_write 3 utf [43, 49, 46, 32] parser_impl_new pt_empty = Some (Inr (4, completed, PT (jl_ratio utf 1 1) []))" by code_simp
  show "json_write 3 utf (34 # concat (map escape_char s) @ ch # cs) parser_impl_new pt_empty = Some (Inl Syntax_Error)"
  proof -
    obtain q where q: "string_feed utf (concat (map escape_char s)) string_parser_new = Some q" "plain_string q s"
      using string_feed_chars [OF plain_new assms(3)] by auto
    have "takes utf 34 parser_impl_new pt_empty (Impl (P_str string_parser_new) True) pt_empty"
      by (intro takes_once) (simp_all add: parser_impl_new_def any_parser_def is_json_space_def)
    from runs_cons [OF this string_feed_runs [OF q(1)]]
    have "write_loop 3 utf ((34 # concat (map escape_char s)) @ ch # cs) 0 parser_impl_new pt_empty
        = write_loop 3 utf (ch # cs) (0 + length (34 # concat (map escape_char s))) (Impl (P_str q) True) pt_empty"
      by (rule runs_write)
    moreover have "string_step utf ch q = Inl Syntax_Error"
      using q(2) assms(2) by (auto simp: plain_string_def string_step_def isprint_def)
    ultimately show ?thesis by (simp add: json_write_def parser_impl_new_def scalar_def eval_nat_numeral)
  qed
qed

theorem json_deviations_witness:
  "json_write 3 no_lib [91, 32, 93] parser_impl_new pt_empty = Some (Inl Syntax_Error)
   \<and> json_write 3 no_lib [34, 97, 0xE3] parser_impl_new pt_empty = Some (Inl Syntax_Error)"
  using json_deviations [of 32 "0xE3" "[97]" no_lib "[]"]
  by (simp add: is_json_space_def valid_char_def isprint_def escape_char_def)

end
