(* ===== verification/Email_Headers.thy ===== *)
theory Email_Headers
  imports Sequenced_Map Ctype
begin

text \<open>
  The headers of a message (\<^verbatim>\<open>email/headers.hpp\<close>): a sequenced multimap from names to
  dispositions, each with its text and a sequenced map of parameters, and the evaluation of the
  content headers (\<^verbatim>\<open>email/detail/encoding.hpp\<close>). Names are compared by \<open>boost::iequals\<close>, the
  parameter \<open>eq\<close>, and prefixes by \<open>boost::istarts_with\<close>, the parameter \<open>ipre\<close>; a reference is
  the position of its element.
\<close>

section \<open>Headers and dispositions\<close>

record disposition =
  d_data :: "byte list"
  d_params :: "(byte list \<times> byte list) list"

type_synonym headers = "(byte list \<times> disposition) list"

type_synonym name_eq = "byte list \<Rightarrow> byte list \<Rightarrow> bool"

definition disposition_new :: disposition where
  "disposition_new = \<lparr>d_data = [], d_params = []\<rparr>"

definition hdr_find :: "name_eq \<Rightarrow> headers \<Rightarrow> byte list \<Rightarrow> nat" where
  "hdr_find eq h name = sm_find eq h name"

definition hdr_at :: "name_eq \<Rightarrow> headers \<Rightarrow> byte list \<Rightarrow> sm_error + disposition" where
  "hdr_at eq h name = sm_at eq h name"

definition hdr_erase :: "headers \<Rightarrow> nat \<Rightarrow> sm_error + headers \<times> nat" where
  "hdr_erase h it = sm_erase h it"

definition hdr_erase_range :: "headers \<Rightarrow> nat \<Rightarrow> nat \<Rightarrow> sm_error + headers \<times> nat" where
  "hdr_erase_range h b e = sm_erase_range h b e"

definition hdr_index :: "name_eq \<Rightarrow> headers \<Rightarrow> byte list \<Rightarrow> headers \<times> nat" where
  "hdr_index eq h name =
     (let it = sm_find eq h name
      in if it = length h then mm_emplace_hint eq h name disposition_new else (h, it))"

definition disp_assign :: "disposition \<Rightarrow> byte list \<Rightarrow> disposition" where
  "disp_assign d s = d\<lparr>d_data := s\<rparr>"

definition disp_append :: "disposition \<Rightarrow> byte list \<Rightarrow> disposition" where
  "disp_append d s = d\<lparr>d_data := d_data d @ s\<rparr>"

definition disp_clear :: "disposition \<Rightarrow> disposition" where
  "disp_clear d = d\<lparr>d_params := []\<rparr>"

definition disp_find :: "name_eq \<Rightarrow> disposition \<Rightarrow> byte list \<Rightarrow> nat" where
  "disp_find eq d name = sm_find eq (d_params d) name"

definition disp_at :: "name_eq \<Rightarrow> disposition \<Rightarrow> byte list \<Rightarrow> sm_error + byte list" where
  "disp_at eq d name = sm_at eq (d_params d) name"

definition disp_index :: "name_eq \<Rightarrow> disposition \<Rightarrow> byte list \<Rightarrow> disposition \<times> nat" where
  "disp_index eq d name =
     (let it = sm_find eq (d_params d) name
      in if it = length (d_params d)
         then let (ps, it') = sm_emplace_hint eq (d_params d) name [] in (d\<lparr>d_params := ps\<rparr>, it')
         else (d, it))"

text \<open>The debug text of a header map.\<close>

definition hdr_dump :: "headers \<Rightarrow> byte list" where
  "hdr_dump h = concat (map (\<lambda>(name, d).
      name @ [58, 32] @ d_data d @ concat (map (\<lambda>(k, v). 32 # k @ [61, 34] @ v @ [34]) (d_params d)) @ [10]) h)"

text \<open>Assignments through the references that \<open>operator[]\<close> returns.\<close>

definition hdr_update :: "name_eq \<Rightarrow> (disposition \<Rightarrow> disposition) \<Rightarrow> headers \<Rightarrow> byte list \<Rightarrow> headers" where
  "hdr_update eq f h name = (let (h', it) = hdr_index eq h name in h'[it := (fst (h' ! it), f (snd (h' ! it)))])"

definition disp_update :: "name_eq \<Rightarrow> (byte list \<Rightarrow> byte list) \<Rightarrow> disposition \<Rightarrow> byte list \<Rightarrow> disposition" where
  "disp_update eq f d name =
     (let (d', it) = disp_index eq d name; ps = d_params d'
      in d'\<lparr>d_params := ps[it := (fst (ps ! it), f (snd (ps ! it)))]\<rparr>)"

section \<open>Encoding parameters\<close>

datatype encoding = enc_ascii | enc_qprint | enc_base64

definition encoding_text :: "encoding \<Rightarrow> string" where
  "encoding_text enc = (case enc of enc_ascii \<Rightarrow> ''7bit or 8bit'' | enc_qprint \<Rightarrow> ''quoted-printable'' | enc_base64 \<Rightarrow> ''base64'')"

record encoding_params =
  ep_charset :: "byte list"
  ep_boundary :: "byte list option"
  ep_enc :: encoding
  ep_text_mode :: bool
  ep_format_flowed :: bool
  ep_delete_space :: bool

text \<open>A string literal of the source as bytes.\<close>

definition bytes_of :: "string \<Rightarrow> byte list" where
  "bytes_of s = map of_char s"

definition get_param :: "name_eq \<Rightarrow> disposition \<Rightarrow> string \<Rightarrow> byte list option" where
  "get_param eq d name =
     (let it = disp_find eq d (bytes_of name)
      in if it \<noteq> length (d_params d) then Some (snd (d_params d ! it)) else None)"

definition get_header :: "name_eq \<Rightarrow> headers \<Rightarrow> string \<Rightarrow> disposition option" where
  "get_header eq h name =
     (let it = hdr_find eq h (bytes_of name) in if it \<noteq> length h then Some (snd (h ! it)) else None)"

definition get_encoding_params :: "name_eq \<Rightarrow> name_eq \<Rightarrow> headers \<Rightarrow> encoding_params" where
  "get_encoding_params eq ipre h =
     (let p0 = \<lparr>ep_charset = bytes_of ''US-ASCII'', ep_boundary = None, ep_enc = enc_ascii, ep_text_mode = False,
                ep_format_flowed = False, ep_delete_space = False\<rparr>;
          p1 = (case get_header eq h ''Content-Type'' of
                  None \<Rightarrow> p0
                | Some ct \<Rightarrow>
                    let p = p0\<lparr>ep_boundary := get_param eq ct ''boundary'', ep_text_mode := ipre (d_data ct) (bytes_of ''text/'')\<rparr>
                    in if ep_text_mode p then
                         p\<lparr>ep_charset := (case get_param eq ct ''charset'' of None \<Rightarrow> ep_charset p | Some v \<Rightarrow> v),
                           ep_format_flowed := (case get_param eq ct ''format'' of None \<Rightarrow> False | Some v \<Rightarrow> eq v (bytes_of ''flowed'')),
                           ep_delete_space := (case get_param eq ct ''delsp'' of None \<Rightarrow> False | Some v \<Rightarrow> eq v (bytes_of ''yes''))\<rparr>
                       else p)
      in case get_header eq h ''Content-Transfer-Encoding'' of
           None \<Rightarrow> p1
         | Some cte \<Rightarrow>
             if eq (d_data cte) (bytes_of ''quoted-printable'') then p1\<lparr>ep_enc := enc_qprint, ep_text_mode := True\<rparr> else p1)"

section \<open>Properties\<close>

text \<open>An assignment through \<open>operator[]\<close> of either container, with the initial value \<open>dflt\<close>.\<close>

fun index_update :: "name_eq \<Rightarrow> 'v \<Rightarrow> ('v \<Rightarrow> 'v) \<Rightarrow> (byte list \<times> 'v) list \<Rightarrow> byte list \<Rightarrow> (byte list \<times> 'v) list" where
  "index_update eq dflt f [] name = [(name, f dflt)]"
| "index_update eq dflt f (e # es) name =
     (if eq (fst e) name then (fst e, f (snd e)) # es else e # index_update eq dflt f es name)"

lemma index_update_found:
  "sm_find eq data name \<noteq> length data \<Longrightarrow>
   data[sm_find eq data name := (fst (data ! sm_find eq data name), f (snd (data ! sm_find eq data name)))] = index_update eq dflt f data name"
  by (induction data) (auto simp: sm_find_def)

lemma index_update_new: "sm_find eq data name = length data \<Longrightarrow> data @ [(name, f dflt)] = index_update eq dflt f data name"
  by (induction data) (auto simp: sm_find_def split: if_splits)

lemma hdr_update_index: "hdr_update eq f h name = index_update eq disposition_new f h name"
  using index_update_found [of eq h name f disposition_new] index_update_new [of eq h name f disposition_new]
  by (cases "sm_find eq h name = length h") (simp_all add: hdr_update_def hdr_index_def mm_emplace_hint_def)

lemma disp_update_index: "disp_update eq f d name = d\<lparr>d_params := index_update eq [] f (d_params d) name\<rparr>"
  using index_update_found [of eq "d_params d" name f "[]"] index_update_new [of eq "d_params d" name f "[]"]
  by (cases "sm_find eq (d_params d) name = length (d_params d)") (simp_all add: disp_update_def disp_index_def sm_emplace_hint_def Let_def)

lemma index_update_lookup:
  assumes "key_equivalence eq"
  shows "sm_lookup eq (index_update eq dflt f data name) k =
    (if eq name k then Some (f (case sm_lookup eq data name of None \<Rightarrow> dflt | Some v \<Rightarrow> v)) else sm_lookup eq data k)"
proof (induction data)
  case Nil
  then show ?case by (simp add: sm_lookup_def)
next
  case (Cons e es)
  show ?case
  proof (cases "eq (fst e) name")
    case True
    then have "eq (fst e) k = eq name k" by (rule key_equivalence.cong_left [OF assms])
    then show ?thesis using True by (simp add: sm_lookup_def)
  next
    case False
    show ?thesis
    proof (cases "eq name k")
      case True
      then have "\<not> eq (fst e) k" using False key_equivalence.cong_right [OF assms] by blast
      then show ?thesis using Cons True False by (simp add: sm_lookup_def)
    next
      case no: False
      then show ?thesis using Cons False by (simp add: sm_lookup_def)
    qed
  qed
qed

lemma index_update_order: "map fst (index_update eq dflt f data name) = map fst data @ (if \<exists>e \<in> set data. eq (fst e) name then [] else [name])"
  by (induction data) auto

text \<open>
  \<open>headers[name]\<close> and \<open>disposition[name]\<close> with an assignment, for any equivalence of names: the
  first element of the name is changed or, when there is none, one is appended behind the others;
  the elements of other names and the order are kept.
\<close>

theorem headers_update:
  assumes "key_equivalence eq"
  shows "sm_lookup eq (hdr_update eq f h name) k =
      (if eq name k then Some (f (case sm_lookup eq h name of None \<Rightarrow> disposition_new | Some d \<Rightarrow> d)) else sm_lookup eq h k)
    \<and> map fst (hdr_update eq f h name) = map fst h @ (if \<exists>e \<in> set h. eq (fst e) name then [] else [name])
    \<and> sm_lookup eq (d_params (disp_update eq g d name)) k =
      (if eq name k then Some (g (case sm_lookup eq (d_params d) name of None \<Rightarrow> [] | Some v \<Rightarrow> v)) else sm_lookup eq (d_params d) k)
    \<and> d_data (disp_update eq g d name) = d_data d"
  by (simp add: hdr_update_index disp_update_index index_update_order index_update_lookup [OF assms])

text \<open>Names that differ in the case of letters only are equal: the predicate that the headers use.\<close>

definition ascii_iequal :: name_eq where
  "ascii_iequal a b \<longleftrightarrow> map ascii_tolower a = map ascii_tolower b"

interpretation iequal: key_equivalence ascii_iequal
  by unfold_locales (simp_all add: ascii_iequal_def)

theorem headers_update_witness:
  "sm_lookup ascii_iequal (hdr_update ascii_iequal (\<lambda>d. disp_append d [55]) [(bytes_of ''Content-Type'', disposition_new)] (bytes_of ''content-type'')) (bytes_of ''CONTENT-TYPE'')
   = Some \<lparr>d_data = [55], d_params = []\<rparr>"
proof -
  have eq: "ascii_iequal (bytes_of ''content-type'') (bytes_of ''CONTENT-TYPE'')" by code_simp
  have "sm_lookup ascii_iequal [(bytes_of ''Content-Type'', disposition_new)] (bytes_of ''content-type'') = Some disposition_new" by code_simp
  then show ?thesis
    using headers_update [OF iequal.key_equivalence_axioms, of "\<lambda>d. disp_append d [55]" "[(bytes_of ''Content-Type'', disposition_new)]" "bytes_of ''content-type''" "bytes_of ''CONTENT-TYPE''"] eq
    by (simp add: disp_append_def disposition_new_def)
qed

text \<open>
  What the content headers select: quoted-printable when the transfer encoding says
  so, and ASCII in all other cases, base64 included; the text mode is that of a \<open>text/\<close> type or of
  quoted-printable; charset, format and delsp count for a \<open>text/\<close> type only.
\<close>

theorem encoding_selection:
  "let p = get_encoding_params eq ipre h; ct = get_header eq h ''Content-Type'';
       qp = (\<exists>d. get_header eq h ''Content-Transfer-Encoding'' = Some d \<and> eq (d_data d) (bytes_of ''quoted-printable''));
       txt = (\<exists>d. ct = Some d \<and> ipre (d_data d) (bytes_of ''text/''))
   in ep_enc p = (if qp then enc_qprint else enc_ascii) \<and> ep_enc p \<noteq> enc_base64
    \<and> ep_text_mode p = (qp \<or> txt)
    \<and> ep_boundary p = Option.bind ct (\<lambda>d. get_param eq d ''boundary'')
    \<and> (ep_charset p = bytes_of ''US-ASCII'' \<or> txt \<and> Some (ep_charset p) = Option.bind ct (\<lambda>d. get_param eq d ''charset''))
    \<and> (ep_format_flowed p \<or> ep_delete_space p \<longrightarrow> txt)"
  by (auto simp: get_encoding_params_def Let_def split: option.splits)

theorem encoding_selection_witness:
  "ep_enc (get_encoding_params ascii_iequal (=) [(bytes_of ''Content-Transfer-Encoding'', \<lparr>d_data = bytes_of ''base64'', d_params = []\<rparr>)]) = enc_ascii"
proof -
  have "get_header ascii_iequal [(bytes_of ''Content-Transfer-Encoding'', \<lparr>d_data = bytes_of ''base64'', d_params = []\<rparr>)] ''Content-Transfer-Encoding''
      = Some \<lparr>d_data = bytes_of ''base64'', d_params = []\<rparr>" "\<not> ascii_iequal (bytes_of ''base64'') (bytes_of ''quoted-printable'')" by code_simp+
  then show ?thesis
    using encoding_selection [of ascii_iequal "(=)" "[(bytes_of ''Content-Transfer-Encoding'', \<lparr>d_data = bytes_of ''base64'', d_params = []\<rparr>)]"]
    by (simp add: Let_def)
qed

end
