(* ===== verification/Byte_Sink.thy ===== *)
theory Byte_Sink
  imports Acqua_Prelude
begin

text \<open>
  The stream filters write to a sink of Boost.Iostreams with
  \<open>boost::iostreams::put(sink, ch)\<close>, which tells whether the character was taken. The sink is a
  parameter \<open>put\<close> of the filters; the locale \<open>accepting_sink\<close> is the case of a sink that takes
  everything, with \<open>out\<close> what it has got. The end of a source is \<open>None\<close>. The second part is the
  automatic line break of \<^verbatim>\<open>iostreams/newline_category.hpp\<close>.
\<close>

datatype newline = nl_none | nl_cr | nl_ln | nl_crln

definition CR :: byte where
  "CR = 13"

definition LF :: byte where
  "LF = 10"

text \<open>\<open>put(sink, a) && put(sink, b)\<close>.\<close>

fun put_seq :: "('s \<Rightarrow> byte \<Rightarrow> 's \<times> bool) \<Rightarrow> 's \<Rightarrow> byte list \<Rightarrow> 's \<times> bool" where
  "put_seq put s [] = (s, True)"
| "put_seq put s (b # bs) = (let (s', ok) = put s b in if ok then put_seq put s' bs else (s', False))"

definition newline_bytes :: "newline \<Rightarrow> byte list" where
  "newline_bytes nl = (case nl of nl_none \<Rightarrow> [] | nl_cr \<Rightarrow> [CR] | nl_ln \<Rightarrow> [LF] | nl_crln \<Rightarrow> [CR, LF])"

section \<open>Automatic line breaks\<close>

record newline_base =
  nb_nl :: newline
  nb_max :: nat
  nb_cnt :: nat

definition newline_base_new :: "newline \<Rightarrow> nat \<Rightarrow> newline_base" where
  "newline_base_new nl mx = \<lparr>nb_nl = nl, nb_max = (if nl = nl_none then 2 ^ 64 - 1 else mx), nb_cnt = 0\<rparr>"

definition nb_incr :: "nat \<Rightarrow> newline_base \<Rightarrow> newline_base" where
  "nb_incr n b = b\<lparr>nb_cnt := nb_cnt b + n\<rparr>"

definition nb_clear :: "newline_base \<Rightarrow> newline_base" where
  "nb_clear b = b\<lparr>nb_cnt := 0\<rparr>"

definition nb_put_ln :: "('s \<Rightarrow> byte \<Rightarrow> 's \<times> bool) \<Rightarrow> 's \<Rightarrow> newline_base \<Rightarrow> 's \<times> newline_base \<times> bool" where
  "nb_put_ln put s b = (let (s', ok) = put_seq put s (newline_bytes (nb_nl b)) in (s', b\<lparr>nb_cnt := 0\<rparr>, ok))"

definition nb_put_nobreak :: "('s \<Rightarrow> byte \<Rightarrow> 's \<times> bool) \<Rightarrow> 's \<Rightarrow> newline_base \<Rightarrow> byte \<Rightarrow> 's \<times> newline_base \<times> bool" where
  "nb_put_nobreak put s b ch = (let (s', ok) = put s ch in (s', b\<lparr>nb_cnt := Suc (nb_cnt b)\<rparr>, ok))"

text \<open>\<open>put\<close> of the base class; \<open>line_break\<close> is the hook that the derived class may override.\<close>

definition nb_put ::
  "('s \<Rightarrow> newline_base \<Rightarrow> 's \<times> newline_base \<times> bool) \<Rightarrow> ('s \<Rightarrow> byte \<Rightarrow> 's \<times> bool) \<Rightarrow> 's \<Rightarrow> newline_base \<Rightarrow> byte
   \<Rightarrow> 's \<times> newline_base \<times> bool" where
  "nb_put line_break put s b ch =
     (if nb_max b \<le> nb_cnt b then
        let (s', b', ok) = line_break s b in if ok then nb_put_nobreak put s' b' ch else (s', b', False)
      else nb_put_nobreak put s b ch)"

section \<open>Sinks that take everything\<close>

locale accepting_sink =
  fixes put :: "'s \<Rightarrow> byte \<Rightarrow> 's \<times> bool" and out :: "'s \<Rightarrow> byte list"
  assumes put_ok: "snd (put s ch)" and put_out: "out (fst (put s ch)) = out s @ [ch]"
begin

lemma put_seq_ok: "snd (put_seq put s bs)"
proof (induction bs arbitrary: s)
  case (Cons b bs)
  have "snd (put s b)" by (rule put_ok)
  then show ?case using Cons by (simp add: case_prod_beta)
qed simp

lemma put_seq_out: "out (fst (put_seq put s bs)) = out s @ bs"
proof (induction bs arbitrary: s)
  case (Cons b bs)
  have "snd (put s b)" by (rule put_ok)
  then show ?case using Cons by (simp add: case_prod_beta put_out)
qed simp

lemma put_seq_cases:
  obtains s' where "put_seq put s bs = (s', True)" "out s' = out s @ bs"
  using put_seq_ok [of s bs] put_seq_out [of s bs] by (cases "put_seq put s bs") auto

end

text \<open>A string that grows at its end, as behind a \<open>back_inserter\<close>.\<close>

definition string_put :: "byte list \<Rightarrow> byte \<Rightarrow> byte list \<times> bool" where
  "string_put s ch = (s @ [ch], True)"

interpretation string_sink: accepting_sink string_put id
  by unfold_locales (simp_all add: string_put_def)

text \<open>A source that is a string.\<close>

fun list_get :: "byte list \<Rightarrow> byte list \<times> byte option" where
  "list_get [] = ([], None)"
| "list_get (b # bs) = (bs, Some b)"

end
