(* ===== verification/Base64.thy ===== *)
theory Base64
  imports Byte_Sink
begin

text \<open>
  The base64 filters (\<^verbatim>\<open>iostreams/base64_filter.hpp\<close>): the encoder and the decoder as
  output filters (\<open>put\<close>, \<open>close\<close>) and as input filters (\<open>get\<close>), for both alphabets. A \<open>char\<close> is
  a byte; \<open>prior_\<close> is \<open>None\<close> for \<open>EOF\<close>. The counters \<open>cnt_\<close> and \<open>max_\<close> are natural numbers, as
  \<open>cnt_\<close> is reset before it passes \<open>max_\<close>.
\<close>

section \<open>Alphabets\<close>

record base64_traits =
  tbl :: "byte list"
  padding :: bool

definition npos :: nat where
  "npos = 64"

definition base64_std :: base64_traits where
  "base64_std = \<lparr>tbl = map word_of_nat ([65..<91] @ [97..<123] @ [48..<58] @ [43, 47]), padding = True\<rparr>"

definition base64_url :: base64_traits where
  "base64_url = \<lparr>tbl = map word_of_nat ([65..<91] @ [97..<123] @ [48..<58] @ [45, 95]), padding = False\<rparr>"

text \<open>The table is a string literal: behind its end there is the terminating 0.\<close>

definition enc :: "base64_traits \<Rightarrow> byte \<Rightarrow> byte" where
  "enc T ch = (tbl T @ [0]) ! min (unat ch) npos"

fun std_find :: "byte \<Rightarrow> byte list \<Rightarrow> nat" where
  "std_find x [] = 0"
| "std_find x (y # ys) = (if y = x then 0 else Suc (std_find x ys))"

definition dec :: "base64_traits \<Rightarrow> byte \<Rightarrow> nat" where
  "dec T ch = std_find ch (tbl T)"

section \<open>Encoder\<close>

record base64_encoder =
  be_nl :: newline
  be_max :: nat
  be_cnt :: nat
  be_prior :: "byte option"

text \<open>For a line size below 4 the constructor leaves \<open>max_\<close> uninitialised: \<open>junk\<close>.\<close>

definition base64_encoder_new :: "nat \<Rightarrow> newline \<Rightarrow> nat \<Rightarrow> base64_encoder" where
  "base64_encoder_new junk nl size' =
     \<lparr>be_nl = nl,
      be_max = (if size' < 4 then junk
                else let size'' = (case nl of nl_none \<Rightarrow> 2 ^ 64 - 1 | nl_crln \<Rightarrow> size' - 2 | _ \<Rightarrow> size' - 1)
                     in size'' - size'' mod 4),
      be_cnt = 0, be_prior = Some 0\<rparr>"

definition prior_byte :: "byte option \<Rightarrow> byte" where
  "prior_byte p = (case p of None \<Rightarrow> 0xFF | Some b \<Rightarrow> b)"

definition put_break :: "('s \<Rightarrow> byte \<Rightarrow> 's \<times> bool) \<Rightarrow> 's \<Rightarrow> base64_encoder \<Rightarrow> 's \<times> base64_encoder \<times> bool" where
  "put_break put s e = (let (s', ok) = put_seq put s (newline_bytes (be_nl e)) in (s', e\<lparr>be_cnt := 0\<rparr>, ok))"

text \<open>
  \<open>put\<close>. A position 3 does not occur, since position 2 writes two characters; there
  \<open>res\<close> would be returned without a value.
\<close>

definition encoder_put ::
  "base64_traits \<Rightarrow> ('s \<Rightarrow> byte \<Rightarrow> 's \<times> bool) \<Rightarrow> 's \<Rightarrow> base64_encoder \<Rightarrow> byte \<Rightarrow> 's \<times> base64_encoder \<times> bool" where
  "encoder_put T put s e ch =
     (let p = prior_byte (be_prior e);
          done = (\<lambda>k (s', ok) e'. (s', e'\<lparr>be_cnt := be_cnt e' + k, be_prior := Some ch\<rparr>, ok))
      in if be_cnt e mod 4 = 0 then
           let (s', e', ok) = (if be_max e \<le> be_cnt e then put_break put s e else (s, e, True))
           in if ok then done 1 (put s' (enc T (drop_bit 2 (ch AND 0xFC)))) e' else (s', e', False)
         else if be_cnt e mod 4 = 1 then
           done 1 (put s (enc T (push_bit 4 (p AND 0x03) OR drop_bit 4 (ch AND 0xF0)))) e
         else if be_cnt e mod 4 = 2 then
           done 2 (put_seq put s [enc T (push_bit 2 (p AND 0x0F) OR drop_bit 6 (ch AND 0xC0)), enc T (ch AND 0x3F)]) e
         else done 1 (s, False) e)"

definition EQUALS :: byte where
  "EQUALS = 61"

definition encoder_close ::
  "base64_traits \<Rightarrow> ('s \<Rightarrow> byte \<Rightarrow> 's \<times> bool) \<Rightarrow> 's \<Rightarrow> base64_encoder \<Rightarrow> 's \<times> base64_encoder" where
  "encoder_close T put s e =
     (if 0 < be_cnt e then
        let p = prior_byte (be_prior e);
            w = (\<lambda>s b. fst (put s b));
            s' = (if be_cnt e mod 4 = 1 then
                    let s1 = w s (enc T (push_bit 4 (p AND 0x03)))
                    in if padding T then w (w s1 EQUALS) EQUALS else s1
                  else if be_cnt e mod 4 = 2 then
                    let s1 = w s (enc T (push_bit 2 (p AND 0x0F)))
                    in if padding T then w s1 EQUALS else s1
                  else s);
            (s'', e', ok) = put_break put s' e
        in (s'', e')
      else (s, e))"

text \<open>\<open>get_break\<close> and \<open>get\<close>; the source is a parameter, its end is \<open>None\<close>.\<close>

definition get_break :: "base64_encoder \<Rightarrow> base64_encoder \<times> byte option" where
  "get_break e =
     (case be_nl e of
        nl_ln \<Rightarrow> (e\<lparr>be_cnt := 0\<rparr>, Some LF)
      | nl_cr \<Rightarrow> (e\<lparr>be_cnt := 0\<rparr>, Some CR)
      | nl_crln \<Rightarrow> (if be_cnt e = be_max e then (e\<lparr>be_cnt := Suc (be_cnt e)\<rparr>, Some CR) else (e\<lparr>be_cnt := 0\<rparr>, Some LF))
      | nl_none \<Rightarrow> (e\<lparr>be_cnt := 0\<rparr>, None))"

definition encoder_get ::
  "base64_traits \<Rightarrow> ('src \<Rightarrow> 'src \<times> byte option) \<Rightarrow> 'src \<Rightarrow> base64_encoder \<Rightarrow> 'src \<times> base64_encoder \<times> byte option" where
  "encoder_get T get src e =
     (let p = prior_byte (be_prior e);
          ret = (\<lambda>src' e' prior' c. (src', e'\<lparr>be_cnt := Suc (be_cnt e'), be_prior := prior'\<rparr>, Some c));
          brk = (\<lambda>src' e'. let (e'', c) = get_break e' in (src', e'', c))
      in if be_cnt e mod 4 = 0 then
           let (e0, c) = (if be_max e \<le> be_cnt e then get_break e else (e, None))
           in if c \<noteq> None then (src, e0, c)
              else if be_prior e0 = None then (src, e0, None)
              else (case get src of
                 (src', None) \<Rightarrow>
                   if be_cnt e0 = 0 then (src', e0\<lparr>be_prior := None\<rparr>, None)
                   else brk src' (e0\<lparr>be_prior := None, be_max := be_cnt e0\<rparr>)
               | (src', Some ch) \<Rightarrow> ret src' e0 (Some ch) (enc T (drop_bit 2 (ch AND 0xFC))))
         else if be_cnt e mod 4 = 1 then
           if be_max e \<le> be_cnt e then brk src e
           else (case get src of
                (src', None) \<Rightarrow> ret src' e None (enc T (push_bit 4 (p AND 0x03)))
              | (src', Some ch) \<Rightarrow> ret src' e (Some ch) (enc T (push_bit 4 (p AND 0x03) OR drop_bit 4 (ch AND 0xF0))))
         else if be_cnt e mod 4 = 2 then
           if be_prior e = None then
             if padding T then ret src e None EQUALS else brk src (e\<lparr>be_max := be_cnt e\<rparr>)
           else (case get src of
                (src', None) \<Rightarrow> ret src' e None (enc T (push_bit 2 (p AND 0x0F)))
              | (src', Some ch) \<Rightarrow> ret src' e (Some ch) (enc T (push_bit 2 (p AND 0x0F) OR drop_bit 6 (ch AND 0xC0))))
         else
           if be_prior e = None then
             if padding T then ret src (if 0 < be_cnt e then e\<lparr>be_max := Suc (be_cnt e)\<rparr> else e) None EQUALS
             else brk src (e\<lparr>be_max := be_cnt e\<rparr>)
           else ret src e (be_prior e) (enc T (p AND 0x3F)))"

section \<open>Decoder\<close>

record base64_decoder =
  bd_cnt :: nat
  bd_prior :: byte

definition base64_decoder_new :: base64_decoder where
  "base64_decoder_new = \<lparr>bd_cnt = 0, bd_prior = 0\<rparr>"

text \<open>The characters that the decoder skips.\<close>

definition skipped :: "base64_traits \<Rightarrow> byte \<Rightarrow> bool" where
  "skipped T ch \<longleftrightarrow> ch = CR \<or> ch = LF \<or> ch = EQUALS \<or> npos \<le> dec T ch"

text \<open>The value at a position of a group; the conversion to \<open>char\<close> keeps the low byte.\<close>

definition group_value :: "nat \<Rightarrow> byte \<Rightarrow> byte \<Rightarrow> byte option" where
  "group_value pos p ch =
     (if pos = 1 then Some (push_bit 2 (p AND 0x3F) OR drop_bit 4 (ch AND 0x30))
      else if pos = 2 then Some (push_bit 4 (p AND 0x0F) OR drop_bit 2 (ch AND 0x3C))
      else if pos = 3 then Some (push_bit 6 (p AND 0x0F) OR (ch AND 0x3F))
      else None)"

definition decoder_put ::
  "base64_traits \<Rightarrow> ('s \<Rightarrow> byte \<Rightarrow> 's \<times> bool) \<Rightarrow> 's \<Rightarrow> base64_decoder \<Rightarrow> byte \<Rightarrow> 's \<times> base64_decoder \<times> bool" where
  "decoder_put T put s d ch =
     (if skipped T ch then (s, d, True)
      else let v = word_of_nat (dec T ch); d' = \<lparr>bd_cnt = Suc (bd_cnt d), bd_prior = v\<rparr>
           in case group_value (bd_cnt d mod 4) (bd_prior d) v of
                Some b \<Rightarrow> (let (s', ok) = put s b in (s', d', ok))
              | None \<Rightarrow> (s, d', True))"

text \<open>
  \<open>get\<close> reads until a value is complete; a source may not end, hence the fuel. It returns the
  \<open>int\<close> without a conversion to \<open>char\<close>.
\<close>

definition group_int :: "nat \<Rightarrow> byte \<Rightarrow> byte \<Rightarrow> 32 word option" where
  "group_int pos p ch =
     (if pos = 1 then Some (push_bit 2 (ucast p AND 0x3F) OR drop_bit 4 (ucast ch AND 0x30))
      else if pos = 2 then Some (push_bit 4 (ucast p AND 0x0F) OR drop_bit 2 (ucast ch AND 0x3C))
      else if pos = 3 then Some (push_bit 6 (ucast p AND 0x0F) OR (ucast ch AND 0x3F))
      else None)"

fun decoder_get ::
  "nat \<Rightarrow> base64_traits \<Rightarrow> ('src \<Rightarrow> 'src \<times> byte option) \<Rightarrow> 'src \<Rightarrow> base64_decoder \<Rightarrow> ('src \<times> base64_decoder \<times> 32 word option) option" where
  "decoder_get 0 T get src d = None"
| "decoder_get (Suc fuel) T get src d =
     (case get src of
        (src', None) \<Rightarrow> Some (src', d, None)
      | (src', Some ch) \<Rightarrow>
          if skipped T ch then decoder_get fuel T get src' d
          else let v = word_of_nat (dec T ch); d' = \<lparr>bd_cnt = Suc (bd_cnt d), bd_prior = v\<rparr>
               in case group_int (bd_cnt d mod 4) (bd_prior d) v of
                    Some b \<Rightarrow> Some (src', d', Some b)
                  | None \<Rightarrow> decoder_get fuel T get src' d')"

section \<open>Alphabets are invertible\<close>

locale base64_alphabet =
  fixes T :: base64_traits
  assumes tbl_length: "length (tbl T) = 64" and tbl_distinct: "distinct (tbl T)"
    and tbl_plain: "CR \<notin> set (tbl T)" "LF \<notin> set (tbl T)" "EQUALS \<notin> set (tbl T)"
begin

lemma std_find_nth: "distinct xs \<Longrightarrow> i < length xs \<Longrightarrow> std_find (xs ! i) xs = i"
  by (induction xs arbitrary: i) (auto simp: nth_Cons' split: if_splits)

lemma enc_nth: "unat v < 64 \<Longrightarrow> enc T v = tbl T ! unat v"
  by (simp add: enc_def npos_def nth_append tbl_length)

lemma dec_enc: "unat v < 64 \<Longrightarrow> dec T (enc T v) = unat v"
  by (simp add: enc_nth dec_def std_find_nth tbl_distinct tbl_length)

lemma enc_in_tbl: "unat v < 64 \<Longrightarrow> enc T v \<in> set (tbl T)"
  by (simp add: enc_nth tbl_length)

lemma enc_not_skipped:
  assumes "unat v < 64"
  shows "\<not> skipped T (enc T v)"
proof -
  have "enc T v \<noteq> CR" "enc T v \<noteq> LF" "enc T v \<noteq> EQUALS" using enc_in_tbl [OF assms] tbl_plain by auto
  then show ?thesis using assms by (simp add: skipped_def dec_enc npos_def)
qed

end

lemma byte_of_nat_inj: "inj_on (word_of_nat :: nat \<Rightarrow> byte) {..<256}"
  by (rule inj_onI) (simp add: word_unat_eq_iff unsigned_of_nat take_bit_eq_mod)

text \<open>An alphabet of letters, digits and two more characters.\<close>

lemma alphabet_laws:
  assumes "tbl T = map word_of_nat ([65..<91] @ [97..<123] @ [48..<58] @ [x, y])"
    "x \<in> {43, 45}" "y \<in> {47, 95}"
  shows "base64_alphabet T"
proof
  let ?codes = "[65..<91] @ [97..<123] @ [48..<58] @ [x, y]"
  have set: "set ?codes \<subseteq> {..<256}" "13 \<notin> set ?codes" "10 \<notin> set ?codes" "61 \<notin> set ?codes"
    using assms(2,3) by (auto simp del: upt_rec_numeral)
  have "distinct ?codes" using assms(2,3) by (auto simp del: upt_rec_numeral)
  then show "distinct (tbl T)" unfolding assms(1) distinct_map using inj_on_subset [OF byte_of_nat_inj set(1)] by blast
  have mem: "word_of_nat c \<in> set (tbl T) \<longleftrightarrow> c \<in> set ?codes" if "c < 256" for c
    unfolding assms(1) set_map using inj_on_image_mem_iff [OF byte_of_nat_inj _ set(1)] that by blast
  show "CR \<notin> set (tbl T)" "LF \<notin> set (tbl T)" "EQUALS \<notin> set (tbl T)"
    using mem [of 13] mem [of 10] mem [of 61] set(2-4) by (simp_all add: CR_def LF_def EQUALS_def del: upt_rec_numeral)
  show "length (tbl T) = 64" unfolding assms(1) by (simp del: upt_rec_numeral)
qed

interpretation std_alphabet: base64_alphabet base64_std
  by (rule alphabet_laws [of _ 43 47]) (simp_all add: base64_std_def del: upt_rec_numeral)

interpretation url_alphabet: base64_alphabet base64_url
  by (rule alphabet_laws [of _ 45 95]) (simp_all add: base64_url_def del: upt_rec_numeral)

section \<open>Groups of three bytes\<close>

text \<open>The four 6-bit values of a group.\<close>

definition sextet0 :: "byte \<Rightarrow> byte" where
  "sextet0 a = drop_bit 2 (a AND 0xFC)"

definition sextet1 :: "byte \<Rightarrow> byte \<Rightarrow> byte" where
  "sextet1 a b = push_bit 4 (a AND 0x03) OR drop_bit 4 (b AND 0xF0)"

definition sextet2 :: "byte \<Rightarrow> byte \<Rightarrow> byte" where
  "sextet2 b c = push_bit 2 (b AND 0x0F) OR drop_bit 6 (c AND 0xC0)"

definition sextet3 :: "byte \<Rightarrow> byte" where
  "sextet3 c = c AND 0x3F"

lemma byte_masks:
  "(0xFC :: byte) = NOT (mask 2)" "(0x03 :: byte) = mask 2" "(0xF0 :: byte) = NOT (mask 4)" "(0x0F :: byte) = mask 4"
  "(0xC0 :: byte) = NOT (mask 6)" "(0x3F :: byte) = mask 6" "(0x30 :: byte) = push_bit 4 (mask 2)" "(0x3C :: byte) = push_bit 2 (mask 4)"
  by code_simp+

lemmas sextet_defs = sextet0_def sextet1_def sextet2_def sextet3_def

lemma six_bits: "(\<And>n. bit v n \<Longrightarrow> n < 6) \<Longrightarrow> unat (v :: byte) < 64"
proof -
  assume "\<And>n. bit v n \<Longrightarrow> n < 6"
  then have "take_bit 6 v = v" by (intro bit_word_eqI) (auto simp: bit_simps)
  then have "unat v = take_bit 6 (unat v)" by (metis unsigned_take_bit_eq)
  then show ?thesis using take_bit_nat_less_exp [of 6 "unat v"] by simp
qed

lemma sextet_less: "unat (sextet0 a) < 64" "unat (sextet1 a b) < 64" "unat (sextet2 b c) < 64" "unat (sextet3 c) < 64"
  by (rule six_bits; auto simp: sextet_defs byte_masks bit_simps dest: bit_imp_le_length)+

lemma group_bits:
  "push_bit 2 (sextet0 a AND 0x3F) OR drop_bit 4 (sextet1 a b AND 0x30) = a"
  "push_bit 4 (sextet1 a b AND 0x0F) OR drop_bit 2 (sextet2 b c AND 0x3C) = b"
  "push_bit 6 (sextet2 b c AND 0x0F) OR (sextet3 c AND 0x3F) = c"
  unfolding sextet_defs byte_masks by (rule byte_eqI; simp add: bit_simps; fail)+

lemma group_values:
  "group_value 0 p v = None"
  "group_value 1 (sextet0 a) (sextet1 a b) = Some a"
  "group_value 2 (sextet1 a b) (sextet2 b c) = Some b"
  "group_value 3 (sextet2 b c) (sextet3 c) = Some c"
  by (simp_all only: group_value_def group_bits simp_thms if_True if_False) simp_all

section \<open>The text of the encoder\<close>

text \<open>Writing a sequence through a filter, as a stream does.\<close>

fun encoder_write ::
  "base64_traits \<Rightarrow> ('s \<Rightarrow> byte \<Rightarrow> 's \<times> bool) \<Rightarrow> 's \<Rightarrow> base64_encoder \<Rightarrow> byte list \<Rightarrow> 's \<times> base64_encoder \<times> bool" where
  "encoder_write T put s e [] = (s, e, True)"
| "encoder_write T put s e (b # bs) =
     (let (s', e', ok) = encoder_put T put s e b in if ok then encoder_write T put s' e' bs else (s', e', False))"

fun decoder_write ::
  "base64_traits \<Rightarrow> ('s \<Rightarrow> byte \<Rightarrow> 's \<times> bool) \<Rightarrow> 's \<Rightarrow> base64_decoder \<Rightarrow> byte list \<Rightarrow> 's \<times> base64_decoder \<times> bool" where
  "decoder_write T put s d [] = (s, d, True)"
| "decoder_write T put s d (b # bs) =
     (let (s', d', ok) = decoder_put T put s d b in if ok then decoder_write T put s' d' bs else (s', d', False))"

text \<open>
  The reference: the text of a byte sequence, group by group, when \<open>cnt\<close> characters are
  already on the line. A line break comes before a group that would start at \<open>mx\<close> or later,
  and after the last group.
\<close>

fun base64_text :: "base64_traits \<Rightarrow> newline \<Rightarrow> nat \<Rightarrow> nat \<Rightarrow> byte list \<Rightarrow> byte list" where
  "base64_text T nl mx cnt (a # b # c # bs) =
     (if mx \<le> cnt then newline_bytes nl else []) @
     map (enc T) [sextet0 a, sextet1 a b, sextet2 b c, sextet3 c] @
     base64_text T nl mx (if mx \<le> cnt then 4 else cnt + 4) bs"
| "base64_text T nl mx cnt [a, b] =
     (if mx \<le> cnt then newline_bytes nl else []) @
     map (enc T) [sextet0 a, sextet1 a b, sextet2 b 0] @ (if padding T then [EQUALS] else []) @ newline_bytes nl"
| "base64_text T nl mx cnt [a] =
     (if mx \<le> cnt then newline_bytes nl else []) @
     map (enc T) [sextet0 a, sextet1 a 0] @ (if padding T then [EQUALS, EQUALS] else []) @ newline_bytes nl"
| "base64_text T nl mx cnt [] = (if 0 < cnt then newline_bytes nl else [])"

lemma sextet_zero: "sextet1 a 0 = push_bit 4 (a AND 0x03)" "sextet2 b 0 = push_bit 2 (b AND 0x0F)"
  by (simp_all add: sextet_defs)

text \<open>One byte through an accepting sink, by the position in the group.\<close>

lemma mod4_succ:
  "n mod 4 = 0 \<Longrightarrow> Suc n mod 4 = 1" "n mod 4 = 1 \<Longrightarrow> Suc n mod 4 = 2" "n mod 4 = 2 \<Longrightarrow> Suc (Suc n) mod 4 = 0" for n :: nat
  by presburger+

context accepting_sink
begin

lemma put_cases: obtains s' where "put s c = (s', True)" "out s' = out s @ [c]"
  using put_ok [of s c] put_out [of s c] by (cases "put s c") auto

lemma encoder_put0:
  assumes "be_cnt e mod 4 = 0"
  shows "\<exists>s'. encoder_put T put s e a = (s', e\<lparr>be_cnt := (if be_max e \<le> be_cnt e then 1 else Suc (be_cnt e)), be_prior := Some a\<rparr>, True)
    \<and> out s' = out s @ (if be_max e \<le> be_cnt e then newline_bytes (be_nl e) else []) @ [enc T (sextet0 a)]"
proof (cases "be_max e \<le> be_cnt e")
  case True
  obtain s1 where s1: "put_seq put s (newline_bytes (be_nl e)) = (s1, True)" "out s1 = out s @ newline_bytes (be_nl e)"
    by (rule put_seq_cases)
  obtain s2 where "put s1 (enc T (sextet0 a)) = (s2, True)" "out s2 = out s1 @ [enc T (sextet0 a)]" by (rule put_cases)
  then show ?thesis using assms True s1 by (simp add: encoder_put_def put_break_def sextet0_def Let_def)
next
  case False
  obtain s2 where "put s (enc T (sextet0 a)) = (s2, True)" "out s2 = out s @ [enc T (sextet0 a)]" by (rule put_cases)
  then show ?thesis using assms False by (simp add: encoder_put_def sextet0_def Let_def)
qed

lemma encoder_put1:
  assumes "be_cnt e mod 4 = 1" "be_prior e = Some a"
  shows "\<exists>s'. encoder_put T put s e b = (s', e\<lparr>be_cnt := Suc (be_cnt e), be_prior := Some b\<rparr>, True)
    \<and> out s' = out s @ [enc T (sextet1 a b)]"
proof -
  obtain s2 where "put s (enc T (sextet1 a b)) = (s2, True)" "out s2 = out s @ [enc T (sextet1 a b)]" by (rule put_cases)
  then show ?thesis using assms by (simp add: encoder_put_def prior_byte_def sextet1_def Let_def)
qed

lemma encoder_put2:
  assumes "be_cnt e mod 4 = 2" "be_prior e = Some b"
  shows "\<exists>s'. encoder_put T put s e c = (s', e\<lparr>be_cnt := Suc (Suc (be_cnt e)), be_prior := Some c\<rparr>, True)
    \<and> out s' = out s @ [enc T (sextet2 b c), enc T (sextet3 c)]"
proof -
  obtain s2 where "put_seq put s [enc T (sextet2 b c), enc T (sextet3 c)] = (s2, True)"
      "out s2 = out s @ [enc T (sextet2 b c), enc T (sextet3 c)]"
    by (rule put_seq_cases)
  then show ?thesis using assms by (simp add: encoder_put_def prior_byte_def sextet2_def sextet3_def Let_def)
qed

text \<open>A whole run: write all bytes, then close.\<close>

lemma encoder_close_out:
  assumes "0 < be_cnt e"
  shows "out (fst (encoder_close T put s e)) = out s @
    (if be_cnt e mod 4 = 1 then enc T (sextet1 (prior_byte (be_prior e)) 0) # (if padding T then [EQUALS, EQUALS] else [])
     else if be_cnt e mod 4 = 2 then enc T (sextet2 (prior_byte (be_prior e)) 0) # (if padding T then [EQUALS] else [])
     else []) @ newline_bytes (be_nl e)"
  using assms by (simp add: encoder_close_def put_break_def case_prod_beta Let_def put_seq_out put_out sextet_zero)

lemma encoder_run_out:
  assumes "be_cnt e mod 4 = 0"
  shows "\<exists>s' e'. encoder_write T put s e bs = (s', e', True)
    \<and> out (fst (encoder_close T put s' e')) = out s @ base64_text T (be_nl e) (be_max e) (be_cnt e) bs"
  using assms
proof (induction T "be_nl e" "be_max e" "be_cnt e" bs arbitrary: s e rule: base64_text.induct)
  case (1 T a b c bs)
  let ?n = "if be_max e \<le> be_cnt e then 1 else Suc (be_cnt e)"
  have n: "?n mod 4 = 1" using 1(2) mod4_succ(1) by auto
  define e1 e2 e3 where "e1 = e\<lparr>be_cnt := ?n, be_prior := Some a\<rparr>"
    and "e2 = e1\<lparr>be_cnt := Suc ?n, be_prior := Some b\<rparr>" and "e3 = e2\<lparr>be_cnt := Suc (Suc (Suc ?n)), be_prior := Some c\<rparr>"
  obtain s1 where s1: "encoder_put T put s e a = (s1, e1, True)"
      "out s1 = out s @ (if be_max e \<le> be_cnt e then newline_bytes (be_nl e) else []) @ [enc T (sextet0 a)]"
    using encoder_put0 [OF 1(2)] unfolding e1_def by blast
  obtain s2 where s2: "encoder_put T put s1 e1 b = (s2, e2, True)" "out s2 = out s1 @ [enc T (sextet1 a b)]"
    using encoder_put1 [of e1 a T s1 b] n by (auto simp: e1_def e2_def)
  obtain s3 where s3: "encoder_put T put s2 e2 c = (s3, e3, True)" "out s3 = out s2 @ [enc T (sextet2 b c), enc T (sextet3 c)]"
    using encoder_put2 [of e2 b T s2 c] mod4_succ(2) [OF n] by (auto simp: e2_def e3_def)
  have e3: "be_nl e = be_nl e3" "be_max e = be_max e3" "(if be_max e \<le> be_cnt e then 4 else be_cnt e + 4) = be_cnt e3"
    "be_cnt e3 mod 4 = 0"
    using 1(2) by (auto simp: e3_def e2_def e1_def)
  show ?case
  proof -
    obtain s' e' where run: "encoder_write T put s3 e3 bs = (s', e', True)"
        "out (fst (encoder_close T put s' e')) = out s3 @ base64_text T (be_nl e3) (be_max e3) (be_cnt e3) bs"
      using 1(1) [OF e3(1-4), of s3] by blast
    then have "out (fst (encoder_close T put s' e')) = out s @ base64_text T (be_nl e) (be_max e) (be_cnt e) (a # b # c # bs)"
      unfolding base64_text.simps e3(3) using s1(2) s2(2) s3(2) e3(1,2) by simp
    then show ?thesis using run(1) s1(1) s2(1) s3(1) by simp
  qed
next
  case (2 T a b)
  let ?n = "if be_max e \<le> be_cnt e then 1 else Suc (be_cnt e)"
  have n: "?n mod 4 = 1" using 2 mod4_succ(1) by auto
  define e1 e2 where "e1 = e\<lparr>be_cnt := ?n, be_prior := Some a\<rparr>" and "e2 = e1\<lparr>be_cnt := Suc ?n, be_prior := Some b\<rparr>"
  obtain s1 where s1: "encoder_put T put s e a = (s1, e1, True)"
      "out s1 = out s @ (if be_max e \<le> be_cnt e then newline_bytes (be_nl e) else []) @ [enc T (sextet0 a)]"
    using encoder_put0 [OF 2] unfolding e1_def by blast
  obtain s2 where s2: "encoder_put T put s1 e1 b = (s2, e2, True)" "out s2 = out s1 @ [enc T (sextet1 a b)]"
    using encoder_put1 [of e1 a T s1 b] n by (auto simp: e1_def e2_def)
  have "be_cnt e2 mod 4 = 2" "0 < be_cnt e2" "be_prior e2 = Some b" "be_nl e2 = be_nl e"
    using mod4_succ(2) [OF n] by (simp_all add: e2_def e1_def)
  then show ?case using s1 s2 encoder_close_out [of e2 T s2] by (simp add: prior_byte_def)
next
  case (3 T a)
  let ?n = "if be_max e \<le> be_cnt e then 1 else Suc (be_cnt e)"
  have n: "?n mod 4 = 1" using 3 mod4_succ(1) by auto
  define e1 where "e1 = e\<lparr>be_cnt := ?n, be_prior := Some a\<rparr>"
  obtain s1 where s1: "encoder_put T put s e a = (s1, e1, True)"
      "out s1 = out s @ (if be_max e \<le> be_cnt e then newline_bytes (be_nl e) else []) @ [enc T (sextet0 a)]"
    using encoder_put0 [OF 3] unfolding e1_def by blast
  have "be_cnt e1 mod 4 = 1" "0 < be_cnt e1" "be_prior e1 = Some a" "be_nl e1 = be_nl e" using n by (simp_all add: e1_def)
  then show ?case using s1 encoder_close_out [of e1 T s1] by (simp add: prior_byte_def)
next
  case (4 T)
  then show ?case using encoder_close_out [of e T s] by (cases "be_cnt e = 0") (simp_all add: encoder_close_def)
qed

end

lemma three_induct [case_names three two one nil]:
  assumes "\<And>a b c bs. P bs \<Longrightarrow> P (a # b # c # bs)" "\<And>a b. P [a, b]" "\<And>a. P [a]" "P []"
  shows "P (bs :: byte list)"
  by (rule base64_text.induct [of "\<lambda>_ _ _ _ bs. P bs" base64_std nl_none 0 0 bs]) (use assms in blast)+

section \<open>Decoding\<close>

context base64_alphabet
begin

lemma word_dec_enc: "unat v < 64 \<Longrightarrow> (word_of_nat (dec T (enc T v)) :: byte) = v"
  by (simp add: dec_enc)

lemma decoder_put_enc:
  assumes "unat v < 64"
  shows "decoder_put T put s d (enc T v) =
    (case group_value (bd_cnt d mod 4) (bd_prior d) v of
       Some b \<Rightarrow> (let (s', ok) = put s b in (s', \<lparr>bd_cnt = Suc (bd_cnt d), bd_prior = v\<rparr>, ok))
     | None \<Rightarrow> (s, \<lparr>bd_cnt = Suc (bd_cnt d), bd_prior = v\<rparr>, True))"
  using assms by (simp add: decoder_put_def enc_not_skipped word_dec_enc Let_def)

lemma decoder_write_skips:
  "decoder_write T put s d (xs @ ys) = (let (s', d', ok) = decoder_write T put s d xs in
     if ok then decoder_write T put s' d' ys else (s', d', False))"
  by (induction xs arbitrary: s d) (auto simp: case_prod_beta Let_def)

lemma decoder_write_skipped: "\<forall>x \<in> set xs. skipped T x \<Longrightarrow> decoder_write T put s d xs = (s, d, True)"
  by (induction xs) (simp_all add: decoder_put_def)

lemma newline_skipped: "\<forall>x \<in> set (newline_bytes nl). skipped T x" "skipped T EQUALS"
  by (auto simp: newline_bytes_def skipped_def split: newline.splits)

end

text \<open>A filter in front of a sink: what the pieces of a text have written.\<close>

locale base64_decoding = accepting_sink put out + base64_alphabet T
  for put :: "'s \<Rightarrow> byte \<Rightarrow> 's \<times> bool" and out and T
begin

definition decodes :: "'s \<Rightarrow> base64_decoder \<Rightarrow> byte list \<Rightarrow> base64_decoder \<Rightarrow> byte list \<Rightarrow> bool" where
  "decodes s d xs d' bs \<longleftrightarrow> (\<exists>s'. decoder_write T put s d xs = (s', d', True) \<and> out s' = out s @ bs)"

lemma decodes_append:
  assumes "decodes s d xs d1 bs" "\<And>s1. out s1 = out s @ bs \<Longrightarrow> decodes s1 d1 ys d2 cs"
  shows "decodes s d (xs @ ys) d2 (bs @ cs)"
proof -
  obtain s1 where s1: "decoder_write T put s d xs = (s1, d1, True)" "out s1 = out s @ bs"
    using assms(1) by (auto simp: decodes_def)
  obtain s2 where "decoder_write T put s1 d1 ys = (s2, d2, True)" "out s2 = out s1 @ cs"
    using assms(2) [OF s1(2)] by (auto simp: decodes_def)
  then show ?thesis using s1 by (simp add: decodes_def decoder_write_skips)
qed

lemma decodes_skipped: "\<forall>x \<in> set xs. skipped T x \<Longrightarrow> decodes s d xs d []"
  by (simp add: decodes_def decoder_write_skipped)

lemma decodes_enc:
  assumes "unat v < 64"
  shows "decodes s d [enc T v] \<lparr>bd_cnt = Suc (bd_cnt d), bd_prior = v\<rparr>
    (case group_value (bd_cnt d mod 4) (bd_prior d) v of None \<Rightarrow> [] | Some b \<Rightarrow> [b])"
proof (cases "group_value (bd_cnt d mod 4) (bd_prior d) v")
  case None
  then show ?thesis using assms by (simp add: decodes_def decoder_put_enc)
next
  case (Some b)
  obtain s' where "put s b = (s', True)" "out s' = out s @ [b]" by (rule put_cases)
  then show ?thesis using assms Some by (simp add: decodes_def decoder_put_enc)
qed

lemma decodes_one:
  assumes "bd_cnt d mod 4 = 0"
  shows "decodes s d (map (enc T) [sextet0 a, sextet1 a b]) \<lparr>bd_cnt = bd_cnt d + 2, bd_prior = sextet1 a b\<rparr> [a]"
proof -
  let ?d = "\<lparr>bd_cnt = Suc (bd_cnt d), bd_prior = sextet0 a\<rparr>"
  have "decodes s d [enc T (sextet0 a)] ?d []"
    using decodes_enc [OF sextet_less(1), of s d a] assms by (simp add: group_values)
  moreover have "decodes s1 ?d [enc T (sextet1 a b)] \<lparr>bd_cnt = bd_cnt d + 2, bd_prior = sextet1 a b\<rparr> [a]" for s1
    using decodes_enc [OF sextet_less(2), of s1 ?d a b] mod4_succ(1) [OF assms] by (simp add: group_values [simplified])
  ultimately show ?thesis using decodes_append [of s d "[enc T (sextet0 a)]" ?d "[]"] by fastforce
qed

lemma decodes_two:
  assumes "bd_cnt d mod 4 = 0"
  shows "decodes s d (map (enc T) [sextet0 a, sextet1 a b, sextet2 b c]) \<lparr>bd_cnt = bd_cnt d + 3, bd_prior = sextet2 b c\<rparr> [a, b]"
proof -
  let ?d = "\<lparr>bd_cnt = bd_cnt d + 2, bd_prior = sextet1 a b\<rparr>"
  have "(bd_cnt d + 2) mod 4 = 2" using assms by presburger
  then have "decodes s1 ?d [enc T (sextet2 b c)] \<lparr>bd_cnt = bd_cnt d + 3, bd_prior = sextet2 b c\<rparr> [b]" for s1
    using decodes_enc [OF sextet_less(3), of s1 ?d b c] by (simp add: group_values numeral_3_eq_3)
  then show ?thesis
    using decodes_append [OF decodes_one [OF assms, of s a b], of "[enc T (sextet2 b c)]" _ "[b]"] by simp
qed

lemma decodes_three:
  assumes "bd_cnt d mod 4 = 0"
  shows "decodes s d (map (enc T) [sextet0 a, sextet1 a b, sextet2 b c, sextet3 c]) \<lparr>bd_cnt = bd_cnt d + 4, bd_prior = sextet3 c\<rparr> [a, b, c]"
proof -
  let ?d = "\<lparr>bd_cnt = bd_cnt d + 3, bd_prior = sextet2 b c\<rparr>"
  have "(bd_cnt d + 3) mod 4 = 3" using assms by presburger
  then have "decodes s1 ?d [enc T (sextet3 c)] \<lparr>bd_cnt = bd_cnt d + 4, bd_prior = sextet3 c\<rparr> [c]" for s1
    using decodes_enc [OF sextet_less(4), of s1 ?d c] by (simp add: group_values add.commute)
  then show ?thesis
    using decodes_append [OF decodes_two [OF assms, of s a b c], of "[enc T (sextet3 c)]" _ "[c]"] by simp
qed

lemma break_skipped: "\<forall>x \<in> set (if b then newline_bytes nl else []). skipped T x"
  using newline_skipped by auto

lemma decodes_text: "bd_cnt d mod 4 = 0 \<Longrightarrow> \<exists>d'. decodes s d (base64_text T nl mx cnt bs) d' bs"
proof (induction bs arbitrary: s d cnt rule: three_induct)
  case (three a b c bs)
  let ?brk = "if mx \<le> cnt then newline_bytes nl else []" and ?cnt = "if mx \<le> cnt then 4 else cnt + 4"
  let ?d = "\<lparr>bd_cnt = bd_cnt d + 4, bd_prior = sextet3 c\<rparr>"
  obtain s1 where s1: "decoder_write T put s d ?brk = (s1, d, True)" "out s1 = out s"
    using decodes_skipped [OF break_skipped, of s d] by (auto simp: decodes_def)
  obtain s2 where s2: "decoder_write T put s1 d (map (enc T) [sextet0 a, sextet1 a b, sextet2 b c, sextet3 c]) = (s2, ?d, True)"
      "out s2 = out s1 @ [a, b, c]"
    using decodes_three [OF three.prems, of s1 a b c] by (auto simp: decodes_def)
  have "bd_cnt ?d mod 4 = 0" using three.prems by simp
  then obtain s3 d' where s3: "decoder_write T put s2 ?d (base64_text T nl mx ?cnt bs) = (s3, d', True)" "out s3 = out s2 @ bs"
    using three.IH [of ?d s2 ?cnt] by (auto simp: decodes_def)
  show ?case unfolding base64_text.simps decodes_def decoder_write_skips s1 s2(1) s3(1) using s1 s2 s3
    by (simp add: decoder_write_skips del: list.map)
next
  case (two a b)
  have skip: "\<forall>x \<in> set ((if padding T then [EQUALS] else []) @ newline_bytes nl). skipped T x" using newline_skipped by auto
  have "decodes s d ((if mx \<le> cnt then newline_bytes nl else []) @ map (enc T) [sextet0 a, sextet1 a b, sextet2 b 0]
      @ (if padding T then [EQUALS] else []) @ newline_bytes nl) \<lparr>bd_cnt = bd_cnt d + 3, bd_prior = sextet2 b 0\<rparr> ([] @ [a, b] @ [])"
    by (rule decodes_append [OF decodes_skipped [OF break_skipped] decodes_append [OF decodes_two [OF two] decodes_skipped [OF skip]]])
  then show ?case unfolding base64_text.simps append_Nil append_Nil2 by blast
next
  case (one a)
  have skip: "\<forall>x \<in> set ((if padding T then [EQUALS, EQUALS] else []) @ newline_bytes nl). skipped T x" using newline_skipped by auto
  have "decodes s d ((if mx \<le> cnt then newline_bytes nl else []) @ map (enc T) [sextet0 a, sextet1 a 0]
      @ (if padding T then [EQUALS, EQUALS] else []) @ newline_bytes nl) \<lparr>bd_cnt = bd_cnt d + 2, bd_prior = sextet1 a 0\<rparr> ([] @ [a] @ [])"
    by (rule decodes_append [OF decodes_skipped [OF break_skipped] decodes_append [OF decodes_one [OF one] decodes_skipped [OF skip]]])
  then show ?case unfolding base64_text.simps append_Nil append_Nil2 by blast
next
  case nil
  show ?case unfolding base64_text.simps using decodes_skipped [OF break_skipped] by blast
qed

end

interpretation std_decoding: base64_decoding string_put id base64_std
  by unfold_locales

interpretation url_decoding: base64_decoding string_put id base64_url
  by unfold_locales

section \<open>Round trip and line length\<close>

text \<open>
  (C9) Whatever is written through the encoder and closed comes back through the decoder, for
  both alphabets, every kind of line break and every line size, with sinks that take
  all characters: the sink of the encoder has got the reference text, and the sink of the decoder
  the bytes.
\<close>

theorem base64_roundtrip:
  assumes "accepting_sink put out" "out s = []" "accepting_sink put' out'" "out' t = []"
    and "T \<in> {base64_std, base64_url}" "e = base64_encoder_new junk nl size'"
  shows "\<exists>s' e'. encoder_write T put s e bs = (s', e', True)
    \<and> out (fst (encoder_close T put s' e')) = base64_text T nl (be_max e) 0 bs
    \<and> (\<exists>t' d'. decoder_write T put' t base64_decoder_new (out (fst (encoder_close T put s' e'))) = (t', d', True) \<and> out' t' = bs)"
proof -
  have e: "be_cnt e = 0" "be_nl e = nl" using assms(6) by (simp_all add: base64_encoder_new_def)
  obtain s' e' where run: "encoder_write T put s e bs = (s', e', True)"
      "out (fst (encoder_close T put s' e')) = base64_text T nl (be_max e) 0 bs"
    using accepting_sink.encoder_run_out [OF assms(1), of e T s bs] assms(2) e by auto
  have "base64_alphabet T" using assms(5) std_alphabet.base64_alphabet_axioms url_alphabet.base64_alphabet_axioms by blast
  then have dec: "base64_decoding put' out' T" using assms(3) by (simp add: base64_decoding_def)
  obtain t' d' where "decoder_write T put' t base64_decoder_new (base64_text T nl (be_max e) 0 bs) = (t', d', True)" "out' t' = bs"
    using base64_decoding.decodes_text [OF dec, of base64_decoder_new t nl "be_max e" 0 bs] assms(4)
    by (auto simp: base64_decoding.decodes_def [OF dec] base64_decoder_new_def)
  with run show ?thesis by auto
qed

theorem base64_roundtrip_witness:
  "\<exists>s' e'. encoder_write base64_url string_put [] (base64_encoder_new 0 nl_ln 76) [1, 2, 3, 4] = (s', e', True)
     \<and> (\<exists>t' d'. decoder_write base64_url string_put [] base64_decoder_new (fst (encoder_close base64_url string_put s' e')) = (t', d', True)
          \<and> t' = [1, 2, 3, 4])"
  using base64_roundtrip [OF string_sink.accepting_sink_axioms _ string_sink.accepting_sink_axioms _ _ refl,
      of "[]" "[]" base64_url 0 nl_ln 76 "[1, 2, 3, 4]"]
  by auto

text \<open>The text without breaks, and a text broken into lines.\<close>

definition broken :: "newline \<Rightarrow> byte list list \<Rightarrow> byte list" where
  "broken nl ls = concat (map (\<lambda>l. l @ newline_bytes nl) ls)"

lemma base64_text_none: "mx \<noteq> 0 \<Longrightarrow> base64_text T nl_none mx cnt bs = base64_text T nl_none mx 0 bs"
proof (induction bs arbitrary: cnt rule: three_induct)
  case (three a b c bs)
  have eq: "base64_text T nl_none mx k bs = base64_text T nl_none mx 0 bs" for k using three by blast
  show ?case using three.prems by (simp add: newline_bytes_def eq [of "Suc (Suc (Suc (Suc k)))" for k] eq [of 4] eq [of "cnt + 4"])
qed (auto simp: newline_bytes_def)

definition line_split :: "newline \<Rightarrow> nat \<Rightarrow> nat \<Rightarrow> byte list \<Rightarrow> byte list \<Rightarrow> bool" where
  "line_split nl mx cnt text plain \<longleftrightarrow> (\<exists>l ls. text = broken nl (l # ls) \<and> concat (l # ls) = plain
      \<and> cnt + length l \<le> mx \<and> (ls \<noteq> [] \<longrightarrow> cnt + length l = mx)
      \<and> (\<forall>k \<in> set ls. 0 < length k \<and> length k \<le> mx) \<and> (\<forall>k \<in> set (butlast ls). length k = mx))"

text \<open>A group goes to the current line or, when this is full, to the next one.\<close>

lemma line_split_group:
  assumes "cnt + 4 \<le> mx" "line_split nl mx (cnt + 4) text plain" "length g = 4"
  shows "line_split nl mx cnt (g @ text) (g @ plain)"
proof -
  obtain l ls where "text = broken nl (l # ls)" "concat (l # ls) = plain" "cnt + 4 + length l \<le> mx"
      "ls \<noteq> [] \<longrightarrow> cnt + 4 + length l = mx" "\<forall>k \<in> set ls. 0 < length k \<and> length k \<le> mx" "\<forall>k \<in> set (butlast ls). length k = mx"
    using assms(2) by (auto simp: line_split_def)
  then show ?thesis
    unfolding line_split_def using assms(3) by (intro exI [of _ "g @ l"] exI [of _ ls]) (simp add: broken_def add.assoc)
qed

lemma line_split_full:
  assumes "0 < mx" "line_split nl mx 0 text plain" "plain \<noteq> []"
  shows "line_split nl mx mx (newline_bytes nl @ text) plain"
proof -
  obtain l ls where l: "text = broken nl (l # ls)" "concat (l # ls) = plain" "length l \<le> mx"
      "ls \<noteq> [] \<longrightarrow> length l = mx" "\<forall>k \<in> set ls. 0 < length k \<and> length k \<le> mx" "\<forall>k \<in> set (butlast ls). length k = mx"
    using assms(2) by (auto simp: line_split_def)
  have "l \<noteq> []" using l(2,4) assms(1,3) by (cases ls) auto
  then show ?thesis
    unfolding line_split_def using l by (intro exI [of _ "[]"] exI [of _ "l # ls"]) (simp add: broken_def)
qed

lemma line_split_last: "cnt + length l \<le> mx \<Longrightarrow> line_split nl mx cnt (l @ newline_bytes nl) l"
  unfolding line_split_def by (intro exI [of _ l] exI [of _ "[]"]) (simp add: broken_def)

lemma dvd_gap: "4 dvd (a :: nat) \<Longrightarrow> 4 dvd b \<Longrightarrow> \<not> b \<le> a \<Longrightarrow> a + 4 \<le> b"
  by (elim dvdE) simp

lemma base64_text_split:
  assumes "4 \<le> mx" "4 dvd mx"
  shows "4 dvd cnt \<Longrightarrow> cnt \<le> mx \<Longrightarrow> (0 < cnt \<or> bs \<noteq> []) \<Longrightarrow>
    line_split nl mx cnt (base64_text T nl mx cnt bs) (base64_text T nl_none mx 0 bs)"
proof (induction bs arbitrary: cnt rule: three_induct)
  case (three a b c bs)
  let ?g = "map (enc T) [sextet0 a, sextet1 a b, sextet2 b c, sextet3 c]"
  have none: "base64_text T nl_none mx 0 (a # b # c # bs) = ?g @ base64_text T nl_none mx 0 bs"
    using assms(1) base64_text_none [of mx T 4 bs] by (simp add: newline_bytes_def)
  have step: "line_split nl mx n (?g @ base64_text T nl mx (n + 4) bs) (?g @ base64_text T nl_none mx 0 bs)"
    if "n + 4 \<le> mx" "4 dvd n" for n
    using line_split_group [OF that(1) three.IH [of "n + 4"], of ?g] that by simp
  show ?case
  proof (cases "mx \<le> cnt")
    case True
    then show ?thesis using line_split_full [OF _ step [of 0]] assms three.prems unfolding none by simp
  next
    case False
    then have "cnt + 4 \<le> mx" using dvd_gap three.prems(1) assms(2) by blast
    then show ?thesis using step [of cnt] False three.prems unfolding none by simp
  qed
next
  case (two a b)
  let ?l = "map (enc T) [sextet0 a, sextet1 a b, sextet2 b 0] @ (if padding T then [EQUALS] else [])"
  have none: "base64_text T nl_none mx 0 [a, b] = ?l" using assms(1) by (simp add: newline_bytes_def)
  have len: "length ?l \<le> 4" by simp
  show ?case
  proof (cases "mx \<le> cnt")
    case True
    then show ?thesis using line_split_full [OF _ line_split_last [of 0 ?l mx nl]] assms two.prems len unfolding none by simp
  next
    case False
    then have "cnt + 4 \<le> mx" using dvd_gap two.prems(1) assms(2) by blast
    then show ?thesis using line_split_last [of cnt ?l mx nl] False len unfolding none by simp
  qed
next
  case (one a)
  let ?l = "map (enc T) [sextet0 a, sextet1 a 0] @ (if padding T then [EQUALS, EQUALS] else [])"
  have none: "base64_text T nl_none mx 0 [a] = ?l" using assms(1) by (simp add: newline_bytes_def)
  have len: "length ?l \<le> 4" by simp
  show ?case
  proof (cases "mx \<le> cnt")
    case True
    then show ?thesis using line_split_full [OF _ line_split_last [of 0 ?l mx nl]] assms one.prems len unfolding none by simp
  next
    case False
    then have "cnt + 4 \<le> mx" using dvd_gap one.prems(1) assms(2) by blast
    then show ?thesis using line_split_last [of cnt ?l mx nl] False len unfolding none by simp
  qed
next
  case nil
  then show ?case using line_split_last [of cnt "[]" mx nl] by simp
qed

lemma base64_encoder_max:
  assumes "nl \<noteq> nl_none" "4 + length (newline_bytes nl) \<le> size'"
  shows "4 \<le> be_max (base64_encoder_new junk nl size')" "4 dvd be_max (base64_encoder_new junk nl size')"
    "be_max (base64_encoder_new junk nl size') + length (newline_bytes nl) \<le> size'"
    "size' < be_max (base64_encoder_new junk nl size') + length (newline_bytes nl) + 4"
proof -
  let ?n = "length (newline_bytes nl)"
  define m where "m = size' - ?n"
  have "be_max (base64_encoder_new junk nl size') = m - m mod 4"
    using assms by (cases nl) (simp_all add: base64_encoder_new_def newline_bytes_def Let_def numeral_2_eq_2 m_def)
  moreover have "4 \<le> m" "size' = m + ?n" using assms(2) by (simp_all add: m_def)
  moreover from this(1) have "4 \<le> m - m mod 4" "m < m - m mod 4 + 4" by presburger+
  moreover have "4 dvd m - m mod 4" by (rule dvd_minus_mod)
  ultimately show "4 \<le> be_max (base64_encoder_new junk nl size')" "4 dvd be_max (base64_encoder_new junk nl size')"
    "be_max (base64_encoder_new junk nl size') + ?n \<le> size'" "size' < be_max (base64_encoder_new junk nl size') + ?n + 4"
    by simp_all
qed

lemma base64_text_nonempty: "bs \<noteq> [] \<Longrightarrow> base64_text T nl mx cnt bs \<noteq> []"
  by (induction bs rule: three_induct) auto

text \<open>A line size with room for a group but not for the break behind it leaves a maximum of 0: a break comes before every group.\<close>

lemma base64_text_zero:
  "bs \<noteq> [] \<Longrightarrow> \<exists>ls. base64_text T nl 0 cnt bs = newline_bytes nl @ broken nl ls \<and> concat ls = base64_text T nl_none 0 k bs
    \<and> (\<forall>l \<in> set ls. l \<noteq> [] \<and> length l \<le> 4) \<and> (\<forall>l \<in> set (butlast ls). length l = 4)"
proof (induction bs arbitrary: cnt k rule: three_induct)
  case (three a b c bs)
  let ?g = "map (enc T) [sextet0 a, sextet1 a b, sextet2 b c, sextet3 c]"
  show ?case
  proof (cases "bs = []")
    case True
    then show ?thesis by (intro exI [of _ "[?g]"]) (simp add: broken_def newline_bytes_def)
  next
    case False
    obtain ls where ls: "base64_text T nl 0 4 bs = newline_bytes nl @ broken nl ls" "concat ls = base64_text T nl_none 0 4 bs"
        "\<forall>l \<in> set ls. l \<noteq> [] \<and> length l \<le> 4" "\<forall>l \<in> set (butlast ls). length l = 4"
      using three.IH [OF False, of 4 4] by blast
    have "concat (?g # ls) = base64_text T nl_none 0 k (a # b # c # bs)" using ls(2) by (simp add: newline_bytes_def)
    moreover have "base64_text T nl 0 cnt (a # b # c # bs) = newline_bytes nl @ broken nl (?g # ls)" using ls(1) by (simp add: broken_def)
    moreover have "\<forall>l \<in> set (?g # ls). l \<noteq> [] \<and> length l \<le> 4" and "\<forall>l \<in> set (butlast (?g # ls)). length l = 4" using ls(3,4) by auto
    ultimately show ?thesis by blast
  qed
next
  case (two a b)
  show ?case
    by (intro exI [of _ "[map (enc T) [sextet0 a, sextet1 a b, sextet2 b 0] @ (if padding T then [EQUALS] else [])]"])
      (simp add: broken_def newline_bytes_def)
next
  case (one a)
  show ?case
    by (intro exI [of _ "[map (enc T) [sextet0 a, sextet1 a 0] @ (if padding T then [EQUALS, EQUALS] else [])]"])
      (simp add: broken_def newline_bytes_def)
qed simp

lemma base64_encoder_max_small:
  assumes "4 \<le> size'" "size' < 4 + length (newline_bytes nl)"
  shows "be_max (base64_encoder_new junk nl size') = 0"
  using assms by (cases nl) (auto simp: base64_encoder_new_def newline_bytes_def Let_def)

text \<open>
  (C10) For a text that is not empty, a line break, and a line size of at least 4, the output of the encoder is a sequence
  of non-empty lines, each ended by the line break, that are the text without breaks when they are joined. With room for a group
  and the break, no line is longer than the line size with its break, and all but the last are full (one more
  group would not fit). For a line size of 4, or of 5 with a break of two characters, the output begins with an empty line and every
  line but the last is a group, which is longer than the line size with its break.
\<close>

theorem base64_line_length:
  assumes "accepting_sink put out" "out s = []" "nl \<noteq> nl_none" "4 \<le> size'"
    and "e = base64_encoder_new junk nl size'" "bs \<noteq> []"
  shows "\<exists>s' e' ls. encoder_write T put s e bs = (s', e', True)
    \<and> out (fst (encoder_close T put s' e')) = (if 4 + length (newline_bytes nl) \<le> size' then [] else newline_bytes nl) @ broken nl ls
    \<and> concat ls = base64_text T nl_none (be_max e) 0 bs
    \<and> (\<forall>l \<in> set ls. l \<noteq> [])
    \<and> (if 4 + length (newline_bytes nl) \<le> size'
       then (\<forall>l \<in> set ls. length (l @ newline_bytes nl) \<le> size') \<and> (\<forall>l \<in> set (butlast ls). size' < length (l @ newline_bytes nl) + 4)
       else (\<forall>l \<in> set (butlast ls). length l = 4 \<and> size' < length (l @ newline_bytes nl)))"
proof -
  have e: "be_cnt e = 0" "be_nl e = nl" using assms(5) by (simp_all add: base64_encoder_new_def)
  obtain s' e' where run: "encoder_write T put s e bs = (s', e', True)"
      "out (fst (encoder_close T put s' e')) = base64_text T nl (be_max e) 0 bs"
    using accepting_sink.encoder_run_out [OF assms(1), of e T s bs] assms(2) e by auto
  show ?thesis
  proof (cases "4 + length (newline_bytes nl) \<le> size'")
    case True
    note mx = base64_encoder_max [OF assms(3) True, of junk, folded assms(5)]
    have "line_split nl (be_max e) 0 (base64_text T nl (be_max e) 0 bs) (base64_text T nl_none (be_max e) 0 bs)"
      using base64_text_split [OF mx(1,2), of 0 bs nl T] assms(6) by simp
    then obtain l ls where l: "base64_text T nl (be_max e) 0 bs = broken nl (l # ls)" "concat (l # ls) = base64_text T nl_none (be_max e) 0 bs"
        "length l \<le> be_max e" "ls \<noteq> [] \<longrightarrow> length l = be_max e"
        "\<forall>k \<in> set ls. 0 < length k \<and> length k \<le> be_max e" "\<forall>k \<in> set (butlast ls). length k = be_max e"
      by (auto simp: line_split_def)
    have "base64_text T nl_none (be_max e) 0 bs \<noteq> []" using assms(6) base64_text_nonempty by blast
    then have "l \<noteq> []" using l(2,4) mx(1) by (cases ls) auto
    then have "\<forall>k \<in> set (l # ls). k \<noteq> []" and "\<forall>k \<in> set (l # ls). length (k @ newline_bytes nl) \<le> size'"
      using l(3,5) mx(3) by fastforce+
    moreover have "\<forall>k \<in> set (butlast (l # ls)). size' < length (k @ newline_bytes nl) + 4"
      using l(4,6) mx(4) by auto
    ultimately show ?thesis using run l(1,2) True by (intro exI [of _ s'] exI [of _ e'] exI [of _ "l # ls"]) simp
  next
    case False
    have mx: "be_max e = 0" using base64_encoder_max_small [of size' nl junk] assms(4,5) False by simp
    obtain ls where ls: "base64_text T nl 0 0 bs = newline_bytes nl @ broken nl ls" "concat ls = base64_text T nl_none 0 0 bs"
        "\<forall>l \<in> set ls. l \<noteq> [] \<and> length l \<le> 4" "\<forall>l \<in> set (butlast ls). length l = 4"
      using base64_text_zero [OF assms(6), of T nl 0 0] by blast
    then show ?thesis using run mx False by (intro exI [of _ s'] exI [of _ e'] exI [of _ ls]) auto
  qed
qed

theorem base64_line_length_witness:
  "\<exists>s' e' ls. encoder_write base64_std string_put [] (base64_encoder_new 0 nl_crln 10) [1, 2, 3, 4, 5, 6, 7] = (s', e', True)
    \<and> fst (encoder_close base64_std string_put s' e') = broken nl_crln ls
    \<and> list_all (\<lambda>l. length l \<le> 8) ls"
  using base64_line_length [OF string_sink.accepting_sink_axioms _ _ _ refl, of "[]" nl_crln 10 "[1, 2, 3, 4, 5, 6, 7]" base64_std 0]
  by (fastforce simp: newline_bytes_def list_all_iff)

section \<open>Reading through the encoder\<close>

text \<open>Reading to the end of the filtered text.\<close>

fun encoder_read :: "nat \<Rightarrow> base64_traits \<Rightarrow> byte list \<Rightarrow> base64_encoder \<Rightarrow> byte list option" where
  "encoder_read 0 T src e = None"
| "encoder_read (Suc fuel) T src e =
     (case encoder_get T list_get src e of
        (src', e', None) \<Rightarrow> Some []
      | (src', e', Some c) \<Rightarrow> map_option (Cons c) (encoder_read fuel T src' e'))"

definition emits :: "base64_traits \<Rightarrow> byte list \<Rightarrow> base64_encoder \<Rightarrow> byte list \<Rightarrow> byte list \<Rightarrow> base64_encoder \<Rightarrow> bool" where
  "emits T src e cs src' e' \<longleftrightarrow>
     (\<forall>fuel. encoder_read (length cs + fuel) T src e = map_option (\<lambda>x. cs @ x) (encoder_read fuel T src' e'))"

lemma emits_refl: "emits T src e [] src e"
  by (simp add: emits_def option.map_ident map_option_idI)

lemma emits_trans: "emits T s e cs s' e' \<Longrightarrow> emits T s' e' ds s'' e'' \<Longrightarrow> emits T s e (cs @ ds) s'' e''"
  by (simp add: emits_def add.assoc option.map_comp comp_def)

lemma emits_step: "encoder_get T list_get s e = (s', e', Some c) \<Longrightarrow> emits T s' e' cs s'' e'' \<Longrightarrow> emits T s e (c # cs) s'' e''"
  by (simp add: emits_def option.map_comp comp_def)

lemma emits_end: "emits T s e cs s' e' \<Longrightarrow> encoder_read 1 T s' e' = Some [] \<Longrightarrow> length cs < fuel \<Longrightarrow> encoder_read fuel T s e = Some cs"
proof -
  assume e: "emits T s e cs s' e'" "encoder_read 1 T s' e' = Some []" "length cs < fuel"
  obtain k where k: "fuel = length cs + Suc k" using e(3) less_imp_Suc_add by fastforce
  have "encoder_read (Suc k) T s' e' = Some []" using e(2) by (auto split: prod.splits option.splits)
  then show ?thesis using e(1) unfolding k emits_def by (simp only: option.map append_Nil2)
qed

lemma mod4_add: "n mod 4 = 0 \<Longrightarrow> Suc n mod 4 = 1" "n mod 4 = 0 \<Longrightarrow> Suc (Suc n) mod 4 = 2" "n mod 4 = 0 \<Longrightarrow> Suc (Suc (Suc n)) mod 4 = 3"
  for n :: nat
  by presburger+

lemmas emits_simps = encoder_get_def get_break_def prior_byte_def sextet_zero sextet_defs Let_def

text \<open>\<open>get\<close> by the position in the group, with and without a further byte.\<close>

lemma encoder_get0: "be_cnt e mod 4 = 0 \<Longrightarrow> be_cnt e < be_max e \<Longrightarrow> be_prior e = Some p \<Longrightarrow>
    encoder_get T list_get (a # bs) e = (bs, e\<lparr>be_cnt := Suc (be_cnt e), be_prior := Some a\<rparr>, Some (enc T (sextet0 a)))"
  by (simp add: emits_simps)

lemma encoder_get1: "be_cnt e mod 4 = 1 \<Longrightarrow> be_cnt e < be_max e \<Longrightarrow> be_prior e = Some p \<Longrightarrow>
    encoder_get T list_get (b # bs) e = (bs, e\<lparr>be_cnt := Suc (be_cnt e), be_prior := Some b\<rparr>, Some (enc T (sextet1 p b)))"
  "be_cnt e mod 4 = 1 \<Longrightarrow> be_cnt e < be_max e \<Longrightarrow> be_prior e = Some p \<Longrightarrow>
    encoder_get T list_get [] e = ([], e\<lparr>be_cnt := Suc (be_cnt e), be_prior := None\<rparr>, Some (enc T (sextet1 p 0)))"
  by (simp_all add: emits_simps)

lemma encoder_get2: "be_cnt e mod 4 = 2 \<Longrightarrow> be_prior e = Some p \<Longrightarrow>
    encoder_get T list_get (c # bs) e = (bs, e\<lparr>be_cnt := Suc (be_cnt e), be_prior := Some c\<rparr>, Some (enc T (sextet2 p c)))"
  "be_cnt e mod 4 = 2 \<Longrightarrow> be_prior e = Some p \<Longrightarrow>
    encoder_get T list_get [] e = ([], e\<lparr>be_cnt := Suc (be_cnt e), be_prior := None\<rparr>, Some (enc T (sextet2 p 0)))"
  "be_cnt e mod 4 = 2 \<Longrightarrow> be_prior e = None \<Longrightarrow> padding T \<Longrightarrow>
    encoder_get T list_get bs e = (bs, e\<lparr>be_cnt := Suc (be_cnt e)\<rparr>, Some EQUALS)"
  by (simp_all add: emits_simps)

lemma encoder_get3: "be_cnt e mod 4 = 3 \<Longrightarrow> be_prior e = Some p \<Longrightarrow>
    encoder_get T list_get bs e = (bs, e\<lparr>be_cnt := Suc (be_cnt e)\<rparr>, Some (enc T (sextet3 p)))"
  "be_cnt e mod 4 = 3 \<Longrightarrow> be_prior e = None \<Longrightarrow> padding T \<Longrightarrow>
    encoder_get T list_get bs e = (bs, e\<lparr>be_cnt := Suc (be_cnt e), be_max := Suc (be_cnt e)\<rparr>, Some EQUALS)"
  by (auto simp: emits_simps)

lemma emits_refl': "e = e' \<Longrightarrow> emits T src e [] src e'"
  using emits_refl by simp

lemma emits_group:
  assumes "be_cnt e mod 4 = 0" "be_cnt e < be_max e" "be_prior e = Some p" "4 dvd be_max e"
  shows "emits T (a # b # c # bs) e (map (enc T) [sextet0 a, sextet1 a b, sextet2 b c, sextet3 c]) bs
    (e\<lparr>be_cnt := be_cnt e + 4, be_prior := Some c\<rparr>)"
proof -
  have "be_cnt e + 4 \<le> be_max e" using dvd_gap [of "be_cnt e" "be_max e"] assms by (simp add: mod_0_imp_dvd)
  with assms mod4_add [OF assms(1)] show ?thesis
    unfolding list.map append.simps
    by (intro emits_step [OF encoder_get0 emits_step [OF encoder_get1(1) emits_step [OF encoder_get2(1) emits_step [OF encoder_get3(1) emits_refl']]]])
      (simp_all del: One_nat_def)
qed

lemma emits_two:
  assumes "be_cnt e mod 4 = 0" "be_cnt e < be_max e" "be_prior e = Some p" "4 dvd be_max e" "padding T"
  shows "emits T [a, b] e (map (enc T) [sextet0 a, sextet1 a b, sextet2 b 0] @ [EQUALS]) []
    (e\<lparr>be_cnt := be_cnt e + 4, be_max := be_cnt e + 4, be_prior := None\<rparr>)"
proof -
  have "be_cnt e + 4 \<le> be_max e" using dvd_gap [of "be_cnt e" "be_max e"] assms by (simp add: mod_0_imp_dvd)
  with assms mod4_add [OF assms(1)] show ?thesis
    unfolding list.map append.simps
    by (intro emits_step [OF encoder_get0 emits_step [OF encoder_get1(1) emits_step [OF encoder_get2(2) emits_step [OF encoder_get3(2) emits_refl']]]])
      (simp_all del: One_nat_def)
qed

lemma emits_one:
  assumes "be_cnt e mod 4 = 0" "be_cnt e < be_max e" "be_prior e = Some p" "4 dvd be_max e" "padding T"
  shows "emits T [a] e (map (enc T) [sextet0 a, sextet1 a 0] @ [EQUALS, EQUALS]) []
    (e\<lparr>be_cnt := be_cnt e + 4, be_max := be_cnt e + 4, be_prior := None\<rparr>)"
proof -
  have "be_cnt e + 4 \<le> be_max e" using dvd_gap [of "be_cnt e" "be_max e"] assms by (simp add: mod_0_imp_dvd)
  with assms mod4_add [OF assms(1)] show ?thesis
    unfolding list.map append.simps
    by (intro emits_step [OF encoder_get0 emits_step [OF encoder_get1(2) emits_step [OF encoder_get2(3) emits_step [OF encoder_get3(2) emits_refl']]]])
      (simp_all del: One_nat_def)
qed

text \<open>A line break at a full line, and at the end of the input.\<close>

lemma emits_break:
  assumes "be_cnt e = be_max e" "be_cnt e mod 4 = 0" "be_nl e \<noteq> nl_none"
  shows "emits T src e (newline_bytes (be_nl e)) src (e\<lparr>be_cnt := 0\<rparr>)"
  using assms mod4_add(1) [OF assms(2)]
  by (cases "be_nl e") (auto simp: newline_bytes_def emits_simps intro!: emits_step [OF _ emits_refl] emits_step [OF _ emits_step [OF _ emits_refl]])

lemma read_break:
  assumes "be_cnt e = be_max e" "be_cnt e mod 4 = 0" "be_prior e = None" "0 < be_max e" "be_nl e = nl" "length (newline_bytes nl) < fuel"
  shows "encoder_read fuel T src e = Some (newline_bytes nl)"
proof (cases "nl = nl_none")
  case True
  then show ?thesis using assms by (cases fuel) (simp_all add: emits_simps newline_bytes_def)
next
  case False
  then show ?thesis using emits_end [OF emits_break [OF assms(1,2)]] assms by (simp add: emits_simps)
qed

text \<open>A full line without line breaks goes on as an empty line.\<close>

lemma encoder_get_none:
  assumes "be_cnt e = be_max e" "be_cnt e mod 4 = 0" "be_nl e = nl_none" "0 < be_max e"
  shows "encoder_get T get src e = encoder_get T get src (e\<lparr>be_cnt := 0\<rparr>)"
  using assms by (simp add: emits_simps)

lemma emits_new_line:
  assumes "be_cnt e = be_max e" "be_cnt e mod 4 = 0" "0 < be_max e"
    and "encoder_read fuel T src (e\<lparr>be_cnt := 0\<rparr>) = Some cs" "length (newline_bytes (be_nl e)) + fuel = fuel'"
  shows "encoder_read fuel' T src e = Some (newline_bytes (be_nl e) @ cs)"
proof (cases "be_nl e = nl_none")
  case True
  then have "fuel' = fuel" "newline_bytes (be_nl e) = []" using assms(5) by (simp_all add: newline_bytes_def)
  then show ?thesis using assms(4) encoder_get_none [OF assms(1,2) True assms(3), of T list_get src]
    by (cases fuel) simp_all
next
  case False
  then show ?thesis using emits_break [OF assms(1,2)] assms(4,5) by (auto simp: emits_def)
qed

lemma base64_text_full: "0 < mx \<Longrightarrow> base64_text T nl mx mx bs = newline_bytes nl @ base64_text T nl mx 0 bs"
  by (cases "(T, nl, mx, mx, bs)" rule: base64_text.cases) simp_all

text \<open>The end of the input inside a line.\<close>

lemma encoder_read_nil:
  assumes "be_cnt e mod 4 = 0" "be_cnt e < be_max e" "be_prior e = Some p" "length (base64_text T (be_nl e) mx (be_cnt e) []) < fuel"
  shows "encoder_read fuel T [] e = Some (base64_text T (be_nl e) mx (be_cnt e) [])"
proof (cases "be_cnt e = 0")
  case True
  then show ?thesis using assms by (cases fuel) (simp_all add: emits_simps)
next
  case False
  let ?e = "e\<lparr>be_prior := None, be_max := be_cnt e\<rparr>"
  have "encoder_get T list_get [] e = (let (e'', c) = get_break ?e in ([], e'', c))"
    using assms(1-3) False by (simp add: encoder_get_def)
  moreover have "encoder_get T list_get [] ?e = (let (e'', c) = get_break ?e in ([], e'', c))"
    using assms(1-3) False by (cases "be_nl e") (simp_all add: encoder_get_def get_break_def)
  ultimately have "encoder_read fuel T [] e = encoder_read fuel T [] ?e" by (cases fuel) simp_all
  also have "\<dots> = Some (newline_bytes (be_nl e))" using assms False by (intro read_break) simp_all
  finally show ?thesis using False by simp
qed

definition reads_text :: "base64_traits \<Rightarrow> newline \<Rightarrow> nat \<Rightarrow> (nat \<Rightarrow> bool) \<Rightarrow> byte list \<Rightarrow> bool" where
  "reads_text T nl mx P bs \<longleftrightarrow> (\<forall>e fuel p. be_nl e = nl \<longrightarrow> be_max e = mx \<longrightarrow> be_prior e = Some p \<longrightarrow> be_cnt e mod 4 = 0 \<longrightarrow> P (be_cnt e)
     \<longrightarrow> length (base64_text T nl mx (be_cnt e) bs) < fuel \<longrightarrow> encoder_read fuel T bs e = Some (base64_text T nl mx (be_cnt e) bs))"

lemma reads_textD:
  "reads_text T nl mx P bs \<Longrightarrow> be_nl e = nl \<Longrightarrow> be_max e = mx \<Longrightarrow> be_prior e = Some p \<Longrightarrow> be_cnt e mod 4 = 0 \<Longrightarrow> P (be_cnt e)
   \<Longrightarrow> length (base64_text T nl mx (be_cnt e) bs) < fuel \<Longrightarrow> encoder_read fuel T bs e = Some (base64_text T nl mx (be_cnt e) bs)"
  by (simp add: reads_text_def)

lemma reads_text_full:
  assumes "0 < mx" "reads_text T nl mx (\<lambda>cnt. cnt < mx) bs"
  shows "reads_text T nl mx (\<lambda>cnt. cnt \<le> mx) bs"
  unfolding reads_text_def
proof (intro allI impI)
  fix e :: base64_encoder and fuel p
  assume e: "be_nl e = nl" "be_max e = mx" "be_prior e = Some p" "be_cnt e mod 4 = 0" "be_cnt e \<le> mx"
    and f: "length (base64_text T nl mx (be_cnt e) bs) < fuel"
  show "encoder_read fuel T bs e = Some (base64_text T nl mx (be_cnt e) bs)"
  proof (cases "be_cnt e < mx")
    case True
    then show ?thesis using reads_textD [OF assms(2) e(1-4)] f by simp
  next
    case False
    then have cnt: "be_cnt e = mx" using e(5) by simp
    define k where "k = fuel - length (newline_bytes nl)"
    have "encoder_read k T bs (e\<lparr>be_cnt := 0\<rparr>) = Some (base64_text T nl mx 0 bs)"
      using reads_textD [OF assms(2), of "e\<lparr>be_cnt := 0\<rparr>" p k] e f assms(1) unfolding cnt base64_text_full [OF assms(1)]
      by (simp add: k_def)
    then show ?thesis using emits_new_line [of e k T bs _ fuel] e cnt f assms(1) unfolding cnt base64_text_full [OF assms(1)]
      by (simp add: k_def)
  qed
qed

lemma reads_textI:
  assumes "\<And>(e :: base64_encoder) fuel p. be_nl e = nl \<Longrightarrow> be_max e = mx \<Longrightarrow> be_prior e = Some p \<Longrightarrow> be_cnt e mod 4 = 0 \<Longrightarrow> be_cnt e < mx
    \<Longrightarrow> length (base64_text T nl mx (be_cnt e) bs) < fuel \<Longrightarrow> encoder_read fuel T bs e = Some (base64_text T nl mx (be_cnt e) bs)"
  shows "reads_text T nl mx (\<lambda>cnt. cnt < mx) bs"
  using assms by (simp add: reads_text_def)

lemma emits_read:
  assumes "emits T src e cs src' e'" "encoder_read (fuel - length cs) T src' e' = Some ds" "length cs \<le> fuel"
  shows "encoder_read fuel T src e = Some (cs @ ds)"
  using assms(1) [unfolded emits_def, rule_format, of "fuel - length cs"] assms(2,3) by simp

lemma encoder_reads:
  assumes "padding T" "4 \<le> mx" "4 dvd mx"
  shows "reads_text T nl mx (\<lambda>cnt. cnt < mx) bs"
proof (induction bs rule: three_induct)
  case (three a b c bs)
  have IH: "reads_text T nl mx (\<lambda>cnt. cnt \<le> mx) bs" using reads_text_full [OF _ three] assms(2) by simp
  show ?case
  proof (rule reads_textI)
    fix e :: base64_encoder and fuel p
    assume e: "be_nl e = nl" "be_max e = mx" "be_prior e = Some p" "be_cnt e mod 4 = 0" "be_cnt e < mx"
      and f: "length (base64_text T nl mx (be_cnt e) (a # b # c # bs)) < fuel"
    have gap: "be_cnt e + 4 \<le> mx" using dvd_gap [of "be_cnt e" mx] assms(3) e by (simp add: mod_0_imp_dvd)
    have "encoder_read (fuel - 4) T bs (e\<lparr>be_cnt := be_cnt e + 4, be_prior := Some c\<rparr>) = Some (base64_text T nl mx (be_cnt e + 4) bs)"
      using reads_textD [OF IH, of "e\<lparr>be_cnt := be_cnt e + 4, be_prior := Some c\<rparr>" c "fuel - 4"] e f gap by simp
    moreover have "length (map (enc T) [sextet0 a, sextet1 a b, sextet2 b c, sextet3 c]) = 4" by simp
    moreover have "4 \<le> fuel" using f by simp
    moreover have "4 dvd be_max e" "be_cnt e < be_max e" using e assms(3) by simp_all
    ultimately have "encoder_read fuel T (a # b # c # bs) e
        = Some (map (enc T) [sextet0 a, sextet1 a b, sextet2 b c, sextet3 c] @ base64_text T nl mx (be_cnt e + 4) bs)"
      using emits_read [OF emits_group] e(3,4) by metis
    then show "encoder_read fuel T (a # b # c # bs) e = Some (base64_text T nl mx (be_cnt e) (a # b # c # bs))"
      using e(5) by simp
  qed
next
  case (two a b)
  show ?case
  proof (rule reads_textI)
    fix e :: base64_encoder and fuel p
    assume e: "be_nl e = nl" "be_max e = mx" "be_prior e = Some p" "be_cnt e mod 4 = 0" "be_cnt e < mx"
      and f: "length (base64_text T nl mx (be_cnt e) [a, b]) < fuel"
    show "encoder_read fuel T [a, b] e = Some (base64_text T nl mx (be_cnt e) [a, b])"
      using emits_read [OF emits_two [of e p T a b] read_break [where nl = nl], of fuel] e f assms by simp
  qed
next
  case (one a)
  show ?case
  proof (rule reads_textI)
    fix e :: base64_encoder and fuel p
    assume e: "be_nl e = nl" "be_max e = mx" "be_prior e = Some p" "be_cnt e mod 4 = 0" "be_cnt e < mx"
      and f: "length (base64_text T nl mx (be_cnt e) [a]) < fuel"
    show "encoder_read fuel T [a] e = Some (base64_text T nl mx (be_cnt e) [a])"
      using emits_read [OF emits_one [of e p T a] read_break [where nl = nl], of fuel] e f assms by simp
  qed
next
  case nil
  show ?case by (rule reads_textI) (metis encoder_read_nil)
qed

text \<open>
  Reading through the standard encoder gives the same text as writing through it,
  and ends: with any amount of fuel beyond the length of the text. With the URL alphabet and the line
  break CR LF this fails: the carriage return is read twice behind a single byte.
\<close>

theorem base64_get_put:
  assumes "accepting_sink put out" "out s = []" "4 + length (newline_bytes nl) \<le> size'" "e = base64_encoder_new junk nl size'"
  shows "(\<exists>s' e'. encoder_write base64_std put s e bs = (s', e', True)
      \<and> (\<forall>fuel > length (out (fst (encoder_close base64_std put s' e'))).
            encoder_read fuel base64_std bs e = Some (out (fst (encoder_close base64_std put s' e')))))
    \<and> encoder_read 9 base64_url [97] (base64_encoder_new junk nl_crln 76) = Some [89, 81, CR, CR, LF]
    \<and> base64_text base64_url nl_crln 72 0 [97] = [89, 81, CR, LF]"
proof -
  have mx: "4 \<le> be_max e" "4 dvd be_max e"
    using base64_encoder_max [of nl size' junk] assms(3,4) by (cases "nl = nl_none"; auto simp: base64_encoder_new_def)+
  have e: "be_cnt e = 0" "be_nl e = nl" "be_prior e = Some 0" using assms(4) by (simp_all add: base64_encoder_new_def)
  obtain s' e' where run: "encoder_write base64_std put s e bs = (s', e', True)"
      "out (fst (encoder_close base64_std put s' e')) = base64_text base64_std nl (be_max e) 0 bs"
    using accepting_sink.encoder_run_out [OF assms(1), of e base64_std s bs] assms(2) e by auto
  have "padding base64_std" by (simp add: base64_std_def)
  then have "encoder_read fuel base64_std bs e = Some (base64_text base64_std nl (be_max e) 0 bs)"
    if "length (base64_text base64_std nl (be_max e) 0 bs) < fuel" for fuel
    using reads_textD [OF encoder_reads [OF _ mx]] e that mx(1) by fastforce
  moreover have "encoder_read 9 base64_url [97] (base64_encoder_new junk nl_crln 76) = Some [89, 81, CR, CR, LF]"
    "base64_text base64_url nl_crln 72 0 [97] = [89, 81, CR, LF]"
    by code_simp+
  ultimately show ?thesis using run by auto
qed

theorem base64_get_put_witness:
  "encoder_read 20 base64_std [1, 2, 3, 4] (base64_encoder_new 0 nl_crln 76)
   = Some (let (s', e', ok) = encoder_write base64_std string_put [] (base64_encoder_new 0 nl_crln 76) [1, 2, 3, 4]
           in fst (encoder_close base64_std string_put s' e'))"
proof -
  have "length (let (s', e', ok) = encoder_write base64_std string_put [] (base64_encoder_new 0 nl_crln 76) [1, 2, 3, 4]
           in fst (encoder_close base64_std string_put s' e')) < 20"
    by code_simp
  then show ?thesis
    using base64_get_put [OF string_sink.accepting_sink_axioms _ _ refl, of "[]" nl_crln 76 0 "[1, 2, 3, 4]"]
    by (auto simp: newline_bytes_def)
qed

text \<open>
  The value that the decoder returns from \<open>get\<close> has the byte that \<open>put\<close> writes in its low bits, but
  the last value of a group is not masked to eight bits.
\<close>

lemma group_int_low: "map_option ucast (group_int pos p ch) = group_value pos p ch"
proof -
  have "ucast (push_bit 2 (ucast p AND 0x3F) OR drop_bit 4 (ucast ch AND 0x30) :: 32 word) = push_bit 2 (p AND 0x3F) OR drop_bit 4 (ch AND 0x30)"
    "ucast (push_bit 4 (ucast p AND 0x0F) OR drop_bit 2 (ucast ch AND 0x3C) :: 32 word) = push_bit 4 (p AND 0x0F) OR drop_bit 2 (ch AND 0x3C)"
    "ucast (push_bit 6 (ucast p AND 0x0F) OR (ucast ch AND 0x3F) :: 32 word) = push_bit 6 (p AND 0x0F) OR (ch AND 0x3F)"
    by (rule byte_eqI; simp add: bit_simps; fail)+
  then show ?thesis by (simp add: group_int_def group_value_def)
qed

lemma decoder_get_wide:
  "decoder_get 9 base64_std list_get [66, 67, 68] \<lparr>bd_cnt = 1, bd_prior = 0\<rparr> = Some ([67, 68], \<lparr>bd_cnt = 2, bd_prior = 1\<rparr>, Some 0)"
  "decoder_get 9 base64_std list_get [43] \<lparr>bd_cnt = 3, bd_prior = 15\<rparr> = Some ([], \<lparr>bd_cnt = 4, bd_prior = 62\<rparr>, Some 0x3FE)"
  by code_simp+

end
