(* ===== verification/Qprint.thy ===== *)
theory Qprint
  imports Byte_Sink Ctype
begin

text \<open>
  The quoted-printable filters (\<^verbatim>\<open>iostreams/qprint_filter.hpp\<close>): the encoder on top of the automatic
  line breaks of \<open>newline_base\<close>, and the decoder as output filter (\<open>put\<close>) and as input filter
  (\<open>get\<close>). The reference \<open>qp_decode\<close> is the decoding of RFC 2045, section 6.7, against which the encoder
  is proved; it deletes the white space at the end of every encoded line first, as rule 3 demands.
\<close>

section \<open>Encoder\<close>

record qprint_encoder =
  qe_base :: newline_base
  qe_prior :: byte

definition qprint_encoder_new :: "newline \<Rightarrow> nat \<Rightarrow> qprint_encoder" where
  "qprint_encoder_new nl size' = \<lparr>qe_base = newline_base_new nl size', qe_prior = 0\<rparr>"

definition qp_line_break :: "('s \<Rightarrow> byte \<Rightarrow> 's \<times> bool) \<Rightarrow> 's \<Rightarrow> newline_base \<Rightarrow> 's \<times> newline_base \<times> bool" where
  "qp_line_break put s b = (let (s', ok) = put s 61 in if ok then nb_put_ln put s' b else (s', b, False))"

definition qp_escape :: "('s \<Rightarrow> byte \<Rightarrow> 's \<times> bool) \<Rightarrow> 's \<Rightarrow> newline_base \<Rightarrow> byte \<Rightarrow> 's \<times> newline_base \<times> bool" where
  "qp_escape put s b hex =
     (let upper = drop_bit 4 hex AND 0xF; lower = hex AND 0xF;
          (s1, b1, ok1) = nb_put (qp_line_break put) put s b 61
      in if ok1 then
           let (s2, b2, ok2) = nb_put_nobreak put s1 b1 (hex_upper upper)
           in if ok2 then nb_put_nobreak put s2 b2 (hex_upper lower) else (s2, b2, False)
         else (s1, b1, False))"

text \<open>
  \<open>put\<close>: a blank is held back until it is known whether the line ends behind it. A \<open>char\<close> is
  signed, so the bytes from 128 on are negative and below 33.
\<close>

definition qprint_encoder_put ::
  "('s \<Rightarrow> byte \<Rightarrow> 's \<times> bool) \<Rightarrow> 's \<Rightarrow> qprint_encoder \<Rightarrow> byte \<Rightarrow> 's \<times> qprint_encoder \<times> bool" where
  "qprint_encoder_put put s e ch =
     (let (s1, b1, ok1) =
        (if qe_prior e \<noteq> 0 then
           (if ch = CR \<or> ch = LF then qp_escape put s (qe_base e) (qe_prior e)
            else nb_put (qp_line_break put) put s (qe_base e) (qe_prior e))
         else (s, qe_base e, True));
          e1 = \<lparr>qe_base = b1, qe_prior = 0\<rparr>;
          base = (\<lambda>(s', b', ok'). (s', e1\<lparr>qe_base := b'\<rparr>, ok'))
      in if \<not> ok1 then (s1, e1, False)
         else if ch = CR then (s1, e1, True)
         else if ch = LF then (let (s', ok') = put s1 ch in (s', e1, ok'))
         else if ch = 32 \<or> ch = 9 then (s1, e1\<lparr>qe_prior := ch\<rparr>, True)
         else if ch = 61 \<or> sint ch < 33 \<or> 126 < sint ch then base (qp_escape put s1 b1 ch)
         else base (nb_put (qp_line_break put) put s1 b1 ch))"

definition qprint_encoder_close :: "('s \<Rightarrow> byte \<Rightarrow> 's \<times> bool) \<Rightarrow> 's \<Rightarrow> qprint_encoder \<Rightarrow> 's \<times> qprint_encoder" where
  "qprint_encoder_close put s e =
     (if qe_prior e \<noteq> 0 then (fst (put s (qe_prior e)), e\<lparr>qe_prior := 0\<rparr>) else (s, e))"

fun qprint_write ::
  "('s \<Rightarrow> byte \<Rightarrow> 's \<times> bool) \<Rightarrow> 's \<Rightarrow> qprint_encoder \<Rightarrow> byte list \<Rightarrow> 's \<times> qprint_encoder \<times> bool" where
  "qprint_write put s e [] = (s, e, True)"
| "qprint_write put s e (b # bs) =
     (let (s', e', ok) = qprint_encoder_put put s e b in if ok then qprint_write put s' e' bs else (s', e', False))"

section \<open>Decoder\<close>

text \<open>\<open>unescape\<close>: the letters have no offset of ten, and only the letter A is taken as second digit.\<close>

definition qp_unescape :: "int \<Rightarrow> int \<Rightarrow> int" where
  "qp_unescape upper lower =
     (let hi = (if 48 \<le> upper \<and> upper \<le> 57 then Some (upper - 48)
                else if 97 \<le> upper \<and> upper \<le> 102 then Some (upper - 97)
                else if 65 \<le> upper \<and> upper \<le> 70 then Some (upper - 65) else None);
          lo = (if 48 \<le> lower \<and> lower \<le> 57 then Some (lower - 48)
                else if 97 \<le> lower \<and> lower \<le> 97 then Some (lower - 97)
                else if 65 \<le> lower \<and> lower \<le> 65 then Some (lower - 65) else None)
      in case (hi, lo) of (Some h, Some l) \<Rightarrow> 16 * h + l | _ \<Rightarrow> - 1)"

record qprint_decoder =
  qd_tmp0 :: byte
  qd_tmp1 :: byte

definition qprint_decoder_new :: qprint_decoder where
  "qprint_decoder_new = \<lparr>qd_tmp0 = 0, qd_tmp1 = 0\<rparr>"

definition qprint_decoder_put ::
  "('s \<Rightarrow> byte \<Rightarrow> 's \<times> bool) \<Rightarrow> 's \<Rightarrow> qprint_decoder \<Rightarrow> byte \<Rightarrow> 's \<times> qprint_decoder \<times> bool" where
  "qprint_decoder_put put s d ch =
     (if qd_tmp1 d \<noteq> 0 then
        let hex = qp_unescape (sint (qd_tmp1 d)) (sint ch); d' = \<lparr>qd_tmp0 = 0, qd_tmp1 = 0\<rparr>
        in if hex < 0 then (s, d', False) else (let (s', ok) = put s (word_of_int hex) in (s', d', ok))
      else if qd_tmp0 d \<noteq> 0 then (s, d\<lparr>qd_tmp1 := ch\<rparr>, True)
      else if ch = 61 then (s, d\<lparr>qd_tmp0 := 61\<rparr>, True)
      else (let (s', ok) = put s ch in (s', d, ok)))"

text \<open>\<open>get\<close>, with \<open>None\<close> for the end of the source; the result is the \<open>int\<close> of the code.\<close>

definition qprint_decoder_get :: "('src \<Rightarrow> 'src \<times> byte option) \<Rightarrow> 'src \<Rightarrow> 'src \<times> int option" where
  "qprint_decoder_get get src =
     (case get src of
        (src1, Some c) \<Rightarrow>
          if c = 61 then
            (case get src1 of
               (src2, None) \<Rightarrow> (src2, None)
             | (src2, Some c2) \<Rightarrow>
                 if c2 = CR \<or> c2 = LF then
                   (let (src3, c3) = get src2; (src4, c4) = (if c3 = Some LF then get src3 else (src3, c3))
                    in (src4, map_option uint c4))
                 else (case get src2 of
                     (src3, None) \<Rightarrow> (src3, None)
                   | (src3, Some c3) \<Rightarrow> (src3, Some (qp_unescape (uint c2) (uint c3)))))
          else (src1, Some (uint c))
      | (src1, None) \<Rightarrow> (src1, None))"

section \<open>The encoder against RFC 2045\<close>

definition unhex_upper :: "byte \<Rightarrow> byte" where
  "unhex_upper h = (if h < 58 then h - 48 else h - 55)"

definition qp_blank :: "byte \<Rightarrow> bool" where
  "qp_blank c \<longleftrightarrow> c = 32 \<or> c = 9"

text \<open>Rule 3: white space at the end of an encoded line is deleted when the text is decoded.\<close>

fun qp_trim :: "byte list \<Rightarrow> byte list" where
  "qp_trim [] = []"
| "qp_trim (c # cs) =
     (if qp_blank c \<and> (case dropWhile qp_blank cs of [] \<Rightarrow> True | d # ds \<Rightarrow> d = CR \<or> d = LF) then qp_trim cs
      else c # qp_trim cs)"

text \<open>Rules 1, 2 and 5: escapes, literals and soft line breaks.\<close>

fun qp_literals :: "newline \<Rightarrow> byte list \<Rightarrow> byte list" where
  "qp_literals nl [] = []"
| "qp_literals nl (c # cs) =
     (if c \<noteq> 61 then c # qp_literals nl cs
      else if nl \<noteq> nl_none \<and> take (length (newline_bytes nl)) cs = newline_bytes nl then
        qp_literals nl (drop (length (newline_bytes nl)) cs)
      else case cs of
        h # l # rest \<Rightarrow> (push_bit 4 (unhex_upper h) OR unhex_upper l) # qp_literals nl rest
      | _ \<Rightarrow> [])"

definition qp_decode :: "newline \<Rightarrow> byte list \<Rightarrow> byte list" where
  "qp_decode nl txt = qp_literals nl (qp_trim txt)"

text \<open>What may stand in an encoded text: printable characters, white space and line breaks.\<close>

definition qp_char :: "byte \<Rightarrow> bool" where
  "qp_char c \<longleftrightarrow> 32 \<le> c \<and> c \<le> 126 \<or> c = 9 \<or> c = CR \<or> c = LF"

text \<open>A text that stands for a sequence of bytes: literal characters, escapes and soft line breaks.\<close>

definition qp_escaped :: "byte \<Rightarrow> byte list" where
  "qp_escaped c = [61, hex_upper (drop_bit 4 c AND 0xF), hex_upper (c AND 0xF)]"

text \<open>No blank stands in front of a line break.\<close>

abbreviation unpadded :: "byte list \<Rightarrow> bool" where
  "unpadded \<equiv> successively (\<lambda>c d. qp_blank c \<longrightarrow> d \<noteq> CR \<and> d \<noteq> LF)"

abbreviation blank_end :: "byte list \<Rightarrow> bool" where
  "blank_end xs \<equiv> xs \<noteq> [] \<and> qp_blank (last xs)"

inductive encodes :: "newline \<Rightarrow> byte list \<Rightarrow> byte list \<Rightarrow> bool" for nl where
  encodes_nil: "encodes nl [] []"
| encodes_literal: "encodes nl text bs \<Longrightarrow> c \<noteq> 61 \<Longrightarrow> qp_char c \<Longrightarrow> c \<noteq> CR \<Longrightarrow> c = LF \<longrightarrow> \<not> blank_end text \<Longrightarrow> encodes nl (text @ [c]) (bs @ [c])"
| encodes_escape: "encodes nl text bs \<Longrightarrow> encodes nl (text @ qp_escaped c) (bs @ [c])"
| encodes_soft: "encodes nl text bs \<Longrightarrow> nl \<noteq> nl_none \<Longrightarrow> encodes nl (text @ 61 # newline_bytes nl) bs"

lemma graphic_range: "33 \<le> sint c \<Longrightarrow> sint c \<le> 126 \<Longrightarrow> 32 \<le> c \<and> c \<le> 126" for c :: byte
proof -
  assume "33 \<le> sint c" "sint c \<le> 126"
  moreover have "uint c = sint c mod 256" using uint_word_of_int [of "sint c", where 'a = 8] by simp
  ultimately show ?thesis by (simp add: word_le_def)
qed

lemma hex_upper_nibbles:
  "list_all (\<lambda>n. unhex_upper (hex_upper n) = n \<and> hex_upper n \<noteq> CR \<and> hex_upper n \<noteq> LF \<and> qp_char (hex_upper n) \<and> \<not> qp_blank (hex_upper n))
     (map word_of_nat [0..<16])"
  by code_simp

lemma hex_upper_inverse:
  "unhex_upper (hex_upper (n AND 0xF)) = n AND 0xF" "hex_upper (n AND 0xF) \<noteq> CR" "hex_upper (n AND 0xF) \<noteq> LF"
  "qp_char (hex_upper (n AND 0xF))" "\<not> qp_blank (hex_upper (n AND 0xF))"
  using hex_upper_nibbles nibble_in [of n] unfolding list_all_iff by blast+

lemma qp_literals_escaped: "qp_literals nl (qp_escaped c @ x) = c # qp_literals nl x"
  using hex_upper_inverse [of c] hex_upper_inverse [of "drop_bit 4 c"] nibbles_join [of c]
  by (cases nl) (simp_all add: qp_escaped_def newline_bytes_def)

lemma encodes_decode: "encodes nl text bs \<Longrightarrow> qp_literals nl (text @ x) = bs @ qp_literals nl x"
proof (induction arbitrary: x rule: encodes.induct)
  case (encodes_escape xs bs c)
  then show ?case by (simp add: qp_literals_escaped)
qed simp_all

lemma soft_bytes: "nl \<noteq> nl_none \<Longrightarrow> newline_bytes nl \<noteq> [] \<and> list_all (\<lambda>c. c = CR \<or> c = LF) (newline_bytes nl)"
  by (cases nl) (simp_all add: newline_bytes_def)

lemma equals_sign: "qp_char 61" "\<not> qp_blank 61" "(61::byte) \<noteq> CR" "(61::byte) \<noteq> LF"
  by (simp_all add: qp_char_def qp_blank_def CR_def LF_def)

lemma encodes_chars: "encodes nl text bs \<Longrightarrow> list_all qp_char text"
proof (induction rule: encodes.induct)
  case (encodes_soft xs bs)
  have "list_all qp_char (newline_bytes nl)" using soft_bytes [OF encodes_soft(2)] by (auto simp: list_all_iff qp_char_def)
  then show ?case using encodes_soft by (simp add: equals_sign)
qed (simp_all add: qp_escaped_def hex_upper_inverse equals_sign)

lemma encodes_unpadded: "encodes nl text bs \<Longrightarrow> unpadded text"
proof (induction rule: encodes.induct)
  case (encodes_soft xs bs)
  have "unpadded (61 # newline_bytes nl)" by (cases nl) (simp_all add: newline_bytes_def qp_blank_def CR_def LF_def)
  then show ?case using encodes_soft by (simp add: successively_append_iff equals_sign)
next
  case (encodes_escape xs bs c)
  have "unpadded (qp_escaped c)" by (simp add: qp_escaped_def hex_upper_inverse equals_sign)
  moreover have "hd (qp_escaped c) = 61" by (simp add: qp_escaped_def)
  ultimately show ?case using encodes_escape by (simp add: successively_append_iff equals_sign)
qed (auto simp: successively_append_iff)

text \<open>The blanks at the end of the text are literals, and what is in front of them is a text as well.\<close>

lemma encodes_strip:
  "encodes nl text bs \<Longrightarrow> \<exists>front bs' blanks. text = front @ blanks \<and> bs = bs' @ blanks \<and> list_all qp_blank blanks
     \<and> encodes nl front bs' \<and> \<not> blank_end front"
proof (induction rule: encodes.induct)
  case (encodes_literal xs bs c)
  show ?case
  proof (cases "qp_blank c")
    case True
    obtain f b ws where "xs = f @ ws" "bs = b @ ws" "list_all qp_blank ws" "encodes nl f b" "\<not> blank_end f" using encodes_literal(6) by blast
    then show ?thesis using True by (intro exI [of _ f] exI [of _ b] exI [of _ "ws @ [c]"]) simp
  next
    case False
    have "encodes nl (xs @ [c]) (bs @ [c])" using encodes_literal by (intro encodes.encodes_literal)
    then show ?thesis using False by (intro exI [of _ "xs @ [c]"] exI [of _ "bs @ [c]"] exI [of _ "[]"]) simp
  qed
next
  case (encodes_escape xs bs c)
  then show ?case using encodes.encodes_escape [of nl xs bs c]
    by (intro exI [of _ "xs @ qp_escaped c"] exI [of _ "bs @ [c]"] exI [of _ "[]"]) (simp add: qp_escaped_def hex_upper_inverse)
next
  case (encodes_soft xs bs)
  have "\<not> qp_blank (last (newline_bytes nl))"
    using encodes_soft(2) by (cases nl) (simp_all add: newline_bytes_def qp_blank_def CR_def LF_def)
  then show ?case using encodes.encodes_soft [OF encodes_soft(1,2)] soft_bytes [OF encodes_soft(2)]
    by (intro exI [of _ "xs @ 61 # newline_bytes nl"] exI [of _ bs] exI [of _ "[]"]) simp
qed (use encodes_nil in auto)

lemma qp_trim_blanks: "list_all qp_blank blanks \<Longrightarrow> qp_trim blanks = []"
proof (induction blanks)
  case (Cons c cs)
  then have d: "dropWhile qp_blank cs = []" by (simp add: list_all_iff)
  show ?case using Cons unfolding qp_trim.simps d by simp
qed simp

lemma qp_trim_unpadded: "unpadded (front @ blanks) \<Longrightarrow> list_all qp_blank blanks \<Longrightarrow> \<not> blank_end front \<Longrightarrow> qp_trim (front @ blanks) = front"
proof (induction front)
  case Nil
  then show ?case by (simp add: qp_trim_blanks)
next
  case (Cons c cs)
  have "unpadded (cs @ blanks)" "\<not> blank_end cs" using Cons.prems by (auto simp: successively_Cons split: if_splits)
  moreover have "\<exists>d ds. dropWhile qp_blank (cs @ blanks) = d # ds \<and> d \<noteq> CR \<and> d \<noteq> LF" if "qp_blank c"
    using Cons.prems that
  proof (induction cs arbitrary: c)
    case (Cons d ds)
    then show ?case by (cases "qp_blank d") (auto simp: successively_Cons split: if_splits)
  qed simp
  ultimately show ?case using Cons by fastforce
qed

lemma qp_decode_encodes:
  assumes "encodes nl text bs"
  obtains blanks where "bs = qp_decode nl text @ blanks" "list_all qp_blank blanks" "blanks \<noteq> [] \<longleftrightarrow> blank_end text"
proof -
  obtain f b ws where e: "text = f @ ws" "bs = b @ ws" "list_all qp_blank ws" "encodes nl f b" "\<not> blank_end f" using encodes_strip [OF assms] by blast
  have "qp_trim text = f" using qp_trim_unpadded encodes_unpadded [OF assms] e by simp
  then have "qp_decode nl text = b" using encodes_decode [OF e(4), of "[]"] by (simp add: qp_decode_def)
  moreover have "ws \<noteq> [] \<longleftrightarrow> blank_end text" using e(1,3,5) by (cases ws rule: rev_cases) auto
  ultimately show ?thesis using that e(2,3) by blast
qed

text \<open>The steps of the encoder on a sink that takes everything.\<close>

definition soft_break :: "newline_base \<Rightarrow> byte list" where
  "soft_break b = (if nb_max b \<le> nb_cnt b then 61 # newline_bytes (nb_nl b) else [])"

definition same_line :: "newline_base \<Rightarrow> newline_base \<Rightarrow> nat \<Rightarrow> bool" where
  "same_line b b' n \<longleftrightarrow> nb_nl b' = nb_nl b \<and> nb_max b' = nb_max b \<and> nb_cnt b' = (if nb_max b \<le> nb_cnt b then n else nb_cnt b + n)"

context accepting_sink
begin

lemma put_obtain: obtains s' where "put s c = (s', True)" "out s' = out s @ [c]"
  using put_ok [of s c] put_out [of s c] by (cases "put s c") auto

lemma qp_nb_put:
  obtains s' b' where "nb_put (qp_line_break put) put s b c = (s', b', True)" "out s' = out s @ soft_break b @ [c]" "same_line b b' 1"
proof (cases "nb_max b \<le> nb_cnt b")
  case True
  obtain s1 where 1: "put s 61 = (s1, True)" "out s1 = out s @ [61]" by (rule put_obtain)
  obtain s2 where 2: "put_seq put s1 (newline_bytes (nb_nl b)) = (s2, True)" "out s2 = out s1 @ newline_bytes (nb_nl b)" by (rule put_seq_cases)
  obtain s3 where 3: "put s2 c = (s3, True)" "out s3 = out s2 @ [c]" by (rule put_obtain)
  show ?thesis
    by (rule that) (use True 1 2 3 in \<open>auto simp: nb_put_def qp_line_break_def nb_put_ln_def nb_put_nobreak_def soft_break_def same_line_def\<close>)
next
  case False
  obtain s3 where 3: "put s c = (s3, True)" "out s3 = out s @ [c]" by (rule put_obtain)
  show ?thesis by (rule that) (use False 3 in \<open>auto simp: nb_put_def nb_put_nobreak_def soft_break_def same_line_def\<close>)
qed

lemma qp_escape_put:
  obtains s' b' where "qp_escape put s b c = (s', b', True)" "out s' = out s @ soft_break b @ qp_escaped c" "same_line b b' 3"
proof -
  let ?u = "hex_upper (drop_bit 4 c AND 0xF)" and ?l = "hex_upper (c AND 0xF)"
  obtain s1 b1 where 1: "nb_put (qp_line_break put) put s b 61 = (s1, b1, True)" "out s1 = out s @ soft_break b @ [61]" "same_line b b1 1"
    by (rule qp_nb_put)
  obtain s2 where 2: "put s1 ?u = (s2, True)" "out s2 = out s1 @ [?u]" by (rule put_obtain)
  obtain s3 where 3: "put s2 ?l = (s3, True)" "out s3 = out s2 @ [?l]" by (rule put_obtain)
  show ?thesis
    by (rule that) (use 1 2 3 in \<open>auto simp: qp_escape_def nb_put_nobreak_def qp_escaped_def same_line_def Let_def split: if_splits\<close>)
qed

text \<open>
  The text so far stands for \<open>bs\<close>. The room counts what may still be written before
  a line without line breaks has 2^64 - 1 characters.
\<close>

definition qp_at :: "newline \<Rightarrow> 's \<Rightarrow> newline_base \<Rightarrow> nat \<Rightarrow> byte list \<Rightarrow> bool" where
  "qp_at nl s b room bs \<longleftrightarrow> encodes nl (out s) bs \<and> nb_nl b = nl \<and> (nl = nl_none \<longrightarrow> nb_cnt b + room < nb_max b)"

lemma qp_at_soft: "qp_at nl s b room bs \<Longrightarrow> encodes nl (out s @ soft_break b) bs"
  by (auto simp: qp_at_def soft_break_def intro: encodes_soft)

lemma blank_literal: "qp_blank c \<Longrightarrow> c \<noteq> 61 \<and> qp_char c \<and> c \<noteq> CR \<and> c \<noteq> LF"
  by (auto simp: qp_blank_def qp_char_def CR_def LF_def)

lemma same_line_room: "qp_at nl s b (n + room) bs \<Longrightarrow> same_line b b' n \<Longrightarrow> encodes nl (out s') bs' \<Longrightarrow> qp_at nl s' b' room bs'"
  by (auto simp: qp_at_def same_line_def)

lemma qp_at_less: "qp_at nl s b n bs \<Longrightarrow> m \<le> n \<Longrightarrow> qp_at nl s b m bs"
  by (auto simp: qp_at_def)

lemma qp_at_put:
  assumes "qp_at nl s b (3 + room) bs" "c \<noteq> 61" "qp_char c" "c \<noteq> CR" "c \<noteq> LF"
  obtains s' b' where "nb_put (qp_line_break put) put s b c = (s', b', True)" "qp_at nl s' b' room (bs @ [c])" "last (out s') = c"
proof -
  obtain s' b' where r: "nb_put (qp_line_break put) put s b c = (s', b', True)" "out s' = out s @ soft_break b @ [c]" "same_line b b' 1"
    by (rule qp_nb_put)
  have "encodes nl (out s') (bs @ [c])" using encodes_literal [OF qp_at_soft [OF assms(1)] assms(2-4)] assms(5) r(2) by simp
  then show ?thesis using same_line_room [OF qp_at_less [OF assms(1)] r(3), of room] r(1,2) that by simp
qed

lemma qp_at_escape:
  assumes "qp_at nl s b (3 + room) bs"
  obtains s' b' where "qp_escape put s b c = (s', b', True)" "qp_at nl s' b' room (bs @ [c])" "\<not> blank_end (out s')"
proof -
  obtain s' b' where r: "qp_escape put s b c = (s', b', True)" "out s' = out s @ soft_break b @ qp_escaped c" "same_line b b' 3"
    by (rule qp_escape_put)
  have "encodes nl (out s') (bs @ [c])" using encodes_escape [OF qp_at_soft [OF assms]] r(2) by simp
  moreover have "\<not> blank_end (out s')" using r(2) by (simp add: qp_escaped_def hex_upper_inverse)
  ultimately show ?thesis using same_line_room [OF assms r(3)] r(1) that by blast
qed

lemma qp_at_literal:
  assumes "qp_at nl s b room bs" "c = LF" "\<not> blank_end (out s)"
  obtains s' where "put s c = (s', True)" "qp_at nl s' b room (bs @ [c])" "\<not> blank_end (out s')"
proof -
  obtain s' where "put s c = (s', True)" "out s' = out s @ [c]" by (rule put_obtain)
  moreover have "encodes nl (out s @ [c]) (bs @ [c])"
    using assms by (intro encodes_literal) (auto simp: qp_at_def qp_char_def CR_def LF_def)
  moreover have "\<not> qp_blank c" using assms(2) by (simp add: qp_blank_def LF_def)
  ultimately show ?thesis using assms(1) that by (auto simp: qp_at_def)
qed

text \<open>With the blank that is held back.\<close>

definition qe_at :: "newline \<Rightarrow> 's \<Rightarrow> qprint_encoder \<Rightarrow> nat \<Rightarrow> byte list \<Rightarrow> bool" where
  "qe_at nl s e room bs \<longleftrightarrow> qe_prior e \<in> {0, 32, 9} \<and>
     (if qe_prior e = 0 then qp_at nl s (qe_base e) room bs \<and> \<not> blank_end (out s)
      else bs \<noteq> [] \<and> last bs = qe_prior e \<and> qp_at nl s (qe_base e) (3 + room) (butlast bs))"

definition qp_flush :: "'s \<Rightarrow> qprint_encoder \<Rightarrow> byte \<Rightarrow> 's \<times> newline_base \<times> bool" where
  "qp_flush s e ch = (if qe_prior e \<noteq> 0 then
     (if ch = CR \<or> ch = LF then qp_escape put s (qe_base e) (qe_prior e) else nb_put (qp_line_break put) put s (qe_base e) (qe_prior e))
     else (s, qe_base e, True))"

lemma qp_flush_at:
  assumes "qe_at nl s e room bs"
  obtains s' b' where "qp_flush s e ch = (s', b', True)" "qp_at nl s' b' room bs" "ch = CR \<or> ch = LF \<longrightarrow> \<not> blank_end (out s')"
proof (cases "qe_prior e = 0")
  case True
  then show ?thesis using assms that by (simp add: qe_at_def qp_flush_def)
next
  case False
  then have at: "qp_at nl s (qe_base e) (3 + room) (butlast bs)" "butlast bs @ [qe_prior e] = bs" "qp_blank (qe_prior e)"
    using assms append_butlast_last_id [of bs] by (auto simp: qe_at_def qp_blank_def)
  show ?thesis
  proof (cases "ch = CR \<or> ch = LF")
    case True
    from at(1) obtain s' b' where "qp_escape put s (qe_base e) (qe_prior e) = (s', b', True)" "qp_at nl s' b' room (butlast bs @ [qe_prior e])" "\<not> blank_end (out s')"
      by (rule qp_at_escape)
    then show ?thesis using True False that at(2) by (simp add: qp_flush_def)
  next
    case no: False
    note lit = blank_literal [OF at(3)]
    from at(1) lit obtain s' b' where "nb_put (qp_line_break put) put s (qe_base e) (qe_prior e) = (s', b', True)" "qp_at nl s' b' room (butlast bs @ [qe_prior e])"
      by (elim qp_at_put) blast+
    then show ?thesis using no False that at(2) by (simp add: qp_flush_def)
  qed
qed

lemma qprint_put_at:
  assumes "qe_at nl s e (3 + room) bs"
  obtains s' e' where "qprint_encoder_put put s e ch = (s', e', True)" "qe_at nl s' e' room (bs @ (if ch = CR then [] else [ch]))"
proof -
  obtain s1 b1 where f: "qp_flush s e ch = (s1, b1, True)" "qp_at nl s1 b1 (3 + room) bs" "ch = CR \<or> ch = LF \<longrightarrow> \<not> blank_end (out s1)"
    using assms by (rule qp_flush_at)
  have put: "qprint_encoder_put put s e ch =
      (if ch = CR then (s1, \<lparr>qe_base = b1, qe_prior = 0\<rparr>, True)
       else if ch = LF then (let (s', ok') = put s1 ch in (s', \<lparr>qe_base = b1, qe_prior = 0\<rparr>, ok'))
       else if ch = 32 \<or> ch = 9 then (s1, \<lparr>qe_base = b1, qe_prior = ch\<rparr>, True)
       else let (s', b', ok') = (if ch = 61 \<or> sint ch < 33 \<or> 126 < sint ch then qp_escape put s1 b1 ch else nb_put (qp_line_break put) put s1 b1 ch)
            in (s', \<lparr>qe_base = b', qe_prior = 0\<rparr>, ok'))"
    using f(1) unfolding qprint_encoder_put_def qp_flush_def by (simp add: case_prod_beta)
  consider (cr) "ch = CR" | (lf) "ch = LF" "ch \<noteq> CR" | (blank) "ch = 32 \<or> ch = 9" "ch \<noteq> CR" "ch \<noteq> LF"
    | (other) "ch \<noteq> CR" "ch \<noteq> LF" "\<not> (ch = 32 \<or> ch = 9)" by blast
  then show ?thesis
  proof cases
    case cr
    then show ?thesis using that put qp_at_less [OF f(2), of room] f(3) by (simp add: qe_at_def)
  next
    case lf
    then have "\<not> blank_end (out s1)" using f(3) by simp
    with f(2) lf(1) obtain s' where "put s1 ch = (s', True)" "qp_at nl s' b1 (3 + room) (bs @ [ch])" "\<not> blank_end (out s')" by (rule qp_at_literal)
    then show ?thesis using that put lf qp_at_less [of nl s' b1 "3 + room" "bs @ [ch]" room] by (simp add: qe_at_def)
  next
    case blank
    then show ?thesis using that put f(2) by (auto simp: qe_at_def)
  next
    case other
    show ?thesis
    proof (cases "ch = 61 \<or> sint ch < 33 \<or> 126 < sint ch")
      case True
      obtain s' b' where "qp_escape put s1 b1 ch = (s', b', True)" "qp_at nl s' b' room (bs @ [ch])" "\<not> blank_end (out s')"
        using f(2) by (rule qp_at_escape)
      then show ?thesis using that put other True by (simp add: qe_at_def)
    next
      case False
      then have c: "ch \<noteq> 61" "qp_char ch" "\<not> qp_blank ch" using other graphic_range [of ch] by (auto simp: qp_char_def qp_blank_def)
      obtain s' b' where "nb_put (qp_line_break put) put s1 b1 ch = (s', b', True)" "qp_at nl s' b' room (bs @ [ch])" "last (out s') = ch"
        using f(2) c(1,2) other(1,2) by (rule qp_at_put)
      then show ?thesis using that put other False c(3) by (simp add: qe_at_def)
    qed
  qed
qed

lemma qprint_write_at:
  assumes "qe_at nl s e (3 * length cs + room) bs"
  shows "\<exists>s' e'. qprint_write put s e cs = (s', e', True) \<and> qe_at nl s' e' room (bs @ filter (\<lambda>c. c \<noteq> CR) cs)"
  using assms
proof (induction cs arbitrary: s e bs)
  case (Cons c cs)
  have "qe_at nl s e (3 + (3 * length cs + room)) bs" using Cons.prems by (simp add: algebra_simps)
  then obtain s1 e1 where 1: "qprint_encoder_put put s e c = (s1, e1, True)" "qe_at nl s1 e1 (3 * length cs + room) (bs @ (if c = CR then [] else [c]))"
    by (rule qprint_put_at)
  show ?case using Cons.IH [OF 1(2)] 1(1) by auto
qed simp

lemma qprint_close_encodes:
  assumes "qe_at nl s e room bs"
  shows "encodes nl (out (fst (qprint_encoder_close put s e))) bs \<and> (blank_end (out (fst (qprint_encoder_close put s e))) \<longleftrightarrow> qe_prior e \<noteq> 0)"
proof (cases "qe_prior e = 0")
  case True
  then show ?thesis using assms by (simp add: qe_at_def qp_at_def qprint_encoder_close_def)
next
  case False
  then have at: "encodes nl (out s) (butlast bs)" "butlast bs @ [qe_prior e] = bs" "qp_blank (qe_prior e)"
    using assms append_butlast_last_id [of bs] by (auto simp: qe_at_def qp_at_def qp_blank_def)
  then show ?thesis using encodes_literal [OF at(1), of "qe_prior e"] blank_literal [OF at(3)] False by (simp add: qprint_encoder_close_def put_out)
qed

end

text \<open>The blank that is held back at the end of the text.\<close>

lemma qprint_put_prior:
  "qprint_encoder_put put s e ch = (s', e', True) \<Longrightarrow> qe_prior e' = (if qp_blank ch then ch else 0)"
  by (auto simp: qprint_encoder_put_def Let_def qp_blank_def CR_def LF_def split: prod.splits if_splits)

lemma qprint_write_prior:
  "qprint_write put s e bs = (s', e', True) \<Longrightarrow> qe_prior e' = (if bs = [] then qe_prior e else if qp_blank (last bs) then last bs else 0)"
proof (induction bs arbitrary: s e)
  case (Cons b bs)
  then obtain s1 e1 where 1: "qprint_encoder_put put s e b = (s1, e1, True)" "qprint_write put s1 e1 bs = (s', e', True)"
    by (auto split: prod.splits if_splits)
  show ?case using Cons.IH [OF 1(2)] qprint_put_prior [OF 1(1)] by auto
qed simp

section \<open>Properties\<close>

text \<open>
  (C11) For every text, line break and line size, what the encoder writes and closes consists of
  printable characters, white space and line breaks, and decoding it as RFC 2045, section 6.7, says
  gives the bytes that were written without the carriage returns (which the encoder drops), except for
  blanks at the very end: blanks in front of line feeds and soft breaks survive, but when the last byte
  written is a blank or a tabulator, \<open>close\<close> writes it unescaped and a conforming decoder deletes it,
  with the blanks in front of it on the line. Without line breaks the text must be shorter than the
  largest \<open>size_t\<close>; the sink takes everything.
\<close>

theorem qprint_encoder_correct:
  assumes "accepting_sink put out" "out s = []" "nl = nl_none \<longrightarrow> 3 * length bs < 2 ^ 64 - 1"
  shows "\<exists>s' e' txt blanks. qprint_write put s (qprint_encoder_new nl size') bs = (s', e', True)
    \<and> txt = out (fst (qprint_encoder_close put s' e')) \<and> list_all qp_char txt
    \<and> filter (\<lambda>c. c \<noteq> CR) bs = qp_decode nl txt @ blanks
    \<and> list_all qp_blank blanks \<and> (blanks = [] \<longleftrightarrow> bs = [] \<or> \<not> qp_blank (last bs))"
proof -
  note at = accepting_sink.qe_at_def [OF assms(1)] accepting_sink.qp_at_def [OF assms(1)]
  have "accepting_sink.qe_at out nl s (qprint_encoder_new nl size') (3 * length bs + 0) []"
    using assms(2,3) encodes_nil by (auto simp: at qprint_encoder_new_def newline_base_new_def)
  from accepting_sink.qprint_write_at [OF assms(1) this] obtain s' e' where
    w: "qprint_write put s (qprint_encoder_new nl size') bs = (s', e', True)"
      "accepting_sink.qe_at out nl s' e' 0 ([] @ filter (\<lambda>c. c \<noteq> CR) bs)" by blast
  let ?txt = "out (fst (qprint_encoder_close put s' e'))"
  have enc: "encodes nl ?txt (filter (\<lambda>c. c \<noteq> CR) bs)" "blank_end ?txt \<longleftrightarrow> qe_prior e' \<noteq> 0"
    using accepting_sink.qprint_close_encodes [OF assms(1) w(2)] by simp_all
  moreover have "qe_prior e' \<noteq> 0 \<longleftrightarrow> bs \<noteq> [] \<and> qp_blank (last bs)"
    using qprint_write_prior [OF w(1)] by (auto simp: qprint_encoder_new_def qp_blank_def)
  moreover obtain blanks where "filter (\<lambda>c. c \<noteq> CR) bs = qp_decode nl ?txt @ blanks" "list_all qp_blank blanks" "blanks \<noteq> [] \<longleftrightarrow> blank_end ?txt"
    using enc(1) by (rule qp_decode_encodes)
  ultimately show ?thesis using w(1) encodes_chars [OF enc(1)] by blast
qed

theorem qprint_encoder_correct_witness:
  "(\<exists>s' e'. qprint_write string_put [] (qprint_encoder_new nl_crln 4) [65, 32, 10, 61, 200] = (s', e', True)
      \<and> qp_decode nl_crln (fst (qprint_encoder_close string_put s' e')) = [65, 32, 10, 61, 200])
   \<and> (\<exists>s' e'. qprint_write string_put [] (qprint_encoder_new nl_crln 76) [65, 32] = (s', e', True)
      \<and> qp_decode nl_crln (fst (qprint_encoder_close string_put s' e')) \<noteq> [65, 32])"
  using qprint_encoder_correct [OF string_sink.accepting_sink_axioms, of "[]" nl_crln "[65, 32, 10, 61, 200]" 4]
    qprint_encoder_correct [OF string_sink.accepting_sink_axioms, of "[]" nl_crln "[65, 32]" 76]
  by (auto simp: CR_def qp_blank_def)

fun qprint_decode ::
  "('s \<Rightarrow> byte \<Rightarrow> 's \<times> bool) \<Rightarrow> 's \<Rightarrow> qprint_decoder \<Rightarrow> byte list \<Rightarrow> 's \<times> qprint_decoder \<times> bool" where
  "qprint_decode put s d [] = (s, d, True)"
| "qprint_decode put s d (b # bs) =
     (let (s', d', ok) = qprint_decoder_put put s d b in if ok then qprint_decode put s' d' bs else (s', d', False))"

definition nibble_value :: "byte \<Rightarrow> byte" where
  "nibble_value n = (if n < 10 then n else n - 10)"

lemma nibbles_sint:
  "list_all (\<lambda>n. sint (hex_upper n) = (if n < 10 then 48 + uint (nibble_value n) else 65 + uint (nibble_value n))
     \<and> 0 \<le> uint (nibble_value n) \<and> uint (nibble_value n) \<le> (if n < 10 then 9 else 5) \<and> (n < 10 \<longrightarrow> nibble_value n = n)
     \<and> (10 < n \<longleftrightarrow> \<not> n < 10 \<and> 0 < uint (nibble_value n)) \<and> hex_upper n \<noteq> 0) (map word_of_nat [0..<16])"
  by code_simp

lemmas nibble_sint = nibbles_sint [unfolded list_all_iff, THEN bspec, OF nibble_in]

text \<open>A digit of an escape and its value, for the first and for the second position.\<close>

lemma qp_unescape_digits:
  assumes "0 \<le> h" "h \<le> (if P then 9 else 5)" "0 \<le> l" "l \<le> (if Q then 9 else 5)"
  shows "qp_unescape (if P then 48 + h else 65 + h) (if Q then 48 + l else 65 + l)
    = (if \<not> Q \<and> 0 < l then - 1 else 16 * h + l)"
  using assms by (cases P; cases Q) (simp_all add: qp_unescape_def Let_def)

lemma qp_unescape_escaped:
  "qp_unescape (sint (hex_upper (c AND 0xF))) (sint (hex_upper (d AND 0xF)))
     = (if 10 < d AND 0xF then - 1 else 16 * uint (nibble_value (c AND 0xF)) + uint (nibble_value (d AND 0xF)))"
  using nibble_sint [of c] nibble_sint [of d]
    qp_unescape_digits [of "uint (nibble_value (c AND 0xF))" "c AND 0xF < 10" "uint (nibble_value (d AND 0xF))" "d AND 0xF < 10"]
  by simp

lemma qprint_decode_escape:
  "u \<noteq> 0 \<Longrightarrow> qprint_decode put s qprint_decoder_new [61, u, l] =
     (if qp_unescape (sint u) (sint l) < 0 then (s, qprint_decoder_new, False)
      else let (s', ok) = put s (word_of_int (qp_unescape (sint u) (sint l))) in (s', qprint_decoder_new, ok))"
  by (auto simp: qprint_decoder_put_def qprint_decoder_new_def Let_def split: prod.splits)

text \<open>
  What the output filter of the decoder does with each piece of a quoted-printable
  text: a literal is written as it is; an escape of a byte whose hexadecimal digits are decimal gives
  the byte; with a letter as first digit, or the letter A as second one, ten is missing
  from the value; with any other letter as second digit, and at a soft line break followed by
  anything, the text is refused.
\<close>

theorem qprint_decoder_pieces:
  "(c \<noteq> 61 \<longrightarrow> qprint_decode put s qprint_decoder_new [c] = (let (s', ok) = put s c in (s', qprint_decoder_new, ok)))
   \<and> (c AND 0xF \<le> 10 \<longrightarrow> qprint_decode put s qprint_decoder_new (qp_escaped c)
        = (let (s', ok) = put s (16 * nibble_value (drop_bit 4 c AND 0xF) + nibble_value (c AND 0xF)) in (s', qprint_decoder_new, ok)))
   \<and> (c AND 0xF < 10 \<longrightarrow> drop_bit 4 c AND 0xF < 10 \<longrightarrow>
        qprint_decode put s qprint_decoder_new (qp_escaped c) = (let (s', ok) = put s c in (s', qprint_decoder_new, ok)))
   \<and> (10 < c AND 0xF \<longrightarrow> qprint_decode put s qprint_decoder_new (qp_escaped c) = (s, qprint_decoder_new, False))
   \<and> (b \<in> {CR, LF} \<longrightarrow> qprint_decode put s qprint_decoder_new [61, b, c] = (s, qprint_decoder_new, False))"
proof -
  let ?hi = "drop_bit 4 c AND 0xF" and ?lo = "c AND 0xF"
  let ?v = "16 * uint (nibble_value ?hi) + uint (nibble_value ?lo)"
  have v: "\<not> ?v < 0" "word_of_int ?v = 16 * nibble_value ?hi + nibble_value ?lo" by (simp_all add: not_less)
  have "hex_upper ?hi \<noteq> 0" using nibble_sint by blast
  from qprint_decode_escape [OF this, of put s "hex_upper ?lo"]
  have esc: "qprint_decode put s qprint_decoder_new (qp_escaped c) =
      (if ?lo > 10 then (s, qprint_decoder_new, False)
       else (let (s', ok) = put s (16 * nibble_value ?hi + nibble_value ?lo) in (s', qprint_decoder_new, ok)))"
    unfolding qp_escaped_def qp_unescape_escaped using v by (simp split del: if_split split: if_split_asm) 
  have dec: "16 * nibble_value ?hi + nibble_value ?lo = c" if "?lo < 10" "?hi < 10"
    using that nibbles_sum [of c] by (simp add: nibble_value_def)
  have soft: "qprint_decode put s qprint_decoder_new [61, b, c] = (s, qprint_decoder_new, False)" if "b \<in> {CR, LF}" for b
  proof -
    have "sint b = 13 \<or> sint b = 10" "b \<noteq> 0" using that by (auto simp: CR_def LF_def)
    then show ?thesis unfolding qprint_decode_escape [OF \<open>b \<noteq> 0\<close>] by (auto simp: qp_unescape_def)
  qed
  have lit: "qprint_decode put s qprint_decoder_new [c] = (let (s', ok) = put s c in (s', qprint_decoder_new, ok))" if "c \<noteq> 61"
    using that by (simp add: qprint_decoder_put_def qprint_decoder_new_def case_prod_beta)
  show ?thesis using esc dec soft lit by auto
qed

theorem qprint_decoder_pieces_witness:
  "qprint_decode string_put [] qprint_decoder_new (qp_escaped 0x20) = ([0x20], qprint_decoder_new, True)
   \<and> qprint_decode string_put [] qprint_decoder_new (qp_escaped 0xA0) = ([0], qprint_decoder_new, True)
   \<and> qprint_decode string_put [] qprint_decoder_new (qp_escaped 61) = ([], qprint_decoder_new, False)
   \<and> qprint_decode string_put [] qprint_decoder_new [61, CR, LF] = ([], qprint_decoder_new, False)"
  using qprint_decoder_pieces [of "0x20" string_put "[]" CR] qprint_decoder_pieces [of "0xA0" string_put "[]" CR]
    qprint_decoder_pieces [of 61 string_put "[]" CR] qprint_decoder_pieces [of LF string_put "[]" CR]
  by (simp add: string_put_def nibble_value_def)

end
