(* ===== verification/Mime_Header.thy ===== *)
theory Mime_Header
  imports Email_Headers Base64 Qprint
begin

text \<open>
  Encoding and decoding of the values of message headers: encoded words (RFC 2047), parameters
  (RFC 2231) and folding (\<^verbatim>\<open>email/encode_mimeheader.ipp\<close>, \<^verbatim>\<open>email/decode_mimeheader.ipp\<close>), over
  \<open>char\<close>. The conversions of Boost.Locale are the parameters \<open>from_utf\<close> and \<open>to_utf\<close> (which may
  throw: \<open>None\<close>), and \<open>utf_traits::trail_length\<close> is \<open>trail_length\<close>. The Spirit grammar of a single
  parameter is \<open>parse_param\<close>. What is written to the stream is returned as a list.
\<close>

section \<open>Encoding\<close>

datatype mime_error = Mime_Syntax | Mime_Conversion | Mime_Overrun

definition is_name :: "byte list \<Rightarrow> bool" where
  "is_name s \<longleftrightarrow> s \<noteq> [] \<and> list_all (\<lambda>ch. isalnum ch \<or> ch = 45) s"

definition is_ascii :: "byte list \<Rightarrow> bool" where
  "is_ascii s \<longleftrightarrow> list_all isprint s"

definition mime_max :: int where
  "mime_max = 78"

text \<open>
  \<open>plain_encode\<close>, from the position \<open>a\<close> on: the word before the first blank (\<open>a\<close> to \<open>b\<close>),
  the blanks (\<open>b\<close> to \<open>c\<close>) and the next word (up to \<open>d\<close>), whose length decides whether the line is
  folded in front of the blanks. The result has the text and the new \<open>cnt_\<close>.
\<close>

function plain_encode :: "int \<Rightarrow> byte list \<Rightarrow> byte list \<times> int" where
  "plain_encode cnt s =
     (let ab = takeWhile (\<lambda>ch. \<not> isspace ch) s; r1 = dropWhile (\<lambda>ch. \<not> isspace ch) s;
          bc = takeWhile isspace r1; r2 = dropWhile isspace r1;
          cd = takeWhile (\<lambda>ch. \<not> isspace ch) r2
      in if r1 = [] \<or> r2 = [] then (s, cnt + int (length s))
         else if cnt + int (length (ab @ bc @ cd)) < mime_max then
           let (out, cnt') = plain_encode (cnt + int (length (ab @ bc))) r2 in (ab @ bc @ out, cnt')
         else
           let (out, cnt') = plain_encode (cnt + int (length bc)) r2 in (ab @ [13, 10] @ bc @ out, cnt'))"
  by auto
termination
proof (relation "measure (length \<circ> snd)", goal_cases)
  case 1
  show ?case by simp
next
  case (2 cnt s ab r1 bc r2 cd)
  have "length r2 \<le> length (tl r1)" if "isspace (hd r1)" "r1 \<noteq> []" using that 2(4) by (cases r1) (simp_all add: length_dropWhile_le)
  moreover have "isspace (hd r1)" "r1 \<noteq> []" using 2(2,6) hd_dropWhile [of "\<lambda>ch. \<not> isspace ch" s] by auto
  moreover have "length r1 \<le> length s" using 2(2) by (simp add: length_dropWhile_le)
  ultimately have "length r2 < length s" by (cases r1) auto
  then show ?case by simp
next
  case (3 cnt s ab r1 bc r2 cd)
  have "length r2 \<le> length (tl r1)" if "isspace (hd r1)" "r1 \<noteq> []" using that 3(4) by (cases r1) (simp_all add: length_dropWhile_le)
  moreover have "isspace (hd r1)" "r1 \<noteq> []" using 3(2,6) hd_dropWhile [of "\<lambda>ch. \<not> isspace ch" s] by auto
  moreover have "length r1 \<le> length s" using 3(2) by (simp add: length_dropWhile_le)
  ultimately have "length r2 < length s" by (cases r1) auto
  then show ?case by simp
qed

declare plain_encode.simps [simp del]

text \<open>
  The loop that both encodings share: the text is cut behind the character that makes
  a piece longer than half a line. A sequence that is longer than the rest of the text moves
  the iterator beyond the end. The result is the pieces that were cut and the rest.
\<close>

function cut_pieces :: "(byte \<Rightarrow> int) \<Rightarrow> byte list \<Rightarrow> byte list \<Rightarrow> mime_error + byte list list \<times> byte list" where
  "cut_pieces trail_length a [] = Inr ([], a)"
| "cut_pieces trail_length a (c # r) =
     (let width = nat (trail_length c)
      in if length r < width then Inl Mime_Overrun
         else let a' = a @ c # take width r
              in if int (length a') > mime_max div 2
                 then map_sum id (\<lambda>(ps, rest). (a' # ps, rest)) (cut_pieces trail_length [] (drop width r))
                 else cut_pieces trail_length a' (drop width r))"
  by pat_completeness auto
termination by (relation "measure (\<lambda>(_, _, s). length s)") auto

definition base64_encode :: "(byte list \<Rightarrow> byte list \<Rightarrow> byte list) \<Rightarrow> byte list \<Rightarrow> byte list \<Rightarrow> byte list" where
  "base64_encode from_utf s charset =
     (let (str, e, ok) = encoder_write base64_std string_put [] (base64_encoder_new 0 nl_none (2 ^ 64 - 1)) (from_utf s charset)
      in fst (encoder_close base64_std string_put str e))"

definition encoded_word :: "(byte list \<Rightarrow> byte list \<Rightarrow> byte list) \<Rightarrow> byte list \<Rightarrow> byte list \<Rightarrow> byte list" where
  "encoded_word from_utf charset s = [61, 63] @ charset @ [63, 66, 63] @ base64_encode from_utf s charset @ [63, 61]"

definition rfc2047_encode ::
  "(byte \<Rightarrow> int) \<Rightarrow> (byte list \<Rightarrow> byte list \<Rightarrow> byte list) \<Rightarrow> byte list \<Rightarrow> byte list \<Rightarrow> mime_error + byte list" where
  "rfc2047_encode trail_length from_utf charset str =
     map_sum id (\<lambda>(ps, rest).
        concat (map (\<lambda>p. encoded_word from_utf charset p @ [13, 10, 9]) ps)
        @ (if rest \<noteq> [] then encoded_word from_utf charset rest else [])) (cut_pieces trail_length [] str)"

definition percent_char :: "byte \<Rightarrow> byte list" where
  "percent_char ch = (if isgraph ch then [ch] else [37, hex_upper (drop_bit 4 ch AND 0x0F), hex_upper (ch AND 0x0F)])"

definition percent_encode :: "(byte list \<Rightarrow> byte list \<Rightarrow> byte list) \<Rightarrow> byte list \<Rightarrow> byte list \<Rightarrow> byte list" where
  "percent_encode from_utf charset s = concat (map percent_char (from_utf s charset))"

fun rfc2231_pieces :: "(byte list \<Rightarrow> byte list \<Rightarrow> byte list) \<Rightarrow> byte list \<Rightarrow> byte list \<Rightarrow> nat \<Rightarrow> byte list list \<Rightarrow> byte list" where
  "rfc2231_pieces from_utf charset key idx [] = []"
| "rfc2231_pieces from_utf charset key idx (p # ps) =
     key @ [42] @ dec_text (Suc idx) @ [42, 61] @ (if idx = 0 then [39] @ charset @ [39, 39] else [])
     @ percent_encode from_utf charset p @ [13, 10, 9] @ rfc2231_pieces from_utf charset key (Suc idx) ps"

definition rfc2231_encode ::
  "(byte \<Rightarrow> int) \<Rightarrow> (byte list \<Rightarrow> byte list \<Rightarrow> byte list) \<Rightarrow> byte list \<Rightarrow> byte list \<Rightarrow> byte list \<Rightarrow> mime_error + byte list" where
  "rfc2231_encode trail_length from_utf charset key val =
     map_sum id (\<lambda>(ps, rest).
        rfc2231_pieces from_utf charset key 0 ps
        @ (if rest \<noteq> [] then key @ (if ps \<noteq> [] then [42] @ dec_text (length ps) else []) @ [42, 61] @ percent_encode from_utf charset rest
           else [])) (cut_pieces trail_length [] val)"

text \<open>
  The call operators: \<open>key: value\<close>, and the parameters. \<open>cnt_\<close> counts the characters of percent
  encodings, but not those of encoded words.
\<close>

definition percent_count :: "(byte list \<Rightarrow> byte list \<Rightarrow> byte list) \<Rightarrow> byte list \<Rightarrow> byte list \<Rightarrow> int" where
  "percent_count from_utf charset s = int (length (percent_encode from_utf charset s))"

definition encode_value ::
  "(byte \<Rightarrow> int) \<Rightarrow> (byte list \<Rightarrow> byte list \<Rightarrow> byte list) \<Rightarrow> byte list \<Rightarrow> byte list \<Rightarrow> byte list \<Rightarrow> mime_error + byte list \<times> int" where
  "encode_value trail_length from_utf charset key val =
     (if \<not> is_name key then Inl Mime_Syntax
      else let out = key @ [58, 32]; cnt = int (length key) + 2
           in if val = [] then Inr (out, cnt)
              else if is_ascii val \<and> \<not> isspace (hd val) \<and> \<not> isspace (last val)
              then let (txt, cnt') = plain_encode cnt val in Inr (out @ txt, cnt')
              else map_sum id (\<lambda>txt. (out @ txt, cnt)) (rfc2047_encode trail_length from_utf charset val))"

definition encode_param ::
  "(byte \<Rightarrow> int) \<Rightarrow> (byte list \<Rightarrow> byte list \<Rightarrow> byte list) \<Rightarrow> byte list \<Rightarrow> int \<Rightarrow> byte list \<times> byte list \<Rightarrow> mime_error + byte list \<times> int" where
  "encode_param trail_length from_utf charset cnt kv =
     (if \<not> is_name (fst kv) then Inl Mime_Syntax
      else let (sep, cnt1) = (if cnt - 2 < mime_max then ([59, 32], cnt + 2) else ([59, 13, 10, 9], 1))
           in if snd kv = [] then Inr (sep @ fst kv, cnt1 + int (length (fst kv)))
              else if is_ascii (snd kv)
              then let (txt, cnt2) = plain_encode cnt1 (snd kv)
                   in Inr (sep @ fst kv @ [61, 34] @ txt @ [34], cnt2 + int (length (fst kv)) + 3)
              else case cut_pieces trail_length [] (snd kv) of
                Inl e \<Rightarrow> Inl e
              | Inr (ps, rest) \<Rightarrow>
                  map_sum id (\<lambda>txt. (sep @ txt, cnt1 + sum_list (map (percent_count from_utf charset) (ps @ (if rest \<noteq> [] then [rest] else [])))))
                    (rfc2231_encode trail_length from_utf charset (fst kv) (snd kv)))"

fun encode_params ::
  "(byte \<Rightarrow> int) \<Rightarrow> (byte list \<Rightarrow> byte list \<Rightarrow> byte list) \<Rightarrow> byte list \<Rightarrow> int \<Rightarrow> (byte list \<times> byte list) list \<Rightarrow> mime_error + byte list \<times> int" where
  "encode_params trail_length from_utf charset cnt [] = Inr ([], cnt)"
| "encode_params trail_length from_utf charset cnt (kv # kvs) =
     (case encode_param trail_length from_utf charset cnt kv of
        Inl e \<Rightarrow> Inl e
      | Inr (out, cnt') \<Rightarrow> map_sum id (\<lambda>(out', c). (out @ out', c)) (encode_params trail_length from_utf charset cnt' kvs))"

definition encode_mimeheader ::
  "(byte \<Rightarrow> int) \<Rightarrow> (byte list \<Rightarrow> byte list \<Rightarrow> byte list) \<Rightarrow> byte list \<Rightarrow> byte list \<Rightarrow> byte list \<Rightarrow> (byte list \<times> byte list) list \<Rightarrow> mime_error + byte list" where
  "encode_mimeheader trail_length from_utf charset key val params =
     (case encode_value trail_length from_utf charset key val of
        Inl e \<Rightarrow> Inl e
      | Inr (out, cnt) \<Rightarrow> map_sum id (\<lambda>(out', c). out @ out') (encode_params trail_length from_utf charset cnt params))"

section \<open>Decoding\<close>

text \<open>
  The regular expression of an encoded word. The classes exclude the question mark, so that a match
  is determined by its start; the lazy repetition of \<open>=\<close> ends at the closing \<open>?=\<close>.
\<close>

record encoded_match =
  em_charset :: "byte list"
  em_encoding :: byte
  em_text :: "byte list"
  em_length :: nat

definition charset_char :: "byte \<Rightarrow> bool" where
  "charset_char ch \<longleftrightarrow> isalnum ch \<or> ch = 95 \<or> ch = 61 \<or> ch = 45"

definition payload_char :: "byte \<Rightarrow> bool" where
  "payload_char ch \<longleftrightarrow> isalnum ch \<or> ch = 43 \<or> ch = 95 \<or> ch = 47 \<or> ch = 45"

definition match_tail :: "byte list \<Rightarrow> byte \<Rightarrow> byte list \<Rightarrow> encoded_match option" where
  "match_tail cs e r =
     (let p = takeWhile payload_char r; r1 = dropWhile payload_char r;
          q = takeWhile (\<lambda>c. c = 61) r1; r2 = dropWhile (\<lambda>c. c = 61) r1
      in if take 2 r2 = [63, 61]
         then Some \<lparr>em_charset = cs, em_encoding = e, em_text = p @ q, em_length = length cs + length p + length q + 7\<rparr>
         else None)"

definition match_at :: "byte list \<Rightarrow> encoded_match option" where
  "match_at s =
     (case s of
        c1 # c2 # r \<Rightarrow>
          if c1 = 61 \<and> c2 = 63 \<and> takeWhile charset_char r \<noteq> [] then
            (case dropWhile charset_char r of
               q1 # e # q2 # r' \<Rightarrow>
                 if q1 = 63 \<and> e \<in> {66, 98, 81, 113} \<and> q2 = 63 then match_tail (takeWhile charset_char r) e r' else None
             | _ \<Rightarrow> None)
          else None
      | _ \<Rightarrow> None)"

text \<open>
  \<open>regex_iterator\<close>: every match with the text between it and the previous one, and the text
  behind the last match.
\<close>

function matches :: "byte list \<Rightarrow> byte list \<Rightarrow> (byte list \<times> encoded_match) list \<times> byte list" where
  "matches gap [] = ([], gap)"
| "matches gap (c # r) =
     (case match_at (c # r) of
        None \<Rightarrow> matches (gap @ [c]) r
      | Some m \<Rightarrow> let (ms, tl') = matches [] (drop (em_length m - 1) r) in ((gap, m) # ms, tl'))"
  by pat_completeness auto
termination by (relation "measure (length \<circ> snd)") auto

definition decode_word :: "encoded_match \<Rightarrow> byte list" where
  "decode_word m =
     (if em_encoding m = 66 \<or> em_encoding m = 98
      then fst (decoder_write base64_std string_put [] base64_decoder_new (em_text m))
      else fst (qprint_decode string_put [] qprint_decoder_new (em_text m)))"

text \<open>\<open>rfc2047_decode\<close>: the bytes of adjacent words are converted together.\<close>

fun rfc2047_loop ::
  "(byte list \<Rightarrow> byte list \<Rightarrow> byte list option) \<Rightarrow> byte list \<Rightarrow> byte list \<Rightarrow> (byte list \<times> encoded_match) list \<Rightarrow> byte list \<Rightarrow> byte list option" where
  "rfc2047_loop to_utf encoded charset [] tl' = map_option (\<lambda>u. u @ tl') (to_utf encoded charset)"
| "rfc2047_loop to_utf encoded charset ((gap, m) # ms) tl' =
     (if list_all isspace gap then rfc2047_loop to_utf (encoded @ decode_word m) (em_charset m) ms tl'
      else case to_utf encoded charset of
        None \<Rightarrow> None
      | Some u \<Rightarrow> map_option (\<lambda>r. u @ gap @ r) (rfc2047_loop to_utf (decode_word m) (em_charset m) ms tl'))"

definition rfc2047_decode :: "(byte list \<Rightarrow> byte list \<Rightarrow> byte list option) \<Rightarrow> byte list \<Rightarrow> byte list option" where
  "rfc2047_decode to_utf s = (let (ms, tl') = matches [] s in rfc2047_loop to_utf [] [] ms tl')"

text \<open>
  \<open>strtol(hex, nullptr, 16)\<close>: blanks, a sign, and the longest prefix of hexadecimal digits. A
  prefix \<open>0x\<close> needs a third character and cannot occur.
\<close>

definition strtol_hex :: "byte list \<Rightarrow> int" where
  "strtol_hex s =
     (let r = dropWhile isspace s;
          (sgn, ds) = (case r of c # cs \<Rightarrow> if c = 45 then (- 1, cs) else if c = 43 then (1, cs) else (1, r) | [] \<Rightarrow> (1, []))
      in sgn * foldl (\<lambda>n c. 16 * n + int (xdigit_value c)) 0 (takeWhile isxdigit ds))"

text \<open>
  \<open>percent_decode\<close>: the guards ask for the end \<open>and\<close> a digit behind it, so they never throw; a percent
  sign among the last two characters moves the iterator beyond the end.
\<close>

fun percent_decode :: "byte list \<Rightarrow> mime_error + byte list" where
  "percent_decode [] = Inr []"
| "percent_decode (c # s) =
     (if c = 37 then
        (case s of
           h1 # h2 # r \<Rightarrow> map_sum id (\<lambda>out. word_of_int (strtol_hex [h1, h2]) # out) (percent_decode r)
         | _ \<Rightarrow> Inl Mime_Overrun)
      else map_sum id (\<lambda>out. c # out) (percent_decode s))"

definition rfc2231_parse_charset :: "byte list \<Rightarrow> byte list \<times> byte list" where
  "rfc2231_parse_charset val =
     (let q = (\<lambda>c. c \<noteq> 39); a = dropWhile q val; b = dropWhile q (drop 1 a); c = dropWhile q (drop 1 b)
      in if a \<noteq> [] \<and> b \<noteq> [] \<and> c \<noteq> [] then (drop 1 c, takeWhile q (drop 1 a)) else (val, bytes_of ''US-ASCII''))"

text \<open>
  The grammar of a parameter. \<open>int_\<close>: an optional sign and digits, a value in the range of \<open>int\<close>; the
  result is what follows.
\<close>

definition skip_int :: "byte list \<Rightarrow> byte list option" where
  "skip_int s =
     (let neg = (take 1 s = [45]); r = (if neg \<or> take 1 s = [43] then drop 1 s else s);
          ds = takeWhile isdigit r; n = foldl (\<lambda>n d. 10 * n + (unat d - 48)) 0 ds
      in if ds = [] \<or> (if neg then 2 ^ 31 else 2 ^ 31 - 1) < n then None else Some (dropWhile isdigit r))"

text \<open>
  \<open>'"' >> *(char_ - '"') >> '"' | +(char_ - space)\<close>. Spirit does not roll the attribute back when
  the first alternative fails: without a closing quotation mark the value has what follows the opening
  one, and then the word of the second alternative.
\<close>

definition parse_value :: "byte list \<Rightarrow> (byte list \<times> byte list) option" where
  "parse_value s =
     (let quoted = (take 1 s = [34]);
          q = takeWhile (\<lambda>c. c \<noteq> 34) (drop 1 s); r = dropWhile (\<lambda>c. c \<noteq> 34) (drop 1 s);
          w = takeWhile (\<lambda>c. \<not> isspace c) s
      in if quoted \<and> r \<noteq> [] then Some (q, drop 1 r)
         else if w = [] then None
         else Some ((if quoted then q else []) @ w, dropWhile (\<lambda>c. \<not> isspace c) s))"

text \<open>
  \<open>+(char_ - '*' - '=') >> -('*' >> -(int_ >> '*')) >> '=' >> value\<close>: the key, whether there is a
  section, the value and the rest of the text. A failed sequence leaves the iterator where it was.
\<close>

definition parse_param :: "byte list \<Rightarrow> (byte list \<times> bool \<times> byte list \<times> byte list) option" where
  "parse_param s =
     (let key_char = (\<lambda>c. c \<noteq> 42 \<and> c \<noteq> 61); key = takeWhile key_char s; r = dropWhile key_char s;
          idx = (take 1 r = [42]);
          r1 = (if idx
                then case skip_int (drop 1 r) of
                       None \<Rightarrow> drop 1 r
                     | Some r2 \<Rightarrow> if take 1 r2 = [42] then drop 1 r2 else drop 1 r
                else r)
      in if key = [] \<or> take 1 r1 \<noteq> [61] then None
         else map_option (\<lambda>(val, rest). (key, idx, val, rest)) (parse_value (drop 1 r1)))"

text \<open>
  The state of \<open>rfc2231_decode\<close>, and \<open>write_utf\<close> to the parameter of the last key. A parameter that
  the grammar does not match leaves the iterator where it is: the loop goes on for ever, which
  is the result \<open>None\<close> for every amount of fuel.
\<close>

record rfc2231_state =
  rs_oldkey :: "byte list"
  rs_encoded :: "byte list"
  rs_charset :: "byte list"
  rs_params :: disposition

definition write_param :: "name_eq \<Rightarrow> (byte list \<Rightarrow> byte list \<Rightarrow> byte list option) \<Rightarrow> rfc2231_state \<Rightarrow> mime_error + rfc2231_state" where
  "write_param eq to_utf st =
     (if rs_oldkey st \<noteq> [] then
        (case to_utf (rs_encoded st) (rs_charset st) of
           None \<Rightarrow> Inl Mime_Conversion
         | Some u \<Rightarrow> Inr (st\<lparr>rs_params := disp_update eq (\<lambda>_. u) (rs_params st) (rs_oldkey st), rs_encoded := [], rs_charset := []\<rparr>))
      else Inr st)"

definition decode_param ::
  "name_eq \<Rightarrow> (byte list \<Rightarrow> byte list \<Rightarrow> byte list option) \<Rightarrow> byte list \<Rightarrow> bool \<Rightarrow> byte list \<Rightarrow> rfc2231_state \<Rightarrow> mime_error + rfc2231_state" where
  "decode_param eq to_utf newkey idx val st =
     (if \<not> idx then
        (case write_param eq to_utf st of
           Inl e \<Rightarrow> Inl e
         | Inr st' \<Rightarrow>
             (case rfc2047_decode to_utf val of
                None \<Rightarrow> Inl Mime_Conversion
              | Some u \<Rightarrow> Inr (st'\<lparr>rs_params := disp_update eq (\<lambda>old. old @ u) (rs_params st') newkey\<rparr>)))
      else
        (case (if rs_oldkey st \<noteq> newkey
               then (case write_param eq to_utf st of
                       Inl e \<Rightarrow> Inl e
                     | Inr st' \<Rightarrow>
                         let st'' = st'\<lparr>rs_oldkey := newkey\<rparr>
                         in if rs_charset st'' = [] then (let (val', cs) = rfc2231_parse_charset val in Inr (val', st''\<lparr>rs_charset := cs\<rparr>))
                            else Inr (val, st''))
               else Inr (val, st)) of
           Inl e \<Rightarrow> Inl e
         | Inr (val', st') \<Rightarrow> map_sum id (\<lambda>bs. st'\<lparr>rs_encoded := rs_encoded st' @ bs\<rparr>) (percent_decode val')))"

fun rfc2231_loop ::
  "nat \<Rightarrow> name_eq \<Rightarrow> (byte list \<Rightarrow> byte list \<Rightarrow> byte list option)
   \<Rightarrow> byte list \<Rightarrow> rfc2231_state \<Rightarrow> (mime_error + rfc2231_state) option" where
  "rfc2231_loop fuel eq to_utf [] st = Some (write_param eq to_utf st)"
| "rfc2231_loop 0 eq to_utf (c # s) st = None"
| "rfc2231_loop (Suc fuel) eq to_utf (c # s) st =
     (if isspace c \<or> c = 59 then rfc2231_loop fuel eq to_utf s st
      else case parse_param (c # s) of
        None \<Rightarrow> rfc2231_loop fuel eq to_utf (c # s) st
      | Some (newkey, idx, val, rest) \<Rightarrow>
          (case decode_param eq to_utf newkey idx val st of
             Inl e \<Rightarrow> Some (Inl e)
           | Inr st' \<Rightarrow> rfc2231_loop fuel eq to_utf rest st'))"

definition rfc2231_decode ::
  "nat \<Rightarrow> name_eq \<Rightarrow> (byte list \<Rightarrow> byte list \<Rightarrow> byte list option)
   \<Rightarrow> byte list \<Rightarrow> disposition \<Rightarrow> (mime_error + disposition) option" where
  "rfc2231_decode fuel eq to_utf s d =
     map_option (map_sum id rs_params) (rfc2231_loop fuel eq to_utf s
        \<lparr>rs_oldkey = [], rs_encoded = [], rs_charset = [], rs_params = d\<rparr>)"

declare rfc2231_loop.simps(3) [simp del]

text \<open>
  The call operators: the decoded text is appended to the text of the disposition; with parameters
  the value ends at the first semicolon or blank.
\<close>

definition decode_mimeheader :: "(byte list \<Rightarrow> byte list \<Rightarrow> byte list option) \<Rightarrow> byte list \<Rightarrow> disposition \<Rightarrow> mime_error + disposition" where
  "decode_mimeheader to_utf s d =
     (case rfc2047_decode to_utf s of None \<Rightarrow> Inl Mime_Conversion | Some u \<Rightarrow> Inr (disp_append d u))"

definition decode_mimeheader_params ::
  "nat \<Rightarrow> name_eq \<Rightarrow> (byte list \<Rightarrow> byte list \<Rightarrow> byte list option)
   \<Rightarrow> byte list \<Rightarrow> disposition \<Rightarrow> (mime_error + disposition) option" where
  "decode_mimeheader_params fuel eq to_utf s d =
     (let sep = (\<lambda>ch. ch = 59 \<or> ch = 32 \<or> ch = 9); it = dropWhile (\<lambda>ch. \<not> sep ch) s
      in case decode_mimeheader to_utf (takeWhile (\<lambda>ch. \<not> sep ch) s) d of
           Inl e \<Rightarrow> Some (Inl e)
         | Inr d' \<Rightarrow> if it \<noteq> [] then rfc2231_decode fuel eq to_utf (tl it) d' else Some (Inr d'))"

section \<open>Folding\<close>

text \<open>Unfolding of RFC 5322: a line break in front of a blank is removed.\<close>

fun unfold :: "byte list \<Rightarrow> byte list" where
  "unfold [] = []"
| "unfold (c # r) =
     (if c = 13 then (case r of l # w # r' \<Rightarrow> if l = 10 \<and> isspace w then unfold (w # r') else c # unfold r | _ \<Rightarrow> c # unfold r)
      else c # unfold r)"

lemma unfold_append: "13 \<notin> set s \<Longrightarrow> unfold (s @ r) = s @ unfold r"
  by (induction s) auto

lemma unfold_break: "w \<noteq> [] \<Longrightarrow> list_all isspace w \<Longrightarrow> unfold ([13, 10] @ w @ r) = unfold (w @ r)"
  by (cases w) auto

lemma takeWhile_all: "list_all P (takeWhile P xs)"
  by (induction xs) auto

lemma isprint_no_cr: "list_all isprint s \<Longrightarrow> 13 \<notin> set s"
  by (auto simp: list_all_iff isprint_def)

lemma list_all_subset: "set xs \<subseteq> set ys \<Longrightarrow> list_all P ys \<Longrightarrow> list_all P xs"
  by (auto simp: list_all_iff)

lemma plain_encode_parts:
  "s = takeWhile (\<lambda>ch. \<not> isspace ch) s @ takeWhile isspace (dropWhile (\<lambda>ch. \<not> isspace ch) s) @ dropWhile isspace (dropWhile (\<lambda>ch. \<not> isspace ch) s)"
  by simp

lemma plain_encode_unfold: "list_all isprint s \<Longrightarrow> unfold (fst (plain_encode cnt s)) = s"
proof (induction cnt s rule: plain_encode.induct)
  case (1 cnt s)
  let ?ab = "takeWhile (\<lambda>ch. \<not> isspace ch) s" and ?r1 = "dropWhile (\<lambda>ch. \<not> isspace ch) s"
  let ?bc = "takeWhile isspace ?r1" and ?r2 = "dropWhile isspace ?r1"
  let ?cd = "takeWhile (\<lambda>ch. \<not> isspace ch) ?r2"
  note parts = plain_encode_parts [of s]
  have cr: "13 \<notin> set ?ab" "13 \<notin> set ?bc" "list_all isprint ?r2"
  proof -
    have sub: "set ?ab \<subseteq> set s" "set ?bc \<subseteq> set s" "set ?r2 \<subseteq> set s" by (blast dest: set_takeWhileD set_dropWhileD)+
    show "13 \<notin> set ?ab" "13 \<notin> set ?bc" using sub isprint_no_cr [OF 1(3)] by blast+
    show "list_all isprint ?r2" by (rule list_all_subset [OF sub(3) 1(3)])
  qed
  show ?case
  proof (cases "?r1 = [] \<or> ?r2 = []")
    case True
    then show ?thesis using isprint_no_cr [OF 1(3)] unfold_append [of s "[]"] by (auto simp: plain_encode.simps [of cnt s] Let_def)
  next
    case False
    have bc: "?bc \<noteq> []" using False hd_dropWhile [of "\<lambda>ch. \<not> isspace ch" s] by (cases ?r1) auto
    show ?thesis
    proof (cases "cnt + int (length (?ab @ ?bc @ ?cd)) < mime_max")
      case True
      have "fst (plain_encode cnt s) = ?ab @ ?bc @ fst (plain_encode (cnt + int (length (?ab @ ?bc))) ?r2)"
        unfolding plain_encode.simps [of cnt s] Let_def if_not_P [OF False] if_P [OF True] case_prod_beta fst_conv by (rule refl)
      then show ?thesis using 1(1) [OF refl refl refl refl refl False True cr(3)] parts by (simp only: unfold_append [OF cr(1)] unfold_append [OF cr(2)])
    next
      case no: False
      have "fst (plain_encode cnt s) = ?ab @ [13, 10] @ ?bc @ fst (plain_encode (cnt + int (length ?bc)) ?r2)"
        unfolding plain_encode.simps [of cnt s] Let_def if_not_P [OF False] if_not_P [OF no] case_prod_beta fst_conv by (rule refl)
      then have "unfold (fst (plain_encode cnt s)) = ?ab @ unfold ([13, 10] @ ?bc @ fst (plain_encode (cnt + int (length ?bc)) ?r2))"
        by (simp only: unfold_append [OF cr(1)])
      also have "\<dots> = ?ab @ ?bc @ unfold (fst (plain_encode (cnt + int (length ?bc)) ?r2))"
        by (simp only: unfold_append [OF cr(2)] unfold_break [OF bc takeWhile_all])
      finally show ?thesis using 1(2) [OF refl refl refl refl refl False no cr(3)] parts by metis
    qed
  qed
qed

section \<open>Percent encoding\<close>

lemma hex_upper_value:
  "list_all (\<lambda>n. isxdigit (hex_upper n) \<and> xdigit_value (hex_upper n) = unat n \<and> \<not> isspace (hex_upper n) \<and> hex_upper n \<noteq> 45 \<and> hex_upper n \<noteq> 43)
     (map word_of_nat [0..<16])"
  by code_simp

lemmas hex_upper_digit = hex_upper_value [unfolded list_all_iff, THEN bspec, OF nibble_in]

lemma strtol_hex_byte: "word_of_int (strtol_hex [hex_upper (drop_bit 4 c AND 0xF), hex_upper (c AND 0xF)]) = (c :: byte)"
proof -
  have "strtol_hex [hex_upper (drop_bit 4 c AND 0xF), hex_upper (c AND 0xF)] = 16 * uint (drop_bit 4 c AND 0xF) + uint (c AND 0xF)"
    using hex_upper_digit [of "drop_bit 4 c"] hex_upper_digit [of c] by (simp add: strtol_hex_def del: unsigned_and_eq)
  moreover have "word_of_int (16 * uint (drop_bit 4 c AND 0xF) + uint (c AND 0xF)) = 16 * (drop_bit 4 c AND 0xF) + (c AND 0xF)" by simp
  ultimately show ?thesis using nibbles_sum [of c] by metis
qed

lemma percent_roundtrip_aux: "37 \<notin> set bs \<Longrightarrow> percent_decode (concat (map percent_char bs)) = Inr bs"
proof (induction bs)
  case (Cons b bs)
  then show ?case using strtol_hex_byte [of b] by (auto simp: percent_char_def)
qed simp

section \<open>Encoded words\<close>

text \<open>The base64 text of bytes without line breaks: characters of the alphabet and the padding.\<close>

lemma std_alphabet_payload: "list_all payload_char (tbl base64_std)"
  by code_simp

lemma enc_payload: "unat v < 64 \<Longrightarrow> payload_char (enc base64_std v)"
  using std_alphabet.enc_in_tbl std_alphabet_payload by (simp add: list_all_iff)

lemma base64_text_payload:
  "mx \<noteq> 0 \<Longrightarrow> \<exists>p n. base64_text base64_std nl_none mx cnt bs = p @ replicate n 61 \<and> list_all payload_char p"
proof (induction bs arbitrary: cnt rule: three_induct)
  case (three a b c bs)
  obtain p n where "base64_text base64_std nl_none mx (if mx \<le> cnt then 4 else cnt + 4) bs = p @ replicate n 61" "list_all payload_char p"
    using three by blast
  then show ?case using sextet_less enc_payload
    by (intro exI [of _ "map (enc base64_std) [sextet0 a, sextet1 a b, sextet2 b c, sextet3 c] @ p"] exI [of _ n]) (simp add: newline_bytes_def)
next
  case (two a b)
  show ?case using sextet_less enc_payload
    by (intro exI [of _ "map (enc base64_std) [sextet0 a, sextet1 a b, sextet2 b 0]"] exI [of _ 1])
      (simp add: newline_bytes_def EQUALS_def base64_std_def)
next
  case (one a)
  show ?case using sextet_less enc_payload
    by (intro exI [of _ "map (enc base64_std) [sextet0 a, sextet1 a 0]"] exI [of _ 2])
      (simp add: newline_bytes_def EQUALS_def base64_std_def eval_nat_numeral)
next
  case nil
  show ?case by (intro exI [of _ "[]"] exI [of _ 0]) (simp add: newline_bytes_def)
qed

lemma base64_encode_text:
  obtains mx where "mx \<noteq> 0" "base64_encode from_utf s charset = base64_text base64_std nl_none mx 0 (from_utf s charset)"
proof -
  let ?e = "base64_encoder_new 0 nl_none (2 ^ 64 - 1)"
  have e: "be_cnt ?e = 0" "be_nl ?e = nl_none" "be_max ?e \<noteq> 0" by (simp_all add: base64_encoder_new_def)
  obtain s' e' where "encoder_write base64_std string_put [] ?e (from_utf s charset) = (s', e', True)"
      "fst (encoder_close base64_std string_put s' e') = base64_text base64_std nl_none (be_max ?e) 0 (from_utf s charset)"
    using string_sink.encoder_run_out [of ?e base64_std "[]" "from_utf s charset"] e by auto
  then show ?thesis using that [OF e(3)] by (simp add: base64_encode_def)
qed

lemma takeWhile_until: "list_all P p \<Longrightarrow> \<not> P c \<Longrightarrow> takeWhile P (p @ c # r) = p" "list_all P p \<Longrightarrow> \<not> P c \<Longrightarrow> dropWhile P (p @ c # r) = c # r"
  by (induction p) auto

lemma class_exclusions: "\<not> payload_char 63" "\<not> payload_char 61" "\<not> charset_char 63"
  by (simp_all add: payload_char_def charset_char_def ctype_defs)

lemma match_tail_base64:
  assumes "list_all payload_char p"
  shows "match_tail cs e (p @ replicate n 61 @ [63, 61] @ r)
    = Some \<lparr>em_charset = cs, em_encoding = e, em_text = p @ replicate n 61, em_length = length cs + length p + n + 7\<rparr>"
proof -
  have q: "takeWhile (\<lambda>c. c = 61) (replicate n 61 @ 63 # 61 # r) = replicate n (61 :: byte)"
    "dropWhile (\<lambda>c. c = 61) (replicate n 61 @ 63 # 61 # r) = 63 # (61 :: byte) # r"
    using takeWhile_until [of "\<lambda>c. c = 61" "replicate n 61" 63 "61 # r"] by (simp_all add: list_all_iff)
  have "takeWhile payload_char (p @ replicate n 61 @ 63 # 61 # r) = p"
    "dropWhile payload_char (p @ replicate n 61 @ 63 # 61 # r) = replicate n 61 @ 63 # 61 # r"
    using takeWhile_until [OF assms class_exclusions(1)] takeWhile_until [OF assms class_exclusions(2)] by (cases n; simp)+
  then show ?thesis using q by (simp add: match_tail_def Let_def)
qed

definition word_match :: "(byte list \<Rightarrow> byte list \<Rightarrow> byte list) \<Rightarrow> byte list \<Rightarrow> byte list \<Rightarrow> encoded_match" where
  "word_match from_utf charset s =
     \<lparr>em_charset = charset, em_encoding = 66, em_text = base64_encode from_utf s charset,
      em_length = length (encoded_word from_utf charset s)\<rparr>"

definition charset_ok :: "byte list \<Rightarrow> bool" where
  "charset_ok charset \<longleftrightarrow> charset \<noteq> [] \<and> list_all charset_char charset"

lemma match_word:
  assumes "charset_ok charset"
  shows "match_at (encoded_word from_utf charset s @ r) = Some (word_match from_utf charset s)"
proof -
  obtain mx where mx: "mx \<noteq> 0" "base64_encode from_utf s charset = base64_text base64_std nl_none mx 0 (from_utf s charset)"
    by (rule base64_encode_text)
  obtain p n where p: "base64_encode from_utf s charset = p @ replicate n 61" "list_all payload_char p"
    using base64_text_payload [OF mx(1)] mx(2) by metis
  have cs: "takeWhile charset_char (charset @ 63 # x) = charset" "dropWhile charset_char (charset @ 63 # x) = 63 # x" for x
    using takeWhile_until [of charset_char charset 63 x] class_exclusions(3) assms by (auto simp: charset_ok_def)
  show ?thesis
    using match_tail_base64 [OF p(2), of charset 66 n r] assms
    by (simp add: match_at_def encoded_word_def word_match_def cs p(1) charset_ok_def)
qed

lemma matches_word:
  assumes "charset_ok charset"
  shows "matches gap (encoded_word from_utf charset s @ r) = (let (ms, tl') = matches [] r in ((gap, word_match from_utf charset s) # ms, tl'))"
proof -
  obtain c w where w: "encoded_word from_utf charset s = c # w" by (simp add: encoded_word_def)
  have "drop (em_length (word_match from_utf charset s) - 1) (w @ r) = r" using w by (simp add: word_match_def)
  then show ?thesis using match_word [OF assms, of from_utf s r] w by (simp add: Let_def)
qed

lemma matches_blank: "matches gap (32 # r) = matches (gap @ [32]) r"
  by (simp add: match_at_def split: list.splits)

text \<open>A text without \<open>=?\<close> has no encoded word.\<close>

definition unencoded :: "byte list \<Rightarrow> bool" where
  "unencoded s \<longleftrightarrow> successively (\<lambda>a b. \<not> (a = 61 \<and> b = 63)) s"

lemma matches_none: "unencoded s \<Longrightarrow> matches gap s = ([], gap @ s)"
proof (induction s arbitrary: gap)
  case (Cons c s)
  have "match_at (c # s) = None" using Cons.prems by (cases s) (auto simp: match_at_def unencoded_def)
  moreover have "unencoded s" using Cons.prems by (cases s) (simp_all add: unencoded_def)
  ultimately show ?case using Cons by simp
qed simp

lemma decode_word_match: "decode_word (word_match from_utf charset s) = from_utf s charset"
proof -
  obtain mx where mx: "base64_encode from_utf s charset = base64_text base64_std nl_none mx 0 (from_utf s charset)"
    using base64_encode_text by metis
  obtain t' d' where "decoder_write base64_std string_put [] base64_decoder_new (base64_encode from_utf s charset) = (t', d', True)" "t' = from_utf s charset"
    using std_decoding.decodes_text [of base64_decoder_new "[]" nl_none mx 0 "from_utf s charset"] mx
    by (auto simp: std_decoding.decodes_def base64_decoder_new_def)
  then show ?thesis by (simp add: decode_word_def word_match_def)
qed

lemma word_match_charset: "em_charset (word_match from_utf charset s) = charset"
  by (simp add: word_match_def)

text \<open>The output of \<open>rfc2047_encode\<close> with its lines joined by blanks, and what the decoder collects from it.\<close>

definition words :: "(byte list \<Rightarrow> byte list \<Rightarrow> byte list) \<Rightarrow> byte list \<Rightarrow> byte list list \<Rightarrow> byte list \<Rightarrow> byte list" where
  "words from_utf charset ps rest = concat (map (\<lambda>p. encoded_word from_utf charset p @ [32]) ps)
     @ (if rest \<noteq> [] then encoded_word from_utf charset rest else [])"

lemma words_decode:
  assumes "charset_ok charset" "list_all isspace gap" "matches gap (words from_utf charset ps rest) = (ms, tl')" "ps \<noteq> [] \<or> rest \<noteq> []"
  shows "rfc2047_loop to_utf encoded cs ms tl'
    = map_option (\<lambda>u. u @ (if rest = [] then [32] else [])) (to_utf (encoded @ concat (map (\<lambda>p. from_utf p charset) (ps @ (if rest \<noteq> [] then [rest] else [])))) charset)"
  using assms(2-)
proof (induction ps arbitrary: gap encoded cs ms)
  case Nil
  then have r: "rest \<noteq> []" "matches gap (encoded_word from_utf charset rest @ []) = (ms, tl')" by (simp_all add: words_def)
  from r(2) show ?case unfolding matches_word [OF assms(1)] using Nil(1) r(1) by (auto simp: decode_word_match word_match_charset)
next
  case (Cons p ps)
  obtain ms' where m: "matches [] (32 # words from_utf charset ps rest) = (ms', tl')" "ms = (gap, word_match from_utf charset p) # ms'"
    using Cons.prems(2) matches_word [OF assms(1), of gap from_utf p "32 # words from_utf charset ps rest"]
    by (auto simp: words_def split: prod.splits)
  show ?case
  proof (cases "ps = [] \<and> rest = []")
    case True
    then have "ms' = []" "tl' = [32]" using m(1) matches_blank [of "[]" "[]"] by (simp_all add: words_def)
    then show ?thesis using m(2) Cons.prems(1) True by (simp add: decode_word_match word_match_charset)
  next
    case False
    have "matches [32] (words from_utf charset ps rest) = (ms', tl')" using m(1) matches_blank [of "[]"] by simp
    then have "rfc2047_loop to_utf (encoded @ from_utf p charset) charset ms' tl'
        = map_option (\<lambda>u. u @ (if rest = [] then [32] else []))
            (to_utf ((encoded @ from_utf p charset) @ concat (map (\<lambda>p. from_utf p charset) (ps @ (if rest \<noteq> [] then [rest] else [])))) charset)"
      using False by (intro Cons.IH) (auto simp: isspace_def)
    then show ?thesis using m(2) Cons.prems(1) by (simp add: decode_word_match word_match_charset)
  qed
qed

text \<open>
  The conversion between UTF-8 and a charset, as the documentation of Boost.Locale describes it.
  \<open>is_char\<close> are the UTF-8 sequences of the characters that the charset has: the length of a sequence
  follows from its first byte, and converting back gives the text, also for a text whose parts were
  converted one by one, when every part consists of whole characters. Nothing is said of parts that
  end inside a character.
\<close>

locale utf_conversion =
  fixes from_utf :: "byte list \<Rightarrow> byte list \<Rightarrow> byte list" and to_utf :: "byte list \<Rightarrow> byte list \<Rightarrow> byte list option"
    and trail_length :: "byte \<Rightarrow> int" and charset :: "byte list" and is_char :: "byte list \<Rightarrow> bool"
  assumes char_length: "is_char s \<Longrightarrow> s \<noteq> [] \<and> trail_length (hd s) = int (length s) - 1"
    and conversion: "list_all (list_all is_char) sss \<Longrightarrow>
      to_utf (concat (map (\<lambda>ss. from_utf (concat ss) charset) sss)) charset = Some (concat (map concat sss))"
begin

text \<open>The pieces joined are the text, and every piece consists of whole characters.\<close>

lemma cut_chars:
  "list_all is_char as \<Longrightarrow> list_all is_char cs \<Longrightarrow>
   \<exists>sss rs. cut_pieces trail_length (concat as) (concat cs) = Inr (map concat sss, concat rs)
     \<and> list_all (list_all is_char) sss \<and> list_all is_char rs \<and> concat sss @ rs = as @ cs"
proof (induction cs arbitrary: as)
  case Nil
  then show ?case by (intro exI [of _ "[]"] exI [of _ as]) simp
next
  case (Cons ch cs)
  have "is_char ch" using Cons.prems by simp
  then obtain c r where ch: "ch = c # r" "nat (trail_length c) = length r" using char_length [of ch] by (cases ch) auto
  let ?as = "as @ [ch]"
  have as: "list_all is_char ?as" "concat ?as = concat as @ c # take (length r) (r @ concat cs)" using Cons.prems ch(1) by simp_all
  have step: "cut_pieces trail_length (concat as) (concat (ch # cs)) =
      (if int (length (concat ?as)) > mime_max div 2
       then map_sum id (\<lambda>(ps, rest). (concat ?as # ps, rest)) (cut_pieces trail_length [] (concat cs))
       else cut_pieces trail_length (concat ?as) (concat cs))"
    using ch as(2) by simp
  show ?case
  proof (cases "int (length (concat ?as)) > mime_max div 2")
    case True
    obtain sss rs where "cut_pieces trail_length [] (concat cs) = Inr (map concat sss, concat rs)"
        "list_all (list_all is_char) sss" "list_all is_char rs" "concat sss @ rs = cs"
      using Cons.IH [of "[]"] Cons.prems by auto
    then show ?thesis unfolding step if_P [OF True] using as(1) by (intro exI [of _ "?as # sss"] exI [of _ rs]) simp
  next
    case False
    obtain sss rs where "cut_pieces trail_length (concat ?as) (concat cs) = Inr (map concat sss, concat rs)"
        "list_all (list_all is_char) sss" "list_all is_char rs" "concat sss @ rs = ?as @ cs"
      using Cons.IH [OF as(1)] Cons.prems by auto
    then show ?thesis unfolding step if_not_P [OF False] by (intro exI [of _ sss] exI [of _ rs]) simp
  qed
qed

lemma encode_decode:
  assumes "charset_ok charset" "list_all (list_all is_char) sss" "list_all is_char rs" "concat (concat sss @ rs) \<noteq> []"
  shows "rfc2047_decode to_utf (words from_utf charset (map concat sss) (concat rs))
    = Some (concat (concat sss @ rs) @ (if concat rs = [] then [32] else []))"
proof -
  let ?ps = "map concat sss" and ?r = "concat rs"
  have "?ps \<noteq> [] \<or> ?r \<noteq> []" using assms(4) by auto
  moreover obtain ms tl' where m: "matches [] (words from_utf charset ?ps ?r) = (ms, tl')" by (cases "matches [] (words from_utf charset ?ps ?r)")
  ultimately have "rfc2047_loop to_utf [] [] ms tl' = map_option (\<lambda>u. u @ (if ?r = [] then [32] else []))
      (to_utf ([] @ concat (map (\<lambda>p. from_utf p charset) (?ps @ (if ?r \<noteq> [] then [?r] else [])))) charset)"
    using words_decode [OF assms(1) _ m] by simp
  also have "to_utf ([] @ concat (map (\<lambda>p. from_utf p charset) (?ps @ (if ?r \<noteq> [] then [?r] else [])))) charset = Some (concat (concat sss @ rs))"
  proof -
    have c: "concat (map concat sss) = concat (concat sss)" by (induction sss) simp_all
    show ?thesis using conversion [of "sss @ (if ?r \<noteq> [] then [rs] else [])"] assms(2,3) c
      by (auto simp: comp_def simp del: concat_eq_Nil_conv)
  qed
  finally show ?thesis by (simp add: rfc2047_decode_def m)
qed

end

definition utf8_name :: "byte list" where
  "utf8_name = bytes_of ''UTF-8''"

text \<open>For UTF-8 itself both conversions are the identity; \<open>utf8_trail_length\<close> is that of well-formed first bytes.\<close>

definition utf8_trail_length :: "byte \<Rightarrow> int" where
  "utf8_trail_length c = (if c < 128 then 0 else if c < 194 then - 1 else if c < 224 then 1 else if c < 240 then 2 else if c \<le> 244 then 3 else - 1)"

definition utf8_char :: "byte list \<Rightarrow> bool" where
  "utf8_char s \<longleftrightarrow> s \<noteq> [] \<and> utf8_trail_length (hd s) = int (length s) - 1 \<and> list_all (\<lambda>c. 128 \<le> c \<and> c < 192) (tl s)"

interpretation utf8: utf_conversion "\<lambda>s cs. s" "\<lambda>s cs. Some s" utf8_trail_length utf8_name utf8_char
  by unfold_locales (simp_all add: utf8_char_def comp_def)

section \<open>Properties\<close>

text \<open>
  A header value of printable characters without blanks at its ends is written
  behind \<open>name: \<close> as it is, folded in front of blanks only: unfolding gives the value back. A name
  with other characters than letters, digits and hyphens is refused.
\<close>

theorem mime_fold_unfold:
  assumes "is_name key" "is_ascii val" "val \<noteq> []" "\<not> isspace (hd val)" "\<not> isspace (last val)"
  shows "(\<exists>txt cnt. encode_value trail_length from_utf charset key val = Inr (key @ [58, 32] @ txt, cnt) \<and> unfold txt = val)
    \<and> (\<not> is_name bad \<longrightarrow> encode_value trail_length from_utf charset bad val = Inl Mime_Syntax)"
proof -
  obtain out cnt where p: "plain_encode (int (length key) + 2) val = (out, cnt)" by (cases "plain_encode (int (length key) + 2) val")
  then have "unfold out = val" using plain_encode_unfold [of val "int (length key) + 2"] assms(2) by (simp add: is_ascii_def)
  then show ?thesis using assms p by (simp add: encode_value_def Let_def)
qed

theorem mime_fold_unfold_witness:
  "\<exists>txt cnt. encode_value (\<lambda>c. 0) (\<lambda>s cs. s) utf8_name (bytes_of ''Subject'') (bytes_of ''a b'') = Inr (bytes_of ''Subject'' @ [58, 32] @ txt, cnt)
     \<and> unfold txt = bytes_of ''a b''"
proof -
  have "is_name (bytes_of ''Subject'')" "is_ascii (bytes_of ''a b'')" "bytes_of ''a b'' \<noteq> []" "\<not> isspace (hd (bytes_of ''a b''))" "\<not> isspace (last (bytes_of ''a b''))"
    by code_simp+
  then show ?thesis using mime_fold_unfold by blast
qed

text \<open>
  Percent decoding inverts percent encoding for converted texts without a percent sign,
  which is not escaped; a percent sign with fewer than two characters behind it runs beyond the
  end of the text.
\<close>

theorem percent_roundtrip:
  "(37 \<notin> set (from_utf s charset) \<longrightarrow> percent_decode (percent_encode from_utf charset s) = Inr (from_utf s charset))
   \<and> (length r < 2 \<longrightarrow> 37 \<notin> set l \<longrightarrow> percent_decode (l @ 37 # r) = Inl Mime_Overrun)
   \<and> percent_encode (\<lambda>s cs. s) charset [37, 52, 49] = [37, 52, 49] \<and> percent_decode [37, 52, 49] = Inr [65]"
proof (intro conjI impI)
  assume "length r < 2" "37 \<notin> set l"
  then show "percent_decode (l @ 37 # r) = Inl Mime_Overrun" by (induction l) (auto split: list.splits)
next
  show "percent_encode (\<lambda>s cs. s) charset [37, 52, 49] = [37, 52, 49]" by code_simp
  show "percent_decode [37, 52, 49] = Inr [65]" by code_simp
qed (simp add: percent_encode_def percent_roundtrip_aux)

theorem percent_roundtrip_witness:
  "percent_decode (percent_encode (\<lambda>s cs. s) utf8_name [0xE3, 0x81, 0x82]) = Inr [0xE3, 0x81, 0x82] \<and> percent_decode [97, 37, 52] = Inl Mime_Overrun"
  using percent_roundtrip [of "\<lambda>s cs. s" "[0xE3, 0x81, 0x82]" utf8_name "[52]" "[97]"] by simp


section \<open>Parameters\<close>

text \<open>
  The parameters as the encoder writes them: separators, the key and the value between quotation marks.
\<close>

definition separator :: "byte \<Rightarrow> bool" where
  "separator c \<longleftrightarrow> isspace c \<or> c = 59"

fun param_text :: "(byte list \<times> byte list \<times> byte list) list \<Rightarrow> byte list" where
  "param_text [] = []"
| "param_text ((sep, k, v) # items) = sep @ k @ [61, 34] @ v @ 34 # param_text items"

definition param_item :: "byte list \<times> byte list \<times> byte list \<Rightarrow> bool" where
  "param_item i \<longleftrightarrow> (case i of (sep, k, v) \<Rightarrow> list_all separator sep \<and> is_name k \<and> 34 \<notin> set v \<and> unencoded v)"

lemma name_char: "isalnum c \<or> c = 45 \<Longrightarrow> c \<noteq> 42 \<and> c \<noteq> 61 \<and> \<not> separator c"
  by (auto simp: separator_def ctype_defs word_le_nat_alt)

lemma is_name_chars: "is_name k \<Longrightarrow> k \<noteq> [] \<and> list_all (\<lambda>c. c \<noteq> 42 \<and> c \<noteq> 61) k \<and> \<not> separator (hd k)"
  using name_char by (cases k) (auto simp: is_name_def list_all_iff)

lemma key_prefix:
  assumes "is_name k" "c = 42 \<or> c = 61"
  shows "takeWhile (\<lambda>c. c \<noteq> 42 \<and> c \<noteq> 61) (k @ c # r) = k" "dropWhile (\<lambda>c. c \<noteq> 42 \<and> c \<noteq> 61) (k @ c # r) = c # r"
  using takeWhile_until [of "\<lambda>c. c \<noteq> 42 \<and> c \<noteq> 61" k c r] is_name_chars [OF assms(1)] assms(2) by auto

lemma parse_value_quoted: "34 \<notin> set v \<Longrightarrow> parse_value (34 # v @ 34 # r) = Some (v, r)"
proof -
  assume "34 \<notin> set v"
  then have "list_all (\<lambda>c. c \<noteq> 34) v" by (auto simp: list_all_iff)
  then show ?thesis using takeWhile_until [of "\<lambda>c. c \<noteq> 34" v 34 r] by (simp add: parse_value_def)
qed

lemma parse_param_quoted:
  assumes "is_name k" "34 \<notin> set v"
  shows "parse_param (k @ [61, 34] @ v @ 34 # r) = Some (k, False, v, r)"
  using key_prefix [OF assms(1), of 61 "34 # v @ 34 # r"] is_name_chars [OF assms(1)] parse_value_quoted [OF assms(2)]
  by (simp add: parse_param_def Let_def)

text \<open>A value without quotation marks goes to the next blank: the semicolon behind it is taken as its last character.\<close>

lemma parse_param_unquoted:
  assumes "is_name k" "v \<noteq> []" "list_all (\<lambda>c. \<not> isspace c) v" "hd v \<noteq> 34"
  shows "parse_param (k @ 61 # v @ 59 # 32 # r) = Some (k, False, v @ [59], 32 # r)"
proof -
  have "\<not> isspace 59" "isspace 32" by (simp_all add: isspace_def)
  then have "takeWhile (\<lambda>c. \<not> isspace c) (v @ 59 # 32 # r) = v @ [59]" "dropWhile (\<lambda>c. \<not> isspace c) (v @ 59 # 32 # r) = 32 # r"
    using takeWhile_until [of "\<lambda>c. \<not> isspace c" "v @ [59]" 32 r] assms(3) by simp_all
  moreover have "take 1 (v @ 59 # 32 # r) \<noteq> [34]" using assms(2,4) by (cases v) auto
  ultimately have "parse_value (v @ 59 # 32 # r) = Some (v @ [59], 32 # r)" by (simp add: parse_value_def Let_def)
  then show ?thesis using key_prefix [OF assms(1), of 61 "v @ 59 # 32 # r"] is_name_chars [OF assms(1)]
    by (simp add: parse_param_def Let_def)
qed

text \<open>The section of a continuation that is not encoded, \<open>key*1=\<close>, has no second star.\<close>

lemma parse_param_section:
  assumes "is_name k" "ds \<noteq> []" "list_all isdigit ds"
  shows "parse_param (k @ 42 # ds @ 61 # r) = None"
proof -
  obtain d ds' where d: "ds = d # ds'" "isdigit d" using assms(2,3) by (cases ds) auto
  then have h: "d \<noteq> 45" "d \<noteq> 43" "d \<noteq> 61" by (auto simp: isdigit_def)
  have "\<not> isdigit 61" by (simp add: isdigit_def)
  then have "takeWhile isdigit (ds @ 61 # r) = ds" "dropWhile isdigit (ds @ 61 # r) = 61 # r"
    using takeWhile_until [of isdigit ds 61 r] assms(3) by simp_all
  then have "skip_int (ds @ 61 # r) = None \<or> skip_int (ds @ 61 # r) = Some (61 # r)"
    using d h by (simp add: skip_int_def Let_def)
  moreover have "take 1 (ds @ 61 # r) = [d]" using d by simp
  ultimately show ?thesis using key_prefix [OF assms(1), of 42 "ds @ 61 # r"] h
    by (auto simp: parse_param_def Let_def)
qed

lemma parse_param_no_equals: "61 \<notin> set s \<Longrightarrow> parse_param s = None"
proof -
  assume a: "61 \<notin> set s"
  let ?r = "dropWhile (\<lambda>c. c \<noteq> 42 \<and> c \<noteq> 61) s"
  have r: "61 \<notin> set ?r" using a by (blast dest: set_dropWhileD)
  have one: "take 1 x \<noteq> [61]" if "61 \<notin> set x" for x :: "byte list" using that by (cases x) auto
  have sub: "set (dropWhile P x) \<subseteq> set x" for P and x :: "byte list" by (blast dest: set_dropWhileD)
  have "61 \<notin> set r2" if "skip_int (drop 1 ?r) = Some r2" for r2
  proof -
    have "set r2 \<subseteq> set ?r" using that sub in_set_dropD by (fastforce simp: skip_int_def Let_def split: if_splits)
    then show ?thesis using r by blast
  qed
  then have "61 \<notin> set (if take 1 ?r = [42] then case skip_int (drop 1 ?r) of None \<Rightarrow> drop 1 ?r
      | Some r2 \<Rightarrow> if take 1 r2 = [42] then drop 1 r2 else drop 1 ?r else ?r)"
    using r by (auto dest: in_set_dropD split: option.splits)
  from one [OF this] show ?thesis by (simp only: parse_param_def Let_def) simp
qed

text \<open>The loop on separators, and on a position where the grammar fails.\<close>

lemma loop_separators:
  "list_all separator xs \<Longrightarrow> length xs \<le> fuel \<Longrightarrow> rfc2231_loop fuel eq to_utf (xs @ s) st = rfc2231_loop (fuel - length xs) eq to_utf s st"
proof (induction xs arbitrary: fuel)
  case (Cons c xs)
  then obtain f where "fuel = Suc f" by (cases fuel) auto
  then show ?case using Cons by (simp add: rfc2231_loop.simps(3) separator_def)
qed simp

lemma loop_stuck: "parse_param (c # s) = None \<Longrightarrow> \<not> separator c \<Longrightarrow> rfc2231_loop fuel eq to_utf (c # s) st = None"
  by (induction fuel) (simp_all add: rfc2231_loop.simps(3) separator_def)

lemma loop_no_equals:
  "61 \<notin> set s \<Longrightarrow> \<not> list_all separator s \<Longrightarrow> rfc2231_loop fuel eq to_utf s st = None"
proof (induction s arbitrary: fuel)
  case (Cons c s)
  show ?case
  proof (cases "separator c")
    case True
    then show ?thesis using Cons by (cases fuel) (simp_all add: rfc2231_loop.simps(3) separator_def)
  next
    case False
    then show ?thesis using Cons.prems loop_stuck parse_param_no_equals by blast
  qed
qed simp

lemma rfc2047_plain: "to_utf [] [] = Some [] \<Longrightarrow> unencoded v \<Longrightarrow> rfc2047_decode to_utf v = Some v"
  by (simp add: rfc2047_decode_def matches_none)

lemma loop_item:
  assumes "to_utf [] [] = Some []" "is_name k" "34 \<notin> set v" "unencoded v" "rs_oldkey st = []"
  shows "rfc2231_loop (Suc fuel) eq to_utf (k @ [61, 34] @ v @ 34 # r) st
    = rfc2231_loop fuel eq to_utf r (st\<lparr>rs_params := disp_update eq (\<lambda>old. old @ v) (rs_params st) k\<rparr>)"
proof -
  obtain c cs where k: "k = c # cs" "\<not> separator c" using is_name_chars [OF assms(2)] by (cases k) auto
  have "decode_param eq to_utf k False v st = Inr (st\<lparr>rs_params := disp_update eq (\<lambda>old. old @ v) (rs_params st) k\<rparr>)"
    using assms(5) rfc2047_plain [of to_utf v] assms(1,4) by (simp add: decode_param_def write_param_def)
  then show ?thesis using parse_param_quoted [OF assms(2,3), of r] k by (simp add: rfc2231_loop.simps(3) separator_def)
qed

lemma loop_items:
  assumes "to_utf [] [] = Some []"
  shows "list_all param_item items \<Longrightarrow> rs_oldkey st = [] \<Longrightarrow> length (param_text items) \<le> fuel \<Longrightarrow>
    rfc2231_loop fuel eq to_utf (param_text items) st
    = Some (Inr (st\<lparr>rs_params := foldl (\<lambda>d (k, v). disp_update eq (\<lambda>old. old @ v) d k) (rs_params st) (map snd items)\<rparr>))"
proof (induction items arbitrary: st fuel)
  case Nil
  then show ?case by (simp add: write_param_def)
next
  case (Cons i items)
  obtain sep k v where i: "i = (sep, k, v)" by (cases i)
  then have p: "list_all separator sep" "is_name k" "34 \<notin> set v" "unencoded v" using Cons.prems by (simp_all add: param_item_def)
  then obtain f where f: "fuel - length sep = Suc f" "length (param_text items) \<le> f" "length sep \<le> fuel"
    using Cons.prems(3) is_name_chars [OF p(2)] i by (cases "fuel - length sep") auto
  show ?case
    using loop_separators [OF p(1) f(3), of eq to_utf "k @ [61, 34] @ v @ 34 # param_text items" st]
      loop_item [of to_utf k v st f eq "param_text items"] assms p(2-4) Cons.IH [of _ f] Cons.prems f i by simp
qed

lemma index_update_fresh: "\<forall>e \<in> set data. \<not> eq (fst e) name \<Longrightarrow> index_update eq dflt f data name = data @ [(name, f dflt)]"
  by (induction data) auto

lemma update_fresh:
  "sm_unique eq (d_params d @ kvs) \<Longrightarrow> foldl (\<lambda>d (k, v). disp_update eq (\<lambda>old. old @ v) d k) d kvs = d\<lparr>d_params := d_params d @ kvs\<rparr>"
proof (induction kvs arbitrary: d)
  case (Cons kv kvs)
  obtain k v where kv: "kv = (k, v)" by (cases kv)
  have u: "sm_unique eq ((d_params d @ [kv]) @ kvs)" using Cons.prems by simp
  have "sm_unique eq (d_params d @ [kv])" using u by (induction kvs rule: rev_induct) (simp_all add: sm_unique_snoc flip: append_assoc)
  then have "\<forall>e \<in> set (d_params d). \<not> eq (fst e) k" by (simp add: sm_unique_snoc kv)
  then have "disp_update eq (\<lambda>old. old @ v) d k = d\<lparr>d_params := d_params d @ [kv]\<rparr>" by (simp add: disp_update_index index_update_fresh kv)
  then show ?case using Cons.IH [of "d\<lparr>d_params := d_params d @ [kv]\<rparr>"] u kv by simp
qed simp

lemma decode_items:
  assumes "to_utf [] [] = Some []" "list_all param_item items" "sm_unique eq (map snd items)" "length (param_text items) \<le> fuel"
  shows "rfc2231_decode fuel eq to_utf (param_text items) disposition_new = Some (Inr (disposition_new\<lparr>d_params := map snd items\<rparr>))"
  using loop_items [of to_utf items _ fuel eq] assms(1,2,4) update_fresh [of eq disposition_new "map snd items"] assms(3)
  by (simp add: rfc2231_decode_def disposition_new_def)

text \<open>What the encoder writes for parameters with a value of graphic characters.\<close>

definition graphic_param :: "byte list \<times> byte list \<Rightarrow> bool" where
  "graphic_param kv \<longleftrightarrow> is_name (fst kv) \<and> snd kv \<noteq> [] \<and> list_all isgraph (snd kv) \<and> 34 \<notin> set (snd kv) \<and> unencoded (snd kv)"

lemma encode_graphic:
  assumes "graphic_param (k, v)"
  shows "\<exists>sep cnt'. list_all separator sep \<and> encode_param trail_length from_utf charset cnt (k, v) = Inr (sep @ k @ [61, 34] @ v @ [34], cnt')"
proof -
  have a: "is_ascii v" "list_all (\<lambda>c. \<not> isspace c) v" using assms by (auto simp: graphic_param_def is_ascii_def list_all_iff ctype_defs word_le_nat_alt)
  then have "dropWhile (\<lambda>ch. \<not> isspace ch) v = []" by (simp add: list_all_iff)
  then have "plain_encode n v = (v, n + int (length v))" for n unfolding plain_encode.simps [of n v] Let_def by simp
  then show ?thesis using assms a(1) by (auto simp: encode_param_def graphic_param_def separator_def isspace_def)
qed

lemma encode_graphics:
  "list_all graphic_param kvs \<Longrightarrow> \<exists>items cnt'. encode_params trail_length from_utf charset cnt kvs = Inr (param_text items, cnt')
     \<and> map snd items = kvs \<and> list_all param_item items"
proof (induction kvs arbitrary: cnt)
  case Nil
  then show ?case by (intro exI [of _ "[]"]) simp
next
  case (Cons kv kvs)
  obtain k v where kv: "kv = (k, v)" by (cases kv)
  obtain sep cnt1 where 1: "list_all separator sep" "encode_param trail_length from_utf charset cnt kv = Inr (sep @ k @ [61, 34] @ v @ [34], cnt1)"
    using encode_graphic [of k v] Cons.prems kv by fastforce
  obtain items cnt2 where 2: "encode_params trail_length from_utf charset cnt1 kvs = Inr (param_text items, cnt2)" "map snd items = kvs" "list_all param_item items"
    using Cons.IH [of cnt1] Cons.prems by auto
  have "param_item (sep, k, v)" using 1(1) Cons.prems kv by (simp add: param_item_def graphic_param_def)
  then show ?case using 1 2 kv by (intro exI [of _ "(sep, k, v) # items"]) simp
qed



end
