(* ===== verification/Ascii_Filter.thy ===== *)
theory Ascii_Filter
  imports Byte_Sink
begin

text \<open>
  The filters for format=flowed texts (\<^verbatim>\<open>iostreams/ascii_filter.hpp\<close>): the encoder breaks long
  lines behind an extra blank, the decoder removes such breaks. The decoder is modelled as input
  filter (\<open>get\<close>) and as output filter (\<open>put\<close>); \<open>prior_\<close> is the \<open>int\<close> of the code, with 0 for none and
  -1 for \<open>EOF\<close>.
\<close>

section \<open>Encoder\<close>

definition ascii_line_break :: "('s \<Rightarrow> byte \<Rightarrow> 's \<times> bool) \<Rightarrow> 's \<Rightarrow> newline_base \<Rightarrow> 's \<times> newline_base \<times> bool" where
  "ascii_line_break put s b = (let (s', ok) = put s 32 in if ok then nb_put_ln put s' b else (s', b, False))"

definition ascii_encoder_new :: "newline \<Rightarrow> nat \<Rightarrow> newline_base" where
  "ascii_encoder_new nl size' = newline_base_new nl size'"

definition ascii_encoder_put :: "('s \<Rightarrow> byte \<Rightarrow> 's \<times> bool) \<Rightarrow> 's \<Rightarrow> newline_base \<Rightarrow> byte \<Rightarrow> 's \<times> newline_base \<times> bool" where
  "ascii_encoder_put put s b ch =
     (if ch = CR then (s, b, True) else if ch = LF then nb_put_ln put s b else nb_put (ascii_line_break put) put s b ch)"

fun ascii_write :: "('s \<Rightarrow> byte \<Rightarrow> 's \<times> bool) \<Rightarrow> 's \<Rightarrow> newline_base \<Rightarrow> byte list \<Rightarrow> 's \<times> newline_base \<times> bool" where
  "ascii_write put s b [] = (s, b, True)"
| "ascii_write put s b (c # cs) =
     (let (s', b', ok) = ascii_encoder_put put s b c in if ok then ascii_write put s' b' cs else (s', b', False))"

section \<open>Decoder\<close>

definition to_int :: "byte option \<Rightarrow> int" where
  "to_int c = (case c of None \<Rightarrow> - 1 | Some b \<Rightarrow> uint b)"

definition get_int :: "('src \<Rightarrow> 'src \<times> byte option) \<Rightarrow> 'src \<Rightarrow> 'src \<times> int" where
  "get_int get src = (let (src', c) = get src in (src', to_int c))"

definition ascii_decoder_get :: "('src \<Rightarrow> 'src \<times> byte option) \<Rightarrow> 'src \<Rightarrow> int \<Rightarrow> 'src \<times> int \<times> int" where
  "ascii_decoder_get get src prior =
     (let (src1, ch) = (if prior \<noteq> 0 then (src, prior) else get_int get src);
          prior1 = 0
      in if ch = 32 \<or> ch = 9 then
           let prior2 = ch;
               (src2, ch2) = get_int get src1;
               (src3, ch3, prior3) = (if ch2 = 13 then (let (s', c') = get_int get src2 in (s', c', 0)) else (src2, ch2, prior2));
               (src4, ch4, prior4) = (if ch3 = 10 then (let (s', c') = get_int get src3 in (s', c', 0)) else (src3, ch3, prior3))
           in if prior4 \<noteq> 0 then (src4, ch4, prior4) else (src4, prior4, ch4)
         else if ch = 13 then
           let (src2, ch2) = get_int get src1
           in if ch2 \<noteq> 10 then (src2, ch2, 10) else (src2, prior1, ch2)
         else (src1, prior1, ch))"

text \<open>The result of \<open>get\<close> is the source, the new \<open>prior_\<close> and the character.\<close>

definition ascii_decoder_put :: "('s \<Rightarrow> byte \<Rightarrow> 's \<times> bool) \<Rightarrow> 's \<Rightarrow> int \<Rightarrow> byte \<Rightarrow> 's \<times> int \<times> bool" where
  "ascii_decoder_put put s prior ch =
     (if prior = 32 \<and> ch = CR then (s, 13, True)
      else if prior = 13 \<and> ch = LF then (s, 0, True)
      else let prior' = (if ch = 32 \<or> ch = 9 then 32 else prior); (s', ok) = put s ch in (s', prior', ok))"

fun ascii_decode :: "('s \<Rightarrow> byte \<Rightarrow> 's \<times> bool) \<Rightarrow> 's \<Rightarrow> int \<Rightarrow> byte list \<Rightarrow> 's \<times> int \<times> bool" where
  "ascii_decode put s prior [] = (s, prior, True)"
| "ascii_decode put s prior (c # cs) =
     (let (s', prior', ok) = ascii_decoder_put put s prior c in if ok then ascii_decode put s' prior' cs else (s', prior', False))"

section \<open>The text of the encoder\<close>

fun flowed :: "newline \<Rightarrow> nat \<Rightarrow> nat \<Rightarrow> byte list \<Rightarrow> byte list" where
  "flowed nl mx cnt [] = []"
| "flowed nl mx cnt (c # cs) =
     (if c = CR then flowed nl mx cnt cs
      else if c = LF then newline_bytes nl @ flowed nl mx 0 cs
      else if mx \<le> cnt then [32] @ newline_bytes nl @ [c] @ flowed nl mx 1 cs
      else c # flowed nl mx (Suc cnt) cs)"

context accepting_sink
begin

lemma ascii_write_out:
  "\<exists>s' b'. ascii_write put s b cs = (s', b', True) \<and> out s' = out s @ flowed (nb_nl b) (nb_max b) (nb_cnt b) cs"
proof (induction cs arbitrary: s b)
  case (Cons c cs)
  have one: "\<exists>s' b'. ascii_encoder_put put s b c = (s', b', True) \<and> nb_nl b' = nb_nl b \<and> nb_max b' = nb_max b
      \<and> out s' @ flowed (nb_nl b) (nb_max b) (nb_cnt b') cs = out s @ flowed (nb_nl b) (nb_max b) (nb_cnt b) (c # cs)"
  proof (cases "c = CR \<or> c = LF")
    case True
    obtain s1 where "put_seq put s (newline_bytes (nb_nl b)) = (s1, True)" "out s1 = out s @ newline_bytes (nb_nl b)" by (rule put_seq_cases)
    then show ?thesis using True by (auto simp: ascii_encoder_put_def nb_put_ln_def CR_def LF_def)
  next
    case False
    obtain s1 where 1: "put_seq put s [32] = (s1, True)" "out s1 = out s @ [32]" by (rule put_seq_cases)
    obtain s2 where 2: "put_seq put s1 (newline_bytes (nb_nl b)) = (s2, True)" "out s2 = out s1 @ newline_bytes (nb_nl b)" by (rule put_seq_cases)
    obtain s3 where 3: "put_seq put s2 [c] = (s3, True)" "out s3 = out s2 @ [c]" by (rule put_seq_cases)
    obtain s4 where 4: "put_seq put s [c] = (s4, True)" "out s4 = out s @ [c]" by (rule put_seq_cases)
    show ?thesis using False 1 2 3 4
      by (cases "nb_max b \<le> nb_cnt b")
        (auto simp: ascii_encoder_put_def nb_put_def ascii_line_break_def nb_put_ln_def nb_put_nobreak_def split: prod.splits if_splits)
  qed
  then obtain s1 b1 where 1: "ascii_encoder_put put s b c = (s1, b1, True)" "nb_nl b1 = nb_nl b" "nb_max b1 = nb_max b"
      "out s1 @ flowed (nb_nl b) (nb_max b) (nb_cnt b1) cs = out s @ flowed (nb_nl b) (nb_max b) (nb_cnt b) (c # cs)" by blast
  then show ?case using Cons.IH [of s1 b1] by auto
qed simp

end

section \<open>Reading through the decoder\<close>

fun ascii_read :: "nat \<Rightarrow> byte list \<Rightarrow> int \<Rightarrow> byte list option" where
  "ascii_read 0 src prior = None"
| "ascii_read (Suc fuel) src prior =
     (let (src', prior', ch) = ascii_decoder_get list_get src prior
      in if ch = - 1 then Some [] else map_option (Cons (word_of_int ch)) (ascii_read fuel src' prior'))"

text \<open>\<open>get\<close> on the character that is held back and the rest of the source as one text.\<close>

definition skip :: "byte \<Rightarrow> byte list \<Rightarrow> byte list" where
  "skip c r = (case r of [] \<Rightarrow> [] | x # xs \<Rightarrow> if x = c then xs else r)"

fun flow_get :: "byte list \<Rightarrow> byte list \<times> byte option" where
  "flow_get [] = ([], None)"
| "flow_get (c # r) =
     (if c = 32 \<or> c = 9 then
        (let r2 = skip LF (skip CR r) in if r2 = r then (r, Some c) else list_get r2)
      else if c = CR then (skip LF r, Some LF)
      else (r, Some c))"

definition holds :: "byte list \<Rightarrow> int \<Rightarrow> byte list \<Rightarrow> bool" where
  "holds src prior L \<longleftrightarrow> (prior = 0 \<and> L = src) \<or> (\<exists>x. x \<noteq> 0 \<and> prior = uint x \<and> L = x # src) \<or> (prior = - 1 \<and> src = [] \<and> L = [])"

lemma uint_char: "uint (c :: byte) = 32 \<longleftrightarrow> c = 32" "uint c = 9 \<longleftrightarrow> c = 9" "uint c = 13 \<longleftrightarrow> c = CR" "uint c = 10 \<longleftrightarrow> c = LF" "uint c = 0 \<longleftrightarrow> c = 0" "uint c \<noteq> - 1"
proof -
  have "uint c = n \<longleftrightarrow> c = word_of_int n" if "0 \<le> n" "n < 256" for n
    using that by (auto simp: uint_word_of_int)
  from this [of 32] this [of 9] this [of 13] this [of 10] this [of 0]
  show "uint c = 32 \<longleftrightarrow> c = 32" "uint c = 9 \<longleftrightarrow> c = 9" "uint c = 13 \<longleftrightarrow> c = CR" "uint c = 10 \<longleftrightarrow> c = LF" "uint c = 0 \<longleftrightarrow> c = 0"
    by (simp_all add: CR_def LF_def)
  show "uint c \<noteq> - 1" using uint_ge_0 [of c] by linarith
qed

lemma get_int_cases: "get_int list_get [] = ([], - 1)" "get_int list_get (c # r) = (r, uint c)"
  by (simp_all add: get_int_def to_int_def)

text \<open>One \<open>get\<close> on the joined text.\<close>

lemma decoder_get_blank:
  assumes "c = 32 \<or> c = 9" "0 \<notin> set r" "ascii_decoder_get list_get src prior = X"
    and "(if prior \<noteq> 0 then (src, prior) else get_int list_get src) = (r, uint c)"
  shows "\<exists>src' prior' k. X = (src', prior', to_int k) \<and> (\<exists>L'. flow_get (c # r) = (L', k) \<and> holds src' prior' L')"
proof -
  have c: "uint c = 32 \<or> uint c = 9" "uint c \<noteq> 0" using assms(1) by auto
  show ?thesis
  proof (cases r)
    case Nil
    then show ?thesis using assms c by (auto simp: ascii_decoder_get_def get_int_cases skip_def holds_def to_int_def Let_def)
  next
    case (Cons x xs)
    then have x: "x \<noteq> 0" using assms(2) by auto
    show ?thesis
    proof (cases "x = CR \<or> x = LF")
      case False
      then show ?thesis using assms c Cons x
        by (auto simp: ascii_decoder_get_def get_int_cases skip_def holds_def to_int_def Let_def uint_char)
    next
      case True
      show ?thesis
      proof (cases xs)
        case Nil
        then show ?thesis using assms(1,3,4) c Cons True
          by (auto simp: ascii_decoder_get_def get_int_cases skip_def holds_def to_int_def Let_def uint_char CR_def LF_def)
      next
        case ys: (Cons y ys)
        show ?thesis
          by (cases ys) (use assms(1,3,4) c Cons True ys in
            \<open>auto simp: ascii_decoder_get_def get_int_cases skip_def holds_def to_int_def Let_def uint_char CR_def LF_def\<close>)
      qed
    qed
  qed
qed

lemma decoder_get_other:
  assumes "\<not> (c = 32 \<or> c = 9)" "0 \<notin> set r" "ascii_decoder_get list_get src prior = X"
    and "(if prior \<noteq> 0 then (src, prior) else get_int list_get src) = (r, uint c)"
  shows "\<exists>src' prior' k. X = (src', prior', to_int k) \<and> (\<exists>L'. flow_get (c # r) = (L', k) \<and> holds src' prior' L')"
proof -
  have c: "\<not> (uint c = 32 \<or> uint c = 9)" using assms(1) by (simp add: uint_char)
  show ?thesis
    by (cases r) (use assms c in \<open>auto simp: ascii_decoder_get_def get_int_cases skip_def holds_def to_int_def Let_def uint_char LF_def\<close>)
qed

lemma decoder_get_joined:
  assumes "holds src prior L" "0 \<notin> set L"
  shows "\<exists>src' prior' k L'. ascii_decoder_get list_get src prior = (src', prior', to_int k) \<and> flow_get L = (L', k) \<and> holds src' prior' L'"
proof (cases L)
  case Nil
  then show ?thesis using assms(1) by (auto simp: holds_def ascii_decoder_get_def get_int_cases to_int_def Let_def)
next
  case (Cons c r)
  then have "(if prior \<noteq> 0 then (src, prior) else get_int list_get src) = (r, uint c)"
    using assms(1) by (auto simp: holds_def get_int_cases uint_char)
  then show ?thesis using decoder_get_blank [of c r src prior] decoder_get_other [of c r src prior] assms(2) Cons
    by (cases "c = 32 \<or> c = 9") auto
qed

fun flow_all :: "nat \<Rightarrow> byte list \<Rightarrow> byte list option" where
  "flow_all 0 L = None"
| "flow_all (Suc fuel) L = (case flow_get L of (L', None) \<Rightarrow> Some [] | (L', Some c) \<Rightarrow> map_option (Cons c) (flow_all fuel L'))"

lemma skip_subset: "set (skip c r) \<subseteq> set r"
  by (auto simp: skip_def split: list.splits)

lemma list_get_subset: "list_get r = (r', k) \<Longrightarrow> set r' \<subseteq> set r"
  by (cases r) auto

lemma flow_get_subset: "flow_get L = (L', k) \<Longrightarrow> set L' \<subseteq> set L"
  using skip_subset [of LF "skip CR (tl L)"] skip_subset [of CR "tl L"] skip_subset [of LF "tl L"] list_get_subset [of "skip LF (skip CR (tl L))" L' k]
  by (cases L) (auto simp: Let_def split: if_splits)

lemma ascii_read_joined: "holds src prior L \<Longrightarrow> 0 \<notin> set L \<Longrightarrow> ascii_read fuel src prior = flow_all fuel L"
proof (induction fuel arbitrary: src prior L)
  case (Suc fuel)
  obtain src' prior' k L' where g: "ascii_decoder_get list_get src prior = (src', prior', to_int k)" "flow_get L = (L', k)" "holds src' prior' L'"
    using decoder_get_joined [OF Suc.prems] by blast
  have "0 \<notin> set L'" using flow_get_subset [OF g(2)] Suc.prems(2) by blast
  then have "ascii_read fuel src' prior' = flow_all fuel L'" using Suc.IH g(3) by blast
  then show ?case using g by (cases k) (simp_all add: to_int_def uint_char)
qed simp

section \<open>Round trip\<close>

text \<open>A text that the format can carry: no carriage return, no zero, no blank in front of a line end.\<close>

fun flowable :: "byte list \<Rightarrow> bool" where
  "flowable [] = True"
| "flowable (c # cs) = (c \<noteq> CR \<and> c \<noteq> 0 \<and> ((c = 32 \<or> c = 9) \<and> cs \<noteq> [] \<longrightarrow> hd cs \<noteq> LF) \<and> flowable cs)"

definition breaks_lines :: "newline \<Rightarrow> bool" where
  "breaks_lines nl \<longleftrightarrow> nl \<noteq> nl_none"

lemma flowed_head:
  assumes "flowable cs" "cs \<noteq> []" "hd cs \<noteq> LF"
  shows "\<exists>x xs. flowed nl mx cnt cs = x # xs \<and> x \<noteq> CR \<and> x \<noteq> LF"
  using assms by (cases cs) (auto simp: CR_def LF_def)

lemma flowed_not_lf: "flowable cs \<Longrightarrow> skip LF (flowed nl_cr mx cnt cs) = flowed nl_cr mx cnt cs"
  by (cases cs) (auto simp: skip_def newline_bytes_def CR_def LF_def)

lemma flow_get_break: "breaks_lines nl \<Longrightarrow> c \<noteq> LF \<Longrightarrow> flow_get ([32] @ newline_bytes nl @ [c] @ r) = (r, Some c)"
  by (cases nl) (auto simp: breaks_lines_def newline_bytes_def skip_def CR_def LF_def)

lemma flow_get_newline:
  assumes "breaks_lines nl" "flowable cs"
  shows "flow_get (newline_bytes nl @ flowed nl mx 0 cs) = (flowed nl mx 0 cs, Some LF)"
  using assms flowed_not_lf [OF assms(2)]
  by (cases nl) (auto simp: breaks_lines_def newline_bytes_def skip_def CR_def LF_def)

lemma flow_get_char:
  assumes "flowable (c # cs)" "c \<noteq> LF"
  shows "flow_get (c # flowed nl mx cnt cs) = (flowed nl mx cnt cs, Some c)"
proof (cases "(c = 32 \<or> c = 9) \<and> cs \<noteq> []")
  case True
  then obtain x xs where "flowed nl mx cnt cs = x # xs" "x \<noteq> CR" "x \<noteq> LF" using flowed_head [of cs nl mx cnt] assms by auto
  then show ?thesis using assms by (auto simp: skip_def Let_def)
next
  case False
  then show ?thesis using assms by (auto simp: skip_def)
qed

lemma flow_all_flowed:
  assumes "breaks_lines nl"
  shows "flowable cs \<Longrightarrow> length cs < fuel \<Longrightarrow> flow_all fuel (flowed nl mx cnt cs) = Some cs"
proof (induction cs arbitrary: cnt fuel)
  case Nil
  then show ?case by (cases fuel) simp_all
next
  case (Cons c cs)
  obtain k where k: "fuel = Suc k" "length cs < k" using Cons.prems(2) by (cases fuel) auto
  have IH: "flow_all k (flowed nl mx n cs) = Some cs" for n using Cons k(2) by simp
  have "flow_get (flowed nl mx cnt (c # cs)) \<in> (\<lambda>n. (flowed nl mx n cs, Some c)) ` UNIV"
  proof (cases "c = LF")
    case True
    then show ?thesis using flow_get_newline [OF assms, of cs mx] Cons.prems(1) by (auto simp: CR_def LF_def)
  next
    case False
    then show ?thesis using flow_get_break [OF assms False, of "flowed nl mx 1 cs"] flow_get_char [OF Cons.prems(1) False, of nl mx "Suc cnt"] Cons.prems(1)
      by (auto simp del: flow_get.simps)
  qed
  then show ?case unfolding k(1) using IH by (auto simp del: flow_get.simps)
qed

lemma flowed_nonzero: "0 \<notin> set cs \<Longrightarrow> 0 \<notin> set (flowed nl mx cnt cs)"
  by (induction nl mx cnt cs rule: flowed.induct) (auto simp: newline_bytes_def CR_def LF_def split: newline.splits)

lemma flowable_nonzero: "flowable cs \<Longrightarrow> 0 \<notin> set cs"
  by (induction cs) auto

lemma ascii_decode_drops:
  "32 \<notin> set cs \<Longrightarrow> 9 \<notin> set cs \<Longrightarrow> CR \<notin> set cs \<Longrightarrow> LF \<notin> set cs \<Longrightarrow> ascii_decode string_put s 32 (cs @ [CR, LF]) = (s @ cs, 0, True)"
  by (induction cs arbitrary: s) (auto simp: ascii_decoder_put_def string_put_def Let_def CR_def LF_def)

text \<open>
  A text without carriage returns, zeros and blanks in front of line ends, written through the encoder
  with any line size and any kind of line break, is read back through the decoder as it was.
  As an output filter the decoder is wrong: behind the first blank of the text it drops every line
  break CR LF.
\<close>

theorem ascii_roundtrip:
  assumes "accepting_sink put out" "out s = []" "breaks_lines nl" "flowable cs"
    and "32 \<notin> set w" "9 \<notin> set w" "CR \<notin> set w" "LF \<notin> set w"
  shows "(\<exists>s' b'. ascii_write put s (ascii_encoder_new nl size') cs = (s', b', True)
      \<and> (\<forall>fuel > length cs. ascii_read fuel (out s') 0 = Some cs))
    \<and> ascii_decode string_put [] 0 (32 # w @ [CR, LF]) = (32 # w, 0, True)"
proof
  have b: "nb_nl (ascii_encoder_new nl size') = nl" by (simp add: ascii_encoder_new_def newline_base_new_def)
  obtain s' b' where w: "ascii_write put s (ascii_encoder_new nl size') cs = (s', b', True)"
      "out s' = flowed nl (nb_max (ascii_encoder_new nl size')) (nb_cnt (ascii_encoder_new nl size')) cs"
    using accepting_sink.ascii_write_out [OF assms(1), of s "ascii_encoder_new nl size'" cs] assms(2) b by auto
  have "0 \<notin> set (out s')" unfolding w(2) by (rule flowed_nonzero [OF flowable_nonzero [OF assms(4)]])
  then have "ascii_read fuel (out s') 0 = flow_all fuel (out s')" for fuel by (intro ascii_read_joined) (simp_all add: holds_def)
  then show "\<exists>s' b'. ascii_write put s (ascii_encoder_new nl size') cs = (s', b', True) \<and> (\<forall>fuel > length cs. ascii_read fuel (out s') 0 = Some cs)"
    using flow_all_flowed [OF assms(3,4)] w by auto
next
  show "ascii_decode string_put [] 0 (32 # w @ [CR, LF]) = (32 # w, 0, True)"
    using ascii_decode_drops [OF assms(5-8), of "[32]"] by (simp add: ascii_decoder_put_def string_put_def CR_def LF_def)
qed

theorem ascii_roundtrip_witness:
  "\<exists>s' b'. ascii_write string_put [] (ascii_encoder_new nl_crln 2) [97, 32, 98, 10, 99] = (s', b', True) \<and> ascii_read 9 s' 0 = Some [97, 32, 98, 10, 99]"
  using ascii_roundtrip [OF string_sink.accepting_sink_axioms, of "[]" nl_crln "[97, 32, 98, 10, 99]" "[]" 2]
  by (auto simp: breaks_lines_def CR_def LF_def)

end
