(* ===== verification/Email_Parser.thy ===== *)
theory Email_Parser
  imports Mime_Header Ascii_Filter
begin

text \<open>
  The incremental parser of messages (\<^verbatim>\<open>email/email_parser.ipp\<close>, \<^verbatim>\<open>email/message.hpp\<close>): \<open>write\<close> cuts
  the input into lines, a line goes to the header parser or to the payload parser, which hands it to
  the parser of a sub-part or decodes it. A message has its headers, the bytes that reached its code
  converter with the charset of the converter, and its sub-parts; the current sub-part is the last
  one. The third-party functions are collected in a record. An exception is \<open>Inl\<close>; an endless loop in
  the parameters of a header is \<open>None\<close> for every fuel.
\<close>

section \<open>Messages\<close>

datatype message = Message (m_headers: headers) (m_payload: "byte list option") (m_charset: "byte list option") (m_subparts: "message list")

definition message_new :: message where
  "message_new = Message [] None None []"

text \<open>\<open>operator streambuf_type *\<close>: the payload, which is created when there is none.\<close>

definition with_payload :: "byte list option \<Rightarrow> message \<Rightarrow> message" where
  "with_payload charset m =
     Message (m_headers m) (Some (case m_payload m of None \<Rightarrow> [] | Some b \<Rightarrow> b)) charset (m_subparts m)"

definition append_payload :: "byte list \<Rightarrow> message \<Rightarrow> message" where
  "append_payload bs m = Message (m_headers m) (map_option (\<lambda>b. b @ bs) (m_payload m)) (m_charset m) (m_subparts m)"

definition has_subpart :: "message \<Rightarrow> bool" where
  "has_subpart m \<longleftrightarrow> m_subparts m \<noteq> []"

definition add_subpart :: "message \<Rightarrow> message" where
  "add_subpart m = Message (m_headers m) (m_payload m) (m_charset m) (m_subparts m @ [message_new])"

definition last_subpart :: "message \<Rightarrow> message" where
  "last_subpart m = (if m_subparts m = [] then message_new else last (m_subparts m))"

definition set_last_subpart :: "message \<Rightarrow> message \<Rightarrow> message" where
  "set_last_subpart c m =
     (if m_subparts m = [] then m else Message (m_headers m) (m_payload m) (m_charset m) (butlast (m_subparts m) @ [c]))"

section \<open>Environment\<close>

record email_env =
  env_fuel :: nat
  env_iequals :: name_eq
  env_istarts_with :: name_eq
  env_to_utf :: "byte list \<Rightarrow> byte list \<Rightarrow> byte list option"

section \<open>Parsers\<close>

text \<open>The decoder in front of the code converter.\<close>

datatype transfer = T_none | T_ascii int | T_qprint qprint_decoder | T_base64 base64_decoder

fun transfer_write :: "transfer \<Rightarrow> byte list \<Rightarrow> byte list \<times> transfer \<times> bool" where
  "transfer_write T_none line = (line, T_none, True)"
| "transfer_write (T_ascii prior) line = (let (bs, prior', ok) = ascii_decode string_put [] prior line in (bs, T_ascii prior', ok))"
| "transfer_write (T_qprint d) line = (let (bs, d', ok) = qprint_decode string_put [] d line in (bs, T_qprint d', ok))"
| "transfer_write (T_base64 d) line = (let (bs, d', ok) = decoder_write base64_std string_put [] d line in (bs, T_base64 d', ok))"

text \<open>
  \<open>parser_impl\<close> with its variant. A stream whose filter has refused a character takes nothing more:
  the flag of the payload parser.
\<close>

datatype email_state =
    E_header "byte list option" "byte list" "byte list" bool
  | E_payload "byte list option" "byte list option" transfer bool "email_state option" bool

fun email_progress :: "email_state \<Rightarrow> bool" where
  "email_progress (E_header b n ps prog) = prog"
| "email_progress (E_payload c p t ok sub prog) = prog"

definition email_state_new :: "byte list option \<Rightarrow> email_state" where
  "email_state_new boundary = E_header boundary [] [] True"

definition email_complete :: email_state where
  "email_complete = E_header None [] [] False"

definition to_payload :: "email_env \<Rightarrow> byte list option \<Rightarrow> bool \<Rightarrow> message \<Rightarrow> email_state \<times> message" where
  "to_payload env boundary prog m =
     (let p = get_encoding_params (env_iequals env) (env_istarts_with env) (m_headers m);
          t = (case ep_enc p of
                 enc_ascii \<Rightarrow> if ep_text_mode p then T_ascii 0 else T_none
               | enc_qprint \<Rightarrow> T_qprint qprint_decoder_new
               | enc_base64 \<Rightarrow> T_base64 base64_decoder_new)
      in (E_payload (ep_boundary p) boundary t True None prog,
          with_payload (if ep_text_mode p then Some (ep_charset p) else None) m))"

text \<open>\<open>to_subpart\<close>: a new parser for a new sub-part, in place of the one before.\<close>

definition to_subpart :: "byte list option \<Rightarrow> message \<Rightarrow> email_state option \<times> message" where
  "to_subpart boundary m = (Some (email_state_new boundary), add_subpart m)"

text \<open>\<open>header_parser::append\<close>.\<close>

definition header_append :: "email_env \<Rightarrow> byte list \<Rightarrow> byte list \<Rightarrow> message \<Rightarrow> (mime_error + message) option" where
  "header_append env name params m =
     (if name \<noteq> [] \<and> params \<noteq> [] then
        let (h, it) = hdr_index (env_iequals env) (m_headers m) name; d = snd (h ! it);
            r = (if env_istarts_with env name (bytes_of ''Content-'')
                 then decode_mimeheader_params (env_fuel env) (env_iequals env) (env_to_utf env) params d
                 else Some (decode_mimeheader (env_to_utf env) params d))
        in map_option (map_sum id (\<lambda>d'. Message (h[it := (fst (h ! it), d')]) (m_payload m) (m_charset m) (m_subparts m))) r
      else Some (Inr m))"

text \<open>\<open>header_parser::operator()\<close>; the result tells whether the line was taken.\<close>

definition header_line ::
  "email_env \<Rightarrow> byte list \<Rightarrow> byte list option \<Rightarrow> byte list \<Rightarrow> byte list \<Rightarrow> bool \<Rightarrow> message
   \<Rightarrow> (mime_error + bool \<times> email_state \<times> message) option" where
  "header_line env line boundary name params prog m =
     (let payload = (\<lambda>taken. map_option (map_sum id (\<lambda>m'. let (st, m'') = to_payload env boundary prog m' in (taken, st, m''))) (header_append env name params m));
          value = (\<lambda>it name' params' m'. (True, E_header boundary name' (params' @ (if params' \<noteq> [] then [32] else []) @ dropWhile isspace (drop 1 it)) prog, m'))
      in if line = [] then payload True
         else if line = [46] then payload False
         else if \<not> isspace (hd line) then
           let it = dropWhile (\<lambda>c. c \<noteq> 58) line
           in if it = [] then (let (st, m') = to_payload env boundary prog m in Some (Inr (False, st, m')))
              else map_option (map_sum id (\<lambda>m'. value it (takeWhile (\<lambda>c. c \<noteq> 58) line) [] m')) (header_append env name params m)
         else Some (Inr (value line name params m)))"

text \<open>\<open>payload_parser\<close>: the boundary tests, and a line without a sub-part in progress.\<close>

definition is_child_multipart_begin :: "byte list option \<Rightarrow> byte list \<Rightarrow> bool" where
  "is_child_multipart_begin child line \<longleftrightarrow> (case child of None \<Rightarrow> False | Some b \<Rightarrow> line = [45, 45] @ b)"

definition is_parent_multipart_end :: "byte list option \<Rightarrow> byte list \<Rightarrow> bool" where
  "is_parent_multipart_end parent line \<longleftrightarrow> (case parent of None \<Rightarrow> False | Some b \<Rightarrow> line = [45, 45] @ b @ [45, 45])"

definition payload_output ::
  "byte list option \<Rightarrow> byte list option \<Rightarrow> transfer \<Rightarrow> bool \<Rightarrow> email_state option \<Rightarrow> bool \<Rightarrow> byte list \<Rightarrow> message \<Rightarrow> email_state \<times> message" where
  "payload_output child parent t ok sub prog line m =
     (if ok then (let (bs, t', ok') = transfer_write t line in (E_payload child parent t' ok' sub prog, append_payload bs m))
      else (E_payload child parent t ok sub prog, m))"

text \<open>
  \<open>parse_line\<close>: the loop over the variant. Only the header parser does not take a line, and it
  leaves a payload parser without a sub-part, which takes it.
\<close>

fun parse_line :: "email_env \<Rightarrow> byte list \<Rightarrow> email_state \<Rightarrow> message \<Rightarrow> (mime_error + email_state \<times> message) option" where
  "parse_line env line (E_payload child parent t ok sub prog) m =
     (if line = [46] then Some (Inr (email_complete, m))
      else if is_child_multipart_begin child line then Some (Inr (email_complete, m))
      else if is_parent_multipart_end parent line
      then (let (sub', m') = to_subpart child m in Some (Inr (E_payload child parent t ok sub' prog, m')))
      else case sub of
        Some s \<Rightarrow>
          if email_progress s then
            map_option (map_sum id (\<lambda>(s', c). (E_payload child parent t ok (Some s') prog, set_last_subpart c m)))
              (parse_line env line s (last_subpart m))
          else Some (Inr (payload_output child parent t ok sub prog line m))
      | None \<Rightarrow> Some (Inr (payload_output child parent t ok sub prog line m)))"
| "parse_line env line (E_header boundary name params prog) m =
     (case header_line env line boundary name params prog m of
        None \<Rightarrow> None
      | Some (Inl e) \<Rightarrow> Some (Inl e)
      | Some (Inr (True, st, m')) \<Rightarrow> Some (Inr (st, m'))
      | Some (Inr (False, E_payload child parent t ok sub prog', m')) \<Rightarrow>
          if line = [46] then Some (Inr (email_complete, m'))
          else if is_child_multipart_begin child line then Some (Inr (email_complete, m'))
          else if is_parent_multipart_end parent line
          then (let (sub', m'') = to_subpart child m' in Some (Inr (E_payload child parent t ok sub' prog', m'')))
          else Some (Inr (payload_output child parent t ok sub prog' line m'))
      | Some (Inr (False, st, m')) \<Rightarrow> Some (Inr (st, m')))"

section \<open>Writing\<close>

text \<open>
  \<open>write\<close> over any line parser: \<open>pl\<close> is \<open>parse_line\<close> on a state and \<open>prog\<close> its \<open>in_progress\<close>. The
  loop returns the number of bytes that were not consumed.
\<close>

record 'p writer =
  w_parser :: 'p
  w_line :: "byte list"
  w_last :: byte

definition line_sep :: "byte \<Rightarrow> bool" where
  "line_sep c \<longleftrightarrow> c = CR \<or> c = LF"

definition skip_sep :: "byte \<Rightarrow> byte list \<Rightarrow> byte list" where
  "skip_sep c r = (case r of [] \<Rightarrow> [] | x # xs \<Rightarrow> if x = c then xs else r)"

lemma after_separator:
  assumes "dropWhile (\<lambda>c. \<not> line_sep c) s \<noteq> []"
  shows "length (skip_sep LF (skip_sep CR (dropWhile (\<lambda>c. \<not> line_sep c) s))) < length s"
proof -
  obtain x xs where x: "dropWhile (\<lambda>c. \<not> line_sep c) s = x # xs" using assms by (cases "dropWhile (\<lambda>c. \<not> line_sep c) s") auto
  then have "line_sep x" using hd_dropWhile [of "\<lambda>c. \<not> line_sep c" s] by auto
  then have "length (skip_sep LF (skip_sep CR (x # xs))) \<le> length xs" by (auto simp: line_sep_def skip_sep_def split: list.splits)
  moreover have "length (x # xs) \<le> length s" using length_dropWhile_le [of "\<lambda>c. \<not> line_sep c" s] x by simp
  ultimately show ?thesis using x by simp
qed

function write_lines ::
  "('p \<Rightarrow> bool) \<Rightarrow> ('p \<Rightarrow> byte list \<Rightarrow> ('e + 'p) option) \<Rightarrow> byte list \<Rightarrow> 'p writer \<Rightarrow> ('e + nat \<times> 'p writer) option" where
  "write_lines prog pl s w =
     (let seg = takeWhile (\<lambda>c. \<not> line_sep c) s; r = dropWhile (\<lambda>c. \<not> line_sep c) s
      in if r = [] then Some (Inr (0, w\<lparr>w_line := w_line w @ seg\<rparr>))
         else case pl (w_parser w) (w_line w @ seg) of
           None \<Rightarrow> None
         | Some (Inl e) \<Rightarrow> Some (Inl e)
         | Some (Inr p) \<Rightarrow>
             let w' = w\<lparr>w_parser := p, w_line := []\<rparr>; r1 = skip_sep CR r
             in if r1 = [] then Some (Inr (0, w'))
                else let r2 = skip_sep LF r1
                     in if r2 = [] then Some (Inr (0, w'))
                        else if \<not> prog p then Some (Inr (length r2, w'))
                        else write_lines prog pl r2 w')"
  by auto
termination
  by (relation "measure (\<lambda>(_, _, s, _). length s)") (use after_separator in \<open>auto simp del: dropWhile_eq_Nil_conv\<close>)

declare write_lines.simps [simp del]

definition email_write ::
  "('p \<Rightarrow> bool) \<Rightarrow> ('p \<Rightarrow> byte list \<Rightarrow> ('e + 'p) option) \<Rightarrow> byte list \<Rightarrow> 'p writer \<Rightarrow> ('e + int \<times> 'p writer) option" where
  "email_write prog pl s w =
     (if \<not> prog (w_parser w) then Some (Inr (- 1, w))
      else if s = [] then Some (Inr (0, w))
      else let s' = (if w_last w = CR \<and> hd s = LF then tl s else s); w' = w\<lparr>w_last := last s\<rparr>
           in map_option (map_sum id (\<lambda>(n, w''). (int (length s) - int n, w''))) (write_lines prog pl s' w'))"

section \<open>Writing in pieces\<close>

text \<open>The same byte by byte: a line feed behind a carriage return is skipped.\<close>

fun scan ::
  "('p \<Rightarrow> bool) \<Rightarrow> ('p \<Rightarrow> byte list \<Rightarrow> ('e + 'p) option) \<Rightarrow> byte list \<Rightarrow> 'p writer \<Rightarrow> ('e + 'p writer) option" where
  "scan prog pl [] w = Some (Inr w)"
| "scan prog pl (c # cs) w =
     (if \<not> prog (w_parser w) then Some (Inr w)
      else if c = LF \<and> w_last w = CR then scan prog pl cs (w\<lparr>w_last := LF\<rparr>)
      else if line_sep c then
        (case pl (w_parser w) (w_line w) of
           None \<Rightarrow> None
         | Some (Inl e) \<Rightarrow> Some (Inl e)
         | Some (Inr p) \<Rightarrow> scan prog pl cs (w\<lparr>w_parser := p, w_line := [], w_last := c\<rparr>))
      else scan prog pl cs (w\<lparr>w_line := w_line w @ [c], w_last := c\<rparr>))"

lemma scan_append:
  "scan prog pl (xs @ ys) w = (case scan prog pl xs w of None \<Rightarrow> None | Some (Inl e) \<Rightarrow> Some (Inl e) | Some (Inr w') \<Rightarrow> scan prog pl ys w')"
proof (induction xs arbitrary: w)
  case (Cons c xs)
  show ?case
  proof (cases "prog (w_parser w)")
    case False
    then show ?thesis by (cases ys) simp_all
  next
    case True
    then show ?thesis using Cons by (auto split: option.splits sum.splits)
  qed
qed simp

lemma scan_segment:
  "list_all (\<lambda>c. \<not> line_sep c) seg \<Longrightarrow> prog (w_parser w) \<Longrightarrow>
   scan prog pl (seg @ r) w = scan prog pl r (w\<lparr>w_line := w_line w @ seg, w_last := (if seg = [] then w_last w else last seg)\<rparr>)"
proof (induction seg arbitrary: w)
  case (Cons c seg)
  have c: "c \<noteq> LF" "\<not> line_sep c" using Cons.prems by (auto simp: line_sep_def)
  then show ?case using Cons.IH [of "w\<lparr>w_line := w_line w @ [c], w_last := c\<rparr>"] Cons.prems by simp
qed simp

text \<open>The results of the two correspond; \<open>l\<close> is the last byte of the input.\<close>

definition corresponds :: "('p \<Rightarrow> bool) \<Rightarrow> byte \<Rightarrow> ('e + nat \<times> 'p writer) option \<Rightarrow> ('e + 'p writer) option \<Rightarrow> bool" where
  "corresponds prog l r q \<longleftrightarrow>
     (case r of
        None \<Rightarrow> q = None
      | Some (Inl e) \<Rightarrow> q = Some (Inl e)
      | Some (Inr (n, w)) \<Rightarrow> \<exists>w'. q = Some (Inr w') \<and> w_parser w' = w_parser w \<and> w_line w' = w_line w
          \<and> (prog (w_parser w) \<longrightarrow> n = 0 \<and> w_last w' = l))"

lemma takeWhile_list_all: "list_all P (takeWhile P xs)"
  by (induction xs) auto

text \<open>Behind a separator; \<open>rest\<close> is what follows the line break.\<close>

lemma scan_after_separator:
  assumes "line_sep x" "w_parser u = p" "w_line u = []" "w_last u = x" "w_parser w = p" "w_line w = []"
    and rest: "rest = skip_sep LF (skip_sep CR (x # xs))"
    and IH: "\<And>v. rest \<noteq> [] \<Longrightarrow> prog p \<Longrightarrow> \<not> (w_last v = CR \<and> hd rest = LF) \<Longrightarrow> w_parser v = p \<Longrightarrow> w_line v = []
      \<Longrightarrow> corresponds prog (last rest) (write_lines prog pl rest w) (scan prog pl rest v)"
  shows "corresponds prog (last (x # xs)) (if skip_sep CR (x # xs) = [] \<or> rest = [] then Some (Inr (0, w))
          else if \<not> prog p then Some (Inr (length rest, w)) else write_lines prog pl rest w) (scan prog pl xs u)"
proof (cases "prog p")
  case False
  then have "scan prog pl xs u = Some (Inr u)" using assms(2) by (cases xs) simp_all
  then show ?thesis using False assms(2-6) by (simp add: corresponds_def)
next
  case True
  consider (none) "xs = []" | (crlf) ys where "x = CR" "xs = LF # ys" | (other) y ys where "xs = y # ys" "\<not> (x = CR \<and> y = LF)"
    by (cases xs) blast+
  then show ?thesis
  proof cases
    case none
    then show ?thesis using True assms(1-7) by (auto simp: corresponds_def skip_sep_def line_sep_def)
  next
    case crlf
    then have r: "rest = ys" "scan prog pl xs u = scan prog pl ys (u\<lparr>w_last := LF\<rparr>)" using rest True assms(2,4) by (simp_all add: skip_sep_def)
    show ?thesis
    proof (cases "ys = []")
      case True
      then show ?thesis using r crlf assms(2-6) by (simp add: corresponds_def)
    next
      case False
      then show ?thesis using IH [of "u\<lparr>w_last := LF\<rparr>"] r crlf assms(2-6) True by (simp add: skip_sep_def CR_def LF_def)
    qed
  next
    case other
    then have r: "rest = xs" "skip_sep CR (x # xs) \<noteq> []" using rest assms(1) by (auto simp: skip_sep_def line_sep_def CR_def LF_def)
    have "\<not> (w_last u = CR \<and> hd rest = LF)" using r(1) other assms(4) by simp
    then show ?thesis using IH [of u] r other True assms(2,3) by simp
  qed
qed

lemma write_lines_scan:
  fixes w :: "'p writer"
  shows "prog (w_parser w) \<Longrightarrow> \<not> (w_last v = CR \<and> s \<noteq> [] \<and> hd s = LF) \<Longrightarrow> w_parser v = w_parser w \<Longrightarrow> w_line v = w_line w
    \<Longrightarrow> corresponds prog (if s = [] then w_last v else last s) (write_lines prog pl s w) (scan prog pl s v)"
proof (induction "length s" arbitrary: s w v rule: less_induct)
  case (less s w v)
  note 1 = less
  let ?seg = "takeWhile (\<lambda>c. \<not> line_sep c) s" and ?r = "dropWhile (\<lambda>c. \<not> line_sep c) s"
  let ?v = "v\<lparr>w_line := w_line w @ ?seg, w_last := (if ?seg = [] then w_last v else last ?seg)\<rparr>"
  have s: "s = ?seg @ ?r" by simp
  have sc: "scan prog pl s v = scan prog pl ?r ?v"
    using scan_segment [of ?seg prog v pl ?r] takeWhile_list_all [of "\<lambda>c. \<not> line_sep c" s] 1 by simp
  show ?case
  proof (cases ?r)
    case Nil
    then have seg: "?seg = s" using s by simp
    have "write_lines prog pl s w = Some (Inr (0, w\<lparr>w_line := w_line w @ s\<rparr>))"
      unfolding write_lines.simps [of prog pl s w] Let_def Nil seg by simp
    moreover have "scan prog pl s v = Some (Inr (v\<lparr>w_line := w_line w @ s, w_last := (if s = [] then w_last v else last s)\<rparr>))"
      unfolding sc Nil seg by simp
    ultimately show ?thesis using 1(4) by (simp add: corresponds_def)
  next
    case (Cons x xs)
    have x: "line_sep x" using Cons hd_dropWhile [of "\<lambda>c. \<not> line_sep c" s] by auto
    have seg: "?seg \<noteq> [] \<Longrightarrow> \<not> line_sep (last ?seg)" by (blast dest: last_in_set set_takeWhileD)
    have nl: "\<not> (x = LF \<and> w_last ?v = CR)"
    proof (cases "?seg = []")
      case True
      then have "s = x # xs" using s Cons by (metis append_Nil)
      then show ?thesis using 1(3) unfolding True by auto
    next
      case False
      then show ?thesis using seg by (auto simp: line_sep_def)
    qed
    have "s = ?seg @ x # xs" using s Cons by metis
    then have l: "s \<noteq> []" "last s = last (x # xs)" by (metis append_is_Nil_conv list.distinct(1), metis last_appendR list.distinct(1))
    have sc2: "scan prog pl s v = (case pl (w_parser w) (w_line w @ ?seg) of None \<Rightarrow> None | Some (Inl e) \<Rightarrow> Some (Inl e)
        | Some (Inr p) \<Rightarrow> scan prog pl xs (?v\<lparr>w_parser := p, w_line := [], w_last := x\<rparr>))"
      unfolding sc Cons using 1(2,4) x nl by (auto split: option.splits sum.splits)
    show ?thesis
    proof (cases "\<exists>p. pl (w_parser w) (w_line w @ ?seg) = Some (Inr p)")
      case False
      then show ?thesis unfolding sc2 using Cons
        by (auto simp: write_lines.simps [of prog pl s w] corresponds_def split: option.splits sum.splits)
    next
      case True
      then obtain p where p: "pl (w_parser w) (w_line w @ ?seg) = Some (Inr p)" by blast
      let ?w = "w\<lparr>w_parser := p, w_line := []\<rparr>" and ?u = "?v\<lparr>w_parser := p, w_line := [], w_last := x\<rparr>"
      let ?r2 = "skip_sep LF (skip_sep CR (x # xs))"
      have wl: "write_lines prog pl s w = (if skip_sep CR (x # xs) = [] \<or> ?r2 = [] then Some (Inr (0, ?w))
          else if \<not> prog p then Some (Inr (length ?r2, ?w)) else write_lines prog pl ?r2 ?w)"
        using Cons p by (simp add: write_lines.simps [of prog pl s w] Let_def)
      have IH: "corresponds prog (last ?r2) (write_lines prog pl ?r2 ?w) (scan prog pl ?r2 v')"
        if "?r2 \<noteq> []" "prog p" "\<not> (w_last v' = CR \<and> hd ?r2 = LF)" "w_parser v' = p" "w_line v' = []" for v'
        using 1(1) [of ?r2 ?w v'] after_separator [of s] Cons that by simp
      have "corresponds prog (last (x # xs)) (write_lines prog pl s w) (scan prog pl xs ?u)"
        unfolding wl by (rule scan_after_separator [OF x _ _ _ _ _ refl IH]) simp_all
      then show ?thesis unfolding sc2 p using l by simp
    qed
  qed
qed

lemma write_lines_last: "write_lines prog pl s w = Some (Inr (n, w')) \<Longrightarrow> w_last w' = w_last w"
proof (induction "length s" arbitrary: s w rule: less_induct)
  case less
  let ?r = "dropWhile (\<lambda>c. \<not> line_sep c) s"
  show ?case
  proof (cases "?r = []")
    case True
    then show ?thesis using less.prems by (auto simp: write_lines.simps [of prog pl s w] Let_def)
  next
    case False
    obtain p where p: "pl (w_parser w) (w_line w @ takeWhile (\<lambda>c. \<not> line_sep c) s) = Some (Inr p)"
      using less.prems False by (auto simp: write_lines.simps [of prog pl s w] Let_def simp del: dropWhile_eq_Nil_conv split: option.splits sum.splits)
    have "w_last w' = w_last w \<or> write_lines prog pl (skip_sep LF (skip_sep CR ?r)) (w\<lparr>w_parser := p, w_line := []\<rparr>) = Some (Inr (n, w'))"
      using less.prems False p by (auto simp: write_lines.simps [of prog pl s w] Let_def simp del: dropWhile_eq_Nil_conv split: if_splits)
    then show ?thesis using less.hyps [OF after_separator [OF False]] by fastforce
  qed
qed

text \<open>\<open>write\<close> as a scan, for a parser in progress.\<close>

lemma email_write_scan:
  fixes w :: "'p writer"
  assumes "prog (w_parser w)" "s \<noteq> []"
  shows "case email_write prog pl s w of
      None \<Rightarrow> scan prog pl s w = None
    | Some (Inl e) \<Rightarrow> scan prog pl s w = Some (Inl e)
    | Some (Inr (n, w1)) \<Rightarrow> \<exists>w2. scan prog pl s w = Some (Inr w2) \<and> w_parser w2 = w_parser w1 \<and> w_line w2 = w_line w1
        \<and> (prog (w_parser w1) \<longrightarrow> n = int (length s) \<and> w2 = w1)"
proof -
  let ?s = "if w_last w = CR \<and> hd s = LF then tl s else s" and ?w = "w\<lparr>w_last := last s\<rparr>"
  let ?v = "if w_last w = CR \<and> hd s = LF then w\<lparr>w_last := LF\<rparr> else w"
  have sc: "scan prog pl s w = scan prog pl ?s ?v" using assms by (cases s) simp_all
  have "corresponds prog (if ?s = [] then w_last ?v else last ?s) (write_lines prog pl ?s ?w) (scan prog pl ?s ?v)"
    using assms by (intro write_lines_scan) (auto simp: CR_def LF_def)
  moreover have "(if ?s = [] then w_last ?v else last ?s) = last s" using assms(2) by (cases s) auto
  ultimately have c: "corresponds prog (last s) (write_lines prog pl ?s ?w) (scan prog pl s w)" by (simp only: sc)
  have e: "email_write prog pl s w = map_option (map_sum id (\<lambda>(n, w''). (int (length s) - int n, w''))) (write_lines prog pl ?s ?w)"
    using assms by (simp add: email_write_def Let_def)
  show ?thesis
  proof (cases "write_lines prog pl ?s ?w")
    case None
    then show ?thesis using c e by (simp add: corresponds_def)
  next
    case (Some r)
    show ?thesis
    proof (cases r)
      case (Inl x)
      then show ?thesis using c e Some by (simp add: corresponds_def)
    next
      case (Inr x)
      obtain n w1 where x: "x = (n, w1)" by (cases x)
      have "w_last w1 = last s" using write_lines_last [of prog pl ?s ?w n w1] Some Inr x by simp
      then show ?thesis using c e Some Inr x by (auto simp: corresponds_def)
    qed
  qed
qed

section \<open>Properties\<close>

text \<open>
  Writing a text in two pieces does what writing it at once does, wherever it is
  cut (also between the two characters of a line break) and for every line parser: the same lines
  are parsed, with the same error or endless loop if there is one, and the same unfinished
  line is kept. While the message is in progress, everything is consumed and the states are equal.
\<close>

theorem email_write_pieces:
  fixes w :: "'p writer"
  assumes "prog (w_parser w)" "email_write prog pl xs w = Some (Inr (n1, w1))" "prog (w_parser w1)"
  shows "case email_write prog pl ys w1 of
      None \<Rightarrow> email_write prog pl (xs @ ys) w = None
    | Some (Inl e) \<Rightarrow> email_write prog pl (xs @ ys) w = Some (Inl e)
    | Some (Inr (n2, w2)) \<Rightarrow> \<exists>n w'. email_write prog pl (xs @ ys) w = Some (Inr (n, w')) \<and> w_parser w' = w_parser w2 \<and> w_line w' = w_line w2
        \<and> (prog (w_parser w2) \<longrightarrow> n = int (length (xs @ ys)) \<and> w' = w2)"
proof (cases "xs = [] \<or> ys = []")
  case True
  then show ?thesis
  proof
    assume "xs = []"
    then have "w1 = w" using assms by (simp add: email_write_def)
    then show ?thesis using \<open>xs = []\<close> assms(1) email_write_scan [of prog w ys pl]
      by (cases "ys = []") (auto simp: email_write_def [of prog pl "[]"] split: option.splits sum.splits)
  next
    assume ys: "ys = []"
    show ?thesis
    proof (cases "xs = []")
      case False
      then have "n1 = int (length xs)" using email_write_scan [of prog w xs pl] assms by auto
      then show ?thesis using assms ys by (simp add: email_write_def [of prog pl "[]"])
    qed (use assms ys in \<open>auto simp: email_write_def\<close>)
  qed
next
  case False
  have x: "scan prog pl xs w = Some (Inr w1)" using email_write_scan [of prog w xs pl] assms False by auto
  have "scan prog pl (xs @ ys) w = scan prog pl ys w1" unfolding scan_append x by simp
  then show ?thesis using email_write_scan [of prog w1 ys pl] email_write_scan [of prog w "xs @ ys" pl] assms False
    by (auto split: option.splits sum.splits prod.splits)
qed

theorem email_write_pieces_witness:
  "email_write (\<lambda>_. True) (\<lambda>ls line. Some (Inr (ls @ [line]) :: nat + byte list list)) ([104, 105, CR] @ [LF, 120])
     \<lparr>w_parser = [], w_line = [], w_last = 0\<rparr>
   = Some (Inr (5, \<lparr>w_parser = [[104, 105]], w_line = [120], w_last = 120\<rparr>))"
  using email_write_pieces [of "\<lambda>_. True" "\<lparr>w_parser = [], w_line = [], w_last = 0\<rparr>"
      "\<lambda>ls line. Some (Inr (ls @ [line]) :: nat + byte list list)" "[104, 105, CR]" 3 "\<lparr>w_parser = [[104, 105]], w_line = [], w_last = CR\<rparr>" "[LF, 120]"]
  by (simp add: email_write_def write_lines.simps line_sep_def skip_sep_def CR_def LF_def)

section \<open>The parser of messages\<close>

text \<open>\<open>basic_email_parser::write\<close>: the writer over \<open>parse_line\<close>; the constructor starts with the header parser of \<open>*email\<close>.\<close>

definition email_parser_new :: "message \<Rightarrow> (email_state \<times> message) writer" where
  "email_parser_new m = \<lparr>w_parser = (email_state_new None, m), w_line = [], w_last = 0\<rparr>"

definition email_parser_write ::
  "email_env \<Rightarrow> byte list \<Rightarrow> (email_state \<times> message) writer \<Rightarrow> (mime_error + int \<times> (email_state \<times> message) writer) option" where
  "email_parser_write env = email_write (\<lambda>(st, m). email_progress st) (\<lambda>(st, m) line. parse_line env line st m)"

definition email_parser_done :: "(email_state \<times> message) writer \<Rightarrow> bool" where
  "email_parser_done w \<longleftrightarrow> \<not> email_progress (fst (w_parser w))"

lemma map_sum_eq_Inr [simp]: "map_sum f g r = Inr y \<longleftrightarrow> (\<exists>x. r = Inr x \<and> y = g x)"
  by (cases r) auto

lemma map_sum_eq_Inl [simp]: "map_sum f g r = Inl y \<longleftrightarrow> (\<exists>x. r = Inl x \<and> y = f x)"
  by (cases r) auto

text \<open>What every line keeps, writing keeps.\<close>

lemma write_lines_keeps:
  assumes "\<And>p line p'. I p \<Longrightarrow> pl p line = Some (Inr p') \<Longrightarrow> I p'"
  shows "write_lines prog pl s w = Some (Inr (n, w')) \<Longrightarrow> I (w_parser w) \<Longrightarrow> I (w_parser w')"
proof (induction "length s" arbitrary: s w rule: less_induct)
  case less
  let ?r = "dropWhile (\<lambda>c. \<not> line_sep c) s"
  show ?case
  proof (cases "?r = []")
    case True
    then show ?thesis using less.prems by (auto simp: write_lines.simps [of prog pl s w] Let_def)
  next
    case False
    obtain p where p: "pl (w_parser w) (w_line w @ takeWhile (\<lambda>c. \<not> line_sep c) s) = Some (Inr p)"
      using less.prems False by (auto simp: write_lines.simps [of prog pl s w] Let_def simp del: dropWhile_eq_Nil_conv split: option.splits sum.splits)
    have "w' = w\<lparr>w_parser := p, w_line := []\<rparr> \<or> write_lines prog pl (skip_sep LF (skip_sep CR ?r)) (w\<lparr>w_parser := p, w_line := []\<rparr>) = Some (Inr (n, w'))"
      using less.prems False p by (auto simp: write_lines.simps [of prog pl s w] Let_def simp del: dropWhile_eq_Nil_conv split: if_splits)
    moreover have "I p" using assms p less.prems(2) by blast
    ultimately show ?thesis using less.hyps [OF after_separator [OF False], of "w\<lparr>w_parser := p, w_line := []\<rparr>"] by auto
  qed
qed

lemma email_write_keeps:
  assumes "\<And>p line p'. I p \<Longrightarrow> pl p line = Some (Inr p') \<Longrightarrow> I p'"
    and "email_write prog pl s w = Some (Inr (n, w'))" "I (w_parser w)"
  shows "I (w_parser w')"
proof -
  let ?s = "if w_last w = CR \<and> hd s = LF then tl s else s" and ?w = "w\<lparr>w_last := last s\<rparr>"
  have "w' = w \<or> (\<exists>n'. write_lines prog pl ?s ?w = Some (Inr (n', w')))"
  proof (cases "\<not> prog (w_parser w) \<or> s = []")
    case False
    then obtain r where r: "write_lines prog pl ?s ?w = Some r" "map_sum id (\<lambda>(n, w''). (int (length s) - int n, w'')) r = Inr (n, w')"
      using assms(2) by (auto simp: email_write_def Let_def)
    then show ?thesis by (cases r) auto
  qed (use assms(2) in \<open>simp add: email_write_def split: if_splits\<close>)
  then show ?thesis
  proof
    assume "\<exists>n'. write_lines prog pl ?s ?w = Some (Inr (n', w'))"
    then obtain n' where "write_lines prog pl ?s ?w = Some (Inr (n', w'))" by blast
    then show ?thesis using write_lines_keeps [of I pl prog ?s ?w n' w'] assms(1,3) by auto
  qed (use assms(3) in simp)
qed

text \<open>The states of a parser without an outer boundary: no sub-part is ever opened.\<close>

fun outermost :: "email_state \<Rightarrow> bool" where
  "outermost (E_header boundary name params prog) \<longleftrightarrow> boundary = None"
| "outermost (E_payload child parent t ok sub prog) \<longleftrightarrow> parent = None \<and> sub = None"

lemma header_append_subparts: "header_append env name params m = Some (Inr m') \<Longrightarrow> m_subparts m' = m_subparts m"
  by (auto simp: header_append_def Let_def split: if_splits prod.splits)

lemma to_payload_outermost:
  "to_payload env None prog m = (st, m') \<Longrightarrow> outermost st \<and> m_subparts m' = m_subparts m"
  by (auto simp: to_payload_def with_payload_def Let_def)

lemma header_line_outermost:
  assumes "header_line env line None name params prog m = Some (Inr (taken, st, m'))"
  shows "outermost st \<and> m_subparts m' = m_subparts m"
  using assms header_append_subparts [of env name params m] to_payload_outermost [of env prog _ st m']
  by (auto simp: header_line_def Let_def split_beta dest!: sym [of "(st, m')"] split: if_splits)

lemma parse_line_outermost:
  assumes "outermost st" "parse_line env line st m = Some (Inr (st', m'))"
  shows "outermost st' \<and> m_subparts m' = m_subparts m"
proof (cases st)
  case (E_header boundary name params prog)
  then obtain taken st1 m1 where h: "header_line env line None name params prog m = Some (Inr (taken, st1, m1))"
    using assms by (auto split: option.splits sum.splits prod.splits)
  note o = header_line_outermost [OF h]
  show ?thesis
    using assms(2) o E_header assms(1) h
    by (cases st1) (auto simp: is_parent_multipart_end_def payload_output_def append_payload_def email_complete_def Let_def
        split: bool.splits if_splits prod.splits)
next
  case (E_payload child parent t ok sub prog)
  then show ?thesis using assms
    by (auto simp: is_parent_multipart_end_def payload_output_def append_payload_def email_complete_def Let_def split: if_splits prod.splits)
qed

text \<open>
  The parser of a message never makes a sub-part, whatever is written to it: the
  sub-parts of the message are those it had, and the parser stays in a state without a sub-part
  parser. (A sub-part is opened by the closing delimiter of the outer boundary only, and
  the outermost message has no outer boundary.)
\<close>

theorem email_no_subparts:
  assumes "email_parser_write env s (email_parser_new m) = Some (Inr (n, w))"
  shows "outermost (fst (w_parser w)) \<and> m_subparts (snd (w_parser w)) = m_subparts m"
proof -
  let ?I = "\<lambda>(st, m'). outermost st \<and> m_subparts m' = m_subparts m"
  have "?I p'" if "?I p" "(\<lambda>(st, m) line. parse_line env line st m) p line = Some (Inr p')" for p line p'
    using that parse_line_outermost by (auto split: prod.splits)
  then have "?I (w_parser w)"
    using assms unfolding email_parser_write_def by (rule email_write_keeps) (simp_all add: email_parser_new_def email_state_new_def)
  then show ?thesis by (simp add: split_beta)
qed

definition sample_env :: email_env where
  "sample_env = \<lparr>env_fuel = 0, env_iequals = ascii_iequal, env_istarts_with = (\<lambda>s p. ascii_iequal (take (length p) s) p),
     env_to_utf = (\<lambda>s _. Some s)\<rparr>"

theorem email_no_subparts_witness:
  "\<exists>n w. email_parser_write sample_env [65, 58, 98, CR, LF, CR, LF, 120, LF] (email_parser_new message_new) = Some (Inr (n, w)) \<and> m_subparts (snd (w_parser w)) = []"
proof -
  have "case email_parser_write sample_env [65, 58, 98, CR, LF, CR, LF, 120, LF] (email_parser_new message_new) of Some (Inr _) \<Rightarrow> True | _ \<Rightarrow> False"
    by code_simp
  then obtain n w where "email_parser_write sample_env [65, 58, 98, CR, LF, CR, LF, 120, LF] (email_parser_new message_new) = Some (Inr (n, w))"
    by (auto split: option.splits sum.splits)
  then show ?thesis using email_no_subparts [of sample_env _ message_new] by (auto simp: message_new_def)
qed

section \<open>Lines\<close>

text \<open>The parser on a list of lines, and a text of lines.\<close>

fun run_lines :: "('p \<Rightarrow> bool) \<Rightarrow> ('p \<Rightarrow> byte list \<Rightarrow> ('e + 'p) option) \<Rightarrow> byte list list \<Rightarrow> 'p \<Rightarrow> ('e + 'p) option" where
  "run_lines prog pl [] p = Some (Inr p)"
| "run_lines prog pl (l # ls) p =
     (if \<not> prog p then Some (Inr p)
      else case pl p l of None \<Rightarrow> None | Some (Inl e) \<Rightarrow> Some (Inl e) | Some (Inr p') \<Rightarrow> run_lines prog pl ls p')"

definition crlf_text :: "byte list list \<Rightarrow> byte list" where
  "crlf_text ls = concat (map (\<lambda>l. l @ [CR, LF]) ls)"

definition is_line :: "byte list \<Rightarrow> bool" where
  "is_line l \<longleftrightarrow> list_all (\<lambda>c. \<not> line_sep c) l"

lemma CR_LF: "CR \<noteq> LF"
  by (simp add: CR_def LF_def)

lemma scan_lines:
  "list_all is_line ls \<Longrightarrow> w_line w = [] \<Longrightarrow> map_option (map_sum id w_parser) (scan prog pl (crlf_text ls) w) = run_lines prog pl ls (w_parser w)"
proof (induction ls arbitrary: w)
  case (Cons l ls)
  have ct: "crlf_text (l # ls) = l @ CR # LF # crlf_text ls" by (simp add: crlf_text_def)
  let ?w = "w\<lparr>w_line := l, w_last := (if l = [] then w_last w else last l)\<rparr>"
  show ?case
  proof (cases "prog (w_parser w)")
    case False
    then show ?thesis unfolding ct by (cases l) simp_all
  next
    case True
    have "scan prog pl (crlf_text (l # ls)) w = scan prog pl (CR # LF # crlf_text ls) ?w"
      unfolding ct using scan_segment [of l prog w pl] Cons.prems True by (simp add: is_line_def)
    also have "\<dots> = (case pl (w_parser w) l of None \<Rightarrow> None | Some (Inl e) \<Rightarrow> Some (Inl e)
        | Some (Inr p) \<Rightarrow> scan prog pl (LF # crlf_text ls) (?w\<lparr>w_parser := p, w_line := [], w_last := CR\<rparr>))"
      using True CR_LF by (simp add: line_sep_def)
    finally have sc: "scan prog pl (crlf_text (l # ls)) w = \<dots>" .
    have IH: "map_option (map_sum id w_parser) (scan prog pl (LF # crlf_text ls) (?w\<lparr>w_parser := p, w_line := [], w_last := CR\<rparr>)) = run_lines prog pl ls p" for p
    proof (cases "prog p")
      case True
      then show ?thesis using Cons.IH [of "?w\<lparr>w_parser := p, w_line := [], w_last := LF\<rparr>"] Cons.prems by (simp add: id_def)
    next
      case False
      then show ?thesis by (cases ls) simp_all
    qed
    show ?thesis
    proof (cases "\<exists>p. pl (w_parser w) l = Some (Inr p)")
      case True
      then obtain p where p: "pl (w_parser w) l = Some (Inr p)" by blast
      show ?thesis unfolding sc p using IH [of p] \<open>prog (w_parser w)\<close> p by (simp add: id_def del: scan.simps)
    next
      case False
      then show ?thesis unfolding sc using \<open>prog (w_parser w)\<close> by (auto split: option.splits sum.splits)
    qed
  qed
qed (simp add: crlf_text_def)

lemma email_write_lines:
  fixes w :: "'p writer"
  assumes "prog (w_parser w)" "list_all is_line ls" "w_line w = []"
  shows "map_option (map_sum id (\<lambda>(n, w'). w_parser w')) (email_write prog pl (crlf_text ls) w) = run_lines prog pl ls (w_parser w)"
proof (cases ls)
  case Nil
  then show ?thesis using assms by (simp add: email_write_def crlf_text_def)
next
  case (Cons l ls')
  then have "crlf_text ls \<noteq> []" by (simp add: crlf_text_def)
  then show ?thesis using email_write_scan [of prog w "crlf_text ls" pl] scan_lines [of ls w prog pl] assms
    by (auto split: option.splits sum.splits prod.splits)
qed

text \<open>A continuation line, and the lines of a header field.\<close>

lemma header_continuation:
  assumes "l \<noteq> []" "isspace (hd l)" "params \<noteq> []"
  shows "parse_line env l (E_header b name params prog) m = Some (Inr (E_header b name (params @ 32 # dropWhile isspace (tl l)) prog, m))"
proof -
  have "l \<noteq> [46]" using assms(2) by (auto simp: isspace_def)
  then show ?thesis using assms by (simp add: header_line_def Let_def drop_Suc)
qed

lemma header_continuations:
  "list_all (\<lambda>l. l \<noteq> [] \<and> isspace (hd l)) cs \<Longrightarrow> params \<noteq> [] \<Longrightarrow>
   run_lines (\<lambda>(st, m). email_progress st) (\<lambda>(st, m) line. parse_line env line st m) (cs @ ls) (E_header b name params True, m)
   = run_lines (\<lambda>(st, m). email_progress st) (\<lambda>(st, m) line. parse_line env line st m) ls
       (E_header b name (params @ concat (map (\<lambda>l. 32 # dropWhile isspace (tl l)) cs)) True, m)"
  by (induction cs arbitrary: params) (simp_all add: header_continuation del: parse_line.simps)

lemma header_field_run:
  assumes "name \<noteq> []" "\<not> isspace (hd name)" "58 \<notin> set name" "is_line name" "is_line v" "dropWhile isspace v \<noteq> []"
    and "list_all is_line cs" "list_all (\<lambda>l. l \<noteq> [] \<and> isspace (hd l)) cs"
  shows "map_option (map_sum id (\<lambda>(n, w). w_parser w)) (email_parser_write env (crlf_text ((name @ 58 # v) # cs @ [[]])) (email_parser_new m))
    = map_option (map_sum id (to_payload env None True))
        (header_append env name (dropWhile isspace v @ concat (map (\<lambda>l. 32 # dropWhile isspace (tl l)) cs)) m)"
proof -
  let ?run = "run_lines (\<lambda>(st, m). email_progress st) (\<lambda>(st, m) line. parse_line env line st m)"
  let ?ps = "dropWhile isspace v @ concat (map (\<lambda>l. 32 # dropWhile isspace (tl l)) cs)"
  have c: "\<forall>x \<in> set name. x \<noteq> 58" using assms(3) by auto
  have "takeWhile (\<lambda>c. c \<noteq> 58) (name @ 58 # v) = name" "dropWhile (\<lambda>c. c \<noteq> 58) (name @ 58 # v) = 58 # v"
    using c by (simp_all add: takeWhile_append2 dropWhile_append2)
  then have h: "header_line env (name @ 58 # v) None [] [] True m = Some (Inr (True, E_header None name (dropWhile isspace v) True, m))"
    using assms(1,2) by (simp add: header_line_def header_append_def Let_def append_eq_Cons_conv)
  have "is_line (name @ 58 # v)" using assms(4,5) by (simp add: is_line_def line_sep_def CR_def LF_def)
  then have "map_option (map_sum id (\<lambda>(n, w). w_parser w)) (email_parser_write env (crlf_text ((name @ 58 # v) # cs @ [[]])) (email_parser_new m))
      = ?run ((name @ 58 # v) # cs @ [[]]) (email_state_new None, m)"
    using assms(7) unfolding email_parser_write_def
    by (subst email_write_lines) (simp_all add: email_parser_new_def email_state_new_def is_line_def)
  also have "\<dots> = ?run (cs @ [[]]) (E_header None name (dropWhile isspace v) True, m)" using h by (simp add: email_state_new_def)
  also have "\<dots> = ?run [[]] (E_header None name ?ps True, m)" by (rule header_continuations [OF assms(8,6)])
  also have "\<dots> = map_option (map_sum id (to_payload env None True)) (header_append env name ?ps m)"
    by (cases "header_append env name ?ps m") (auto simp: header_line_def Let_def split: sum.splits prod.splits option.splits)
  finally show ?thesis .
qed

text \<open>
  (C13) A header field on several lines, written with its line breaks to a new parser and followed by
  the empty line, is decoded as a whole: the value without its leading white space, and for each
  continuation line a blank and the line without its leading white space. The parser is then the
  payload parser that the headers select; an error of the decoder is the error of \<open>write\<close>.
\<close>

theorem email_header_unfold:
  assumes "name \<noteq> []" "\<not> isspace (hd name)" "58 \<notin> set name" "is_line name" "is_line v" "dropWhile isspace v \<noteq> []"
    and "list_all is_line cs" "list_all (\<lambda>l. l \<noteq> [] \<and> isspace (hd l)) cs"
  shows "map_option (map_sum id (\<lambda>(n, w). w_parser w)) (email_parser_write env (crlf_text ((name @ 58 # v) # cs @ [[]])) (email_parser_new m))
    = map_option (map_sum id (to_payload env None True))
        (header_append env name (dropWhile isspace v @ concat (map (\<lambda>l. 32 # dropWhile isspace (tl l)) cs)) m)"
  by (rule header_field_run [OF assms])

theorem email_header_unfold_witness:
  "map_option (map_sum id (\<lambda>(n, w). map (map_prod id d_data) (m_headers (snd (w_parser w)))))
     (email_parser_write sample_env (crlf_text [[65, 58, 32, 98], [9, 32, 99], []]) (email_parser_new message_new))
   = Some (Inr [([65], [98, 32, 99])])"
proof -
  have "map_option (map_sum id (\<lambda>(n, w). w_parser w)) (email_parser_write sample_env (crlf_text (([65] @ 58 # [32, 98]) # [[9, 32, 99]] @ [[]])) (email_parser_new message_new))
    = map_option (map_sum id (to_payload sample_env None True))
        (header_append sample_env [65] (dropWhile isspace [32, 98] @ concat (map (\<lambda>l. 32 # dropWhile isspace (tl l)) [[9, 32, 99]])) message_new)"
    by (rule email_header_unfold) (simp_all add: isspace_def is_line_def line_sep_def CR_def LF_def)
  moreover have "map_option (map_sum id (\<lambda>x. map (map_prod id d_data) (m_headers (snd (to_payload sample_env None True x)))))
      (header_append sample_env [65] (dropWhile isspace [32, 98] @ concat (map (\<lambda>l. 32 # dropWhile isspace (tl l)) [[9, 32, 99]])) message_new) = Some (Inr [([65], [98, 32, 99])])"
    by code_simp
  ultimately show ?thesis by (auto simp: option.map_comp map_option_case split: option.splits)
qed

text \<open>Encoded words as lines, and the lines joined by blanks as the parser joins them.\<close>

lemma payload_line: "payload_char c \<or> charset_char c \<Longrightarrow> \<not> line_sep c"
  by (auto simp: payload_char_def charset_char_def line_sep_def ctype_defs CR_def LF_def)

lemma encoded_word_line: "charset_ok charset \<Longrightarrow> is_line (encoded_word from_utf charset s)"
proof -
  assume cs: "charset_ok charset"
  obtain mx where "mx \<noteq> 0" "base64_encode from_utf s charset = base64_text base64_std nl_none mx 0 (from_utf s charset)"
    by (rule base64_encode_text)
  then obtain p n where "base64_encode from_utf s charset = p @ replicate n 61" "list_all payload_char p"
    using base64_text_payload [of mx 0 "from_utf s charset"] by metis
  then show ?thesis using cs payload_line
    by (auto simp: encoded_word_def is_line_def list_all_iff charset_ok_def line_sep_def CR_def LF_def split: if_splits)
qed

definition word_lines :: "(byte list \<Rightarrow> byte list \<Rightarrow> byte list) \<Rightarrow> byte list \<Rightarrow> byte list list \<Rightarrow> byte list \<Rightarrow> byte list list" where
  "word_lines from_utf charset ps rest =
     map (encoded_word from_utf charset) ps @ [if rest \<noteq> [] then encoded_word from_utf charset rest else []]"

lemma word_lines_text:
  "concat (map (\<lambda>p. encoded_word from_utf charset p @ [13, 10, 9]) ps) @ (if rest \<noteq> [] then encoded_word from_utf charset rest else []) @ [CR, LF]
   = (let ws = word_lines from_utf charset ps rest in crlf_text (hd ws # map (\<lambda>w. 9 # w) (tl ws)))"
proof (induction ps)
  case (Cons p ps)
  obtain w ws where w: "word_lines from_utf charset ps rest = w # ws" by (cases "word_lines from_utf charset ps rest") (simp_all add: word_lines_def)
  then have "word_lines from_utf charset (p # ps) rest = encoded_word from_utf charset p # w # ws" by (simp add: word_lines_def)
  then show ?case using Cons w by (simp add: crlf_text_def CR_def LF_def)
qed (simp add: word_lines_def crlf_text_def)

lemma word_lines_joined:
  "(let ws = word_lines from_utf charset ps rest in hd ws @ concat (map (\<lambda>w. 32 # w) (tl ws))) = words from_utf charset ps rest"
proof (induction ps)
  case (Cons p ps)
  obtain w ws where w: "word_lines from_utf charset ps rest = w # ws" by (cases "word_lines from_utf charset ps rest") (simp_all add: word_lines_def)
  then have "word_lines from_utf charset (p # ps) rest = encoded_word from_utf charset p # w # ws" by (simp add: word_lines_def)
  then show ?case using Cons w by (simp add: words_def)
qed (simp add: word_lines_def words_def)

lemma word_lines_ok:
  assumes "charset_ok charset"
  shows "list_all (\<lambda>w. is_line w \<and> dropWhile isspace w = w) (word_lines from_utf charset ps rest)"
proof -
  have "dropWhile isspace (encoded_word from_utf charset s) = encoded_word from_utf charset s" for s by (simp add: encoded_word_def isspace_def)
  then show ?thesis using encoded_word_line [OF assms] by (simp add: word_lines_def list_all_iff is_line_def)
qed

lemma word_header_run:
  assumes "charset_ok charset" "is_name key" "ps \<noteq> [] \<or> rest \<noteq> []"
  shows "map_option (map_sum id (\<lambda>(n, w). w_parser w))
      (email_parser_write env (key @ [58, 32] @ concat (map (\<lambda>p. encoded_word from_utf charset p @ [13, 10, 9]) ps)
         @ (if rest \<noteq> [] then encoded_word from_utf charset rest else []) @ [CR, LF, CR, LF]) (email_parser_new m))
    = map_option (map_sum id (to_payload env None True)) (header_append env key (words from_utf charset ps rest) m)"
proof -
  obtain w ws where w: "word_lines from_utf charset ps rest = w # ws" by (cases "word_lines from_utf charset ps rest") (simp_all add: word_lines_def)
  have "w \<noteq> []" using w assms(3) by (cases ps) (auto simp: word_lines_def encoded_word_def)
  moreover have ok: "is_line w" "dropWhile isspace w = w" "list_all (\<lambda>w. is_line w \<and> dropWhile isspace w = w) ws"
    using word_lines_ok [OF assms(1), of from_utf ps rest] w by simp_all
  moreover have "isspace 32" "isspace 9" "\<not> line_sep 32" "\<not> line_sep 9" by (simp_all add: isspace_def line_sep_def CR_def LF_def)
  moreover have k: "key \<noteq> []" "list_all (\<lambda>c. c \<noteq> 42 \<and> c \<noteq> 61) key \<and> \<not> separator (hd key)" using is_name_chars [OF assms(2)] by auto
  moreover have "58 \<notin> set key" "is_line key" using assms(2) by (auto simp: is_name_def is_line_def list_all_iff line_sep_def ctype_defs CR_def LF_def)
  ultimately have run: "map_option (map_sum id (\<lambda>(n, w). w_parser w)) (email_parser_write env (crlf_text ((key @ 58 # 32 # w) # map (\<lambda>w. 9 # w) ws @ [[]])) (email_parser_new m))
    = map_option (map_sum id (to_payload env None True))
        (header_append env key (dropWhile isspace (32 # w) @ concat (map (\<lambda>l. 32 # dropWhile isspace (tl l)) (map (\<lambda>w. 9 # w) ws))) m)"
    by (intro header_field_run) (auto simp: separator_def is_line_def list_all_iff)
  have "dropWhile isspace (32 # w) @ concat (map (\<lambda>l. 32 # dropWhile isspace (tl l)) (map (\<lambda>w. 9 # w) ws)) = w @ concat (map (\<lambda>w. 32 # w) ws)"
    using ok by (auto simp: isspace_def comp_def list_all_iff intro!: arg_cong [of _ _ concat])
  also have "\<dots> = words from_utf charset ps rest" using word_lines_joined [of from_utf charset ps rest] w by simp
  finally have p: "dropWhile isspace (32 # w) @ concat (map (\<lambda>l. 32 # dropWhile isspace (tl l)) (map (\<lambda>w. 9 # w) ws)) = words from_utf charset ps rest" .
  have "crlf_text ((key @ 58 # 32 # w) # map (\<lambda>w. 9 # w) ws @ [[]]) = key @ [58, 32] @ crlf_text (w # map (\<lambda>w. 9 # w) ws) @ [CR, LF]"
    by (simp add: crlf_text_def)
  also have "crlf_text (w # map (\<lambda>w. 9 # w) ws) = concat (map (\<lambda>p. encoded_word from_utf charset p @ [13, 10, 9]) ps)
      @ (if rest \<noteq> [] then encoded_word from_utf charset rest else []) @ [CR, LF]"
    using word_lines_text [of from_utf charset ps rest] w by simp
  finally show ?thesis using run unfolding p by simp
qed

lemma to_payload_headers: "m_headers (snd (to_payload env boundary prog m)) = m_headers m"
  by (simp add: to_payload_def with_payload_def Let_def)

lemma parser_result:
  assumes "map_option (map_sum id (\<lambda>(n, w). w_parser w)) r = Some (Inr p)"
  obtains n w where "r = Some (Inr (n, w))" "w_parser w = p"
  using assms that by (cases r) (auto split: sum.splits simp: map_sum_def elim!: sum.exhaust)

text \<open>
  (C12) A header value that is written as encoded words (RFC 2047), whatever its length, comes back
  when the field is written to a new parser: the value is cut between characters only, every piece is a
  word of its own on a line of its own, and the parser joins the lines and converts the words together. The
  value is in UTF-8 and consists of characters of the charset; conversions need to be inverse on pieces of
  whole characters only. One blank is added at the end of the value when the last full piece ends with the
  text, because the encoder breaks the line behind it. The field is not a \<open>Content-\<close> field.
\<close>

theorem mime_word_roundtrip:
  assumes "utf_conversion from_utf (env_to_utf env) trail_length charset is_char" "charset_ok charset"
    and "list_all is_char cs" "concat cs \<noteq> []"
    and "\<not> (is_ascii (concat cs) \<and> \<not> isspace (hd (concat cs)) \<and> \<not> isspace (last (concat cs)))"
    and "is_name key" "\<not> env_istarts_with env key (bytes_of ''Content-'')"
  shows "\<exists>txt cnt pieces rest. encode_value trail_length from_utf charset key (concat cs) = Inr (txt, cnt)
    \<and> cut_pieces trail_length [] (concat cs) = Inr (map concat pieces, concat rest) \<and> concat pieces @ rest = cs
    \<and> map_option (map_sum id (\<lambda>(n, w). m_headers (snd (w_parser w)))) (email_parser_write env (txt @ [CR, LF, CR, LF]) (email_parser_new message_new))
      = Some (Inr [(key, \<lparr>d_data = concat cs @ (if rest = [] then [32] else []), d_params = []\<rparr>)])"
proof -
  obtain sss rs where c: "cut_pieces trail_length [] (concat cs) = Inr (map concat sss, concat rs)"
      "list_all (list_all is_char) sss" "list_all is_char rs" "concat sss @ rs = cs"
    using utf_conversion.cut_chars [OF assms(1), of "[]" cs] assms(3) by auto
  have rs: "concat rs = [] \<longleftrightarrow> rs = []"
    using c(3) utf_conversion.char_length [OF assms(1)] by (cases rs) auto
  let ?txt = "key @ [58, 32] @ concat (map (\<lambda>p. encoded_word from_utf charset p @ [13, 10, 9]) (map concat sss))
      @ (if concat rs \<noteq> [] then encoded_word from_utf charset (concat rs) else [])"
  have enc: "encode_value trail_length from_utf charset key (concat cs) = Inr (?txt, int (length key) + 2)"
    unfolding encode_value_def Let_def if_not_P [OF assms(5)] rfc2047_encode_def c(1) using assms(4,6) by (simp del: concat_eq_Nil_conv)
  have "rfc2047_decode (env_to_utf env) (words from_utf charset (map concat sss) (concat rs)) = Some (concat cs @ (if rs = [] then [32] else []))"
    using utf_conversion.encode_decode [OF assms(1,2) c(2,3)] assms(4) c(4) rs by simp
  moreover have "words from_utf charset (map concat sss) (concat rs) \<noteq> []" "map concat sss \<noteq> [] \<or> concat rs \<noteq> []"
    using assms(4) c(4) by (auto simp: words_def encoded_word_def)
  ultimately have "map_option (map_sum id (\<lambda>(n, w). w_parser w)) (email_parser_write env (?txt @ [CR, LF, CR, LF]) (email_parser_new message_new))
      = Some (Inr (to_payload env None True (Message [(key, \<lparr>d_data = concat cs @ (if rs = [] then [32] else []), d_params = []\<rparr>)] None None [])))"
    using word_header_run [OF assms(2,6), of "map concat sss" "concat rs" env from_utf message_new] assms(6,7)
    by (simp add: header_append_def message_new_def hdr_index_def sm_find_def mm_emplace_hint_def decode_mimeheader_def disp_append_def
        disposition_new_def is_name_def del: concat_eq_Nil_conv)
  then obtain n w where w: "email_parser_write env (?txt @ [CR, LF, CR, LF]) (email_parser_new message_new) = Some (Inr (n, w))"
      "w_parser w = to_payload env None True (Message [(key, \<lparr>d_data = concat cs @ (if rs = [] then [32] else []), d_params = []\<rparr>)] None None [])"
    by (rule parser_result)
  have "m_headers (snd (w_parser w)) = [(key, \<lparr>d_data = concat cs @ (if rs = [] then [32] else []), d_params = []\<rparr>)]"
    unfolding w(2) to_payload_headers by simp
  then have "map_option (map_sum id (\<lambda>(n, w). m_headers (snd (w_parser w)))) (email_parser_write env (?txt @ [CR, LF, CR, LF]) (email_parser_new message_new))
      = Some (Inr [(key, \<lparr>d_data = concat cs @ (if rs = [] then [32] else []), d_params = []\<rparr>)])"
    unfolding w(1) by simp
  then show ?thesis using enc c(1,4) by blast
qed


text \<open>Fifteen times a character of three bytes: a full line and a rest; with fourteen the line ends the text.\<close>

theorem mime_word_roundtrip_witness:
  "\<exists>t15 t14 n15 n14. encode_value utf8_trail_length (\<lambda>s cs. s) utf8_name (bytes_of ''Subject'') (concat (replicate 15 [0xE3, 0x81, 0x82])) = Inr (t15, n15)
    \<and> map_option (map_sum id (\<lambda>(n, w). m_headers (snd (w_parser w)))) (email_parser_write sample_env (t15 @ [CR, LF, CR, LF]) (email_parser_new message_new))
      = Some (Inr [(bytes_of ''Subject'', \<lparr>d_data = concat (replicate 15 [0xE3, 0x81, 0x82]), d_params = []\<rparr>)])
    \<and> encode_value utf8_trail_length (\<lambda>s cs. s) utf8_name (bytes_of ''Subject'') (concat (replicate 14 [0xE3, 0x81, 0x82])) = Inr (t14, n14)
    \<and> map_option (map_sum id (\<lambda>(n, w). m_headers (snd (w_parser w)))) (email_parser_write sample_env (t14 @ [CR, LF, CR, LF]) (email_parser_new message_new))
      = Some (Inr [(bytes_of ''Subject'', \<lparr>d_data = concat (replicate 14 [0xE3, 0x81, 0x82]) @ [32], d_params = []\<rparr>)])"
proof -
  let ?c = "[0xE3, 0x81, 0x82 :: byte]"
  have u: "utf_conversion (\<lambda>s cs. s) (env_to_utf sample_env) utf8_trail_length utf8_name utf8_char"
  proof -
    have "env_to_utf sample_env = (\<lambda>s cs. Some s)" by (simp add: sample_env_def fun_eq_iff)
    then show ?thesis using utf8.utf_conversion_axioms by simp
  qed
  have k: "charset_ok utf8_name" "is_name (bytes_of ''Subject'')" "\<not> env_istarts_with sample_env (bytes_of ''Subject'') (bytes_of ''Content-'')"
    by code_simp+
  have a15: "list_all utf8_char (replicate 15 ?c)" "concat (replicate 15 ?c) \<noteq> []"
    "\<not> (is_ascii (concat (replicate 15 ?c)) \<and> \<not> isspace (hd (concat (replicate 15 ?c))) \<and> \<not> isspace (last (concat (replicate 15 ?c))))"
    "cut_pieces utf8_trail_length [] (concat (replicate 15 ?c)) = Inr ([concat (replicate 14 ?c)], ?c)"
    by code_simp+
  have a14: "list_all utf8_char (replicate 14 ?c)" "concat (replicate 14 ?c) \<noteq> []"
    "\<not> (is_ascii (concat (replicate 14 ?c)) \<and> \<not> isspace (hd (concat (replicate 14 ?c))) \<and> \<not> isspace (last (concat (replicate 14 ?c))))"
    "cut_pieces utf8_trail_length [] (concat (replicate 14 ?c)) = Inr ([concat (replicate 14 ?c)], [])"
    by code_simp+
  obtain t15 n15 p15 r15 where 15: "encode_value utf8_trail_length (\<lambda>s cs. s) utf8_name (bytes_of ''Subject'') (concat (replicate 15 ?c)) = Inr (t15, n15)"
      "concat r15 = ?c"
      "map_option (map_sum id (\<lambda>(n, w). m_headers (snd (w_parser w)))) (email_parser_write sample_env (t15 @ [CR, LF, CR, LF]) (email_parser_new message_new))
        = Some (Inr [(bytes_of ''Subject'', \<lparr>d_data = concat (replicate 15 ?c) @ (if r15 = [] then [32] else []), d_params = []\<rparr>)])"
    using mime_word_roundtrip [OF u k(1) a15(1-3) k(2,3)] unfolding a15(4) sum.inject prod.inject by metis
  obtain t14 n14 p14 r14 where 14: "encode_value utf8_trail_length (\<lambda>s cs. s) utf8_name (bytes_of ''Subject'') (concat (replicate 14 ?c)) = Inr (t14, n14)"
      "concat r14 = []" "concat p14 @ r14 = replicate 14 ?c"
      "map_option (map_sum id (\<lambda>(n, w). m_headers (snd (w_parser w)))) (email_parser_write sample_env (t14 @ [CR, LF, CR, LF]) (email_parser_new message_new))
        = Some (Inr [(bytes_of ''Subject'', \<lparr>d_data = concat (replicate 14 ?c) @ (if r14 = [] then [32] else []), d_params = []\<rparr>)])"
    using mime_word_roundtrip [OF u k(1) a14(1-3) k(2,3)] unfolding a14(4) sum.inject prod.inject by metis
  have "r15 \<noteq> []" using 15(2) by auto
  moreover have "r14 = []"
  proof (cases r14)
    case (Cons x xs)
    then have "x \<in> set (replicate 14 ?c)" using 14(3) by (metis in_set_conv_decomp)
    then show ?thesis using 14(2) Cons by simp
  qed simp
  ultimately show ?thesis using 15(1,3) 14(1,4) by (intro exI conjI) simp_all
qed

end
