(* ===== verification/Email_Generator.thy ===== *)
theory Email_Generator
  imports Email_Parser
begin

text \<open>
  The generator of messages (\<^verbatim>\<open>email/email_generator.ipp\<close>): each call of \<open>generate\<close> writes a header field, a
  piece of the payload or a delimiter, and \<open>read\<close> hands the text out in buffers of any size. The conversion of
  a text payload by the code converter is a parameter; other payloads are read as they are.
\<close>

section \<open>States\<close>

record gen_env =
  ge_trail_length :: "byte \<Rightarrow> int"
  ge_from_utf :: "byte list \<Rightarrow> byte list \<Rightarrow> byte list"
  ge_text_input :: "byte list \<Rightarrow> byte list \<Rightarrow> byte list"
  ge_iequals :: name_eq
  ge_istarts_with :: name_eq

text \<open>
  \<open>generator_impl\<close> with its variant: the position in the headers and the boundary; or the boundaries, the rest of
  the input with its \<open>good\<close> flag, the text mode, the position in the sub-parts and the generator of a sub-part. The last
  field of both is \<open>in_progress\<close>.
\<close>

datatype email_gen =
    G_header message nat "byte list option" bool
  | G_payload message "byte list option" "byte list option" "byte list" bool bool nat "email_gen option" bool

fun gen_progress :: "email_gen \<Rightarrow> bool" where
  "gen_progress (G_header m it boundary prog) = prog"
| "gen_progress (G_payload m child parent inp good text it sub prog) = prog"

definition gen_new :: "message \<Rightarrow> email_gen" where
  "gen_new m = G_header m 0 None True"

definition payload_bytes :: "message \<Rightarrow> byte list" where
  "payload_bytes m = (case m_payload m of None \<Rightarrow> [] | Some b \<Rightarrow> b)"

definition gen_to_payload :: "gen_env \<Rightarrow> message \<Rightarrow> byte list option \<Rightarrow> bool \<Rightarrow> email_gen" where
  "gen_to_payload env m boundary prog =
     (let p = get_encoding_params (ge_iequals env) (ge_istarts_with env) (m_headers m)
      in if ep_text_mode p
         then G_payload m (ep_boundary p) boundary (ge_text_input env (ep_charset p) (payload_bytes m)) True True 0 None prog
         else G_payload m (ep_boundary p) boundary (payload_bytes m) True False 0 None prog)"

section \<open>Generation\<close>

text \<open>
  One read from the payload: a line without its end, or at most 4096 bytes. \<open>None\<close> is a read that gets nothing. The flag
  tells whether the stream is still good.
\<close>

definition read_piece :: "bool \<Rightarrow> byte list \<Rightarrow> (byte list \<times> byte list \<times> bool) option" where
  "read_piece text inp =
     (if inp = [] then None
      else if text then
        let r = dropWhile (\<lambda>c. c \<noteq> LF) inp in Some (takeWhile (\<lambda>c. c \<noteq> LF) inp, drop 1 r, r \<noteq> [])
      else Some (take 4096 inp, drop 4096 inp, 4096 \<le> length inp))"

text \<open>Behind the payload: the next sub-part, or the end.\<close>

definition gen_tail ::
  "message \<Rightarrow> byte list option \<Rightarrow> byte list option \<Rightarrow> byte list \<Rightarrow> bool \<Rightarrow> nat \<Rightarrow> email_gen option \<Rightarrow> bool \<Rightarrow> email_gen \<times> byte list" where
  "gen_tail m child parent inp text it sub prog =
     (case child of
        Some c \<Rightarrow>
          if it < length (m_subparts m)
          then (G_payload m child parent inp False text (Suc it) (Some (gen_new (m_subparts m ! it))) prog, [45, 45] @ c @ [LF, LF])
          else (G_payload m child parent inp False text it sub False,
                case parent of Some p \<Rightarrow> [45, 45] @ p @ [45, 45, CR, LF] | None \<Rightarrow> [CR, LF, 46, CR, LF])
      | None \<Rightarrow> (G_payload m child parent inp False text it sub False,
                 case parent of Some p \<Rightarrow> [45, 45] @ p @ [45, 45, CR, LF] | None \<Rightarrow> [CR, LF, 46, CR, LF]))"

text \<open>
  \<open>generate\<close>: the loop over the variant runs again only behind a read that gets nothing, which
  leaves the stream not good, so that the next round goes on behind the payload.
\<close>

fun generate :: "gen_env \<Rightarrow> email_gen \<Rightarrow> mime_error + email_gen \<times> byte list" where
  "generate env (G_header m it boundary prog) =
     (if it = length (m_headers m) then Inr (gen_to_payload env m boundary prog, [CR, LF])
      else let (name, d) = m_headers m ! it
           in map_sum id (\<lambda>out. (G_header m (Suc it) boundary prog, out @ [CR, LF]))
                (encode_mimeheader (ge_trail_length env) (ge_from_utf env) (bytes_of ''UTF-8'') name (d_data d) (d_params d)))"
| "generate env (G_payload m child parent inp good text it sub prog) =
     (case sub of
        Some g \<Rightarrow>
          if gen_progress g then
            map_sum id (\<lambda>(g', out). (G_payload m child parent inp good text it (Some g') prog, out)) (generate env g)
          else (case (if good then read_piece text inp else None) of
                  Some (out, inp', good') \<Rightarrow> Inr (G_payload m child parent inp' good' text it sub prog, out)
                | None \<Rightarrow> Inr (gen_tail m child parent inp text it sub prog))
      | None \<Rightarrow> (case (if good then read_piece text inp else None) of
                  Some (out, inp', good') \<Rightarrow> Inr (G_payload m child parent inp' good' text it sub prog, out)
                | None \<Rightarrow> Inr (gen_tail m child parent inp text it sub prog)))"

section \<open>Reading\<close>

text \<open>
  \<open>read\<close>: the loop with the number of bytes that still fit and what was copied. It may go on for ever when
  \<open>generate\<close> does not come to an end.
\<close>

record gen_reader =
  gr_gen :: email_gen
  gr_buf :: "byte list"

partial_function (option) read_loop ::
  "gen_env \<Rightarrow> nat \<Rightarrow> byte list \<Rightarrow> gen_reader \<Rightarrow> (mime_error + byte list \<times> gen_reader) option" where
  "read_loop env rest acc r =
     (if gen_progress (gr_gen r) \<and> 0 < rest then
        (case (if gr_buf r = [] then generate env (gr_gen r) else Inr (gr_gen r, gr_buf r)) of
           Inl e \<Rightarrow> Some (Inl e)
         | Inr (g, buf) \<Rightarrow>
             let len = min (length buf) rest
             in read_loop env (rest - len) (acc @ take len buf) \<lparr>gr_gen = g, gr_buf = drop len buf\<rparr>)
      else Some (Inr (acc, r)))"

declare read_loop.simps [code]

definition email_generator_new :: "message \<Rightarrow> gen_reader" where
  "email_generator_new m = \<lparr>gr_gen = gen_new m, gr_buf = []\<rparr>"

definition email_generator_done :: "gen_reader \<Rightarrow> bool" where
  "email_generator_done r \<longleftrightarrow> \<not> gen_progress (gr_gen r)"

text \<open>\<open>read\<close>: what was copied (its length is the result), or \<open>EOF\<close>.\<close>

definition email_read :: "gen_env \<Rightarrow> int \<Rightarrow> gen_reader \<Rightarrow> (mime_error + byte list option \<times> gen_reader) option" where
  "email_read env n r =
     (if \<not> gen_progress (gr_gen r) \<or> n \<le> 0 then Some (Inr (None, r))
      else map_option (map_sum id (\<lambda>(out, r'). (Some out, r'))) (read_loop env (nat n) [] r))"

section \<open>The text of a message\<close>

text \<open>The reference: header fields, the payload, the sub-parts behind their delimiters, and the end.\<close>

definition header_text :: "gen_env \<Rightarrow> byte list \<times> disposition \<Rightarrow> mime_error + byte list" where
  "header_text env h =
     map_sum id (\<lambda>out. out @ [CR, LF])
       (encode_mimeheader (ge_trail_length env) (ge_from_utf env) (bytes_of ''UTF-8'') (fst h) (d_data (snd h)) (d_params (snd h)))"

fun headers_text :: "gen_env \<Rightarrow> headers \<Rightarrow> mime_error + byte list" where
  "headers_text env [] = Inr []"
| "headers_text env (h # hs) =
     (case header_text env h of Inl e \<Rightarrow> Inl e | Inr t \<Rightarrow> map_sum id (\<lambda>t'. t @ t') (headers_text env hs))"

definition body_text :: "gen_env \<Rightarrow> message \<Rightarrow> byte list" where
  "body_text env m =
     (let p = get_encoding_params (ge_iequals env) (ge_istarts_with env) (m_headers m)
      in if ep_text_mode p then filter (\<lambda>c. c \<noteq> LF) (ge_text_input env (ep_charset p) (payload_bytes m)) else payload_bytes m)"

fun parts_text :: "byte list \<Rightarrow> (mime_error + byte list) list \<Rightarrow> mime_error + byte list" where
  "parts_text c [] = Inr []"
| "parts_text c (r # rs) =
     (case r of Inl e \<Rightarrow> Inl e | Inr t \<Rightarrow> map_sum id (\<lambda>t'. [45, 45] @ c @ [LF, LF] @ t @ t') (parts_text c rs))"

definition mail_end :: "byte list" where
  "mail_end = [CR, LF, 46, CR, LF]"

fun mail_text :: "gen_env \<Rightarrow> message \<Rightarrow> mime_error + byte list" where
  "mail_text env (Message h p cs subs) =
     (case headers_text env h of
        Inl e \<Rightarrow> Inl e
      | Inr t \<Rightarrow>
          (let start = t @ [CR, LF] @ body_text env (Message h p cs subs)
           in case ep_boundary (get_encoding_params (ge_iequals env) (ge_istarts_with env) h) of
                None \<Rightarrow> Inr (start @ mail_end)
              | Some c \<Rightarrow> map_sum id (\<lambda>ps. start @ ps @ mail_end) (parts_text c (map (mail_text env) subs))))"

text \<open>\<open>n\<close> calls of \<open>generate\<close> and their output.\<close>

inductive generates :: "gen_env \<Rightarrow> nat \<Rightarrow> email_gen \<Rightarrow> byte list \<Rightarrow> email_gen \<Rightarrow> bool" for env where
  none: "generates env 0 g [] g"
| more: "gen_progress g \<Longrightarrow> generate env g = Inr (g1, out) \<Longrightarrow> generates env n g1 txt g2 \<Longrightarrow> generates env (Suc n) g (out @ txt) g2"

lemma generates_trans: "generates env n g t g1 \<Longrightarrow> generates env k g1 t' g2 \<Longrightarrow> generates env (n + k) g (t @ t') g2"
  by (induction rule: generates.induct) (auto intro: generates.more)

lemma generates_one: "gen_progress g \<Longrightarrow> generate env g = Inr (g1, out) \<Longrightarrow> generates env 1 g out g1"
  using generates.more [OF _ _ generates.none] by fastforce

lemma generate_sub:
  "gen_progress g \<Longrightarrow> generate env (G_payload m child parent inp good text it (Some g) prog) =
     map_sum id (\<lambda>(g', out). (G_payload m child parent inp good text it (Some g') prog, out)) (generate env g)"
  by simp

lemma generates_sub:
  "generates env n g t g' \<Longrightarrow>
   generates env n (G_payload m child parent inp good text it (Some g) True) t (G_payload m child parent inp good text it (Some g') True)"
  by (induction rule: generates.induct) (auto intro!: generates.intros)

lemma generates_headers:
  "headers_text env hs = Inr t \<Longrightarrow> m_headers m = pre @ hs \<Longrightarrow>
   \<exists>n. generates env n (G_header m (length pre) b True) t (G_header m (length (m_headers m)) b True)"
proof (induction hs arbitrary: pre t)
  case Nil
  then show ?case by (auto intro: generates.none)
next
  case (Cons h hs)
  obtain t1 t2 where t: "header_text env h = Inr t1" "headers_text env hs = Inr t2" "t = t1 @ t2"
    using Cons.prems(1) by (auto split: sum.splits)
  have "m_headers m ! length pre = h" "length pre \<noteq> length (m_headers m)" using Cons.prems(2) by simp_all
  then have "generate env (G_header m (length pre) b True) = Inr (G_header m (Suc (length pre)) b True, t1)"
    using t(1) by (cases h) (auto simp: header_text_def)
  moreover obtain n where "generates env n (G_header m (Suc (length pre)) b True) t2 (G_header m (length (m_headers m)) b True)"
    using Cons.IH [OF t(2), of "pre @ [h]"] Cons.prems(2) by auto
  ultimately have "generates env (Suc n) (G_header m (length pre) b True) (t1 @ t2) (G_header m (length (m_headers m)) b True)"
    by (intro generates.more) simp_all
  then show ?case unfolding t(3) by blast
qed

text \<open>No generator of a sub-part is running.\<close>

definition idle :: "email_gen option \<Rightarrow> bool" where
  "idle sub \<longleftrightarrow> (\<forall>g. sub = Some g \<longrightarrow> \<not> gen_progress g)"

lemma generate_idle:
  "idle sub \<Longrightarrow> generate env (G_payload m child parent inp good text it sub prog) =
     (case (if good then read_piece text inp else None) of
        Some (out, inp', good') \<Rightarrow> Inr (G_payload m child parent inp' good' text it sub prog, out)
      | None \<Rightarrow> Inr (gen_tail m child parent inp text it sub prog))"
  by (auto simp: idle_def split: option.split)

declare generate.simps(2) [simp del]

lemma filter_line: "filter (\<lambda>c. c \<noteq> LF) inp = takeWhile (\<lambda>c. c \<noteq> LF) inp @ filter (\<lambda>c. c \<noteq> LF) (drop 1 (dropWhile (\<lambda>c. c \<noteq> LF) inp))"
  by (induction inp) auto

lemma read_pieceD:
  assumes "read_piece text inp = Some (out, inp', good')"
  shows "(if text then filter (\<lambda>c. c \<noteq> LF) inp else inp) = out @ (if text then filter (\<lambda>c. c \<noteq> LF) inp' else inp')"
    "length inp' < length inp" "\<not> good' \<Longrightarrow> inp' = []"
proof -
  have "length (drop 1 (dropWhile (\<lambda>c. c \<noteq> LF) inp)) < length inp" if "inp \<noteq> []"
    using that length_dropWhile_le [of "\<lambda>c. c \<noteq> LF" inp] by (cases inp) (simp_all add: less_Suc_eq_le)
  then show "length inp' < length inp" using assms by (auto simp: read_piece_def Let_def split: if_splits)
  show "(if text then filter (\<lambda>c. c \<noteq> LF) inp else inp) = out @ (if text then filter (\<lambda>c. c \<noteq> LF) inp' else inp')"
    using assms filter_line [of inp] by (auto simp: read_piece_def Let_def split: if_splits)
  show "inp' = []" if "\<not> good'" using assms that by (auto simp: read_piece_def Let_def dropWhile_eq_Nil_conv [THEN iffD2] simp del: dropWhile_eq_Nil_conv split: if_splits)
qed

text \<open>The payload: in the end nothing is left, and the stream may or may not be good.\<close>

lemma generates_payload:
  assumes "idle sub"
  shows "\<exists>n good. generates env n (G_payload m child parent inp True text it sub True) (if text then filter (\<lambda>c. c \<noteq> LF) inp else inp)
    (G_payload m child parent [] good text it sub True)"
proof (induction "length inp" arbitrary: inp rule: less_induct)
  case less
  show ?case
  proof (cases "read_piece text inp")
    case None
    then have "inp = []" by (auto simp: read_piece_def Let_def split: if_splits)
    then show ?thesis using generates.none by auto
  next
    case (Some r)
    obtain out inp' good' where r: "read_piece text inp = Some (out, inp', good')" using Some by (cases r) auto
    note d = read_pieceD [OF r]
    have g: "generate env (G_payload m child parent inp True text it sub True) = Inr (G_payload m child parent inp' good' text it sub True, out)"
      using r by (simp add: generate_idle [OF assms])
    have "\<exists>n good. generates env n (G_payload m child parent inp' good' text it sub True) (if text then filter (\<lambda>c. c \<noteq> LF) inp' else inp')
        (G_payload m child parent [] good text it sub True)"
    proof (cases good')
      case True
      then show ?thesis using less [OF d(2)] by simp
    next
      case False
      then show ?thesis using d(3) generates.none by auto
    qed
    then show ?thesis unfolding d(1) using generates.more [OF _ g] by fastforce
  qed
qed

lemma generate_tail:
  "idle sub \<Longrightarrow> generate env (G_payload m child parent [] good text it sub prog) = Inr (gen_tail m child parent [] text it sub prog)"
  by (simp add: generate_idle read_piece_def)

text \<open>The sub-parts and the end.\<close>

lemma generates_parts:
  assumes "\<And>s t. s \<in> set (m_subparts m) \<Longrightarrow> mail_text env s = Inr t \<Longrightarrow> \<exists>n g. generates env n (gen_new s) t g \<and> \<not> gen_progress g"
  shows "idle sub \<Longrightarrow> parts_text c (map (mail_text env) (drop it (m_subparts m))) = Inr ps
    \<Longrightarrow> \<exists>n g. generates env n (G_payload m (Some c) None [] good text it sub True) (ps @ mail_end) g \<and> \<not> gen_progress g"
proof (induction "length (m_subparts m) - it" arbitrary: it sub ps good)
  case 0
  then have "gen_tail m (Some c) None [] text it sub True = (G_payload m (Some c) None [] False text it sub False, mail_end)" "ps = []"
    by (auto simp: gen_tail_def mail_end_def)
  then have "generates env 1 (G_payload m (Some c) None [] good text it sub True) (ps @ mail_end)
      (G_payload m (Some c) None [] False text it sub False)"
    by (intro generates_one) (simp_all add: generate_tail [OF 0(2)])
  then show ?case by (metis gen_progress.simps(2))
next
  case (Suc k)
  then have it: "it < length (m_subparts m)" by simp
  let ?s = "m_subparts m ! it"
  have "drop it (m_subparts m) = ?s # drop (Suc it) (m_subparts m)" using it by (simp add: Cons_nth_drop_Suc)
  then obtain t ps' where t: "mail_text env ?s = Inr t" "parts_text c (map (mail_text env) (drop (Suc it) (m_subparts m))) = Inr ps'"
      "ps = [45, 45] @ c @ [LF, LF] @ t @ ps'"
    using Suc.prems(2) by (auto split: sum.splits)
  obtain n g where g: "generates env n (gen_new ?s) t g" "\<not> gen_progress g" using assms [OF _ t(1)] it by auto
  have "generate env (G_payload m (Some c) None [] good text it sub True)
      = Inr (G_payload m (Some c) None [] False text (Suc it) (Some (gen_new ?s)) True, [45, 45] @ c @ [LF, LF])"
    using it by (simp add: generate_tail [OF Suc.prems(1)] gen_tail_def)
  note step1 = generates_one [OF _ this]
  note step2 = generates_sub [OF g(1), of m "Some c" None "[]" False "text" "Suc it"]
  have k: "k = length (m_subparts m) - Suc it" using Suc.hyps(2) by simp
  have "idle (Some g)" using g(2) by (simp add: idle_def)
  then obtain n' g' where "generates env n' (G_payload m (Some c) None [] False text (Suc it) (Some g) True) (ps' @ mail_end) g'" "\<not> gen_progress g'"
    using Suc.hyps(1) [OF k, of "Some g" ps' False] t(2) by auto
  note step3 = generates_trans [OF generates_trans [OF step1 step2] this(1)]
  then show ?case using \<open>\<not> gen_progress g'\<close> t(3) by auto
qed

text \<open>A message.\<close>

lemma generates_message: "mail_text env m = Inr t \<Longrightarrow> \<exists>n g. generates env n (gen_new m) t g \<and> \<not> gen_progress g"
proof (induction env m arbitrary: t rule: mail_text.induct)
  case (1 env h p cs subs)
  let ?m = "Message h p cs subs" and ?p = "get_encoding_params (ge_iequals env) (ge_istarts_with env) h"
  obtain th where th: "headers_text env h = Inr th" using 1(2) by (auto split: sum.splits)
  obtain n1 where g1: "generates env n1 (gen_new ?m) th (G_header ?m (length h) None True)"
    using generates_headers [OF th, of ?m "[]" None] by (auto simp: gen_new_def)
  let ?inp = "if ep_text_mode ?p then ge_text_input env (ep_charset ?p) (payload_bytes ?m) else payload_bytes ?m"
  let ?g = "\<lambda>inp good sub prog. G_payload ?m (ep_boundary ?p) None inp good (ep_text_mode ?p) 0 sub prog"
  have g2: "generates env 1 (G_header ?m (length h) None True) [CR, LF] (?g ?inp True None True)"
    by (rule generates_one) (simp_all add: gen_to_payload_def Let_def)
  have "body_text env ?m = (if ep_text_mode ?p then filter (\<lambda>c. c \<noteq> LF) ?inp else ?inp)" by (simp add: body_text_def Let_def)
  then obtain n3 good where g3: "generates env n3 (?g ?inp True None True) (body_text env ?m) (?g [] good None True)"
    using generates_payload [of None env ?m "ep_boundary ?p" None ?inp "ep_text_mode ?p" 0] by (auto simp: idle_def)
  note g123 = generates_trans [OF generates_trans [OF g1 g2] g3]
  have "\<exists>t4. t = (th @ [CR, LF]) @ body_text env ?m @ t4 \<and> (\<exists>n g. generates env n (?g [] good None True) t4 g \<and> \<not> gen_progress g)"
  proof (cases "ep_boundary ?p")
    case None
    have "gen_tail ?m None None [] (ep_text_mode ?p) 0 None True = (G_payload ?m None None [] False (ep_text_mode ?p) 0 None False, mail_end)"
      by (simp add: gen_tail_def mail_end_def)
    then have "generates env 1 (?g [] good None True) mail_end (G_payload ?m None None [] False (ep_text_mode ?p) 0 None False)"
      unfolding None by (intro generates_one) (simp_all add: generate_tail idle_def)
    moreover have "t = (th @ [CR, LF]) @ body_text env ?m @ mail_end" using 1(2) th None by simp
    ultimately show ?thesis by (metis gen_progress.simps(2))
  next
    case (Some c)
    obtain ps where ps: "parts_text c (map (mail_text env) subs) = Inr ps" "t = (th @ [CR, LF]) @ body_text env ?m @ ps @ mail_end"
      using 1(2) th Some by (auto split: sum.splits)
    have "\<exists>n g. generates env n (G_payload ?m (Some c) None [] good (ep_text_mode ?p) 0 None True) (ps @ mail_end) g \<and> \<not> gen_progress g"
      by (rule generates_parts) (use 1(1) [OF th refl Some] ps(1) in \<open>auto simp: idle_def\<close>)
    then show ?thesis unfolding Some using ps(2) by blast
  qed
  then obtain t4 n4 g where g4: "t = (th @ [CR, LF]) @ body_text env ?m @ t4" "generates env n4 (?g [] good None True) t4 g" "\<not> gen_progress g" by blast
  show ?case using generates_trans [OF g123 g4(2)] g4(1,3) by auto
qed


lemma generates_done: "generates env n g t g' \<Longrightarrow> \<not> gen_progress g \<Longrightarrow> t = [] \<and> g' = g"
  by (auto elim: generates.cases)

text \<open>The text of a message ends with the end of the mail, which one call of \<open>generate\<close> writes.\<close>

fun outermost_gen :: "email_gen \<Rightarrow> bool" where
  "outermost_gen (G_header m it boundary prog) \<longleftrightarrow> boundary = None"
| "outermost_gen (G_payload m child parent inp good text it sub prog) \<longleftrightarrow> parent = None"

lemma generate_outermost:
  assumes "generate env g = Inr (g', out)" "outermost_gen g" "gen_progress g"
  shows "outermost_gen g' \<and> (gen_progress g' \<or> out = mail_end)"
proof (cases g)
  case (G_header m it boundary prog)
  then show ?thesis using assms by (auto simp: gen_to_payload_def Let_def split: if_splits prod.splits)
next
  case (G_payload m child parent inp good tx it sub prog)
  show ?thesis
  proof (cases "idle sub")
    case True
    then show ?thesis using assms G_payload
      by (auto simp: generate_idle gen_tail_def mail_end_def split: option.splits if_splits)
  next
    case False
    then obtain s where "sub = Some s" "gen_progress s" by (auto simp: idle_def)
    then show ?thesis using assms G_payload by (auto simp: generate_sub)
  qed
qed

lemma generates_suffix:
  "generates env n g t gend \<Longrightarrow> outermost_gen g \<Longrightarrow> gen_progress g \<Longrightarrow> \<not> gen_progress gend \<Longrightarrow> \<exists>u. t = u @ mail_end"
proof (induction rule: generates.induct)
  case (more g g1 out n rest g2)
  have o: "outermost_gen g1" "gen_progress g1 \<or> out = mail_end" using generate_outermost [OF more(2)] more.prems more(1) by auto
  show ?case
  proof (cases "gen_progress g1")
    case True
    then obtain u where "rest = u @ mail_end" using more.IH o(1) more.prems(3) by blast
    then show ?thesis by (metis append.assoc)
  next
    case False
    then show ?thesis using o(2) generates_done [OF more(3)] by auto
  qed
qed simp

section \<open>Reading in pieces\<close>

text \<open>
  One \<open>read\<close>: what was held back and what is still to be generated come out in order, and the reader stops early only
  at the end.
\<close>

lemma read_loop_step:
  assumes "gen_progress (gr_gen r)" "0 < rest" "(if gr_buf r = [] then generate env (gr_gen r) else Inr (gr_gen r, gr_buf r)) = Inr (g, buf)"
  shows "read_loop env rest acc r =
    read_loop env (rest - length buf) (acc @ take rest buf) \<lparr>gr_gen = g, gr_buf = drop rest buf\<rparr>"
proof -
  have "take (min (length buf) rest) buf = take rest buf" "drop (min (length buf) rest) buf = drop rest buf" "rest - min (length buf) rest = rest - length buf"
    by (auto simp: min_def)
  then show ?thesis using assms by (subst read_loop.simps) (simp add: Let_def)
qed

lemma next_chunk:
  assumes "generates env n (gr_gen r) t gend" "\<not> gen_progress gend" "gen_progress (gr_gen r)"
  shows "\<exists>n' g buf t'. (if gr_buf r = [] then generate env (gr_gen r) else Inr (gr_gen r, gr_buf r)) = Inr (g, buf)
    \<and> generates env n' g t' gend \<and> gr_buf r @ t = buf @ t' \<and> (n' < n \<or> n' = n \<and> buf \<noteq> []) \<and> (gr_buf r = [] \<or> gen_progress g)
    \<and> (outermost_gen (gr_gen r) \<longrightarrow> outermost_gen g)"
proof (cases "gr_buf r = []")
  case empty: True
  show ?thesis using assms(1)
  proof cases
    case none
    then show ?thesis using assms(2,3) by simp
  next
    case (more g1 b m u)
    then have "outermost_gen (gr_gen r) \<longrightarrow> outermost_gen g1" using generate_outermost by blast
    then show ?thesis using empty more by force
  qed
next
  case False
  then show ?thesis using assms(1,3) by force
qed

lemma read_loop_stop: "\<not> gen_progress (gr_gen r) \<or> rest = 0 \<Longrightarrow> read_loop env rest acc r = Some (Inr (acc, r))"
  by (subst read_loop.simps) auto

lemma read_loop_generates:
  assumes "generates env n (gr_gen r) t gend" "\<not> gen_progress gend"
  shows "\<exists>out k t' r'. read_loop env rest acc r = Some (Inr (acc @ out, r')) \<and> generates env k (gr_gen r') t' gend
    \<and> gr_buf r @ t = out @ gr_buf r' @ t' \<and> length out \<le> rest \<and> (gen_progress (gr_gen r') \<longrightarrow> length out = rest)
    \<and> (outermost_gen (gr_gen r) \<longrightarrow> outermost_gen (gr_gen r'))"
  using assms
proof (induction "n + rest" arbitrary: n r t rest acc rule: less_induct)
  case less
  show ?case
  proof (cases "gen_progress (gr_gen r) \<and> 0 < rest")
    case False
    then have "read_loop env rest acc r = Some (Inr (acc @ [], r))" by (simp add: read_loop_stop)
    moreover have "gen_progress (gr_gen r) \<longrightarrow> length [] = rest" using False by simp
    ultimately show ?thesis using less.prems(1) by fastforce
  next
    case True
    obtain n' g buf t' where s: "(if gr_buf r = [] then generate env (gr_gen r) else Inr (gr_gen r, gr_buf r)) = Inr (g, buf)"
        "generates env n' g t' gend" "gr_buf r @ t = buf @ t'" "n' < n \<or> n' = n \<and> buf \<noteq> []"
        "outermost_gen (gr_gen r) \<longrightarrow> outermost_gen g"
      using next_chunk [OF less.prems] True by metis
    let ?r = "\<lparr>gr_gen = g, gr_buf = drop rest buf\<rparr>"
    have loop: "read_loop env rest acc r = read_loop env (rest - length buf) (acc @ take rest buf) ?r"
      using True s(1) by (intro read_loop_step) simp_all
    have "n' + (rest - length buf) < n + rest" using s(4) True by (cases buf) auto
    then obtain out k t1 r' where h: "read_loop env (rest - length buf) (acc @ take rest buf) ?r = Some (Inr ((acc @ take rest buf) @ out, r'))"
        "generates env k (gr_gen r') t1 gend" "drop rest buf @ t' = out @ gr_buf r' @ t1" "length out \<le> rest - length buf"
        "gen_progress (gr_gen r') \<Longrightarrow> length out = rest - length buf" "outermost_gen g \<Longrightarrow> outermost_gen (gr_gen r')"
      using less.hyps [of n' "rest - length buf" ?r t' "acc @ take rest buf"] s(2) less.prems(2) by auto
    have "gr_buf r @ t = (take rest buf @ out) @ gr_buf r' @ t1"
      using s(3) h(3) by (metis append.assoc append_take_drop_id)
    moreover have "length (take rest buf @ out) \<le> rest" using h(4) by simp
    moreover have "gen_progress (gr_gen r') \<longrightarrow> length (take rest buf @ out) = rest" using h(5) by auto
    ultimately show ?thesis using loop h(1,2,6) s(5) by (metis append.assoc)
  qed
qed

text \<open>
  A run of reads: the sizes asked for, the pieces handed out (\<open>None\<close> is \<open>EOF\<close>) and the reader after them.
\<close>

fun email_reads :: "gen_env \<Rightarrow> int list \<Rightarrow> gen_reader \<Rightarrow> (mime_error + byte list option list \<times> gen_reader) option" where
  "email_reads env [] r = Some (Inr ([], r))"
| "email_reads env (n # ns) r =
     (case email_read env n r of
        None \<Rightarrow> None
      | Some (Inl e) \<Rightarrow> Some (Inl e)
      | Some (Inr (p, r1)) \<Rightarrow> map_option (map_sum id (\<lambda>(ps, r2). (p # ps, r2))) (email_reads env ns r1))"

definition pieces :: "byte list option list \<Rightarrow> byte list" where
  "pieces ps = concat (map (\<lambda>p. case p of None \<Rightarrow> [] | Some b \<Rightarrow> b) ps)"

lemma email_read_generates:
  assumes "generates env n (gr_gen r) t gend" "\<not> gen_progress gend"
  shows "\<exists>p k t' r'. email_read env i r = Some (Inr (p, r')) \<and> generates env k (gr_gen r') t' gend \<and> gr_buf r @ t = pieces [p] @ gr_buf r' @ t'
    \<and> (p = None \<longleftrightarrow> \<not> gen_progress (gr_gen r) \<or> i \<le> 0) \<and> (gen_progress (gr_gen r') \<and> p \<noteq> None \<longrightarrow> length (the p) = nat i) \<and> (\<forall>b. p = Some b \<longrightarrow> length b \<le> nat i)"
proof (cases "\<not> gen_progress (gr_gen r) \<or> i \<le> 0")
  case True
  then show ?thesis using assms(1) by (intro exI [of _ None]) (auto simp: email_read_def pieces_def)
next
  case False
  obtain out k t' r' where "read_loop env (nat i) [] r = Some (Inr (out, r'))" "generates env k (gr_gen r') t' gend"
      "gr_buf r @ t = out @ gr_buf r' @ t'" "length out \<le> nat i" "gen_progress (gr_gen r') \<longrightarrow> length out = nat i"
    using read_loop_generates [OF assms, of "nat i" "[]"] by auto
  then show ?thesis using False by (intro exI [of _ "Some out"]) (auto simp: email_read_def pieces_def)
qed

lemma pieces_Cons: "pieces (p # ps) = pieces [p] @ pieces ps"
  by (simp add: pieces_def)

lemma email_reads_generates:
  assumes "generates env n (gr_gen r) t gend" "\<not> gen_progress gend"
  shows "\<exists>ps k t' r'. email_reads env ns r = Some (Inr (ps, r')) \<and> generates env k (gr_gen r') t' gend \<and> gr_buf r @ t = pieces ps @ gr_buf r' @ t'"
  using assms
proof (induction ns arbitrary: r n t)
  case Nil
  then show ?case by (auto simp: pieces_def)
next
  case (Cons i ns)
  obtain p k t1 r1 where 1: "email_read env i r = Some (Inr (p, r1))" "generates env k (gr_gen r1) t1 gend" "gr_buf r @ t = pieces [p] @ gr_buf r1 @ t1"
    using email_read_generates [OF Cons.prems, of i] by blast
  obtain ps k' t2 r2 where 2: "email_reads env ns r1 = Some (Inr (ps, r2))" "generates env k' (gr_gen r2) t2 gend" "gr_buf r1 @ t1 = pieces ps @ gr_buf r2 @ t2"
    using Cons.IH [OF 1(2) Cons.prems(2)] by blast
  have "gr_buf r @ t = pieces (p # ps) @ gr_buf r2 @ t2" using 1(3) 2(3) by (simp add: pieces_Cons [of p ps])
  then show ?case using 1(1) 2(1,2) by auto
qed


text \<open>A loop that ends with room to spare has emptied the buffer.\<close>

lemma read_loop_room:
  assumes "generates env n (gr_gen r) t gend" "\<not> gen_progress gend" "read_loop env rest acc r = Some (Inr (acc @ out, r'))"
    "gen_progress (gr_gen r) \<or> gr_buf r = []" "length out < rest"
  shows "gr_buf r' = []"
  using assms
proof (induction "n + rest" arbitrary: n r t rest acc out rule: less_induct)
  case less
  show ?case
  proof (cases "gen_progress (gr_gen r)")
    case False
    then show ?thesis using less.prems by (simp add: read_loop_stop)
  next
    case True
    have "0 < rest" using less.prems(5) by simp
    obtain n' g buf t' where s: "(if gr_buf r = [] then generate env (gr_gen r) else Inr (gr_gen r, gr_buf r)) = Inr (g, buf)"
        "generates env n' g t' gend" "n' < n \<or> n' = n \<and> buf \<noteq> []" "gr_buf r = [] \<or> gen_progress g"
      using next_chunk [OF less.prems(1,2) True] True by metis
    let ?r = "\<lparr>gr_gen = g, gr_buf = drop rest buf\<rparr>"
    have loop: "read_loop env (rest - length buf) (acc @ take rest buf) ?r = Some (Inr (acc @ out, r'))"
      using read_loop_step [OF True \<open>0 < rest\<close> s(1), of acc] less.prems(3) by simp
    obtain out' where out: "acc @ out = (acc @ take rest buf) @ out'"
      using read_loop_generates [of env n' ?r t' gend "rest - length buf" "acc @ take rest buf"] s(2) less.prems(2) loop by auto
    show ?thesis
    proof (cases "length buf < rest")
      case True
      then have "n' + (rest - length buf) < n + rest" using s(3) \<open>0 < rest\<close> by (cases buf) auto
      moreover have "length out' < rest - length buf" using out less.prems(5) True by simp
      ultimately show ?thesis
        using less.hyps [of n' "rest - length buf" ?r t' "acc @ take rest buf" out'] s(2) less.prems(2) loop out True by simp
    next
      case False
      then show ?thesis using out less.prems(5) by simp
    qed
  qed
qed


section \<open>Properties\<close>

text \<open>
  Reads of any sizes hand out a message in order: the text of its header fields, payload and sub-parts, up to what the
  reader still holds and, while it is in progress, what is still to be generated.
\<close>

theorem email_generator_reads:
  assumes "mail_text env m = Inr t"
  shows "\<exists>ps r rest. email_reads env ns (email_generator_new m) = Some (Inr (ps, r)) \<and> t = pieces ps @ gr_buf r @ rest
    \<and> (email_generator_done r \<longrightarrow> rest = [])"
proof -
  obtain n gend where g: "generates env n (gen_new m) t gend" "\<not> gen_progress gend" using generates_message [OF assms] by blast
  then obtain ps k t' r where r: "email_reads env ns (email_generator_new m) = Some (Inr (ps, r))" "generates env k (gr_gen r) t' gend"
      "t = pieces ps @ gr_buf r @ t'"
    using email_reads_generates [of env n "email_generator_new m" t gend ns] by (auto simp: email_generator_new_def)
  then show ?thesis using generates_done [OF r(2)] by (auto simp: email_generator_done_def)
qed

definition sample_gen_env :: gen_env where
  "sample_gen_env = \<lparr>ge_trail_length = (\<lambda>_. 0), ge_from_utf = (\<lambda>s _. s), ge_text_input = (\<lambda>_ s. s), ge_iequals = ascii_iequal,
     ge_istarts_with = (\<lambda>s p. ascii_iequal (take (length p) s) p)\<rparr>"

definition sample_mail :: message where
  "sample_mail = Message [([65], \<lparr>d_data = [98], d_params = []\<rparr>)] (Some [120, 121]) None []"

lemma sample_mail_text: "mail_text sample_gen_env sample_mail = Inr [65, 58, 32, 98, CR, LF, CR, LF, 120, 121, CR, LF, 46, CR, LF]"
  by code_simp

theorem email_generator_reads_witness:
  "\<exists>ps r rest. email_reads sample_gen_env [3, 0, 4] (email_generator_new sample_mail) = Some (Inr (ps, r))
    \<and> [65, 58, 32, 98, CR, LF, CR, LF, 120, 121, CR, LF, 46, CR, LF] = pieces ps @ gr_buf r @ rest"
  using email_generator_reads [OF sample_mail_text, of "[3, 0, 4]"] by blast

lemma email_read_enough:
  assumes "mail_text env m = Inr t" "int (length t) - 1 \<le> j"
  shows "\<exists>r. email_read env j (email_generator_new m) = Some (Inr (Some (take (nat j) t), r)) \<and> email_generator_done r"
proof -
  let ?r = "email_generator_new m"
  obtain k gend where g: "generates env k (gr_gen ?r) t gend" "\<not> gen_progress gend"
    using generates_message [OF assms(1)] by (auto simp: email_generator_new_def)
  have new: "gr_buf ?r = []" "gen_progress (gr_gen ?r)" "outermost_gen (gr_gen ?r)" by (simp_all add: email_generator_new_def gen_new_def)
  obtain u where u: "t = u @ mail_end" using generates_suffix [OF g(1) new(3,2) g(2)] by blast
  then have len: "5 \<le> length t" by (simp add: mail_end_def)
  have loop: "\<exists>out r'. read_loop env rest [] ?r = Some (Inr (out, r')) \<and> \<not> gen_progress (gr_gen r') \<and> out = take rest t" if "length t - 1 \<le> rest" for rest
  proof -
    obtain out k' t' r' where l: "read_loop env rest [] ?r = Some (Inr (out, r'))" "generates env k' (gr_gen r') t' gend" "t = out @ gr_buf r' @ t'"
        "length out \<le> rest" "gen_progress (gr_gen r') \<Longrightarrow> length out = rest" "outermost_gen (gr_gen r')"
      using read_loop_generates [OF g, of rest "[]"] new by auto
    have "\<not> gen_progress (gr_gen r')"
    proof
      assume p: "gen_progress (gr_gen r')"
      obtain u' where "t' = u' @ mail_end" using generates_suffix [OF l(2,6) p g(2)] by blast
      then show False using l(3) l(5) [OF p] that by (simp add: mail_end_def)
    qed
    then have "t' = []" using generates_done [OF l(2)] by blast
    moreover have "length out = rest \<or> gr_buf r' = []" using read_loop_room [OF g, of rest "[]" out r'] l(1,4) new by fastforce
    ultimately have "out = take rest t" using l(3,4) by auto
    then show ?thesis using l(1) \<open>\<not> gen_progress (gr_gen r')\<close> by blast
  qed
  show ?thesis
    using loop [of "nat j"] assms(2) len new(2) by (auto simp: email_read_def email_generator_done_def)
qed

text \<open>
  One read that has room for the whole message hands it out and completes. When there is
  no room for the last byte, the read completes nevertheless, and the byte is lost: every read behind it is the end of file.
\<close>

theorem email_generator_tail:
  assumes "mail_text env m = Inr t"
  shows "(int (length t) \<le> n \<longrightarrow> (\<exists>r. email_read env n (email_generator_new m) = Some (Inr (Some t, r)) \<and> email_generator_done r))
    \<and> (\<exists>r. email_read env (int (length t) - 1) (email_generator_new m) = Some (Inr (Some (butlast t), r)) \<and> email_generator_done r
        \<and> email_read env i r = Some (Inr (None, r)))"
proof -
  note read = email_read_enough [OF assms]
  have "take (nat (int (length t) - 1)) t = butlast t" by (simp add: butlast_conv_take nat_diff_distrib')
  then obtain r where "email_read env (int (length t) - 1) (email_generator_new m) = Some (Inr (Some (butlast t), r))" "email_generator_done r"
    using read [of "int (length t) - 1"] by auto
  moreover have "email_read env i r = Some (Inr (None, r))" using \<open>email_generator_done r\<close> by (simp add: email_read_def email_generator_done_def)
  moreover have "\<exists>r. email_read env n (email_generator_new m) = Some (Inr (Some t, r)) \<and> email_generator_done r" if "int (length t) \<le> n"
    using read [of n] that by simp
  ultimately show ?thesis by blast
qed

theorem email_generator_tail_witness:
  "\<exists>r. email_read sample_gen_env 14 (email_generator_new sample_mail) = Some (Inr (Some [65, 58, 32, 98, CR, LF, CR, LF, 120, 121, CR, LF, 46, CR], r))
    \<and> email_read sample_gen_env 99 r = Some (Inr (None, r))"
  using email_generator_tail [OF sample_mail_text, of 15 99] by auto

end
