(* ===== verification/Email_Roundtrip.thy ===== *)
theory Email_Roundtrip
  imports Email_Generator
begin

text \<open>
  The generator and the parser together: a message whose header fields are printable words and whose payload is one line
  comes back from its text, whatever folding its header fields get.
\<close>

section \<open>Comparison of names\<close>

text \<open>\<open>boost::iequals\<close> with \<open>boost::istarts_with\<close>: what the code relies on.\<close>

locale name_compare = key_equivalence eq for eq :: name_eq +
  fixes ipre :: name_eq
  assumes ipre_cong: "eq a b \<Longrightarrow> ipre a p = ipre b p"
    and ipre_append: "ipre (p @ s) p"
begin

lemma no_header: "\<forall>e \<in> set h. \<not> ipre (fst e) (bytes_of ''Content-'') \<Longrightarrow> bytes_of name = bytes_of ''Content-'' @ s \<Longrightarrow> get_header eq h name = None"
  using ipre_cong [of _ "bytes_of name"] ipre_append [of "bytes_of ''Content-''" s]
  by (auto simp: get_header_def hdr_find_def sm_find_def find_if_end Let_def)

lemma plain_params:
  assumes "\<forall>e \<in> set h. \<not> ipre (fst e) (bytes_of ''Content-'')"
  shows "get_encoding_params eq ipre h = \<lparr>ep_charset = bytes_of ''US-ASCII'', ep_boundary = None, ep_enc = enc_ascii, ep_text_mode = False,
    ep_format_flowed = False, ep_delete_space = False\<rparr>"
  using no_header [OF assms, of "''Content-Type''" "bytes_of ''Type''"] no_header [OF assms, of "''Content-Transfer-Encoding''" "bytes_of ''Transfer-Encoding''"]
  by (simp add: get_encoding_params_def bytes_of_def Let_def)

end

interpretation ascii: name_compare ascii_iequal "\<lambda>s p. ascii_iequal (take (length p) s) p"
  by unfold_locales (auto simp: ascii_iequal_def take_map [symmetric])

section \<open>Folded words\<close>

definition is_word :: "byte list \<Rightarrow> bool" where
  "is_word w \<longleftrightarrow> w \<noteq> [] \<and> list_all isgraph w"

fun join_words :: "byte list list \<Rightarrow> byte list" where
  "join_words [] = []"
| "join_words [w] = w"
| "join_words (w # ws) = w @ 32 # join_words ws"

lemma graph_not_space: "isgraph c \<Longrightarrow> \<not> isspace c"
  using order_trans [of 33 c 13] by (auto simp: isgraph_def isspace_def)

lemma word_chars: "is_word w \<Longrightarrow> list_all (\<lambda>c. \<not> isspace c) w"
  by (auto simp: is_word_def list_all_iff graph_not_space)

lemma word_hd: "is_word w \<Longrightarrow> \<not> isspace (hd w)"
  by (cases w) (auto simp: is_word_def graph_not_space)

lemma space_blank: "isspace 32"
  by (simp add: isspace_def)

lemma join_words_Cons: "join_words (w # v # ws) = w @ 32 # join_words (v # ws)"
  by simp

lemma join_words_hd: "is_word w \<Longrightarrow> join_words (w # ws) \<noteq> [] \<and> \<not> isspace (hd (join_words (w # ws)))"
  using word_hd [of w] by (cases ws) (auto simp: is_word_def)

lemma join_words_chars: "list_all is_word ws \<Longrightarrow> list_all (\<lambda>c. isgraph c \<or> c = 32) (join_words ws)"
  by (induction ws rule: join_words.induct) (auto simp: is_word_def list_all_iff)

lemma join_words_last: "list_all is_word (w # ws) \<Longrightarrow> \<not> isspace (last (join_words (w # ws)))"
proof (induction "w # ws" arbitrary: w ws rule: join_words.induct)
  case (2 w)
  then show ?case by (auto simp: is_word_def list_all_iff graph_not_space)
next
  case (3 w v ws)
  then show ?case using join_words_hd [of v ws] by auto
qed

lemma plain_encode_step:
  assumes "list_all (\<lambda>c. \<not> isspace c) w" "r \<noteq> []" "\<not> isspace (hd r)"
  shows "\<exists>c. fst (plain_encode cnt (w @ 32 # r)) = w @ 32 # fst (plain_encode c r)
    \<or> fst (plain_encode cnt (w @ 32 # r)) = w @ [13, 10, 32] @ fst (plain_encode c r)"
proof -
  have t: "takeWhile (\<lambda>ch. \<not> isspace ch) (w @ 32 # r) = w" "dropWhile (\<lambda>ch. \<not> isspace ch) (w @ 32 # r) = 32 # r"
    using takeWhile_until [of "\<lambda>ch. \<not> isspace ch" w 32] assms(1) space_blank by auto
  have b: "takeWhile isspace (32 # r) = [32]" "dropWhile isspace (32 # r) = r"
    using assms(2,3) space_blank by (cases r; simp)+
  show ?thesis using assms(2) unfolding plain_encode.simps [of cnt "w @ 32 # r"] t b Let_def by (auto simp: case_prod_beta)
qed

text \<open>Folding cuts a text of words at blanks into a first line and continuation lines.\<close>

lemma plain_encode_words:
  "list_all is_word (w # ws) \<Longrightarrow>
   \<exists>l ls. fst (plain_encode cnt (join_words (w # ws))) = l @ concat (map (\<lambda>l. 13 # 10 # 32 # l) ls)
     \<and> join_words (w # ws) = l @ concat (map (\<lambda>l. 32 # l) ls) \<and> list_all (\<lambda>l. l \<noteq> [] \<and> \<not> isspace (hd l)) (l # ls)"
proof (induction "w # ws" arbitrary: w ws cnt rule: join_words.induct)
  case (2 w)
  have w: "is_word w" using 2 by simp
  then have "dropWhile (\<lambda>ch. \<not> isspace ch) w = []" using word_chars [OF w] by (simp add: list_all_iff)
  then have "fst (plain_encode cnt w) = w" by (subst plain_encode.simps) (simp add: Let_def)
  then show ?case using w word_hd [OF w] by (intro exI [of _ w] exI [of _ "[]"]) (simp add: is_word_def)
next
  case (3 w v ws)
  let ?r = "join_words (v # ws)"
  have w: "is_word w" and v: "list_all is_word (v # ws)" using 3(2) by simp_all
  note r = join_words_hd [of v ws]
  obtain c where c: "fst (plain_encode cnt (w @ 32 # ?r)) = w @ 32 # fst (plain_encode c ?r)
      \<or> fst (plain_encode cnt (w @ 32 # ?r)) = w @ [13, 10, 32] @ fst (plain_encode c ?r)"
    using plain_encode_step [OF word_chars [OF w], of ?r cnt] r v by auto
  obtain l ls where l: "fst (plain_encode c ?r) = l @ concat (map (\<lambda>l. 13 # 10 # 32 # l) ls)" "?r = l @ concat (map (\<lambda>l. 32 # l) ls)"
      "list_all (\<lambda>l. l \<noteq> [] \<and> \<not> isspace (hd l)) (l # ls)"
    using 3(1) [OF v] by blast
  have h: "w \<noteq> []" "\<not> isspace (hd w)" using w word_hd [OF w] by (simp_all add: is_word_def)
  from c show ?case
  proof
    assume "fst (plain_encode cnt (w @ 32 # ?r)) = w @ 32 # fst (plain_encode c ?r)"
    then show ?thesis using l h by (intro exI [of _ "w @ 32 # l"] exI [of _ ls]) simp
  next
    assume "fst (plain_encode cnt (w @ 32 # ?r)) = w @ [13, 10, 32] @ fst (plain_encode c ?r)"
    then show ?thesis using l h by (intro exI [of _ w] exI [of _ "l # ls"]) simp
  qed
qed

section \<open>Header fields\<close>

definition plain_header :: "email_env \<Rightarrow> byte list \<times> disposition \<Rightarrow> bool" where
  "plain_header env h \<longleftrightarrow> is_name (fst h) \<and> \<not> env_istarts_with env (fst h) (bytes_of ''Content-'') \<and> d_params (snd h) = []
     \<and> (\<exists>w ws. list_all is_word (w # ws) \<and> d_data (snd h) = join_words (w # ws)) \<and> unencoded (d_data (snd h))"

text \<open>The lines of a header field.\<close>

definition header_lines :: "byte list \<times> disposition \<Rightarrow> byte list list \<Rightarrow> bool" where
  "header_lines h ls \<longleftrightarrow> (\<exists>l cs. ls = (fst h @ [58, 32] @ l) # map (\<lambda>c. 32 # c) cs \<and> d_data (snd h) = l @ concat (map (\<lambda>c. 32 # c) cs)
     \<and> list_all (\<lambda>l. l \<noteq> [] \<and> \<not> isspace (hd l)) (l # cs) \<and> list_all is_line ls)"

lemma crlf_text_append: "crlf_text (a @ b) = crlf_text a @ crlf_text b"
  by (simp add: crlf_text_def)

lemma graph_line: "isgraph c \<or> c = 32 \<Longrightarrow> \<not> line_sep c"
  using order_trans [of 33 c 13] by (auto simp: isgraph_def line_sep_def CR_def LF_def)

lemma name_line: "is_name n \<Longrightarrow> is_line n \<and> 58 \<notin> set n \<and> n \<noteq> [] \<and> \<not> isspace (hd n)"
proof -
  assume n: "is_name n"
  have c: "\<not> line_sep c \<and> c \<noteq> 58 \<and> \<not> isspace c" if "isalnum c \<or> c = 45" for c :: byte
    using that order_trans [of 48 c 13] order_trans [of 65 c 13] order_trans [of 97 c 13]
    by (auto simp: ctype_defs line_sep_def CR_def LF_def)
  have "n \<noteq> []" "list_all (\<lambda>c. isalnum c \<or> c = 45) n" using n by (simp_all add: is_name_def)
  then show ?thesis using c by (cases n) (auto simp: is_line_def list_all_iff)
qed

lemma header_text_lines:
  assumes "plain_header env h"
  shows "\<exists>ls. header_text genv h = Inr (crlf_text ls) \<and> header_lines h ls"
proof -
  obtain w ws where ws: "list_all is_word (w # ws)" "d_data (snd h) = join_words (w # ws)" using assms by (auto simp: plain_header_def)
  have n: "is_name (fst h)" "d_params (snd h) = []" using assms by (simp_all add: plain_header_def)
  let ?d = "d_data (snd h)" and ?cnt = "int (length (fst h)) + 2"
  have d: "?d \<noteq> []" "\<not> isspace (hd ?d)" "\<not> isspace (last ?d)" "list_all (\<lambda>c. isgraph c \<or> c = 32) ?d"
    using join_words_hd [of w ws] join_words_last [OF ws(1)] join_words_chars [OF ws(1)] ws by (auto simp: list_all_iff)
  have "isprint c" if "isgraph c \<or> c = 32" for c :: byte
    using that order_trans [of 32 33 c] by (auto simp: isprint_def isgraph_def)
  then have a: "is_ascii ?d" using d(4) by (auto simp: is_ascii_def list_all_iff)
  obtain l cs where l: "fst (plain_encode ?cnt ?d) = l @ concat (map (\<lambda>l. 13 # 10 # 32 # l) cs)" "?d = l @ concat (map (\<lambda>l. 32 # l) cs)"
      "list_all (\<lambda>l. l \<noteq> [] \<and> \<not> isspace (hd l)) (l # cs)"
    using plain_encode_words [OF ws(1), of ?cnt] ws(2) by auto
  let ?ls = "(fst h @ [58, 32] @ l) # map (\<lambda>c. 32 # c) cs"
  have "crlf_text ?ls = fst h @ [58, 32] @ fst (plain_encode ?cnt ?d) @ [CR, LF]"
    unfolding l(1) by (induction cs arbitrary: l) (auto simp: crlf_text_def CR_def LF_def)
  then have out: "header_text genv h = Inr (crlf_text ?ls)"
    using n d(1-3) a by (simp add: header_text_def encode_mimeheader_def encode_value_def Let_def case_prod_beta)
  have c: "\<forall>c \<in> set ?d. \<not> line_sep c" using d(4) graph_line by (simp add: list_all_iff)
  have "\<not> line_sep 32" "\<not> line_sep 58" by (simp_all add: line_sep_def CR_def LF_def)
  moreover have "is_line l" "\<forall>x \<in> set cs. is_line x" using c unfolding l(2) is_line_def list_all_iff by (auto split: if_splits)
  ultimately have "list_all is_line ?ls" using name_line [OF n(1)] by (auto simp: is_line_def list_all_iff)
  then show ?thesis using out l(2,3) by (auto simp: header_lines_def)
qed

section \<open>Parsing the lines\<close>

abbreviation email_run where
  "email_run env \<equiv> run_lines (\<lambda>(st, m). email_progress st) (\<lambda>(st, m) line. parse_line env line st m)"

text \<open>A field in the hands of the header parser goes to the headers with the next field or the empty line.\<close>

definition pending :: "(byte list \<times> disposition) option \<Rightarrow> email_state" where
  "pending p = (case p of None \<Rightarrow> E_header None [] [] True | Some h \<Rightarrow> E_header None (fst h) (d_data (snd h)) True)"

definition flushed :: "(byte list \<times> disposition) option \<Rightarrow> headers \<Rightarrow> headers" where
  "flushed p hs = hs @ (case p of None \<Rightarrow> [] | Some h \<Rightarrow> [h])"

lemma append_plain:
  assumes "plain_header env h" "\<forall>x \<in> set hs. \<not> env_iequals env (fst x) (fst h)" "env_to_utf env [] [] = Some []"
  shows "header_append env (fst h) (d_data (snd h)) (Message hs pl cs subs) = Some (Inr (Message (hs @ [h]) pl cs subs))"
proof -
  obtain w ws where ws: "list_all is_word (w # ws)" "d_data (snd h) = join_words (w # ws)" using assms(1) by (auto simp: plain_header_def)
  have n: "fst h \<noteq> []" "d_data (snd h) \<noteq> []" "\<not> env_istarts_with env (fst h) (bytes_of ''Content-'')" "d_params (snd h) = []"
    using assms(1) ws join_words_hd [of w ws] by (auto simp: plain_header_def is_name_def)
  have i: "hdr_index (env_iequals env) hs (fst h) = (hs @ [(fst h, disposition_new)], length hs)"
    using assms(2) by (simp add: hdr_index_def mm_emplace_hint_def sm_find_def find_if_end [THEN iffD2] Let_def)
  have "unencoded (d_data (snd h))" using assms by (auto simp: plain_header_def)
  then have "decode_mimeheader (env_to_utf env) (d_data (snd h)) disposition_new = Inr (snd h)"
    using assms(3) n(4) by (simp add: decode_mimeheader_def rfc2047_decode_def matches_none disp_append_def disposition_new_def)
  then show ?thesis using n by (simp add: header_append_def i)
qed

lemma dropWhile_hd: "xs \<noteq> [] \<Longrightarrow> \<not> P (hd xs) \<Longrightarrow> dropWhile P xs = xs"
  by (cases xs) auto

lemma header_lines_run:
  assumes "header_lines h ls" "is_name (fst h)"
    and "header_append env n ps (Message hs None None []) = Some (Inr (Message hs' None None []))"
  shows "email_run env (ls @ rest) (E_header None n ps True, Message hs None None [])
    = email_run env rest (pending (Some h), Message hs' None None [])"
proof -
  obtain l cs where l: "ls = (fst h @ [58, 32] @ l) # map (\<lambda>c. 32 # c) cs" "d_data (snd h) = l @ concat (map (\<lambda>c. 32 # c) cs)"
      "list_all (\<lambda>l. l \<noteq> [] \<and> \<not> isspace (hd l)) (l # cs)"
    using assms(1) by (auto simp: header_lines_def)
  note n = name_line [OF assms(2)]
  have ld: "dropWhile isspace (32 # l) = l" "\<And>c. c \<in> set cs \<Longrightarrow> dropWhile isspace c = c"
    using l(3) space_blank by (cases l; simp) (use l(3) in \<open>auto simp: list_all_iff intro: dropWhile_hd\<close>)
  have "\<forall>x \<in> set (fst h). x \<noteq> 58" using n by auto
  then have tw: "takeWhile (\<lambda>c. c \<noteq> 58) (fst h @ 58 # 32 # l) = fst h" "dropWhile (\<lambda>c. c \<noteq> 58) (fst h @ 58 # 32 # l) = 58 # 32 # l"
    by (simp_all add: takeWhile_append2 dropWhile_append2)
  have "header_line env (fst h @ 58 # 32 # l) None n ps True (Message hs None None [])
      = Some (Inr (True, E_header None (fst h) l True, Message hs' None None []))"
    using n tw ld(1) assms(3) by (simp add: header_line_def Let_def append_eq_Cons_conv del: dropWhile.simps takeWhile.simps)
  then have "email_run env (ls @ rest) (E_header None n ps True, Message hs None None [])
      = email_run env (map (\<lambda>c. 32 # c) cs @ rest) (E_header None (fst h) l True, Message hs' None None [])"
    by (simp add: l(1))
  also have "\<dots> = email_run env rest (E_header None (fst h) (l @ concat (map (\<lambda>l. 32 # dropWhile isspace (tl l)) (map (\<lambda>c. 32 # c) cs))) True, Message hs' None None [])"
    using l(3) space_blank by (intro header_continuations) (simp_all add: list_all_iff)
  also have "map (\<lambda>l. 32 # dropWhile isspace (tl l)) (map (\<lambda>c. 32 # c) cs) = map (\<lambda>c. 32 # c) cs" using ld(2) by simp
  finally show ?thesis by (simp add: pending_def l(2))
qed

text \<open>All fields and the empty line.\<close>

lemma sm_unique_append: "sm_unique eq (xs @ ys) \<Longrightarrow> sm_unique eq xs"
  by (induction xs) auto

lemma fields_run:
  assumes "\<forall>h \<in> set hs. plain_header env h" "sm_unique (env_iequals env) (flushed p done @ hs)" "env_to_utf env [] [] = Some []"
    "\<forall>h. p = Some h \<longrightarrow> plain_header env h" "list_all2 header_lines hs lss"
  shows "email_run env (concat lss @ [] # rest) (pending p, Message done None None [])
    = email_run env rest (to_payload env None True (Message (flushed p done @ hs) None None []))"
  using assms
proof (induction hs arbitrary: p "done" lss)
  case Nil
  have "header_line env [] None (case p of None \<Rightarrow> [] | Some h \<Rightarrow> fst h) (case p of None \<Rightarrow> [] | Some h \<Rightarrow> d_data (snd h)) True (Message done None None [])
      = Some (Inr (True, to_payload env None True (Message (flushed p done) None None [])))"
  proof (cases p)
    case None
    then show ?thesis by (simp add: header_line_def header_append_def flushed_def case_prod_beta)
  next
    case (Some h)
    then show ?thesis using append_plain [of env h "done" None None "[]"] Nil
      by (simp add: header_line_def flushed_def sm_unique_snoc case_prod_beta)
  qed
  then show ?case using Nil(5) by (cases p) (simp_all add: pending_def case_prod_beta)
next
  case (Cons h hs)
  obtain ls lss' where ls: "lss = ls # lss'" "header_lines h ls" "list_all2 header_lines hs lss'"
    using Cons.prems(5) by (auto simp: list_all2_Cons1)
  have n: "is_name (fst h)" using Cons.prems(1) by (simp add: plain_header_def)
  have "email_run env (ls @ concat lss' @ [] # rest) (pending p, Message done None None [])
      = email_run env (concat lss' @ [] # rest) (pending (Some h), Message (flushed p done) None None [])"
  proof (cases p)
    case None
    then show ?thesis using header_lines_run [OF ls(2) n, of env "[]" "[]" "done" "done"] by (simp add: pending_def flushed_def header_append_def)
  next
    case (Some q)
    have "sm_unique (env_iequals env) (done @ [q])" using Cons.prems(2) Some sm_unique_append [of "env_iequals env" "done @ [q]" "h # hs"]
      by (simp add: flushed_def)
    then have "header_append env (fst q) (d_data (snd q)) (Message done None None []) = Some (Inr (Message (done @ [q]) None None []))"
      using append_plain Cons.prems(3,4) Some by (simp add: sm_unique_snoc)
    then show ?thesis using header_lines_run [OF ls(2) n] Some by (simp add: pending_def flushed_def)
  qed
  also have "\<dots> = email_run env rest (to_payload env None True (Message (flushed (Some h) (flushed p done) @ hs) None None []))"
    using Cons.prems ls(3) by (intro Cons.IH) (simp_all add: flushed_def)
  finally show ?case by (simp add: ls(1) flushed_def)
qed

section \<open>Round trip\<close>

lemma headers_text_lines:
  "\<forall>h \<in> set hs. plain_header env h \<Longrightarrow> \<exists>lss. headers_text genv hs = Inr (crlf_text (concat lss)) \<and> list_all2 header_lines hs lss"
proof (induction hs)
  case Nil
  then show ?case by (simp add: crlf_text_def)
next
  case (Cons h hs)
  obtain ls where ls: "header_text genv h = Inr (crlf_text ls)" "header_lines h ls" using header_text_lines Cons.prems by fastforce
  obtain lss where "headers_text genv hs = Inr (crlf_text (concat lss))" "list_all2 header_lines hs lss" using Cons by auto
  then show ?case using ls by (intro exI [of _ "ls # lss"]) (simp add: crlf_text_append)
qed

lemma header_lines_are_lines: "list_all2 header_lines hs lss \<Longrightarrow> list_all is_line (concat lss)"
  by (induction rule: list_all2_induct) (auto simp: header_lines_def)

text \<open>
  (C19) The text that one read of the generator hands out for a message, written to a new parser, completes
  the parser with that message, when: the message has no sub-parts and no field of the \<open>Content-\<close> family; the
  names are letters, digits and hyphens and pairwise different; every value is not empty and consists of words
  of graphic characters separated by single blanks, without \<open>=?\<close> and without parameters; and the payload is one
  line that is not a single dot. The fields may have any length: they are folded as the generator folds
  them. The conversion of the empty text gives the empty text.
\<close>

theorem email_roundtrip:
  assumes "name_compare (env_iequals env) (env_istarts_with env)" "ge_iequals genv = env_iequals env" "ge_istarts_with genv = env_istarts_with env"
    and "env_to_utf env [] [] = Some []"
    and "\<forall>h \<in> set hs. plain_header env h" "sm_unique (env_iequals env) hs" "is_line p" "p \<noteq> [46]"
  shows "\<exists>t r. email_read genv (int (length t)) (email_generator_new (Message hs (Some p) None [])) = Some (Inr (Some t, r))
    \<and> map_option (map_sum id (\<lambda>(n, w). w_parser w)) (email_parser_write env t (email_parser_new message_new))
      = Some (Inr (email_complete, Message hs (Some p) None []))"
proof -
  let ?m = "Message hs (Some p) None []"
  obtain lss where lss: "headers_text genv hs = Inr (crlf_text (concat lss))" "list_all2 header_lines hs lss"
    using headers_text_lines [OF assms(5)] by blast
  have params: "get_encoding_params (env_iequals env) (env_istarts_with env) hs = \<lparr>ep_charset = bytes_of ''US-ASCII'', ep_boundary = None,
      ep_enc = enc_ascii, ep_text_mode = False, ep_format_flowed = False, ep_delete_space = False\<rparr>"
    using assms(5) by (intro name_compare.plain_params [OF assms(1)]) (simp add: plain_header_def)
  let ?t = "crlf_text (concat lss @ [[], p, [46]])"
  have "mail_text genv ?m = Inr ?t"
    using lss(1) by (simp add: assms(2,3) params body_text_def payload_bytes_def crlf_text_append) (simp add: crlf_text_def mail_end_def)
  then obtain r where r: "email_read genv (int (length ?t)) (email_generator_new ?m) = Some (Inr (Some ?t, r))"
    using email_read_enough [of genv ?m ?t "int (length ?t)"] by auto
  have "list_all is_line (concat lss @ [[], p, [46]])"
    using header_lines_are_lines [OF lss(2)] assms(7) by (simp add: is_line_def line_sep_def CR_def LF_def)
  then have "map_option (map_sum id (\<lambda>(n, w). w_parser w)) (email_parser_write env ?t (email_parser_new message_new))
      = email_run env (concat lss @ [[], p, [46]]) (pending None, Message [] None None [])"
    unfolding email_parser_write_def
    by (subst email_write_lines) (simp_all add: email_parser_new_def email_state_new_def message_new_def pending_def)
  also have "\<dots> = email_run env [p, [46]] (to_payload env None True (Message (flushed None [] @ hs) None None []))"
    using assms(4-6) lss(2) fields_run [of hs env None "[]" lss "[p, [46]]"] by (simp add: flushed_def)
  also have "\<dots> = Some (Inr (email_complete, ?m))"
    using assms(8) by (simp add: to_payload_def params flushed_def with_payload_def payload_output_def append_payload_def
      is_child_multipart_begin_def is_parent_multipart_end_def)
  finally show ?thesis using r by blast
qed

theorem email_roundtrip_witness:
  "\<exists>t r. email_read sample_gen_env (int (length t)) (email_generator_new sample_mail) = Some (Inr (Some t, r))
    \<and> map_option (map_sum id (\<lambda>(n, w). w_parser w)) (email_parser_write sample_env t (email_parser_new message_new))
      = Some (Inr (email_complete, sample_mail))"
proof -
  have c: "name_compare (env_iequals sample_env) (env_istarts_with sample_env)" "ge_iequals sample_gen_env = env_iequals sample_env"
      "ge_istarts_with sample_gen_env = env_istarts_with sample_env"
    using ascii.name_compare_axioms by (simp_all add: sample_env_def sample_gen_env_def)
  have "list_all is_word [[98]]" "is_name [65]" "\<not> env_istarts_with sample_env [65] (bytes_of ''Content-'')" by code_simp+
  then have h: "\<forall>h \<in> set [([65], \<lparr>d_data = [98], d_params = []\<rparr>)]. plain_header sample_env h"
    using exI [of "\<lambda>ws. list_all is_word ([98] # ws) \<and> [98] = join_words ([98] # ws)" "[]"] by (auto simp: plain_header_def unencoded_def)
  show ?thesis unfolding sample_mail_def
    by (rule email_roundtrip [OF c _ h]) (simp_all add: sample_env_def is_line_def line_sep_def CR_def LF_def)
qed

end
