(* ===== verification/Smtp_Client.thy ===== *)
theory Smtp_Client
  imports Mime_Header
begin

text \<open>
  The SMTP client (\<^verbatim>\<open>asio/smtp/client.ipp\<close>). Its operations run in a coroutine, so each is sequential
  code over the state of \<open>client::impl\<close>. The socket, the resolver, HMAC-MD5 and the
  case-insensitive searches are a parameter, the record \<open>smtp_io\<close> over the state of the network. An
  operation returns a value or throws, and has a new state in both cases. \<open>sm_ec\<close> is the error code
  of the \<open>yield_context\<close>: \<open>None\<close> when it has none, so that errors are thrown. \<open>sm_sent\<close> records what was written
  to the socket, and whether through TLS; the program has no such field.
\<close>

section \<open>State and environment\<close>

datatype smtp_error = Protocol_Error | Net_Error int

record 'n smtp =
  sm_net :: 'n
  sm_recvbuf :: "byte list"
  sm_tls :: bool
  sm_auth_plain :: bool
  sm_auth_login :: bool
  sm_auth_cram_md5 :: bool
  sm_dump :: "byte list option"
  sm_verbose :: bool
  sm_plaintext_password :: bool
  sm_starttls :: bool
  sm_ec :: "smtp_error option option"
  sm_sent :: "(bool \<times> byte list) list"

record 'n smtp_io =
  io_connect :: "'n \<Rightarrow> byte list \<Rightarrow> byte list \<Rightarrow> 'n \<times> smtp_error option"
  io_remote :: "'n \<Rightarrow> byte list"
  io_write :: "'n \<Rightarrow> bool \<Rightarrow> byte list \<Rightarrow> 'n \<times> smtp_error option"
  io_read_until :: "'n \<Rightarrow> bool \<Rightarrow> byte list \<Rightarrow> 'n \<times> byte list \<times> (smtp_error + nat)"
  io_handshake :: "'n \<Rightarrow> 'n \<times> smtp_error option"
  io_close :: "'n \<Rightarrow> 'n"
  io_host_name :: "byte list"
  io_hmac_md5 :: "byte list \<Rightarrow> byte list \<Rightarrow> byte list"
  io_istarts_with :: name_eq
  io_ifind_first :: name_eq

type_synonym ('n, 'a) smtp_act = "'n smtp \<Rightarrow> (smtp_error + 'a) \<times> 'n smtp"

definition sret :: "'a \<Rightarrow> ('n, 'a) smtp_act" where
  "sret a s = (Inr a, s)"

definition sbind :: "('n, 'a) smtp_act \<Rightarrow> ('a \<Rightarrow> ('n, 'b) smtp_act) \<Rightarrow> ('n, 'b) smtp_act" where
  "sbind f g s = (case f s of (Inl e, s') \<Rightarrow> (Inl e, s') | (Inr a, s') \<Rightarrow> g a s')"

text \<open>\<open>is_error\<close>, and the completion of an asynchronous operation, which sets the error code or throws.\<close>

definition is_error :: "'n smtp \<Rightarrow> bool" where
  "is_error s \<longleftrightarrow> (case sm_ec s of Some (Some _) \<Rightarrow> True | _ \<Rightarrow> False)"

definition complete_op :: "smtp_error option \<Rightarrow> ('n, unit) smtp_act" where
  "complete_op r s =
     (case sm_ec s of
        Some _ \<Rightarrow> (Inr (), s\<lparr>sm_ec := Some r\<rparr>)
      | None \<Rightarrow> (case r of None \<Rightarrow> (Inr (), s) | Some e \<Rightarrow> (Inl e, s)))"

definition set_or_throw_error :: "smtp_error \<Rightarrow> ('n, unit) smtp_act" where
  "set_or_throw_error e = complete_op (Some e)"

definition smtp_dump :: "byte list \<Rightarrow> 'n smtp \<Rightarrow> 'n smtp" where
  "smtp_dump t s = s\<lparr>sm_dump := map_option (\<lambda>d. d @ t) (sm_dump s)\<rparr>"

definition smtp_consume :: "nat \<Rightarrow> 'n smtp \<Rightarrow> 'n smtp" where
  "smtp_consume n s = s\<lparr>sm_recvbuf := drop n (sm_recvbuf s)\<rparr>"

section \<open>Sending\<close>

definition smtp_write :: "'n smtp_io \<Rightarrow> byte list \<Rightarrow> ('n, unit) smtp_act" where
  "smtp_write io buf s =
     (let (net', r) = io_write io (sm_net s) (sm_tls s) buf
      in complete_op r (s\<lparr>sm_net := net', sm_sent := sm_sent s @ [(sm_tls s, buf)]\<rparr>))"

definition smtp_result :: "('n, nat) smtp_act" where
  "smtp_result s = (Inr (if is_error s then 0 else 1), s)"

definition impl_connect :: "'n smtp_io \<Rightarrow> byte list \<Rightarrow> byte list \<Rightarrow> ('n, nat) smtp_act" where
  "impl_connect io host serv s =
     (let (net', r) = io_connect io (sm_net s) host serv
      in sbind (complete_op r) (\<lambda>_ s1. if is_error s1 then (Inr 0, s1) else (Inr 1, smtp_dump (33 # io_remote io (sm_net s1) @ [10]) s1))
           (s\<lparr>sm_net := net'\<rparr>))"

definition send_message :: "'n smtp_io \<Rightarrow> byte list \<Rightarrow> ('n, nat) smtp_act" where
  "send_message io buf s =
     sbind (smtp_write io buf) (\<lambda>_. smtp_result) (smtp_dump ([10, 62] @ take (length buf - 2) buf @ [10]) s)"

text \<open>The loop of \<open>send_data\<close>: pieces of 4096 bytes, until the input ends or a write fails.\<close>

function send_chunks :: "'n smtp_io \<Rightarrow> byte list \<Rightarrow> ('n, unit) smtp_act" where
  "send_chunks io content s =
     (if content = [] then (Inr (), s)
      else let piece = take 4096 content
           in sbind (smtp_write io piece)
                (\<lambda>_ s1. if is_error s1 then (Inr (), s1) else send_chunks io (drop 4096 content) s1)
                (smtp_dump (if sm_verbose s then piece else [46]) s))"
  by auto
termination by (relation "measure (\<lambda>(_, content, _). length content)") auto

declare send_chunks.simps [simp del]

definition send_data :: "'n smtp_io \<Rightarrow> byte list \<Rightarrow> ('n, nat) smtp_act" where
  "send_data io content s =
     sbind (send_chunks io content) (\<lambda>_ s1. smtp_result (smtp_dump [10] s1)) (smtp_dump [10, 62] s)"

section \<open>Receiving\<close>

definition smtp_read :: "'n smtp_io \<Rightarrow> ('n, nat) smtp_act" where
  "smtp_read io s =
     (let (net', buf', r) = io_read_until io (sm_net s) (sm_tls s) (sm_recvbuf s);
          s' = s\<lparr>sm_net := net', sm_recvbuf := buf'\<rparr>
      in case r of
           Inl e \<Rightarrow> sbind (complete_op (Some e)) (\<lambda>_. sret 0) s'
         | Inr n \<Rightarrow> sbind (complete_op None) (\<lambda>_. sret n) s')"

definition response_value :: "byte list \<Rightarrow> nat" where
  "response_value data = (unat (data ! 0) - 48) * 100 + (unat (data ! 1) - 48) * 10 + (unat (data ! 2) - 48)"

definition parse_response_code :: "byte list \<Rightarrow> nat \<Rightarrow> ('n, nat) smtp_act" where
  "parse_response_code data n s =
     (let s1 = smtp_dump (60 # take (n - 2) data @ [10]) s
      in if 6 \<le> n \<and> isdigit (data ! 0) \<and> isdigit (data ! 1) \<and> isdigit (data ! 2) then
           let res = response_value data
           in if 400 \<le> res then sbind (set_or_throw_error Protocol_Error) (\<lambda>_. sret res) s1 else (Inr res, s1)
         else sbind (set_or_throw_error Protocol_Error) (\<lambda>_. sret 0) s1)"

definition receive_code :: "'n smtp_io \<Rightarrow> ('n, nat) smtp_act" where
  "receive_code io =
     sbind (smtp_read io) (\<lambda>n s.
       if is_error s then (Inr 0, s)
       else sbind (parse_response_code (sm_recvbuf s) n) (\<lambda>res s1. (Inr res, smtp_consume n s1)) s)"

definition receive_message :: "'n smtp_io \<Rightarrow> ('n, nat \<times> byte list) smtp_act" where
  "receive_message io =
     sbind (smtp_read io) (\<lambda>n s.
       if is_error s then (Inr (0, []), s)
       else sbind (parse_response_code (sm_recvbuf s) n) (\<lambda>res s1.
              (Inr (res, if is_error s1 then [] else take (n - 6) (drop 4 (sm_recvbuf s1))), smtp_consume n s1)) s)"

text \<open>One line of the reply to EHLO; the flag is \<open>use_starttls\<close>.\<close>

definition ehlo_line :: "'n smtp_io \<Rightarrow> byte list \<Rightarrow> bool \<Rightarrow> 'n smtp \<Rightarrow> bool \<times> 'n smtp" where
  "ehlo_line io message use s =
     (let auth = io_istarts_with io message (bytes_of ''AUTH'');
          s1 = s\<lparr>sm_auth_plain := sm_auth_plain s \<or> auth \<and> io_ifind_first io message (bytes_of ''PLAIN''),
                 sm_auth_login := sm_auth_login s \<or> auth \<and> io_ifind_first io message (bytes_of ''LOGIN''),
                 sm_auth_cram_md5 := sm_auth_cram_md5 s \<or> auth \<and> io_ifind_first io message (bytes_of ''CRAM-MD5'')\<rparr>
      in (use \<or> \<not> sm_tls s \<and> sm_starttls s \<and> io_istarts_with io message (bytes_of ''STARTTLS''), s1))"

partial_function (option) ehlo_loop ::
  "'n smtp_io \<Rightarrow> bool \<Rightarrow> 'n smtp \<Rightarrow> ((smtp_error + nat \<times> bool) \<times> 'n smtp) option" where
  "ehlo_loop io use s =
     (case smtp_read io s of
        (Inl e, s1) \<Rightarrow> Some (Inl e, s1)
      | (Inr n, s1) \<Rightarrow>
          if is_error s1 then Some (Inr (0, use), s1)
          else case parse_response_code (sm_recvbuf s1) n s1 of
            (Inl e, s2) \<Rightarrow> Some (Inl e, s2)
          | (Inr res, s2) \<Rightarrow>
              let data = sm_recvbuf s2;
                  (use', s3) = (if res \<noteq> 0 then ehlo_line io (take (n - 6) (drop 4 data)) use s2 else (use, s2));
                  s4 = smtp_consume n s3
              in if 0 < res \<and> data ! 3 = 45 then ehlo_loop io use' s4 else Some (Inr (res, use'), s4))"

declare ehlo_loop.simps [code]

definition receive_ehlo :: "'n smtp_io \<Rightarrow> 'n smtp \<Rightarrow> ((smtp_error + nat \<times> bool) \<times> 'n smtp) option" where
  "receive_ehlo io = ehlo_loop io False"

section \<open>TLS and authentication\<close>

definition crlf :: "byte list" where
  "crlf = [CR, LF]"

definition start_tls :: "'n smtp_io \<Rightarrow> ('n, nat) smtp_act" where
  "start_tls io =
     sbind (send_message io (bytes_of ''STARTTLS'' @ crlf)) (\<lambda>ok.
       if ok = 0 then sret 0
       else sbind (receive_code io) (\<lambda>res.
         if res = 0 then sret 0
         else (\<lambda>s. let (net', r) = io_handshake io (sm_net s)
                   in sbind (complete_op r) (\<lambda>_ s1. if is_error s1 then (Inr 0, s1) else (Inr res, s1\<lparr>sm_tls := True\<rparr>))
                        (s\<lparr>sm_net := net'\<rparr>))))"

text \<open>The text that a base64 encoder writes into a string.\<close>

definition base64_message :: "byte list \<Rightarrow> byte list" where
  "base64_message bs = base64_encode (\<lambda>s _. s) bs []"

definition hex_lower :: "byte \<Rightarrow> byte" where
  "hex_lower v = (if v < 10 then v + 48 else v + 97 - 10)"

definition hexstring :: "byte list \<Rightarrow> byte list" where
  "hexstring bs = concat (map (\<lambda>b. [hex_lower (drop_bit 4 b), hex_lower (b AND 0x0F)]) bs)"

definition auth_plain :: "'n smtp_io \<Rightarrow> byte list \<Rightarrow> byte list \<Rightarrow> ('n, nat) smtp_act" where
  "auth_plain io user pass =
     sbind (send_message io (bytes_of ''AUTH PLAIN '' @ base64_message (user @ 0 # user @ 0 # pass) @ crlf)) (\<lambda>ok.
       if ok = 0 then sret 0 else receive_code io)"

definition auth_login :: "'n smtp_io \<Rightarrow> byte list \<Rightarrow> byte list \<Rightarrow> ('n, nat) smtp_act" where
  "auth_login io user pass =
     sbind (send_message io (bytes_of ''AUTH LOGIN'' @ crlf)) (\<lambda>ok.
       if ok = 0 then sret 0
       else sbind (receive_code io) (\<lambda>res.
         if res = 0 \<or> 400 \<le> res then sret res
         else sbind (send_message io (base64_message user @ crlf)) (\<lambda>ok.
           if ok = 0 then sret 0
           else sbind (receive_code io) (\<lambda>res.
             if res = 0 \<or> 400 \<le> res then sret res
             else sbind (send_message io (base64_message pass @ crlf)) (\<lambda>ok.
               if ok = 0 then sret 0 else receive_code io)))))"

definition cram_response :: "'n smtp_io \<Rightarrow> byte list \<Rightarrow> byte list \<Rightarrow> byte list \<Rightarrow> byte list" where
  "cram_response io user pass challenge =
     (let (decoded, d, ok) = decoder_write base64_std string_put [] base64_decoder_new challenge
      in base64_message (user @ 32 # hexstring (io_hmac_md5 io pass decoded)))"

definition auth_cram_md5 :: "'n smtp_io \<Rightarrow> byte list \<Rightarrow> byte list \<Rightarrow> ('n, nat) smtp_act" where
  "auth_cram_md5 io user pass =
     sbind (send_message io (bytes_of ''AUTH CRAM-MD5'' @ crlf)) (\<lambda>ok.
       if ok = 0 then sret 0
       else sbind (receive_message io) (\<lambda>(res, buf).
         if res = 0 \<or> 400 \<le> res then sret res
         else sbind (send_message io (cram_response io user pass buf @ crlf)) (\<lambda>ok.
           if ok = 0 then sret 0 else receive_code io)))"

text \<open>\<open>impl::login\<close>.\<close>

definition plain_login :: "'n smtp_io \<Rightarrow> byte list \<Rightarrow> byte list \<Rightarrow> nat \<Rightarrow> ('n, nat) smtp_act" where
  "plain_login io user pass res s =
     (if sm_plaintext_password s \<and> (sm_auth_login s \<or> sm_auth_plain s) then auth_plain io user pass s else (Inr res, s))"

definition smtp_login :: "'n smtp_io \<Rightarrow> byte list \<Rightarrow> byte list \<Rightarrow> ('n, nat) smtp_act" where
  "smtp_login io user pass s =
     (if sm_auth_cram_md5 s then
        sbind (auth_cram_md5 io user pass) (\<lambda>res s1. if res = 0 \<or> \<not> is_error s1 then (Inr res, s1) else plain_login io user pass res s1) s
      else plain_login io user pass 0 s)"

section \<open>Commands\<close>

text \<open>The constructor; the flags are \<open>no_starttls\<close> (1) and \<open>no_plaintext_password\<close> (2).\<close>

definition smtp_new :: "'n \<Rightarrow> 32 word \<Rightarrow> smtp_error option option \<Rightarrow> 'n smtp" where
  "smtp_new net flags ec =
     \<lparr>sm_net = net, sm_recvbuf = [], sm_tls = False, sm_auth_plain = False, sm_auth_login = False, sm_auth_cram_md5 = False,
      sm_dump = None, sm_verbose = False, sm_plaintext_password = (flags AND 2 = 0), sm_starttls = (flags AND 1 = 0),
      sm_ec = ec, sm_sent = []\<rparr>"

definition smtp_connect :: "'n smtp_io \<Rightarrow> byte list \<Rightarrow> byte list \<Rightarrow> ('n, nat) smtp_act" where
  "smtp_connect io host serv = sbind (impl_connect io host serv) (\<lambda>ok. if ok = 0 then sret 0 else receive_code io)"

text \<open>A command of one line with its reply, as \<open>helo\<close>, \<open>mail\<close> and \<open>rcpt\<close> have it.\<close>

definition smtp_command :: "'n smtp_io \<Rightarrow> byte list \<Rightarrow> ('n, nat) smtp_act" where
  "smtp_command io buf = sbind (send_message io buf) (\<lambda>ok. if ok = 0 then sret 0 else receive_code io)"

definition smtp_helo :: "'n smtp_io \<Rightarrow> byte list \<Rightarrow> ('n, nat) smtp_act" where
  "smtp_helo io hostname = smtp_command io (bytes_of ''HELO '' @ (if hostname = [] then io_host_name io else hostname) @ crlf)"

definition smtp_ehlo :: "'n smtp_io \<Rightarrow> byte list \<Rightarrow> 'n smtp \<Rightarrow> ((smtp_error + nat) \<times> 'n smtp) option" where
  "smtp_ehlo io hostname s =
     (let buf = bytes_of ''EHLO '' @ (if hostname = [] then io_host_name io else hostname) @ crlf
      in case send_message io buf s of
           (Inl e, s1) \<Rightarrow> Some (Inl e, s1)
         | (Inr ok, s1) \<Rightarrow>
             if ok = 0 then Some (Inr 0, s1)
             else case receive_ehlo io s1 of
               None \<Rightarrow> None
             | Some (Inl e, s2) \<Rightarrow> Some (Inl e, s2)
             | Some (Inr (res, use), s2) \<Rightarrow>
                 if \<not> use then Some (Inr res, s2)
                 else case start_tls io s2 of
                   (Inl e, s3) \<Rightarrow> Some (Inl e, s3)
                 | (Inr res', s3) \<Rightarrow>
                     if res' = 0 \<or> 400 \<le> res' then Some (Inr res', s3)
                     else case send_message io buf s3 of
                       (Inl e, s4) \<Rightarrow> Some (Inl e, s4)
                     | (Inr ok', s4) \<Rightarrow>
                         if ok' = 0 then Some (Inr 0, s4)
                         else map_option (\<lambda>(r, s5). (map_sum id fst r, s5)) (receive_ehlo io s4))"

definition smtp_mail :: "'n smtp_io \<Rightarrow> byte list \<Rightarrow> ('n, nat) smtp_act" where
  "smtp_mail io address = smtp_command io (bytes_of ''MAIL FROM: <'' @ address @ [62] @ crlf)"

definition smtp_rcpt :: "'n smtp_io \<Rightarrow> byte list \<Rightarrow> ('n, nat) smtp_act" where
  "smtp_rcpt io address = smtp_command io (bytes_of ''RCPT TO: <'' @ address @ [62] @ crlf)"

definition smtp_data :: "'n smtp_io \<Rightarrow> byte list \<Rightarrow> ('n, nat) smtp_act" where
  "smtp_data io content =
     sbind (send_message io (bytes_of ''DATA'' @ crlf)) (\<lambda>ok.
       if ok = 0 then sret 0
       else sbind (receive_code io) (\<lambda>res.
         if res \<noteq> 354 then sret res
         else sbind (send_data io content) (\<lambda>ok. if ok = 0 then sret 0 else receive_code io)))"

definition smtp_quit :: "'n smtp_io \<Rightarrow> ('n, nat) smtp_act" where
  "smtp_quit io =
     sbind (send_message io (bytes_of ''QUIT'' @ crlf)) (\<lambda>ok.
       if ok = 0 then sret 0
       else sbind (receive_code io) (\<lambda>res s. if res = 0 then (Inr res, s) else (Inr res, s\<lparr>sm_net := io_close io (sm_net s)\<rparr>)))"

definition dump_socketstream :: "bool \<Rightarrow> 'n smtp \<Rightarrow> 'n smtp" where
  "dump_socketstream verbose s = s\<lparr>sm_dump := Some [], sm_verbose := verbose\<rparr>"

section \<open>What every operation keeps\<close>

definition keeps :: "('n smtp \<Rightarrow> bool) \<Rightarrow> ('n, 'a) smtp_act \<Rightarrow> bool" where
  "keeps P f \<longleftrightarrow> (\<forall>s. P s \<longrightarrow> P (snd (f s)))"

lemma keepsI: "(\<And>s. P s \<Longrightarrow> P (snd (f s))) \<Longrightarrow> keeps P f"
  by (simp add: keeps_def)

lemma keepsD: "keeps P f \<Longrightarrow> P s \<Longrightarrow> P (snd (f s))"
  by (simp add: keeps_def)

lemma keeps_sbind: "keeps P f \<Longrightarrow> (\<And>a. keeps P (g a)) \<Longrightarrow> keeps P (sbind f g)"
  by (auto simp: keeps_def sbind_def split: prod.splits sum.splits)

lemma keeps_sret: "keeps P (sret a)"
  by (simp add: keeps_def sret_def)

lemma keeps_if: "keeps P f \<Longrightarrow> keeps P g \<Longrightarrow> keeps P (if b then f else g)"
  by simp

lemmas keeps_rules = keeps_sbind keeps_sret keeps_if

text \<open>
  Predicates that depend on TLS, the messages that were sent and the password flag only: receiving keeps them.
\<close>

locale smtp_frame =
  fixes P :: "'n smtp \<Rightarrow> bool"
  assumes frame: "P s \<Longrightarrow> sm_tls s' = sm_tls s \<Longrightarrow> sm_sent s' = sm_sent s \<Longrightarrow> sm_plaintext_password s' = sm_plaintext_password s \<Longrightarrow> P s'"
begin

lemma keeps_complete_op: "keeps P (complete_op r)"
  by (rule keepsI) (auto simp: complete_op_def intro: frame split: option.splits)

lemma keeps_completed: "P s \<Longrightarrow> P (snd (sbind (complete_op r) (\<lambda>_. sret a) s))"
  by (rule keepsD [OF keeps_sbind [OF keeps_complete_op keeps_sret]])

lemma keeps_update:
  "P s \<Longrightarrow> keeps P f \<Longrightarrow> sm_tls s' = sm_tls s \<Longrightarrow> sm_sent s' = sm_sent s \<Longrightarrow> sm_plaintext_password s' = sm_plaintext_password s \<Longrightarrow> P (snd (f s'))"
  using frame keepsD by blast

lemma keeps_result: "keeps P smtp_result"
  by (rule keepsI) (simp add: smtp_result_def)

lemma keeps_smtp_read: "keeps P (smtp_read io)"
proof (rule keepsI)
  fix s :: "'n smtp"
  assume "P s"
  then have "P (s\<lparr>sm_net := net', sm_recvbuf := buf'\<rparr>)" for net' buf' by (rule frame) simp_all
  then show "P (snd (smtp_read io s))" 
    by (auto simp: smtp_read_def Let_def keeps_completed split: prod.splits sum.splits)
qed

lemma keeps_parse: "keeps P (parse_response_code data n)"
proof (rule keepsI)
  fix s :: "'n smtp"
  assume "P s"
  then have "P (smtp_dump t s)" for t by (rule frame) (simp_all add: smtp_dump_def)
  then show "P (snd (parse_response_code data n s))" 
    by (simp add: keeps_completed parse_response_code_def set_or_throw_error_def Let_def)
qed

lemma keeps_net: "P s \<Longrightarrow> P (s\<lparr>sm_net := net'\<rparr>)"
  by (erule frame) simp_all

lemma keeps_consume: "P s \<Longrightarrow> P (smtp_consume n s)"
  by (erule frame) (simp_all add: smtp_consume_def)

lemma keeps_receive_code: "keeps P (receive_code io)"
  unfolding receive_code_def
proof (rule keeps_sbind [OF keeps_smtp_read], rule keepsI)
  fix n and s :: "'n smtp"
  assume "P s"
  moreover have "keeps P (sbind (parse_response_code (sm_recvbuf s) n) (\<lambda>res s1. (Inr res, smtp_consume n s1)))"
    by (rule keeps_sbind [OF keeps_parse], rule keepsI) (simp add: keeps_consume)
  ultimately show "P (snd (if is_error s then (Inr 0, s) else sbind (parse_response_code (sm_recvbuf s) n) (\<lambda>res s1. (Inr res, smtp_consume n s1)) s))"
    by (simp add: keepsD)
qed

lemma keeps_receive_message: "keeps P (receive_message io)"
  unfolding receive_message_def
proof (rule keeps_sbind [OF keeps_smtp_read], rule keepsI)
  fix n and s :: "'n smtp"
  assume "P s"
  moreover have "keeps P (sbind (parse_response_code (sm_recvbuf s) n) (\<lambda>res s1. (Inr (res, if is_error s1 then [] else take (n - 6) (drop 4 (sm_recvbuf s1))), smtp_consume n s1)))"
    by (rule keeps_sbind [OF keeps_parse], rule keepsI) (simp add: keeps_consume)
  ultimately show "P (snd (if is_error s then (Inr (0, []), s) else sbind (parse_response_code (sm_recvbuf s) n)
      (\<lambda>res s1. (Inr (res, if is_error s1 then [] else take (n - 6) (drop 4 (sm_recvbuf s1))), smtp_consume n s1)) s))"
    by (simp add: keepsD)
qed

lemma keeps_ehlo_line: "P s \<Longrightarrow> P (snd (ehlo_line io message use s))"
  by (erule frame) (simp_all add: ehlo_line_def Let_def)

lemma keeps_ehlo_loop: "ehlo_loop io use s = Some r \<Longrightarrow> P s \<longrightarrow> P (snd r)"
proof (erule ehlo_loop.raw_induct [where P = "\<lambda>io use s r. P s \<longrightarrow> P (snd r)", rotated], rule impI)
  fix loop io use s r
  assume IH: "\<And>io use s r. loop io use s = Some r \<Longrightarrow> P s \<longrightarrow> P (snd r)" and "P s"
    and body: "(case smtp_read io s of
        (Inl e, s1) \<Rightarrow> Some (Inl e, s1)
      | (Inr n, s1) \<Rightarrow>
          if is_error s1 then Some (Inr (0, use), s1)
          else case parse_response_code (sm_recvbuf s1) n s1 of
            (Inl e, s2) \<Rightarrow> Some (Inl e, s2)
          | (Inr res, s2) \<Rightarrow>
              let data = sm_recvbuf s2;
                  (use', s3) = (if res \<noteq> 0 then ehlo_line io (take (n - 6) (drop 4 data)) use s2 else (use, s2));
                  s4 = smtp_consume n s3
              in if 0 < res \<and> data ! 3 = 45 then loop io use' s4 else Some (Inr (res, use'), s4)) = Some r"
  obtain x s1 where s1: "smtp_read io s = (x, s1)" "P s1" using keepsD [OF keeps_smtp_read \<open>P s\<close>, of io] by (cases "smtp_read io s") simp
  show "P (snd r)"
  proof (cases "\<exists>n res s2. x = Inr n \<and> \<not> is_error s1 \<and> parse_response_code (sm_recvbuf s1) n s1 = (Inr res, s2)")
    case True
    then obtain n res s2 where n: "x = Inr n" "\<not> is_error s1" "parse_response_code (sm_recvbuf s1) n s1 = (Inr res, s2)" by blast
    then have "P s2" using keepsD [OF keeps_parse s1(2), of "sm_recvbuf s1" n] by simp
    obtain use' s3 where s3: "(if res \<noteq> 0 then ehlo_line io (take (n - 6) (drop 4 (sm_recvbuf s2))) use s2 else (use, s2)) = (use', s3)" by fastforce
    then have "P (smtp_consume n s3)" using \<open>P s2\<close> keeps_ehlo_line [OF \<open>P s2\<close>] by (intro keeps_consume) (metis snd_conv)
    then show ?thesis using body s1 n s3 IH [of io use' "smtp_consume n s3" r] by (auto simp: Let_def split: if_splits)
  next
    case False
    moreover have "P s2" if "parse_response_code data n s1 = (y, s2)" for data n y s2
      using keepsD [OF keeps_parse s1(2), of data n] that by simp
    ultimately show ?thesis using body s1 by (auto split: sum.splits prod.splits if_splits)
  qed
qed

end

text \<open>When writes and the handshake keep them, so does every command.\<close>

locale smtp_predicate = smtp_frame P for P :: "'n smtp \<Rightarrow> bool" +
  assumes written: "P s \<Longrightarrow> P (s\<lparr>sm_sent := sm_sent s @ [(sm_tls s, buf)]\<rparr>)"
    and tls_on: "P s \<Longrightarrow> P (s\<lparr>sm_tls := True\<rparr>)"
begin

lemma keeps_smtp_write: "keeps P (smtp_write io buf)"
proof (rule keepsI)
  fix s :: "'n smtp"
  assume "P s"
  then have "P (s\<lparr>sm_sent := sm_sent s @ [(sm_tls s, buf)]\<rparr>)" by (rule written)
  then have "P (s\<lparr>sm_net := net', sm_sent := sm_sent s @ [(sm_tls s, buf)]\<rparr>)" for net' by (rule frame) simp_all
  then show "P (snd (smtp_write io buf s))" using keepsD [OF keeps_complete_op]
    by (auto simp: smtp_write_def split: prod.splits)
qed

lemma keeps_send_message: "keeps P (send_message io buf)"
  unfolding send_message_def
  by (rule keepsI, erule keeps_update) (simp_all add: keeps_rules keeps_smtp_write keeps_result smtp_dump_def)

lemma keeps_send_chunks: "P s \<Longrightarrow> P (snd (send_chunks io content s))"
proof (induction io content s rule: send_chunks.induct)
  case (1 io content s)
  have w: "P (snd (smtp_write io (take 4096 content) (smtp_dump t s)))" for t
    by (rule keeps_update [OF 1(2) keeps_smtp_write]) (simp_all add: smtp_dump_def)
  show ?case
  proof (cases "content = []")
    case True
    then show ?thesis using 1(2) by (simp add: send_chunks.simps)
  next
    case False
    obtain r s1 where s1: "smtp_write io (take 4096 content) (smtp_dump (if sm_verbose s then take 4096 content else [46]) s) = (r, s1)"
      by fastforce
    have "P s1" using w [of "if sm_verbose s then take 4096 content else [46]"] s1 by simp
    then show ?thesis using False 1(1) [OF False refl] s1
      by (auto simp: send_chunks.simps [of io content s] sbind_def Let_def split: sum.splits)
  qed
qed

lemma keeps_send_data: "keeps P (send_data io content)"
proof (rule keepsI)
  fix s :: "'n smtp"
  assume "P s"
  have "keeps P (sbind (send_chunks io content) (\<lambda>_ s1. smtp_result (smtp_dump [10] s1)))"
    by (rule keeps_sbind, rule keepsI, erule keeps_send_chunks, rule keepsI, erule keeps_update [OF _ keeps_result])
      (simp_all add: smtp_dump_def)
  then show "P (snd (send_data io content s))"
    unfolding send_data_def by (rule keeps_update [OF \<open>P s\<close>]) (simp_all add: smtp_dump_def)
qed

lemma keeps_command: "keeps P (smtp_command io buf)"
  unfolding smtp_command_def by (intro keeps_rules keeps_send_message keeps_receive_code)

lemma keeps_connect: "keeps P (smtp_connect io host serv)"
proof -
  have "keeps P (impl_connect io host serv)"
  proof (rule keepsI)
    fix s :: "'n smtp"
    assume "P s"
    have "keeps P (\<lambda>s1. if is_error s1 then (Inr 0, s1) else (Inr 1, smtp_dump (33 # io_remote io (sm_net s1) @ [10]) s1))"
      by (rule keepsI) (auto intro: frame simp: smtp_dump_def)
    note h = keeps_sbind [OF keeps_complete_op this]
    show "P (snd (impl_connect io host serv s))"
      using \<open>P s\<close> by (auto simp: impl_connect_def split: prod.splits intro: keepsD [OF h keeps_net])
  qed
  then show ?thesis unfolding smtp_connect_def by (intro keeps_rules keeps_receive_code)
qed

lemma keeps_start_tls: "keeps P (start_tls io)"
proof -
  have "keeps P (\<lambda>s1. if is_error s1 then (Inr 0, s1) else (Inr res, s1\<lparr>sm_tls := True\<rparr>))" for res
    by (rule keepsI) (simp add: tls_on)
  note h = keeps_sbind [OF keeps_complete_op this]
  have "keeps P (\<lambda>s. let (net', r) = io_handshake io (sm_net s)
      in sbind (complete_op r) (\<lambda>_ s1. if is_error s1 then (Inr 0, s1) else (Inr res, s1\<lparr>sm_tls := True\<rparr>)) (s\<lparr>sm_net := net'\<rparr>))" for res
    by (rule keepsI) (auto split: prod.splits intro: keeps_update [OF _ h])
  then show ?thesis unfolding start_tls_def
    by (intro keeps_rules keeps_send_message keeps_receive_code)
qed

lemma keeps_cram_md5: "keeps P (auth_cram_md5 io user pass)"
  unfolding auth_cram_md5_def
  by (intro keeps_rules keeps_send_message keeps_receive_code keeps_receive_message)
    (simp add: keeps_rules keeps_send_message keeps_receive_code split: prod.splits)

lemma keeps_login: "keeps P (smtp_login io user pass)"
proof (rule keepsI)
  fix s :: "'n smtp"
  assume "P s"
  have "keeps P (auth_plain io user pass)" unfolding auth_plain_def
    by (intro keeps_rules keeps_send_message keeps_receive_code)
  then have plain: "keeps P (plain_login io user pass res)" for res
    by (auto simp: keeps_def plain_login_def)
  have k: "keeps P (\<lambda>s1. if res = 0 \<or> \<not> is_error s1 then (Inr res, s1) else plain_login io user pass res s1)" for res
    using plain [of res] by (simp add: keeps_def)
  show "P (snd (smtp_login io user pass s))"
    using keepsD [OF keeps_sbind [OF keeps_cram_md5 k] \<open>P s\<close>, of io user pass] keepsD [OF plain \<open>P s\<close>, of 0]
    by (simp add: smtp_login_def)
qed

lemma keeps_data: "keeps P (smtp_data io content)"
  unfolding smtp_data_def by (intro keeps_rules keeps_send_message keeps_receive_code keeps_send_data)

lemma keeps_quit: "keeps P (smtp_quit io)"
  unfolding smtp_quit_def
  by (intro keeps_rules keeps_send_message keeps_receive_code) (auto intro!: keepsI keeps_net)

lemma keeps_ehlo: "smtp_ehlo io hostname s = Some r \<Longrightarrow> P s \<Longrightarrow> P (snd r)"
  using keepsD [OF keeps_send_message] keepsD [OF keeps_start_tls] keeps_ehlo_loop
  by (auto simp: smtp_ehlo_def receive_ehlo_def Let_def split: prod.splits sum.splits option.splits if_splits) (metis snd_conv)+

end

section \<open>Sessions\<close>

text \<open>
  A session: any commands in any order, with any arguments, each with a \<open>yield_context\<close> of its own,
  whether they return or throw.
\<close>

inductive smtp_session :: "'n smtp_io \<Rightarrow> 'n smtp \<Rightarrow> 'n smtp \<Rightarrow> bool" for io s0 where
  start: "smtp_session io s0 s0"
| yield: "smtp_session io s0 s \<Longrightarrow> smtp_session io s0 (s\<lparr>sm_ec := ec\<rparr>)"
| connect: "smtp_session io s0 s \<Longrightarrow> smtp_session io s0 (snd (smtp_connect io host serv s))"
| helo: "smtp_session io s0 s \<Longrightarrow> smtp_session io s0 (snd (smtp_helo io hostname s))"
| ehlo: "smtp_session io s0 s \<Longrightarrow> smtp_ehlo io hostname s = Some r \<Longrightarrow> smtp_session io s0 (snd r)"
| login: "smtp_session io s0 s \<Longrightarrow> smtp_session io s0 (snd (smtp_login io user pass s))"
| mail: "smtp_session io s0 s \<Longrightarrow> smtp_session io s0 (snd (smtp_mail io address s))"
| rcpt: "smtp_session io s0 s \<Longrightarrow> smtp_session io s0 (snd (smtp_rcpt io address s))"
| data: "smtp_session io s0 s \<Longrightarrow> smtp_session io s0 (snd (smtp_data io content s))"
| quit: "smtp_session io s0 s \<Longrightarrow> smtp_session io s0 (snd (smtp_quit io s))"
| dump: "smtp_session io s0 s \<Longrightarrow> smtp_session io s0 (dump_socketstream verbose s)"

context smtp_predicate
begin

lemma session_keeps: "smtp_session io s0 s \<Longrightarrow> P s0 \<Longrightarrow> P s"
proof (induction rule: smtp_session.induct)
  case (yield s ec)
  show ?case by (rule frame [OF yield.IH [OF yield.prems]]) simp_all
next
  case (ehlo s hostname r)
  then show ?case using keeps_ehlo by blast
next
  case (dump s verbose)
  show ?case by (rule frame [OF dump.IH [OF dump.prems]]) (simp_all add: dump_socketstream_def)
qed (simp_all add: smtp_helo_def smtp_mail_def smtp_rcpt_def keepsD keeps_connect keeps_command keeps_login keeps_data keeps_quit)

end

text \<open>Plain messages come before the encrypted ones, and without TLS there are plain ones only.\<close>

definition tls_order :: "'n smtp \<Rightarrow> bool" where
  "tls_order s \<longleftrightarrow> (\<exists>plain secret. sm_sent s = map (Pair False) plain @ map (Pair True) secret \<and> (secret \<noteq> [] \<longrightarrow> sm_tls s))"

lemma tls_order_write:
  assumes "tls_order s"
  shows "tls_order (s\<lparr>sm_sent := sm_sent s @ [(sm_tls s, buf)]\<rparr>)"
proof -
  obtain plain secret where s: "sm_sent s = map (Pair False) plain @ map (Pair True) secret" "secret \<noteq> [] \<longrightarrow> sm_tls s"
    using assms by (auto simp: tls_order_def)
  then have "sm_sent s @ [(sm_tls s, buf)]
      = map (Pair False) (if sm_tls s then plain else plain @ [buf]) @ map (Pair True) (if sm_tls s then secret @ [buf] else [])"
    by auto
  then have "sm_sent (s\<lparr>sm_sent := sm_sent s @ [(sm_tls s, buf)]\<rparr>)
      = map (Pair False) (if sm_tls s then plain else plain @ [buf]) @ map (Pair True) (if sm_tls s then secret @ [buf] else [])" by simp
  moreover have "(if sm_tls s then secret @ [buf] else []) \<noteq> [] \<longrightarrow> sm_tls (s\<lparr>sm_sent := sm_sent s @ [(sm_tls s, buf)]\<rparr>)" by simp
  ultimately show ?thesis unfolding tls_order_def by blast
qed

interpretation tls_order: smtp_predicate tls_order
proof
  show "tls_order s'" if "tls_order s" "sm_tls s' = sm_tls s" "sm_sent s' = sm_sent s" for s s' :: "'n smtp"
    using that by (simp add: tls_order_def)
  show "tls_order (s\<lparr>sm_sent := sm_sent s @ [(sm_tls s, buf)]\<rparr>)" if "tls_order s" for s :: "'n smtp" and buf
    using that by (rule tls_order_write)
  show "tls_order (s\<lparr>sm_tls := True\<rparr>)" if "tls_order s" for s :: "'n smtp"
    using that by (auto simp: tls_order_def)
qed

text \<open>Messages from \<open>l\<close> on that are sent through TLS.\<close>

definition tls_since :: "(bool \<times> byte list) list \<Rightarrow> 'n smtp \<Rightarrow> bool" where
  "tls_since l s \<longleftrightarrow> sm_tls s \<and> (\<exists>secret. sm_sent s = l @ map (Pair True) secret)"

lemma tls_since_write: "tls_since l s \<Longrightarrow> tls_since l (s\<lparr>sm_sent := sm_sent s @ [(sm_tls s, buf)]\<rparr>)"
proof -
  assume "tls_since l s"
  then obtain secret where "sm_tls s" "sm_sent s = l @ map (Pair True) secret" by (auto simp: tls_since_def)
  then have "sm_sent s @ [(sm_tls s, buf)] = l @ map (Pair True) (secret @ [buf])" by simp
  then show ?thesis using \<open>sm_tls s\<close> by (auto simp: tls_since_def simp del: map_append)
qed

interpretation tls_since: smtp_predicate "tls_since l"
proof
  show "tls_since l s'" if "tls_since l s" "sm_tls s' = sm_tls s" "sm_sent s' = sm_sent s" for s s' :: "'n smtp"
    using that by (simp add: tls_since_def)
  show "tls_since l (s\<lparr>sm_sent := sm_sent s @ [(sm_tls s, buf)]\<rparr>)" if "tls_since l s" for s :: "'n smtp" and buf
    using that by (rule tls_since_write)
  show "tls_since l (s\<lparr>sm_tls := True\<rparr>)" if "tls_since l s" for s :: "'n smtp"
    using that by (auto simp: tls_since_def)
qed

text \<open>Receiving sends nothing and keeps the connection.\<close>

interpretation sent: smtp_frame "\<lambda>s. sm_sent s = l \<and> sm_tls s = b"
  by unfold_locales simp

lemma receive_code_sent [simp]: "sm_sent (snd (receive_code io s)) = sm_sent s" "sm_tls (snd (receive_code io s)) = sm_tls s"
  using keepsD [OF sent.keeps_receive_code, of s "sm_sent s" "sm_tls s" io] by simp_all

lemma complete_op_sent [simp]: "sm_sent (snd (complete_op r s)) = sm_sent s" "sm_tls (snd (complete_op r s)) = sm_tls s"
  using keepsD [OF sent.keeps_complete_op, of s "sm_sent s" "sm_tls s" r] by simp_all

lemma receive_ehlo_sent: "receive_ehlo io s = Some (r, s') \<Longrightarrow> sm_sent s' = sm_sent s \<and> sm_tls s' = sm_tls s"
  using sent.keeps_ehlo_loop [of io False s "(r, s')" "sm_sent s" "sm_tls s"] by (simp add: receive_ehlo_def)

lemma smtp_write_sent [simp]: "sm_sent (snd (smtp_write io buf s)) = sm_sent s @ [(sm_tls s, buf)]" "sm_tls (snd (smtp_write io buf s)) = sm_tls s"
  by (simp_all add: smtp_write_def split_beta)

lemma sbind_result: "snd (sbind f (\<lambda>_. smtp_result) s) = snd (f s)"
  by (simp add: sbind_def smtp_result_def split: prod.split sum.split)

lemma send_message_sent [simp]: "sm_sent (snd (send_message io buf s)) = sm_sent s @ [(sm_tls s, buf)]" "sm_tls (snd (send_message io buf s)) = sm_tls s"
  by (simp_all add: send_message_def sbind_result smtp_dump_def)

text \<open>\<open>start_tls\<close> returns a code other than 0 behind a handshake only, and then the client uses TLS.\<close>

lemma start_tls_on:
  assumes "start_tls io s = (Inr res, s')" "res \<noteq> 0"
  shows "sm_tls s' \<and> sm_sent s' = sm_sent s @ [(sm_tls s, bytes_of ''STARTTLS'' @ crlf)] \<and> (\<exists>net net'. io_handshake io net = (net', None) \<and> sm_net s' = net')"
proof -
  let ?buf = "bytes_of ''STARTTLS'' @ crlf"
  obtain x s1 where x: "send_message io ?buf s = (x, s1)" by fastforce
  obtain y s2 where y: "receive_code io s1 = (y, s2)" by fastforce
  obtain net' h where h: "io_handshake io (sm_net s2) = (net', h)" by fastforce
  obtain z s3 where z: "complete_op h (s2\<lparr>sm_net := net'\<rparr>) = (z, s3)" by fastforce
  have sent: "sm_sent s3 = sm_sent s @ [(sm_tls s, ?buf)]"
    using send_message_sent(1) [of io ?buf s] receive_code_sent(1) [of io s1] complete_op_sent(1) [of h "s2\<lparr>sm_net := net'\<rparr>"] x y z by simp
  obtain u v where u: "x = Inr u" "u \<noteq> 0" "y = Inr v" "v \<noteq> 0" "z = Inr ()" "\<not> is_error s3" "s' = s3\<lparr>sm_tls := True\<rparr>"
    using assms x y h z by (auto simp: start_tls_def sbind_def sret_def Let_def split: sum.splits if_splits)
  have "h = None \<and> sm_net s3 = net'" using z u(5,6) by (auto simp: complete_op_def is_error_def split: option.splits)
  then show ?thesis using sent u(7) h by auto
qed

section \<open>Networks\<close>

text \<open>The position behind the first line break.\<close>

fun crlf_end :: "byte list \<Rightarrow> nat option" where
  "crlf_end (x # y # xs) = (if x = CR \<and> y = LF then Some 2 else map_option Suc (crlf_end (y # xs)))"
| "crlf_end _ = None"

text \<open>
  What \<open>async_read_until\<close> promises: it reads nothing when the buffer has a line, and a line
  that it returns is in the buffer, which has only grown. \<open>left\<close> is what the peer still sends.
\<close>

locale smtp_network =
  fixes io :: "'n smtp_io" and left :: "'n \<Rightarrow> nat"
  assumes read_buffered: "crlf_end buf = Some n \<Longrightarrow> io_read_until io net tls buf = (net, buf, Inr n)"
    and read_line: "io_read_until io net tls buf = (net', buf', Inr n) \<Longrightarrow>
      crlf_end buf' = Some n \<and> (\<exists>ext. buf' = buf @ ext \<and> length ext + left net' \<le> left net)"

text \<open>A peer that sends given pieces, in the clear and through TLS, and takes everything.\<close>

record peer =
  p_plain :: "byte list list"
  p_secret :: "byte list list"

fun read_pieces :: "byte list \<Rightarrow> byte list list \<Rightarrow> byte list list \<times> byte list \<times> (smtp_error + nat)" where
  "read_pieces buf ps =
     (case crlf_end buf of
        Some n \<Rightarrow> (ps, buf, Inr n)
      | None \<Rightarrow> (case ps of [] \<Rightarrow> ([], buf, Inl (Net_Error 2)) | p # ps' \<Rightarrow> read_pieces (buf @ p) ps'))"

declare read_pieces.simps [simp del]

definition peer_io :: "(byte list \<Rightarrow> byte list \<Rightarrow> byte list) \<Rightarrow> peer smtp_io" where
  "peer_io hmac =
     \<lparr>io_connect = (\<lambda>net _ _. (net, None)), io_remote = (\<lambda>_. []), io_write = (\<lambda>net _ _. (net, None)),
      io_read_until = (\<lambda>net tls buf.
        let (ps, buf', r) = read_pieces buf (if tls then p_secret net else p_plain net)
        in (if tls then net\<lparr>p_secret := ps\<rparr> else net\<lparr>p_plain := ps\<rparr>, buf', r)),
      io_handshake = (\<lambda>net. (net, None)), io_close = id, io_host_name = [104], io_hmac_md5 = hmac,
      io_istarts_with = (\<lambda>s p. ascii_iequal (take (length p) s) p),
      io_ifind_first = (\<lambda>s p. \<exists>i \<in> set [0..<length s + 1]. ascii_iequal (take (length p) (drop i s)) p)\<rparr>"

lemma read_pieces_line:
  "read_pieces buf ps = (ps', buf', Inr n) \<Longrightarrow>
   crlf_end buf' = Some n \<and> (\<exists>ext. buf' = buf @ ext \<and> length ext + length (concat ps') = length (concat ps))"
proof (induction ps arbitrary: buf)
  case Nil
  then show ?case by (auto simp: read_pieces.simps [of buf "[]"] split: option.splits)
next
  case (Cons p ps)
  show ?case
  proof (cases "crlf_end buf")
    case None
    then have "read_pieces (buf @ p) ps = (ps', buf', Inr n)" using Cons.prems by (simp add: read_pieces.simps [of buf])
    then show ?thesis using Cons.IH [of "buf @ p"] by fastforce
  next
    case (Some m)
    then show ?thesis using Cons.prems by (auto simp: read_pieces.simps [of buf])
  qed
qed

interpretation peer: smtp_network "peer_io hmac" "\<lambda>net. length (concat (p_plain net)) + length (concat (p_secret net))"
proof
  fix buf n net tls
  assume "crlf_end buf = Some n"
  then show "io_read_until (peer_io hmac) net tls buf = (net, buf, Inr n)"
    by (simp add: peer_io_def read_pieces.simps)
next
  fix net tls buf net' buf' n
  assume "io_read_until (peer_io hmac) net tls buf = (net', buf', Inr n)"
  then obtain ps where "read_pieces buf (if tls then p_secret net else p_plain net) = (ps, buf', Inr n)"
      "net' = (if tls then net\<lparr>p_secret := ps\<rparr> else net\<lparr>p_plain := ps\<rparr>)"
    by (auto simp: peer_io_def Let_def split: prod.splits)
  then show "crlf_end buf' = Some n \<and> (\<exists>ext. buf' = buf @ ext
      \<and> length ext + (length (concat (p_plain net')) + length (concat (p_secret net'))) \<le> length (concat (p_plain net)) + length (concat (p_secret net)))"
    using read_pieces_line [of buf _ ps buf' n] by (cases tls) fastforce+
qed

section \<open>Replies\<close>

text \<open>The text of a reply: a code, the separator and the text of each line.\<close>

definition code_digits :: "nat \<Rightarrow> byte list" where
  "code_digits c = map (\<lambda>d. word_of_nat (48 + d)) [c div 100 mod 10, c div 10 mod 10, c mod 10]"

definition reply_line :: "nat \<Rightarrow> byte \<Rightarrow> byte list \<Rightarrow> byte list" where
  "reply_line c sep t = code_digits c @ sep # t @ crlf"

fun reply_text :: "nat \<Rightarrow> byte list list \<Rightarrow> byte list" where
  "reply_text c [] = []"
| "reply_text c [t] = reply_line c 32 t"
| "reply_text c (t # t' # ts) = reply_line c 45 t @ reply_text c (t' # ts)"

lemma crlf_end_line: "CR \<notin> set xs \<Longrightarrow> crlf_end (xs @ crlf @ rest) = Some (length xs + 2)"
proof (induction xs)
  case Nil
  then show ?case by (simp add: crlf_def)
next
  case (Cons x xs)
  obtain y ys where y: "xs @ crlf @ rest = y # ys" by (cases xs) (auto simp: crlf_def)
  then have "crlf_end ((x # xs) @ crlf @ rest) = map_option Suc (crlf_end (xs @ crlf @ rest))" using Cons.prems by auto
  then show ?case using Cons by simp
qed

lemma digit_byte:
  assumes "d < 10"
  shows "isdigit (word_of_nat (48 + d))" "unat (word_of_nat (48 + d) :: byte) = 48 + d" "(word_of_nat (48 + d) :: byte) \<noteq> CR"
proof -
  show u: "unat (word_of_nat (48 + d) :: byte) = 48 + d" using assms by (simp add: unat_of_nat del: of_nat_add)
  then show "isdigit (word_of_nat (48 + d))" using assms by (simp add: isdigit_def word_le_nat_alt del: of_nat_add)
  have "unat CR = 13" by (simp add: CR_def)
  moreover have "48 + d \<noteq> 13" by simp
  ultimately show "(word_of_nat (48 + d) :: byte) \<noteq> CR" using u by metis
qed

lemma code_value: "c < 1000 \<Longrightarrow> response_value (code_digits c @ rest) = c"
proof -
  assume "c < 1000"
  have "c div 10 * 10 + c mod 10 = c" "c div 10 div 10 * 10 + c div 10 mod 10 = c div 10" by (rule div_mult_mod_eq)+
  moreover have "c div 10 div 10 = c div 100" using div_mult2_eq [of c 10 10] by simp
  ultimately have "c div 100 * 100 + c div 10 mod 10 * 10 + c mod 10 = c" by linarith
  moreover have "c div 100 mod 10 = c div 100" using \<open>c < 1000\<close> by simp
  ultimately show ?thesis by (simp add: response_value_def code_digits_def numeral_2_eq_2 digit_byte del: of_nat_add)
qed

lemma code_digits_simps [simp]:
  "length (code_digits c) = 3" "c < 1000 \<Longrightarrow> isdigit (code_digits c ! 0)" "isdigit (code_digits c ! Suc 0)" "isdigit (code_digits c ! 2)"
  "CR \<notin> set (code_digits c)"
  using digit_byte(3) [of "c div 100 mod 10"] digit_byte(3) [of "c div 10 mod 10"] digit_byte(3) [of "c mod 10"]
  by (auto simp: code_digits_def digit_byte numeral_2_eq_2 simp del: of_nat_add dest!: sym [of CR])

lemma reply_line_crlf:
  "CR \<notin> set t \<Longrightarrow> sep \<noteq> CR \<Longrightarrow> crlf_end (reply_line c sep t @ rest) = Some (length t + 6)"
  using crlf_end_line [of "code_digits c @ sep # t" rest] by (simp add: reply_line_def)

lemma drop_reply: "drop (length t + 6) (reply_line c sep t @ rest) = rest"
proof -
  have "length (reply_line c sep t) = length t + 6" by (simp add: reply_line_def crlf_def)
  then show ?thesis by (metis append_eq_conv_conj)
qed

text \<open>The error code after a success, and a client without a dump.\<close>

definition cleared :: "'n smtp \<Rightarrow> 'n smtp" where
  "cleared s = s\<lparr>sm_ec := map_option (\<lambda>_. None) (sm_ec s)\<rparr>"

lemma complete_op_None: "complete_op None s = (Inr (), cleared s)"
  by (cases s) (auto simp: complete_op_def cleared_def split: option.splits)

lemma is_error_cleared [simp]: "\<not> is_error (cleared s)"
  by (auto simp: is_error_def cleared_def split: option.splits)

lemma smtp_dump_None [simp]: "sm_dump s = None \<Longrightarrow> smtp_dump t s = s"
  by (cases s) (simp add: smtp_dump_def)

lemma cleared_simps [simp]:
  "sm_net (cleared s) = sm_net s" "sm_recvbuf (cleared s) = sm_recvbuf s" "sm_tls (cleared s) = sm_tls s"
  "sm_dump (cleared s) = sm_dump s" "sm_sent (cleared s) = sm_sent s" "cleared (cleared s) = cleared s"
  "sm_starttls (cleared s) = sm_starttls s" "sm_auth_plain (cleared s) = sm_auth_plain s" "sm_auth_login (cleared s) = sm_auth_login s"
  "sm_auth_cram_md5 (cleared s) = sm_auth_cram_md5 s"
  by (simp_all add: cleared_def option.map_comp comp_def)

lemma parse_reply:
  assumes "c < 1000" "sm_dump s = None"
  shows "parse_response_code (reply_line c sep t @ rest) (length t + 6) s
    = (if 400 \<le> c then sbind (set_or_throw_error Protocol_Error) (\<lambda>_. sret c) s else (Inr c, s))"
proof -
  have "(reply_line c sep t @ rest) ! k = code_digits c ! k" if "k < 3" for k
    using that by (simp add: reply_line_def nth_append)
  then show ?thesis using assms code_value [OF assms(1), of "sep # t @ crlf @ rest"]
    by (simp add: parse_response_code_def Let_def reply_line_def)
qed

context smtp_network
begin

lemma read_reply:
  assumes "sm_recvbuf s = reply_line c sep t @ rest" "CR \<notin> set t" "sep \<noteq> CR"
  shows "smtp_read io s = (Inr (length t + 6), cleared s)"
  using read_buffered [OF reply_line_crlf [OF assms(2,3), of c rest], of "sm_net s" "sm_tls s"] assms(1)
  by (cases s) (simp add: smtp_read_def sbind_def sret_def complete_op_None)

lemma receive_reply:
  assumes "sm_recvbuf s = reply_line c sep t @ rest" "CR \<notin> set t" "sep \<noteq> CR" "c < 1000" "sm_dump s = None"
  shows "receive_code io s =
    (if c < 400 then (Inr c, (cleared s)\<lparr>sm_recvbuf := rest\<rparr>)
     else case sm_ec s of
       None \<Rightarrow> (Inl Protocol_Error, s)
     | Some _ \<Rightarrow> (Inr c, s\<lparr>sm_ec := Some (Some Protocol_Error), sm_recvbuf := rest\<rparr>))"
proof -
  have r: "receive_code io s = (case (if 400 \<le> c then sbind (set_or_throw_error Protocol_Error) (\<lambda>_. sret c) (cleared s) else (Inr c, cleared s)) of
      (Inl e, s1) \<Rightarrow> (Inl e, s1) | (Inr res, s1) \<Rightarrow> (Inr res, smtp_consume (length t + 6) s1))"
    using parse_reply [OF assms(4), of "cleared s" sep t rest] assms(1,5) by (simp add: receive_code_def sbind_def read_reply [OF assms(1-3)])
  have c: "smtp_consume (length t + 6) s1 = s1\<lparr>sm_recvbuf := rest\<rparr>" if "sm_recvbuf s1 = sm_recvbuf s" for s1 :: "'n smtp"
    using that assms(1) drop_reply [of t c sep rest] by (simp add: smtp_consume_def del: drop_append)
  show ?thesis unfolding r
    by (simp add: c sbind_def sret_def set_or_throw_error_def complete_op_def cleared_def split: option.splits)
qed

text \<open>One line of a reply to EHLO that is in the buffer.\<close>

lemma ehlo_step:
  assumes "sm_recvbuf s = reply_line c sep t @ rest" "CR \<notin> set t" "sep \<noteq> CR" "0 < c" "c < 400" "sm_dump s = None"
    and "ehlo_line io t use ((cleared s)\<lparr>sm_recvbuf := rest\<rparr>) = (use', s')"
  shows "ehlo_loop io use s = (if sep = 45 then ehlo_loop io use' s' else Some (Inr (c, use'), s'))"
proof -
  have b: "take (length t) (drop 4 (sm_recvbuf s)) = t" "sm_recvbuf s ! 3 = sep" "drop (length t + 6) (sm_recvbuf s) = rest"
    using drop_reply [of t c sep rest] by (simp_all only: assms(1)) (simp_all add: reply_line_def crlf_def nth_append)
  have l: "smtp_consume n (snd (ehlo_line io m u x)) = snd (ehlo_line io m u (smtp_consume n x))"
    "fst (ehlo_line io m u x) = fst (ehlo_line io m u (smtp_consume n x))" for n m u x
    by (simp_all add: ehlo_line_def smtp_consume_def Let_def)
  have c: "smtp_consume (length t + 6) (cleared s) = (cleared s)\<lparr>sm_recvbuf := rest\<rparr>" using b(3) by (simp add: smtp_consume_def)
  have p: "parse_response_code (sm_recvbuf s) (length t + 6) (cleared s) = (Inr c, cleared s)"
    using parse_reply [of c "cleared s" sep t rest] assms by simp
  have "fst (ehlo_line io t use (cleared s)) = use'"
    "smtp_consume (length t + 6) (snd (ehlo_line io t use (cleared s))) = s'"
    using l [where n = "length t + 6" and m = t and u = use and x = "cleared s"] c assms(7) by (simp_all add: prod_eq_iff)
  then show ?thesis using assms(4) b
    by (simp add: ehlo_loop.simps [of io use s] read_reply [OF assms(1-3)] p Let_def split_beta)
qed

text \<open>A whole reply in the buffer. \<open>offers\<close> tells whether a line names an authentication method.\<close>

definition offers :: "string \<Rightarrow> byte list \<Rightarrow> bool" where
  "offers method t \<longleftrightarrow> io_istarts_with io t (bytes_of ''AUTH'') \<and> io_ifind_first io t (bytes_of method)"

definition after_ehlo :: "byte list list \<Rightarrow> byte list \<Rightarrow> 'n smtp \<Rightarrow> 'n smtp" where
  "after_ehlo ts rest s =
     (cleared s)\<lparr>sm_recvbuf := rest,
        sm_auth_plain := sm_auth_plain s \<or> (\<exists>t \<in> set ts. offers ''PLAIN'' t),
        sm_auth_login := sm_auth_login s \<or> (\<exists>t \<in> set ts. offers ''LOGIN'' t),
        sm_auth_cram_md5 := sm_auth_cram_md5 s \<or> (\<exists>t \<in> set ts. offers ''CRAM-MD5'' t)\<rparr>"

lemma ehlo_line_eq:
  "ehlo_line io t use ((cleared s)\<lparr>sm_recvbuf := rest\<rparr>)
   = (use \<or> \<not> sm_tls s \<and> sm_starttls s \<and> io_istarts_with io t (bytes_of ''STARTTLS''), after_ehlo [t] rest s)"
  by (simp add: ehlo_line_def after_ehlo_def offers_def Let_def)

lemma after_ehlo_simps [simp]:
  "sm_recvbuf (after_ehlo ts rest s) = rest" "sm_dump (after_ehlo ts rest s) = sm_dump s" "sm_tls (after_ehlo ts rest s) = sm_tls s"
  "sm_starttls (after_ehlo ts rest s) = sm_starttls s" "after_ehlo ts rest' (after_ehlo [t] rest s) = after_ehlo (t # ts) rest' s"
  by (auto simp: after_ehlo_def cleared_def option.map_comp comp_def)

lemma ehlo_reply:
  "sm_recvbuf s = reply_text c ts @ rest \<Longrightarrow> ts \<noteq> [] \<Longrightarrow> \<forall>t \<in> set ts. CR \<notin> set t \<Longrightarrow> 0 < c \<Longrightarrow> c < 400 \<Longrightarrow> sm_dump s = None \<Longrightarrow>
   ehlo_loop io use s = Some (Inr (c, use \<or> \<not> sm_tls s \<and> sm_starttls s \<and> (\<exists>t \<in> set ts. io_istarts_with io t (bytes_of ''STARTTLS''))), after_ehlo ts rest s)"
proof (induction c ts arbitrary: s use rule: reply_text.induct)
  case (2 c t)
  show ?case using 2 by (subst ehlo_step [OF _ _ _ _ _ _ ehlo_line_eq, of s c 32 t rest]) (simp_all add: CR_def)
next
  case (3 c t t' ts)
  let ?rest = "reply_text c (t' # ts) @ rest"
  have "ehlo_loop io use s
      = ehlo_loop io (use \<or> \<not> sm_tls s \<and> sm_starttls s \<and> io_istarts_with io t (bytes_of ''STARTTLS'')) (after_ehlo [t] ?rest s)"
    using 3 by (subst ehlo_step [OF _ _ _ _ _ _ ehlo_line_eq, of s c 45 t ?rest]) (simp_all add: CR_def)
  then show ?case using 3 by (auto simp: conj_disj_distribL)
qed simp

text \<open>Termination: every line shortens what is in the buffer and on the way.\<close>

lemma crlf_end_bounds: "crlf_end xs = Some n \<Longrightarrow> 2 \<le> n \<and> n \<le> length xs"
  by (induction xs arbitrary: n rule: crlf_end.induct) (auto split: if_splits)

lemma parse_frame:
  "parse_response_code data n s = (r, s') \<Longrightarrow> sm_net s' = sm_net s \<and> sm_recvbuf s' = sm_recvbuf s"
  by (auto simp: parse_response_code_def sbind_def sret_def set_or_throw_error_def complete_op_def smtp_dump_def Let_def split: if_splits option.splits)

lemma read_frame:
  assumes "smtp_read io s = (Inr n, s1)" "\<not> is_error s1"
  shows "2 \<le> n \<and> n \<le> length (sm_recvbuf s1) \<and> length (sm_recvbuf s1) + left (sm_net s1) \<le> length (sm_recvbuf s) + left (sm_net s)"
proof -
  obtain net' buf' r where r: "io_read_until io (sm_net s) (sm_tls s) (sm_recvbuf s) = (net', buf', r)" by (metis prod_cases3)
  have "r = Inr n \<and> s1 = cleared (s\<lparr>sm_net := net', sm_recvbuf := buf'\<rparr>)"
  proof (cases r)
    case (Inl e)
    then show ?thesis using assms r by (auto simp: smtp_read_def sbind_def sret_def complete_op_def is_error_def Let_def split: option.splits)
  next
    case (Inr m)
    then show ?thesis using assms(1) r by (simp add: smtp_read_def sbind_def sret_def complete_op_None Let_def)
  qed
  then show ?thesis using read_line [of "sm_net s" "sm_tls s" "sm_recvbuf s" net' buf' n] r crlf_end_bounds [of buf' n] by auto
qed

lemma ehlo_returns: "\<exists>r. ehlo_loop io use s = Some r"
proof (induction "length (sm_recvbuf s) + left (sm_net s)" arbitrary: s use rule: less_induct)
  case less
  obtain x s1 where s1: "smtp_read io s = (x, s1)" by fastforce
  show ?case
  proof (cases "\<exists>n res s2. x = Inr n \<and> \<not> is_error s1 \<and> parse_response_code (sm_recvbuf s1) n s1 = (Inr res, s2)")
    case True
    then obtain n res s2 where n: "x = Inr n" "\<not> is_error s1" "parse_response_code (sm_recvbuf s1) n s1 = (Inr res, s2)" by blast
    obtain use' s3 where s3: "(if res \<noteq> 0 then ehlo_line io (take (n - 6) (drop 4 (sm_recvbuf s2))) use s2 else (use, s2)) = (use', s3)" by fastforce
    then have f: "sm_net s3 = sm_net s1 \<and> sm_recvbuf s3 = sm_recvbuf s1"
      using parse_frame [OF n(3)] by (auto simp: ehlo_line_def Let_def split: if_splits)
    then have "length (sm_recvbuf (smtp_consume n s3)) + left (sm_net (smtp_consume n s3)) < length (sm_recvbuf s) + left (sm_net s)"
      using read_frame [of s n s1] s1 n by (simp add: smtp_consume_def) linarith
    then have "\<exists>r. ehlo_loop io use' (smtp_consume n s3) = Some r" by (rule less)
    then show ?thesis using s1 n s3 by (auto simp: ehlo_loop.simps [of io use s] Let_def)
  next
    case False
    then show ?thesis using s1 by (auto simp: ehlo_loop.simps [of io use s] split: sum.splits prod.splits)
  qed
qed

end

section \<open>Properties\<close>

definition ehlo_message :: "'n smtp_io \<Rightarrow> byte list \<Rightarrow> byte list" where
  "ehlo_message io hostname = bytes_of ''EHLO '' @ (if hostname = [] then io_host_name io else hostname) @ crlf"

text \<open>
  (C15) In every session of a new client that does not use TLS yet, with any server: when \<open>ehlo\<close> gets a reply
  that asks for STARTTLS and returns a code other than 0, a handshake has succeeded and the client uses TLS.
  All messages before were sent in the clear, \<open>ehlo\<close> has sent EHLO and STARTTLS in the clear and, when the
  code is below 400, EHLO once more through TLS; whatever commands follow, every message
  of theirs (credentials and mails included) is sent through TLS.
\<close>

theorem smtp_tls_order:
  assumes "smtp_session io (smtp_new net flags ec) s" "\<not> sm_tls s"
    and "smtp_ehlo io hostname s = Some (Inr res, s')" "res \<noteq> 0"
    and "receive_ehlo io (snd (send_message io (ehlo_message io hostname) s)) = Some (Inr (c, True), s2)"
  shows "sm_tls s' \<and> (\<exists>net net'. io_handshake io net = (net', None))
    \<and> (\<exists>plain again. sm_sent s = map (Pair False) plain
        \<and> sm_sent s' = map (Pair False) (plain @ [ehlo_message io hostname, bytes_of ''STARTTLS'' @ crlf]) @ again
        \<and> (again = [(True, ehlo_message io hostname)] \<or> 400 \<le> res \<and> again = []))
    \<and> (\<forall>t. smtp_session io s' t \<longrightarrow> sm_tls t \<and> (\<exists>secret. sm_sent t = sm_sent s' @ map (Pair True) secret))"
proof -
  let ?buf = "ehlo_message io hostname"
  have "tls_order (smtp_new net flags ec)" by (simp add: tls_order_def smtp_new_def)
  then have "tls_order s" by (rule tls_order.session_keeps [OF assms(1)])
  then obtain plain where plain: "sm_sent s = map (Pair False) plain" using assms(2) by (auto simp: tls_order_def)
  obtain x s1 where x: "send_message io ?buf s = (x, s1)" by fastforce
  obtain y s3 where y: "start_tls io s2 = (y, s3)" by fastforce
  obtain z s4 where z: "send_message io ?buf s3 = (z, s4)" by fastforce
  have s1: "sm_sent s1 = map (Pair False) (plain @ [?buf])" "\<not> sm_tls s1" using send_message_sent [of io ?buf s] x plain assms(2) by simp_all
  have s2: "receive_ehlo io s1 = Some (Inr (c, True), s2)" "sm_sent s2 = map (Pair False) (plain @ [?buf])" "\<not> sm_tls s2"
    using assms(5) x s1 receive_ehlo_sent [of io s1 "Inr (c, True)" s2] by simp_all
  note body = assms(3) [unfolded smtp_ehlo_def Let_def ehlo_message_def [symmetric]]
  obtain u where u: "x = Inr u" "u \<noteq> 0" using body x assms(4) by (auto split: sum.splits if_splits)
  obtain r where r: "y = Inr r" "r \<noteq> 0" using body x u s2(1) y assms(4) by (auto split: sum.splits if_splits)
  have s3: "sm_tls s3" "sm_sent s3 = map (Pair False) (plain @ [?buf, bytes_of ''STARTTLS'' @ crlf])" "\<exists>net net'. io_handshake io net = (net', None)"
    using start_tls_on [of io s2 r s3] y r s2(2,3) by auto
  have "s' = s3 \<and> res = r \<and> 400 \<le> r \<or> (\<exists>v w. z = Inr v \<and> receive_ehlo io s4 = Some (w, s'))"
    using body x u s2(1) y r z assms(4) by (auto split: sum.splits if_splits)
  then have s': "sm_tls s' \<and> (\<exists>again. sm_sent s' = sm_sent s3 @ again \<and> (again = [(True, ?buf)] \<or> 400 \<le> res \<and> again = []))"
    using s3(1) receive_ehlo_sent [of io s4 _ s'] send_message_sent [of io ?buf s3] z by auto
  then have "tls_since (sm_sent s') s'" by (auto simp: tls_since_def)
  then have "\<forall>t. smtp_session io s' t \<longrightarrow> tls_since (sm_sent s') t" using tls_since.session_keeps by blast
  then show ?thesis using s' s3(2,3) plain by (auto simp: tls_since_def)
qed

text \<open>A server that offers STARTTLS and accepts it; the mail command that follows is sent through TLS.\<close>

definition tls_client :: "peer smtp" where
  "tls_client = smtp_new \<lparr>p_plain = [reply_text 250 [bytes_of ''host'', bytes_of ''STARTTLS''], reply_line 220 32 []], p_secret = [reply_line 250 32 [104]]\<rparr> 0 None"

theorem smtp_tls_order_witness:
  "\<exists>s'. smtp_ehlo (peer_io (\<lambda>_ _. [])) [104] tls_client = Some (Inr 250, s') \<and> sm_tls s'
    \<and> sm_sent s' = [(False, bytes_of ''EHLO h'' @ crlf), (False, bytes_of ''STARTTLS'' @ crlf), (True, bytes_of ''EHLO h'' @ crlf)]
    \<and> (\<exists>secret. sm_sent (snd (smtp_mail (peer_io (\<lambda>_ _. [])) [97] s')) = sm_sent s' @ map (Pair True) secret)"
proof -
  let ?io = "peer_io (\<lambda>_ _. [])"
  have e: "case smtp_ehlo ?io [104] tls_client of Some (Inr r, s') \<Rightarrow> r = 250 | _ \<Rightarrow> False" by code_simp
  have r: "case receive_ehlo ?io (snd (send_message ?io (ehlo_message ?io [104]) tls_client)) of Some (Inr (c, u), s2) \<Rightarrow> u | _ \<Rightarrow> False" by code_simp
  have m: "ehlo_message ?io [104] = bytes_of ''EHLO h'' @ crlf" by code_simp
  obtain s' where s': "smtp_ehlo ?io [104] tls_client = Some (Inr 250, s')" using e by (auto split: option.splits sum.splits)
  obtain c s2 where c: "receive_ehlo ?io (snd (send_message ?io (ehlo_message ?io [104]) tls_client)) = Some (Inr (c, True), s2)"
    using r by (auto split: option.splits sum.splits)
  have t: "\<not> sm_tls tls_client" "sm_sent tls_client = []" by (simp_all add: tls_client_def smtp_new_def)
  have ses: "smtp_session ?io (smtp_new (sm_net tls_client) 0 None) tls_client"
    by (simp add: tls_client_def smtp_new_def smtp_session.start)
  note f = smtp_tls_order [OF ses t(1) s' _ c]
  have f1: "sm_tls s'" "\<forall>t. smtp_session ?io s' t \<longrightarrow> sm_tls t \<and> (\<exists>secret. sm_sent t = sm_sent s' @ map (Pair True) secret)"
    using f by simp_all
  have "sm_sent s' = [(False, ehlo_message ?io [104]), (False, bytes_of ''STARTTLS'' @ crlf), (True, ehlo_message ?io [104])]"
    using f t(2) by auto
  then show ?thesis using s' f1 unfolding m by (metis smtp_session.mail smtp_session.start)
qed

text \<open>
  (C16) A reply to EHLO of any number of lines with a positive code below 400: the call takes exactly these lines from
  the buffer, returns the code and enables an authentication method if and only if it was enabled or a line that starts with AUTH
  names it; STARTTLS is to be used if a line offers it, the connection is not yet encrypted and the flags allow it.
\<close>

theorem smtp_ehlo_features:
  assumes "smtp_network io left" "sm_recvbuf s = reply_text c ts @ rest" "ts \<noteq> []" "\<forall>t \<in> set ts. CR \<notin> set t" "0 < c" "c < 400" "sm_dump s = None"
  defines "auth \<equiv> \<lambda>method. \<exists>t \<in> set ts. io_istarts_with io t (bytes_of ''AUTH'') \<and> io_ifind_first io t (bytes_of method)"
  shows "\<exists>s'. receive_ehlo io s
      = Some (Inr (c, \<not> sm_tls s \<and> sm_starttls s \<and> (\<exists>t \<in> set ts. io_istarts_with io t (bytes_of ''STARTTLS''))), s')
    \<and> sm_recvbuf s' = rest \<and> sm_net s' = sm_net s \<and> sm_sent s' = sm_sent s
    \<and> sm_auth_plain s' = (sm_auth_plain s \<or> auth ''PLAIN'')
    \<and> sm_auth_login s' = (sm_auth_login s \<or> auth ''LOGIN'')
    \<and> sm_auth_cram_md5 s' = (sm_auth_cram_md5 s \<or> auth ''CRAM-MD5'')"
  using smtp_network.ehlo_reply [OF assms(1-7), of False]
  by (simp add: receive_ehlo_def auth_def smtp_network.after_ehlo_def [OF assms(1)] smtp_network.offers_def [OF assms(1)])

definition sample_client :: "byte list \<Rightarrow> peer smtp" where
  "sample_client buf = (smtp_new \<lparr>p_plain = [], p_secret = []\<rparr> 0 None)\<lparr>sm_recvbuf := buf\<rparr>"

theorem smtp_ehlo_features_witness:
  "\<exists>s'. receive_ehlo (peer_io (\<lambda>_ _. [])) (sample_client (reply_text 250 [bytes_of ''host'', bytes_of ''auth plain'', bytes_of ''starttls''])) = Some (Inr (250, True), s')
     \<and> sm_auth_plain s' \<and> \<not> sm_auth_login s' \<and> sm_recvbuf s' = []"
proof -
  let ?io = "peer_io (\<lambda>_ _. [])" and ?ts = "[bytes_of ''host'', bytes_of ''auth plain'', bytes_of ''starttls'']"
  have "\<exists>t \<in> set ?ts. io_istarts_with ?io t (bytes_of ''STARTTLS'')"
    "\<exists>t \<in> set ?ts. io_istarts_with ?io t (bytes_of ''AUTH'') \<and> io_ifind_first ?io t (bytes_of ''PLAIN'')"
    "\<not> (\<exists>t \<in> set ?ts. io_istarts_with ?io t (bytes_of ''AUTH'') \<and> io_ifind_first ?io t (bytes_of ''LOGIN''))"
    "\<forall>t \<in> set ?ts. CR \<notin> set t" by code_simp+
  then show ?thesis
    using smtp_ehlo_features [OF peer.smtp_network_axioms, of "sample_client (reply_text 250 ?ts)" 250 ?ts "[]" "\<lambda>_ _. []"]
    by (simp add: sample_client_def smtp_new_def) blast
qed

text \<open>
  \<open>ehlo\<close> returns or throws, whatever the server sends, when it sends a finite text:
  the loops over the lines of the replies end, also around STARTTLS.
\<close>

theorem smtp_ehlo_returns:
  assumes "smtp_network io left"
  shows "\<exists>r. smtp_ehlo io hostname s = Some r"
proof -
  have rec: "\<exists>r s2. receive_ehlo io s1 = Some (r, s2)" for s1
    using smtp_network.ehlo_returns [OF assms, of False s1] by (auto simp: receive_ehlo_def)
  define buf where "buf = bytes_of ''EHLO '' @ (if hostname = [] then io_host_name io else hostname) @ crlf"
  have tail: "\<exists>a b. (case send_message io buf s3 of (Inl e, s4) \<Rightarrow> Some (Inl e, s4) | (Inr ok', s4) \<Rightarrow>
      if ok' = 0 then Some (Inr 0, s4) else map_option (\<lambda>(r, s5). (map_sum id fst r, s5)) (receive_ehlo io s4)) = Some (a, b)" for s3
  proof -
    obtain x s4 where x: "send_message io buf s3 = (x, s4)" by fastforce
    obtain r s5 where "receive_ehlo io s4 = Some (r, s5)" using rec by blast
    then show ?thesis unfolding x by (cases x) simp_all
  qed
  obtain x s1 where x: "send_message io buf s = (x, s1)" by fastforce
  obtain r s2 where r: "receive_ehlo io s1 = Some (r, s2)" using rec by blast
  obtain y s3 where y: "start_tls io s2 = (y, s3)" by fastforce
  show ?thesis unfolding smtp_ehlo_def Let_def buf_def [symmetric]
    by (cases x; cases r; cases y) (use tail [of s3] in \<open>simp_all add: x r y split: prod.split\<close>)
qed

theorem smtp_ehlo_returns_witness:
  "\<exists>r. smtp_ehlo (peer_io (\<lambda>_ _. [])) [104] (sample_client (reply_text 250 [bytes_of ''host''])) = Some r"
  by (rule smtp_ehlo_returns [OF peer.smtp_network_axioms])

text \<open>
  What the server appended to its reply to STARTTLS in the clear is taken as the reply to
  the second EHLO, behind the handshake: the receive buffer is not cleared. Nothing is read from
  the encrypted connection, and the authentication methods are those of the plain text.
\<close>

theorem smtp_starttls_injection:
  assumes "smtp_network io left" "sm_recvbuf s = reply_line 220 32 t @ reply_text c ts @ rest" "CR \<notin> set t" "ts \<noteq> []" "\<forall>t \<in> set ts. CR \<notin> set t" "0 < c" "c < 400"
    and "sm_dump s = None" "\<And>net tls buf. snd (io_write io net tls buf) = None" "\<And>net. snd (io_handshake io net) = None"
  shows "\<exists>s1 s2. start_tls io s = (Inr 220, s1) \<and> sm_tls s1 \<and> receive_ehlo io s1 = Some (Inr (c, False), s2) \<and> sm_net s2 = sm_net s1
    \<and> ((\<exists>t \<in> set ts. io_istarts_with io t (bytes_of ''AUTH'') \<and> io_ifind_first io t (bytes_of ''PLAIN'')) \<longrightarrow> sm_auth_plain s2)"
proof -
  let ?buf = "bytes_of ''STARTTLS'' @ crlf" and ?r = "reply_text c ts @ rest"
  obtain net1 where w: "io_write io (sm_net s) (sm_tls s) ?buf = (net1, None)" using assms(9) by (metis prod.collapse)
  let ?s = "cleared (s\<lparr>sm_net := net1, sm_sent := sm_sent s @ [(sm_tls s, ?buf)]\<rparr>)"
  have send: "send_message io ?buf s = (Inr 1, ?s)"
    using w assms(8) by (simp add: send_message_def smtp_write_def complete_op_None sbind_def smtp_result_def)
  have "receive_code io ?s = (Inr 220, (cleared ?s)\<lparr>sm_recvbuf := ?r\<rparr>)"
    using smtp_network.receive_reply [OF assms(1), of ?s 220 32 t ?r] assms(2,3,8) by (simp add: CR_def)
  then have rec: "receive_code io ?s = (Inr 220, ?s\<lparr>sm_recvbuf := ?r\<rparr>)" by simp
  obtain net2 where h: "io_handshake io (sm_net ?s) = (net2, None)" using assms(10) by (metis prod.collapse)
  let ?s1 = "(cleared (?s\<lparr>sm_recvbuf := ?r, sm_net := net2\<rparr>))\<lparr>sm_tls := True\<rparr>"
  have st: "start_tls io s = (Inr 220, ?s1)"
    using send rec h by (simp add: start_tls_def sbind_def sret_def complete_op_None)
  have "receive_ehlo io ?s1 = Some (Inr (c, False), smtp_network.after_ehlo io ts rest ?s1)"
    using smtp_network.ehlo_reply [OF assms(1), of ?s1 c ts rest False] assms(4-8) by (simp add: receive_ehlo_def)
  then show ?thesis using st
    by (intro exI [of _ ?s1] exI [of _ "smtp_network.after_ehlo io ts rest ?s1"])
      (auto simp: smtp_network.after_ehlo_def [OF assms(1)] smtp_network.offers_def [OF assms(1)])
qed

theorem smtp_starttls_injection_witness:
  "\<exists>s1 s2. start_tls (peer_io (\<lambda>_ _. [])) (sample_client (reply_line 220 32 [] @ reply_text 250 [bytes_of ''AUTH PLAIN''])) = (Inr 220, s1)
     \<and> sm_tls s1 \<and> receive_ehlo (peer_io (\<lambda>_ _. [])) s1 = Some (Inr (250, False), s2) \<and> sm_auth_plain s2"
proof -
  let ?io = "peer_io (\<lambda>_ _. [])" and ?ts = "[bytes_of ''AUTH PLAIN'']"
  have e: "\<exists>t \<in> set ?ts. io_istarts_with ?io t (bytes_of ''AUTH'') \<and> io_ifind_first ?io t (bytes_of ''PLAIN'')"
    "\<forall>t \<in> set ?ts. CR \<notin> set t" by code_simp+
  have "snd (io_write ?io net tls buf) = None" "snd (io_handshake ?io net) = None" for net tls buf by (simp_all add: peer_io_def)
  then have "\<exists>s1 s2. start_tls ?io (sample_client (reply_line 220 32 [] @ reply_text 250 ?ts)) = (Inr 220, s1) \<and> sm_tls s1
    \<and> receive_ehlo ?io s1 = Some (Inr (250, False), s2) \<and> sm_net s2 = sm_net s1
    \<and> ((\<exists>t \<in> set ?ts. io_istarts_with ?io t (bytes_of ''AUTH'') \<and> io_ifind_first ?io t (bytes_of ''PLAIN'')) \<longrightarrow> sm_auth_plain s2)"
    using e(2) by (intro smtp_starttls_injection [OF peer.smtp_network_axioms, where rest = "[]" and t = "[]"]) (simp_all add: sample_client_def smtp_new_def)
  then show ?thesis using e(1) by blast
qed

text \<open>
  A reply of one line: a code below 400 is returned and its line taken from the buffer. A code from 400
  is an error: with an error code in the \<open>yield_context\<close> it is set, the code returned and the line taken; without
  one the exception leaves the line in the buffer, where the next command takes it as its reply.
\<close>

theorem smtp_reply_codes:
  assumes "smtp_network io left" "sm_recvbuf s = reply_line c sep t @ rest" "CR \<notin> set t" "sep \<noteq> CR" "c < 1000" "sm_dump s = None"
  shows "if 400 \<le> c \<and> sm_ec s = None then receive_code io s = (Inl Protocol_Error, s)
    else \<exists>s'. receive_code io s = (Inr c, s') \<and> sm_recvbuf s' = rest \<and> is_error s' = (400 \<le> c) \<and> sm_net s' = sm_net s"
proof -
  have e: "is_error (s'\<lparr>sm_recvbuf := rest\<rparr>) = is_error s'" for s' :: "'a smtp" by (simp add: is_error_def)
  show ?thesis using smtp_network.receive_reply [OF assms] by (auto simp: e) (auto simp: is_error_def)
qed

theorem smtp_reply_codes_witness:
  "receive_code (peer_io (\<lambda>_ _. [])) (sample_client (reply_line 550 32 [])) = (Inl Protocol_Error, sample_client (reply_line 550 32 []))"
proof -
  have "CR \<notin> set ([] :: byte list)" "(32 :: byte) \<noteq> CR" by (simp_all add: CR_def)
  then show ?thesis
    using smtp_reply_codes [OF peer.smtp_network_axioms, of "sample_client (reply_line 550 32 [])" 550 32 "[]" "[]" "\<lambda>_ _. []"]
    by (simp add: sample_client_def smtp_new_def)
qed

lemma smtp_command_sent: "sm_sent (snd (smtp_command io buf s)) = sm_sent s @ [(sm_tls s, buf)]"
proof -
  obtain x s1 where x: "send_message io buf s = (x, s1)" by fastforce
  then have "sm_sent s1 = sm_sent s @ [(sm_tls s, buf)]" using send_message_sent(1) [of io buf s] by simp
  then show ?thesis using x by (cases x) (simp_all add: smtp_command_def sbind_def sret_def)
qed

text \<open>Messages without a line break.\<close>

lemma base64_message_text:
  obtains mx where "base64_message bs = base64_text base64_std nl_none mx 0 bs"
  using base64_encode_text [of "\<lambda>s _. s" bs "[]"] by (metis base64_message_def)

lemma enc_std_no_break: "unat v < 64 \<Longrightarrow> enc base64_std v \<noteq> 13 \<and> enc base64_std v \<noteq> 10"
  using std_alphabet.enc_in_tbl [of v] std_alphabet.base64_alphabet_axioms by (auto simp: base64_alphabet_def CR_def LF_def)

lemma base64_text_no_break: "T = base64_std \<Longrightarrow> nl = nl_none \<Longrightarrow> x \<in> set (base64_text T nl mx cnt bs) \<Longrightarrow> x \<noteq> 13 \<and> x \<noteq> 10"
  by (induction T nl mx cnt bs rule: base64_text.induct)
    (auto simp: enc_std_no_break sextet_less newline_bytes_def EQUALS_def split: if_splits)

text \<open>
  AUTH PLAIN is one line for every user and password, also when they contain line breaks: the command,
  and a text without line breaks that the base64 decoder takes to the user twice
  and the password, with 0 between them.
\<close>

theorem smtp_auth_plain_message:
  "\<exists>text. sm_sent (snd (auth_plain io user pass s)) = sm_sent s @ [(sm_tls s, bytes_of ''AUTH PLAIN '' @ text @ crlf)]
    \<and> CR \<notin> set text \<and> LF \<notin> set text
    \<and> (\<exists>d. decoder_write base64_std string_put [] base64_decoder_new text = (user @ [0] @ user @ [0] @ pass, d, True))"
proof -
  let ?msg = "user @ 0 # user @ 0 # pass"
  obtain mx where t: "base64_message ?msg = base64_text base64_std nl_none mx 0 ?msg" by (rule base64_message_text)
  have b: "CR \<notin> set (base64_message ?msg)" "LF \<notin> set (base64_message ?msg)"
    unfolding t using base64_text_no_break [OF refl refl] by (auto simp: CR_def LF_def)
  have "\<exists>d. decoder_write base64_std string_put [] base64_decoder_new (base64_message ?msg) = (?msg, d, True)"
    unfolding t using std_decoding.decodes_text [of base64_decoder_new "[]" nl_none mx 0 ?msg]
    by (auto simp: std_decoding.decodes_def base64_decoder_new_def)
  moreover have "auth_plain io user pass = smtp_command io (bytes_of ''AUTH PLAIN '' @ base64_message ?msg @ crlf)"
    by (simp add: auth_plain_def smtp_command_def)
  ultimately show ?thesis using b by (intro exI [of _ "base64_message ?msg"]) (simp add: smtp_command_sent)
qed

text \<open>
  MAIL and RCPT send the address as it is: for an address without line breaks the command is
  one line, and an address with a line break ends the command there, so that what follows in the address is
  a command of its own (\<open>crlf_end\<close> is the end of the first line).
\<close>

theorem smtp_address_lines:
  assumes "CR \<notin> set a" "cmd = smtp_mail \<or> cmd = smtp_rcpt"
  shows "(\<exists>msg. sm_sent (snd (cmd io a s)) = sm_sent s @ [(sm_tls s, msg)] \<and> crlf_end msg = Some (length msg))
    \<and> (\<exists>msg. sm_sent (snd (cmd io (a @ crlf @ b) s)) = sm_sent s @ [(sm_tls s, msg @ b @ [62] @ crlf)] \<and> crlf_end msg = Some (length msg))"
proof -
  obtain verb where verb: "CR \<notin> set verb" "\<And>addr. cmd io addr = smtp_command io (verb @ addr @ [62] @ crlf)"
  proof -
    have "CR \<notin> set (bytes_of ''MAIL FROM: <'')" "CR \<notin> set (bytes_of ''RCPT TO: <'')" by code_simp+
    then show ?thesis using assms(2) that smtp_mail_def smtp_rcpt_def by metis
  qed
  have "(62 :: byte) \<noteq> CR" by (simp add: CR_def)
  then have "crlf_end (verb @ a @ [62] @ crlf) = Some (length (verb @ a @ [62] @ crlf))" "crlf_end (verb @ a @ crlf) = Some (length (verb @ a @ crlf))"
    using crlf_end_line [of "verb @ a @ [62]" "[]"] crlf_end_line [of "verb @ a" "[]"] verb(1) assms(1) by (simp_all add: crlf_def)
  moreover have "verb @ (a @ crlf @ b) @ [62] @ crlf = (verb @ a @ crlf) @ b @ [62] @ crlf" by simp
  ultimately show ?thesis unfolding verb(2) smtp_command_sent by metis
qed

theorem smtp_address_lines_witness:
  "\<exists>msg. sm_sent (snd (smtp_mail (peer_io (\<lambda>_ _. [])) ([97, 62] @ crlf @ bytes_of ''QUIT'') (sample_client []))) = [(False, msg @ bytes_of ''QUIT'' @ [62] @ crlf)]
     \<and> crlf_end msg = Some (length msg)"
  using smtp_address_lines [of "[97, 62]" smtp_mail "peer_io (\<lambda>_ _. [])" "sample_client []" "bytes_of ''QUIT''"]
  by (simp add: sample_client_def smtp_new_def CR_def)

text \<open>Login without plain passwords: only the answer to the challenge depends on the password.\<close>

interpretation password_flag: smtp_predicate "\<lambda>s. sm_plaintext_password s = b"
  by unfold_locales simp_all

lemma cram_response_cong:
  "(\<And>t. io_hmac_md5 io p t = io_hmac_md5 io q t) \<Longrightarrow> cram_response io user p ch = cram_response io user q ch"
  by (simp add: cram_response_def)

text \<open>
  In every session of a client with the flag \<open>no_plaintext_password\<close> (2) the password reaches the server
  through HMAC-MD5 only: two passwords with the same digests make \<open>login\<close> send the same messages and return the
  same, whatever the server offers and answers.
\<close>

theorem smtp_password_hidden:
  assumes "smtp_session io (smtp_new net flags ec) s" "flags AND 2 \<noteq> 0" "\<And>t. io_hmac_md5 io p t = io_hmac_md5 io q t"
  shows "smtp_login io user p s = smtp_login io user q s"
proof -
  have c: "auth_cram_md5 io user p = auth_cram_md5 io user q"
    unfolding auth_cram_md5_def cram_response_cong [of io p q, OF assms(3)] by (rule refl)
  have f: "\<not> sm_plaintext_password s"
    using password_flag.session_keeps [OF assms(1), of False] assms(2) by (simp add: smtp_new_def)
  have "smtp_login io user r s = (if sm_auth_cram_md5 s then auth_cram_md5 io user r s else (Inr 0, s))" for r
  proof -
    obtain x s1 where x: "auth_cram_md5 io user r s = (x, s1)" by fastforce
    then have "\<not> sm_plaintext_password s1" using keepsD [OF password_flag.keeps_cram_md5 [of False], of s io user r] f by simp
    then show ?thesis using x f by (cases x) (simp_all add: smtp_login_def plain_login_def sbind_def)
  qed
  then show ?thesis by (simp add: c)
qed

theorem smtp_password_hidden_witness:
  "smtp_login (peer_io (\<lambda>k _. take 0 k)) [117] [1, 2] (smtp_new \<lparr>p_plain = [], p_secret = []\<rparr> 2 None)
   = smtp_login (peer_io (\<lambda>k _. take 0 k)) [117] [3] (smtp_new \<lparr>p_plain = [], p_secret = []\<rparr> 2 None)"
  by (rule smtp_password_hidden [OF smtp_session.start]) (simp_all add: peer_io_def)

text \<open>The pieces of a mail.\<close>

definition pieces_of :: "byte list \<Rightarrow> byte list list \<Rightarrow> bool" where
  "pieces_of content ps \<longleftrightarrow> concat ps = content \<and> (\<forall>p \<in> set ps. p \<noteq> [] \<and> length p \<le> 4096)"

lemma send_chunks_sent:
  assumes "\<And>net tls buf. snd (io_write io net tls buf) = None"
  shows "\<exists>ps s1. send_chunks io content s = (Inr (), s1) \<and> pieces_of content ps \<and> sm_sent s1 = sm_sent s @ map (Pair (sm_tls s)) ps"
proof (induction "length content" arbitrary: content s rule: less_induct)
  case less
  show ?case
  proof (cases "content = []")
    case True
    then show ?thesis by (intro exI [of _ "[]"]) (simp add: send_chunks.simps pieces_of_def)
  next
    case False
    let ?p = "take 4096 content" and ?s = "smtp_dump (if sm_verbose s then take 4096 content else [46]) s"
    obtain net1 where "io_write io (sm_net ?s) (sm_tls ?s) ?p = (net1, None)" using assms by (metis prod.collapse)
    then have w: "smtp_write io ?p ?s = (Inr (), cleared (?s\<lparr>sm_net := net1, sm_sent := sm_sent ?s @ [(sm_tls ?s, ?p)]\<rparr>))"
      by (simp add: smtp_write_def complete_op_None)
    let ?s1 = "cleared (?s\<lparr>sm_net := net1, sm_sent := sm_sent ?s @ [(sm_tls ?s, ?p)]\<rparr>)"
    obtain ps s2 where ps: "send_chunks io (drop 4096 content) ?s1 = (Inr (), s2)" "pieces_of (drop 4096 content) ps"
        "sm_sent s2 = sm_sent ?s1 @ map (Pair (sm_tls ?s1)) ps"
      using less [of "drop 4096 content" ?s1] False by auto
    have "send_chunks io content s = (Inr (), s2)"
      using False w ps(1) by (simp add: send_chunks.simps [of io content s] sbind_def Let_def)
    moreover have "pieces_of content (?p # ps)" using ps(2) False by (simp add: pieces_of_def)
    moreover have "sm_sent s2 = sm_sent s @ map (Pair (sm_tls s)) (?p # ps)" using ps(3) by (simp add: smtp_dump_def)
    ultimately show ?thesis by blast
  qed
qed

lemma send_data_sent:
  assumes "\<And>net tls buf. snd (io_write io net tls buf) = None"
  shows "\<exists>ps. pieces_of content ps \<and> sm_sent (snd (send_data io content s)) = sm_sent s @ map (Pair (sm_tls s)) ps"
  using send_chunks_sent [OF assms, of content "smtp_dump [10, 62] s"]
  by (auto simp: send_data_def sbind_def smtp_result_def smtp_dump_def)

text \<open>
  DATA sends the mail exactly when the reply is 354: the command, and then the mail unchanged, in pieces of at
  most 4096 bytes and over the same connection; with any other reply only the command is sent. (The mail is not
  dot-stuffed, and it has to end with a line with a dot.)
\<close>

theorem smtp_data_transfer:
  assumes "smtp_network io left" "sm_recvbuf s = reply_line c sep t @ rest" "CR \<notin> set t" "sep \<noteq> CR" "c < 1000" "sm_dump s = None"
    and "\<And>net tls buf. snd (io_write io net tls buf) = None"
  shows "\<exists>ps. sm_sent (snd (smtp_data io content s)) = sm_sent s @ map (Pair (sm_tls s)) ((bytes_of ''DATA'' @ crlf) # ps)
    \<and> (if c = 354 then concat ps = content \<and> (\<forall>p \<in> set ps. length p \<le> 4096) else ps = [])"
proof -
  let ?buf = "bytes_of ''DATA'' @ crlf"
  obtain net1 where "io_write io (sm_net s) (sm_tls s) ?buf = (net1, None)" using assms(7) by (metis prod.collapse)
  moreover define s1 where "s1 = cleared (s\<lparr>sm_net := net1, sm_sent := sm_sent s @ [(sm_tls s, ?buf)]\<rparr>)"
  ultimately have send: "send_message io ?buf s = (Inr 1, s1)"
    using assms(6) by (simp add: send_message_def smtp_write_def complete_op_None sbind_def smtp_result_def)
  obtain x s2 where x: "receive_code io s1 = (x, s2)" by fastforce
  have "sm_sent s1 = sm_sent s @ [(sm_tls s, ?buf)]" by (simp add: s1_def)
  then have s2: "sm_sent s2 = sm_sent s @ [(sm_tls s, ?buf)]" using receive_code_sent(1) [of io s1] unfolding x by (metis snd_conv)
  note r = smtp_network.receive_reply [OF assms(1), of s1 c sep t rest]
  show ?thesis
  proof (cases "c = 354")
    case True
    then have x2: "x = Inr 354" "sm_tls s2 = sm_tls s" using r x assms(2-6) by (auto simp: s1_def)
    obtain ps where ps: "pieces_of content ps" "sm_sent (snd (send_data io content s2)) = sm_sent s2 @ map (Pair (sm_tls s)) ps"
      using send_data_sent [OF assms(7), of content s2] x2 by auto
    have "sm_sent (snd (smtp_data io content s)) = sm_sent (snd (send_data io content s2))"
    proof -
      obtain y s3 where y: "send_data io content s2 = (y, s3)" by fastforce
      then show ?thesis using send x x2 by (cases y) (simp_all add: smtp_data_def sbind_def sret_def)
    qed
    then show ?thesis using ps s2 True by (intro exI [of _ ps]) (simp add: pieces_of_def)
  next
    case False
    have "x \<noteq> Inr 354" using r x assms(2-6) False by (auto simp: s1_def split: if_splits option.splits)
    then have "sm_sent (snd (smtp_data io content s)) = sm_sent s2"
      using send x by (cases x) (simp_all add: smtp_data_def sbind_def sret_def)
    then show ?thesis using s2 False by (intro exI [of _ "[]"]) simp
  qed
qed

theorem smtp_data_transfer_witness:
  "\<exists>ps. sm_sent (snd (smtp_data (peer_io (\<lambda>_ _. [])) [46, CR, LF] (sample_client (reply_line 354 32 [])))) = map (Pair False) ((bytes_of ''DATA'' @ crlf) # ps)
     \<and> concat ps = [46, CR, LF]"
proof -
  have "CR \<notin> set ([] :: byte list)" "(32 :: byte) \<noteq> CR" by (simp_all add: CR_def)
  then show ?thesis
    using smtp_data_transfer [OF peer.smtp_network_axioms, of "sample_client (reply_line 354 32 [])" 354 32 "[]" "[]" "\<lambda>_ _. []" "[46, CR, LF]"]
    by (auto simp: sample_client_def smtp_new_def peer_io_def)
qed

end
