(* ===== verification/Beat_Timer.thy ===== *)
theory Beat_Timer
  imports Acqua_Prelude "HOL-Library.Multiset"
begin

text \<open>
  \<open>beat_timer\<close> (\<^verbatim>\<open>asio/beat_timer.hpp\<close>): one timer of Boost.Asio for many requests, kept in a
  multimap by their times. \<open>on_wait\<close> unlocks the mutex while it calls a handler, so other operations run
  in the middle of it: it is cut there, into the part up to a handler and the part behind it. The timer and the
  position that \<open>emplace_hint\<close> chooses are parameters. \<open>bt_added\<close> and \<open>bt_called\<close> record what was requested and which
  handlers were called, with the error flag; the program has no such fields.
\<close>

section \<open>Operations\<close>

record ('t, 'w) timer_ops =
  tm_expires_at :: "'t \<Rightarrow> 'w \<Rightarrow> 'w"
  tm_async_wait :: "'w \<Rightarrow> 'w"
  tm_cancel :: "'w \<Rightarrow> 'w"

record ('t, 'a, 'w) beat_timer =
  bt_timer :: 'w
  bt_map :: "('t \<times> 'a) list"
  bt_cancel_request :: bool
  bt_added :: "'a list"
  bt_called :: "('a \<times> bool) list"

definition beat_timer_new :: "'w \<Rightarrow> ('t, 'a, 'w) beat_timer" where
  "beat_timer_new w = \<lparr>bt_timer = w, bt_map = [], bt_cancel_request = False, bt_added = [], bt_called = []\<rparr>"

text \<open>\<open>expires_at\<close> and \<open>async_wait\<close> of the timer, for the first request.\<close>

definition bt_arm :: "('t, 'w) timer_ops \<Rightarrow> 't \<Rightarrow> ('t, 'a, 'w) beat_timer \<Rightarrow> ('t, 'a, 'w) beat_timer" where
  "bt_arm ops t b = b\<lparr>bt_timer := tm_async_wait ops (tm_expires_at ops t (bt_timer b))\<rparr>"

definition bt_async_wait ::
  "('t, 'w) timer_ops \<Rightarrow> ('t \<Rightarrow> ('t \<times> 'a) list \<Rightarrow> nat) \<Rightarrow> 't \<Rightarrow> 'a \<Rightarrow> ('t, 'a, 'w) beat_timer \<Rightarrow> ('t, 'a, 'w) beat_timer" where
  "bt_async_wait ops place time a b =
     (let it = place time (bt_map b);
          b' = b\<lparr>bt_map := take it (bt_map b) @ (time, a) # drop it (bt_map b), bt_added := bt_added b @ [a]\<rparr>
      in if it = 0 \<and> \<not> bt_cancel_request b then bt_arm ops time b' else b')"

definition bt_cancel :: "('t, 'w) timer_ops \<Rightarrow> ('t, 'a, 'w) beat_timer \<Rightarrow> ('t, 'a, 'w) beat_timer" where
  "bt_cancel ops b = b\<lparr>bt_timer := tm_cancel ops (bt_timer b), bt_cancel_request := True\<rparr>"

text \<open>Takes the first request out and calls its handler, or does not when there is none.\<close>

fun bt_pop :: "bool \<Rightarrow> ('t, 'a, 'w) beat_timer \<Rightarrow> ('t, 'a, 'w) beat_timer option" where
  "bt_pop error b =
     (case bt_map b of
        [] \<Rightarrow> None
      | (t, a) # m \<Rightarrow> Some (b\<lparr>bt_map := m, bt_called := bt_called b @ [(a, error)]\<rparr>))"

text \<open>The loop of a cancelled \<open>on_wait\<close>, up to the next handler; \<open>True\<close> when a handler is running.\<close>

definition bt_cancel_loop :: "('t, 'a, 'w) beat_timer \<Rightarrow> bool \<times> ('t, 'a, 'w) beat_timer" where
  "bt_cancel_loop b =
     (case bt_pop True b of
        None \<Rightarrow> (False, b\<lparr>bt_cancel_request := False\<rparr>)
      | Some b' \<Rightarrow> (True, b'))"

definition bt_on_wait :: "bool \<Rightarrow> ('t, 'a, 'w) beat_timer \<Rightarrow> bool \<times> ('t, 'a, 'w) beat_timer" where
  "bt_on_wait error b =
     (if error then (if bt_cancel_request b then bt_cancel_loop b else (False, b))
      else case bt_pop False b of None \<Rightarrow> (False, b) | Some b' \<Rightarrow> (True, b'))"

text \<open>Behind the handler of an \<open>on_wait\<close> without error.\<close>

definition bt_resume :: "('t, 'w) timer_ops \<Rightarrow> ('t, 'a, 'w) beat_timer \<Rightarrow> ('t, 'a, 'w) beat_timer" where
  "bt_resume ops b = (case bt_map b of [] \<Rightarrow> b | (t, a) # m \<Rightarrow> bt_arm ops t b)"

section \<open>The timer\<close>

text \<open>
  What the timer promises. \<open>live\<close> counts the waits that will be reported without error, \<open>doomed\<close> those
  that were cancelled and will be reported with one; \<open>expires_at\<close> and \<open>cancel\<close> may doom any of the waits. \<open>reports w error w'\<close>: the timer
  in the state \<open>w\<close> calls \<open>on_wait\<close> with or without error. \<open>expiry\<close> is the time it is set to.
\<close>

locale asio_timer =
  fixes ops :: "('t :: linorder, 'w) timer_ops"
    and reports :: "'w \<Rightarrow> bool \<Rightarrow> 'w \<Rightarrow> bool" and live doomed :: "'w \<Rightarrow> nat" and expiry :: "'w \<Rightarrow> 't"
  assumes expires_at: "live (tm_expires_at ops t w) + doomed (tm_expires_at ops t w) = live w + doomed w" "expiry (tm_expires_at ops t w) = t"
    and cancel_waits: "live (tm_cancel ops w) + doomed (tm_cancel ops w) = live w + doomed w" "expiry (tm_cancel ops w) = expiry w"
    and async_wait: "live (tm_async_wait ops w) = Suc (live w)" "doomed (tm_async_wait ops w) = doomed w" "expiry (tm_async_wait ops w) = expiry w"
    and success: "reports w False w' \<Longrightarrow> live w = Suc (live w') \<and> doomed w' = doomed w \<and> expiry w' = expiry w"
    and failure: "reports w True w' \<Longrightarrow> doomed w = Suc (doomed w') \<and> live w' = live w \<and> expiry w' = expiry w"

text \<open>The position of an insertion keeps a list in order.\<close>

locale multimap_place =
  fixes place :: "'t :: linorder \<Rightarrow> ('t \<times> 'a) list \<Rightarrow> nat"
  assumes bounded: "place t m \<le> length m"
    and place: "sorted (map fst m) \<Longrightarrow> sorted (map fst (take (place t m) m @ (t, a) # drop (place t m) m))"

text \<open>A timer that cancels all waits, and insertion in front of the requests with the same time.\<close>

record clock =
  ck_live :: nat
  ck_doomed :: nat
  ck_expiry :: nat

definition clock_ops :: "(nat, clock) timer_ops" where
  "clock_ops =
     \<lparr>tm_expires_at = (\<lambda>t w. w\<lparr>ck_live := 0, ck_doomed := ck_doomed w + ck_live w, ck_expiry := t\<rparr>),
      tm_async_wait = (\<lambda>w. w\<lparr>ck_live := Suc (ck_live w)\<rparr>),
      tm_cancel = (\<lambda>w. w\<lparr>ck_live := 0, ck_doomed := ck_doomed w + ck_live w\<rparr>)\<rparr>"

definition clock_reports :: "clock \<Rightarrow> bool \<Rightarrow> clock \<Rightarrow> bool" where
  "clock_reports w error w' \<longleftrightarrow>
     (if error then 0 < ck_doomed w \<and> w' = w\<lparr>ck_doomed := ck_doomed w - 1\<rparr> else 0 < ck_live w \<and> w' = w\<lparr>ck_live := ck_live w - 1\<rparr>)"

definition lower_bound :: "'t :: linorder \<Rightarrow> ('t \<times> 'a) list \<Rightarrow> nat" where
  "lower_bound t m = length (takeWhile (\<lambda>x. fst x < t) m)"

interpretation clock: asio_timer clock_ops clock_reports ck_live ck_doomed ck_expiry
  by unfold_locales (auto simp: clock_ops_def clock_reports_def)

interpretation lower_bound: multimap_place "lower_bound :: 't :: linorder \<Rightarrow> ('t \<times> 'a) list \<Rightarrow> nat"
proof
  fix m :: "('t :: linorder \<times> 'a) list" and t
  show "lower_bound t m \<le> length m" by (simp add: lower_bound_def length_takeWhile_le)
next
  fix m :: "('t :: linorder \<times> 'a) list" and t a
  assume s: "sorted (map fst m)"
  let ?l = "takeWhile (\<lambda>x. fst x < t) m" and ?r = "dropWhile (\<lambda>x. fst x < t) m"
  have m: "m = ?l @ ?r" by simp
  have "sorted (map fst ?l @ map fst ?r)" using s m by (metis map_append)
  moreover have "\<forall>x \<in> set ?l. fst x < t" by (auto dest: set_takeWhileD)
  moreover have "\<forall>x \<in> set ?r. t \<le> fst x"
  proof
    fix x
    assume x: "x \<in> set ?r"
    then have "?r \<noteq> []" by (metis empty_iff list.set(1))
    then have "t \<le> fst (hd ?r)" using hd_dropWhile [of "\<lambda>x. fst x < t" m] by (meson not_less)
    also have "fst (hd ?r) \<le> fst x" using \<open>sorted (map fst ?l @ map fst ?r)\<close> x by (cases ?r) (auto simp: sorted_append)
    finally show "t \<le> fst x" .
  qed
  ultimately have "sorted (map fst (?l @ (t, a) # ?r))" by (fastforce simp: sorted_append)
  moreover have "take (lower_bound t m) m = ?l" "drop (lower_bound t m) m = ?r"
    unfolding lower_bound_def by (metis takeWhile_eq_take, metis dropWhile_eq_drop)
  ultimately show "sorted (map fst (take (lower_bound t m) m @ (t, a) # drop (lower_bound t m) m))" by simp
qed

section \<open>Runs\<close>

text \<open>
  The timer object with the threads that are inside of a handler: \<open>s_waiting\<close> of them will go on with
  \<open>bt_resume\<close>, \<open>s_cancelling\<close> with the loop of a cancelled \<open>on_wait\<close>.
\<close>

record ('t, 'a, 'w) timer_system =
  s_timer :: "('t, 'a, 'w) beat_timer"
  s_waiting :: nat
  s_cancelling :: nat

inductive timer_step ::
  "('t, 'w) timer_ops \<Rightarrow> ('t \<Rightarrow> ('t \<times> 'a) list \<Rightarrow> nat) \<Rightarrow> ('w \<Rightarrow> bool \<Rightarrow> 'w \<Rightarrow> bool)
   \<Rightarrow> bool \<Rightarrow> ('t, 'a, 'w) timer_system \<Rightarrow> ('t, 'a, 'w) timer_system \<Rightarrow> bool" for ops place reports where
  request: "timer_step ops place reports False s (s\<lparr>s_timer := bt_async_wait ops place time a (s_timer s)\<rparr>)"
| cancel: "timer_step ops place reports True s (s\<lparr>s_timer := bt_cancel ops (s_timer s)\<rparr>)"
| wait_ok: "reports (bt_timer (s_timer s)) False w \<Longrightarrow> bt_on_wait False ((s_timer s)\<lparr>bt_timer := w\<rparr>) = (running, b)
    \<Longrightarrow> timer_step ops place reports False s (s\<lparr>s_timer := b, s_waiting := s_waiting s + of_bool running\<rparr>)"
| wait_error: "reports (bt_timer (s_timer s)) True w \<Longrightarrow> bt_on_wait True ((s_timer s)\<lparr>bt_timer := w\<rparr>) = (running, b)
    \<Longrightarrow> timer_step ops place reports False s (s\<lparr>s_timer := b, s_cancelling := s_cancelling s + of_bool running\<rparr>)"
| resume: "0 < s_waiting s
    \<Longrightarrow> timer_step ops place reports False s (s\<lparr>s_timer := bt_resume ops (s_timer s), s_waiting := s_waiting s - 1\<rparr>)"
| resume_cancel: "0 < s_cancelling s \<Longrightarrow> bt_cancel_loop (s_timer s) = (running, b)
    \<Longrightarrow> timer_step ops place reports False s (s\<lparr>s_timer := b, s_cancelling := s_cancelling s - of_bool (\<not> running)\<rparr>)"

text \<open>Any number of steps; the flag tells whether steps of \<open>cancel\<close> may be among them.\<close>

inductive timer_run ::
  "('t, 'w) timer_ops \<Rightarrow> ('t \<Rightarrow> ('t \<times> 'a) list \<Rightarrow> nat) \<Rightarrow> ('w \<Rightarrow> bool \<Rightarrow> 'w \<Rightarrow> bool)
   \<Rightarrow> bool \<Rightarrow> ('t, 'a, 'w) timer_system \<Rightarrow> ('t, 'a, 'w) timer_system \<Rightarrow> bool" for ops place reports may_cancel s0 where
  start: "timer_run ops place reports may_cancel s0 s0"
| step: "timer_run ops place reports may_cancel s0 s \<Longrightarrow> timer_step ops place reports c s s' \<Longrightarrow> c \<longrightarrow> may_cancel
    \<Longrightarrow> timer_run ops place reports may_cancel s0 s'"

lemma timer_run_induct [consumes 1, case_names start step]:
  assumes "timer_run ops place reports may_cancel s0 s" "I s0"
    and "\<And>s s' c. I s \<Longrightarrow> timer_step ops place reports c s s' \<Longrightarrow> c \<longrightarrow> may_cancel \<Longrightarrow> I s'"
  shows "I s"
  using assms by (induction rule: timer_run.induct) blast+

definition system_new :: "'w \<Rightarrow> ('t, 'a, 'w) timer_system" where
  "system_new w = \<lparr>s_timer = beat_timer_new w, s_waiting = 0, s_cancelling = 0\<rparr>"

lemma bt_arm_frame [simp]:
  "bt_map (bt_arm ops t b) = bt_map b" "bt_cancel_request (bt_arm ops t b) = bt_cancel_request b" "bt_called (bt_arm ops t b) = bt_called b"
  by (simp_all add: bt_arm_def)

lemma bt_async_wait_frame:
  "bt_map (bt_async_wait ops place t a b) = take (place t (bt_map b)) (bt_map b) @ (t, a) # drop (place t (bt_map b)) (bt_map b)"
  "bt_cancel_request (bt_async_wait ops place t a b) = bt_cancel_request b" "bt_called (bt_async_wait ops place t a b) = bt_called b"
  by (simp_all add: bt_async_wait_def Let_def)

text \<open>Requests are either in the map or were called.\<close>

definition accounted :: "('t, 'a, 'w) beat_timer \<Rightarrow> bool" where
  "accounted b \<longleftrightarrow> mset (bt_added b) = mset (map fst (bt_called b)) + mset (map snd (bt_map b))"

lemma accounted_pop: "accounted b \<Longrightarrow> bt_pop e b = Some b' \<Longrightarrow> accounted b'"
  by (auto simp: accounted_def split: list.splits)

lemma accounted_async_wait: "accounted b \<Longrightarrow> accounted (bt_async_wait ops place t a b)"
proof -
  assume "accounted b"
  moreover have "mset (map snd (take n m @ (t, a) # drop n m)) = add_mset a (mset (map snd m))" for n m
  proof -
    have "mset (map snd m) = mset (map snd (take n m)) + mset (map snd (drop n m))" by (metis append_take_drop_id map_append mset_append)
    then show ?thesis by simp
  qed
  ultimately show ?thesis by (simp add: accounted_def bt_async_wait_def bt_arm_def Let_def)
qed

lemma accounted_frame: "accounted b \<Longrightarrow> bt_added b' = bt_added b \<Longrightarrow> bt_called b' = bt_called b \<Longrightarrow> bt_map b' = bt_map b \<Longrightarrow> accounted b'"
  by (simp add: accounted_def)

lemma bt_resume_frame [simp]:
  "bt_map (bt_resume ops b) = bt_map b" "bt_added (bt_resume ops b) = bt_added b" "bt_called (bt_resume ops b) = bt_called b"
  "bt_cancel_request (bt_resume ops b) = bt_cancel_request b"
  by (simp_all add: bt_resume_def bt_arm_def split: list.split)

lemma bt_cancel_loop_cases:
  assumes "bt_cancel_loop b = (running, b')"
  obtains "bt_map b = []" "\<not> running" "b' = b\<lparr>bt_cancel_request := False\<rparr>" | "running" "bt_pop True b = Some b'"
  using assms that by (auto simp: bt_cancel_loop_def split: list.splits)

lemma bt_on_wait_cases:
  assumes "bt_on_wait error b = (running, b')"
  obtains "\<not> running" "bt_map b' = bt_map b" "bt_added b' = bt_added b" "bt_called b' = bt_called b" "bt_timer b' = bt_timer b"
      "bt_cancel_request b' \<longrightarrow> bt_cancel_request b" "\<not> error \<longrightarrow> bt_map b = []"
    | "running" "bt_pop error b = Some b'"
  using assms that by (auto simp: bt_on_wait_def elim!: bt_cancel_loop_cases split: if_splits list.splits)

lemma accounted_step: "timer_step ops place reports c s s' \<Longrightarrow> accounted (s_timer s) \<Longrightarrow> accounted (s_timer s')"
proof (induction rule: timer_step.induct)
  case (request s time a)
  then show ?case by (simp add: accounted_async_wait)
next
  case (cancel s)
  then show ?case by (simp add: bt_cancel_def accounted_def)
next
  case (wait_ok s w running b)
  then have "accounted ((s_timer s)\<lparr>bt_timer := w\<rparr>)" by (simp add: accounted_def)
  with wait_ok(2) show ?case by (auto elim!: bt_on_wait_cases intro: accounted_pop accounted_frame simp del: bt_pop.simps)
next
  case (wait_error s w running b)
  then have "accounted ((s_timer s)\<lparr>bt_timer := w\<rparr>)" by (simp add: accounted_def)
  with wait_error(2) show ?case by (auto elim!: bt_on_wait_cases intro: accounted_pop accounted_frame simp del: bt_pop.simps)
next
  case (resume s)
  then show ?case by (auto intro: accounted_frame)
next
  case (resume_cancel s running b)
  then show ?case by (auto elim!: bt_cancel_loop_cases intro: accounted_pop accounted_frame simp del: bt_pop.simps)
qed

text \<open>The order of the map.\<close>

definition in_order :: "('t :: linorder, 'a, 'w) beat_timer \<Rightarrow> bool" where
  "in_order b \<longleftrightarrow> sorted (map fst (bt_map b))"

lemma in_order_pop: "in_order b \<Longrightarrow> bt_pop e b = Some b' \<Longrightarrow> in_order b'"
  by (auto simp: in_order_def split: list.splits)

lemma in_order_frame: "in_order b \<Longrightarrow> bt_map b' = bt_map b \<Longrightarrow> in_order b'"
  by (simp add: in_order_def)

context multimap_place
begin

lemma in_order_step: "timer_step ops place reports c s s' \<Longrightarrow> in_order (s_timer s) \<Longrightarrow> in_order (s_timer s')"
proof (induction rule: timer_step.induct)
  case (request s time a)
  have "in_order (bt_async_wait ops place time a (s_timer s))"
    unfolding in_order_def bt_async_wait_frame by (rule place) (use request in \<open>simp add: in_order_def\<close>)
  then show ?case by simp
next
  case (cancel s)
  then show ?case by (simp add: bt_cancel_def in_order_def)
next
  case (wait_ok s w running b)
  then have "in_order ((s_timer s)\<lparr>bt_timer := w\<rparr>)" by (simp add: in_order_def)
  with wait_ok(2) show ?case by (auto elim!: bt_on_wait_cases intro: in_order_pop in_order_frame simp del: bt_pop.simps)
next
  case (wait_error s w running b)
  then have "in_order ((s_timer s)\<lparr>bt_timer := w\<rparr>)" by (simp add: in_order_def)
  with wait_error(2) show ?case by (auto elim!: bt_on_wait_cases intro: in_order_pop in_order_frame simp del: bt_pop.simps)
next
  case (resume s)
  then show ?case by (auto intro: in_order_frame)
next
  case (resume_cancel s running b)
  then show ?case by (auto elim!: bt_cancel_loop_cases intro: in_order_pop in_order_frame simp del: bt_pop.simps)
qed

end

text \<open>
  A request waits: some thread is inside of a handler and will look at the map again, or the timer is set to
  the time of the first request and will report.
\<close>

definition attended :: "('w \<Rightarrow> nat) \<Rightarrow> ('w \<Rightarrow> 't) \<Rightarrow> ('t, 'a, 'w) timer_system \<Rightarrow> bool" where
  "attended live expiry s \<longleftrightarrow>
     bt_map (s_timer s) = [] \<or> 0 < s_waiting s
     \<or> 0 < live (bt_timer (s_timer s)) \<and> expiry (bt_timer (s_timer s)) = fst (hd (bt_map (s_timer s)))"

locale beat_environment = asio_timer ops reports live doomed expiry + multimap_place place
  for ops :: "('t :: linorder, 'w) timer_ops" and reports live doomed expiry and place :: "'t \<Rightarrow> ('t \<times> 'a) list \<Rightarrow> nat"
begin

lemma arm: "0 < live (bt_timer (bt_arm ops t b))" "expiry (bt_timer (bt_arm ops t b)) = t"
  by (simp_all add: bt_arm_def async_wait expires_at)

lemma attended_step:
  assumes "timer_step ops place reports c s s'" "\<not> c" "\<not> bt_cancel_request (s_timer s)" "s_cancelling s = 0" "attended live expiry s"
  shows "attended live expiry s' \<and> \<not> bt_cancel_request (s_timer s') \<and> s_cancelling s' = 0"
  using assms
proof (induction rule: timer_step.induct)
  case (request s time a)
  let ?it = "place time (bt_map (s_timer s))"
  show ?case
  proof (cases "?it = 0")
    case True
    then show ?thesis using request by (simp add: attended_def bt_async_wait_def Let_def arm)
  next
    case False
    then show ?thesis using request bounded [of time "bt_map (s_timer s)"]
      by (cases "bt_map (s_timer s)") (auto simp: attended_def bt_async_wait_def Let_def hd_append take_Cons')
  qed
next
  case (wait_ok s w running b)
  then show ?case using success [of "bt_timer (s_timer s)" w]
    by (auto simp: attended_def bt_on_wait_def split: list.splits)
next
  case (wait_error s w running b)
  then show ?case using failure [of "bt_timer (s_timer s)" w]
    by (auto simp: attended_def bt_on_wait_def)
next
  case (resume s)
  then show ?case by (auto simp: attended_def bt_resume_def arm split: list.splits)
qed simp_all

end

context asio_timer
begin

text \<open>Nothing is outstanding, and a cancellation is requested.\<close>

definition stuck :: "('t, 'a, 'w) timer_system \<Rightarrow> bool" where
  "stuck s \<longleftrightarrow> bt_cancel_request (s_timer s) \<and> live (bt_timer (s_timer s)) + doomed (bt_timer (s_timer s)) = 0 \<and> s_waiting s = 0 \<and> s_cancelling s = 0"

lemma stuck_step:
  assumes "timer_step ops place reports c s s'" "stuck s"
  shows "stuck s' \<and> bt_called (s_timer s') = bt_called (s_timer s)"
  using assms
proof (induction rule: timer_step.induct)
  case (request s time a)
  then show ?case by (simp add: stuck_def bt_async_wait_def Let_def)
next
  case (cancel s)
  then show ?case using cancel_waits [of "bt_timer (s_timer s)"] by (simp add: stuck_def bt_cancel_def)
next
  case (wait_ok s w running b)
  then show ?case using success [of "bt_timer (s_timer s)" w] by (simp add: stuck_def)
next
  case (wait_error s w running b)
  then show ?case using failure [of "bt_timer (s_timer s)" w] by (simp add: stuck_def)
qed (simp_all add: stuck_def)

end

interpretation clock_beat: beat_environment clock_ops clock_reports ck_live ck_doomed ck_expiry lower_bound
  by unfold_locales

section \<open>Properties\<close>

text \<open>
  (C17) In every run, with any interleaving of requests, cancellations and reports of the timer, the handlers that
  were called and the requests that still wait are together exactly the requests that were made: none is lost and none is
  called twice. The waiting requests are in the order of their times, so the first to be called is the earliest.
\<close>

theorem beat_timer_accounts:
  assumes "multimap_place place" "timer_run ops place reports may_cancel (system_new w) s"
  shows "mset (bt_added (s_timer s)) = mset (map fst (bt_called (s_timer s))) + mset (map snd (bt_map (s_timer s)))
    \<and> sorted (map fst (bt_map (s_timer s)))"
proof -
  have "accounted (s_timer s) \<and> in_order (s_timer s)"
    using assms(2)
  proof (induction rule: timer_run_induct)
    case start
    show ?case by (simp add: system_new_def beat_timer_new_def accounted_def in_order_def)
  next
    case (step s s' c)
    then show ?case using accounted_step multimap_place.in_order_step [OF assms(1)] by blast
  qed
  then show ?thesis by (simp add: accounted_def in_order_def)
qed

text \<open>
  (C18) Without cancellations, whenever a request waits in any run, a thread is inside of a handler and will set the timer again, or the
  timer is set to the time of the first request and will report without error: no wake-up is lost.
\<close>

theorem beat_timer_wakes:
  assumes "beat_environment ops reports live doomed expiry place" "timer_run ops place reports False (system_new w) s" "bt_map (s_timer s) \<noteq> []" "s_waiting s = 0"
  shows "0 < live (bt_timer (s_timer s)) \<and> expiry (bt_timer (s_timer s)) = fst (hd (bt_map (s_timer s)))"
proof -
  have "attended live expiry s \<and> \<not> bt_cancel_request (s_timer s) \<and> s_cancelling s = 0"
    using assms(2)
  proof (induction rule: timer_run_induct)
    case start
    show ?case by (simp add: system_new_def beat_timer_new_def attended_def)
  next
    case (step s s' c)
    then show ?case using beat_environment.attended_step [OF assms(1)] by blast
  qed
  then show ?thesis using assms(3,4) by (simp add: attended_def)
qed

text \<open>
  A cancellation while no wait is outstanding is never taken back: from then on no handler is called, whatever is
  requested, cancelled and reported afterwards. (\<open>cancel\<close> sets the request also on an idle timer, and only a report clears it.)
\<close>

theorem beat_timer_idle_cancel:
  assumes "asio_timer ops reports live doomed expiry" "live (bt_timer (s_timer s)) + doomed (bt_timer (s_timer s)) = 0" "s_waiting s = 0" "s_cancelling s = 0"
    and "timer_run ops place reports True (s\<lparr>s_timer := bt_cancel ops (s_timer s)\<rparr>) s'"
  shows "bt_called (s_timer s') = bt_called (s_timer s)"
proof -
  have "asio_timer.stuck live doomed s' \<and> bt_called (s_timer s') = bt_called (s_timer s)"
    using assms(5)
  proof (induction rule: timer_run_induct)
    case start
    show ?case using assms(2-4) asio_timer.cancel_waits(1) [OF assms(1), of "bt_timer (s_timer s)"]
      by (simp add: asio_timer.stuck_def [OF assms(1)] bt_cancel_def)
  next
    case (step s1 s2 c)
    then show ?case using asio_timer.stuck_step [OF assms(1)] by metis
  qed
  then show ?thesis by simp
qed

text \<open>Concrete runs: a request that is served, and a cancellation of a new timer.\<close>

definition clock_new :: clock where
  "clock_new = \<lparr>ck_live = 0, ck_doomed = 0, ck_expiry = 0\<rparr>"

definition sample_system :: "(nat, string, clock) timer_system" where
  "sample_system = (system_new clock_new)\<lparr>s_timer := bt_async_wait clock_ops lower_bound 5 ''a'' (beat_timer_new clock_new)\<rparr>"

lemma sample_run: "timer_run clock_ops lower_bound clock_reports c (system_new clock_new) sample_system"
proof -
  have "timer_step clock_ops lower_bound clock_reports False (system_new clock_new) ((system_new clock_new)\<lparr>s_timer := bt_async_wait clock_ops lower_bound 5 ''a'' (s_timer (system_new clock_new))\<rparr>)"
    by (rule timer_step.request)
  then show ?thesis using timer_run.step [OF timer_run.start] by (fastforce simp: sample_system_def system_new_def)
qed

theorem beat_timer_accounts_witness:
  "mset (bt_added (s_timer sample_system)) = mset (map fst (bt_called (s_timer sample_system))) + mset (map snd (bt_map (s_timer sample_system)))
    \<and> bt_added (s_timer sample_system) = [''a'']"
  using beat_timer_accounts [OF lower_bound.multimap_place_axioms sample_run]
  by (simp add: sample_system_def bt_async_wait_def bt_arm_def beat_timer_new_def Let_def)

theorem beat_timer_wakes_witness:
  "0 < ck_live (bt_timer (s_timer sample_system)) \<and> ck_expiry (bt_timer (s_timer sample_system)) = 5"
proof -
  have m: "bt_map (s_timer sample_system) = [(5, ''a'')]" "s_waiting sample_system = 0"
    by (simp_all add: sample_system_def bt_async_wait_def bt_arm_def beat_timer_new_def system_new_def Let_def)
  then show ?thesis using beat_timer_wakes [OF clock_beat.beat_environment_axioms sample_run] by simp
qed

theorem beat_timer_idle_cancel_witness:
  "bt_called (s_timer (sample_system\<lparr>s_timer := bt_async_wait clock_ops lower_bound 5 ''a'' (bt_cancel clock_ops (beat_timer_new clock_new))\<rparr>)) = []"
proof -
  let ?s = "system_new clock_new :: (nat, string, clock) timer_system"
  let ?c = "?s\<lparr>s_timer := bt_cancel clock_ops (s_timer ?s)\<rparr>"
  have "timer_run clock_ops lower_bound clock_reports True ?c (?c\<lparr>s_timer := bt_async_wait clock_ops lower_bound 5 ''a'' (s_timer ?c)\<rparr>)"
    by (rule timer_run.step [OF timer_run.start timer_step.request]) simp
  from beat_timer_idle_cancel [OF clock.asio_timer_axioms _ _ _ this] show ?thesis
    by (simp add: system_new_def beat_timer_new_def clock_new_def sample_system_def bt_async_wait_def bt_cancel_def Let_def)
qed

end
