(* ===== verification/Server.thy ===== *)
theory Server
  imports Acqua_Prelude
begin

text \<open>
  The servers (\<^verbatim>\<open>asio/detail/simple_server_base.hpp\<close>, \<^verbatim>\<open>asio/simple_server.hpp\<close>, \<^verbatim>\<open>asio/internet_server.hpp\<close>,
  \<^verbatim>\<open>asio/server_traits.hpp\<close>): acceptors that share one count of connectors. Every access to an atomic variable is a step of its own, so
  that the operations of several threads interleave; a server has a list of acceptors (one for \<open>simple_server\<close>, the IPv4
  and the IPv6 acceptor for \<open>internet_server\<close>) and the operations that are in progress.
\<close>

section \<open>State\<close>

text \<open>
  An acceptor with its flags, the number of its outstanding \<open>async_accept\<close> operations and of its connectors
  that were started. \<open>use_count_\<close> is a natural number: it counts connectors and cannot overflow, but it is
  decremented modulo \<open>2\<^sup>6\<^sup>4\<close>.
\<close>

record acceptor =
  ac_open :: bool
  ac_running :: bool
  ac_waiting :: bool
  ac_pending :: nat
  ac_live :: nat

text \<open>
  The operation in progress: who called \<open>async_accept\<close>, and the next access to a shared variable. A connector is
  released by its deleter, \<open>on_disconnect\<close>.
\<close>

datatype origin = by_start | by_accept | by_disconnect

datatype point =
    P_running | P_check | P_count | P_exchange | P_undo | P_construct
  | P_fail_running | P_fail_waiting | P_decl | P_reset | P_catch_running | P_catch_waiting

type_synonym activity = "nat \<times> origin \<times> point"

record server =
  sv_use :: nat
  sv_max :: nat
  sv_stopped :: bool
  sv_acceptors :: "acceptor list"
  sv_acts :: "activity list"

datatype server_error = already_started | not_socket | invalid_argument

definition acceptor_new :: acceptor where
  "acceptor_new = \<lparr>ac_open = False, ac_running = False, ac_waiting = False, ac_pending = 0, ac_live = 0\<rparr>"

definition simple_server_new :: server where
  "simple_server_new = \<lparr>sv_use = 0, sv_max = 100, sv_stopped = False, sv_acceptors = [acceptor_new], sv_acts = []\<rparr>"

definition internet_server_new :: server where
  "internet_server_new = \<lparr>sv_use = 0, sv_max = 100, sv_stopped = False, sv_acceptors = [acceptor_new, acceptor_new], sv_acts = []\<rparr>"

definition simple_max_count :: "nat \<Rightarrow> server \<Rightarrow> server_error option \<times> server" where
  "simple_max_count n s = (if 1 \<le> n then (None, s\<lparr>sv_max := n\<rparr>) else (Some invalid_argument, s))"

definition internet_max_count :: "nat \<Rightarrow> server \<Rightarrow> server_error option \<times> server" where
  "internet_max_count n s = (if 2 \<le> n then (None, s\<lparr>sv_max := n\<rparr>) else (Some invalid_argument, s))"

definition on_acceptor :: "nat \<Rightarrow> (acceptor \<Rightarrow> acceptor) \<Rightarrow> server \<Rightarrow> server" where
  "on_acceptor b f s = s\<lparr>sv_acceptors := (sv_acceptors s)[b := f (sv_acceptors s ! b)]\<rparr>"

definition acceptor_of :: "server \<Rightarrow> nat \<Rightarrow> acceptor" where
  "acceptor_of s b = sv_acceptors s ! b"

section \<open>Opening\<close>

text \<open>
  \<open>listen\<close>: the calls in order, up to the first error. \<open>fails\<close> tells which calls of the acceptor fail. The acceptor
  is open from the first call on.
\<close>

datatype listen_call = C_open | C_reuse | C_v6only | C_option | C_bind | C_listen

definition listen_calls :: "bool \<Rightarrow> bool \<Rightarrow> listen_call list" where
  "listen_calls reuse_addr v6only =
     [C_open] @ (if reuse_addr then [C_reuse] else []) @ (if v6only then [C_v6only] else []) @ [C_option, C_bind, C_listen]"

fun first_failure :: "(listen_call \<Rightarrow> 'e option) \<Rightarrow> listen_call list \<Rightarrow> 'e option" where
  "first_failure fails [] = None"
| "first_failure fails (c # cs) = (case fails c of Some e \<Rightarrow> Some e | None \<Rightarrow> first_failure fails cs)"

definition server_listen ::
  "(listen_call \<Rightarrow> 'e option) \<Rightarrow> bool \<Rightarrow> bool \<Rightarrow> nat \<Rightarrow> server \<Rightarrow> 'e option \<times> server" where
  "server_listen fails reuse_addr v6only b s =
     (first_failure fails (listen_calls reuse_addr v6only),
      if fails C_open = None then on_acceptor b (\<lambda>a. a\<lparr>ac_open := True\<rparr>) s else s)"

text \<open>\<open>internet_server::listen\<close> on a port: IPv4 and then IPv6, with one error code.\<close>

definition internet_listen_port ::
  "(nat \<Rightarrow> listen_call \<Rightarrow> 'e option) \<Rightarrow> bool \<Rightarrow> server \<Rightarrow> 'e option \<times> server" where
  "internet_listen_port fails reuse_addr s =
     (let (ec4, s4) = server_listen (fails 0) reuse_addr False 0 s in server_listen (fails 1) reuse_addr True 1 s4)"

section \<open>Operations\<close>

definition add_act :: "activity \<Rightarrow> server \<Rightarrow> server" where
  "add_act act s = s\<lparr>sv_acts := sv_acts s @ [act]\<rparr>"

text \<open>\<open>start\<close>, \<open>cancel\<close> and \<open>close\<close> of one acceptor.\<close>

definition base_start :: "nat \<Rightarrow> server \<Rightarrow> server_error option \<times> server" where
  "base_start b s =
     (if ac_open (acceptor_of s b) then
        if \<not> ac_running (acceptor_of s b)
        then (None, add_act (b, by_start, P_check) (on_acceptor b (\<lambda>a. a\<lparr>ac_running := True\<rparr>) s))
        else (Some already_started, s)
      else (Some not_socket, s))"

definition base_cancel :: "nat \<Rightarrow> server \<Rightarrow> server" where
  "base_cancel b s = on_acceptor b (\<lambda>a. a\<lparr>ac_running := False\<rparr>) s"

definition base_close :: "nat \<Rightarrow> server \<Rightarrow> server" where
  "base_close b s = on_acceptor b (\<lambda>a. a\<lparr>ac_running := False, ac_open := False\<rparr>) s"

text \<open>
  \<open>internet_server::start\<close>, \<open>cancel\<close> and \<open>close\<close>. \<open>returns\<close> is what happens until the
  \<open>start\<close> of one acceptor returns.
\<close>

definition internet_start :: "(server \<Rightarrow> server) \<Rightarrow> server \<Rightarrow> server_error option \<times> server" where
  "internet_start returns s =
     (if \<not> ac_open (acceptor_of s 0) \<and> \<not> ac_open (acceptor_of s 1) then (Some not_socket, s)
      else let (ec, s1) = (if ac_open (acceptor_of s 0) then map_prod id returns (base_start 0 s) else (None, s))
           in if ec = None \<and> ac_open (acceptor_of s1 1) then
                let (ec', s2) = map_prod id returns (base_start 1 s1) in (ec', if ec' \<noteq> None then base_cancel 0 s2 else s2)
              else (ec, s1))"

definition internet_cancel :: "server \<Rightarrow> server" where
  "internet_cancel s =
     (let s1 = (if ac_open (acceptor_of s 0) then base_cancel 0 s else s)
      in if ac_open (acceptor_of s1 1) then base_cancel 1 s1 else s1)"

definition internet_close :: "server \<Rightarrow> server" where
  "internet_close s =
     (let s1 = (if ac_open (acceptor_of s 0) then base_close 0 s else s)
      in if ac_open (acceptor_of s1 1) then base_close 1 s1 else s1)"

text \<open>\<open>async_accept\<close> has returned: \<open>on_accept\<close> starts its connector.\<close>

definition accept_returned :: "nat \<Rightarrow> origin \<Rightarrow> server \<Rightarrow> server" where
  "accept_returned b org s = (if org = by_accept then on_acceptor b (\<lambda>a. a\<lparr>ac_live := Suc (ac_live a)\<rparr>) s else s)"

definition count_decr :: "nat \<Rightarrow> nat" where
  "count_decr n = (if n = 0 then 2 ^ 64 - 1 else n - 1)"

text \<open>
  One access to a shared variable: \<open>incr\<close> with its undo, the construction with the call of the acceptor, the two
  branches of \<open>on_accept\<close>, \<open>decl\<close> and the handler of exceptions of \<open>on_disconnect\<close>.
\<close>

fun act_step :: "activity \<Rightarrow> server \<Rightarrow> server \<times> activity option" where
  "act_step (b, org, P_running) s =
     (s, Some (if ac_running (acceptor_of s b) then (b, org, P_check) else (b, by_disconnect, P_decl)))"
| "act_step (b, org, P_check) s =
     (if ac_waiting (acceptor_of s b) then (accept_returned b org s, None) else (s, Some (b, org, P_count)))"
| "act_step (b, org, P_count) s =
     (s\<lparr>sv_use := Suc (sv_use s)\<rparr>, Some (b, org, if sv_max s \<le> Suc (sv_use s) then P_exchange else P_construct))"
| "act_step (b, org, P_exchange) s =
     (if ac_waiting (acceptor_of s b) then (s, Some (b, org, P_undo))
      else (on_acceptor b (\<lambda>a. a\<lparr>ac_waiting := True\<rparr>) s, Some (b, org, P_construct)))"
| "act_step (b, org, P_undo) s = (accept_returned b org (s\<lparr>sv_use := count_decr (sv_use s)\<rparr>), None)"
| "act_step (b, org, P_construct) s =
     (accept_returned b org (on_acceptor b (\<lambda>a. a\<lparr>ac_pending := Suc (ac_pending a)\<rparr>) s), None)"
| "act_step (b, org, P_fail_running) s = (on_acceptor b (\<lambda>a. a\<lparr>ac_running := False\<rparr>) s, Some (b, org, P_fail_waiting))"
| "act_step (b, org, P_fail_waiting) s = (on_acceptor b (\<lambda>a. a\<lparr>ac_waiting := False\<rparr>) s, Some (b, by_disconnect, P_decl))"
| "act_step (b, org, P_decl) s =
     (if sv_stopped s then (s, None)
      else (s\<lparr>sv_use := count_decr (sv_use s)\<rparr>, if count_decr (sv_use s) < sv_max s then Some (b, org, P_reset) else None))"
| "act_step (b, org, P_reset) s =
     (if ac_waiting (acceptor_of s b) then (on_acceptor b (\<lambda>a. a\<lparr>ac_waiting := False\<rparr>) s, Some (b, org, P_check)) else (s, None))"
| "act_step (b, org, P_catch_running) s = (on_acceptor b (\<lambda>a. a\<lparr>ac_running := False\<rparr>) s, Some (b, org, P_catch_waiting))"
| "act_step (b, org, P_catch_waiting) s = (on_acceptor b (\<lambda>a. a\<lparr>ac_waiting := False\<rparr>) s, None)"

text \<open>An exception of \<open>construct\<close>: it is caught in \<open>on_disconnect\<close>, and releases the connector of \<open>on_accept\<close>.\<close>

definition act_throw :: "activity \<Rightarrow> activity option" where
  "act_throw act =
     (case act of (b, org, p) \<Rightarrow>
        (case org of by_disconnect \<Rightarrow> Some (b, org, P_catch_running) | by_accept \<Rightarrow> Some (b, by_disconnect, P_decl) | by_start \<Rightarrow> None))"

section \<open>Runs\<close>

text \<open>
  What may happen: a call of the user, the stop of the \<open>io_service\<close>, the completion of an accept, the end of a connector,
  and the next access of an operation in progress or an exception there.
\<close>

datatype sv_event =
    V_start nat | V_cancel nat | V_close nat | V_open nat | V_stop
  | V_accept nat | V_accept_error nat | V_disconnect nat | V_step nat | V_throw nat

definition replace_act :: "nat \<Rightarrow> activity option \<Rightarrow> server \<Rightarrow> server" where
  "replace_act i r s =
     s\<lparr>sv_acts := (case r of None \<Rightarrow> take i (sv_acts s) @ drop (Suc i) (sv_acts s) | Some act \<Rightarrow> (sv_acts s)[i := act])\<rparr>"

fun server_event :: "sv_event \<Rightarrow> server \<Rightarrow> server option" where
  "server_event (V_start b) s = (if b < length (sv_acceptors s) then Some (snd (base_start b s)) else None)"
| "server_event (V_cancel b) s = (if b < length (sv_acceptors s) then Some (base_cancel b s) else None)"
| "server_event (V_close b) s = (if b < length (sv_acceptors s) then Some (base_close b s) else None)"
| "server_event (V_open b) s = (if b < length (sv_acceptors s) then Some (on_acceptor b (\<lambda>a. a\<lparr>ac_open := True\<rparr>) s) else None)"
| "server_event V_stop s = Some (s\<lparr>sv_stopped := True\<rparr>)"
| "server_event (V_accept b) s =
     (if b < length (sv_acceptors s) \<and> 0 < ac_pending (acceptor_of s b)
      then Some (add_act (b, by_accept, P_running) (on_acceptor b (\<lambda>a. a\<lparr>ac_pending := ac_pending a - 1\<rparr>) s)) else None)"
| "server_event (V_accept_error b) s =
     (if b < length (sv_acceptors s) \<and> 0 < ac_pending (acceptor_of s b)
      then Some (add_act (b, by_accept, P_fail_running) (on_acceptor b (\<lambda>a. a\<lparr>ac_pending := ac_pending a - 1\<rparr>) s)) else None)"
| "server_event (V_disconnect b) s =
     (if b < length (sv_acceptors s) \<and> 0 < ac_live (acceptor_of s b)
      then Some (add_act (b, by_disconnect, P_decl) (on_acceptor b (\<lambda>a. a\<lparr>ac_live := ac_live a - 1\<rparr>) s)) else None)"
| "server_event (V_step i) s =
     (if i < length (sv_acts s) then let (s', r) = act_step (sv_acts s ! i) s in Some (replace_act i r s') else None)"
| "server_event (V_throw i) s =
     (if i < length (sv_acts s) \<and> snd (snd (sv_acts s ! i)) = P_construct
      then Some (replace_act i (act_throw (sv_acts s ! i)) s) else None)"

text \<open>A run. With one thread an operation ends before anything else happens.\<close>

definition goes_on :: "sv_event \<Rightarrow> bool" where
  "goes_on e = (case e of V_step i \<Rightarrow> True | V_throw i \<Rightarrow> True | _ \<Rightarrow> False)"

fun server_run :: "bool \<Rightarrow> sv_event list \<Rightarrow> server \<Rightarrow> server option" where
  "server_run one_thread [] s = Some s"
| "server_run one_thread (e # es) s =
     (if one_thread \<and> \<not> goes_on e \<and> sv_acts s \<noteq> [] then None
      else case server_event e s of None \<Rightarrow> None | Some s' \<Rightarrow> server_run one_thread es s')"


section \<open>Accounting\<close>

text \<open>
  What an operation in progress holds: the connector of \<open>on_accept\<close>, the count that \<open>incr\<close> has taken, and
  the connector that \<open>on_disconnect\<close> has destructed.
\<close>

fun holds_count :: "point \<Rightarrow> bool" where
  "holds_count p \<longleftrightarrow> p \<in> {P_exchange, P_undo, P_construct, P_decl}"

fun weight :: "activity \<Rightarrow> nat" where
  "weight (b, org, p) =
     (if holds_count p then 1 else 0)
     + (if org = by_accept \<and> p \<notin> {P_decl, P_reset, P_catch_running, P_catch_waiting} then 1 else 0)"

definition connectors :: "server \<Rightarrow> nat" where
  "connectors s = sum_list (map (\<lambda>a. ac_pending a + ac_live a) (sv_acceptors s))"

definition in_progress :: "server \<Rightarrow> nat" where
  "in_progress s = sum_list (map weight (sv_acts s))"

fun act_ok :: "server \<Rightarrow> activity \<Rightarrow> bool" where
  "act_ok s (b, org, p) \<longleftrightarrow> b < length (sv_acceptors s) \<and> (p \<in> {P_decl, P_reset, P_catch_running, P_catch_waiting} \<longrightarrow> org = by_disconnect)
     \<and> (p \<in> {P_running, P_fail_running, P_fail_waiting} \<longrightarrow> org = by_accept)"

definition account :: "nat \<Rightarrow> server \<Rightarrow> bool" where
  "account leak s \<longleftrightarrow> sv_use s = connectors s + in_progress s + leak \<and> (\<forall>act \<in> set (sv_acts s). act_ok s act)"

text \<open>The events that lose a count: an exception, and the end of a connector when the \<open>io_service\<close> is stopped.\<close>

definition leaks :: "sv_event \<Rightarrow> server \<Rightarrow> nat" where
  "leaks e s =
     (case e of V_throw i \<Rightarrow> 1 | V_step i \<Rightarrow> if sv_stopped s \<and> snd (snd (sv_acts s ! i)) = P_decl then 1 else 0 | _ \<Rightarrow> 0)"

lemma sum_list_update_nat:
  fixes f :: "'a \<Rightarrow> nat"
  shows "i < length xs \<Longrightarrow> sum_list (map f (xs[i := x])) + f (xs ! i) = sum_list (map f xs) + f x"
  by (induction xs arbitrary: i) (auto split: nat.splits)

lemma sum_list_remove_nat:
  fixes f :: "'a \<Rightarrow> nat"
  assumes "i < length xs"
  shows "sum_list (map f (take i xs @ drop (Suc i) xs)) + f (xs ! i) = sum_list (map f xs)"
proof -
  have "sum_list (map f xs) = sum_list (map f (take i xs @ xs ! i # drop (Suc i) xs))" using id_take_nth_drop [OF assms] by simp
  then show ?thesis by simp
qed

lemma on_acceptor_simps [simp]:
  "sv_use (on_acceptor b f s) = sv_use s" "sv_max (on_acceptor b f s) = sv_max s" "sv_stopped (on_acceptor b f s) = sv_stopped s"
  "sv_acts (on_acceptor b f s) = sv_acts s" "length (sv_acceptors (on_acceptor b f s)) = length (sv_acceptors s)"
  "in_progress (on_acceptor b f s) = in_progress s" "in_progress (sv_stopped_update k s) = in_progress s"
  by (simp_all add: on_acceptor_def in_progress_def)

lemma acceptor_of_on [simp]: "b < length (sv_acceptors s) \<Longrightarrow> acceptor_of (on_acceptor b f s) c = (if c = b then f (acceptor_of s b) else acceptor_of s c)"
  by (auto simp: acceptor_of_def on_acceptor_def nth_list_update)

lemma acceptor_of_upd [simp]:
  "acceptor_of (sv_use_update g s) c = acceptor_of s c" "acceptor_of (sv_acts_update h s) c = acceptor_of s c"
  "acceptor_of (sv_stopped_update k s) c = acceptor_of s c" "acceptor_of (add_act act s) c = acceptor_of s c"
  by (simp_all add: acceptor_of_def add_act_def)

lemma connectors_on:
  "b < length (sv_acceptors s) \<Longrightarrow> connectors (on_acceptor b f s) + ac_pending (acceptor_of s b) + ac_live (acceptor_of s b)
    = connectors s + ac_pending (f (acceptor_of s b)) + ac_live (f (acceptor_of s b))"
  using sum_list_update_nat [of b "sv_acceptors s" "\<lambda>a. ac_pending a + ac_live a" "f (sv_acceptors s ! b)"]
  by (simp add: connectors_def on_acceptor_def acceptor_of_def)

lemma connectors_same:
  assumes "b < length (sv_acceptors s)" "\<And>a. ac_pending (f a) = ac_pending a" "\<And>a. ac_live (f a) = ac_live a"
  shows "connectors (on_acceptor b f s) = connectors s"
  using connectors_on [of b s f] assms by simp

lemma connectors_flags [simp]:
  "b < length (sv_acceptors s) \<Longrightarrow> connectors (on_acceptor b (ac_running_update f) s) = connectors s"
  "b < length (sv_acceptors s) \<Longrightarrow> connectors (on_acceptor b (ac_waiting_update f) s) = connectors s"
  "b < length (sv_acceptors s) \<Longrightarrow> connectors (on_acceptor b (ac_open_update f) s) = connectors s"
  "b < length (sv_acceptors s) \<Longrightarrow> connectors (on_acceptor b (\<lambda>a. a\<lparr>ac_running := x, ac_open := y\<rparr>) s) = connectors s"
  by (simp_all add: connectors_same)

lemma connectors_Suc [simp]:
  "b < length (sv_acceptors s) \<Longrightarrow> connectors (on_acceptor b (\<lambda>a. a\<lparr>ac_pending := Suc (ac_pending a)\<rparr>) s) = Suc (connectors s)"
  "b < length (sv_acceptors s) \<Longrightarrow> connectors (on_acceptor b (\<lambda>a. a\<lparr>ac_live := Suc (ac_live a)\<rparr>) s) = Suc (connectors s)"
  using connectors_on [of b s "\<lambda>a. a\<lparr>ac_pending := Suc (ac_pending a)\<rparr>"] connectors_on [of b s "\<lambda>a. a\<lparr>ac_live := Suc (ac_live a)\<rparr>"] by simp_all

lemma connectors_decr:
  "b < length (sv_acceptors s) \<Longrightarrow> 0 < ac_pending (acceptor_of s b) \<Longrightarrow>
    Suc (connectors (on_acceptor b (\<lambda>a. a\<lparr>ac_pending := ac_pending a - Suc 0\<rparr>) s)) = connectors s"
  "b < length (sv_acceptors s) \<Longrightarrow> 0 < ac_live (acceptor_of s b) \<Longrightarrow>
    Suc (connectors (on_acceptor b (\<lambda>a. a\<lparr>ac_live := ac_live a - Suc 0\<rparr>) s)) = connectors s"
  using connectors_on [of b s "\<lambda>a. a\<lparr>ac_pending := ac_pending a - Suc 0\<rparr>"] connectors_on [of b s "\<lambda>a. a\<lparr>ac_live := ac_live a - Suc 0\<rparr>"] by simp_all

lemma connectors_upd [simp]:
  "connectors (sv_use_update g s) = connectors s" "connectors (sv_acts_update h s) = connectors s" "connectors (sv_stopped_update k s) = connectors s"
  by (simp_all add: connectors_def)

lemma act_step_frame:
  "act_step act s = (s', r) \<Longrightarrow> sv_max s' = sv_max s \<and> sv_stopped s' = sv_stopped s \<and> sv_acts s' = sv_acts s
    \<and> length (sv_acceptors s') = length (sv_acceptors s)"
  by (cases "(act, s)" rule: act_step.cases) (auto simp: accept_returned_def split: if_splits)

text \<open>One access keeps the balance of the count.\<close>

lemma act_step_account:
  assumes "act_step act s = (s', r)" "act_ok s act" "holds_count (snd (snd act)) \<longrightarrow> 0 < sv_use s"
  shows "sv_use s' + connectors s + weight act = sv_use s + connectors s' + (case r of None \<Rightarrow> 0 | Some act' \<Rightarrow> weight act')
      + (if sv_stopped s \<and> snd (snd act) = P_decl then 1 else 0)
    \<and> (\<forall>act'. r = Some act' \<longrightarrow> act_ok s' act')"
  using assms
  by (cases "(act, s)" rule: act_step.cases) (auto simp: accept_returned_def count_decr_def split: if_splits)

lemma replace_act_simps [simp]:
  "sv_use (replace_act i r s) = sv_use s" "sv_max (replace_act i r s) = sv_max s" "sv_stopped (replace_act i r s) = sv_stopped s"
  "sv_acceptors (replace_act i r s) = sv_acceptors s" "connectors (replace_act i r s) = connectors s"
  by (simp_all add: replace_act_def connectors_def)

lemma replace_act_progress:
  "i < length (sv_acts s) \<Longrightarrow>
   in_progress (replace_act i r s) + weight (sv_acts s ! i) = in_progress s + (case r of None \<Rightarrow> 0 | Some act \<Rightarrow> weight act)"
  using sum_list_update_nat [of i "sv_acts s" weight] sum_list_remove_nat [of i "sv_acts s" weight]
  by (auto simp: in_progress_def replace_act_def split: option.splits)

lemma replace_act_set: "act \<in> set (sv_acts (replace_act i r s)) \<Longrightarrow> act \<in> set (sv_acts s) \<or> r = Some act"
  by (auto simp: replace_act_def dest: in_set_takeD in_set_dropD set_update_subset_insert [THEN subsetD] split: option.splits)

lemma act_ok_cong: "length (sv_acceptors s') = length (sv_acceptors s) \<Longrightarrow> act_ok s' act = act_ok s act"
  by (cases act) auto

lemma act_ok_upd [simp]:
  "act_ok (on_acceptor b f s) act = act_ok s act" "act_ok (sv_acts_update h s) act = act_ok s act"
  "act_ok (sv_stopped_update k s) act = act_ok s act" "act_ok (replace_act i r s) act = act_ok s act"
  by (rule act_ok_cong; simp)+


lemma progress_mem: "act \<in> set (sv_acts s) \<Longrightarrow> weight act \<le> in_progress s"
  unfolding in_progress_def by (auto intro: member_le_sum_list)

lemma in_progress_add [simp]: "in_progress (add_act act s) = in_progress s + weight act"
  by (simp add: in_progress_def add_act_def)

lemma add_act_simps [simp]:
  "sv_use (add_act act s) = sv_use s" "sv_max (add_act act s) = sv_max s" "sv_stopped (add_act act s) = sv_stopped s"
  "act_ok (add_act act s) x = act_ok s x" "sv_acceptors (add_act act s) = sv_acceptors s" "connectors (add_act act s) = connectors s" "sv_acts (add_act act s) = sv_acts s @ [act]"
  by (simp_all add: add_act_def connectors_def)

lemma act_ok_new:
  "act_ok s (b, by_start, P_check) = (b < length (sv_acceptors s))" "act_ok s (b, by_accept, P_running) = (b < length (sv_acceptors s))"
  "act_ok s (b, by_accept, P_fail_running) = (b < length (sv_acceptors s))" "act_ok s (b, by_disconnect, P_decl) = (b < length (sv_acceptors s))"
  by simp_all

declare act_ok.simps [simp del]

text \<open>Every event keeps the account.\<close>

lemma account_step:
  assumes a: "account leak s" and i: "i < length (sv_acts s)" and st: "act_step (sv_acts s ! i) s = (s', r)"
  shows "account (leak + leaks (V_step i) s) (replace_act i r s')"
proof -
  let ?act = "sv_acts s ! i"
  have act: "act_ok s ?act" "weight ?act \<le> in_progress s" using a i progress_mem [of ?act s] by (auto simp: account_def)
  have "holds_count (snd (snd ?act)) \<longrightarrow> 0 < sv_use s" using a act(2) by (cases ?act) (auto simp: account_def)
  note m = act_step_account [OF st act(1) this] and f = act_step_frame [OF st]
  have l: "leaks (V_step i) s = (if sv_stopped s \<and> snd (snd ?act) = P_decl then 1 else 0)" by (simp add: leaks_def)
  have p: "in_progress (replace_act i r s') + weight ?act = in_progress s + (case r of None \<Rightarrow> 0 | Some act \<Rightarrow> weight act)"
    using replace_act_progress [of i s' r] i f by (simp add: in_progress_def)
  have "\<forall>act \<in> set (sv_acts (replace_act i r s')). act_ok (replace_act i r s') act"
  proof
    fix act
    assume "act \<in> set (sv_acts (replace_act i r s'))"
    then have "act \<in> set (sv_acts s) \<or> r = Some act" using replace_act_set [of act i r s'] f by simp
    then have "act_ok s act \<or> act_ok s' act" using conjunct2 [OF m] a unfolding account_def by blast
    then show "act_ok (replace_act i r s') act" using act_ok_cong [of s' s act] f by simp
  qed
  then show ?thesis using m p l a by (simp add: account_def)
qed

lemma account_throw:
  assumes a: "account leak s" and i: "i < length (sv_acts s)" and c: "snd (snd (sv_acts s ! i)) = P_construct"
  shows "account (Suc leak) (replace_act i (act_throw (sv_acts s ! i)) s)"
proof -
  let ?act = "sv_acts s ! i" let ?r = "act_throw ?act"
  have act: "act_ok s ?act" using a i by (auto simp: account_def)
  obtain b org where b: "?act = (b, org, P_construct)" using c by (cases ?act) simp
  have r: "(case ?r of None \<Rightarrow> 0 | Some act \<Rightarrow> weight act) + 1 = weight ?act" "\<forall>act. ?r = Some act \<longrightarrow> act_ok s act"
    using act unfolding b by (cases org; simp add: act_throw_def act_ok.simps)+
  have "\<forall>act \<in> set (sv_acts (replace_act i ?r s)). act_ok (replace_act i ?r s) act"
    using replace_act_set [of _ i ?r s] r(2) a unfolding account_def act_ok_upd by blast
  then show ?thesis using replace_act_progress [OF i, of ?r] r(1) a by (simp add: account_def)
qed

lemma account_event:
  assumes "account leak s" "server_event e s = Some s'"
  shows "account (leak + leaks e s) s'"
proof (cases e)
  case (V_step i)
  then show ?thesis using assms account_step [OF assms(1), of i] by (auto split: if_splits prod.splits)
next
  case (V_throw i)
  then show ?thesis using assms account_throw [OF assms(1), of i] by (auto simp: leaks_def split: if_splits)
next
  case (V_start b)
  then show ?thesis using assms by (auto simp: base_start_def account_def leaks_def act_ok_new split: if_splits)
next
  case (V_accept b)
  then show ?thesis using assms connectors_decr(1) [of b s] by (auto simp: account_def leaks_def act_ok_new split: if_splits)
next
  case (V_accept_error b)
  then show ?thesis using assms connectors_decr(1) [of b s] by (auto simp: account_def leaks_def act_ok_new split: if_splits)
next
  case (V_disconnect b)
  then show ?thesis using assms connectors_decr(2) [of b s] by (auto simp: account_def leaks_def act_ok_new split: if_splits)
qed (use assms in \<open>auto simp: base_cancel_def base_close_def account_def leaks_def act_ok_new split: if_splits\<close>)

section \<open>One thread\<close>

text \<open>
  How far the count is from the limit: an acceptor that waits may be one connector over it. Within an operation the
  distance depends on the next access.
\<close>

definition waiting_count :: "server \<Rightarrow> nat" where
  "waiting_count s = sum_list (map (\<lambda>a. if ac_waiting a then 1 else 0) (sv_acceptors s))"

definition level :: "nat \<Rightarrow> nat \<Rightarrow> server \<Rightarrow> bool" where
  "level k leak s \<longleftrightarrow> sv_use s + k \<le> sv_max s + waiting_count s + leak"

fun bound_at :: "nat \<Rightarrow> server \<Rightarrow> activity \<Rightarrow> bool" where
  "bound_at leak s (b, org, P_count) \<longleftrightarrow> \<not> ac_waiting (acceptor_of s b) \<and> level 1 leak s"
| "bound_at leak s (b, org, P_exchange) \<longleftrightarrow> \<not> ac_waiting (acceptor_of s b) \<and> level 0 leak s"
| "bound_at leak s (b, org, P_undo) \<longleftrightarrow> False"
| "bound_at leak s (b, org, P_fail_waiting) \<longleftrightarrow> \<not> ac_running (acceptor_of s b) \<and> level 1 leak s"
| "bound_at leak s (b, org, P_decl) \<longleftrightarrow>
     level 1 leak s \<or> \<not> ac_waiting (acceptor_of s b) \<and> \<not> ac_running (acceptor_of s b) \<and> level 0 leak s"
| "bound_at leak s (b, org, P_reset) \<longleftrightarrow> sv_use s < sv_max s"
| "bound_at leak s (b, org, P_catch_running) \<longleftrightarrow> level 2 leak s"
| "bound_at leak s (b, org, P_catch_waiting) \<longleftrightarrow> level 2 leak s"
| "bound_at leak s (b, org, _) \<longleftrightarrow> level 1 leak s"

fun bounded :: "nat \<Rightarrow> server \<Rightarrow> activity list \<Rightarrow> bool" where
  "bounded leak s [] \<longleftrightarrow> level 1 leak s"
| "bounded leak s [act] \<longleftrightarrow> bound_at leak s act"
| "bounded leak s (act # act' # acts) \<longleftrightarrow> False"

lemma waiting_on:
  "b < length (sv_acceptors s) \<Longrightarrow> waiting_count (on_acceptor b f s) + (if ac_waiting (acceptor_of s b) then 1 else 0)
    = waiting_count s + (if ac_waiting (f (acceptor_of s b)) then 1 else 0)"
  using sum_list_update_nat [of b "sv_acceptors s" "\<lambda>a. if ac_waiting a then 1 else 0" "f (sv_acceptors s ! b)"]
  by (simp add: waiting_count_def on_acceptor_def acceptor_of_def)

lemma waiting_same:
  "b < length (sv_acceptors s) \<Longrightarrow> (\<And>a. ac_waiting (f a) = ac_waiting a) \<Longrightarrow> waiting_count (on_acceptor b f s) = waiting_count s"
  using waiting_on [of b s f] by simp

lemma waiting_set:
  "b < length (sv_acceptors s) \<Longrightarrow> \<not> ac_waiting (acceptor_of s b) \<Longrightarrow> waiting_count (on_acceptor b (\<lambda>a. a\<lparr>ac_waiting := True\<rparr>) s) = Suc (waiting_count s)"
  "b < length (sv_acceptors s) \<Longrightarrow> waiting_count s \<le> Suc (waiting_count (on_acceptor b (\<lambda>a. a\<lparr>ac_waiting := False\<rparr>) s))"
  using waiting_on [of b s "\<lambda>a. a\<lparr>ac_waiting := True\<rparr>"] waiting_on [of b s "\<lambda>a. a\<lparr>ac_waiting := False\<rparr>"] by (auto split: if_splits)

lemma waiting_upd [simp]:
  "waiting_count (sv_use_update g s) = waiting_count s" "waiting_count (sv_acts_update h s) = waiting_count s"
  "waiting_count (sv_stopped_update k s) = waiting_count s" "waiting_count (replace_act i r s) = waiting_count s"
  "waiting_count (add_act act s) = waiting_count s"
  by (simp_all add: waiting_count_def add_act_def)

lemma waiting_le: "waiting_count s \<le> length (sv_acceptors s)"
proof -
  have "sum_list (map (\<lambda>a. if ac_waiting a then 1 else 0) xs) \<le> length xs" for xs :: "acceptor list" by (induction xs) auto
  then show ?thesis by (simp add: waiting_count_def)
qed

text \<open>One access of the only operation in progress.\<close>

lemma bound_step:
  assumes "act_step act s = (s', r)" "act_ok s act" "bound_at leak s act" "holds_count (snd (snd act)) \<longrightarrow> 0 < sv_use s"
  shows "bounded (leak + (if sv_stopped s \<and> snd (snd act) = P_decl then 1 else 0)) s' (case r of None \<Rightarrow> [] | Some act' \<Rightarrow> [act'])"
proof -
  obtain b org p where act: "act = (b, org, p)" by (cases act)
  have b: "b < length (sv_acceptors s)" using assms(2) by (simp add: act act_ok.simps)
  note w = waiting_set [OF b]
  show ?thesis
    using assms(1,3,4) b w(2) unfolding act
    by (cases p) (auto simp: level_def accept_returned_def count_decr_def waiting_same w(1) split: if_splits)
qed

lemma bound_event:
  assumes "account leak s" "bounded leak s (sv_acts s)" "server_event e s = Some s'" "goes_on e \<or> sv_acts s = []"
  shows "bounded (leak + leaks e s) s' (sv_acts s')"
proof (cases "goes_on e")
  case True
  then have ne: "sv_acts s \<noteq> []" using assms(3) by (cases e) (auto simp: goes_on_def split: if_splits)
  then obtain act where act: "sv_acts s = [act]" using assms(2) by (cases "(leak, s, sv_acts s)" rule: bounded.cases) auto
  have ok: "act_ok s act" "weight act \<le> in_progress s" using assms(1) progress_mem [of act s] by (auto simp: account_def act)
  show ?thesis
  proof (cases e)
    case (V_step i)
    then have i: "i = 0" using assms(3) act by (auto split: if_splits)
    obtain s1 r where st: "act_step act s = (s1, r)" by (cases "act_step act s")
    have "holds_count (snd (snd act)) \<longrightarrow> 0 < sv_use s" using assms(1) ok(2) by (cases act) (auto simp: account_def)
    from bound_step [OF st ok(1) _ this] have *: "bounded (leak + leaks e s) s1 (case r of None \<Rightarrow> [] | Some act' \<Rightarrow> [act'])"
      using assms(2) by (simp add: V_step i act leaks_def)
    have s': "s' = replace_act 0 r s1" using assms(3) V_step i act st by simp
    have "sv_acts s' = (case r of None \<Rightarrow> [] | Some act' \<Rightarrow> [act'])" using act_step_frame [OF st] act by (auto simp: s' replace_act_def split: option.splits)
    moreover have "acceptor_of s' = acceptor_of s1" "level k l s' = level k l s1" "sv_use s' = sv_use s1" "sv_max s' = sv_max s1" for k l
      by (auto simp: s' level_def acceptor_of_def fun_eq_iff)
    then have "bound_at l s' a = bound_at l s1 a" for l a by (cases "(l, s1, a)" rule: bound_at.cases) auto
    ultimately show ?thesis using * \<open>\<And>k l. level k l s' = level k l s1\<close> by (cases r) auto
  next
    case (V_throw i)
    then have i: "i = 0" using assms(3) act by (auto split: if_splits)
    obtain b org where a: "act = (b, org, P_construct)" using assms(3) V_throw act by (cases act) (auto split: if_splits)
    have "s' = replace_act 0 (act_throw act) s" using assms(3) V_throw i act by (simp split: if_splits)
    then show ?thesis using assms(2) by (cases org) (auto simp: act a V_throw act_throw_def replace_act_def leaks_def level_def)
  qed (use True in \<open>simp_all add: goes_on_def\<close>)
next
  case False
  then have "sv_acts s = []" using assms(4) by simp
  then show ?thesis using False assms(2,3)
    by (cases e) (auto simp: goes_on_def leaks_def base_start_def base_cancel_def base_close_def level_def waiting_same split: if_splits)
qed

lemma event_frame: "server_event e s = Some s' \<Longrightarrow> sv_max s' = sv_max s \<and> length (sv_acceptors s') = length (sv_acceptors s)"
  by (cases e) (auto simp: base_start_def base_cancel_def base_close_def split: if_splits prod.splits dest: act_step_frame)

lemma run_account:
  "server_run one_thread es s = Some s' \<Longrightarrow> account leak s \<Longrightarrow> \<exists>leak'. account leak' s'"
  by (induction es arbitrary: s leak) (auto split: if_splits option.splits dest: account_event)

lemma run_bounded:
  "server_run True es s = Some s' \<Longrightarrow> account leak s \<Longrightarrow> bounded leak s (sv_acts s) \<Longrightarrow>
   \<exists>leak'. account leak' s' \<and> bounded leak' s' (sv_acts s') \<and> sv_max s' = sv_max s \<and> length (sv_acceptors s') = length (sv_acceptors s)"
proof (induction es arbitrary: s leak)
  case (Cons e es)
  obtain s1 where s1: "server_event e s = Some s1" "server_run True es s1 = Some s'" "goes_on e \<or> sv_acts s = []"
    using Cons.prems(1) by (auto split: if_splits option.splits)
  show ?case using Cons.IH [OF s1(2) account_event [OF Cons.prems(2) s1(1)] bound_event [OF Cons.prems(2,3) s1(1,3)]] event_frame [OF s1(1)] by auto
qed auto

text \<open>With an operation in progress there are no more connectors than at its end.\<close>

lemma bounded_connectors:
  assumes "account leak s" "bounded leak s (sv_acts s)" "0 < sv_max s" "sv_acceptors s \<noteq> []"
  shows "connectors s < sv_max s + length (sv_acceptors s)"
proof (cases "sv_acts s")
  case Nil
  then show ?thesis using assms waiting_le [of s] by (simp add: account_def level_def)
next
  case (Cons act acts)
  then have act: "sv_acts s = [act]" using assms(2) by (cases acts) auto
  obtain b org p where a: "act = (b, org, p)" by (cases act)
  have "0 < length (sv_acceptors s)" using assms(4) by simp
  then show ?thesis using assms(1-3) waiting_le [of s] act
    by (cases p) (auto simp: a account_def level_def in_progress_def)
qed

section \<open>Availability\<close>

text \<open>
  A single acceptor that waits has a connector, and one that runs and does not wait has an outstanding accept; within an
  operation, as far as its next access needs it.
\<close>

definition accepting :: "server \<Rightarrow> bool" where
  "accepting s \<longleftrightarrow> (let a = acceptor_of s 0 in
     (ac_waiting a \<longrightarrow> 0 < ac_pending a + ac_live a) \<and> (ac_running a \<and> \<not> ac_waiting a \<longrightarrow> 0 < ac_pending a))"

definition accepts_or_waits :: "server \<Rightarrow> bool" where
  "accepts_or_waits s \<longleftrightarrow> (let a = acceptor_of s 0 in ac_running a \<and> \<not> ac_waiting a \<longrightarrow> 0 < ac_pending a)"

fun available_at :: "server \<Rightarrow> activity \<Rightarrow> bool" where
  "available_at s (b, org, P_check) \<longleftrightarrow>
     (let a = acceptor_of s 0 in ac_waiting a \<longrightarrow> org = by_accept \<or> org = by_start \<and> 0 < ac_pending a + ac_live a)"
| "available_at s (b, org, P_fail_waiting) \<longleftrightarrow> \<not> ac_running (acceptor_of s 0)"
| "available_at s (b, org, P_decl) \<longleftrightarrow> accepts_or_waits s"
| "available_at s (b, org, P_reset) \<longleftrightarrow> accepts_or_waits s \<and> org = by_disconnect"
| "available_at s (b, org, P_catch_running) \<longleftrightarrow> False"
| "available_at s (b, org, P_catch_waiting) \<longleftrightarrow> False"
| "available_at s (b, org, _) \<longleftrightarrow> True"

fun available :: "server \<Rightarrow> activity list \<Rightarrow> bool" where
  "available s [] \<longleftrightarrow> accepting s"
| "available s (act # acts) \<longleftrightarrow> available_at s act"

lemma available_step:
  assumes "act_step act s = (s', r)" "act_ok s act" "available_at s act" "bound_at 0 s act" "\<not> sv_stopped s"
    "length (sv_acceptors s) = 1" "weight act \<le> sv_use s"
  shows "available s' (case r of None \<Rightarrow> [] | Some act' \<Rightarrow> [act'])"
proof -
  obtain b org p where act: "act = (b, org, p)" by (cases act)
  have b: "b = 0" "0 < length (sv_acceptors s)" using assms(2,6) by (simp_all add: act act_ok.simps)
  have w: "waiting_count s \<le> 1" "\<not> ac_waiting (acceptor_of s 0) \<Longrightarrow> waiting_count s = 0"
    using waiting_le [of s] assms(6) by (auto simp: waiting_count_def acceptor_of_def length_Suc_conv)
  show ?thesis
    using assms(1-5,7) b w unfolding act act_ok.simps
    by (cases p) (auto simp: level_def accept_returned_def count_decr_def accepting_def accepts_or_waits_def Let_def split: if_splits)
qed


lemma available_event:
  assumes "account 0 s" "bounded 0 s (sv_acts s)" "available s (sv_acts s)" "server_event e s = Some s'" "goes_on e \<or> sv_acts s = []"
    and "\<not> sv_stopped s" "length (sv_acceptors s) = 1" "\<forall>i. e \<noteq> V_throw i" "e \<noteq> V_stop"
  shows "available s' (sv_acts s') \<and> \<not> sv_stopped s'"
proof (cases "goes_on e")
  case True
  then obtain i where e: "e = V_step i" using assms(8) by (cases e) (auto simp: goes_on_def)
  then have "sv_acts s \<noteq> []" using assms(4) by (auto split: if_splits)
  then obtain act where act: "sv_acts s = [act]" using assms(2) by (cases "(0 :: nat, s, sv_acts s)" rule: bounded.cases) auto
  have ok: "act_ok s act" "weight act \<le> sv_use s" using assms(1) progress_mem [of act s] by (auto simp: account_def act)
  have i: "i = 0" using assms(4) e act by (auto split: if_splits)
  obtain s1 r where st: "act_step act s = (s1, r)" by (cases "act_step act s")
  have *: "available s1 (case r of None \<Rightarrow> [] | Some act' \<Rightarrow> [act'])"
    using available_step [OF st ok(1)] assms(2,3,6,7) ok(2) act by simp
  have s': "s' = replace_act 0 r s1" using assms(4) e i act st by simp
  have "sv_acts s' = (case r of None \<Rightarrow> [] | Some act' \<Rightarrow> [act'])" using act_step_frame [OF st] act by (auto simp: s' replace_act_def split: option.splits)
  moreover have "acceptor_of s' = acceptor_of s1" by (auto simp: s' acceptor_of_def fun_eq_iff)
  then have "accepting s' = accepting s1" "available_at s' a = available_at s1 a" for a
    by (auto simp: accepting_def accepts_or_waits_def) (cases "(s1, a)" rule: available_at.cases; auto simp: accepts_or_waits_def)+
  ultimately show ?thesis using * act_step_frame [OF st] assms(6) by (cases r) (auto simp: s')
next
  case False
  then have "sv_acts s = []" using assms(5) by simp
  then show ?thesis using False assms(3,4,6,7,9)
    by (cases e) (auto simp: goes_on_def base_start_def base_cancel_def base_close_def accepting_def accepts_or_waits_def Let_def split: if_splits)
qed

lemma run_available:
  "server_run True es s = Some s' \<Longrightarrow> account 0 s \<Longrightarrow> bounded 0 s (sv_acts s) \<Longrightarrow> available s (sv_acts s) \<Longrightarrow> \<not> sv_stopped s \<Longrightarrow>
   length (sv_acceptors s) = 1 \<Longrightarrow> V_stop \<notin> set es \<Longrightarrow> \<forall>i. V_throw i \<notin> set es \<Longrightarrow> available s' (sv_acts s')"
proof (induction es arbitrary: s)
  case (Cons e es)
  obtain s1 where s1: "server_event e s = Some s1" "server_run True es s1 = Some s'" "goes_on e \<or> sv_acts s = []"
    using Cons.prems(1) by (auto split: if_splits option.splits)
  have e: "\<forall>i. e \<noteq> V_throw i" "e \<noteq> V_stop" using Cons.prems(7,8) by auto
  then have "leaks e s = 0" using Cons.prems(5) by (cases e) (auto simp: leaks_def)
  then have "account 0 s1" "bounded 0 s1 (sv_acts s1)"
    using account_event [OF Cons.prems(2) s1(1)] bound_event [OF Cons.prems(2,3) s1(1,3)] by simp_all
  moreover have "available s1 (sv_acts s1)" "\<not> sv_stopped s1"
    using available_event [OF Cons.prems(2-4) s1(1,3) Cons.prems(5,6) e] by simp_all
  ultimately show ?case using Cons.IH [OF s1(2)] Cons.prems(6-8) event_frame [OF s1(1)] by simp
qed simp

text \<open>
  An acceptor that waits without a connector: only a caller of \<open>start\<close> may be looking at it.
\<close>

definition dead :: "nat \<Rightarrow> server \<Rightarrow> bool" where
  "dead b s \<longleftrightarrow> b < length (sv_acceptors s) \<and> ac_waiting (acceptor_of s b) \<and> ac_pending (acceptor_of s b) = 0 \<and> ac_live (acceptor_of s b) = 0
     \<and> list_all (\<lambda>act. fst act = b \<longrightarrow> act = (b, by_start, P_check)) (sv_acts s)
     \<and> list_all (\<lambda>act. fst act < length (sv_acceptors s)) (sv_acts s)"

lemma dead_step:
  assumes "dead b s" "act \<in> set (sv_acts s)" "act_step act s = (s', r)"
  shows "acceptor_of s' b = acceptor_of s b \<and> (\<forall>act'. r = Some act' \<longrightarrow> fst act' = b \<longrightarrow> act' = (b, by_start, P_check))
    \<and> (\<forall>act'. r = Some act' \<longrightarrow> fst act' < length (sv_acceptors s))"
proof (cases "fst act = b")
  case True
  then have "act = (b, by_start, P_check)" using assms(1,2) by (simp add: dead_def list_all_iff)
  then show ?thesis using assms(1,3) by (auto simp: dead_def accept_returned_def)
next
  case False
  then show ?thesis using assms by (cases "(act, s)" rule: act_step.cases) (auto simp: dead_def list_all_iff accept_returned_def split: if_splits)
qed

lemma dead_event:
  assumes "dead b s" "server_event e s = Some s'"
  shows "dead b s'"
proof (cases e)
  case (V_step i)
  obtain s1 r where st: "act_step (sv_acts s ! i) s = (s1, r)" by (cases "act_step (sv_acts s ! i) s")
  have i: "i < length (sv_acts s)" and s': "s' = replace_act i r s1" using assms(2) V_step st by (auto split: if_splits)
  note d = dead_step [OF assms(1) nth_mem [OF i] st] and f = act_step_frame [OF st]
  have "acceptor_of s' b = acceptor_of s b" using d by (simp add: s' acceptor_of_def)
  moreover have "act \<in> set (sv_acts s') \<Longrightarrow> act \<in> set (sv_acts s) \<or> r = Some act" for act
    using replace_act_set [of act i r s1] f by (simp add: s')
  ultimately show ?thesis using d f assms(1) unfolding dead_def list_all_iff by (metis replace_act_simps(4) s')
next
  case (V_throw i)
  have i: "i < length (sv_acts s)" and s': "s' = replace_act i (act_throw (sv_acts s ! i)) s" and c: "snd (snd (sv_acts s ! i)) = P_construct"
    using assms(2) V_throw by (auto split: if_splits)
  obtain a org where a: "sv_acts s ! i = (a, org, P_construct)" using c by (cases "sv_acts s ! i") auto
  have "a \<noteq> b" "a < length (sv_acceptors s)" using assms(1) nth_mem [OF i] by (auto simp: dead_def list_all_iff a)
  then have r: "\<And>act. act_throw (sv_acts s ! i) = Some act \<Longrightarrow> fst act \<noteq> b \<and> fst act < length (sv_acceptors s)"
    unfolding a by (cases org) (auto simp: act_throw_def)
  have "act \<in> set (sv_acts s') \<Longrightarrow> act \<in> set (sv_acts s) \<or> act_throw (sv_acts s ! i) = Some act" for act
    using replace_act_set by (simp add: s')
  then show ?thesis using assms(1) r unfolding dead_def list_all_iff acceptor_of_def by (metis replace_act_simps(4) s')
qed (use assms in \<open>auto simp: dead_def base_start_def base_cancel_def base_close_def split: if_splits\<close>)

lemma run_dead:
  "server_run one_thread es s = Some s' \<Longrightarrow> dead b s \<Longrightarrow> dead b s'"
proof (induction es arbitrary: s)
  case (Cons e es)
  obtain s1 where s1: "server_event e s = Some s1" "server_run one_thread es s1 = Some s'"
    using Cons.prems(1) by (auto split: if_splits option.splits)
  show ?case using Cons.IH [OF s1(2)] dead_event [OF Cons.prems(2) s1(1)] by blast
qed simp

section \<open>Properties\<close>

definition fresh :: "server \<Rightarrow> bool" where
  "fresh s \<longleftrightarrow> sv_use s = 0 \<and> sv_acts s = [] \<and> connectors s = 0 \<and> 0 < sv_max s \<and> sv_acceptors s \<noteq> []
     \<and> \<not> sv_stopped s \<and> (\<forall>a \<in> set (sv_acceptors s). \<not> ac_running a \<and> \<not> ac_waiting a)"

text \<open>New servers with a limit, whose acceptors are open.\<close>

definition opened :: "nat \<Rightarrow> server \<Rightarrow> server" where
  "opened n s = s\<lparr>sv_max := n, sv_acceptors := map (\<lambda>a. a\<lparr>ac_open := True\<rparr>) (sv_acceptors s)\<rparr>"

lemma opened_fresh: "0 < n \<Longrightarrow> fresh (opened n simple_server_new)" "0 < n \<Longrightarrow> fresh (opened n internet_server_new)"
  by (simp_all add: fresh_def opened_def simple_server_new_def internet_server_new_def acceptor_new_def connectors_def)

lemma fresh_account: "fresh s \<Longrightarrow> account 0 s" "fresh s \<Longrightarrow> bounded 0 s (sv_acts s)"
  by (auto simp: fresh_def account_def in_progress_def level_def)

lemma fresh_available: "fresh s \<Longrightarrow> available s (sv_acts s)"
  by (cases "sv_acceptors s") (auto simp: fresh_def accepting_def acceptor_of_def Let_def)

lemma run_counted:
  "server_run one_thread es s = Some s' \<Longrightarrow> account 0 s \<Longrightarrow> \<not> sv_stopped s \<Longrightarrow> V_stop \<notin> set es \<Longrightarrow> \<forall>i. V_throw i \<notin> set es \<Longrightarrow> account 0 s'"
proof (induction es arbitrary: s)
  case (Cons e es)
  obtain s1 where s1: "server_event e s = Some s1" "server_run one_thread es s1 = Some s'"
    using Cons.prems(1) by (auto split: if_splits option.splits)
  have e: "\<forall>i. e \<noteq> V_throw i" "e \<noteq> V_stop" using Cons.prems(4,5) by auto
  then have "leaks e s = 0" using Cons.prems(3) by (cases e) (auto simp: leaks_def)
  moreover have "\<not> sv_stopped s1" using s1(1) Cons.prems(3) e
    by (cases e) (auto simp: base_start_def base_cancel_def base_close_def split: if_splits prod.splits dest: act_step_frame)
  ultimately show ?case using Cons.IH [OF s1(2)] account_event [OF Cons.prems(2) s1(1)] Cons.prems(4,5) by simp
qed simp

text \<open>
  (C21) In every interleaving \<open>use_count_\<close> counts the connectors that exist and what the operations in progress hold; only
  exceptions of \<open>construct\<close> and the stop of the \<open>io_service\<close> make it count too many.
\<close>

theorem server_count:
  assumes "fresh s" "server_run one_thread es s = Some s'"
  shows "connectors s' + in_progress s' \<le> sv_use s'
    \<and> (V_stop \<notin> set es \<and> (\<forall>i. V_throw i \<notin> set es) \<longrightarrow> sv_use s' = connectors s' + in_progress s')"
  using run_account [OF assms(2) fresh_account(1) [OF assms(1)]] run_counted [OF assms(2) fresh_account(1) [OF assms(1)]] assms(1)
  by (auto simp: account_def fresh_def)

abbreviation steps :: "nat \<Rightarrow> nat \<Rightarrow> sv_event list" where
  "steps i n \<equiv> replicate n (V_step i)"

theorem server_count_witness:
  "\<exists>s. server_run False ([V_start 0] @ steps 0 3 @ [V_accept 0, V_step 0]) (opened 3 simple_server_new) = Some s
    \<and> sv_use s = connectors s + in_progress s"
proof -
  have "server_run False ([V_start 0] @ steps 0 3 @ [V_accept 0, V_step 0]) (opened 3 simple_server_new) \<noteq> None" by code_simp
  then obtain s where s: "server_run False ([V_start 0] @ steps 0 3 @ [V_accept 0, V_step 0]) (opened 3 simple_server_new) = Some s" by blast
  have "V_stop \<notin> set ([V_start 0] @ steps 0 3 @ [V_accept 0, V_step 0])" "\<forall>i. V_throw i \<notin> set ([V_start 0] @ steps 0 3 @ [V_accept 0, V_step 0])" by auto
  then show ?thesis using server_count [OF opened_fresh(1) s] s by auto
qed

lemma reached: "(case server_run t es s of None \<Rightarrow> False | Some s' \<Rightarrow> P s') \<Longrightarrow> \<exists>s'. server_run t es s = Some s' \<and> P s'"
  by (simp split: option.splits)

text \<open>
  (C20) With one thread there are fewer connectors than the limit and the number of acceptors together: at most
  \<open>max_count\<close> for \<open>simple_server\<close>, but one more for \<open>internet_server\<close>, which has 3 connections with a limit
  of 2.
\<close>

theorem server_limit:
  assumes "fresh s" "server_run True es s = Some s'"
  shows "connectors s' < sv_max s + length (sv_acceptors s)
    \<and> (\<exists>es s'. server_run True es (opened 2 internet_server_new) = Some s' \<and> ac_live (acceptor_of s' 0) + ac_live (acceptor_of s' 1) = 3)"
proof
  obtain leak where "account leak s'" "bounded leak s' (sv_acts s')" "sv_max s' = sv_max s" "length (sv_acceptors s') = length (sv_acceptors s)"
    using run_bounded [OF assms(2) fresh_account [OF assms(1)]] by blast
  then show "connectors s' < sv_max s + length (sv_acceptors s)"
    using bounded_connectors [of leak s'] assms(1) by (metis fresh_def length_0_conv)
  let ?es = "[V_start 0] @ steps 0 3 @ [V_start 1] @ steps 0 4 @ [V_accept 0] @ steps 0 5 @ [V_accept 0] @ steps 0 2 @ [V_accept 1] @ steps 0 2"
  have "case server_run True ?es (opened 2 internet_server_new) of None \<Rightarrow> False | Some s \<Rightarrow> ac_live (acceptor_of s 0) + ac_live (acceptor_of s 1) = 3"
    by code_simp
  from reached [OF this]
  show "\<exists>es s'. server_run True es (opened 2 internet_server_new) = Some s' \<and> ac_live (acceptor_of s' 0) + ac_live (acceptor_of s' 1) = 3" by blast
qed

theorem server_limit_witness:
  "\<exists>s. server_run True ([V_start 0] @ steps 0 4) (opened 1 simple_server_new) = Some s \<and> connectors s \<le> 1"
proof -
  have "server_run True ([V_start 0] @ steps 0 4) (opened 1 simple_server_new) \<noteq> None" by code_simp
  then obtain s where s: "server_run True ([V_start 0] @ steps 0 4) (opened 1 simple_server_new) = Some s" by blast
  have "sv_max (opened 1 simple_server_new) = 1" "length (sv_acceptors (opened 1 simple_server_new)) = 1" by (simp_all add: opened_def simple_server_new_def)
  then show ?thesis using server_limit [OF opened_fresh(1) s] s by simp
qed

text \<open>
  With one thread and one acceptor, a server that was started and not cancelled always has an outstanding accept, or it is
  full and has a connection whose end makes it accept again; whatever accepts fail and connections end.
\<close>

theorem server_availability:
  assumes "fresh s" "length (sv_acceptors s) = 1" "server_run True es s = Some s'" "V_stop \<notin> set es" "\<forall>i. V_throw i \<notin> set es"
    and "sv_acts s' = []" "ac_running (acceptor_of s' 0)"
  shows "0 < ac_pending (acceptor_of s' 0) \<or> ac_waiting (acceptor_of s' 0) \<and> 0 < ac_live (acceptor_of s' 0)"
proof -
  have "\<not> sv_stopped s" using assms(1) by (simp add: fresh_def)
  then have "accepting s'"
    using run_available [OF assms(3) fresh_account [OF assms(1)] fresh_available [OF assms(1)] _ assms(2,4,5)] assms(6) by simp
  then show ?thesis using assms(7) by (auto simp: accepting_def Let_def)
qed

theorem server_availability_witness:
  "\<exists>s. server_run True ([V_start 0] @ steps 0 4 @ [V_accept 0] @ steps 0 2 @ [V_disconnect 0] @ steps 0 6) (opened 1 simple_server_new) = Some s
    \<and> (0 < ac_pending (acceptor_of s 0) \<or> ac_waiting (acceptor_of s 0) \<and> 0 < ac_live (acceptor_of s 0))"
proof -
  let ?es = "[V_start 0] @ steps 0 4 @ [V_accept 0] @ steps 0 2 @ [V_disconnect 0] @ steps 0 6"
  have "case server_run True ?es (opened 1 simple_server_new) of None \<Rightarrow> False | Some s \<Rightarrow> sv_acts s = [] \<and> ac_running (acceptor_of s 0)" by code_simp
  from reached [OF this] obtain s where s: "server_run True ?es (opened 1 simple_server_new) = Some s" "sv_acts s = []" "ac_running (acceptor_of s 0)"
    by blast
  have "length (sv_acceptors (opened 1 simple_server_new)) = 1" by (simp add: opened_def simple_server_new_def)
  moreover have "V_stop \<notin> set ?es" "\<forall>i. V_throw i \<notin> set ?es" by auto
  ultimately show ?thesis using server_availability [OF opened_fresh(1) _ s(1) _ _ s(2,3)] s(1) by auto
qed

text \<open>
  With several threads neither holds, because the test of the limit and the change of \<open>is_waiting_\<close> are two
  steps: a server with a limit of 3 gets 4 connections, and one with a limit of 2 ends up running, without a connection and without an
  outstanding accept.
\<close>

theorem server_races:
  "(\<exists>es s. server_run False es (opened 3 simple_server_new) = Some s \<and> sv_acts s = [] \<and> ac_live (acceptor_of s 0) = 4)
   \<and> (\<exists>es s. server_run False es (opened 2 simple_server_new) = Some s \<and> V_stop \<notin> set es \<and> (\<forall>i. V_throw i \<notin> set es)
        \<and> ac_running (acceptor_of s 0) \<and> sv_acts s = [] \<and> ac_pending (acceptor_of s 0) + ac_live (acceptor_of s 0) = 0)"
proof
  let ?es = "[V_start 0] @ steps 0 3 @ [V_accept 0] @ steps 0 4 @ [V_accept 0] @ steps 0 5 @ [V_accept 0] @ steps 0 2
    @ [V_disconnect 0, V_disconnect 0, V_step 0, V_step 1] @ steps 0 4 @ [V_accept 0] @ steps 1 5 @ steps 0 5 @ [V_accept 0] @ steps 0 2
    @ [V_accept 0] @ steps 0 2"
  have "case server_run False ?es (opened 3 simple_server_new) of None \<Rightarrow> False | Some s \<Rightarrow> sv_acts s = [] \<and> ac_live (acceptor_of s 0) = 4" by code_simp
  from reached [OF this] show "\<exists>es s. server_run False es (opened 3 simple_server_new) = Some s \<and> sv_acts s = [] \<and> ac_live (acceptor_of s 0) = 4"
    by blast
next
  let ?es = "[V_start 0] @ steps 0 3 @ [V_accept 0] @ steps 0 5 @ [V_disconnect 0] @ steps 0 3 @ [V_accept 0] @ steps 1 5 @ [V_disconnect 0] @ steps 1 3
    @ [V_accept 0] @ steps 2 5 @ [V_disconnect 0] @ steps 2 3 @ [V_step 0, V_step 1, V_step 2, V_step 0, V_step 0, V_accept 0] @ steps 2 2
    @ [V_accept 0] @ steps 2 2 @ [V_disconnect 0, V_step 2, V_disconnect 0, V_step 2] @ steps 0 4"
  have "case server_run False ?es (opened 2 simple_server_new) of None \<Rightarrow> False
      | Some s \<Rightarrow> ac_running (acceptor_of s 0) \<and> sv_acts s = [] \<and> ac_pending (acceptor_of s 0) + ac_live (acceptor_of s 0) = 0" by code_simp
  note reached [OF this]
  moreover have "V_stop \<notin> set ?es" "\<forall>i. V_throw i \<notin> set ?es" by auto
  ultimately show "\<exists>es s. server_run False es (opened 2 simple_server_new) = Some s \<and> V_stop \<notin> set es \<and> (\<forall>i. V_throw i \<notin> set es)
        \<and> ac_running (acceptor_of s 0) \<and> sv_acts s = [] \<and> ac_pending (acceptor_of s 0) + ac_live (acceptor_of s 0) = 0"
    by blast
qed

text \<open>
  An acceptor that waits without a connector never accepts again, whatever threads, calls of \<open>cancel\<close>,
  \<open>close\<close> and \<open>start\<close>, and connections of other acceptors follow. One thread brings the IPv6 acceptor of
  \<open>internet_server\<close> there: a limit of 2, two IPv4 connections and an IPv6 connection, which ends first.
\<close>

theorem server_dead_acceptor:
  assumes "dead b s" "server_run one_thread es s = Some s'"
  shows "ac_pending (acceptor_of s' b) = 0 \<and> ac_live (acceptor_of s' b) = 0
    \<and> (\<exists>es s. server_run True es (opened 2 internet_server_new) = Some s \<and> ac_running (acceptor_of s 1) \<and> dead 1 s)"
proof -
  let ?es = "[V_start 0] @ steps 0 3 @ [V_start 1] @ steps 0 4 @ [V_accept 0] @ steps 0 5 @ [V_accept 0] @ steps 0 2 @ [V_accept 1] @ steps 0 2 @ [V_disconnect 1, V_step 0]"
  have "case server_run True ?es (opened 2 internet_server_new) of None \<Rightarrow> False | Some s \<Rightarrow> ac_running (acceptor_of s 1) \<and> dead 1 s" by code_simp
  from reached [OF this] have "\<exists>es s. server_run True es (opened 2 internet_server_new) = Some s \<and> ac_running (acceptor_of s 1) \<and> dead 1 s" by blast
  then show ?thesis using run_dead [OF assms(2,1)] by (simp add: dead_def)
qed

theorem server_dead_acceptor_witness:
  "\<exists>s. server_run True [V_cancel 1, V_start 1, V_step 0] ((opened 2 internet_server_new)\<lparr>sv_acceptors :=
      [acceptor_new, acceptor_new\<lparr>ac_open := True, ac_waiting := True\<rparr>]\<rparr>) = Some s \<and> ac_pending (acceptor_of s 1) = 0"
proof -
  let ?s = "(opened 2 internet_server_new)\<lparr>sv_acceptors := [acceptor_new, acceptor_new\<lparr>ac_open := True, ac_waiting := True\<rparr>]\<rparr>"
  have "server_run True [V_cancel 1, V_start 1, V_step 0] ?s \<noteq> None" "dead 1 ?s" by code_simp+
  then show ?thesis using server_dead_acceptor [of 1 ?s True] by blast
qed

text \<open>
  \<open>listen\<close> reports the first call that fails, but the acceptor is open as soon as the first call succeeds, so that
  \<open>start\<close> does not refuse it. On a port, \<open>internet_server\<close> reports the errors of the IPv6 acceptor only.
\<close>

theorem server_listen_errors:
  "(fst (server_listen fails reuse v6 b s) = None \<longleftrightarrow> (\<forall>c \<in> set (listen_calls reuse v6). fails c = None))
   \<and> (b < length (sv_acceptors s) \<and> fails C_open = None \<longrightarrow>
        fst (base_start b (snd (server_listen fails reuse v6 b s))) \<noteq> Some not_socket)
   \<and> fst (internet_listen_port fails2 reuse s) = first_failure (fails2 1) (listen_calls reuse True)"
proof -
  have "first_failure fails cs = None \<longleftrightarrow> (\<forall>c \<in> set cs. fails c = None)" for cs
    by (induction cs) (auto split: option.splits)
  then show ?thesis by (simp add: server_listen_def internet_listen_port_def base_start_def)
qed

theorem server_listen_errors_witness:
  "fst (base_start 0 (snd (server_listen (\<lambda>c. if c = C_bind then Some ''in use'' else None) True False 0 simple_server_new))) \<noteq> Some not_socket
   \<and> fst (internet_listen_port (\<lambda>b c. if b = 0 \<and> c = C_bind then Some ''in use'' else None) True internet_server_new) = None"
  using server_listen_errors [of "\<lambda>c. if c = C_bind then Some ''in use'' else None" True False 0 simple_server_new
      "\<lambda>b c. if b = 0 \<and> c = C_bind then Some ''in use'' else None"]
    server_listen_errors [of "\<lambda>_. None :: string option" True True 0 internet_server_new "\<lambda>b c. if b = 0 \<and> c = C_bind then Some ''in use'' else None"]
  by (simp add: simple_server_new_def listen_calls_def)

end
