(* ===== verification/Recursive_Iterator.thy ===== *)
theory Recursive_Iterator
  imports Email_Parser
begin

text \<open>
  Iterators over containers: \<^verbatim>\<open>container/recursive_iterator.hpp\<close> with
  \<^verbatim>\<open>container/detail/preordered_recursive_iterator_impl.ipp\<close>, which walks over a tree of containers and serves
  \<open>basic_email\<close> (\<^verbatim>\<open>email/email.hpp\<close>), and \<^verbatim>\<open>container/detail/pointer_container_iterator.ipp\<close>. A position in a
  container is the path to it and an index, so that equal positions are equal iterators; undefined behaviour is \<open>None\<close>.
\<close>

section \<open>Trees of containers\<close>

datatype 'a node = Node (node_value: 'a) (node_children: "'a node list")

fun node_at :: "'a node \<Rightarrow> nat list \<Rightarrow> 'a node option" where
  "node_at n [] = Some n"
| "node_at n (i # is) = (if i < length (node_children n) then node_at (node_children n ! i) is else None)"

record tree_iterator =
  ti_root :: bool
  ti_depth :: "(nat list \<times> nat) list"

definition ti_end :: tree_iterator where
  "ti_end = \<lparr>ti_root = False, ti_depth = []\<rparr>"

definition ti_begin :: tree_iterator where
  "ti_begin = \<lparr>ti_root = True, ti_depth = []\<rparr>"

text \<open>The element that an iterator of a container refers to, and \<open>operator*\<close>.\<close>

definition element_at :: "'a node \<Rightarrow> nat list \<times> nat \<Rightarrow> 'a node option" where
  "element_at t p = node_at t (fst p @ [snd p])"

definition ti_deref :: "'a node \<Rightarrow> tree_iterator \<Rightarrow> 'a node option" where
  "ti_deref t it = (case ti_depth it of [] \<Rightarrow> if ti_root it then Some t else None | p # ps \<Rightarrow> element_at t p)"

definition ti_depth_size :: "tree_iterator \<Rightarrow> nat" where
  "ti_depth_size it = length (ti_depth it)"

definition ti_equal :: "tree_iterator \<Rightarrow> tree_iterator \<Rightarrow> bool" where
  "ti_equal l r =
     (case ti_depth l of
        [] \<Rightarrow> (case ti_depth r of [] \<Rightarrow> ti_root l = ti_root r | _ \<Rightarrow> False)
      | p # ps \<Rightarrow> (case ti_depth r of [] \<Rightarrow> False | q # qs \<Rightarrow> p = q))"

text \<open>
  \<open>incr\<close>: the element is that of \<open>depth_.front()\<close>, the next position is put at the back; behind an element without
  children the front is advanced and the back is removed.
\<close>

function ti_incr :: "'a node \<Rightarrow> tree_iterator \<Rightarrow> tree_iterator option" where
  "ti_incr t it =
     (case ti_depth it of
        [] \<Rightarrow>
          if \<not> ti_root it then None
          else if node_children t = [] then Some (it\<lparr>ti_root := False\<rparr>)
          else Some (it\<lparr>ti_depth := [([], 0)]\<rparr>)
      | p # ps \<Rightarrow>
          (case element_at t p of
             None \<Rightarrow> None
           | Some n \<Rightarrow>
               if node_children n = [] then ti_incr t (it\<lparr>ti_depth := butlast ((fst p, Suc (snd p)) # ps)\<rparr>)
               else Some (it\<lparr>ti_depth := (p # ps) @ [(fst p @ [snd p], 0)]\<rparr>)))"
  by auto
termination by (relation "measure (length \<circ> ti_depth \<circ> snd)") auto

declare ti_incr.simps [simp del]

text \<open>A loop from an iterator to the end, which collects a text of each element; \<open>None\<close> when it does not end or is undefined.\<close>

partial_function (option) ti_for :: "'a node \<Rightarrow> ('a \<Rightarrow> byte list) \<Rightarrow> tree_iterator \<Rightarrow> byte list option" where
  "ti_for t f it =
     (if ti_equal it ti_end then Some []
      else case ti_deref t it of
        None \<Rightarrow> None
      | Some n \<Rightarrow> Option.bind (ti_incr t it) (\<lambda>it'. Option.bind (ti_for t f it') (\<lambda>r. Some (f (node_value n) @ r))))"

declare ti_for.simps [code]

section \<open>Messages\<close>

text \<open>The tree of a message with its sub-parts, and \<open>basic_email::dump\<close>.\<close>

primrec message_tree :: "message \<Rightarrow> message node" where
  "message_tree (Message h p c subs) = Node (Message h p c subs) (map message_tree subs)"

definition payload_text :: "message \<Rightarrow> byte list" where
  "payload_text m = (case m_payload m of None \<Rightarrow> [] | Some b \<Rightarrow> b)"

definition email_dump :: "message \<Rightarrow> byte list option" where
  "email_dump m = ti_for (message_tree m) (\<lambda>m. hdr_dump (m_headers m) @ payload_text m @ [LF]) ti_begin"

section \<open>The walk\<close>

text \<open>Where the iterator is once it has left the root: at the first child.\<close>

definition at_first :: "'a node \<Rightarrow> tree_iterator \<Rightarrow> bool" where
  "at_first t it \<longleftrightarrow> node_children t \<noteq> [] \<and> (\<exists>ps. ti_depth it = ([], 0) # ps \<and> (node_children (node_children t ! 0) = [] \<longrightarrow> ps = [])) \<and> ti_root it"

lemma at_first_start: "node_children t \<noteq> [] \<Longrightarrow> \<exists>it. ti_incr t ti_begin = Some it \<and> at_first t it"
  by (simp add: ti_incr.simps ti_begin_def at_first_def)

lemma at_first_incr: "at_first t it \<Longrightarrow> \<exists>it'. ti_incr t it = Some it' \<and> at_first t it'"
proof -
  assume a: "at_first t it"
  then obtain ps where ps: "ti_depth it = ([], 0) # ps" "node_children (node_children t ! 0) = [] \<longrightarrow> ps = []" "node_children t \<noteq> []" "ti_root it"
    by (auto simp: at_first_def)
  then have e: "element_at t ([], 0) = Some (node_children t ! 0)" by (simp add: element_at_def)
  show ?thesis
  proof (cases "node_children (node_children t ! 0) = []")
    case True
    have "ti_incr t it = ti_incr t (it\<lparr>ti_depth := []\<rparr>)" using ps e True by (subst ti_incr.simps) simp
    then show ?thesis using ps True by (simp add: ti_incr.simps [of t "it\<lparr>ti_depth := []\<rparr>"] at_first_def)
  next
    case False
    then show ?thesis using ps e by (subst ti_incr.simps) (simp add: at_first_def)
  qed
qed

lemma at_first_value: "at_first t it \<Longrightarrow> ti_deref t it = Some (node_children t ! 0) \<and> \<not> ti_equal it ti_end"
  by (auto simp: at_first_def ti_deref_def element_at_def ti_equal_def ti_end_def)

fun ti_steps :: "nat \<Rightarrow> 'a node \<Rightarrow> tree_iterator \<Rightarrow> tree_iterator option" where
  "ti_steps 0 t it = Some it"
| "ti_steps (Suc n) t it = Option.bind (ti_incr t it) (ti_steps n t)"

lemma at_first_steps: "at_first t it \<Longrightarrow> \<exists>it'. ti_steps n t it = Some it' \<and> at_first t it'"
proof (induction n arbitrary: it)
  case (Suc n)
  obtain it1 where "ti_incr t it = Some it1" "at_first t it1" using at_first_incr [OF Suc.prems] by blast
  then show ?case using Suc.IH [of it1] by simp
qed simp

lemma ti_for_stuck: "ti_for t f it = Some r \<Longrightarrow> \<not> at_first t it"
proof (erule ti_for.raw_induct [where P="\<lambda>t f it r. \<not> at_first t it", rotated])
  fix loop t f it r
  assume IH: "\<And>(t :: 'a node) f it r. loop t f it = Some r \<Longrightarrow> \<not> at_first t it"
    and r: "(if ti_equal it ti_end then Some [] else case ti_deref t it of None \<Rightarrow> None
       | Some n \<Rightarrow> Option.bind (ti_incr t it) (\<lambda>it'. Option.bind (loop t f it') (\<lambda>r. Some (f (node_value n) @ r)))) = Some r"
  show "\<not> at_first t it"
  proof
    assume a: "at_first t it"
    obtain it' where it': "ti_incr t it = Some it'" "at_first t it'" using at_first_incr [OF a] by blast
    then show False using r IH [of t f it'] at_first_value [OF a] by (auto simp: bind_eq_Some_conv split: option.splits)
  qed
qed

lemma ti_for_start: "ti_for t f ti_begin = (if node_children t = [] then Some (f (node_value t)) else None)"
proof (cases "node_children t = []")
  case True
  have i: "ti_incr t ti_begin = Some ti_end" using True by (simp add: ti_incr.simps ti_begin_def ti_end_def)
  have d: "ti_deref t ti_begin = Some t" "\<not> ti_equal ti_begin ti_end" "ti_equal ti_end ti_end"
    by (simp_all add: ti_begin_def ti_deref_def ti_equal_def ti_end_def)
  have "ti_for t f ti_end = Some []" using d(3) by (subst ti_for.simps) simp
  then have "ti_for t f ti_begin = Some (f (node_value t))" using d i by (subst ti_for.simps) simp
  then show ?thesis using True by simp
next
  case False
  obtain it where it: "ti_incr t ti_begin = Some it" "at_first t it" using at_first_start [OF False] by blast
  have "ti_for t f it = None" using ti_for_stuck [of t f it] it(2) by (cases "ti_for t f it") auto
  moreover have "ti_deref t ti_begin = Some t" "\<not> ti_equal ti_begin ti_end" by (simp_all add: ti_begin_def ti_deref_def ti_equal_def ti_end_def)
  ultimately have "ti_for t f ti_begin = None" using it(1) by (subst ti_for.simps) simp
  then show ?thesis using False by simp
qed

lemma first_depth:
  "at_first t it \<Longrightarrow> \<exists>it'. ti_steps n t it = Some it' \<and> at_first t it'
    \<and> ti_depth_size it' = (if node_children (node_children t ! 0) = [] then 1 else n + ti_depth_size it)"
proof (induction n arbitrary: it)
  case 0
  then show ?case by (auto simp: at_first_def ti_depth_size_def)
next
  case (Suc n)
  obtain it1 where it1: "ti_incr t it = Some it1" "at_first t it1" using at_first_incr [OF Suc.prems] by blast
  have "node_children (node_children t ! 0) \<noteq> [] \<Longrightarrow> ti_depth_size it1 = Suc (ti_depth_size it)"
    using Suc.prems it1 by (subst (asm) ti_incr.simps) (auto simp: at_first_def element_at_def ti_depth_size_def)
  then show ?case using Suc.IH [OF it1(2)] it1(1) by auto
qed

text \<open>
  \<open>preordered_recursive_iterator\<close> does not walk over a tree with children: every increment behind the root succeeds and
  leads to the first child again, the depth grows if that has children, no iterator on the way is the end, and a loop to
  the end does not return.
\<close>

theorem recursive_iterator_stuck:
  assumes "node_children t \<noteq> []"
  shows "\<exists>it. ti_steps (Suc n) t ti_begin = Some it \<and> ti_deref t it = Some (node_children t ! 0) \<and> \<not> ti_equal it ti_end
    \<and> ti_depth_size it = (if node_children (node_children t ! 0) = [] then 1 else Suc n)
    \<and> ti_for t f ti_begin = None"
proof -
  obtain it where it: "ti_incr t ti_begin = Some it" "at_first t it" using at_first_start [OF assms] by blast
  have d: "ti_depth_size it = 1" using it(1) assms by (auto simp: ti_incr.simps ti_begin_def ti_depth_size_def)
  obtain it' where it': "ti_steps n t it = Some it'" "at_first t it'"
      "ti_depth_size it' = (if node_children (node_children t ! 0) = [] then 1 else n + ti_depth_size it)"
    using first_depth [OF it(2), of n] by blast
  then show ?thesis using it(1) d at_first_value [OF it'(2)] ti_for_start [of t f] assms by auto
qed

theorem recursive_iterator_stuck_witness:
  "let t = Node (1 :: nat) [Node 2 [], Node 3 []] in \<exists>it. ti_steps (Suc 2) t ti_begin = Some it \<and> ti_deref t it = Some (Node 2 [])"
  using recursive_iterator_stuck [of "Node (1 :: nat) [Node 2 [], Node 3 []]" 2] unfolding Let_def by fastforce

text \<open>
  \<open>dump\<close> of a message prints its header fields and its payload, but does not return when there is a sub-part.
\<close>

theorem email_dump_result:
  "email_dump m = (if has_subpart m then None else Some (hdr_dump (m_headers m) @ payload_text m @ [LF]))"
  unfolding email_dump_def by (cases m) (simp add: ti_for_start has_subpart_def)

section \<open>Iterators with their container\<close>

text \<open>
  \<open>pointer_container_iterator\<close>: an iterator that holds a pointer to its container. \<open>mem\<close> maps a container to its
  elements. The iterator of an object without container is not set; it is 0 here and never read.
\<close>

record ptr_iterator =
  pi_ptr :: "nat option"
  pi_it :: nat

definition pi_new :: ptr_iterator where
  "pi_new = \<lparr>pi_ptr = None, pi_it = 0\<rparr>"

text \<open>The constructors from a smart pointer, which must not be null, and from a plain pointer.\<close>

definition pi_managed :: "nat option \<Rightarrow> nat option \<Rightarrow> ptr_iterator option" where
  "pi_managed p it =
     (case it of
        Some i \<Rightarrow> Some \<lparr>pi_ptr = p, pi_it = i\<rparr>
      | None \<Rightarrow> (case p of None \<Rightarrow> None | Some c \<Rightarrow> Some \<lparr>pi_ptr = p, pi_it = 0\<rparr>))"

definition pi_plain :: "nat option \<Rightarrow> nat \<Rightarrow> ptr_iterator" where
  "pi_plain p it = (if p = None then pi_new else \<lparr>pi_ptr = p, pi_it = it\<rparr>)"

definition pi_deref :: "(nat \<Rightarrow> 'a list) \<Rightarrow> ptr_iterator \<Rightarrow> 'a option" where
  "pi_deref mem r =
     (case pi_ptr r of None \<Rightarrow> None | Some c \<Rightarrow> if pi_it r < length (mem c) then Some (mem c ! pi_it r) else None)"

definition pi_incr :: "(nat \<Rightarrow> 'a list) \<Rightarrow> ptr_iterator \<Rightarrow> ptr_iterator option" where
  "pi_incr mem r =
     (case pi_ptr r of None \<Rightarrow> None | Some c \<Rightarrow> if pi_it r < length (mem c) then Some (r\<lparr>pi_it := Suc (pi_it r)\<rparr>) else None)"

definition pi_incr_post :: "(nat \<Rightarrow> 'a list) \<Rightarrow> ptr_iterator \<Rightarrow> (ptr_iterator \<times> ptr_iterator) option" where
  "pi_incr_post mem r = map_option (\<lambda>r'. (r, r')) (pi_incr mem r)"

definition pi_equal :: "(nat \<Rightarrow> 'a list) \<Rightarrow> ptr_iterator \<Rightarrow> ptr_iterator \<Rightarrow> bool" where
  "pi_equal mem l r =
     (case (pi_ptr l, pi_ptr r) of
        (Some c, Some d) \<Rightarrow> \<not> (c = d \<and> pi_it l \<noteq> pi_it r)
      | (Some c, None) \<Rightarrow> pi_it l = length (mem c)
      | (None, Some d) \<Rightarrow> pi_it r = length (mem d)
      | (None, None) \<Rightarrow> True)"

partial_function (option) pi_for :: "(nat \<Rightarrow> 'a list) \<Rightarrow> ptr_iterator \<Rightarrow> ptr_iterator \<Rightarrow> 'a list option" where
  "pi_for mem it e =
     (if pi_equal mem it e then Some []
      else case pi_deref mem it of
        None \<Rightarrow> None
      | Some x \<Rightarrow> Option.bind (pi_incr mem it) (\<lambda>it'. Option.bind (pi_for mem it' e) (\<lambda>xs. Some (x # xs))))"

declare pi_for.simps [code]

lemma pi_for_from:
  assumes "c = d \<or> d' = None" "e = (if d' = None then pi_new else \<lparr>pi_ptr = Some c, pi_it = length (mem c)\<rparr>)"
  shows "i \<le> length (mem c) \<Longrightarrow> pi_for mem \<lparr>pi_ptr = Some c, pi_it = i\<rparr> e = Some (drop i (mem c))"
proof (induction "length (mem c) - i" arbitrary: i)
  case 0
  then show ?case using assms by (subst pi_for.simps) (simp add: pi_equal_def pi_new_def)
next
  case (Suc k)
  then have i: "i < length (mem c)" by simp
  have "pi_for mem \<lparr>pi_ptr = Some c, pi_it = Suc i\<rparr> e = Some (drop (Suc i) (mem c))" using Suc(1) [of "Suc i"] Suc(2) i by simp
  then show ?case using i assms Cons_nth_drop_Suc [OF i]
    by (subst pi_for.simps) (simp add: pi_equal_def pi_new_def pi_deref_def pi_incr_def)
qed

text \<open>
  A loop over the iterators of one container, to its end or to an iterator without container, visits its elements in
  order. But iterators of two containers are always equal, so that \<open>==\<close> is not transitive, and a loop between two
  containers visits nothing.
\<close>

theorem pointer_iterator_loop:
  "pi_for mem (pi_plain (Some c) 0) pi_new = Some (mem c)
   \<and> pi_for mem (pi_plain (Some c) 0) (pi_plain (Some c) (length (mem c))) = Some (mem c)
   \<and> (c \<noteq> d \<longrightarrow> pi_equal mem (pi_plain (Some c) i) (pi_plain (Some d) j) \<and> pi_for mem (pi_plain (Some c) i) (pi_plain (Some d) j) = Some [])
   \<and> (c \<noteq> d \<and> i \<noteq> k \<longrightarrow> pi_equal mem (pi_plain (Some c) i) (pi_plain (Some d) j) \<and> pi_equal mem (pi_plain (Some d) j) (pi_plain (Some c) k)
        \<and> \<not> pi_equal mem (pi_plain (Some c) i) (pi_plain (Some c) k))"
proof -
  have "pi_for mem (pi_plain (Some c) i) (pi_plain (Some d) j) = Some []" if "c \<noteq> d"
    using that by (subst pi_for.simps) (simp add: pi_equal_def pi_plain_def)
  then show ?thesis using pi_for_from [of c d None pi_new mem 0] pi_for_from [of c c "Some c" "\<lparr>pi_ptr = Some c, pi_it = length (mem c)\<rparr>" mem 0]
    by (simp add: pi_plain_def pi_equal_def)
qed

theorem pointer_iterator_loop_witness:
  "pi_for (\<lambda>c. [c, c]) (pi_plain (Some 5) 0) pi_new = Some [5, 5] \<and> pi_equal (\<lambda>c. [c, c]) (pi_plain (Some 5) 0) (pi_plain (Some 6) 1)"
  using pointer_iterator_loop [of "\<lambda>c. [c, c]" 5 6 0 1] by simp

end
