(* ===== verification/Http_Response.thy ===== *)
theory Http_Response
  imports Email_Headers "HOL-Library.List_Lexorder"
begin

text \<open>
  How the HTTP client reads a response (\<^verbatim>\<open>webclient/detail/client_socket.hpp\<close>, \<^verbatim>\<open>webclient/detail/client_socket_base.hpp\<close>,
  \<^verbatim>\<open>asio/read_until.hpp\<close>): the completion handlers from \<open>async_read\<close> on, in the order in which they start each other.
  The network is the list of the pieces that \<open>read_some\<close> gets before the end of the stream. The decompressors are a
  parameter.
\<close>

section \<open>Reading\<close>

text \<open>A streambuf read until a condition on it holds: the length up to the match, the buffer and the pieces that are left.\<close>

fun read_until :: "(byte list \<Rightarrow> nat option) \<Rightarrow> byte list \<Rightarrow> byte list list \<Rightarrow> nat option \<times> byte list \<times> byte list list" where
  "read_until matched buf [] = (matched buf, buf, [])"
| "read_until matched buf (s # segs) = (case matched buf of Some n \<Rightarrow> (Some n, buf, s # segs) | None \<Rightarrow> read_until matched (buf @ s) segs)"

fun find_delim :: "byte list \<Rightarrow> byte list \<Rightarrow> nat option" where
  "find_delim d [] = (if d = [] then Some 0 else None)"
| "find_delim d (c # cs) = (if take (length d) (c # cs) = d then Some (length d) else map_option Suc (find_delim d cs))"

text \<open>
  \<open>match_buffer_size\<close>: the size that is left over, on the part of the buffer that was not seen yet. The result is the
  length that was matched, or the new state.
\<close>

definition match_buffer_size :: "nat \<Rightarrow> byte list \<Rightarrow> nat + nat" where
  "match_buffer_size len bs = (if len \<le> length bs then Inr len else Inl (len - length bs))"

text \<open>The condition as \<open>read_until\<close> uses it.\<close>

definition match_size :: "nat \<Rightarrow> byte list \<Rightarrow> nat option" where
  "match_size n buf = (if n \<le> length buf then Some n else None)"

abbreviation crlf :: "byte list" where
  "crlf \<equiv> [13, 10]"

section \<open>Grammar\<close>

text \<open>\<open>qi::int_\<close>, which fails when the number does not fit.\<close>

definition qi_int :: "byte list \<Rightarrow> (int \<times> byte list) option" where
  "qi_int s =
     (let (neg, r) = (case s of [] \<Rightarrow> (False, []) | c # cs \<Rightarrow> if c = 45 then (True, cs) else if c = 43 then (False, cs) else (False, s));
          ds = takeWhile isdigit r; n = foldl (\<lambda>n c. 10 * n + (uint c - 48)) 0 ds; v = (if neg then - n else n)
      in if ds = [] \<or> v < - (2 ^ 31) \<or> 2 ^ 31 \<le> v then None else Some (v, dropWhile isdigit r))"

definition qi_lit :: "byte list \<Rightarrow> byte list \<Rightarrow> byte list option" where
  "qi_lit l s = (if take (length l) s = l then Some (drop (length l) s) else None)"

text \<open>The status line: the code.\<close>

definition status_line :: "byte list \<Rightarrow> int option" where
  "status_line s =
     Option.bind (qi_lit (bytes_of ''HTTP/'') s) (\<lambda>s1. Option.bind (qi_int s1) (\<lambda>(maj, s2). Option.bind (qi_lit [46] s2) (\<lambda>s3.
       Option.bind (qi_int s3) (\<lambda>(min, s4). if s4 \<noteq> [] \<and> isspace (hd s4) then map_option fst (qi_int (dropWhile isspace s4)) else None))))"

text \<open>A header field, the list of fields with the breaks between them, and the break behind the last one.\<close>

fun until_crlf :: "byte list \<Rightarrow> byte list \<times> byte list" where
  "until_crlf [] = ([], [])"
| "until_crlf (c # cs) = (if c = 13 \<and> take 1 cs = [10] then ([], c # cs) else map_prod (\<lambda>v. c # v) id (until_crlf cs))"

definition header_field :: "byte list \<Rightarrow> ((byte list \<times> byte list) \<times> byte list) option" where
  "header_field s =
     (let r = dropWhile (\<lambda>c. c \<noteq> 58) s
      in if r = [] then None
         else let (v, r') = until_crlf (dropWhile isspace (tl r)) in Some ((takeWhile (\<lambda>c. c \<noteq> 58) s, v), r'))"

lemma until_crlf_length: "until_crlf s = (v, r) \<Longrightarrow> length r \<le> length s"
  by (induction s arbitrary: v r) (auto split: if_splits prod.splits simp: map_prod_def intro: le_SucI)

lemma header_field_length: "header_field s = Some (e, r) \<Longrightarrow> length r < length s"
proof -
  assume a: "header_field s = Some (e, r)"
  define t where "t = dropWhile (\<lambda>c. c \<noteq> 58) s"
  obtain v where v: "t \<noteq> []" "until_crlf (dropWhile isspace (tl t)) = (v, r)"
    using a by (auto simp: header_field_def t_def Let_def split: if_splits prod.splits)
  have "length r \<le> length (tl t)" using until_crlf_length [OF v(2)] length_dropWhile_le [of isspace "tl t"] by simp
  moreover have "length t \<le> length s" by (simp add: t_def length_dropWhile_le)
  ultimately show ?thesis using v(1) by (cases t) auto
qed

function header_fields :: "byte list \<Rightarrow> ((byte list \<times> byte list) list \<times> byte list) option" where
  "header_fields s =
     (case header_field s of
        None \<Rightarrow> None
      | Some (e, r) \<Rightarrow>
          (case qi_lit crlf r of
             None \<Rightarrow> Some ([e], r)
           | Some r' \<Rightarrow> (case header_fields r' of None \<Rightarrow> Some ([e], r) | Some (es, r'') \<Rightarrow> Some (e # es, r''))))"
  by auto
termination
  by (relation "measure length") (auto dest!: header_field_length simp: qi_lit_def split: if_splits)

declare header_fields.simps [simp del]

text \<open>
  The header is a \<open>flat_multimap\<close>: the fields by name, in the order of the bytes, fields with one name in the order in
  which they come. The result says whether the whole header matched, and what is left behind it.
\<close>

definition flat_multimap :: "(byte list \<times> byte list) list \<Rightarrow> (byte list \<times> byte list) list" where
  "flat_multimap es = sort_key fst es"

definition parse_header :: "byte list \<Rightarrow> byte list option \<times> (byte list \<times> byte list) list" where
  "parse_header s = (case header_fields s of None \<Rightarrow> (None, []) | Some (es, r) \<Rightarrow> (qi_lit crlf r, flat_multimap es))"

text \<open>A search takes the first field with the name, letter by letter.\<close>

definition find_field :: "(byte list \<times> byte list) list \<Rightarrow> string \<Rightarrow> byte list option" where
  "find_field es name = map_option snd (List.find (\<lambda>e. fst e = bytes_of name) es)"

text \<open>\<open>std::atol\<close> and \<open>std::strtol\<close> with base 16; numbers out of range are cut to the range of \<open>long\<close>, and \<open>size_t\<close> wraps.\<close>

definition clamp_long :: "int \<Rightarrow> int" where
  "clamp_long n = max (- (2 ^ 63)) (min (2 ^ 63 - 1) n)"

definition signed_text :: "byte list \<Rightarrow> bool \<times> byte list" where
  "signed_text s =
     (let r = dropWhile isspace s
      in case r of [] \<Rightarrow> (False, []) | c # cs \<Rightarrow> if c = 45 then (True, cs) else if c = 43 then (False, cs) else (False, r))"

definition c_atol :: "byte list \<Rightarrow> int" where
  "c_atol s =
     (let (neg, r) = signed_text s; n = foldl (\<lambda>n c. 10 * n + (uint c - 48)) 0 (takeWhile isdigit r)
      in clamp_long (if neg then - n else n))"

definition c_strtol16 :: "byte list \<Rightarrow> int" where
  "c_strtol16 s =
     (let (neg, r) = signed_text (takeWhile (\<lambda>c. c \<noteq> 0) s);
          r' = (if 2 < length r \<and> r ! 0 = 48 \<and> (r ! 1 = 120 \<or> r ! 1 = 88) \<and> isxdigit (r ! 2) then drop 2 r else r);
          n = foldl (\<lambda>n c. 16 * n + int (xdigit_value c)) 0 (takeWhile isxdigit r')
      in clamp_long (if neg then - n else n))"

definition size_of_long :: "int \<Rightarrow> nat" where
  "size_of_long n = nat (n mod 2 ^ 64)"

section \<open>Handlers\<close>

datatype coding = identity | gzip | zlib

datatype http_error = Http_eof | Http_invalid | Http_success | Http_refused | Http_reset

record http_result =
  hr_status :: "int option"
  hr_header :: "(byte list \<times> byte list) list"
  hr_buffer :: "byte list"

text \<open>
  What comes of a request: a new attempt, a callback with an error, a redirection with the text that is not consumed,
  a callback with the result (whether the connection is kept, the result, and the buffer and the pieces that are left for the
  next response), an exception of a decompressor, or an endless loop.
\<close>

datatype http_outcome =
    Http_retry int | Http_failed http_error http_result | Http_moved "byte list" http_result | Http_done bool http_result "byte list" "byte list list" | Http_throws | Http_endless

text \<open>
  A decompressor that reads through a buffer of a size gives its output and the number of bytes that it takes, or throws.
\<close>

record http_env =
  he_iequals :: name_eq
  he_inflate :: "coding \<Rightarrow> nat \<Rightarrow> byte list \<Rightarrow> (byte list \<times> nat) option"

definition buffer_input :: "http_env \<Rightarrow> coding \<Rightarrow> nat \<Rightarrow> byte list \<Rightarrow> (byte list \<times> nat) option" where
  "buffer_input env c len buf = (if c = identity then Some (take len buf, len) else he_inflate env c len buf)"

text \<open>
  \<open>buffer_copy\<close>: \<open>len\<close> bytes of the output go to the result. When there are fewer, a read returns -1, which makes
  the number of missing bytes grow.
\<close>

definition buffer_copy :: "http_env \<Rightarrow> coding \<Rightarrow> nat \<Rightarrow> byte list \<Rightarrow> http_outcome + byte list \<times> byte list" where
  "buffer_copy env c len buf =
     (if len = 0 then Inr ([], buf)
      else case buffer_input env c len buf of
        None \<Rightarrow> Inl Http_throws
      | Some (out, used) \<Rightarrow> if length out < len then Inl Http_endless else Inr (take len out, drop used buf))"

lemma read_until_joined: "read_until f buf segs = (r, b, s) \<Longrightarrow> b @ concat s = buf @ concat segs"
  by (induction f buf segs rule: read_until.induct) (auto split: option.splits)

lemma read_until_matched: "read_until f buf segs = (Some n, b, s) \<Longrightarrow> f b = Some n"
  by (induction f buf segs rule: read_until.induct) (auto split: option.splits)

lemma find_delim_le: "find_delim d buf = Some n \<Longrightarrow> n \<le> length buf"
  by (induction d buf arbitrary: n rule: find_delim.induct) (auto split: if_splits simp: min_def dest: arg_cong [of _ _ length])

lemma buffer_copy_rest: "buffer_copy env c len buf = Inr (out, r) \<Longrightarrow> length r \<le> length buf"
  by (auto simp: buffer_copy_def split: if_splits option.splits)

lemma chunk_less:
  assumes "(Some n, b, s) = read_until (find_delim d) buf segs" "\<not> n \<le> 2" "(Some k, b', s') = read_until f (drop n b) s"
    "buffer_copy env c k b' = Inr (out, r)"
  shows "length r + length (concat s') < length buf + length (concat segs)"
proof -
  have 1: "b @ concat s = buf @ concat segs" "find_delim d b = Some n" using read_until_joined read_until_matched assms(1) [symmetric] by blast+
  have 2: "b' @ concat s' = drop n b @ concat s" using read_until_joined assms(3) [symmetric] by blast
  have "n \<le> length b" "length r \<le> length b'" using find_delim_le [OF 1(2)] buffer_copy_rest [OF assms(4)] by simp_all
  then show ?thesis using arg_cong [OF 1(1), of length] arg_cong [OF 2, of length] assms(2) by simp
qed

text \<open>
  \<open>on_read_chunked_size\<close> and \<open>on_read_chunked_content\<close>, with what was copied to the result. The chain of
  filters is reset behind the first chunk.
\<close>

function read_chunks :: "http_env \<Rightarrow> bool \<Rightarrow> coding \<Rightarrow> http_result \<Rightarrow> byte list \<Rightarrow> byte list list \<Rightarrow> http_outcome" where
  "read_chunks env keep c res buf segs =
     (case read_until (find_delim crlf) buf segs of
        (None, b, s) \<Rightarrow> Http_failed Http_eof res
      | (Some n, b, s) \<Rightarrow>
          if n \<le> 2 then Http_failed Http_success res
          else let len = size_of_long (c_strtol16 (take (n - 2) b))
               in if len = 0 then Http_done keep res (drop n b) s
                  else case read_until (match_size ((len + 2) mod 2 ^ 64)) (drop n b) s of
                    (None, b', s') \<Rightarrow> Http_failed Http_eof res
                  | (Some k, b', s') \<Rightarrow>
                      (case buffer_copy env c k b' of
                         Inl e \<Rightarrow> e
                       | Inr (out, b'') \<Rightarrow> read_chunks env keep identity (res\<lparr>hr_buffer := hr_buffer res @ out\<rparr>) b'' s'))"
  by pat_completeness auto
termination
  by (relation "measure (\<lambda>(env, keep, c, res, buf, segs). length buf + length (concat segs))") (auto intro: chunk_less)

declare read_chunks.simps [simp del]


text \<open>
  \<open>on_read_header\<close>: \<open>buf\<close> is the buffer of the result and \<open>n\<close> the length of the header. Without
  a length the whole stream is read, which ends with an error.
\<close>

definition on_read_header :: "http_env \<Rightarrow> int \<Rightarrow> nat \<Rightarrow> byte list \<Rightarrow> byte list list \<Rightarrow> http_outcome" where
  "on_read_header env code n buf segs =
     (let (rest, fields) = parse_header (take n buf); res = \<lparr>hr_status = Some code, hr_header = fields, hr_buffer = []\<rparr>
      in if rest = None then Http_failed Http_invalid (res\<lparr>hr_buffer := buf\<rparr>)
         else case find_field fields ''Location'' of
           Some loc \<Rightarrow> Http_moved loc (res\<lparr>hr_buffer := drop n buf\<rparr>)
         | None \<Rightarrow>
             let keep = (case find_field fields ''Connection'' of None \<Rightarrow> False | Some v \<Rightarrow> he_iequals env v (bytes_of ''keep-alive''));
                 c = (case find_field fields ''Content-Encoding'' of
                        None \<Rightarrow> identity
                      | Some v \<Rightarrow> if he_iequals env v (bytes_of ''gzip'') then gzip else if he_iequals env v (bytes_of ''zlib'') then zlib else identity)
             in if (case find_field fields ''Transfer-Encoding'' of None \<Rightarrow> False | Some v \<Rightarrow> he_iequals env v (bytes_of ''chunked''))
                then read_chunks env keep c res (drop n buf) segs
                else case find_field fields ''Content-Length'' of
                  Some v \<Rightarrow>
                    (case read_until (match_size (size_of_long (c_atol v))) (drop n buf) segs of
                       (None, b, s) \<Rightarrow> Http_failed Http_eof res
                     | (Some k, b, s) \<Rightarrow>
                         (case buffer_copy env c k b of
                            Inl e \<Rightarrow> e
                          | Inr (out, b') \<Rightarrow> Http_done keep (res\<lparr>hr_buffer := out\<rparr>) b' s))
                | None \<Rightarrow> Http_failed Http_eof res)"

text \<open>\<open>on_read_line\<close>: the status line is parsed from all that is in the buffer.\<close>

definition on_read_line :: "http_env \<Rightarrow> nat \<Rightarrow> byte list \<Rightarrow> byte list list \<Rightarrow> http_outcome" where
  "on_read_line env n buf segs =
     (case status_line buf of
        None \<Rightarrow> Http_failed Http_invalid \<lparr>hr_status = None, hr_header = [], hr_buffer = buf\<rparr>
      | Some code \<Rightarrow>
          (case read_until (find_delim [13, 10, 13, 10]) (drop n buf) segs of
             (None, b, s) \<Rightarrow> Http_failed Http_eof \<lparr>hr_status = Some code, hr_header = [], hr_buffer = b\<rparr>
           | (Some k, b, s) \<Rightarrow> on_read_header env code k b s))"

text \<open>\<open>async_read\<close> and \<open>on_read_1\<close>: one byte, and the rest of the line. The connection is made again when there is none.\<close>

fun async_read :: "http_env \<Rightarrow> int \<Rightarrow> byte list list \<Rightarrow> http_outcome" where
  "async_read env retry [] = (if 0 < retry then Http_retry (retry - 1) else Http_failed Http_eof \<lparr>hr_status = None, hr_header = [], hr_buffer = []\<rparr>)"
| "async_read env retry ([] # segs) = async_read env retry segs"
| "async_read env retry ((c # s) # segs) =
     (case read_until (find_delim crlf) [c] (s # segs) of
        (None, b, s') \<Rightarrow> Http_failed Http_eof \<lparr>hr_status = None, hr_header = [], hr_buffer = b\<rparr>
      | (Some n, b, s') \<Rightarrow> on_read_line env n b s')"

text \<open>
  \<open>on_connect1\<close>, \<open>on_write\<close> and \<open>async_reconnect\<close>: the connections to the endpoint, one after another. The peer
  refuses one, breaks it while the request is written, or answers with what \<open>read_some\<close> gets. Without a next connection the
  client still waits.
\<close>

datatype attempt = Refuses | Breaks | Answers "byte list list"

fun exchange :: "http_env \<Rightarrow> int \<Rightarrow> attempt list \<Rightarrow> http_outcome option" where
  "exchange env retry [] = None"
| "exchange env retry (Refuses # as) = Some (Http_failed Http_refused \<lparr>hr_status = None, hr_header = [], hr_buffer = []\<rparr>)"
| "exchange env retry (Breaks # as) =
     (if 0 < retry then exchange env (retry - 1) as else Some (Http_failed Http_reset \<lparr>hr_status = None, hr_header = [], hr_buffer = []\<rparr>))"
| "exchange env retry (Answers segs # as) = (case async_read env retry segs of Http_retry retry' \<Rightarrow> exchange env retry' as | out \<Rightarrow> Some out)"

section \<open>The network in pieces\<close>

text \<open>A condition that goes on to hold when more is read: what it finds depends on the whole text only.\<close>

definition stable :: "(byte list \<Rightarrow> nat option) \<Rightarrow> bool" where
  "stable f \<longleftrightarrow> (\<forall>x y n. f x = Some n \<longrightarrow> f (x @ y) = Some n)"

lemma read_until_whole:
  "stable f \<Longrightarrow> f (buf @ concat segs) = Some n \<Longrightarrow>
   \<exists>b s. read_until f buf segs = (Some n, b, s) \<and> b @ concat s = buf @ concat segs"
proof (induction f buf segs rule: read_until.induct)
  case (2 f buf s segs)
  show ?case
  proof (cases "f buf")
    case None
    then show ?thesis using 2 by simp
  next
    case (Some k)
    then have "f (buf @ concat (s # segs)) = Some k" using 2(2) by (simp add: stable_def)
    then show ?thesis using Some 2(3) by simp
  qed
qed simp

lemma match_size_stable: "stable (match_size n)"
  by (simp add: stable_def match_size_def)

lemma find_delim_ge: "find_delim d buf = Some n \<Longrightarrow> length d \<le> n"
  by (induction d buf arbitrary: n rule: find_delim.induct) (auto split: if_splits intro: le_SucI)

lemma find_delim_stable: "d \<noteq> [] \<Longrightarrow> stable (find_delim d)"
proof -
  assume d: "d \<noteq> []"
  have "find_delim d x = Some n \<Longrightarrow> find_delim d (x @ y) = Some n" for x y n
  proof (induction x arbitrary: n)
    case (Cons c cs)
    have "length d \<le> length (c # cs)" using find_delim_ge [OF Cons.prems] find_delim_le [OF Cons.prems] by simp
    then have t: "take (length d) (c # cs @ y) = take (length d) (c # cs)" using take_append [of "length d" "c # cs" y] by simp
    show ?case
    proof (cases "take (length d) (c # cs) = d")
      case True
      then show ?thesis using Cons.prems t by simp
    next
      case False
      then show ?thesis using Cons t by auto
    qed
  qed (use d in simp)
  then show ?thesis by (simp add: stable_def)
qed

lemma find_delim_behind: "c \<notin> set l \<Longrightarrow> find_delim (c # d) (l @ x) = map_option (\<lambda>n. length l + n) (find_delim (c # d) x)"
  by (cases "find_delim (c # d) x"; induction l) auto

lemma find_delim_here: "d \<noteq> [] \<Longrightarrow> find_delim d (d @ x) = Some (length d)"
  by (cases d) auto

text \<open>\<open>match_buffer_size\<close> on the parts of a buffer is the condition on the whole.\<close>

lemma match_buffer_parts:
  "match_size n (a @ b) = (case match_buffer_size n a of Inr k \<Rightarrow> Some k
     | Inl m \<Rightarrow> (case match_buffer_size m b of Inr k \<Rightarrow> Some (length a + k) | Inl _ \<Rightarrow> None))"
  by (auto simp: match_size_def match_buffer_size_def)

section \<open>Numbers\<close>

lemma dec_text_digits: "list_all isdigit (dec_text n) \<and> dec_text n \<noteq> []"
proof (induction n rule: dec_text.induct)
  case (1 n)
  have "isdigit (word_of_nat (48 + k))" if "k < 10" for k
  proof -
    have "k \<in> set [0..<10]" using that by simp
    moreover have "list_all (\<lambda>k. isdigit (word_of_nat (48 + k))) [0..<10]" by code_simp
    ultimately show ?thesis by (simp add: list_all_iff del: set_upt upt_rec_numeral)
  qed
  then show ?case using 1 by (subst (1 2) dec_text.simps) (simp add: list_all_iff)
qed

lemma dec_text_value: "foldl (\<lambda>n c. 10 * n + (uint c - 48)) 0 (dec_text n) = int n"
proof (induction n rule: dec_text.induct)
  case (1 n)
  have d: "uint (word_of_nat (48 + k) :: byte) - 48 = int k" if "k < 10" for k
  proof -
    have "k \<in> set [0..<10]" using that by simp
    moreover have "list_all (\<lambda>k. uint (word_of_nat (48 + k) :: byte) - 48 = int k) [0..<10]" by code_simp
    ultimately show ?thesis by (simp add: list_all_iff del: set_upt upt_rec_numeral)
  qed
  show ?case
  proof (cases "n < 10")
    case True
    then show ?thesis using d [of n] by (subst dec_text.simps) simp
  next
    case False
    have "10 * int (n div 10) + int (n mod 10) = int n" by (simp only: zdiv_int zmod_int of_nat_numeral mult_div_mod_eq)
    then show ?thesis using False 1 d [of "n mod 10"] by (subst dec_text.simps) simp
  qed
qed

lemma takeWhile_stop: "list_all P xs \<Longrightarrow> r = [] \<or> \<not> P (hd r) \<Longrightarrow> takeWhile P (xs @ r) = xs \<and> dropWhile P (xs @ r) = r"
  by (induction xs) (cases r; auto)+

lemma dec_text_hd: "hd (dec_text n @ r) \<noteq> 45 \<and> hd (dec_text n @ r) \<noteq> 43 \<and> \<not> isspace (hd (dec_text n @ r))"
proof -
  obtain c cs where c: "dec_text n = c # cs" "isdigit c" using dec_text_digits [of n] by (cases "dec_text n") auto
  have "\<not> isspace c \<and> c \<noteq> 45 \<and> c \<noteq> 43" using c(2) order_trans [of 48 c 13] by (auto simp: isdigit_def isspace_def)
  then show ?thesis by (simp add: c(1))
qed

lemma qi_int_dec: "n < 2 ^ 31 \<Longrightarrow> r = [] \<or> \<not> isdigit (hd r) \<Longrightarrow> qi_int (dec_text n @ r) = Some (int n, r)"
proof -
  assume a: "n < 2 ^ 31" "r = [] \<or> \<not> isdigit (hd r)"
  obtain c cs where c: "dec_text n @ r = c # cs" "c \<noteq> 45" "c \<noteq> 43" using dec_text_hd [of n r] dec_text_digits [of n] by (cases "dec_text n @ r") auto
  have "(case dec_text n @ r of [] \<Rightarrow> (False, []) | c # cs \<Rightarrow> if c = 45 then (True, cs) else if c = 43 then (False, cs) else (False, dec_text n @ r))
      = (False, dec_text n @ r)" using c by simp
  then show ?thesis using a takeWhile_stop [of isdigit "dec_text n" r] dec_text_digits [of n] dec_text_value [of n]
    by (simp add: qi_int_def)
qed

lemma atol_dec: "n < 2 ^ 63 \<Longrightarrow> size_of_long (c_atol (dec_text n)) = n"
proof -
  assume n: "n < 2 ^ 63"
  obtain c cs where c: "dec_text n = c # cs" "c \<noteq> 45" "c \<noteq> 43" "\<not> isspace c" using dec_text_hd [of n "[]"] dec_text_digits [of n] by (cases "dec_text n") auto
  have "signed_text (dec_text n) = (False, dec_text n)" using c by (simp add: signed_text_def)
  moreover have t: "takeWhile isdigit (dec_text n) = dec_text n" using takeWhile_stop [of isdigit "dec_text n" "[]"] dec_text_digits [of n] by simp
  ultimately have "c_atol (dec_text n) = clamp_long (int n)" unfolding c_atol_def by (simp only: Let_def prod.case t dec_text_value if_False)
  then show ?thesis using n by (simp add: clamp_long_def size_of_long_def)
qed

section \<open>A response\<close>

definition fields_text :: "(byte list \<times> byte list) list \<Rightarrow> byte list" where
  "fields_text es = concat (map (\<lambda>(n, v). n @ [58, 32] @ v @ crlf) es)"

definition response_text :: "nat \<Rightarrow> byte list \<Rightarrow> (byte list \<times> byte list) list \<Rightarrow> byte list \<Rightarrow> byte list" where
  "response_text code reason es body = bytes_of ''HTTP/1.1 '' @ dec_text code @ 32 # reason @ crlf @ fields_text es @ crlf @ body"

text \<open>Fields without a carriage return, with a name without colon and a value that starts with a visible character.\<close>

definition field_ok :: "byte list \<times> byte list \<Rightarrow> bool" where
  "field_ok e \<longleftrightarrow> 58 \<notin> set (fst e) \<and> 13 \<notin> set (fst e) \<and> 13 \<notin> set (snd e) \<and> snd e \<noteq> [] \<and> \<not> isspace (hd (snd e))"

lemma fields_text_Cons: "fields_text (e # es) = fst e @ 58 # 32 # snd e @ 13 # 10 # fields_text es"
  by (simp add: fields_text_def case_prod_beta)

lemma head_end:
  "list_all field_ok es \<Longrightarrow> es \<noteq> [] \<Longrightarrow>
   find_delim [13, 10, 13, 10] (fields_text es @ 13 # 10 # body) = Some (length (fields_text es) + 2)"
proof (induction es)
  case (Cons e es)
  let ?l = "fst e @ 58 # 32 # snd e"
  have l: "13 \<notin> set ?l" using Cons.prems by (auto simp: field_ok_def)
  have "find_delim [13, 10, 13, 10] (fields_text (e # es) @ 13 # 10 # body)
      = map_option (\<lambda>n. length ?l + n) (find_delim [13, 10, 13, 10] (13 # 10 # fields_text es @ 13 # 10 # body))"
    using find_delim_behind [OF l, of "[10, 13, 10]" "13 # 10 # fields_text es @ 13 # 10 # body"] by (simp add: fields_text_Cons)
  also have "find_delim [13, 10, 13, 10] (13 # 10 # fields_text es @ 13 # 10 # body) = Some (length (fields_text es) + 4)"
  proof (cases es)
    case Nil
    then show ?thesis by (simp add: fields_text_def)
  next
    case (Cons e' es')
    then obtain c r where c: "fields_text es = c # r" "c \<noteq> 13"
      using Cons.prems by (cases "fst e'") (auto simp: fields_text_Cons field_ok_def)
    have "find_delim [13, 10, 13, 10] (13 # 10 # fields_text es @ 13 # 10 # body)
        = map_option (\<lambda>n. Suc (Suc n)) (find_delim [13, 10, 13, 10] (fields_text es @ 13 # 10 # body))"
      using c by (simp add: option.map_comp comp_def)
    then show ?thesis using Cons Cons.IH Cons.prems by simp
  qed
  finally show ?case by (simp add: fields_text_Cons)
qed simp

lemma until_crlf_line: "13 \<notin> set v \<Longrightarrow> until_crlf (v @ 13 # 10 # r) = (v, 13 # 10 # r)"
  by (induction v) (auto simp: map_prod_def)

lemma isspace_32: "isspace 32"
  by (simp add: isspace_def)

lemma header_field_line: "field_ok e \<Longrightarrow> header_field (fst e @ 58 # 32 # snd e @ 13 # 10 # r) = Some (e, 13 # 10 # r)"
proof -
  assume e: "field_ok e"
  have "\<forall>x \<in> set (fst e). x \<noteq> 58" using e by (auto simp: field_ok_def)
  then have t: "takeWhile (\<lambda>c. c \<noteq> 58) (fst e @ 58 # x) = fst e" "dropWhile (\<lambda>c. c \<noteq> 58) (fst e @ 58 # x) = 58 # x" for x
    by (simp_all add: takeWhile_append2 dropWhile_append2)
  obtain c v where v: "snd e = c # v" "\<not> isspace c" using e by (cases "snd e") (auto simp: field_ok_def)
  have "dropWhile isspace (32 # snd e @ 13 # 10 # r) = snd e @ 13 # 10 # r" using v isspace_32 by simp
  then show ?thesis using until_crlf_line [of "snd e" r] e unfolding header_field_def t by (simp add: field_ok_def Let_def)
qed

lemma header_fields_text:
  "list_all field_ok es \<Longrightarrow> es \<noteq> [] \<Longrightarrow> 58 \<notin> set body \<Longrightarrow> header_fields (fields_text es @ crlf @ body) = Some (es, crlf @ crlf @ body)"
proof (induction es)
  case (Cons e es)
  have e: "header_field (fields_text (e # es) @ crlf @ body) = Some (e, 13 # 10 # fields_text es @ crlf @ body)"
    using header_field_line [of e "fields_text es @ crlf @ body"] Cons.prems by (simp add: fields_text_Cons)
  have l: "qi_lit crlf (13 # 10 # x) = Some x" for x by (simp add: qi_lit_def)
  show ?case
  proof (cases "es = []")
    case True
    have "dropWhile (\<lambda>c. c \<noteq> 58) (crlf @ body) = []" using Cons.prems(3) by (simp add: dropWhile_eq_Nil_conv) blast
    then have "header_fields (crlf @ body) = None" by (subst header_fields.simps) (simp add: header_field_def)
    then show ?thesis using True e by (subst header_fields.simps) (simp add: l fields_text_def)
  next
    case False
    then show ?thesis using Cons e by (subst header_fields.simps) (simp add: l)
  qed
qed simp

lemma parse_header_text: "list_all field_ok es \<Longrightarrow> es \<noteq> [] \<Longrightarrow> parse_header (fields_text es @ crlf) = (Some crlf, flat_multimap es)"
  using header_fields_text [of es "[]"] by (simp add: parse_header_def qi_lit_def)

lemma find_field_flat: "find_field (flat_multimap es) n = find_field es n"
proof -
  have f: "List.find P xs = (case filter P xs of [] \<Rightarrow> None | x # _ \<Rightarrow> Some x)" for P and xs :: "(byte list \<times> byte list) list"
    by (induction xs) auto
  show ?thesis unfolding find_field_def f flat_multimap_def by (simp add: sort_key_stable)
qed

lemma status_line_text: "code < 2 ^ 31 \<Longrightarrow> status_line (bytes_of ''HTTP/1.1 '' @ dec_text code @ 32 # r) = Some (int code)"
proof -
  assume c: "code < 2 ^ 31"
  obtain d ds where d: "dec_text code @ 32 # r = d # ds" "\<not> isspace d" using dec_text_hd [of code "32 # r"] dec_text_digits [of code] by (cases "dec_text code @ 32 # r") auto
  have q: "qi_int (49 # x) = Some (1, x)" if "x = 46 # y \<or> x = 32 # y" for x y
    using that by (auto simp: qi_int_def isdigit_def)
  have "qi_int (dec_text code @ 32 # r) = Some (int code, 32 # r)" using qi_int_dec [OF c] by (simp add: isdigit_def)
  moreover have "dropWhile isspace (32 # d # ds) = d # ds" using d(2) isspace_32 by simp
  moreover have "bytes_of ''HTTP/1.1 '' @ x = [72, 84, 84, 80, 47, 49, 46, 49, 32] @ x" for x by (simp add: bytes_of_def)
  moreover have "bytes_of ''HTTP/'' = [72, 84, 84, 80, 47]" by (simp add: bytes_of_def)
  ultimately show ?thesis unfolding d(1) by (simp add: status_line_def qi_lit_def q isspace_32)
qed

lemma split_prefix:
  assumes "b @ s = l @ x" "length l \<le> length b"
  shows "b = l @ drop (length l) b" "drop (length l) b @ s = x"
proof -
  have "take (length l) b = l" using arg_cong [OF assms(1), of "take (length l)"] assms(2) by simp
  then show "b = l @ drop (length l) b" by (metis append_take_drop_id)
  show "drop (length l) b @ s = x" using arg_cong [OF assms(1), of "drop (length l)"] assms(2) by simp
qed

lemma first_byte:
  "concat segs \<noteq> [] \<Longrightarrow> \<exists>c s0 segs'. async_read env retry segs = async_read env retry ((c # s0) # segs') \<and> (c # s0) @ concat segs' = concat segs"
proof (induction env retry segs rule: async_read.induct)
  case (3 env retry c s segs)
  show ?case by (intro exI [of _ c] exI [of _ s] exI [of _ segs]) (simp only: concat.simps)
qed simp_all

text \<open>The handlers up to the header, for every way in which the network cuts the response.\<close>

lemma async_read_header:
  assumes "code < 2 ^ 31" "13 \<notin> set reason" "list_all field_ok es" "es \<noteq> []" "concat segs = response_text code reason es body"
  shows "\<exists>b s. async_read env retry segs = on_read_header env (int code) (length (fields_text es) + 2) b s
    \<and> b @ concat s = fields_text es @ crlf @ body \<and> length (fields_text es) + 2 \<le> length b"
proof -
  let ?w = "response_text code reason es body" and ?l = "bytes_of ''HTTP/1.1 '' @ dec_text code @ 32 # reason"
  have stable1: "stable (find_delim crlf)" and stable2: "stable (find_delim [13, 10, 13, 10])" by (rule find_delim_stable; simp)+
  have l: "13 \<notin> set ?l"
  proof -
    have "13 \<notin> set (dec_text code)" using dec_text_digits [of code] by (auto simp: list_all_iff isdigit_def)
    then show ?thesis using assms(2) by (simp add: bytes_of_def)
  qed
  have line: "find_delim crlf ?w = Some (length ?l + 2)"
    using find_delim_behind [OF l, of "[10]" "13 # 10 # fields_text es @ crlf @ body"] by (simp add: response_text_def)
  have "concat segs \<noteq> []" by (simp add: assms(5) response_text_def bytes_of_def)
  from first_byte [OF this, of env retry] obtain c s0 segs' where c: "async_read env retry segs = async_read env retry ((c # s0) # segs')" "[c] @ concat (s0 # segs') = ?w"
    unfolding assms(5) by auto
  obtain b s where b: "read_until (find_delim crlf) [c] (s0 # segs') = (Some (length ?l + 2), b, s)" "b @ concat s = ?w"
    using read_until_whole [OF stable1, of "[c]" "s0 # segs'" "length ?l + 2", unfolded c(2), OF line] by blast
  have n: "length ?l + 2 \<le> length b" using find_delim_le [OF read_until_matched [OF b(1)]] .
  have w: "b @ concat s = (?l @ crlf) @ fields_text es @ crlf @ body" using b(2) by (simp add: response_text_def)
  have n': "length (?l @ crlf) \<le> length b" using n by simp
  have "length (?l @ crlf) = length ?l + 2" by simp
  note b' = split_prefix [OF w n', unfolded this]
  have "status_line ((?l @ crlf) @ d) = Some (int code)" for d using status_line_text [OF assms(1), of "reason @ crlf @ d"] by simp
  then have st: "status_line b = Some (int code)" by (subst b'(1))
  obtain b2 s2 where b2: "read_until (find_delim [13, 10, 13, 10]) (drop (length ?l + 2) b) s = (Some (length (fields_text es) + 2), b2, s2)"
      "b2 @ concat s2 = fields_text es @ crlf @ body"
    using read_until_whole [OF stable2, of "drop (length ?l + 2) b" s, unfolded b'(2)] head_end [OF assms(3,4), of body] by auto
  have "async_read env retry segs = on_read_header env (int code) (length (fields_text es) + 2) b2 s2"
    using c(1) b(1) st b2(1) by (simp add: on_read_line_def del: read_until.simps)
  then show ?thesis using b2 find_delim_le [OF read_until_matched [OF b2(1)]] by blast
qed

section \<open>Chunks\<close>

definition hex_char :: "nat \<Rightarrow> byte" where
  "hex_char d = word_of_nat (if d < 10 then 48 + d else 87 + d)"

fun hex_text :: "nat \<Rightarrow> byte list" where
  "hex_text n = (if n < 16 then [hex_char n] else hex_text (n div 16) @ [hex_char (n mod 16)])"

declare hex_text.simps [simp del]

lemma hex_char_props: "d < 16 \<Longrightarrow> isxdigit (hex_char d) \<and> xdigit_value (hex_char d) = d \<and> hex_char d \<noteq> 0 \<and> hex_char d \<noteq> 13"
proof -
  assume "d < 16"
  then have "d \<in> set [0..<16]" by simp
  moreover have "list_all (\<lambda>d. isxdigit (hex_char d) \<and> xdigit_value (hex_char d) = d \<and> hex_char d \<noteq> 0 \<and> hex_char d \<noteq> 13) [0..<16]" by code_simp
  ultimately show ?thesis by (simp add: list_all_iff del: set_upt upt_rec_numeral)
qed

lemma hex_text_digits: "list_all (\<lambda>c. isxdigit c \<and> c \<noteq> 0 \<and> c \<noteq> 13) (hex_text n) \<and> hex_text n \<noteq> []"
proof (induction n rule: hex_text.induct)
  case (1 n)
  then show ?case using hex_char_props [of n] hex_char_props [of "n mod 16"] by (subst (1 2) hex_text.simps) simp
qed

lemma hex_text_value: "foldl (\<lambda>n c. 16 * n + int (xdigit_value c)) 0 (hex_text n) = int n"
proof (induction n rule: hex_text.induct)
  case (1 n)
  have "16 * int (n div 16) + int (n mod 16) = int n" by (simp only: zdiv_int zmod_int of_nat_numeral mult_div_mod_eq)
  then show ?case using 1 hex_char_props [of n] hex_char_props [of "n mod 16"] by (subst hex_text.simps) simp
qed

lemma c_strtol16_hex: "n < 2 ^ 63 \<Longrightarrow> size_of_long (c_strtol16 (hex_text n)) = n"
proof -
  assume n: "n < 2 ^ 63"
  let ?h = "hex_text n"
  have h: "\<And>c. c \<in> set ?h \<Longrightarrow> isxdigit c \<and> c \<noteq> 0" "?h \<noteq> []" using hex_text_digits [of n] by (auto simp: list_all_iff)
  obtain c cs where c: "?h = c # cs" using h(2) by (cases ?h) auto
  have "\<not> isspace c \<and> c \<noteq> 45 \<and> c \<noteq> 43" using h(1) [of c] c order_trans [of 48 c 13] order_trans [of 65 c 13] order_trans [of 97 c 13]
    by (auto simp: isxdigit_def isdigit_def isspace_def)
  then have s: "signed_text ?h = (False, ?h)" by (simp add: signed_text_def c)
  have z: "takeWhile (\<lambda>c. c \<noteq> 0) ?h = ?h" using h(1) by (auto simp: takeWhile_eq_all_conv)
  have "\<not> isxdigit 120" "\<not> isxdigit 88" by (simp_all add: isxdigit_def isdigit_def)
  then have x: "\<not> (2 < length ?h \<and> ?h ! 0 = 48 \<and> (?h ! 1 = 120 \<or> ?h ! 1 = 88) \<and> isxdigit (?h ! 2))"
  proof -
    have "2 < length ?h \<Longrightarrow> ?h ! 1 \<in> set ?h" by (rule nth_mem) simp
    then have "2 < length ?h \<Longrightarrow> isxdigit (?h ! 1)" using h(1) by blast
    then show ?thesis using \<open>\<not> isxdigit 120\<close> \<open>\<not> isxdigit 88\<close> by metis
  qed
  have d: "takeWhile isxdigit ?h = ?h" using h(1) by (auto simp: takeWhile_eq_all_conv)
  have "c_strtol16 ?h = clamp_long (int n)" unfolding c_strtol16_def z s by (simp only: Let_def prod.case x d hex_text_value if_False)
  then show ?thesis using n by (simp add: clamp_long_def size_of_long_def)
qed

definition chunk_text :: "byte list \<Rightarrow> byte list" where
  "chunk_text c = hex_text (length c) @ crlf @ c @ crlf"

lemma read_chunk_size:
  assumes "buf @ concat segs = hex_text k @ crlf @ x"
  shows "\<exists>b s. read_until (find_delim crlf) buf segs = (Some (length (hex_text k) + 2), b, s) \<and> take (length (hex_text k)) b = hex_text k
    \<and> drop (length (hex_text k) + 2) b @ concat s = x"
proof -
  have stable: "stable (find_delim crlf)" by (rule find_delim_stable) simp
  have "13 \<notin> set (hex_text k)" using hex_text_digits [of k] by (auto simp: list_all_iff)
  then have "find_delim crlf (hex_text k @ crlf @ x) = Some (length (hex_text k) + 2)"
    using find_delim_behind [of 13 "hex_text k" "[10]" "crlf @ x"] by simp
  from read_until_whole [OF stable, of buf segs, unfolded assms, OF this]
  obtain b s where b: "read_until (find_delim crlf) buf segs = (Some (length (hex_text k) + 2), b, s)" "b @ concat s = hex_text k @ crlf @ x"
    by blast
  have w: "b @ concat s = (hex_text k @ crlf) @ x" using b(2) by simp
  have n: "length (hex_text k @ crlf) \<le> length b" using find_delim_le [OF read_until_matched [OF b(1)]] by simp
  note p = split_prefix [OF w n]
  have "take (length (hex_text k)) b = hex_text k" by (subst p(1)) simp
  then show ?thesis using b(1) p(2) by simp
qed

lemma read_chunks_text:
  assumes "list_all (\<lambda>c. c \<noteq> [] \<and> length c + 2 < 2 ^ 63) cs" "buf @ concat segs = concat (map chunk_text cs) @ 48 # crlf @ x"
  shows "\<exists>left pieces. left @ concat pieces = x
    \<and> read_chunks env keep identity res buf segs = Http_done keep (res\<lparr>hr_buffer := hr_buffer res @ concat (map (\<lambda>c. c @ crlf) cs)\<rparr>) left pieces"
  using assms
proof (induction cs arbitrary: buf segs res)
  case Nil
  have "hex_text 0 = [48]" by (simp add: hex_text.simps hex_char_def)
  then obtain b s where b: "read_until (find_delim crlf) buf segs = (Some 3, b, s)" "take 1 b = hex_text 0" "drop 3 b @ concat s = x"
    using read_chunk_size [of buf segs 0 x] Nil.prems(2) by (auto simp: numeral_3_eq_3)
  have "size_of_long (c_strtol16 (hex_text 0)) = 0" using c_strtol16_hex [of 0] by simp
  then have "read_chunks env keep identity res buf segs = Http_done keep res (drop 3 b) s" using b(1,2) by (subst read_chunks.simps) simp
  then show ?case using b(3) by auto
next
  case (Cons c cs)
  let ?h = "hex_text (length c)" and ?x = "concat (map chunk_text cs) @ 48 # crlf @ x"
  have c: "c \<noteq> []" "length c + 2 < 2 ^ 63" using Cons.prems(1) by simp_all
  have "buf @ concat segs = ?h @ crlf @ c @ crlf @ ?x" using Cons.prems(2) by (simp add: chunk_text_def [of c])
  from read_chunk_size [OF this] obtain b s where b: "read_until (find_delim crlf) buf segs = (Some (length ?h + 2), b, s)"
      "take (length ?h) b = ?h" "drop (length ?h + 2) b @ concat s = c @ crlf @ ?x" by blast
  have sz: "size_of_long (c_strtol16 ?h) = length c" using c_strtol16_hex [of "length c"] c(2) by simp
  have "match_size (length c + 2) (c @ crlf @ ?x) = Some (length c + 2)" by (simp add: match_size_def)
  from read_until_whole [OF match_size_stable, of "length c + 2" "drop (length ?h + 2) b" s, unfolded b(3), OF this]
  obtain b' s' where b': "read_until (match_size (length c + 2)) (drop (length ?h + 2) b) s = (Some (length c + 2), b', s')"
      "b' @ concat s' = c @ crlf @ ?x" by blast
  have n: "length (c @ crlf) \<le> length b'" using read_until_matched [OF b'(1)] by (simp add: match_size_def split: if_splits)
  have w: "b' @ concat s' = (c @ crlf) @ ?x" using b'(2) by simp
  note p = split_prefix [OF w n]
  have "take (length c + 2) b' = c @ crlf" by (subst p(1)) simp
  then have copy: "buffer_copy env identity (length c + 2) b' = Inr (c @ crlf, drop (length c + 2) b')"
    using n by (simp add: buffer_copy_def buffer_input_def)
  have m: "(length c + 2) mod 2 ^ 64 = length c + 2" using c(2) by simp
  have h: "\<not> length ?h + 2 \<le> 2" using hex_text_digits [of "length c"] by simp
  have "read_chunks env keep identity res buf segs = read_chunks env keep identity (res\<lparr>hr_buffer := hr_buffer res @ c @ crlf\<rparr>) (drop (length c + 2) b') s'"
    using h c(1) b(2) by (subst read_chunks.simps) (simp only: b(1) b'(1) copy m sz option.case sum.case prod.case Let_def if_False length_0_conv diff_add_inverse2)
  then show ?case
    using Cons.IH [of "drop (length c + 2) b'" s' "res\<lparr>hr_buffer := hr_buffer res @ c @ crlf\<rparr>"] Cons.prems(1) p(2) by simp
qed

section \<open>Results\<close>

definition direct_header :: "(byte list \<times> byte list) list \<Rightarrow> bool" where
  "direct_header es \<longleftrightarrow> find_field es ''Location'' = None \<and> find_field es ''Content-Encoding'' = None"

lemma on_read_header_text:
  assumes "b @ concat s = fields_text es @ crlf @ body" "length (fields_text es) + 2 \<le> length b" "list_all field_ok es" "es \<noteq> []"
  shows "parse_header (take (length (fields_text es) + 2) b) = (Some crlf, flat_multimap es)" "drop (length (fields_text es) + 2) b @ concat s = body"
proof -
  have w: "b @ concat s = (fields_text es @ crlf) @ body" and n: "length (fields_text es @ crlf) \<le> length b" using assms(1,2) by simp_all
  note p = split_prefix [OF w n]
  have "take (length (fields_text es) + 2) b = fields_text es @ crlf" by (subst p(1)) simp
  then show "parse_header (take (length (fields_text es) + 2) b) = (Some crlf, flat_multimap es)" using parse_header_text [OF assms(3,4)] by simp
  show "drop (length (fields_text es) + 2) b @ concat s = body" using p(2) by simp
qed

definition example_env :: http_env where
  "example_env = \<lparr>he_iequals = ascii_iequal, he_inflate = (\<lambda>c n buf. None)\<rparr>"

definition keeps_alive :: "http_env \<Rightarrow> (byte list \<times> byte list) list \<Rightarrow> bool" where
  "keeps_alive env es \<longleftrightarrow> (\<exists>v. find_field es ''Connection'' = Some v \<and> he_iequals env v (bytes_of ''keep-alive''))"

text \<open>A response with a length up to the copy of its body, with the coding of its fields.\<close>

lemma async_read_sized:
  assumes "code < 2 ^ 31" "13 \<notin> set reason" "list_all field_ok es" "es \<noteq> []" "find_field es ''Location'' = None"
    "\<And>v. find_field es ''Transfer-Encoding'' = Some v \<Longrightarrow> \<not> he_iequals env v (bytes_of ''chunked'')"
    "find_field es ''Content-Length'' = Some (dec_text (length body))" "length body < 2 ^ 63"
    "concat segs = response_text code reason es (body @ rest)"
    and c: "c = (case find_field es ''Content-Encoding'' of None \<Rightarrow> identity
        | Some v \<Rightarrow> if he_iequals env v (bytes_of ''gzip'') then gzip else if he_iequals env v (bytes_of ''zlib'') then zlib else identity)"
  obtains b s where "take (length body) b = body" "length body \<le> length b" "b @ concat s = body @ rest"
    "async_read env retry segs = (case buffer_copy env c (length body) b of Inl e \<Rightarrow> e
       | Inr (out, b') \<Rightarrow> Http_done (keeps_alive env es) \<lparr>hr_status = Some (int code), hr_header = flat_multimap es, hr_buffer = out\<rparr> b' s)"
proof -
  obtain b s where b: "async_read env retry segs = on_read_header env (int code) (length (fields_text es) + 2) b s"
      "b @ concat s = fields_text es @ crlf @ body @ rest" "length (fields_text es) + 2 \<le> length b"
    using async_read_header [OF assms(1-4,9)] by blast
  note p = on_read_header_text [OF b(2,3) assms(3,4)]
  have "match_size (length body) (body @ rest) = Some (length body)" by (simp add: match_size_def)
  from read_until_whole [OF match_size_stable, of "length body" "drop (length (fields_text es) + 2) b" s, unfolded p(2), OF this]
  obtain b' s' where b': "read_until (match_size (length body)) (drop (length (fields_text es) + 2) b) s = (Some (length body), b', s')"
      "b' @ concat s' = body @ rest" by blast
  have n: "length body \<le> length b'" using read_until_matched [OF b'(1)] by (simp add: match_size_def split: if_splits)
  have t: "take (length body) b' = body" by (subst split_prefix(1) [OF b'(2) n]) simp
  have keep: "(case find_field es ''Connection'' of None \<Rightarrow> False | Some v \<Rightarrow> he_iequals env v (bytes_of ''keep-alive'')) = keeps_alive env es"
    by (simp add: keeps_alive_def split: option.split)
  have chunked: "\<not> (case find_field es ''Transfer-Encoding'' of None \<Rightarrow> False | Some v \<Rightarrow> he_iequals env v (bytes_of ''chunked''))"
    using assms(6) by (simp split: option.split)
  have "async_read env retry segs = (case buffer_copy env c (length body) b' of Inl e \<Rightarrow> e
       | Inr (out, b'') \<Rightarrow> Http_done (keeps_alive env es) \<lparr>hr_status = Some (int code), hr_header = flat_multimap es, hr_buffer = out\<rparr> b'' s')"
    unfolding b(1) on_read_header_def p(1) Let_def find_field_flat
    using assms(5,7) chunked by (simp add: find_field_flat keep atol_dec [OF assms(8)] b'(1) c [symmetric] del: add_2_eq_Suc add_2_eq_Suc' split: sum.split)
  then show ?thesis using that t n b'(2) by blast
qed

text \<open>
  (C22) A response with a length and without compression is received: for every way in which the network cuts it into
  pieces, the callback gets the status, all fields and exactly the body, the connection is kept when the server says so, and
  what follows the body is what is left in the buffer and on the network. The response has no \<open>Location\<close> (it would be a
  redirection), no chunked \<open>Transfer-Encoding\<close> and no gzip or zlib \<open>Content-Encoding\<close>; no field has an empty
  value, a value that starts with white space, or a carriage return, and no name has a colon.
\<close>
theorem http_sized:
  assumes "code < 2 ^ 31" "13 \<notin> set reason" "list_all field_ok es" "es \<noteq> []" "find_field es ''Location'' = None"
    "\<And>v. find_field es ''Transfer-Encoding'' = Some v \<Longrightarrow> \<not> he_iequals env v (bytes_of ''chunked'')"
    "\<And>v. find_field es ''Content-Encoding'' = Some v \<Longrightarrow> \<not> he_iequals env v (bytes_of ''gzip'') \<and> \<not> he_iequals env v (bytes_of ''zlib'')"
    "find_field es ''Content-Length'' = Some (dec_text (length body))" "length body < 2 ^ 63"
    "concat segs = response_text code reason es (body @ rest)"
  shows "\<exists>left pieces. async_read env retry segs
      = Http_done (keeps_alive env es) \<lparr>hr_status = Some (int code), hr_header = flat_multimap es, hr_buffer = body\<rparr> left pieces
    \<and> left @ concat pieces = rest"
proof -
  have c: "identity = (case find_field es ''Content-Encoding'' of None \<Rightarrow> identity
      | Some v \<Rightarrow> if he_iequals env v (bytes_of ''gzip'') then gzip else if he_iequals env v (bytes_of ''zlib'') then zlib else identity)"
    using assms(7) by (simp split: option.split)
  obtain b s where b: "take (length body) b = body" "length body \<le> length b" "b @ concat s = body @ rest"
    "async_read env retry segs = (case buffer_copy env identity (length body) b of Inl e \<Rightarrow> e
       | Inr (out, b') \<Rightarrow> Http_done (keeps_alive env es) \<lparr>hr_status = Some (int code), hr_header = flat_multimap es, hr_buffer = out\<rparr> b' s)"
    using async_read_sized [OF assms(1-6,8-10) c] by blast
  have "buffer_copy env identity (length body) b = Inr (body, drop (length body) b)"
    using b(1,2) by (auto simp: buffer_copy_def buffer_input_def)
  moreover have "drop (length body) b @ concat s = rest"
    using b(1-3) by (metis append_eq_append_conv append_take_drop_id append_assoc)
  ultimately show ?thesis using b(4) by auto
qed

theorem http_sized_witness:
  "\<exists>left pieces. async_read example_env 3 [bytes_of ''HTTP/1.1 200 OK'', [13], [10], bytes_of ''Content-Length: 2'' @ [13, 10, 13, 10, 104], [105, 33]]
     = Http_done False \<lparr>hr_status = Some 200, hr_header = [(bytes_of ''Content-Length'', [50])], hr_buffer = [104, 105]\<rparr> left pieces
     \<and> left @ concat pieces = [33]"
proof -
  have d: "dec_text 200 = [50, 48, 48]" "dec_text (Suc (Suc 0)) = [50]" by (simp_all add: dec_text.simps)
  show ?thesis
    using http_sized [where code = 200 and reason = "bytes_of ''OK''" and es = "[(bytes_of ''Content-Length'', [50])]" and body = "[104, 105]" and rest = "[33]"
        and segs = "[bytes_of ''HTTP/1.1 200 OK'', [13], [10], bytes_of ''Content-Length: 2'' @ [13, 10, 13, 10, 104], [105, 33]]" and env = example_env and retry = 3]
    by (simp add: d bytes_of_def response_text_def fields_text_def field_ok_def isspace_def keeps_alive_def find_field_def flat_multimap_def del: async_read.simps)
qed


text \<open>A decompressor that doubles every byte.\<close>

definition doubling_env :: http_env where
  "doubling_env = \<lparr>he_iequals = ascii_iequal, he_inflate = (\<lambda>c n buf. Some (concat (map (\<lambda>x. [x, x]) (take n buf)), n))\<rparr>"


text \<open>
  A response without a length is lost: whatever its body is and however the network cuts it, the callback gets the end of the
  stream as an error and no body. A handler waits for the end of the connection as a success, which no read reports.
\<close>
theorem http_no_length:
  assumes "code < 2 ^ 31" "13 \<notin> set reason" "list_all field_ok es" "es \<noteq> []" "direct_header es"
    "find_field es ''Transfer-Encoding'' = None" "find_field es ''Content-Length'' = None"
    "concat segs = response_text code reason es body"
  shows "async_read env retry segs = Http_failed Http_eof \<lparr>hr_status = Some (int code), hr_header = flat_multimap es, hr_buffer = []\<rparr>"
proof -
  obtain b s where b: "async_read env retry segs = on_read_header env (int code) (length (fields_text es) + 2) b s"
      "b @ concat s = fields_text es @ crlf @ body" "length (fields_text es) + 2 \<le> length b"
    using async_read_header [OF assms(1-4,8)] by blast
  show ?thesis using assms(5-7) unfolding b(1) on_read_header_def on_read_header_text(1) [OF b(2,3) assms(3,4)] direct_header_def
    by (simp add: Let_def find_field_flat)
qed

theorem http_no_length_witness:
  "async_read example_env 3 [bytes_of ''HTTP/1.1 200 OK'' @ [13], 10 # bytes_of ''Server: x'' @ [13, 10, 13, 10, 104], [105]]
     = Http_failed Http_eof \<lparr>hr_status = Some 200, hr_header = [(bytes_of ''Server'', [120])], hr_buffer = []\<rparr>"
proof -
  have d: "dec_text 200 = [50, 48, 48]" by (simp add: dec_text.simps)
  show ?thesis
    using http_no_length [where code = 200 and reason = "bytes_of ''OK''" and es = "[(bytes_of ''Server'', [120])]" and body = "[104, 105]"
        and segs = "[bytes_of ''HTTP/1.1 200 OK'' @ [13], 10 # bytes_of ''Server: x'' @ [13, 10, 13, 10, 104], [105]]" and env = example_env and retry = 3]
    by (simp add: d bytes_of_def response_text_def fields_text_def field_ok_def isspace_def direct_header_def find_field_def flat_multimap_def del: async_read.simps)
qed

text \<open>
  A chunked response without compression is received to its end for every way in which the network cuts it, but its
  body is not the concatenation of the chunks: the break behind every chunk is a part of it.
\<close>
theorem http_chunked:
  assumes "code < 2 ^ 31" "13 \<notin> set reason" "list_all field_ok es" "es \<noteq> []" "direct_header es"
    "find_field es ''Transfer-Encoding'' = Some v" "he_iequals env v (bytes_of ''chunked'')"
    "list_all (\<lambda>c. c \<noteq> [] \<and> length c + 2 < 2 ^ 63) cs"
    "concat segs = response_text code reason es (concat (map chunk_text cs) @ 48 # crlf @ rest)"
  shows "\<exists>keep left pieces. async_read env retry segs
    = Http_done keep \<lparr>hr_status = Some (int code), hr_header = flat_multimap es, hr_buffer = concat (map (\<lambda>c. c @ crlf) cs)\<rparr> left pieces"
proof -
  obtain b s where b: "async_read env retry segs = on_read_header env (int code) (length (fields_text es) + 2) b s"
      "b @ concat s = fields_text es @ crlf @ concat (map chunk_text cs) @ 48 # crlf @ rest" "length (fields_text es) + 2 \<le> length b"
    using async_read_header [OF assms(1-4,9)] by blast
  note p = on_read_header_text [OF b(2,3) assms(3,4)]
  let ?keep = "case find_field es ''Connection'' of None \<Rightarrow> False | Some v \<Rightarrow> he_iequals env v (bytes_of ''keep-alive'')"
  obtain left pieces where "read_chunks env ?keep identity \<lparr>hr_status = Some (int code), hr_header = flat_multimap es, hr_buffer = []\<rparr> (drop (length (fields_text es) + 2) b) s
      = Http_done ?keep \<lparr>hr_status = Some (int code), hr_header = flat_multimap es, hr_buffer = concat (map (\<lambda>c. c @ crlf) cs)\<rparr> left pieces"
    using read_chunks_text [OF assms(8) p(2), of env ?keep "\<lparr>hr_status = Some (int code), hr_header = flat_multimap es, hr_buffer = []\<rparr>"] by auto
  then show ?thesis using assms(5-7) unfolding b(1) on_read_header_def p(1) direct_header_def
    by (simp add: Let_def find_field_flat del: add_2_eq_Suc add_2_eq_Suc')
qed

theorem http_chunked_witness:
  "\<exists>keep left pieces. async_read example_env 3 [bytes_of ''HTTP/1.1 200 OK'' @ [13, 10] @ bytes_of ''Transfer-Encoding: Chunked'' @ [13, 10, 13, 10, 50],
       [13, 10, 104], [105, 13, 10, 49, 13, 10, 33, 13, 10, 48, 13], [10, 13, 10]]
     = Http_done keep \<lparr>hr_status = Some 200, hr_header = [(bytes_of ''Transfer-Encoding'', bytes_of ''Chunked'')], hr_buffer = [104, 105, 13, 10, 33, 13, 10]\<rparr> left pieces"
proof -
  have d: "dec_text 200 = [50, 48, 48]" "hex_text (Suc (Suc 0)) = [50]" "hex_text (Suc 0) = [49]" by (simp_all add: dec_text.simps hex_text.simps hex_char_def)
  have "he_iequals example_env (bytes_of ''Chunked'') (bytes_of ''chunked'')" by code_simp
  then show ?thesis
    using http_chunked [where code = 200 and reason = "bytes_of ''OK''" and es = "[(bytes_of ''Transfer-Encoding'', bytes_of ''Chunked'')]" and cs = "[[104, 105], [33]]"
        and rest = "[13, 10]" and v = "bytes_of ''Chunked''" and env = example_env and retry = 3
        and segs = "[bytes_of ''HTTP/1.1 200 OK'' @ [13, 10] @ bytes_of ''Transfer-Encoding: Chunked'' @ [13, 10, 13, 10, 50],
          [13, 10, 104], [105, 13, 10, 49, 13, 10, 33, 13, 10, 48, 13], [10, 13, 10]]"]
    by (simp add: d bytes_of_def response_text_def fields_text_def field_ok_def isspace_def direct_header_def find_field_def flat_multimap_def chunk_text_def del: async_read.simps)
qed

text \<open>A connection that ends before the first byte of an answer.\<close>

definition drops :: "attempt \<Rightarrow> bool" where
  "drops a \<longleftrightarrow> (case a of Refuses \<Rightarrow> False | Breaks \<Rightarrow> True | Answers segs \<Rightarrow> concat segs = [])"

lemma async_read_empty: "concat segs = [] \<Longrightarrow> async_read env retry segs = async_read env retry []"
  by (induction env retry segs rule: async_read.induct) simp_all

text \<open>
  A request survives \<open>retry\<close> connections that end before the first byte of an answer: the next connection answers it, and one
  more such end is an error. The whole request is sent again each time, a post too.
\<close>
theorem http_retries:
  assumes "list_all drops as" "0 \<le> retry"
  shows "if int (length as) \<le> retry then exchange env retry (as @ rest) = exchange env (retry - int (length as)) rest
    else \<exists>e. exchange env retry (as @ rest) = Some (Http_failed e \<lparr>hr_status = None, hr_header = [], hr_buffer = []\<rparr>)"
  using assms
proof (induction as arbitrary: retry)
  case (Cons a as)
  have s: "exchange env retry (a # as @ rest) = exchange env (retry - 1) (as @ rest)" if "0 < retry"
    using that Cons.prems(1) async_read_empty [of _ env retry] by (cases a) (auto simp: drops_def)
  show ?case
  proof (cases "0 < retry")
    case True
    then show ?thesis using Cons.IH [of "retry - 1"] Cons.prems s by (simp add: algebra_simps)
  next
    case False
    then have "retry = 0" using Cons.prems(2) by simp
    then show ?thesis using Cons.prems(1) async_read_empty [of _ env 0] by (cases a) (auto simp: drops_def)
  qed
qed simp

theorem http_retries_witness:
  "exchange example_env 3 [Breaks, Answers [], Answers [[]], Breaks]
    = Some (Http_failed Http_reset \<lparr>hr_status = None, hr_header = [], hr_buffer = []\<rparr>)"
  using http_retries [of "[Breaks, Answers [], Answers [[]]]" 3 example_env "[Breaks]"] by (simp add: drops_def)

end
