(* ===== verification/Http_Request.thy ===== *)
theory Http_Request
  imports Http_Response
begin

text \<open>
  The requests of the HTTP client (\<^verbatim>\<open>webclient/uri.hpp\<close>, \<^verbatim>\<open>webclient/wget.hpp\<close>, \<^verbatim>\<open>webclient/wpost.hpp\<close>, the
  request of \<open>do_connect\<close> in \<^verbatim>\<open>webclient/http_client.hpp\<close>, and \<open>on_move\<close> of
  \<^verbatim>\<open>webclient/detail/client_socket.hpp\<close>, which makes the next request out of the previous one).
\<close>

section \<open>Texts\<close>

datatype scheme = Http | Https

text \<open>\<open>wget\<close> and \<open>wpost\<close>; the content of a post is a map that is encoded, or a buffer.\<close>

datatype http_method = Get | Post "byte list"

definition pair_text :: "byte list \<times> byte list \<Rightarrow> byte list" where
  "pair_text e = fst e @ 61 # snd e"

fun pairs_text :: "(byte list \<times> byte list) list \<Rightarrow> byte list" where
  "pairs_text [] = []"
| "pairs_text (e # es) = pair_text e @ concat (map (\<lambda>e. 38 # pair_text e) es)"

definition post_map :: "(byte list \<times> byte list) list \<Rightarrow> http_method" where
  "post_map es = Post (pairs_text es)"

definition method_text :: "http_method \<Rightarrow> byte list" where
  "method_text m = (case m of Get \<Rightarrow> bytes_of ''GET'' | Post _ \<Rightarrow> bytes_of ''POST'')"

definition content_fields :: "byte list \<Rightarrow> (byte list \<times> byte list) list" where
  "content_fields buf =
     [(bytes_of ''Content-Type'', bytes_of ''application/x-www-form-urlencoded''), (bytes_of ''Content-Length'', dec_text (length buf))]"

definition content_text :: "http_method \<Rightarrow> byte list" where
  "content_text m = (case m of Get \<Rightarrow> crlf | Post buf \<Rightarrow> fields_text (content_fields buf) @ crlf @ buf)"

text \<open>The query and the header of an address: nothing, a map, or (for the query) a string of C, which may be null.\<close>

datatype uri_query = Query_blank | Query_map "(byte list \<times> byte list) list" | Query_string "byte list option"

datatype uri_header = Header_blank | Header_map "(byte list \<times> byte list) list"

record uri =
  uri_text :: "byte list"
  uri_query :: uri_query
  uri_header :: uri_header

definition query_text :: "uri_query \<Rightarrow> byte list" where
  "query_text q = (case q of
     Query_blank \<Rightarrow> []
   | Query_map es \<Rightarrow> if es = [] then [] else 63 # pairs_text es
   | Query_string None \<Rightarrow> []
   | Query_string (Some s) \<Rightarrow> if s = [] then [] else 63 # s)"

definition default_fields :: "bool \<Rightarrow> (byte list \<times> byte list) list" where
  "default_fields keep_alive =
     [(bytes_of ''Connection'', if keep_alive then bytes_of ''Keep-Alive'' else bytes_of ''Close''), (bytes_of ''Accept'', bytes_of ''*/*''),
      (bytes_of ''Accept-Encoding'', bytes_of ''compress, gzip'')]"

definition uri_header_text :: "bool \<Rightarrow> uri_header \<Rightarrow> byte list" where
  "uri_header_text keep_alive h = (case h of Header_blank \<Rightarrow> fields_text (default_fields keep_alive) | Header_map es \<Rightarrow> fields_text es)"

section \<open>Addresses\<close>

text \<open>The scheme, the host, the port, which is one digit, and what is left.\<close>

definition parse_url :: "byte list \<Rightarrow> (scheme \<times> byte list \<times> byte list \<times> byte list) option" where
  "parse_url u =
     map_option (\<lambda>(scheme, r).
         let host = takeWhile (\<lambda>c. c \<noteq> 58 \<and> c \<noteq> 47) r; r1 = dropWhile (\<lambda>c. c \<noteq> 58 \<and> c \<noteq> 47) r
         in case r1 of
              c # d # r2 \<Rightarrow> if c = 58 \<and> isdigit d then (scheme, host, [d], r2) else (scheme, host, [], r1)
            | _ \<Rightarrow> (scheme, host, [], r1))
       (case qi_lit (bytes_of ''http://'') u of
          Some r \<Rightarrow> Some (Http, r)
        | None \<Rightarrow> map_option (\<lambda>r. (Https, r)) (qi_lit (bytes_of ''https://'') u))"

record connection =
  cn_scheme :: scheme
  cn_host :: "byte list"
  cn_service :: "byte list"
  cn_request :: "byte list"

datatype connect_error = Invalid_argument | Unsupported_https

text \<open>\<open>do_connect\<close>: whom to resolve, and the request. A client without a context of TLS does not know \<open>https\<close>.\<close>

definition connect_request :: "bool \<Rightarrow> bool \<Rightarrow> http_method \<Rightarrow> uri \<Rightarrow> connect_error + connection" where
  "connect_request context keep_alive m u =
     (case parse_url (uri_text u) of
        None \<Rightarrow> Inl Invalid_argument
      | Some (scheme, host, serv, rest) \<Rightarrow>
         if scheme = Https \<and> \<not> context then Inl Unsupported_https
         else let target = (if rest = [] \<or> hd rest \<noteq> 47 then 47 # rest else rest) @ query_text (uri_query u);
             name = (if serv = [] then host else host @ 58 # serv)
         in Inr \<lparr>cn_scheme = scheme, cn_host = host,
              cn_service = (if serv \<noteq> [] then serv else case scheme of Http \<Rightarrow> bytes_of ''80'' | Https \<Rightarrow> bytes_of ''443''),
              cn_request = method_text m @ 32 # target @ bytes_of '' HTTP/1.1'' @ crlf @ bytes_of ''Host: '' @ name @ crlf
                @ uri_header_text keep_alive (uri_header u) @ content_text m\<rparr>)"

section \<open>Moves\<close>

text \<open>
  The request line of the buffer: the method when a symbol matches, and the text behind the line when all of it matches,
  else the whole text.
\<close>

definition request_line :: "byte list \<Rightarrow> bool option \<times> byte list" where
  "request_line s =
     (case (case qi_lit (bytes_of ''GET'') s of Some r \<Rightarrow> Some (False, r) | None \<Rightarrow> map_option (\<lambda>r. (True, r)) (qi_lit (bytes_of ''POST'') s)) of
        None \<Rightarrow> (None, s)
      | Some (post, r) \<Rightarrow>
          (let r1 = dropWhile isspace r; r2 = dropWhile isspace (dropWhile (\<lambda>c. \<not> isspace c) r1)
           in if r1 = [] then (Some post, s)
              else case Option.bind (qi_lit (bytes_of ''HTTP/'') r2) (\<lambda>s1. Option.bind (qi_int s1) (\<lambda>(maj, s2). Option.bind (qi_lit [46] s2) (\<lambda>s3.
                  Option.bind (qi_int s3) (\<lambda>(min, s4). qi_lit crlf s4)))) of
                None \<Rightarrow> (Some post, s)
              | Some r3 \<Rightarrow> (Some post, r3)))"

text \<open>The \<open>Host\<close> field, up to the first carriage return.\<close>

definition host_line :: "byte list \<Rightarrow> (byte list \<times> byte list) option" where
  "host_line s =
     Option.bind (qi_lit (bytes_of ''Host:'') s) (\<lambda>s1. let s2 = dropWhile isspace s1 in
       map_option (\<lambda>r. (takeWhile (\<lambda>c. c \<noteq> 13) s2, r)) (qi_lit crlf (dropWhile (\<lambda>c. c \<noteq> 13) s2)))"

definition scheme_name :: "scheme \<Rightarrow> byte list" where
  "scheme_name scheme = (case scheme of Http \<Rightarrow> bytes_of ''http://'' | Https \<Rightarrow> bytes_of ''https://'')"

definition port_name :: "scheme \<Rightarrow> nat \<Rightarrow> byte list" where
  "port_name scheme port = (if port = (case scheme of Http \<Rightarrow> 80 | Https \<Rightarrow> 443) then [] else 58 # dec_text port)"

text \<open>
  What is sent after a move: \<open>request\<close> is the buffer with the previous request, \<open>port\<close> the port of the endpoint
  that it went to. The parser of the header leaves the text before the break that it does not match.
\<close>

datatype move_outcome =
    Move_error | Move_undefined | Move_throws connect_error | Move_request connection

definition parse_fields :: "byte list \<Rightarrow> (byte list \<times> byte list) list \<times> byte list" where
  "parse_fields s = (case parse_header s of (None, es) \<Rightarrow> (es, s) | (Some r, es) \<Rightarrow> (es, r))"

definition move_request :: "bool \<Rightarrow> bool \<Rightarrow> bool option \<Rightarrow> byte list \<Rightarrow> byte list \<Rightarrow> move_outcome" where
  "move_request context keep_alive post url r =
     (let (header, content) = parse_fields r
      in case post of
           None \<Rightarrow> Move_undefined
         | Some p \<Rightarrow>
             (case connect_request context keep_alive (if p then Post content else Get)
                 \<lparr>uri_text = url, uri_query = Query_blank, uri_header = Header_map header\<rparr> of
                Inl e \<Rightarrow> Move_throws e
              | Inr c \<Rightarrow> Move_request c))"

definition on_move :: "bool \<Rightarrow> bool \<Rightarrow> scheme \<Rightarrow> nat \<Rightarrow> int \<Rightarrow> byte list \<Rightarrow> byte list \<Rightarrow> move_outcome" where
  "on_move context keep_alive scheme port status request loc =
     (let (req, r) = request_line request; post = (if status = 303 then Some False else req)
      in if loc = [] \<or> hd loc = 47
         then case host_line r of
             None \<Rightarrow> Move_error
           | Some (host, r') \<Rightarrow> move_request context keep_alive post (scheme_name scheme @ host @ port_name scheme port @ loc) r'
         else case dropWhile (\<lambda>c. c \<noteq> 10) r of
             [] \<Rightarrow> Move_undefined
           | _ # r' \<Rightarrow> move_request context keep_alive post loc r')"

section \<open>A request that was sent\<close>

text \<open>\<open>request\<close> is what \<open>connect_request\<close> writes for a target, a host with its port, and fields.\<close>

definition request_text :: "http_method \<Rightarrow> byte list \<Rightarrow> byte list \<Rightarrow> (byte list \<times> byte list) list \<Rightarrow> byte list" where
  "request_text m target name es =
     method_text m @ 32 # target @ bytes_of '' HTTP/1.1'' @ crlf @ bytes_of ''Host: '' @ name @ crlf @ fields_text es @ content_text m"

lemma request_line_text:
  "target \<noteq> [] \<Longrightarrow> list_all (\<lambda>c. \<not> isspace c) target \<Longrightarrow>
   request_line (request_text m target name es)
     = (Some (m \<noteq> Get), bytes_of ''Host: '' @ name @ crlf @ fields_text es @ content_text m)"
proof -
  assume t: "target \<noteq> []" "list_all (\<lambda>c. \<not> isspace c) target"
  let ?r = "bytes_of ''Host: '' @ name @ crlf @ fields_text es @ content_text m"
  obtain c cs where c: "target = c # cs" "\<not> isspace c" using t by (cases target) auto
  have d: "dropWhile isspace (32 # target @ x) = target @ x" for x using c isspace_32 by simp
  have d2: "dropWhile (\<lambda>c. \<not> isspace c) (target @ 32 # x) = 32 # x" for x
    using takeWhile_stop [OF t(2), of "32 # x"] isspace_32 by simp
  have q: "qi_int (49 # x) = Some (1, x)" if "x = 46 # y \<or> x = 13 # y" for x y
    using that by (auto simp: qi_int_def isdigit_def)
  have b: "bytes_of '' HTTP/1.1'' = 32 # [72, 84, 84, 80, 47, 49, 46, 49]" "bytes_of ''HTTP/'' = [72, 84, 84, 80, 47]"
      "bytes_of ''GET'' = [71, 69, 84]" "bytes_of ''POST'' = [80, 79, 83, 84]" by (simp_all add: bytes_of_def)
  have n72: "\<not> isspace 72" by (simp add: isspace_def)
  then have s72: "dropWhile isspace (32 # 72 # x) = 72 # x" for x by (simp add: isspace_32)
  show ?thesis
    by (cases m) (simp_all add: request_text_def request_line_def method_text_def qi_lit_def b d d2 q n72 s72 isspace_32 t(1) Let_def del: dropWhile.simps)
qed

lemma host_line_text:
  assumes "host \<noteq> []" "\<not> isspace (hd host)" "13 \<notin> set host"
  shows "host_line (bytes_of ''Host: '' @ host @ crlf @ x) = Some (host, x)"
proof -
  obtain c cs where c: "host = c # cs" "\<not> isspace c" using assms by (cases host) auto
  have d: "dropWhile isspace (32 # host @ y) = host @ y" for y using c isspace_32 by simp
  have "list_all (\<lambda>c. c \<noteq> 13) host" using assms(3) by (auto simp: list_all_iff)
  then have t: "takeWhile (\<lambda>c. c \<noteq> 13) (host @ 13 # y) = host \<and> dropWhile (\<lambda>c. c \<noteq> 13) (host @ 13 # y) = 13 # y" for y
    using takeWhile_stop [of "\<lambda>c. c \<noteq> 13" host "13 # y"] by simp
  have "bytes_of ''Host: '' = [72, 111, 115, 116, 58, 32]" "bytes_of ''Host:'' = [72, 111, 115, 116, 58]" by (simp_all add: bytes_of_def)
  then show ?thesis by (simp add: host_line_def qi_lit_def d t del: dropWhile.simps)
qed

text \<open>What the next request takes over: all the fields, with those of the content, and a break before the content.\<close>

definition moved_fields :: "http_method \<Rightarrow> (byte list \<times> byte list) list \<Rightarrow> (byte list \<times> byte list) list" where
  "moved_fields m es = flat_multimap (es @ (case m of Get \<Rightarrow> [] | Post buf \<Rightarrow> content_fields buf))"

definition moved_method :: "int \<Rightarrow> http_method \<Rightarrow> http_method" where
  "moved_method status m = (case m of Get \<Rightarrow> Get | Post buf \<Rightarrow> if status = 303 then Get else Post (crlf @ buf))"

lemma fields_text_append: "fields_text (es @ es') = fields_text es @ fields_text es'"
  by (simp add: fields_text_def)

lemma content_fields_ok: "list_all field_ok (content_fields buf)"
proof -
  obtain c cs where c: "dec_text (length buf) = c # cs" "\<not> isspace c" using dec_text_hd [of "length buf" "[]"] dec_text_digits [of "length buf"]
    by (cases "dec_text (length buf)") auto
  have "13 \<notin> set (dec_text (length buf))" using dec_text_digits [of "length buf"] by (auto simp: list_all_iff isdigit_def)
  then show ?thesis using c by (simp add: content_fields_def field_ok_def bytes_of_def isspace_def)
qed

lemma parse_fields_text:
  assumes "list_all field_ok es" "es \<noteq> []" "case m of Get \<Rightarrow> True | Post buf \<Rightarrow> 58 \<notin> set buf"
  shows "parse_fields (fields_text es @ content_text m) = (moved_fields m es, case m of Get \<Rightarrow> crlf | Post buf \<Rightarrow> crlf @ buf)"
proof (cases m)
  case Get
  then show ?thesis using header_fields_text [OF assms(1,2), of "[]"]
    by (simp add: parse_fields_def parse_header_def content_text_def moved_fields_def qi_lit_def)
next
  case (Post buf)
  have "header_fields (fields_text (es @ content_fields buf) @ crlf @ buf) = Some (es @ content_fields buf, crlf @ crlf @ buf)"
    using header_fields_text [of "es @ content_fields buf" buf] assms content_fields_ok [of buf] Post by simp
  then show ?thesis using Post by (simp add: parse_fields_def parse_header_def content_text_def moved_fields_def qi_lit_def fields_text_append)
qed

lemma move_request_text:
  assumes "list_all field_ok es" "es \<noteq> []" "case m of Get \<Rightarrow> True | Post buf \<Rightarrow> 58 \<notin> set buf"
  shows "move_request context ka (if status = 303 then Some False else Some (m \<noteq> Get)) url (fields_text es @ content_text m)
    = (case connect_request context ka (moved_method status m) \<lparr>uri_text = url, uri_query = Query_blank, uri_header = Header_map (moved_fields m es)\<rparr> of
         Inl e \<Rightarrow> Move_throws e | Inr c \<Rightarrow> Move_request c)"
  unfolding move_request_def parse_fields_text [OF assms] by (cases m) (simp_all add: moved_method_def)

definition host_ok :: "byte list \<Rightarrow> bool" where
  "host_ok host \<longleftrightarrow> host \<noteq> [] \<and> \<not> isspace (hd host) \<and> list_all (\<lambda>c. c \<noteq> 13 \<and> c \<noteq> 10 \<and> c \<noteq> 58 \<and> c \<noteq> 47) host"

lemma parse_url_text:
  assumes "host_ok host" "rest = [] \<or> hd rest = 47 \<or> hd rest = 58"
  shows "parse_url (scheme_name scheme @ host @ rest)
    = Some (case rest of c # d # r \<Rightarrow> if c = 58 \<and> isdigit d then (scheme, host, [d], r) else (scheme, host, [], rest) | _ \<Rightarrow> (scheme, host, [], rest))"
proof -
  let ?p = "\<lambda>c::byte. c \<noteq> 58 \<and> c \<noteq> 47"
  have "list_all ?p host" using assms(1) by (auto simp: host_ok_def list_all_iff)
  then have t: "takeWhile ?p (host @ rest) = host \<and> dropWhile ?p (host @ rest) = rest"
    using takeWhile_stop [of ?p host rest] assms(2) by auto
  have b: "bytes_of ''http://'' = [104, 116, 116, 112, 58, 47, 47]" "bytes_of ''https://'' = [104, 116, 116, 112, 115, 58, 47, 47]"
    by (simp_all add: bytes_of_def)
  have "(case qi_lit (bytes_of ''http://'') (scheme_name scheme @ host @ rest) of Some r \<Rightarrow> Some (Http, r)
      | None \<Rightarrow> map_option (\<lambda>r. (Https, r)) (qi_lit (bytes_of ''https://'') (scheme_name scheme @ host @ rest))) = Some (scheme, host @ rest)"
    by (cases scheme) (simp_all add: scheme_name_def b qi_lit_def)
  then show ?thesis unfolding parse_url_def by (simp only: option.map prod.case Let_def t)
qed

definition uri_fields :: "bool \<Rightarrow> uri_header \<Rightarrow> (byte list \<times> byte list) list" where
  "uri_fields keep_alive h = (case h of Header_blank \<Rightarrow> default_fields keep_alive | Header_map es \<Rightarrow> es)"

lemma header_text_fields: "uri_header_text keep_alive h = fields_text (uri_fields keep_alive h)"
  by (simp add: uri_header_text_def uri_fields_def split: uri_header.split)

definition default_service :: "scheme \<Rightarrow> byte list" where
  "default_service scheme = (case scheme of Http \<Rightarrow> bytes_of ''80'' | Https \<Rightarrow> bytes_of ''443'')"

lemma connect_request_name:
  assumes "host_ok host" "rest = [] \<or> hd rest = 47" "scheme = Http \<or> context"
  shows "connect_request context ka m \<lparr>uri_text = scheme_name scheme @ host @ rest, uri_query = q, uri_header = h\<rparr>
    = Inr \<lparr>cn_scheme = scheme, cn_host = host, cn_service = default_service scheme,
        cn_request = request_text m ((if rest = [] then [47] else rest) @ query_text q) host (uri_fields ka h)\<rparr>"
proof -
  have "parse_url (scheme_name scheme @ host @ rest) = Some (scheme, host, [], rest)"
    using assms(2) by (subst parse_url_text [OF assms(1)]) (auto split: list.split)
  then show ?thesis using assms(2,3)
    by (auto simp: connect_request_def request_text_def header_text_fields default_service_def Let_def split: scheme.split)
qed

lemma connect_request_port:
  assumes "host_ok host" "isdigit d" "scheme = Http \<or> context"
  shows "connect_request context ka m \<lparr>uri_text = scheme_name scheme @ host @ 58 # d # rest, uri_query = q, uri_header = h\<rparr>
    = Inr \<lparr>cn_scheme = scheme, cn_host = host, cn_service = [d],
        cn_request = request_text m ((if rest = [] \<or> hd rest \<noteq> 47 then 47 # rest else rest) @ query_text q) (host @ [58, d]) (uri_fields ka h)\<rparr>"
proof -
  have "parse_url (scheme_name scheme @ host @ 58 # d # rest) = Some (scheme, host, [d], rest)"
    using assms(2) by (subst parse_url_text [OF assms(1)]) auto
  then show ?thesis using assms(3) by (auto simp: connect_request_def request_text_def header_text_fields Let_def)
qed

lemma on_move_text:
  assumes "target \<noteq> []" "list_all (\<lambda>c. \<not> isspace c) target" "name \<noteq> []" "\<not> isspace (hd name)" "13 \<notin> set name" "10 \<notin> set name"
    "list_all field_ok es" "es \<noteq> []" "case m of Get \<Rightarrow> True | Post buf \<Rightarrow> 58 \<notin> set buf"
  shows "on_move context ka scheme port status (request_text m target name es) loc
    = (case connect_request context ka (moved_method status m) \<lparr>uri_text = (if loc = [] \<or> hd loc = 47 then scheme_name scheme @ name @ port_name scheme port @ loc else loc),
          uri_query = Query_blank, uri_header = Header_map (moved_fields m es)\<rparr> of
         Inl e \<Rightarrow> Move_throws e | Inr c \<Rightarrow> Move_request c)"
proof -
  have "list_all (\<lambda>c. c \<noteq> 10) (bytes_of ''Host: '' @ name @ [13])" using assms(6) by (auto simp: list_all_iff bytes_of_def)
  then have d: "dropWhile (\<lambda>c. c \<noteq> 10) (bytes_of ''Host: '' @ name @ crlf @ x) = 10 # x" for x
    using takeWhile_stop [of "\<lambda>c. c \<noteq> 10" "bytes_of ''Host: '' @ name @ [13]" "10 # x"] by simp
  show ?thesis unfolding on_move_def request_line_text [OF assms(1,2)] prod.case Let_def host_line_text [OF assms(3-5)] d
      list.case option.case move_request_text [OF assms(7-9)] by simp
qed

section \<open>Properties\<close>

text \<open>
  Only the first digit of a port counts: a request to an address with a port of two digits or more goes to the service
  that the first digit names, and the other digits become the start of the path.
\<close>
theorem request_port:
  assumes "host_ok host" "isdigit d" "list_all isdigit ds" "ds \<noteq> []" "scheme = Http \<or> context"
  shows "\<exists>c. connect_request context ka m \<lparr>uri_text = scheme_name scheme @ host @ 58 # d # ds @ path, uri_query = q, uri_header = h\<rparr> = Inr c
    \<and> cn_service c = [d] \<and> cn_request c = request_text m (47 # ds @ path @ query_text q) (host @ [58, d]) (uri_fields ka h)"
proof -
  have "hd (ds @ path) \<noteq> 47" using assms(3,4) by (cases ds) (auto simp: isdigit_def)
  then show ?thesis using connect_request_port [OF assms(1,2,5), of ka m "ds @ path" q h] assms(4) by simp
qed

text \<open>The address of the documentation, \<open>http://localhost:8080/index.html?key=val\<close>, goes to port 8.\<close>
theorem request_port_witness:
  "\<exists>c. connect_request False True Get \<lparr>uri_text = bytes_of ''http://localhost:8080/index.html?key=val'', uri_query = Query_blank, uri_header = Header_blank\<rparr> = Inr c
    \<and> cn_service c = bytes_of ''8'' \<and> take 37 (cn_request c) = bytes_of ''GET /080/index.html?key=val HTTP/1.1'' @ [13]"
proof -
  have "host_ok (bytes_of ''localhost'')" "list_all isdigit (bytes_of ''080'')" "isdigit 56" "bytes_of ''080'' \<noteq> []" by code_simp+
  then show ?thesis using request_port [of "bytes_of ''localhost''" 56 "bytes_of ''080''" Http False True Get "bytes_of ''/index.html?key=val''" Query_blank Header_blank]
    by (auto simp: bytes_of_def scheme_name_def request_text_def method_text_def query_text_def)
qed

text \<open>
  (C24) A move of a request without a port: whatever status of a move comes with a GET, the next request is the GET for the new
  address (a path is one of the same host and scheme), with the fields of the first in the order of their names.
\<close>
theorem move_get:
  assumes "host_ok host" "rest = [] \<or> hd rest = 47" "scheme = Http \<or> context" "list_all (\<lambda>c. \<not> isspace c) (rest @ query_text q)"
    "list_all field_ok (uri_fields ka h)" "uri_fields ka h \<noteq> []"
    "connect_request context ka Get \<lparr>uri_text = scheme_name scheme @ host @ rest, uri_query = q, uri_header = h\<rparr> = Inr c"
  shows "on_move context ka scheme (case scheme of Http \<Rightarrow> 80 | Https \<Rightarrow> 443) status (cn_request c) loc
    = (case connect_request context ka Get \<lparr>uri_text = (if loc = [] \<or> hd loc = 47 then scheme_name scheme @ host @ loc else loc),
          uri_query = Query_blank, uri_header = Header_map (flat_multimap (uri_fields ka h))\<rparr> of
         Inl e \<Rightarrow> Move_throws e | Inr c' \<Rightarrow> Move_request c')"
proof -
  have h: "host \<noteq> []" "\<not> isspace (hd host)" "13 \<notin> set host" "10 \<notin> set host" using assms(1) by (auto simp: host_ok_def list_all_iff)
  have c: "cn_request c = request_text Get ((if rest = [] then [47] else rest) @ query_text q) host (uri_fields ka h)"
    using assms(7) unfolding connect_request_name [OF assms(1-3)] by auto
  have t: "(if rest = [] then [47] else rest) @ query_text q \<noteq> []" "list_all (\<lambda>c. \<not> isspace c) ((if rest = [] then [47] else rest) @ query_text q)"
    using assms(4) by (auto simp: isspace_def)
  have p: "port_name scheme (case scheme of Http \<Rightarrow> 80 | Https \<Rightarrow> 443) = []" by (simp add: port_name_def)
  show ?thesis unfolding c using on_move_text [OF t h assms(5,6), of Get] by (simp add: p moved_method_def moved_fields_def)
qed

theorem move_get_witness:
  "\<exists>c. connect_request False True Get \<lparr>uri_text = bytes_of ''http://a.b/x?k=v'', uri_query = Query_blank, uri_header = Header_blank\<rparr> = Inr c
    \<and> on_move False True Http 80 302 (cn_request c) (bytes_of ''/y'')
      = (case connect_request False True Get \<lparr>uri_text = bytes_of ''http://a.b/y'', uri_query = Query_blank, uri_header = Header_map (flat_multimap (default_fields True))\<rparr> of
           Inl e \<Rightarrow> Move_throws e | Inr c' \<Rightarrow> Move_request c')"
proof -
  have u: "uri_fields True Header_blank = default_fields True" by (simp add: uri_fields_def)
  have h: "host_ok (bytes_of ''a.b'')" "list_all (\<lambda>c. \<not> isspace c) (bytes_of ''/x?k=v'')" "list_all field_ok (default_fields True)"
      "default_fields True \<noteq> []" by code_simp+
  have q: "query_text Query_blank = []" by (simp add: query_text_def)
  have t: "scheme_name Http @ bytes_of ''a.b'' @ bytes_of ''/x?k=v'' = bytes_of ''http://a.b/x?k=v''"
      "scheme_name Http @ bytes_of ''a.b'' @ bytes_of ''/y'' = bytes_of ''http://a.b/y''" by (simp_all add: scheme_name_def bytes_of_def)
  have "hd (bytes_of ''/x?k=v'') = 47" "hd (bytes_of ''/y'') = 47" by (simp_all add: bytes_of_def)
  note f = move_get [of "bytes_of ''a.b''" "bytes_of ''/x?k=v''" Http False Query_blank True Header_blank _ 302 "bytes_of ''/y''", unfolded u t q]
  show ?thesis using f h \<open>hd (bytes_of ''/x?k=v'') = 47\<close> \<open>hd (bytes_of ''/y'') = 47\<close>
      connect_request_name [of "bytes_of ''a.b''" "bytes_of ''/x?k=v''" Http False True Get Query_blank Header_blank, unfolded t] by simp
qed

text \<open>
  A move within the host of an address with a port goes wrong: the port is taken from the endpoint and from the \<open>Host\<close>
  field, and the second copy becomes the start of the path.
\<close>
theorem move_port:
  assumes "host_ok host" "isdigit d" "scheme = Http \<or> context" "list_all (\<lambda>c. \<not> isspace c) (rest @ query_text q)"
    "list_all field_ok (uri_fields ka h)" "uri_fields ka h \<noteq> []"
    "connect_request context ka Get \<lparr>uri_text = scheme_name scheme @ host @ 58 # d # rest, uri_query = q, uri_header = h\<rparr> = Inr c"
    "loc = [] \<or> hd loc = 47"
  shows "\<exists>c'. on_move context ka scheme (unat d - 48) status (cn_request c) loc = Move_request c' \<and> cn_service c' = [d]
    \<and> cn_request c' = request_text Get (47 # 58 # d # loc) (host @ [58, d]) (flat_multimap (uri_fields ka h))"
proof -
  let ?target = "(if rest = [] \<or> hd rest \<noteq> 47 then 47 # rest else rest) @ query_text q"
  have d: "d \<noteq> 13" "d \<noteq> 10" "\<not> isspace d" using assms(2) order_trans [of 48 d 13] by (auto simp: isdigit_def isspace_def)
  have h: "host @ [58, d] \<noteq> []" "\<not> isspace (hd (host @ [58, d]))" "13 \<notin> set (host @ [58, d])" "10 \<notin> set (host @ [58, d])"
    using assms(1) d by (auto simp: host_ok_def list_all_iff)
  have c: "cn_request c = request_text Get ?target (host @ [58, d]) (uri_fields ka h)"
    using assms(7) unfolding connect_request_port [OF assms(1-3)] by auto
  have t: "?target \<noteq> []" "list_all (\<lambda>c. \<not> isspace c) ?target" using assms(4) by (auto simp: isspace_def)
  have n: "48 \<le> unat d" "unat d \<le> 57" using assms(2) by (auto simp: isdigit_def word_le_nat_alt)
  then have "48 + (unat d - 48) = unat d" "unat d - 48 < 10" by simp_all
  then have "dec_text (unat d - 48) = [d]" by (subst dec_text.simps) simp
  then have p: "port_name scheme (unat d - 48) = [58, d]" using n by (cases scheme) (simp_all add: port_name_def)
  have "on_move context ka scheme (unat d - 48) status (cn_request c) loc
      = (case connect_request context ka Get \<lparr>uri_text = scheme_name scheme @ host @ 58 # d # 58 # d # loc,
          uri_query = Query_blank, uri_header = Header_map (flat_multimap (uri_fields ka h))\<rparr> of
         Inl e \<Rightarrow> Move_throws e | Inr c' \<Rightarrow> Move_request c')"
    unfolding c using on_move_text [OF t h assms(5,6), of Get] assms(8) by (simp add: p moved_method_def moved_fields_def)
  then show ?thesis unfolding connect_request_port [OF assms(1-3)] by (simp add: query_text_def uri_fields_def)
qed

theorem move_port_witness:
  "\<exists>c c'. connect_request False True Get \<lparr>uri_text = bytes_of ''http://a:8/x'', uri_query = Query_blank, uri_header = Header_blank\<rparr> = Inr c
    \<and> on_move False True Http 8 302 (cn_request c) (bytes_of ''/y'') = Move_request c' \<and> cn_service c' = bytes_of ''8''
    \<and> cn_request c' = request_text Get (bytes_of ''/:8/y'') (bytes_of ''a:8'') (flat_multimap (default_fields True))"
proof -
  have h: "host_ok (bytes_of ''a'')" "list_all (\<lambda>c. \<not> isspace c) (bytes_of ''/x'')" "list_all field_ok (default_fields True)"
      "default_fields True \<noteq> []" "isdigit 56" "hd (bytes_of ''/y'') = 47" by code_simp+
  have e: "scheme_name Http @ bytes_of ''a'' @ 58 # 56 # bytes_of ''/x'' = bytes_of ''http://a:8/x''" "uri_fields True Header_blank = default_fields True"
      "47 # 58 # 56 # bytes_of ''/y'' = bytes_of ''/:8/y''" "bytes_of ''a'' @ [58, 56] = bytes_of ''a:8''" "query_text Query_blank = []" "unat (56::byte) - 48 = 8"
    by (simp_all add: scheme_name_def bytes_of_def uri_fields_def query_text_def)
  have s: "[56] = bytes_of ''8''" by (simp add: bytes_of_def)
  obtain c where c: "connect_request False True Get \<lparr>uri_text = bytes_of ''http://a:8/x'', uri_query = Query_blank, uri_header = Header_blank\<rparr> = Inr c"
    using connect_request_port [of "bytes_of ''a''" 56 Http False True Get "bytes_of ''/x''" Query_blank Header_blank, unfolded e(1)] h by blast
  have "\<exists>c'. on_move False True Http 8 302 (cn_request c) (bytes_of ''/y'') = Move_request c' \<and> cn_service c' = [56]
    \<and> cn_request c' = request_text Get (bytes_of ''/:8/y'') (bytes_of ''a:8'') (flat_multimap (default_fields True))"
    using move_port [of "bytes_of ''a''" 56 Http False "bytes_of ''/x''" Query_blank True Header_blank c "bytes_of ''/y''" 302, unfolded e] h c by simp
  then show ?thesis using c unfolding s by blast
qed

text \<open>
  A move of a post is no longer the same post: the content gains a line break, and the next request has the length of the
  old and of the new content, so that its first \<open>Content-Length\<close> is smaller by two than what is sent.
\<close>
theorem move_post:
  assumes "host_ok host" "rest = [] \<or> hd rest = 47" "scheme = Http \<or> context" "list_all (\<lambda>c. \<not> isspace c) (rest @ query_text q)"
    "list_all field_ok (uri_fields ka h)" "uri_fields ka h \<noteq> []" "find_field (uri_fields ka h) ''Content-Length'' = None"
    "connect_request context ka (Post buf) \<lparr>uri_text = scheme_name scheme @ host @ rest, uri_query = q, uri_header = h\<rparr> = Inr c"
    "58 \<notin> set buf" "status \<noteq> 303" "loc \<noteq> []" "hd loc = 47"
  shows "\<exists>c' es. on_move context ka scheme (case scheme of Http \<Rightarrow> 80 | Https \<Rightarrow> 443) status (cn_request c) loc = Move_request c'
    \<and> cn_request c' = bytes_of ''POST '' @ loc @ bytes_of '' HTTP/1.1'' @ crlf @ bytes_of ''Host: '' @ host @ crlf @ fields_text es @ crlf @ crlf @ buf
    \<and> map snd (filter (\<lambda>e. fst e = bytes_of ''Content-Length'') es) = [dec_text (length buf), dec_text (length buf + 2)]"
proof -
  let ?target = "(if rest = [] then [47] else rest) @ query_text q" and ?fs = "uri_fields ka h"
  have h: "host \<noteq> []" "\<not> isspace (hd host)" "13 \<notin> set host" "10 \<notin> set host" using assms(1) by (auto simp: host_ok_def list_all_iff)
  have c: "cn_request c = request_text (Post buf) ?target host ?fs"
    using assms(8) unfolding connect_request_name [OF assms(1-3)] by auto
  have t: "?target \<noteq> []" "list_all (\<lambda>c. \<not> isspace c) ?target" using assms(4) by (auto simp: isspace_def)
  have p: "port_name scheme (case scheme of Http \<Rightarrow> 80 | Https \<Rightarrow> 443) = []" by (simp add: port_name_def)
  define es where "es = moved_fields (Post buf) ?fs @ content_fields (crlf @ buf)"
  define c' where "c' = \<lparr>cn_scheme = scheme, cn_host = host, cn_service = default_service scheme,
      cn_request = request_text (Post (crlf @ buf)) loc host (moved_fields (Post buf) ?fs)\<rparr>"
  have "on_move context ka scheme (case scheme of Http \<Rightarrow> 80 | Https \<Rightarrow> 443) status (cn_request c) loc = Move_request c'"
    unfolding c using on_move_text [OF t h assms(5,6), of "Post buf" "context" ka scheme _ status loc] assms(9-12)
      connect_request_name [OF assms(1) _ assms(3), of loc ka "Post (crlf @ buf)" Query_blank "Header_map (moved_fields (Post buf) ?fs)"]
    by (simp add: p moved_method_def c'_def query_text_def uri_fields_def)
  moreover have "cn_request c' = bytes_of ''POST '' @ loc @ bytes_of '' HTTP/1.1'' @ crlf @ bytes_of ''Host: '' @ host @ crlf @ fields_text es @ crlf @ crlf @ buf"
    by (simp add: c'_def request_text_def es_def fields_text_append content_text_def method_text_def bytes_of_def)
  moreover have "map snd (filter (\<lambda>e. fst e = bytes_of ''Content-Length'') es) = [dec_text (length buf), dec_text (length buf + 2)]"
  proof -
    have n: "filter (\<lambda>e. fst e = bytes_of ''Content-Length'') ?fs = []"
      using assms(7) by (auto simp: find_field_def find_None_iff filter_empty_conv)
    have "bytes_of ''Content-Type'' \<noteq> bytes_of ''Content-Length''" by code_simp
    then have f: "filter (\<lambda>e. fst e = bytes_of ''Content-Length'') (content_fields x) = [(bytes_of ''Content-Length'', dec_text (length x))]" for x
      by (simp add: content_fields_def)
    show ?thesis unfolding es_def moved_fields_def flat_multimap_def filter_append sort_key_stable by (simp add: n f)
  qed
  ultimately show ?thesis by (intro exI [of _ c'] exI [of _ es] conjI)
qed

theorem move_post_witness:
  "\<exists>c c' es. connect_request False True (post_map [(bytes_of ''k'', bytes_of ''v'')]) \<lparr>uri_text = bytes_of ''http://a/x'', uri_query = Query_blank, uri_header = Header_blank\<rparr> = Inr c
    \<and> on_move False True Http 80 307 (cn_request c) (bytes_of ''/y'') = Move_request c'
    \<and> cn_request c' = bytes_of ''POST '' @ bytes_of ''/y'' @ bytes_of '' HTTP/1.1'' @ crlf @ bytes_of ''Host: '' @ bytes_of ''a'' @ crlf @ fields_text es @ crlf @ crlf @ bytes_of ''k=v''
    \<and> map snd (filter (\<lambda>e. fst e = bytes_of ''Content-Length'') es) = [bytes_of ''3'', bytes_of ''5'']"
proof -
  have h: "host_ok (bytes_of ''a'')" "list_all (\<lambda>c. \<not> isspace c) (bytes_of ''/x'')" "list_all field_ok (default_fields True)"
      "default_fields True \<noteq> []" "hd (bytes_of ''/x'') = 47" "hd (bytes_of ''/y'') = 47" "bytes_of ''/y'' \<noteq> []" "58 \<notin> set (bytes_of ''k=v'')"
      "find_field (default_fields True) ''Content-Length'' = None" by code_simp+
  have e: "scheme_name Http @ bytes_of ''a'' @ bytes_of ''/x'' = bytes_of ''http://a/x''" "uri_fields True Header_blank = default_fields True"
      "query_text Query_blank = []" by (simp_all add: scheme_name_def bytes_of_def uri_fields_def query_text_def)
  have n: "length (bytes_of ''k=v'') = 3" "dec_text 3 = bytes_of ''3''" "dec_text (3 + 2) = bytes_of ''5''" by (simp_all add: bytes_of_def dec_text.simps)
  have m: "post_map [(bytes_of ''k'', bytes_of ''v'')] = Post (bytes_of ''k=v'')" by (simp add: post_map_def pair_text_def bytes_of_def)
  show ?thesis using move_post [of "bytes_of ''a''" "bytes_of ''/x''" Http False Query_blank True Header_blank "bytes_of ''k=v''" _ 307 "bytes_of ''/y''", unfolded e n] h
      connect_request_name [of "bytes_of ''a''" "bytes_of ''/x''" Http False True "Post (bytes_of ''k=v'')" Query_blank Header_blank, unfolded e]
    by (simp add: m)
qed

end
