(* ===== verification/Http_Client.thy ===== *)
theory Http_Client
  imports Acqua_Prelude
begin

text \<open>
  The sockets of the HTTP client (\<^verbatim>\<open>webclient/http_client.hpp\<close>: \<open>lock_wait\<close>, \<open>socket_deleter\<close>, \<open>collect\<close>,
  \<open>reuse\<close>, \<open>erase\<close>; \<^verbatim>\<open>webclient/detail/client_socket.hpp\<close>: \<open>async_connect\<close>, \<open>async_keep_alive\<close>,
  \<open>on_keep_alive\<close>, \<open>async_reuse\<close>). Each critical section of the mutex is one event. The place of a new element
  among the elements of \<open>keep_sockets_\<close> is the library's choice and a parameter.
\<close>

section \<open>Sockets that are kept\<close>

text \<open>Pairs of a socket and its endpoint; those with the same endpoint are next to each other.\<close>

fun grouped :: "(nat \<times> 'e) list \<Rightarrow> bool" where
  "grouped [] = True"
| "grouped (x # xs) = (snd x \<notin> snd ` set (dropWhile (\<lambda>y. snd y = snd x) xs) \<and> grouped xs)"

definition keep_emplace :: "('e \<Rightarrow> (nat \<times> 'e) list \<Rightarrow> nat) \<Rightarrow> nat \<Rightarrow> 'e \<Rightarrow> (nat \<times> 'e) list \<Rightarrow> (nat \<times> 'e) list" where
  "keep_emplace place s e m = take (place e m) m @ (s, e) # drop (place e m) m"

text \<open>\<open>find\<close> and \<open>erase\<close> in \<open>reuse\<close>.\<close>

definition keep_reuse :: "'e \<Rightarrow> (nat \<times> 'e) list \<Rightarrow> (nat \<times> (nat \<times> 'e) list) option" where
  "keep_reuse e m =
     (case dropWhile (\<lambda>x. snd x \<noteq> e) m of [] \<Rightarrow> None | x # r \<Rightarrow> Some (fst x, takeWhile (\<lambda>x. snd x \<noteq> e) m @ r))"

text \<open>\<open>erase\<close>: the sockets with the endpoint, up to the one that is meant.\<close>

fun erase_loop :: "nat \<Rightarrow> 'e \<Rightarrow> (nat \<times> 'e) list \<Rightarrow> (nat \<times> 'e) list" where
  "erase_loop s e [] = []"
| "erase_loop s e (x # xs) = (if fst x = s then xs else if snd x \<noteq> e then x # xs else x # erase_loop s e xs)"

definition keep_erase :: "nat \<Rightarrow> 'e \<Rightarrow> (nat \<times> 'e) list \<Rightarrow> (nat \<times> 'e) list" where
  "keep_erase s e m = takeWhile (\<lambda>x. snd x \<noteq> e) m @ erase_loop s e (dropWhile (\<lambda>x. snd x \<noteq> e) m)"

locale equal_places =
  fixes place :: "'e \<Rightarrow> (nat \<times> 'e) list \<Rightarrow> nat"
  assumes grouped_emplace: "grouped m \<Longrightarrow> grouped (keep_emplace place s e m)"

section \<open>The client\<close>

text \<open>
  The sockets that the client has: those of a caller (\<open>pl_live\<close>), and those that wait in \<open>async_keep_alive\<close>
  (\<open>pl_objects\<close>, with the socket that is to get the connection). \<open>pl_pending\<close> counts the calls between
  \<open>lock_wait\<close> and the new socket, \<open>pl_closing\<close> the deleters before their last critical section,
  \<open>pl_lost\<close> the calls that ended with an exception, \<open>pl_moves\<close> the calls that did not wait.
  \<open>pl_taken\<close> are the sockets between \<open>reuse\<close> and \<open>async_reuse\<close>. \<open>pl_sleeping\<close> counts the callers that are
  blocked on the condition variable, and \<open>pl_woken\<close> those that were notified and have not got the mutex back.
\<close>

record 'e pool =
  pl_max :: nat
  pl_count :: nat
  pl_keep :: "(nat \<times> 'e) list"
  pl_next :: nat
  pl_live :: "nat list"
  pl_objects :: "(nat \<times> 'e \<times> nat option) list"
  pl_taken :: "(nat \<times> nat) list"
  pl_pending :: nat
  pl_closing :: nat
  pl_lost :: nat
  pl_moves :: nat
  pl_sleeping :: nat
  pl_woken :: nat
  pl_misuse :: bool

text \<open>The constructor.\<close>

definition http_client :: "nat \<Rightarrow> 'e pool option" where
  "http_client n =
     (if n = 0 then None
      else Some \<lparr>pl_max = n, pl_count = 0, pl_keep = [], pl_next = 0, pl_live = [], pl_objects = [], pl_taken = [],
             pl_pending = 0, pl_closing = 0, pl_lost = 0, pl_moves = 0,
             pl_sleeping = 0, pl_woken = 0, pl_misuse = False\<rparr>)"

text \<open>
  \<open>lock_wait\<close>, with the condition of \<open>cond_.wait\<close>: a caller that finds no room is blocked. \<open>lock_wake\<close> is its loop
  after a wake-up, and \<open>notify_one\<close> wakes one blocked caller, if there is one.
\<close>

definition lock_free :: "'e pool \<Rightarrow> bool" where
  "lock_free p \<longleftrightarrow> pl_count p + length (pl_keep p) < pl_max p"

definition lock_wait :: "bool \<Rightarrow> 'e pool \<Rightarrow> 'e pool" where
  "lock_wait waits p =
     (if waits \<and> \<not> lock_free p then p\<lparr>pl_sleeping := pl_sleeping p + 1\<rparr>
      else p\<lparr>pl_count := pl_count p + 1, pl_pending := pl_pending p + 1\<rparr>)"

definition lock_wake :: "'e pool \<Rightarrow> 'e pool" where
  "lock_wake p = lock_wait True (p\<lparr>pl_woken := pl_woken p - 1\<rparr>)"

definition notify_one :: "'e pool \<Rightarrow> 'e pool" where
  "notify_one p = (if pl_sleeping p = 0 then p else p\<lparr>pl_sleeping := pl_sleeping p - 1, pl_woken := pl_woken p + 1\<rparr>)"

definition collect :: "('e \<Rightarrow> (nat \<times> 'e) list \<Rightarrow> nat) \<Rightarrow> nat \<Rightarrow> 'e \<Rightarrow> 'e pool \<Rightarrow> 'e pool" where
  "collect place s e p = p\<lparr>pl_keep := keep_emplace place s e (pl_keep p), pl_objects := (s, e, None) # pl_objects p\<rparr>"

text \<open>The first part of \<open>socket_deleter\<close>, and its critical section.\<close>

definition socket_deleter :: "('e \<Rightarrow> (nat \<times> 'e) list \<Rightarrow> nat) \<Rightarrow> bool \<Rightarrow> nat \<Rightarrow> 'e \<Rightarrow> 'e pool \<Rightarrow> 'e pool" where
  "socket_deleter place keep_alive s e p =
     (let p' = p\<lparr>pl_live := remove1 s (pl_live p), pl_closing := pl_closing p + 1\<rparr> in if keep_alive then collect place s e p' else p')"

definition release :: "'e pool \<Rightarrow> 'e pool" where
  "release p = notify_one (p\<lparr>pl_count := pl_count p - 1, pl_closing := pl_closing p - 1\<rparr>)"

definition reuse :: "nat \<Rightarrow> 'e \<Rightarrow> 'e pool \<Rightarrow> 'e pool" where
  "reuse s e p = (case keep_reuse e (pl_keep p) of None \<Rightarrow> p | Some (k, m) \<Rightarrow> p\<lparr>pl_keep := m, pl_taken := (k, s) # pl_taken p\<rparr>)"

text \<open>\<open>async_reuse\<close> on a socket that may have been deleted.\<close>

definition async_reuse :: "nat \<times> nat \<Rightarrow> 'e pool \<Rightarrow> 'e pool" where
  "async_reuse t p =
     (let p' = p\<lparr>pl_taken := remove1 t (pl_taken p)\<rparr>
      in if fst t \<in> fst ` set (pl_objects p)
         then p'\<lparr>pl_objects := map (\<lambda>(k, e, r). if k = fst t then (k, e, Some (snd t)) else (k, e, r)) (pl_objects p)\<rparr>
         else p'\<lparr>pl_misuse := True\<rparr>)"

text \<open>\<open>erase\<close>, which wakes a caller when it has found the socket, and the handler of the read.\<close>

definition erase_kept :: "nat \<Rightarrow> 'e \<Rightarrow> 'e pool \<Rightarrow> 'e pool" where
  "erase_kept s e p =
     (let m = keep_erase s e (pl_keep p); p' = p\<lparr>pl_keep := m\<rparr> in if length m < length (pl_keep p) then notify_one p' else p')"

definition on_keep_alive :: "nat \<times> 'e \<times> nat option \<Rightarrow> 'e pool \<Rightarrow> 'e pool" where
  "on_keep_alive obj p =
     (let p' = p\<lparr>pl_objects := remove1 obj (pl_objects p)\<rparr>
      in case snd (snd obj) of None \<Rightarrow> erase_kept (fst obj) (fst (snd obj)) p' | Some s \<Rightarrow> p')"

text \<open>
  What happens: a call of \<open>connect\<close> and the end of its wait (\<open>P_spurious\<close> is a wake-up without a notification), a move
  of a request, both to be followed by a new socket or an exception; a socket
  that looks for a kept one with its endpoint and gets its connection; the end of a read on a kept socket; the last pointer to a
  socket goes, and the count goes down.
\<close>

datatype 'e pool_event =
    P_connect | P_spurious | P_wake | P_move nat | P_made | P_throw | P_reuse nat 'e | P_hand "nat \<times> nat" | P_read "nat \<times> 'e \<times> nat option"
  | P_drop bool nat 'e | P_release

fun pool_step :: "('e \<Rightarrow> (nat \<times> 'e) list \<Rightarrow> nat) \<Rightarrow> 'e pool_event \<Rightarrow> 'e pool \<Rightarrow> 'e pool option" where
  "pool_step place P_connect p = Some (lock_wait True p)"
| "pool_step place P_spurious p = (if 0 < pl_sleeping p then Some (p\<lparr>pl_sleeping := pl_sleeping p - 1, pl_woken := pl_woken p + 1\<rparr>) else None)"
| "pool_step place P_wake p = (if 0 < pl_woken p then Some (lock_wake p) else None)"
| "pool_step place (P_move s) p =
     (if s \<in> set (pl_live p) then Some ((lock_wait False p)\<lparr>pl_moves := pl_moves p + 1\<rparr>) else None)"
| "pool_step place P_made p =
     (if 0 < pl_pending p then Some (p\<lparr>pl_pending := pl_pending p - 1, pl_live := pl_next p # pl_live p, pl_next := pl_next p + 1\<rparr>) else None)"
| "pool_step place P_throw p =
     (if 0 < pl_pending p then Some (p\<lparr>pl_pending := pl_pending p - 1, pl_lost := pl_lost p + 1\<rparr>) else None)"
| "pool_step place (P_reuse s e) p = (if s \<in> set (pl_live p) then Some (reuse s e p) else None)"
| "pool_step place (P_hand t) p = (if t \<in> set (pl_taken p) then Some (async_reuse t p) else None)"
| "pool_step place (P_read obj) p = (if obj \<in> set (pl_objects p) then Some (on_keep_alive obj p) else None)"
| "pool_step place (P_drop keep_alive s e) p = (if s \<in> set (pl_live p) then Some (socket_deleter place keep_alive s e p) else None)"
| "pool_step place P_release p = (if 0 < pl_closing p then Some (release p) else None)"

inductive pool_run :: "('e \<Rightarrow> (nat \<times> 'e) list \<Rightarrow> nat) \<Rightarrow> 'e pool \<Rightarrow> 'e pool \<Rightarrow> bool" for place where
  pool_start: "pool_run place p p"
| pool_next: "pool_run place p p' \<Longrightarrow> pool_step place ev p' = Some p'' \<Longrightarrow> pool_run place p p''"

inductive_simps pool_run_from [simp]: "pool_run place p p"

section \<open>Places\<close>

definition before_equal :: "'e \<Rightarrow> (nat \<times> 'e) list \<Rightarrow> nat" where
  "before_equal e m = (let i = length (takeWhile (\<lambda>x. snd x \<noteq> e) m) in if i = length m then 0 else i)"

lemma takeWhile_length: "length (takeWhile P xs) = length xs \<longleftrightarrow> (\<forall>x \<in> set xs. P x)"
  by (induction xs) auto

lemma grouped_front: "grouped m \<Longrightarrow> \<forall>x \<in> set m. snd x \<noteq> e \<Longrightarrow> grouped ((s, e) # m)"
  by (auto dest: set_dropWhileD)

lemma group_kept:
  "c \<noteq> e \<Longrightarrow> c \<notin> snd ` set (dropWhile (\<lambda>y. snd y = c) m) \<Longrightarrow>
   c \<notin> snd ` set (dropWhile (\<lambda>y. snd y = c) (takeWhile (\<lambda>x. snd x \<noteq> e) m @ (s, e) # dropWhile (\<lambda>x. snd x \<noteq> e) m))"
proof (induction m)
  case (Cons y m)
  have "snd ` set (takeWhile P m @ (s, e) # dropWhile P m) \<subseteq> insert e (snd ` set m)" for P
    by (auto dest: set_takeWhileD set_dropWhileD)
  then show ?case using Cons by (cases "snd y = c") (auto dest: set_takeWhileD set_dropWhileD)
qed auto

lemma emplace_grouped: "grouped m \<Longrightarrow> \<exists>x \<in> set m. snd x = e \<Longrightarrow> grouped (takeWhile (\<lambda>x. snd x \<noteq> e) m @ (s, e) # dropWhile (\<lambda>x. snd x \<noteq> e) m)"
proof (induction m)
  case (Cons x m)
  show ?case
  proof (cases "snd x = e")
    case True
    then show ?thesis using Cons.prems(1) by auto
  next
    case False
    then have e: "\<exists>x \<in> set m. snd x = e" using Cons.prems(2) by auto
    note group_kept [of "snd x" e m s]
    then show ?thesis using False Cons.IH [OF _ e] Cons.prems(1) by simp
  qed
qed simp

interpretation before_equal: equal_places before_equal
proof
  fix m :: "(nat \<times> 'e) list" and s e
  assume g: "grouped m"
  show "grouped (keep_emplace before_equal s e m)"
  proof (cases "\<exists>x \<in> set m. snd x = e")
    case True
    then have "length (takeWhile (\<lambda>x. snd x \<noteq> e) m) \<noteq> length m" by (auto simp: takeWhile_length)
    then show ?thesis using emplace_grouped [OF g True, of s]
      by (simp add: keep_emplace_def before_equal_def Let_def takeWhile_eq_take [symmetric] dropWhile_eq_drop [symmetric])
  next
    case False
    then have "length (takeWhile (\<lambda>x. snd x \<noteq> e) m) = length m" by (auto simp: takeWhile_length)
    then show ?thesis using grouped_front [OF g, of e s] False by (auto simp: keep_emplace_def before_equal_def)
  qed
qed

section \<open>Erasing\<close>

lemma grouped_filter: "grouped m \<Longrightarrow> grouped (filter P m)"
proof (induction m)
  case (Cons x m)
  have "c \<notin> snd ` set (dropWhile (\<lambda>y. snd y = c) m) \<Longrightarrow> c \<notin> snd ` set (dropWhile (\<lambda>y. snd y = c) (filter P m))" for c
  proof (induction m)
    case (Cons y m)
    have "snd ` set (dropWhile Q (filter P m)) \<subseteq> snd ` set m" for Q by (auto dest!: set_dropWhileD)
    then show ?case using Cons by (cases "snd y = c") auto
  qed simp
  then show ?case using Cons by simp
qed simp

lemma grouped_end: "grouped m \<Longrightarrow> e \<notin> snd ` set (dropWhile (\<lambda>x. snd x = e) (dropWhile (\<lambda>x. snd x \<noteq> e) m))"
  by (induction m) auto

lemma erase_loop_group:
  "e \<notin> snd ` set (dropWhile (\<lambda>x. snd x = e) m) \<Longrightarrow> distinct (map fst m) \<Longrightarrow> \<forall>x \<in> set m. fst x = s \<longrightarrow> snd x = e \<Longrightarrow>
   erase_loop s e m = filter (\<lambda>x. fst x \<noteq> s) m"
proof (induction m)
  case (Cons x m)
  show ?case
  proof (cases "fst x = s \<or> snd x \<noteq> e")
    case True
    then have "filter (\<lambda>x. fst x \<noteq> s) m = m" using Cons.prems by (auto simp: filter_id_conv image_iff)
    then show ?thesis using True Cons.prems(3) by auto
  next
    case False
    then show ?thesis using Cons by auto
  qed
qed simp

lemma keep_erase_group:
  assumes "grouped m" "distinct (map fst m)" "\<forall>x \<in> set m. fst x = s \<longrightarrow> snd x = e"
  shows "keep_erase s e m = filter (\<lambda>x. fst x \<noteq> s) m"
proof -
  let ?a = "takeWhile (\<lambda>x. snd x \<noteq> e) m" and ?b = "dropWhile (\<lambda>x. snd x \<noteq> e) m"
  have "distinct (map fst (?a @ ?b))" using assms(2) by (simp only: takeWhile_dropWhile_id)
  then have "distinct (map fst ?b)" by (simp only: map_append distinct_append)
  moreover have "\<forall>x \<in> set ?b. fst x = s \<longrightarrow> snd x = e" using assms(3) set_dropWhileD by metis
  ultimately have b: "erase_loop s e ?b = filter (\<lambda>x. fst x \<noteq> s) ?b" using erase_loop_group [OF grouped_end [OF assms(1)]] by blast
  have "filter (\<lambda>x. fst x \<noteq> s) ?a = ?a" by (rule filter_True) (use assms(3) set_takeWhileD in fastforce)
  then have "filter (\<lambda>x. fst x \<noteq> s) (?a @ ?b) = ?a @ filter (\<lambda>x. fst x \<noteq> s) ?b" by (simp only: filter_append)
  then show ?thesis by (simp only: keep_erase_def b takeWhile_dropWhile_id)
qed

lemma keep_reuse_group:
  assumes "distinct (map fst m)" "keep_reuse e m = Some (k, m')"
  shows "m' = filter (\<lambda>x. fst x \<noteq> k) m" "(k, e) \<in> set m"
proof -
  let ?a = "takeWhile (\<lambda>x. snd x \<noteq> e) m" and ?b = "dropWhile (\<lambda>x. snd x \<noteq> e) m"
  obtain x r where x: "?b = x # r" "k = fst x" "m' = ?a @ r" using assms(2) by (auto simp: keep_reuse_def split: list.splits)
  have m: "m = ?a @ x # r" using x(1) takeWhile_dropWhile_id [of "\<lambda>x. snd x \<noteq> e" m] by simp
  then have "distinct (map fst (?a @ x # r))" using assms(1) by simp
  then have "k \<notin> fst ` set ?a" "k \<notin> fst ` set r" using x(2) by (auto simp: distinct_map)
  then have "filter (\<lambda>x. fst x \<noteq> k) ?a = ?a" "filter (\<lambda>x. fst x \<noteq> k) r = r" by (auto intro!: filter_True)
  then have "filter (\<lambda>x. fst x \<noteq> k) (?a @ x # r) = ?a @ r" using x(2) by simp
  then show "m' = filter (\<lambda>x. fst x \<noteq> k) m" using m x(3) by simp
  have "snd x = e" using x(1) hd_dropWhile [of "\<lambda>x. snd x \<noteq> e" m] by auto
  moreover have "x \<in> set m" by (subst m) simp
  ultimately show "(k, e) \<in> set m" using x(2) by auto
qed

section \<open>Invariants\<close>

definition accounts :: "'e pool \<Rightarrow> bool" where
  "accounts p \<longleftrightarrow> pl_count p = pl_pending p + length (pl_live p) + pl_closing p + pl_lost p
     \<and> length (pl_live p) + length (pl_keep p) + pl_pending p + pl_lost p \<le> pl_max p + pl_moves p"

lemma length_keep:
  "length (keep_emplace place s e m) = Suc (length m)" "keep_reuse e m = Some (k, m') \<Longrightarrow> length m = Suc (length m')"
  "length (keep_erase s e m) \<le> length m"
proof -
  show "length (keep_emplace place s e m) = Suc (length m)" by (simp add: keep_emplace_def)
  have "length (erase_loop s e x) \<le> length x" for x by (induction x) auto
  then have "length (keep_erase s e m) \<le> length (takeWhile (\<lambda>x. snd x \<noteq> e) m) + length (dropWhile (\<lambda>x. snd x \<noteq> e) m)" by (simp add: keep_erase_def)
  then show "length (keep_erase s e m) \<le> length m" by (metis length_append takeWhile_dropWhile_id)
  assume "keep_reuse e m = Some (k, m')"
  then obtain x r where x: "dropWhile (\<lambda>x. snd x \<noteq> e) m = x # r" "m' = takeWhile (\<lambda>x. snd x \<noteq> e) m @ r" by (auto simp: keep_reuse_def split: list.splits)
  then show "length m = Suc (length m')" using arg_cong [OF takeWhile_dropWhile_id [of "\<lambda>x. snd x \<noteq> e" m], of length] by simp
qed

lemma notify_one_simps [simp]:
  "pl_max (notify_one p) = pl_max p" "pl_count (notify_one p) = pl_count p" "pl_keep (notify_one p) = pl_keep p" "pl_next (notify_one p) = pl_next p"
  "pl_live (notify_one p) = pl_live p" "pl_objects (notify_one p) = pl_objects p" "pl_taken (notify_one p) = pl_taken p"
  "pl_pending (notify_one p) = pl_pending p" "pl_closing (notify_one p) = pl_closing p" "pl_lost (notify_one p) = pl_lost p"
  "pl_moves (notify_one p) = pl_moves p"
  by (simp_all add: notify_one_def)

lemma erase_kept_simps [simp]:
  "pl_max (erase_kept s e p) = pl_max p" "pl_count (erase_kept s e p) = pl_count p" "pl_keep (erase_kept s e p) = keep_erase s e (pl_keep p)"
  "pl_next (erase_kept s e p) = pl_next p" "pl_live (erase_kept s e p) = pl_live p" "pl_objects (erase_kept s e p) = pl_objects p"
  "pl_taken (erase_kept s e p) = pl_taken p" "pl_pending (erase_kept s e p) = pl_pending p" "pl_closing (erase_kept s e p) = pl_closing p"
  "pl_lost (erase_kept s e p) = pl_lost p" "pl_moves (erase_kept s e p) = pl_moves p"
  by (simp_all add: erase_kept_def Let_def)

lemma accounts_step: "accounts p \<Longrightarrow> pool_step place ev p = Some p' \<Longrightarrow> accounts p'"
proof (cases ev)
  case (P_reuse s e)
  assume "accounts p" "pool_step place ev p = Some p'"
  then show ?thesis using P_reuse
    by (cases "keep_reuse e (pl_keep p)") (auto simp: accounts_def reuse_def dest: length_keep(2) split: if_splits)
next
  case (P_read obj)
  assume "accounts p" "pool_step place ev p = Some p'"
  then show ?thesis using P_read length_keep(3) [of "fst obj" "fst (snd obj)" "pl_keep p"]
    by (auto simp: accounts_def on_keep_alive_def Let_def split: if_splits option.splits)
next
  case (P_drop ka s e)
  assume a: "accounts p" "pool_step place ev p = Some p'"
  then have "s \<in> set (pl_live p)" using P_drop by (simp split: if_splits)
  then have "length (pl_live p) = Suc (length (remove1 s (pl_live p)))" by (simp add: length_remove1) (metis Suc_pred length_pos_if_in_set)
  then show ?thesis using P_drop a by (auto simp: accounts_def length_keep socket_deleter_def collect_def Let_def split: if_splits)
qed (auto simp: accounts_def lock_wait_def lock_wake_def lock_free_def release_def async_reuse_def Let_def split: if_splits)

lemma pool_run_induct [consumes 1, case_names start step]:
  "pool_run place p p' \<Longrightarrow> P p \<Longrightarrow> (\<And>p1 ev p2. P p1 \<Longrightarrow> pool_step place ev p1 = Some p2 \<Longrightarrow> P p2) \<Longrightarrow> P p'"
  by (induction rule: pool_run.induct) blast+

lemma accounts_run: "http_client n = Some p0 \<Longrightarrow> pool_run place p0 p \<Longrightarrow> accounts p"
  by (rotate_tac, induction rule: pool_run_induct) (auto simp: http_client_def accounts_def [of p0] split: if_splits intro: accounts_step)

text \<open>The sockets that are kept wait for a read and have no taker; no socket has two roles.\<close>

abbreviation waiting :: "nat \<times> 'e \<Rightarrow> nat \<times> 'e \<times> nat option" where
  "waiting x \<equiv> (fst x, snd x, None)"

definition kept_at :: "(nat \<times> 'e) list \<Rightarrow> (nat \<times> 'e \<times> nat option) list \<Rightarrow> nat list \<Rightarrow> (nat \<times> nat) list \<Rightarrow> nat \<Rightarrow> bool" where
  "kept_at m os l t n \<longleftrightarrow> grouped m \<and> distinct (map fst m) \<and> waiting ` set m \<subseteq> set os \<and> distinct (map fst os) \<and> distinct l
     \<and> set l \<inter> fst ` set os = {} \<and> fst ` set t \<inter> (fst ` set m \<union> set l) = {} \<and> fst ` set t \<union> set l \<union> fst ` set os \<subseteq> {..<n}"

abbreviation kept :: "'e pool \<Rightarrow> bool" where
  "kept p \<equiv> kept_at (pl_keep p) (pl_objects p) (pl_live p) (pl_taken p) (pl_next p)"

lemma kept_atD:
  assumes "kept_at m os l t n"
  shows "grouped m" "distinct (map fst m)" "waiting ` set m \<subseteq> set os" "distinct (map fst os)" "distinct l" "set l \<inter> fst ` set os = {}"
    "fst ` set t \<inter> (fst ` set m \<union> set l) = {}" "fst ` set t \<union> set l \<union> fst ` set os \<subseteq> {..<n}"
  using assms by (simp_all only: kept_at_def simp_thms)

lemma disjoint_less: "A \<inter> B = {} \<Longrightarrow> A' \<subseteq> A \<Longrightarrow> B' \<subseteq> B \<Longrightarrow> A' \<inter> B' = {}"
  by blast

lemma disjoint_differ: "A \<inter> (B \<union> C) = {} \<Longrightarrow> x \<in> A \<Longrightarrow> y \<in> B \<Longrightarrow> y \<noteq> x"
  by blast

lemma kept_less:
  assumes "kept_at m os l t n" "grouped m'" "distinct (map fst m')" "set m' \<subseteq> set m" "waiting ` set m' \<subseteq> set os'" "distinct (map fst os')"
    "fst ` set os' \<subseteq> fst ` set os" "distinct l'" "set l' \<subseteq> set l" "set t' \<subseteq> set t"
  shows "kept_at m' os' l' t' n"
proof -
  note d = kept_atD [OF assms(1)]
  have s: "fst ` set t' \<subseteq> fst ` set t" "fst ` set m' \<subseteq> fst ` set m" using assms(4,10) by (simp_all add: image_mono)
  have "set l' \<inter> fst ` set os' = {}" by (rule disjoint_less [OF d(6) assms(9,7)])
  moreover have "fst ` set t' \<inter> (fst ` set m' \<union> set l') = {}" by (rule disjoint_less [OF d(7) s(1) Un_mono [OF s(2) assms(9)]])
  moreover have "fst ` set t' \<union> set l' \<union> fst ` set os' \<subseteq> {..<n}" by (rule order_trans [OF Un_mono [OF Un_mono [OF s(1) assms(9)] assms(7)] d(8)])
  ultimately show ?thesis unfolding kept_at_def using assms(2,3,5,6,8) by (intro conjI)
qed

lemma kept_object: "kept_at m os l t n \<Longrightarrow> (k, e, r) \<in> set os \<Longrightarrow> (k, e', r') \<in> set os \<Longrightarrow> e = e' \<and> r = r'"
proof -
  assume a: "kept_at m os l t n" "(k, e, r) \<in> set os" "(k, e', r') \<in> set os"
  from eq_key_imp_eq_value [OF kept_atD(4) [OF a(1)] a(2,3)] show ?thesis by simp
qed

lemma kept_erase:
  assumes "kept_at m os l t n" "(k, e, None) \<in> set os"
  shows "keep_erase k e m = filter (\<lambda>x. fst x \<noteq> k) m"
proof (rule keep_erase_group [OF kept_atD(1,2) [OF assms(1)]], intro ballI impI)
  fix x assume "x \<in> set m" "fst x = k"
  then have "(k, snd x, None) \<in> set os" using kept_atD(3) [OF assms(1)] by auto
  then show "snd x = e" using kept_object [OF assms(1,2)] by blast
qed

lemma kept_remove_object:
  assumes "kept_at m os l t n" "obj \<in> set os" "fst obj \<notin> fst ` set m"
  shows "kept_at m (remove1 obj os) l t n"
proof -
  note d = kept_atD [OF assms(1)]
  have o: "distinct os" using d(4) by (simp add: distinct_map)
  then have m: "set (remove1 obj os) = set os - {obj}" by simp
  have "distinct (map fst (remove1 obj os))" using o d(4) by (auto simp: distinct_map intro: inj_on_subset)
  moreover have "waiting ` set m \<subseteq> set (remove1 obj os)"
  proof
    fix y assume "y \<in> waiting ` set m"
    then obtain x where x: "x \<in> set m" "y = waiting x" by blast
    then have "fst y \<in> fst ` set m" by simp
    then have "y \<noteq> obj" using assms(3) by blast
    then show "y \<in> set (remove1 obj os)" using d(3) x unfolding m by auto
  qed
  moreover have "fst ` set (remove1 obj os) \<subseteq> fst ` set os" unfolding m by blast
  ultimately show ?thesis using kept_less [OF assms(1) d(1,2) subset_refl _ _ _ d(5) subset_refl subset_refl] by simp
qed

lemma kept_filter:
  assumes "kept_at m os l t n"
  shows "kept_at (filter P m) os l t n"
proof -
  note d = kept_atD [OF assms]
  have "waiting ` set (filter P m) \<subseteq> set os" using d(3) by auto
  then show ?thesis using kept_less [OF assms grouped_filter [OF d(1)] distinct_map_filter [OF d(2)] filter_is_subset _ d(4) subset_refl d(5) subset_refl subset_refl] by simp
qed

lemma kept_hand:
  assumes "kept p" "t \<in> set (pl_taken p)"
  shows "kept (async_reuse t p)"
proof -
  note d = kept_atD [OF assms(1)]
  show ?thesis
  proof (cases "fst t \<in> fst ` set (pl_objects p)")
    case True
    let ?f = "\<lambda>(k, e, r). if k = fst t then (k, e, Some (snd t)) else (k, e, r)"
    have f: "fst (?f x) = fst x" for x by (simp split: prod.splits)
    have m: "map fst (map ?f (pl_objects p)) = map fst (pl_objects p)" unfolding map_map by (rule map_cong) (simp_all only: comp_apply f)
    have w: "waiting x \<in> set (map ?f (pl_objects p))" if x: "x \<in> set (pl_keep p)" for x
    proof -
      have o: "waiting x \<in> set (pl_objects p)" by (rule subsetD [OF d(3) imageI [OF x]])
      have "fst x \<noteq> fst t" by (rule disjoint_differ [OF d(7) imageI [OF assms(2)] imageI [OF x]])
      then have e: "?f (waiting x) = waiting x" by simp
      show ?thesis using imageI [OF o, of ?f] unfolding e set_map .
    qed
    have "kept_at (pl_keep p) (map ?f (pl_objects p)) (pl_live p) (remove1 t (pl_taken p)) (pl_next p)"
    proof (rule kept_less [OF assms(1) d(1,2) subset_refl _ _ _ d(5) subset_refl set_remove1_subset])
      show "distinct (map fst (map ?f (pl_objects p)))" unfolding m by (rule d(4))
      show "fst ` set (map ?f (pl_objects p)) \<subseteq> fst ` set (pl_objects p)" using m by (metis set_map subset_refl)
      show "waiting ` set (pl_keep p) \<subseteq> set (map ?f (pl_objects p))" using w by blast
    qed
    then show ?thesis using True by (simp add: async_reuse_def)
  next
    case False
    have "kept_at (pl_keep p) (pl_objects p) (pl_live p) (remove1 t (pl_taken p)) (pl_next p)"
      using kept_less [OF assms(1) d(1,2) subset_refl d(3,4) subset_refl d(5) subset_refl set_remove1_subset] .
    then show ?thesis using False by (simp add: async_reuse_def)
  qed
qed

lemma keep_emplace_set: "set (keep_emplace place s e m) = insert (s, e) (set m)"
proof -
  have "set (take n m) \<union> set (drop n m) = set m" for n by (metis append_take_drop_id set_append)
  then show ?thesis by (auto simp: keep_emplace_def)
qed

lemma keep_emplace_distinct:
  fixes m :: "(nat \<times> 'a) list"
  shows "distinct (map fst m) \<Longrightarrow> s \<notin> fst ` set m \<Longrightarrow> distinct (map fst (keep_emplace place s e m))"
proof -
  have "distinct (map fst (xs @ ys)) \<Longrightarrow> s \<notin> fst ` set (xs @ ys) \<Longrightarrow> distinct (map fst (xs @ (s, e) # ys))" for xs ys :: "(nat \<times> 'a) list" by auto
  from this [of "take (place e m) m" "drop (place e m) m", unfolded append_take_drop_id]
  show "distinct (map fst m) \<Longrightarrow> s \<notin> fst ` set m \<Longrightarrow> distinct (map fst (keep_emplace place s e m))" unfolding keep_emplace_def .
qed

context equal_places
begin

lemma kept_collect:
  assumes "kept p" "s \<in> set (pl_live p)"
  shows "kept (socket_deleter place ka s e p)"
proof -
  note d = kept_atD [OF assms(1)]
  have k: "kept_at (pl_keep p) (pl_objects p) (remove1 s (pl_live p)) (pl_taken p) (pl_next p)"
    using kept_less [OF assms(1) d(1,2) subset_refl d(3,4) subset_refl distinct_remove1 [OF d(5)] set_remove1_subset subset_refl] .
  show ?thesis
  proof (cases ka)
    case False
    then show ?thesis using k by (simp add: socket_deleter_def)
  next
    case True
    note d' = kept_atD [OF k]
    have "s \<notin> set (remove1 s (pl_live p))" using d(5) by simp
    moreover have s: "s \<notin> fst ` set (pl_objects p)" "s \<notin> fst ` set (pl_taken p)" "s < pl_next p" using assms(2) d(6,7,8) by blast+
    moreover have "s \<notin> fst ` set (pl_keep p)" using s(1) d(3) by (metis (no_types, lifting) fst_conv image_iff subsetD)
    moreover have "grouped (keep_emplace place s e (pl_keep p))" by (rule grouped_emplace [OF d(1)])
    ultimately have "kept_at (keep_emplace place s e (pl_keep p)) ((s, e, None) # pl_objects p) (remove1 s (pl_live p)) (pl_taken p) (pl_next p)"
      using d' keep_emplace_distinct [OF d(2), of s place e] unfolding kept_at_def keep_emplace_set by auto
    then show ?thesis using True by (simp add: socket_deleter_def collect_def)
  qed
qed

lemma kept_step:
  assumes "kept p" "pool_step place ev p = Some p'"
  shows "kept p'"
proof (cases ev)
  case (P_reuse s e)
  then have p': "p' = reuse s e p" using assms(2) by (simp split: if_splits)
  note d = kept_atD [OF assms(1)]
  show ?thesis
  proof (cases "keep_reuse e (pl_keep p)")
    case None
    then show ?thesis using assms(1) p' by (simp add: reuse_def)
  next
    case (Some km)
    then obtain k m where km: "keep_reuse e (pl_keep p) = Some (k, m)" by (cases km) simp
    have g: "m = filter (\<lambda>x. fst x \<noteq> k) (pl_keep p)" "(k, e) \<in> set (pl_keep p)" using keep_reuse_group [OF d(2) km] .
    then have "(k, e, None) \<in> set (pl_objects p)" using d(3) by auto
    then have "k \<in> fst ` set (pl_objects p)" by force
    then have "k < pl_next p" "k \<notin> set (pl_live p)" using d(6,8) by blast+
    then have "kept_at m (pl_objects p) (pl_live p) ((k, s) # pl_taken p) (pl_next p)"
      using kept_filter [OF assms(1), of "\<lambda>x. fst x \<noteq> k"] unfolding g(1) kept_at_def by auto
    then show ?thesis by (simp add: p' reuse_def km)
  qed
next
  case (P_hand t)
  then have "t \<in> set (pl_taken p)" "p' = async_reuse t p" using assms(2) by (simp_all split: if_splits)
  then show ?thesis using kept_hand [OF assms(1)] by simp
next
  case (P_read obj)
  obtain k e r where obj: "obj = (k, e, r)" by (cases obj)
  have o: "(k, e, r) \<in> set (pl_objects p)" and p': "p' = on_keep_alive (k, e, r) p" using assms(2) P_read obj by (auto split: if_splits)
  show ?thesis
  proof (cases r)
    case None
    have "fst obj \<notin> fst ` set (filter (\<lambda>x. fst x \<noteq> k) (pl_keep p))" by (auto simp: obj)
    from kept_remove_object [OF kept_filter [OF assms(1)] _ this] show ?thesis
      using o None kept_erase [OF assms(1)] by (simp add: obj p' on_keep_alive_def)
  next
    case (Some s)
    have "fst obj \<notin> fst ` set (pl_keep p)"
    proof
      assume "fst obj \<in> fst ` set (pl_keep p)"
      then obtain e' where "(k, e', None) \<in> set (pl_objects p)" using kept_atD(3) [OF assms(1)] by (auto simp: obj)
      then show False using kept_object [OF assms(1) o] Some by blast
    qed
    then show ?thesis using kept_remove_object [OF assms(1)] o Some by (simp add: obj p' on_keep_alive_def)
  qed
next
  case (P_drop ka s e)
  then have "s \<in> set (pl_live p)" "p' = socket_deleter place ka s e p" using assms(2) by (simp_all split: if_splits)
  then show ?thesis using kept_collect [OF assms(1)] by simp
next
  case P_made
  have "kept_at (pl_keep p) (pl_objects p) (pl_next p # pl_live p) (pl_taken p) (Suc (pl_next p))"
    using assms(1) unfolding kept_at_def by auto
  then show ?thesis using assms(2) P_made by (auto split: if_splits)
qed (use assms in \<open>auto simp: lock_wait_def lock_wake_def release_def split: if_splits\<close>)

lemma kept_run: "http_client n = Some p0 \<Longrightarrow> pool_run place p0 p \<Longrightarrow> kept p"
  by (rotate_tac, induction rule: pool_run_induct) (auto simp: http_client_def kept_at_def [of "[]"] split: if_splits intro: kept_step)

end

section \<open>Runs\<close>

lemma pool_run_trans: "pool_run place p1 p2 \<Longrightarrow> pool_run place p0 p1 \<Longrightarrow> pool_run place p0 p2"
  by (induction rule: pool_run.induct) (auto intro: pool_next)

lemma pool_run_one: "pool_step place ev p = Some p' \<Longrightarrow> pool_run place p p'"
  using pool_next [OF pool_start] .

lemma pool_run_max: "pool_run place p p' \<Longrightarrow> pl_max p' = pl_max p \<and> pl_lost p \<le> pl_lost p'"
proof (induction rule: pool_run.induct)
  case (pool_next p p' ev p'')
  then show ?case
    by (cases ev) (auto simp: lock_wait_def lock_wake_def reuse_def async_reuse_def on_keep_alive_def socket_deleter_def collect_def release_def Let_def
      split: if_splits option.splits)
qed simp

text \<open>
  What is left to do when no call, move or exception comes any more: every caller gets its socket and every socket
  goes; a wake-up costs more than going to sleep again.
\<close>

definition effort :: "'e pool \<Rightarrow> nat" where
  "effort p = 9 * pl_woken p + 8 * pl_sleeping p + 8 * pl_pending p + 7 * length (pl_live p) + 2 * pl_closing p
     + 2 * length (pl_objects p) + 2 * length (pl_keep p) + length (pl_taken p)"

fun finishing :: "'e pool_event \<Rightarrow> bool" where
  "finishing P_wake = True"
| "finishing P_made = True"
| "finishing (P_drop keep_alive s e) = True"
| "finishing P_release = True"
| "finishing (P_read obj) = True"
| "finishing (P_hand t) = True"
| "finishing _ = False"

lemma notify_one_effort: "effort (notify_one p) \<le> Suc (effort p)"
  by (auto simp: effort_def notify_one_def)

lemma remove1_shorter: "x \<in> set xs \<Longrightarrow> length xs = Suc (length (remove1 x xs))"
  by (simp add: length_remove1) (metis Suc_pred length_pos_if_in_set)

lemma erase_kept_effort: "effort (erase_kept s e p) \<le> Suc (effort p)"
proof -
  have "effort (p\<lparr>pl_keep := keep_erase s e (pl_keep p)\<rparr>) \<le> effort p" using length_keep(3) [of s e "pl_keep p"] by (simp add: effort_def)
  then show ?thesis using notify_one_effort [of "p\<lparr>pl_keep := keep_erase s e (pl_keep p)\<rparr>"] by (auto simp: erase_kept_def Let_def)
qed

lemma finishing_effort: "finishing ev \<Longrightarrow> pool_step place ev p = Some p' \<Longrightarrow> effort p' < effort p"
proof (cases ev)
  case P_release
  assume "finishing ev" "pool_step place ev p = Some p'"
  then have "0 < pl_closing p" "p' = release p" using P_release by (simp_all split: if_splits)
  then show ?thesis using notify_one_effort [of "p\<lparr>pl_count := pl_count p - 1, pl_closing := pl_closing p - 1\<rparr>"]
    by (simp add: release_def) (simp add: effort_def)
next
  case (P_read obj)
  assume "finishing ev" "pool_step place ev p = Some p'"
  then have o: "obj \<in> set (pl_objects p)" "p' = on_keep_alive obj p" using P_read by (simp_all split: if_splits)
  let ?p = "p\<lparr>pl_objects := remove1 obj (pl_objects p)\<rparr>"
  have "Suc (effort ?p) < effort p" using remove1_shorter [OF o(1)] by (simp add: effort_def)
  then show ?thesis using o(2) erase_kept_effort [of "fst obj" "fst (snd obj)" ?p] by (auto simp: on_keep_alive_def Let_def split: option.split)
next
  case (P_drop ka s e)
  assume "finishing ev" "pool_step place ev p = Some p'"
  then have "s \<in> set (pl_live p)" "p' = socket_deleter place ka s e p" using P_drop by (simp_all split: if_splits)
  then show ?thesis using remove1_shorter [of s "pl_live p"] by (simp add: socket_deleter_def collect_def effort_def length_keep Let_def)
next
  case (P_hand t)
  assume "finishing ev" "pool_step place ev p = Some p'"
  then have "t \<in> set (pl_taken p)" "p' = async_reuse t p" using P_hand by (simp_all split: if_splits)
  then show ?thesis using remove1_shorter [of t "pl_taken p"] by (simp add: async_reuse_def effort_def Let_def)
next
  case P_wake
  assume "finishing ev" "pool_step place ev p = Some p'"
  then show ?thesis using P_wake by (auto simp: lock_wake_def lock_wait_def effort_def split: if_splits)
next
  case P_made
  assume "finishing ev" "pool_step place ev p = Some p'"
  then show ?thesis using P_made by (auto simp: effort_def split: if_splits)
qed simp_all

text \<open>As long as no call ended with an exception, a blocked caller has somebody who is going to notify.\<close>

definition awaited :: "'e pool \<Rightarrow> bool" where
  "awaited p \<longleftrightarrow> 0 < pl_max p \<and> (pl_lost p = 0 \<longrightarrow> 0 < pl_sleeping p \<longrightarrow>
     0 < pl_woken p \<or> 0 < pl_pending p \<or> pl_live p \<noteq> [] \<or> 0 < pl_closing p \<or> pl_keep p \<noteq> [])"

lemma awaited_wait: "accounts p \<Longrightarrow> 0 < pl_max p \<Longrightarrow> awaited (lock_wait b (p\<lparr>pl_woken := w\<rparr>))"
  by (auto simp: awaited_def lock_wait_def lock_free_def accounts_def)

lemma awaited_notify: "0 < pl_max p \<Longrightarrow> awaited (notify_one p)"
  by (simp add: awaited_def notify_one_def)

lemma awaited_step: "accounts p \<Longrightarrow> awaited p \<Longrightarrow> pool_step place ev p = Some p' \<Longrightarrow> awaited p'"
proof (cases ev)
  case P_connect
  assume "accounts p" "awaited p" "pool_step place ev p = Some p'"
  then show ?thesis using P_connect awaited_wait [of p True "pl_woken p"] by (auto simp: awaited_def [of p])
next
  case P_wake
  assume "accounts p" "awaited p" "pool_step place ev p = Some p'"
  then show ?thesis using P_wake awaited_wait [of p True "pl_woken p - 1"] by (auto simp: awaited_def [of p] lock_wake_def split: if_splits)
next
  case P_release
  assume "accounts p" "awaited p" "pool_step place ev p = Some p'"
  then show ?thesis using P_release awaited_notify [of "p\<lparr>pl_count := pl_count p - 1, pl_closing := pl_closing p - 1\<rparr>"]
    by (auto simp: awaited_def [of p] release_def split: if_splits)
next
  case (P_read obj)
  assume a: "accounts p" "awaited p" "pool_step place ev p = Some p'"
  let ?p = "p\<lparr>pl_objects := remove1 obj (pl_objects p)\<rparr>" and ?m = "keep_erase (fst obj) (fst (snd obj)) (pl_keep p)"
  have p': "p' = on_keep_alive obj p" using a(3) P_read by (simp split: if_splits)
  show ?thesis
  proof (cases "snd (snd obj) = None \<and> length ?m < length (pl_keep p)")
    case True
    then have "p' = notify_one (?p\<lparr>pl_keep := ?m\<rparr>)" by (simp add: p' on_keep_alive_def erase_kept_def Let_def)
    then show ?thesis using awaited_notify [of "?p\<lparr>pl_keep := ?m\<rparr>"] a(2) by (simp add: awaited_def [of p])
  next
    case False
    have "?m \<noteq> []" if "pl_keep p \<noteq> []" "snd (snd obj) = None" using False that length_keep(3) [of "fst obj" "fst (snd obj)" "pl_keep p"] by fastforce
    then show ?thesis using a(2) False by (auto simp: p' awaited_def on_keep_alive_def erase_kept_def Let_def split: option.splits)
  qed
next
  case (P_reuse s e)
  assume "accounts p" "awaited p" "pool_step place ev p = Some p'"
  then show ?thesis using P_reuse by (auto simp: awaited_def reuse_def split: if_splits option.splits)
qed (auto simp: awaited_def lock_wait_def async_reuse_def socket_deleter_def collect_def Let_def split: if_splits)

lemma awaited_run: "http_client n = Some p0 \<Longrightarrow> pool_run place p0 p \<Longrightarrow> awaited p"
proof -
  assume p0: "http_client n = Some p0" and r: "pool_run place p0 p"
  from r have "accounts p \<and> awaited p"
  proof (induction rule: pool_run_induct)
    case start
    then show ?case using accounts_run [OF p0 pool_start] p0 by (auto simp: http_client_def awaited_def split: if_splits)
  next
    case (step p1 ev p2)
    then show ?case using accounts_step awaited_step by blast
  qed
  then show ?thesis ..
qed

text \<open>So there is a step to do while a caller waits.\<close>

lemma pool_progress:
  assumes "kept p" "awaited p" "pl_lost p = 0" "0 < pl_sleeping p + pl_woken p"
  shows "\<exists>ev. finishing ev \<and> pool_step place ev p \<noteq> None"
proof -
  consider "0 < pl_woken p" | "0 < pl_pending p" | "pl_live p \<noteq> []" | "0 < pl_closing p" | "pl_keep p \<noteq> []"
    using assms(2-4) by (auto simp: awaited_def)
  then show ?thesis
  proof cases
    case 1
    then show ?thesis by (intro exI [of _ P_wake]) simp
  next
    case 2
    then show ?thesis by (intro exI [of _ P_made]) simp
  next
    case 3
    then obtain s l where "pl_live p = s # l" by (cases "pl_live p") auto
    then show ?thesis by (intro exI [of _ "P_drop False s undefined"]) simp
  next
    case 4
    then show ?thesis by (intro exI [of _ P_release]) simp
  next
    case 5
    then obtain x m where "pl_keep p = x # m" by (cases "pl_keep p") auto
    then have "waiting x \<in> set (pl_objects p)" using kept_atD(3) [OF assms(1)] by auto
    then show ?thesis by (intro exI [of _ "P_read (waiting x)"]) simp
  qed
qed

text \<open>Given steps in order.\<close>

fun pool_trace :: "('e \<Rightarrow> (nat \<times> 'e) list \<Rightarrow> nat) \<Rightarrow> 'e pool_event list \<Rightarrow> 'e pool \<Rightarrow> 'e pool option" where
  "pool_trace place [] p = Some p"
| "pool_trace place (ev # evs) p = Option.bind (pool_step place ev p) (pool_trace place evs)"

lemma pool_trace_run: "pool_trace place evs p = Some p' \<Longrightarrow> pool_run place p p'"
proof (induction evs arbitrary: p)
  case (Cons ev evs)
  then obtain p1 where "pool_step place ev p = Some p1" "pool_trace place evs p1 = Some p'" by (auto simp: bind_eq_Some_conv)
  then show ?case using Cons.IH pool_run_trans pool_run_one by metis
qed simp

lemma finishing_trace: "list_all finishing evs \<Longrightarrow> pool_trace place evs p = Some p' \<Longrightarrow> length evs + effort p' \<le> effort p \<and> pl_lost p' = pl_lost p"
proof (induction evs arbitrary: p)
  case (Cons ev evs)
  then obtain p1 where p1: "finishing ev" "pool_step place ev p = Some p1" "pool_trace place evs p1 = Some p'" by (auto simp: bind_eq_Some_conv)
  have "pl_lost p1 = pl_lost p" using p1(1,2)
    by (cases ev) (auto simp: lock_wake_def lock_wait_def async_reuse_def on_keep_alive_def socket_deleter_def collect_def release_def Let_def split: if_splits option.splits)
  then show ?case using Cons.IH [OF _ p1(3)] Cons.prems(1) finishing_effort [OF p1(1,2)] by auto
qed simp

section \<open>Properties\<close>

text \<open>
  (C25) In every interleaving \<open>count_\<close> counts the calls under way, the sockets in use, those that are being closed, and the
  calls that ended with an exception; the sockets in use and the kept ones stay within \<open>max_count\<close> but for one more for each
  move, which does not wait.
\<close>
theorem pool_accounts:
  assumes "http_client n = Some p0" "pool_run place p0 p"
  shows "pl_count p = pl_pending p + length (pl_live p) + pl_closing p + pl_lost p
    \<and> length (pl_live p) + length (pl_keep p) + pl_pending p + pl_lost p \<le> n + pl_moves p"
  using accounts_run [OF assms] pool_run_max [OF assms(2)] assms(1) by (auto simp: accounts_def http_client_def split: if_splits)

definition new_client :: "nat \<Rightarrow> nat pool" where
  "new_client n = (case http_client n of Some p \<Rightarrow> p)"

lemma pool_reached:
  "(case pool_trace place evs p of None \<Rightarrow> False | Some p' \<Rightarrow> P p') \<Longrightarrow> \<exists>p'. pool_run place p p' \<and> P p'"
  using pool_trace_run by (fastforce split: option.splits)

theorem pool_accounts_witness:
  "\<exists>p. pool_run before_equal (new_client 2) p \<and> pl_live p = [1] \<and> pl_keep p = [(0, 7)] \<and> pl_count p = pl_pending p + 1 + pl_closing p + pl_lost p"
proof -
  have c: "http_client 2 = Some (new_client 2)" by code_simp
  have "\<exists>p. pool_run before_equal (new_client 2) p \<and> pl_live p = [1] \<and> pl_keep p = [(0, 7)]"
    by (rule pool_reached [where evs = "[P_connect, P_made, P_drop True 0 7, P_release, P_connect, P_made]"]) code_simp
  then obtain p where p: "pool_run before_equal (new_client 2) p" "pl_live p = [1]" "pl_keep p = [(0, 7)]" by blast
  then show ?thesis using pool_accounts [OF c p(1)] by auto
qed

text \<open>
  The loop of \<open>erase\<close>, which looks only at the sockets with the same endpoint, removes exactly the socket of the handler, in
  every state that a client comes to and for every order of equal elements.
\<close>
theorem pool_erase:
  assumes "equal_places place" "http_client n = Some p0" "pool_run place p0 p" "(k, e, None) \<in> set (pl_objects p)"
  shows "keep_erase k e (pl_keep p) = filter (\<lambda>x. fst x \<noteq> k) (pl_keep p)"
  by (rule kept_erase [OF equal_places.kept_run [OF assms(1-3)] assms(4)])

theorem pool_erase_witness:
  "\<exists>p. pool_run before_equal (new_client 2) p \<and> pl_keep p = [(1, 7), (0, 7)] \<and> keep_erase 0 7 (pl_keep p) = [(1, 7)]"
proof -
  have c: "http_client 2 = Some (new_client 2)" by code_simp
  have "\<exists>p. pool_run before_equal (new_client 2) p \<and> pl_keep p = [(1, 7), (0, 7)] \<and> (0, 7, None) \<in> set (pl_objects p)"
    by (rule pool_reached [where evs = "[P_connect, P_made, P_connect, P_made, P_drop True 0 7, P_drop True 1 7]"]) code_simp
  then obtain p where p: "pool_run before_equal (new_client 2) p" "pl_keep p = [(1, 7), (0, 7)]" "(0, 7, None) \<in> set (pl_objects p)" by blast
  show ?thesis using pool_erase [OF before_equal.equal_places_axioms c p(1,3)] p by auto
qed

text \<open>
  (C26) No caller of \<open>connect\<close> waits for ever as long as no call ended with an exception: in every state that a client comes
  to, every order of the steps that are left when no further call comes (sockets are made, used and dropped, counts go
  down, servers close kept connections, notified callers go on) ends after at most \<open>effort\<close> steps, and when no such step
  is possible any more no caller is blocked on the condition variable or notified: each of them was woken and has got its place.
\<close>
theorem pool_available:
  assumes "equal_places place" "http_client n = Some p0" "pool_run place p0 p" "pl_lost p = 0"
    and "list_all finishing evs" "pool_trace place evs p = Some p'"
  shows "length evs \<le> effort p
    \<and> ((\<forall>ev. finishing ev \<longrightarrow> pool_step place ev p' = None) \<longrightarrow> pl_sleeping p' = 0 \<and> pl_woken p' = 0)"
proof -
  have r: "pool_run place p0 p'" by (rule pool_run_trans [OF pool_trace_run [OF assms(6)] assms(3)])
  have f: "length evs + effort p' \<le> effort p" "pl_lost p' = 0" using finishing_trace [OF assms(5,6)] assms(4) by simp_all
  have "kept p'" "awaited p'" using equal_places.kept_run [OF assms(1,2) r] awaited_run [OF assms(2) r] by auto
  then have "0 < pl_sleeping p' + pl_woken p' \<Longrightarrow> \<exists>ev. finishing ev \<and> pool_step place ev p' \<noteq> None" using f(2) by (rule pool_progress)
  then have "pl_sleeping p' + pl_woken p' = 0" if "\<forall>ev. finishing ev \<longrightarrow> pool_step place ev p' = None"
    using that by (cases "pl_sleeping p' + pl_woken p'") auto
  then show ?thesis using f(1) by simp
qed

text \<open>
  A client for one socket: a caller waits, the socket is closed, the caller is woken and gets the place; the
  steps are then made until nothing is left to do.
\<close>

theorem pool_available_witness:
  "\<exists>p p'. pool_run before_equal (new_client 1) p \<and> pl_sleeping p = 1
    \<and> pool_trace before_equal [P_drop False 0 7, P_release, P_wake, P_made, P_drop False 1 7, P_release] p = Some p' \<and> 6 \<le> effort p \<and> pl_sleeping p' = 0"
proof -
  have c: "http_client 1 = Some (new_client 1)" by code_simp
  let ?evs = "[P_drop False 0 7, P_release, P_wake, P_made, P_drop False 1 7, P_release] :: nat pool_event list"
  have "\<exists>p. pool_run before_equal (new_client 1) p \<and> pl_sleeping p = 1 \<and> pl_lost p = 0 \<and> (case pool_trace before_equal ?evs p of
      None \<Rightarrow> False | Some p' \<Rightarrow> pl_woken p' = 0 \<and> pl_pending p' = 0 \<and> pl_live p' = [] \<and> pl_closing p' = 0 \<and> pl_objects p' = [] \<and> pl_taken p' = [])"
    by (rule pool_reached [where evs = "[P_connect, P_made, P_connect]"]) code_simp
  then obtain p where a: "pool_run before_equal (new_client 1) p" "pl_sleeping p = 1" "pl_lost p = 0"
      "case pool_trace before_equal ?evs p of None \<Rightarrow> False
        | Some p' \<Rightarrow> pl_woken p' = 0 \<and> pl_pending p' = 0 \<and> pl_live p' = [] \<and> pl_closing p' = 0 \<and> pl_objects p' = [] \<and> pl_taken p' = []" by blast
  then obtain p' where "pool_trace before_equal ?evs p = Some p'"
      "pl_woken p' = 0 \<and> pl_pending p' = 0 \<and> pl_live p' = [] \<and> pl_closing p' = 0 \<and> pl_objects p' = [] \<and> pl_taken p' = []"
    by (cases "pool_trace before_equal ?evs p") (simp_all del: pool_trace.simps)
  note p = a(1-3) this
  have q: "\<forall>ev. finishing ev \<longrightarrow> pool_step before_equal ev p' = None"
  proof (intro allI impI)
    fix ev :: "nat pool_event"
    assume "finishing ev"
    then show "pool_step before_equal ev p' = None" using p(5-) by (cases ev) simp_all
  qed
  have "list_all finishing ?evs" by simp
  note avail = pool_available [OF before_equal.equal_places_axioms c p(1,3) this p(4)]
  have "pl_sleeping p' = 0" by (rule conjunct1 [OF mp [OF conjunct2 [OF avail] q]])
  moreover have "6 \<le> effort p" using conjunct1 [OF avail] by simp
  ultimately show ?thesis using p(1,2,4) by blast
qed

text \<open>
  A lost wake-up: \<open>reuse\<close> frees a place without a notification. When a call ends with an exception after that, a caller can
  stay blocked although there is room, and nothing that is left to happen wakes it.
\<close>
theorem pool_lost_wakeup:
  "\<exists>p. pool_run before_equal (new_client 2) p \<and> pl_sleeping p = 1 \<and> lock_free p \<and> (\<forall>ev. finishing ev \<longrightarrow> pool_step before_equal ev p = None)"
proof -
  have "\<exists>p. pool_run before_equal (new_client 2) p \<and> pl_sleeping p = 1 \<and> lock_free p \<and> pl_woken p = 0 \<and> pl_pending p = 0 \<and> pl_live p = []
      \<and> pl_closing p = 0 \<and> pl_objects p = [] \<and> pl_taken p = []"
    by (rule pool_reached [where evs = "[P_connect, P_made, P_drop True 0 7, P_release, P_connect, P_made, P_connect, P_connect, P_reuse 1 7, P_hand (0, 1),
        P_read (0, 7, Some 1), P_drop False 1 7, P_release, P_wake, P_throw]"]) code_simp
  then obtain p where p: "pool_run before_equal (new_client 2) p" "pl_sleeping p = 1" "lock_free p" "pl_woken p = 0" "pl_pending p = 0" "pl_live p = []"
      "pl_closing p = 0" "pl_objects p = []" "pl_taken p = []" by blast
  have "finishing ev \<Longrightarrow> pool_step before_equal ev p = None" for ev using p(4-) by (cases ev) simp_all
  then show ?thesis using p(1-3) by blast
qed

text \<open>
  Each call that ends with an exception (an address that does not resolve, \<open>https\<close> without a context) costs a place for ever:
  after \<open>max_count\<close> of them the client has no socket, and every later call of \<open>connect\<close> waits for ever.
\<close>
theorem pool_leak:
  assumes "http_client n = Some p0"
  shows "\<exists>p. pool_run place p0 p \<and> pl_live p = [] \<and> pl_objects p = [] \<and> (\<forall>p'. pool_run place p p' \<longrightarrow> \<not> lock_free p')"
proof -
  have "j \<le> n \<Longrightarrow> pool_run place p0 (p0\<lparr>pl_count := j, pl_lost := j\<rparr>)" for j
  proof (induction j)
    case 0
    have "p0\<lparr>pl_count := 0, pl_lost := 0\<rparr> = p0" using assms by (auto simp: http_client_def split: if_splits)
    then show ?case by (simp add: pool_start)
  next
    case (Suc j)
    have "pool_trace place [P_connect, P_throw] (p0\<lparr>pl_count := j, pl_lost := j\<rparr>) = Some (p0\<lparr>pl_count := Suc j, pl_lost := Suc j\<rparr>)"
      using assms Suc.prems by (auto simp: http_client_def lock_wait_def lock_free_def split: if_splits)
    then show ?case using Suc pool_trace_run pool_run_trans by (metis Suc_leD)
  qed
  then have p: "pool_run place p0 (p0\<lparr>pl_count := n, pl_lost := n\<rparr>)" by simp
  have "\<not> lock_free p'" if r: "pool_run place (p0\<lparr>pl_count := n, pl_lost := n\<rparr>) p'" for p'
  proof -
    have "accounts p'" by (rule accounts_run [OF assms pool_run_trans [OF r p]])
    then show ?thesis using pool_run_max [OF r] assms by (auto simp: accounts_def lock_free_def http_client_def split: if_splits)
  qed
  then show ?thesis using p assms by (intro exI [of _ "p0\<lparr>pl_count := n, pl_lost := n\<rparr>"]) (auto simp: http_client_def split: if_splits)
qed

theorem pool_leak_witness:
  "\<exists>p. pool_run before_equal (new_client 100) p \<and> pl_live p = [] \<and> \<not> lock_free p"
proof -
  have "http_client 100 = Some (new_client 100)" by code_simp
  from pool_leak [OF this, of before_equal] show ?thesis using pool_start by blast
qed

text \<open>
  Kept sockets take the places of the calls that would use them: a client comes to a state in which no socket is in use and
  \<open>max_count\<close> sockets to one server are kept; \<open>connect\<close> then waits even for this server, and nothing can happen but that
  the server closes a connection.
\<close>
theorem pool_kept_full:
  assumes "http_client n = Some p0"
  shows "\<exists>p. pool_run place p0 p \<and> length (pl_keep p) = n \<and> (\<forall>x \<in> set (pl_keep p). snd x = e) \<and> \<not> lock_free p
    \<and> (\<forall>ev. pool_step place ev p \<noteq> None \<longrightarrow> ev = P_connect \<or> (\<exists>obj. ev = P_read obj))"
proof -
  have "j \<le> n \<Longrightarrow> \<exists>p. pool_run place p0 p \<and> length (pl_keep p) = j \<and> (\<forall>x \<in> set (pl_keep p). snd x = e) \<and> pl_max p = n \<and> pl_count p = 0
      \<and> pl_live p = [] \<and> pl_taken p = [] \<and> pl_pending p = 0 \<and> pl_closing p = 0 \<and> pl_sleeping p = 0 \<and> pl_woken p = 0" for j
  proof (induction j)
    case 0
    then show ?case using assms by (intro exI [of _ p0]) (auto simp: http_client_def pool_start split: if_splits)
  next
    case (Suc j)
    then obtain p where p: "pool_run place p0 p" "length (pl_keep p) = j" "\<forall>x \<in> set (pl_keep p). snd x = e" "pl_max p = n" "pl_count p = 0"
      "pl_live p = []" "pl_taken p = []" "pl_pending p = 0" "pl_closing p = 0" "pl_sleeping p = 0" "pl_woken p = 0" by auto
    obtain p' where p': "pool_trace place [P_connect, P_made, P_drop True (pl_next p) e, P_release] p = Some p'" "pl_keep p' = keep_emplace place (pl_next p) e (pl_keep p)"
      "pl_max p' = n" "pl_count p' = 0" "pl_live p' = []" "pl_taken p' = []" "pl_pending p' = 0" "pl_closing p' = 0"
      "pl_sleeping p' = 0" "pl_woken p' = 0"
      using p(2-) Suc.prems by (simp add: lock_wait_def lock_free_def socket_deleter_def collect_def release_def notify_one_def)
    have "length (pl_keep p') = Suc j" "\<forall>x \<in> set (pl_keep p'). snd x = e" using p(2,3) by (simp_all add: p'(2) length_keep keep_emplace_set)
    then show ?case using pool_run_trans [OF pool_trace_run [OF p'(1)] p(1)] p'(3-) by blast
  qed
  from this [of n] obtain p where p: "pool_run place p0 p" "length (pl_keep p) = n" "\<forall>x \<in> set (pl_keep p). snd x = e" "pl_max p = n" "pl_count p = 0"
      "pl_live p = []" "pl_taken p = []" "pl_pending p = 0" "pl_closing p = 0" "pl_sleeping p = 0" "pl_woken p = 0" by auto
  then have "\<not> lock_free p" by (simp add: lock_free_def)
  moreover have "pool_step place ev p \<noteq> None \<Longrightarrow> ev = P_connect \<or> (\<exists>obj. ev = P_read obj)" for ev using p by (cases ev) auto
  ultimately show ?thesis using p by blast
qed

theorem pool_kept_full_witness:
  "\<exists>p. pool_run before_equal (new_client 1) p \<and> map snd (pl_keep p) = [7] \<and> \<not> lock_free p"
proof -
  have "http_client 1 = Some (new_client 1)" by code_simp
  from pool_kept_full [OF this, of before_equal 7] show ?thesis by (auto simp: length_Suc_conv)
qed

text \<open>
  A socket can be used after it was deleted: between \<open>reuse\<close>, which takes a kept socket out under the lock, and
  \<open>async_reuse\<close>, the read on it can end and delete it.
\<close>
theorem pool_reuse_race:
  "\<exists>p. pool_run before_equal (new_client 2) p \<and> pl_misuse p"
  by (rule pool_reached [where evs = "[P_connect, P_made, P_drop True 0 7, P_release, P_connect, P_made, P_reuse 1 7, P_read (0, 7, None), P_hand (0, 1)]"]) code_simp

end
