(* ===== verification/Email_Address.thy ===== *)
theory Email_Address
  imports Email_Headers "HOL-Library.List_Lexorder"
begin

text \<open>
  Addresses of e-mail (\<^verbatim>\<open>email/address.hpp\<close>, \<^verbatim>\<open>email/address.ipp\<close>) over \<open>char\<close>: the two grammars with the attributes
  that they fill, also when an alternative fails (Spirit does not undo what it put into a container), the text, the comparison and
  the list of a header field. A parse that runs into undefined behaviour has the result \<open>None\<close>.
\<close>

section \<open>Grammars\<close>

record email_address =
  namespec :: "byte list"
  addrspec :: "byte list"

definition is_domain :: "byte \<Rightarrow> bool" where
  "is_domain c \<longleftrightarrow> isdigit c \<or> (65 \<le> c \<and> c \<le> 90) \<or> (97 \<le> c \<and> c \<le> 122) \<or> c = 46 \<or> c = 95 \<or> c = 45"

text \<open>\<open>addrspec_grammar\<close>: the text behind a match, and the attribute.\<close>

definition addrspec_parse :: "byte list \<Rightarrow> byte list \<Rightarrow> byte list option \<times> byte list" where
  "addrspec_parse s attr =
     (let l = takeWhile (\<lambda>c. c \<noteq> 64) s; r = dropWhile (\<lambda>c. c \<noteq> 64) s
      in if l = [] then (None, attr)
         else if r = [] then (None, attr @ l)
         else let d = takeWhile is_domain (tl r)
              in if d = [] then (None, attr @ l @ [64]) else (Some (dropWhile is_domain (tl r)), attr @ l @ 64 # d))"

text \<open>
  \<open>trim\<close>: for a vector of spaces the two positions that are found are in the wrong order, and \<open>assign\<close> gets a range
  of negative length.
\<close>

definition trim :: "byte list \<Rightarrow> byte list option" where
  "trim vec =
     (if vec \<noteq> [] \<and> list_all isspace vec then None else Some (rev (dropWhile isspace (rev (dropWhile isspace vec)))))"

text \<open>The two alternatives of \<open>address_grammar\<close> and the spaces behind them.\<close>

definition named_parse :: "byte list \<Rightarrow> email_address \<Rightarrow> (byte list option \<times> email_address) option" where
  "named_parse s a =
     map_option (\<lambda>name.
         let r = dropWhile (\<lambda>c. c \<noteq> 60 \<and> c \<noteq> 44) s; a1 = a\<lparr>namespec := name\<rparr>
         in if take 1 r \<noteq> [60] then (None, a1)
            else let (m, attr) = addrspec_parse (dropWhile isspace (tl r)) (addrspec a1); a2 = a1\<lparr>addrspec := attr\<rparr>
                 in case m of
                      None \<Rightarrow> (None, a2)
                    | Some r' \<Rightarrow> (case dropWhile isspace r' of [] \<Rightarrow> (None, a2) | c # r'' \<Rightarrow> if c = 62 then (Some r'', a2) else (None, a2)))
       (trim (takeWhile (\<lambda>c. c \<noteq> 60 \<and> c \<noteq> 44) s))"

definition plain_parse :: "byte list \<Rightarrow> email_address \<Rightarrow> byte list option \<times> email_address" where
  "plain_parse s a = (let (m, attr) = addrspec_parse (dropWhile isspace s) (addrspec a) in (m, \<lparr>namespec = [], addrspec = attr\<rparr>))"

definition address_parse :: "byte list \<Rightarrow> email_address \<Rightarrow> (byte list option \<times> email_address) option" where
  "address_parse s a =
     map_option (\<lambda>(m, a1). let (m', a2) = (case m of Some r \<Rightarrow> (Some r, a1) | None \<Rightarrow> plain_parse s a1) in (map_option (dropWhile isspace) m', a2))
       (named_parse s a)"

section \<open>Operations\<close>

definition address_new :: email_address where
  "address_new = \<lparr>namespec = [], addrspec = []\<rparr>"

definition address_is_valid :: "email_address \<Rightarrow> bool" where
  "address_is_valid a = (fst (addrspec_parse (addrspec a) []) = Some [])"

datatype address_error = Not_address

definition address_from_string :: "byte list \<Rightarrow> (address_error + email_address) option" where
  "address_from_string s = map_option (\<lambda>(m, a). if m = Some [] then Inr a else Inl Not_address) (address_parse s address_new)"

definition address_text :: "email_address \<Rightarrow> byte list" where
  "address_text a = (if namespec a = [] then addrspec a else namespec a @ 32 # 60 # addrspec a @ [62])"

definition address_equal :: "email_address \<Rightarrow> email_address \<Rightarrow> bool" where
  "address_equal a b \<longleftrightarrow> \<not> (addrspec a \<noteq> addrspec b \<or> namespec a \<noteq> namespec b)"

definition address_less :: "email_address \<Rightarrow> email_address \<Rightarrow> bool" where
  "address_less a b \<longleftrightarrow> namespec a < namespec b \<or> addrspec a < addrspec b"

lemma addrspec_parse_length: "addrspec_parse s attr = (Some r, attr') \<Longrightarrow> length r < length s"
proof -
  assume a: "addrspec_parse s attr = (Some r, attr')"
  define t where "t = dropWhile (\<lambda>c. c \<noteq> 64) s"
  have t: "t \<noteq> []" "r = dropWhile is_domain (tl t)" using a by (auto simp: addrspec_parse_def Let_def t_def split: if_splits)
  then have "length r \<le> length (tl t)" using length_dropWhile_le [of is_domain "tl t"] by simp
  moreover have "length t \<le> length s" by (simp add: t_def length_dropWhile_le)
  ultimately show ?thesis using t(1) by (cases t) auto
qed

lemma address_parse_length: "address_parse s a = Some (Some r, a') \<Longrightarrow> length r < length s"
proof -
  assume p: "address_parse s a = Some (Some r, a')"
  have d: "length (dropWhile P xs) \<le> length xs" for P and xs :: "byte list" by (rule length_dropWhile_le)
  obtain m a1 where n: "named_parse s a = Some (m, a1)" using p by (auto simp: address_parse_def)
  show ?thesis
  proof (cases m)
    case None
    then obtain r' attr where "addrspec_parse (dropWhile isspace s) (addrspec a1) = (Some r', attr)" "r = dropWhile isspace r'"
      using p n by (auto simp: address_parse_def plain_parse_def split: prod.splits)
    then show ?thesis using addrspec_parse_length d order_le_less_trans less_le_trans by metis
  next
    case (Some r1)
    define t where "t = dropWhile (\<lambda>c. c \<noteq> 60 \<and> c \<noteq> 44) s"
    obtain r' attr where r': "addrspec_parse (dropWhile isspace (tl t)) (addrspec a) = (Some r', attr)" "dropWhile isspace r' = 62 # r1"
      using n Some by (auto simp: named_parse_def t_def Let_def split: if_splits prod.splits option.splits list.splits)
    have "length r1 < length r'" using d [of isspace r'] r'(2) by simp
    also have "length r' < length (dropWhile isspace (tl t))" by (rule addrspec_parse_length [OF r'(1)])
    also have "\<dots> \<le> length (tl t)" by (rule d)
    also have "\<dots> \<le> length t" by simp
    also have "\<dots> \<le> length s" unfolding t_def by (rule d)
    finally have "length r1 < length s" .
    moreover have "r = dropWhile isspace r1" using p n Some by (simp add: address_parse_def)
    ultimately show ?thesis using d [of isspace r1] by simp
  qed
qed

text \<open>The list of \<open>parse_to_addresses\<close>: what it appends, and its result.\<close>

function address_list :: "byte list \<Rightarrow> email_address list option" where
  "address_list s =
     (case address_parse s address_new of
        None \<Rightarrow> None
      | Some (None, a) \<Rightarrow> Some []
      | Some (Some r, a) \<Rightarrow> (case r of c # r' \<Rightarrow> if c = 44 then map_option (\<lambda>as. a # as) (address_list r') else Some [a] | [] \<Rightarrow> Some [a]))"
  by auto
termination
  by (relation "measure length") (auto dest: address_parse_length)

declare address_list.simps [simp del]

definition parse_to_addresses :: "byte list \<Rightarrow> email_address list \<Rightarrow> (email_address list \<times> nat) option" where
  "parse_to_addresses s addrs =
     (let s1 = dropWhile isspace s; s2 = (case s1 of [] \<Rightarrow> [] | c # r \<Rightarrow> if c = 44 then r else s1)
      in map_option (\<lambda>as. (addrs @ as, length (addrs @ as) - length addrs)) (address_list s2))"

section \<open>Addresses that can be written\<close>

definition local_ok :: "byte list \<Rightarrow> bool" where
  "local_ok l \<longleftrightarrow> l \<noteq> [] \<and> \<not> isspace (hd l) \<and> 64 \<notin> set l"

definition domain_ok :: "byte list \<Rightarrow> bool" where
  "domain_ok d \<longleftrightarrow> d \<noteq> [] \<and> list_all is_domain d"

definition name_ok :: "byte list \<Rightarrow> bool" where
  "name_ok n \<longleftrightarrow> n \<noteq> [] \<and> \<not> isspace (hd n) \<and> \<not> isspace (last n) \<and> 60 \<notin> set n \<and> 44 \<notin> set n"

text \<open>Without a name the local part must not have the letters that end a name.\<close>

definition address_ok :: "email_address \<Rightarrow> bool" where
  "address_ok a \<longleftrightarrow> (\<exists>l d. addrspec a = l @ 64 # d \<and> local_ok l \<and> domain_ok d
     \<and> (if namespec a = [] then 60 \<notin> set l \<and> 44 \<notin> set l else name_ok (namespec a)))"

lemma while_append: "list_all P xs \<Longrightarrow> r = [] \<or> \<not> P (hd r) \<Longrightarrow> takeWhile P (xs @ r) = xs \<and> dropWhile P (xs @ r) = r"
  by (induction xs) (cases r; auto)+

lemma addrspec_parse_ok:
  assumes "l \<noteq> []" "64 \<notin> set l" "domain_ok d" "r = [] \<or> \<not> is_domain (hd r)"
  shows "addrspec_parse (l @ 64 # d @ r) attr = (Some r, attr @ l @ 64 # d)"
proof -
  have "list_all (\<lambda>c. c \<noteq> 64) l" using assms(2) by (auto simp: list_all_iff)
  then have l: "takeWhile (\<lambda>c. c \<noteq> 64) (l @ 64 # x) = l \<and> dropWhile (\<lambda>c. c \<noteq> 64) (l @ 64 # x) = 64 # x" for x
    using while_append [of "\<lambda>c. c \<noteq> 64" l "64 # x"] by simp
  have "takeWhile is_domain (d @ r) = d \<and> dropWhile is_domain (d @ r) = r" using while_append assms(3,4) unfolding domain_ok_def by blast
  then show ?thesis using assms(1,3) by (simp add: addrspec_parse_def l domain_ok_def)
qed

lemma skip_blanks: "list_all isspace ws \<Longrightarrow> x = [] \<or> \<not> isspace (hd x) \<Longrightarrow> dropWhile isspace (ws @ x) = x"
  using while_append by blast

lemma trim_name: "list_all isspace ws \<Longrightarrow> name_ok n \<Longrightarrow> trim (ws @ n @ [32]) = Some n"
proof -
  assume a: "list_all isspace ws" "name_ok n"
  have n: "n \<noteq> []" "\<not> isspace (hd n)" "\<not> isspace (last n)" using a(2) by (simp_all add: name_ok_def)
  have "dropWhile isspace (ws @ n @ [32]) = n @ [32]" using skip_blanks [OF a(1), of "n @ [32]"] n by simp
  moreover have "dropWhile isspace (rev (n @ [32])) = rev n" using skip_blanks [of "[32]" "rev n"] n by (simp add: isspace_def hd_rev)
  moreover have "\<not> list_all isspace (ws @ n @ [32])" using n(1,2) by (cases n) auto
  ultimately show ?thesis by (simp add: trim_def)
qed

lemma trim_defined: "list_all isspace ws \<Longrightarrow> n = [] \<and> ws = [] \<or> n \<noteq> [] \<and> \<not> isspace (hd n) \<Longrightarrow> \<exists>v. trim (ws @ n) = Some v"
  by (cases n) (auto simp: trim_def)

text \<open>An address behind spaces and in front of a comma or the end.\<close>

lemma address_parse_ok:
  assumes "address_ok a" "list_all isspace ws" "r = [] \<or> hd r = 44"
  shows "address_parse (ws @ address_text a @ r) address_new = Some (Some r, a)"
proof -
  obtain l d where a: "addrspec a = l @ 64 # d" "local_ok l" "domain_ok d"
      "if namespec a = [] then 60 \<notin> set l \<and> 44 \<notin> set l else name_ok (namespec a)"
    using assms(1) by (auto simp: address_ok_def)
  have l: "l \<noteq> []" "64 \<notin> set l" "\<not> isspace (hd l)" using a(2) by (simp_all add: local_ok_def)
  let ?p = "\<lambda>c::byte. c \<noteq> 60 \<and> c \<noteq> 44"
  have ws: "list_all ?p ws" using assms(2) by (auto simp: list_all_iff isspace_def)
  have s44: "\<not> isspace 44" "\<not> is_domain 44" "\<not> isspace 60" "\<not> is_domain 62" "\<not> isspace 62" by (simp_all add: isspace_def is_domain_def isdigit_def)
  have r: "dropWhile isspace r = r" using assms(3) s44(1) by (cases r) auto
  show ?thesis
  proof (cases "namespec a = []")
    case False
    then have n: "name_ok (namespec a)" using a(4) by simp
    have t: "ws @ address_text a @ r = (ws @ namespec a @ [32]) @ 60 # l @ 64 # d @ 62 # r" using False by (simp add: address_text_def a(1))
    have "list_all ?p (ws @ namespec a @ [32])" using ws n by (auto simp: name_ok_def list_all_iff)
    then have w: "takeWhile ?p ((ws @ namespec a @ [32]) @ 60 # x) = ws @ namespec a @ [32]" "dropWhile ?p ((ws @ namespec a @ [32]) @ 60 # x) = 60 # x" for x
      using while_append [of ?p "ws @ namespec a @ [32]" "60 # x"] by simp_all
    have "dropWhile isspace (l @ 64 # d @ 62 # r) = l @ 64 # d @ 62 # r" using l by (cases l) auto
    moreover have "addrspec_parse (l @ 64 # d @ 62 # r) [] = (Some (62 # r), l @ 64 # d)"
      using addrspec_parse_ok [OF l(1,2) a(3), of "62 # r" "[]"] s44 by simp
    ultimately have "named_parse (ws @ address_text a @ r) address_new = Some (Some r, a)"
      unfolding t named_parse_def w trim_name [OF assms(2) n] using s44 a(1) by (simp add: address_new_def)
    then show ?thesis by (simp add: address_parse_def r)
  next
    case True
    then have n: "60 \<notin> set l" "44 \<notin> set l" using a(4) by simp_all
    have d: "list_all ?p (64 # d)" using a(3) by (auto simp: domain_ok_def list_all_iff is_domain_def isdigit_def)
    have t: "address_text a = l @ 64 # d" using True by (simp add: address_text_def a(1))
    have "list_all ?p (ws @ l @ 64 # d)" using ws d n by (auto simp: list_all_iff)
    then have w: "takeWhile ?p ((ws @ l @ 64 # d) @ r) = ws @ l @ 64 # d" "dropWhile ?p ((ws @ l @ 64 # d) @ r) = r"
      using while_append [of ?p "ws @ l @ 64 # d" r] assms(3) by auto
    obtain v where v: "trim (ws @ l @ 64 # d) = Some v" using trim_defined [OF assms(2), of "l @ 64 # d"] l by auto
    have "take 1 r \<noteq> [60]" using assms(3) by (cases r) auto
    then have "named_parse ((ws @ l @ 64 # d) @ r) address_new = Some (None, address_new\<lparr>namespec := v\<rparr>)"
      unfolding named_parse_def w v by simp
    moreover have "dropWhile isspace ((ws @ l @ 64 # d) @ r) = l @ 64 # d @ r" using skip_blanks [OF assms(2), of "l @ 64 # d @ r"] l by simp
    moreover have "addrspec_parse (l @ 64 # d @ r) [] = (Some r, l @ 64 # d)" using addrspec_parse_ok [OF l(1,2) a(3), of r "[]"] assms(3) s44 by auto
    ultimately show ?thesis using True a(1) by (simp add: address_parse_def plain_parse_def address_new_def t r)
  qed
qed

section \<open>Properties\<close>

definition addresses_text :: "email_address list \<Rightarrow> byte list" where
  "addresses_text as = (case as of [] \<Rightarrow> [] | a # as \<Rightarrow> address_text a @ concat (map (\<lambda>a. 44 # 32 # address_text a) as))"

lemma address_text_hd: "address_ok a \<Longrightarrow> address_text a \<noteq> [] \<and> \<not> isspace (hd (address_text a)) \<and> hd (address_text a) \<noteq> 44"
proof -
  assume "address_ok a"
  then obtain l d where a: "addrspec a = l @ 64 # d" "local_ok l" "if namespec a = [] then 60 \<notin> set l \<and> 44 \<notin> set l else name_ok (namespec a)"
    by (auto simp: address_ok_def)
  show ?thesis
  proof (cases "namespec a = []")
    case True
    then show ?thesis using a by (cases l) (auto simp: address_text_def local_ok_def)
  next
    case False
    then show ?thesis using a(3) by (cases "namespec a") (auto simp: address_text_def name_ok_def)
  qed
qed

lemma address_list_ok:
  "list_all address_ok (a # as) \<Longrightarrow> list_all isspace ws \<Longrightarrow> address_list (ws @ addresses_text (a # as)) = Some (a # as)"
proof (induction as arbitrary: a ws)
  case Nil
  have "address_parse (ws @ address_text a @ []) address_new = Some (Some [], a)" by (rule address_parse_ok) (use Nil in simp_all)
  then show ?case by (subst address_list.simps) (simp add: addresses_text_def)
next
  case (Cons b bs)
  let ?r = "32 # addresses_text (b # bs)"
  have t: "ws @ addresses_text (a # b # bs) = ws @ address_text a @ 44 # ?r" by (simp add: addresses_text_def)
  have "address_parse (ws @ address_text a @ 44 # ?r) address_new = Some (Some (44 # ?r), a)" by (rule address_parse_ok) (use Cons.prems in simp_all)
  moreover have "address_list ?r = Some (b # bs)" using Cons.IH [of b "[32]"] Cons.prems(1) by (simp add: isspace_def)
  ultimately show ?case unfolding t by (subst address_list.simps) simp
qed

text \<open>
  (C27) A list of addresses that is written with commas comes back: every address of a header field is parsed to itself, in order,
  with its name and behind what was in the container, whatever spaces stand in front of the list.
\<close>
theorem address_list_roundtrip:
  assumes "list_all address_ok as" "as \<noteq> []" "list_all isspace ws"
  shows "parse_to_addresses (ws @ addresses_text as) addrs = Some (addrs @ as, length as)"
proof -
  obtain a bs where as: "as = a # bs" using assms(2) by (cases as) auto
  have h: "addresses_text as \<noteq> []" "\<not> isspace (hd (addresses_text as))" "hd (addresses_text as) \<noteq> 44"
    using address_text_hd [of a] assms(1) by (auto simp: as addresses_text_def)
  have "dropWhile isspace (ws @ addresses_text as) = addresses_text as" using skip_blanks [OF assms(3)] h by blast
  moreover have "(case addresses_text as of [] \<Rightarrow> [] | c # r \<Rightarrow> if c = 44 then r else addresses_text as) = addresses_text as"
    using h by (cases "addresses_text as") auto
  moreover have "address_list (addresses_text as) = Some as" using address_list_ok [of a bs "[]"] assms(1) by (simp add: as)
  ultimately show ?thesis by (simp add: parse_to_addresses_def)
qed

definition sample_addresses :: "email_address list" where
  "sample_addresses = [\<lparr>namespec = [], addrspec = bytes_of ''foo@example.com''\<rparr>, \<lparr>namespec = bytes_of ''c++'', addrspec = bytes_of ''bar@example.co.jp''\<rparr>]"

lemma sample_addresses_ok: "list_all address_ok sample_addresses"
proof -
  have "addrspec \<lparr>namespec = [], addrspec = bytes_of ''foo@example.com''\<rparr> = bytes_of ''foo'' @ 64 # bytes_of ''example.com''"
    "addrspec \<lparr>namespec = bytes_of ''c++'', addrspec = bytes_of ''bar@example.co.jp''\<rparr> = bytes_of ''bar'' @ 64 # bytes_of ''example.co.jp''"
    by (simp_all add: bytes_of_def)
  moreover have "local_ok (bytes_of ''foo'')" "local_ok (bytes_of ''bar'')" "domain_ok (bytes_of ''example.com'')" "domain_ok (bytes_of ''example.co.jp'')"
    "name_ok (bytes_of ''c++'')" "60 \<notin> set (bytes_of ''foo'') \<and> 44 \<notin> set (bytes_of ''foo'')" by code_simp+
  ultimately show ?thesis unfolding sample_addresses_def address_ok_def list_all_iff set_simps ball_simps email_address.simps by (auto simp: name_ok_def)
qed

theorem address_list_roundtrip_witness:
  "parse_to_addresses (bytes_of '' foo@example.com, c++ <bar@example.co.jp>'') [] = Some (sample_addresses, 2)"
proof -
  have "[32] @ addresses_text sample_addresses = bytes_of '' foo@example.com, c++ <bar@example.co.jp>''" by code_simp
  moreover have "list_all isspace [32]" "sample_addresses \<noteq> []" "length sample_addresses = 2" by (simp_all add: isspace_def sample_addresses_def)
  ultimately show ?thesis using address_list_roundtrip [OF sample_addresses_ok, of "[32]" "[]"] by simp
qed

text \<open>
  A name of spaces only is not trimmed to nothing: \<open>from_string\<close> and the list have undefined behaviour (an exception of
  \<open>std::string\<close>) for it, so for the second example of the documentation and for an address in angle brackets behind a comma
  and a space.
\<close>
theorem address_blank_name:
  assumes "list_all isspace ws" "ws \<noteq> []" "address_ok a" "s = [] \<or> hd s = 60"
  shows "address_from_string (ws @ s) = None \<and> parse_to_addresses (address_text a @ 44 # ws @ s) addrs = None"
proof -
  let ?p = "\<lambda>c::byte. c \<noteq> 60 \<and> c \<noteq> 44"
  have "list_all ?p ws" using assms(1) by (auto simp: list_all_iff isspace_def)
  then have "takeWhile ?p (ws @ s) = ws" using while_append [of ?p ws s] assms(4) by auto
  then have n: "address_parse (ws @ s) address_new = None" using assms(1,2) by (simp add: address_parse_def named_parse_def trim_def)
  then have "address_from_string (ws @ s) = None" by (simp add: address_from_string_def)
  have h: "address_text a \<noteq> []" "\<not> isspace (hd (address_text a))" "hd (address_text a) \<noteq> 44" using address_text_hd [OF assms(3)] by auto
  have p: "address_parse (address_text a @ 44 # ws @ s) address_new = Some (Some (44 # ws @ s), a)"
    using address_parse_ok [OF assms(3), of "[]" "44 # ws @ s"] by simp
  have "address_list (ws @ s) = None" using n by (subst address_list.simps) simp
  then have "address_list (address_text a @ 44 # ws @ s) = None" using p by (subst address_list.simps) simp
  moreover have "dropWhile isspace (address_text a @ 44 # ws @ s) = address_text a @ 44 # ws @ s" using h by (cases "address_text a") auto
  moreover have "(case address_text a @ 44 # ws @ s of [] \<Rightarrow> [] | c # r \<Rightarrow> if c = 44 then r else address_text a @ 44 # ws @ s) = address_text a @ 44 # ws @ s"
    using h by (cases "address_text a") auto
  ultimately have "parse_to_addresses (address_text a @ 44 # ws @ s) addrs = None" by (simp add: parse_to_addresses_def)
  with \<open>address_from_string (ws @ s) = None\<close> show ?thesis by simp
qed

theorem address_blank_name_witness:
  "address_from_string (bytes_of '' <hoge@example.com> '') = None \<and> parse_to_addresses (bytes_of ''foo@example.com, <bar@example.co.jp>'') [] = None"
proof -
  have t: "[32] @ bytes_of ''<hoge@example.com> '' = bytes_of '' <hoge@example.com> ''"
    "address_text (hd sample_addresses) @ 44 # [32] @ bytes_of ''<bar@example.co.jp>'' = bytes_of ''foo@example.com, <bar@example.co.jp>''" by code_simp+
  have a: "address_ok (hd sample_addresses)" using sample_addresses_ok by (simp add: sample_addresses_def)
  have h: "hd (bytes_of ''<hoge@example.com> '') = 60" "hd (bytes_of ''<bar@example.co.jp>'') = 60" "list_all isspace [32]" by code_simp+
  show ?thesis using address_blank_name [OF h(3) _ a, of "bytes_of ''<hoge@example.com> ''"] address_blank_name [OF h(3) _ a, of "bytes_of ''<bar@example.co.jp>''" "[]"] h
    unfolding t by simp
qed

text \<open>
  The comparison is not an order: of two addresses each is less than the other exactly when the names and the texts of the
  addresses compare in opposite ways.
\<close>
theorem address_order:
  "(address_less a b \<and> address_less b a) = ((namespec a < namespec b \<and> addrspec b < addrspec a) \<or> (namespec b < namespec a \<and> addrspec a < addrspec b))"
  by (auto simp: address_less_def)

text \<open>
  \<open>is_valid\<close> accepts a text exactly when an at sign, the first one, has something in front of it and letters, digits, dots,
  underscores and hyphens behind it; in front of it everything is accepted, line breaks too.
\<close>
theorem address_validity:
  "address_is_valid a = (\<exists>l d. addrspec a = l @ 64 # d \<and> l \<noteq> [] \<and> 64 \<notin> set l \<and> domain_ok d)"
proof
  assume v: "address_is_valid a"
  define l where "l = takeWhile (\<lambda>c. c \<noteq> 64) (addrspec a)"
  define r where "r = dropWhile (\<lambda>c. c \<noteq> 64) (addrspec a)"
  have s: "addrspec a = l @ r" by (simp add: l_def r_def)
  have n: "l \<noteq> []" "r \<noteq> []" "takeWhile is_domain (tl r) \<noteq> []" "dropWhile is_domain (tl r) = []"
    using v by (auto simp: address_is_valid_def addrspec_parse_def l_def [symmetric] r_def [symmetric] Let_def split: if_splits)
  have "hd r = 64" using n(2) hd_dropWhile [of "\<lambda>c. c \<noteq> 64" "addrspec a"] by (auto simp: r_def)
  then have "r = 64 # tl r" using n(2) by (cases r) auto
  moreover have "domain_ok (tl r)" using n(3,4) by (auto simp: domain_ok_def list_all_iff dropWhile_eq_Nil_conv)
  moreover have "64 \<notin> set l" by (auto simp: l_def dest: set_takeWhileD)
  ultimately show "\<exists>l d. addrspec a = l @ 64 # d \<and> l \<noteq> [] \<and> 64 \<notin> set l \<and> domain_ok d" using s n(1) by metis
next
  assume "\<exists>l d. addrspec a = l @ 64 # d \<and> l \<noteq> [] \<and> 64 \<notin> set l \<and> domain_ok d"
  then obtain l d where a: "addrspec a = l @ 64 # d" "l \<noteq> []" "64 \<notin> set l" "domain_ok d" by blast
  then show "address_is_valid a" using addrspec_parse_ok [OF a(2-4), of "[]" "[]"] by (simp add: address_is_valid_def)
qed

end
