(* ===== verification/Codecvt.thy ===== *)
theory Codecvt
  imports Ctype
begin

text \<open>
  Streams that convert (\<^verbatim>\<open>iostreams/ostream_codecvt.hpp\<close>, \<^verbatim>\<open>iostreams/istream_codecvt.hpp\<close>,
  \<^verbatim>\<open>iostreams/transferred_counter.hpp\<close>), for streams of \<open>char\<close>. The conversions of Boost.Locale are parameters. The
  buffer of a read is the list of what is written to it; \<open>None\<close> is a place that a read counts but does not write.
\<close>

section \<open>Writing with a character set\<close>

record ostream_codecvt =
  oc_out :: "byte list"
  oc_line :: "byte list"
  oc_last :: byte

definition ostream_codecvt_new :: ostream_codecvt where
  "ostream_codecvt_new = \<lparr>oc_out = [], oc_line = [], oc_last = 0\<rparr>"

definition is_break :: "byte \<Rightarrow> bool" where
  "is_break c \<longleftrightarrow> c = 13 \<or> c = 10"

text \<open>The loop of \<open>write\<close> on what went to the stream, the line, and the text from \<open>beg\<close> on.\<close>

function oc_loop :: "(byte list \<Rightarrow> byte list) \<Rightarrow> byte list \<Rightarrow> byte list \<Rightarrow> byte list \<Rightarrow> byte list \<times> byte list" where
  "oc_loop conv out line s =
     (let l = takeWhile (\<lambda>c. \<not> is_break c) s
      in case dropWhile (\<lambda>c. \<not> is_break c) s of
           [] \<Rightarrow> (out, line @ s)
         | c # r \<Rightarrow>
             let out' = out @ conv (line @ l) @ [10]; r1 = (if c = 13 then r else c # r)
             in case r1 of
                  [] \<Rightarrow> (out', [])
                | d # r2 \<Rightarrow> let r3 = (if d = 10 then r2 else r1) in if r3 = [] then (out', []) else oc_loop conv out' [] r3)"
  by auto
termination
proof (relation "measure (\<lambda>(conv, out, line, s). length s)", goal_cases)
  case (2 conv out line s l c r out' r1 d r2 r3)
  then have s: "length (c # r) \<le> length s" using length_dropWhile_le [of "\<lambda>c. \<not> is_break c" s] by simp
  have "is_break c" using 2(2) hd_dropWhile [of "\<lambda>c. \<not> is_break c" s] by auto
  then have "length r3 < length (c # r)" using 2(4-6) by (auto simp: is_break_def split: if_splits)
  then show ?case using s by simp
qed simp

declare oc_loop.simps [simp del]

definition oc_write :: "(byte list \<Rightarrow> byte list) \<Rightarrow> byte list \<Rightarrow> ostream_codecvt \<Rightarrow> ostream_codecvt" where
  "oc_write conv s os =
     (if s = [] then os
      else let s' = (if oc_last os = 13 \<and> hd s = 10 then tl s else s); (out, line) = oc_loop conv (oc_out os) (oc_line os) s'
           in \<lparr>oc_out = out, oc_line = line, oc_last = last s\<rparr>)"

definition oc_close :: "(byte list \<Rightarrow> byte list) \<Rightarrow> ostream_codecvt \<Rightarrow> ostream_codecvt" where
  "oc_close conv os = (if oc_line os = [] then os else os\<lparr>oc_out := oc_out os @ conv (oc_line os), oc_line := []\<rparr>)"

section \<open>Reading with a character set\<close>

record istream_codecvt =
  ic_src :: "byte list"
  ic_line :: "byte list"

fun getline :: "byte list \<Rightarrow> (byte list \<times> byte list) option" where
  "getline [] = None"
| "getline src = Some (takeWhile (\<lambda>c. c \<noteq> 10) src, tl (dropWhile (\<lambda>c. c \<noteq> 10) src))"

definition trim_crln :: "byte list \<Rightarrow> byte list" where
  "trim_crln line = rev (dropWhile (\<lambda>c. c = 13 \<or> c = 10 \<or> c = 0) (rev line))"

lemma getline_length: "getline src = Some (l, src') \<Longrightarrow> length src' < length src"
proof (induction src rule: getline.induct)
  case (2 c cs)
  have "length src' \<le> length (dropWhile (\<lambda>c. c \<noteq> 10) (c # cs)) - 1" using 2 by auto
  then show ?case using length_dropWhile_le [of "\<lambda>c. c \<noteq> 10" "c # cs"] by (cases "dropWhile (\<lambda>c. c \<noteq> 10) (c # cs)") (use 2 in auto)
qed simp

text \<open>The loop of \<open>read\<close>, with the room that is left.\<close>

function ic_loop :: "(byte list \<Rightarrow> byte list) \<Rightarrow> nat \<Rightarrow> byte list \<Rightarrow> byte list \<Rightarrow> byte option list \<times> nat \<times> istream_codecvt" where
  "ic_loop conv i line src =
     (if i = 0 then ([], 0, \<lparr>ic_src = src, ic_line = line\<rparr>)
      else case getline src of
        None \<Rightarrow> ([], i, \<lparr>ic_src = [], ic_line = line\<rparr>)
      | Some (l, src') \<Rightarrow>
          let t = trim_crln l; buf = (if t = [] then line else line @ conv t); w = (if t = [] then 0 else min (length buf) i);
              i' = i - w; line' = drop w buf; (out, rest) = ic_loop conv i' (if 0 < i' then line' @ [10] else line') src'
          in (map Some (take w buf) @ out, rest))"
  by auto
termination
  by (relation "measure (\<lambda>(conv, i, line, src). length src)") (auto dest: getline_length)

declare ic_loop.simps [simp del]

text \<open>\<open>read\<close>: what is in the buffer, and the result (\<open>None\<close> is \<open>EOF\<close>).\<close>

definition ic_read :: "(byte list \<Rightarrow> byte list) \<Rightarrow> nat \<Rightarrow> istream_codecvt \<Rightarrow> byte option list \<times> nat option \<times> istream_codecvt" where
  "ic_read conv n is =
     (let w = (if 1 < length (ic_line is) then min (length (ic_line is)) n else 0); line = drop w (ic_line is); i = n - w;
          line' = (if 1 < length (ic_line is) \<and> 0 < i then line @ [10] else line); (out, i', is') = ic_loop conv i line' (ic_src is)
      in (replicate w None @ out, if i' = n then None else Some (n - i'), is'))"

section \<open>Converting between encodings of Unicode\<close>

text \<open>
  \<open>utf_traits\<close> of Boost.Locale for both sides: how many units follow a first one (-1 for none that is legal), the code point of a
  sequence, and its sequence of \<open>char\<close>.
\<close>

record 'c utf =
  u_trail :: "'c \<Rightarrow> int"
  u_decode :: "'c list \<Rightarrow> nat option"
  u_encode :: "nat \<Rightarrow> byte list"

text \<open>
  \<open>read\<close> of \<open>basic_istream_codecvt\<close>: what goes to the buffer behind \<open>i\<close> units, the source that is left, and the end:
  \<open>True\<close> when it comes within a sequence.
\<close>

function cv_loop :: "'c utf \<Rightarrow> nat \<Rightarrow> nat \<Rightarrow> 'c list \<Rightarrow> byte list \<times> 'c list \<times> bool" where
  "cv_loop u n i src =
     (if n \<le> i then ([], src, False)
      else case src of
        [] \<Rightarrow> ([], [], False)
      | c # cs \<Rightarrow>
          let k = nat (u_trail u c)
          in if length cs < k then ([], [], True)
             else let e = (case u_decode u (c # take k cs) of None \<Rightarrow> [] | Some cp \<Rightarrow> u_encode u cp);
                      (out, r) = cv_loop u n (i + length e) (drop k cs)
                  in (e @ out, r))"
  by auto
termination
  by (relation "measure (\<lambda>(u, n, i, src). length src)") auto

declare cv_loop.simps [simp del]

definition cv_read :: "'c utf \<Rightarrow> nat \<Rightarrow> 'c list \<Rightarrow> byte list \<times> nat option \<times> 'c list" where
  "cv_read u n src =
     (let (out, r, within) = cv_loop u n 0 src in (out, if out = [] \<and> \<not> within then None else Some (length out), r))"

section \<open>Counting\<close>

text \<open>The counter is of type \<open>size_t\<close>; a source or sink may transfer less than it is asked for, or \<open>EOF\<close>.\<close>

definition counter_read :: "int \<Rightarrow> 64 word \<Rightarrow> 64 word" where
  "counter_read n cnt = (if 0 < n then cnt + word_of_int n else cnt)"

definition counter_write :: "('s \<Rightarrow> byte list \<Rightarrow> int \<times> 's) \<Rightarrow> byte list \<Rightarrow> 64 word \<times> 's \<Rightarrow> int \<times> 64 word \<times> 's" where
  "counter_write put s cs =
     (let cnt' = (if s = [] then fst cs else fst cs + word_of_nat (length s)); (n, sink) = put (snd cs) s in (n, cnt', sink))"

section \<open>Writing in pieces\<close>

text \<open>The reference: one character after another; a line feed behind a carriage return is dropped.\<close>

definition oc_char :: "(byte list \<Rightarrow> byte list) \<Rightarrow> ostream_codecvt \<Rightarrow> byte \<Rightarrow> ostream_codecvt" where
  "oc_char conv os c =
     (if c = 13 \<or> c = 10 \<and> oc_last os \<noteq> 13 then \<lparr>oc_out = oc_out os @ conv (oc_line os) @ [10], oc_line = [], oc_last = c\<rparr>
      else if c = 10 then os\<lparr>oc_last := c\<rparr>
      else os\<lparr>oc_line := oc_line os @ [c], oc_last := c\<rparr>)"

lemma oc_chars_plain:
  "list_all (\<lambda>c. \<not> is_break c) l \<Longrightarrow> foldl (oc_char conv) os l = os\<lparr>oc_line := oc_line os @ l, oc_last := (if l = [] then oc_last os else last l)\<rparr>"
  by (induction l arbitrary: os) (auto simp: oc_char_def is_break_def)

lemma oc_loop_chars:
  "\<not> (oc_last os = 13 \<and> s \<noteq> [] \<and> hd s = 10) \<Longrightarrow>
   foldl (oc_char conv) os s = (let (out, line) = oc_loop conv (oc_out os) (oc_line os) s
     in \<lparr>oc_out = out, oc_line = line, oc_last = (if s = [] then oc_last os else last s)\<rparr>)"
proof (induction "length s" arbitrary: os s rule: less_induct)
  case less
  define l where "l = takeWhile (\<lambda>c. \<not> is_break c) s"
  define r where "r = dropWhile (\<lambda>c. \<not> is_break c) s"
  have s: "s = l @ r" by (simp add: l_def r_def)
  have l: "list_all (\<lambda>c. \<not> is_break c) l" by (auto simp: l_def list_all_iff dest: set_takeWhileD)
  show ?case
  proof (cases r)
    case Nil
    then have "oc_loop conv (oc_out os) (oc_line os) s = (oc_out os, oc_line os @ s)" by (subst oc_loop.simps) (simp only: r_def [symmetric] list.case Let_def)
    moreover have "foldl (oc_char conv) os s = os\<lparr>oc_line := oc_line os @ s, oc_last := (if s = [] then oc_last os else last s)\<rparr>"
      using oc_chars_plain [OF l] s Nil by simp
    ultimately show ?thesis by simp
  next
    case (Cons c r')
    have c: "is_break c" using Cons hd_dropWhile [of "\<lambda>c. \<not> is_break c" s] by (auto simp: r_def)
    define os1 where "os1 = foldl (oc_char conv) os l"
    have os1: "oc_out os1 = oc_out os" "oc_line os1 = oc_line os @ l" "c = 10 \<longrightarrow> oc_last os1 \<noteq> 13"
      using less.prems l by (auto simp: os1_def oc_chars_plain [OF l] s Cons is_break_def list_all_iff dest: last_in_set)
    define os2 where "os2 = \<lparr>oc_out = oc_out os @ conv (oc_line os @ l) @ [10], oc_line = [], oc_last = c\<rparr>"
    have f: "foldl (oc_char conv) os s = foldl (oc_char conv) os2 r'"
      using c os1 by (auto simp: s Cons os1_def [symmetric] os2_def oc_char_def is_break_def)
    have ih: "foldl (oc_char conv) os' x = (let (out, line) = oc_loop conv (oc_out os') (oc_line os') x
        in \<lparr>oc_out = out, oc_line = line, oc_last = (if x = [] then oc_last os' else last x)\<rparr>)"
      if "length x < length s" "\<not> (oc_last os' = 13 \<and> x \<noteq> [] \<and> hd x = 10)" for os' x using less.hyps that by blast
    have loop: "oc_loop conv (oc_out os) (oc_line os) s = (case (if c = 13 then r' else c # r') of
        [] \<Rightarrow> (oc_out os2, []) | d # r2 \<Rightarrow> let r3 = (if d = 10 then r2 else d # r2) in if r3 = [] then (oc_out os2, []) else oc_loop conv (oc_out os2) [] r3)"
      by (subst oc_loop.simps) (auto simp: l_def [symmetric] r_def [symmetric] Cons os2_def Let_def split: list.splits)
    show ?thesis
    proof (cases "c = 13")
      case False
      then have "c = 10" using c by (simp add: is_break_def)
      then show ?thesis using ih [of r' os2] unfolding f loop by (auto simp: s Cons os2_def)
    next
      case True
      show ?thesis
      proof (cases r')
        case Nil
        then show ?thesis using True unfolding f loop by (simp add: s Cons os2_def)
      next
        case (Cons d r2)
        show ?thesis
        proof (cases "d = 10")
          case True
          have "foldl (oc_char conv) os2 r' = foldl (oc_char conv) (os2\<lparr>oc_last := 10\<rparr>) r2" using True \<open>c = 13\<close> by (simp add: Cons oc_char_def os2_def)
          then show ?thesis using True \<open>c = 13\<close> ih [of r2 "os2\<lparr>oc_last := 10\<rparr>"] unfolding f loop
            by (auto simp: s \<open>r = c # r'\<close> Cons os2_def)
        next
          case False
          then show ?thesis using \<open>c = 13\<close> ih [of r' os2] unfolding f loop by (auto simp: s \<open>r = c # r'\<close> Cons os2_def Let_def)
        qed
      qed
    qed
  qed
qed

lemma oc_write_chars: "oc_write conv s os = foldl (oc_char conv) os s"
proof (cases "oc_last os = 13 \<and> s \<noteq> [] \<and> hd s = 10")
  case True
  then obtain s' where s: "s = 10 # s'" by (cases s) auto
  then have "foldl (oc_char conv) os s = foldl (oc_char conv) (os\<lparr>oc_last := 10\<rparr>) s'" using True by (simp add: oc_char_def)
  then show ?thesis using True oc_loop_chars [of "os\<lparr>oc_last := 10\<rparr>" s' conv] by (simp add: s oc_write_def)
next
  case False
  then show ?thesis using oc_loop_chars [OF False, of conv] by (auto simp: oc_write_def)
qed

section \<open>Properties of writing\<close>

text \<open>
  (C28) How a text is cut into writes does not matter, also between the two characters of a line break: the adapter is in the same
  state as behind one write of the whole.
\<close>
theorem oc_pieces:
  "foldl (\<lambda>os s. oc_write conv s os) os ps = oc_write conv (concat ps) os"
  unfolding oc_write_chars by (induction ps arbitrary: os) auto

lemma oc_lines_chars:
  assumes "brk \<in> {[13, 10], [13], [10]}" "list_all (list_all (\<lambda>c. \<not> is_break c)) ls" "oc_line os = []" "brk = [10] \<longrightarrow> oc_last os \<noteq> 13"
  shows "\<exists>c. foldl (oc_char conv) os (concat (map (\<lambda>l. l @ brk) ls)) = \<lparr>oc_out = oc_out os @ concat (map (\<lambda>l. conv l @ [10]) ls), oc_line = [], oc_last = c\<rparr>"
  using assms(2-)
proof (induction ls arbitrary: os)
  case (Cons l ls)
  have l: "list_all (\<lambda>c. \<not> is_break c) l" using Cons.prems(1) by simp
  then have e: "last l \<noteq> 13" if "l \<noteq> []" using that by (auto simp: list_all_iff is_break_def)
  define c where "c = last brk"
  have f: "foldl (oc_char conv) os (l @ brk) = \<lparr>oc_out = oc_out os @ conv l @ [10], oc_line = [], oc_last = c\<rparr>"
    using assms(1) Cons.prems(2,3) e by (auto simp: oc_chars_plain [OF l] oc_char_def c_def)
  have "brk = [10] \<longrightarrow> c \<noteq> 13" by (simp add: c_def)
  then show ?case using Cons.IH [of "\<lparr>oc_out = oc_out os @ conv l @ [10], oc_line = [], oc_last = c\<rparr>"] Cons.prems(1) f by simp
next
  case (Nil os)
  then show ?case by (cases os) simp
qed

text \<open>
  Lines that end with any one kind of break come out converted, each with a line feed, and the rest without a break
  comes out when the adapter is closed.
\<close>
theorem oc_lines:
  assumes "brk \<in> {[13, 10], [13], [10]}" "list_all (list_all (\<lambda>c. \<not> is_break c)) ls" "list_all (\<lambda>c. \<not> is_break c) rest"
  shows "oc_out (oc_close conv (oc_write conv (concat (map (\<lambda>l. l @ brk) ls) @ rest) ostream_codecvt_new))
    = concat (map (\<lambda>l. conv l @ [10]) ls) @ (if rest = [] then [] else conv rest)"
proof -
  obtain c where c: "foldl (oc_char conv) ostream_codecvt_new (concat (map (\<lambda>l. l @ brk) ls))
      = \<lparr>oc_out = concat (map (\<lambda>l. conv l @ [10]) ls), oc_line = [], oc_last = c\<rparr>"
    using oc_lines_chars [OF assms(1,2), of ostream_codecvt_new conv] by (auto simp: ostream_codecvt_new_def)
  show ?thesis unfolding oc_write_chars foldl_append c by (simp add: oc_chars_plain [OF assms(3)] oc_close_def)
qed

theorem oc_lines_witness:
  "oc_out (oc_close id (oc_write id [97, 13, 10, 13, 10, 98] ostream_codecvt_new)) = [97, 10, 10, 98]"
  using oc_lines [of "[13, 10]" "[[97], []]" "[98]" id] by (simp add: is_break_def)

section \<open>Properties of reading\<close>

text \<open>The lines behind the breaks that are still to be written.\<close>

fun ic_text :: "(byte list \<Rightarrow> byte list) \<Rightarrow> byte list \<Rightarrow> byte list list \<Rightarrow> byte list" where
  "ic_text conv pend [] = []"
| "ic_text conv pend (l # ls) = (if l = [] then ic_text conv (pend @ [10]) ls else pend @ conv l @ ic_text conv [10] ls)"

fun ic_pend :: "byte list \<Rightarrow> byte list list \<Rightarrow> byte list" where
  "ic_pend pend [] = pend"
| "ic_pend pend (l # ls) = ic_pend (if l = [] then pend @ [10] else [10]) ls"

definition line_ok :: "byte list \<Rightarrow> bool" where
  "line_ok l \<longleftrightarrow> 10 \<notin> set l \<and> (l \<noteq> [] \<longrightarrow> last l \<noteq> 13 \<and> last l \<noteq> 0)"

lemma getline_text:
  assumes "line_ok l" "brk = [13, 10] \<or> brk = [10]"
  shows "getline (l @ brk @ r) = Some (l @ butlast brk, r)" "trim_crln (l @ butlast brk) = l"
proof -
  have b: "list_all (\<lambda>c. c \<noteq> 10) (l @ butlast brk)" "brk = butlast brk @ [10]" using assms by (auto simp: line_ok_def list_all_iff)
  have w: "list_all P xs \<Longrightarrow> \<not> P y \<Longrightarrow> takeWhile P (xs @ y # ys) = xs \<and> dropWhile P (xs @ y # ys) = y # ys" for P and xs ys :: "byte list" and y
    by (induction xs) auto
  have e: "l @ brk @ r = (l @ butlast brk) @ 10 # r" by (subst b(2)) simp
  have g: "getline x = (if x = [] then None else Some (takeWhile (\<lambda>c. c \<noteq> 10) x, tl (dropWhile (\<lambda>c. c \<noteq> 10) x)))" for x by (cases x) auto
  show "getline (l @ brk @ r) = Some (l @ butlast brk, r)" using w [OF b(1), of 10 r] unfolding e g by simp
  have l: "l = [] \<or> last l \<noteq> 13 \<and> last l \<noteq> 10 \<and> last l \<noteq> 0" using assms(1) last_in_set [of l] by (cases "l = []") (auto simp: line_ok_def simp del: last_in_set)
  have "dropWhile (\<lambda>c. c = 13 \<or> c = 10 \<or> c = 0) (rev l) = rev l" using l by (cases l rule: rev_cases) auto
  then show "trim_crln (l @ butlast brk) = l" using assms(2) by (auto simp: trim_crln_def)
qed

lemma ic_loop_text:
  assumes "list_all line_ok ls" "brk = [13, 10] \<or> brk = [10]" "length (ic_text conv pend ls) < i"
  shows "ic_loop conv i pend (concat (map (\<lambda>l. l @ brk) ls))
    = (map Some (ic_text conv pend ls), i - length (ic_text conv pend ls), \<lparr>ic_src = [], ic_line = ic_pend pend ls\<rparr>)"
  using assms(1,3)
proof (induction ls arbitrary: pend i)
  case Nil
  then show ?case by (subst ic_loop.simps) simp
next
  case (Cons l ls)
  have g: "getline (concat (map (\<lambda>l. l @ brk) (l # ls))) = Some (l @ butlast brk, concat (map (\<lambda>l. l @ brk) ls))" "trim_crln (l @ butlast brk) = l"
    using getline_text(1) [of l brk "concat (map (\<lambda>l. l @ brk) ls)"] getline_text(2) [of l brk] Cons.prems(1) assms(2) by simp_all
  show ?case
  proof (cases "l = []")
    case True
    then show ?thesis using Cons.IH [of "pend @ [10]" i] Cons.prems g by (subst ic_loop.simps) simp
  next
    case False
    have i: "length (pend @ conv l) + length (ic_text conv [10] ls) < i" using Cons.prems(2) False by simp
    show ?thesis using False Cons.IH [of "[10]" "i - length (pend @ conv l)"] Cons.prems(1) g i by (subst ic_loop.simps) (simp add: Let_def)
  qed
qed

fun join_lines :: "byte list list \<Rightarrow> byte list" where
  "join_lines [] = []"
| "join_lines [l] = l"
| "join_lines (l # ls) = l @ 10 # join_lines ls"

lemma ic_text_join:
  "ls \<noteq> [] \<Longrightarrow> last ls \<noteq> [] \<Longrightarrow> ic_text conv pend ls = pend @ join_lines (map (\<lambda>l. if l = [] then [] else conv l) ls) \<and> ic_pend pend ls = [10]"
proof (induction ls arbitrary: pend)
  case (Cons l ls)
  show ?case
  proof (cases ls)
    case (Cons l' ls')
    then show ?thesis using Cons.IH Cons.prems by auto
  qed (use Cons.prems in auto)
qed simp

text \<open>
  With room for one more character than the text has, a read gets all the lines converted, with line feeds between them
  whatever their breaks were, but without the one at the end, and the next read reports the end.
\<close>
theorem ic_read_all:
  assumes "list_all line_ok ls" "brk = [13, 10] \<or> brk = [10]" "ls \<noteq> []" "last ls \<noteq> []" "0 < m"
    "text = join_lines (map (\<lambda>l. if l = [] then [] else conv l) ls)" "length text < n" "text \<noteq> []"
  shows "\<exists>is. ic_read conv n \<lparr>ic_src = concat (map (\<lambda>l. l @ brk) ls), ic_line = []\<rparr> = (map Some text, Some (length text), is)
    \<and> ic_read conv m is = ([], None, is)"
proof -
  have t: "ic_text conv [] ls = text" "ic_pend [] ls = [10]" using ic_text_join [OF assms(3,4), of conv "[]"] assms(6) by simp_all
  have "0 < length text" using assms(8) by simp
  then have "n - length text \<noteq> n" using assms(7) by linarith
  then have "ic_read conv n \<lparr>ic_src = concat (map (\<lambda>l. l @ brk) ls), ic_line = []\<rparr> = (map Some text, Some (length text), \<lparr>ic_src = [], ic_line = [10]\<rparr>)"
    using ic_loop_text [OF assms(1,2), of conv "[]" n] assms(7) by (simp add: ic_read_def t)
  moreover have "ic_read conv m \<lparr>ic_src = [], ic_line = [10]\<rparr> = ([], None, \<lparr>ic_src = [], ic_line = [10]\<rparr>)"
    using assms(5) by (simp add: ic_read_def ic_loop.simps)
  ultimately show ?thesis by blast
qed

theorem ic_read_all_witness:
  "\<exists>is. ic_read id 4 \<lparr>ic_src = [97, 13, 10, 98, 13, 10], ic_line = []\<rparr> = (map Some [97, 10, 98], Some 3, is) \<and> ic_read id 4 is = ([], None, is)"
  using ic_read_all [of "[[97], [98]]" "[13, 10]" 4 "[97, 10, 98]" id 4] by (simp add: line_ok_def numeral_3_eq_3)

text \<open>
  A line that does not fit into the buffer is lost: a read that the rest of the line (of two characters or more) fills reports
  that many characters but writes none of them.
\<close>
theorem ic_read_lost:
  assumes "10 \<notin> set l" "trim_crln l \<noteq> []" "text = conv (trim_crln l)" "0 < n" "0 < m" "n + 1 < length text" "n + m \<le> length text"
  shows "\<exists>is is'. ic_read conv n \<lparr>ic_src = l @ 10 # src, ic_line = []\<rparr> = (map Some (take n text), Some n, is)
    \<and> ic_read conv m is = (replicate m None, Some m, is')"
proof -
  have w: "list_all P xs \<Longrightarrow> \<not> P y \<Longrightarrow> takeWhile P (xs @ y # ys) = xs \<and> dropWhile P (xs @ y # ys) = y # ys" for P and xs ys :: "byte list" and y
    by (induction xs) auto
  have "list_all (\<lambda>c. c \<noteq> 10) l" using assms(1) by (auto simp: list_all_iff)
  then have g: "getline (l @ 10 # src) = Some (l, src)" using w [of "\<lambda>c. c \<noteq> 10" l 10 src] by (cases "l @ 10 # src") auto
  define st where "st = \<lparr>ic_src = src, ic_line = drop n text\<rparr>"
  have z: "ic_loop conv 0 x y = ([], 0, \<lparr>ic_src = y, ic_line = x\<rparr>)" for x y by (subst ic_loop.simps) simp
  have "ic_loop conv n [] (l @ 10 # src) = (map Some (take n text), 0, st)"
    using g assms(2,4,6) by (subst ic_loop.simps) (simp add: z st_def min_def Let_def flip: assms(3))
  then have "ic_read conv n \<lparr>ic_src = l @ 10 # src, ic_line = []\<rparr> = (map Some (take n text), Some n, st)"
    using assms(4) by (simp add: ic_read_def)
  moreover have "ic_read conv m st = (replicate m None, Some m, st\<lparr>ic_line := drop m (ic_line st)\<rparr>)"
    using assms(5-7) by (cases "length text - n = m") (simp_all add: ic_read_def st_def z min_def Let_def, linarith?)
  ultimately show ?thesis by blast
qed

theorem ic_read_lost_witness:
  "\<exists>is is'. ic_read id 2 \<lparr>ic_src = [97, 98, 99, 100, 10], ic_line = []\<rparr> = ([Some 97, Some 98], Some 2, is) \<and> ic_read id 2 is = ([None, None], Some 2, is')"
proof -
  have t: "trim_crln [97, 98, 99, 100] = [97, 98, 99, 100]" by code_simp
  have "10 \<notin> set [97, 98, 99, 100 :: byte]" by code_simp
  then show ?thesis using ic_read_lost [of "[97, 98, 99, 100]" "[97, 98, 99, 100]" id 2 2 "[]"] t
    by (simp add: numeral_2_eq_2)
qed

section \<open>Reads between encodings\<close>

text \<open>The reference: the conversion of all that is left.\<close>

function cv_all :: "'c utf \<Rightarrow> 'c list \<Rightarrow> byte list" where
  "cv_all u [] = []"
| "cv_all u (c # cs) =
     (let k = nat (u_trail u c)
      in if length cs < k then []
         else (case u_decode u (c # take k cs) of None \<Rightarrow> [] | Some cp \<Rightarrow> u_encode u cp) @ cv_all u (drop k cs))"
  by pat_completeness auto
termination
  by (relation "measure (\<lambda>(u, src). length src)") auto

definition cv_unit :: "'c utf \<Rightarrow> 'c \<Rightarrow> 'c list \<Rightarrow> byte list" where
  "cv_unit u c cs = (case u_decode u (c # take (nat (u_trail u c)) cs) of None \<Rightarrow> [] | Some cp \<Rightarrow> u_encode u cp)"

lemma cv_loop_step:
  "\<not> n \<le> i \<Longrightarrow> cv_loop u n i (c # cs)
    = (if length cs < nat (u_trail u c) then ([], [], True)
       else (cv_unit u c cs @ fst (cv_loop u n (i + length (cv_unit u c cs)) (drop (nat (u_trail u c)) cs)),
             snd (cv_loop u n (i + length (cv_unit u c cs)) (drop (nat (u_trail u c)) cs))))"
  by (subst cv_loop.simps) (simp add: cv_unit_def Let_def case_prod_beta)

lemma cv_loop_stop: "n \<le> i \<or> src = [] \<Longrightarrow> cv_loop u n i src = ([], src, False)"
  by (subst cv_loop.simps) auto

lemma cv_loop_all: "fst (cv_loop u n i src) @ cv_all u (fst (snd (cv_loop u n i src))) = cv_all u src"
proof (induction "length src" arbitrary: i src rule: less_induct)
  case less
  show ?case
  proof (cases "n \<le> i \<or> src = []")
    case False
    then obtain c cs where c: "src = c # cs" "\<not> n \<le> i" by (cases src) auto
    then show ?thesis using less [of "drop (nat (u_trail u c)) cs"] by (simp add: cv_loop_step cv_unit_def Let_def)
  qed (simp add: cv_loop_stop)
qed

locale utf_units =
  fixes u :: "'c utf" and w :: nat
  assumes encode_length: "length (u_encode u cp) \<le> w"
begin

lemma loop_bound: "i < n + w \<Longrightarrow> i + length (fst (cv_loop u n i src)) < n + w"
proof (induction "length src" arbitrary: i src rule: less_induct)
  case less
  show ?case
  proof (cases "n \<le> i \<or> src = []")
    case True
    then show ?thesis using less.prems by (simp add: cv_loop_stop)
  next
    case False
    then obtain c cs where c: "src = c # cs" "\<not> n \<le> i" by (cases src) auto
    have "length (cv_unit u c cs) \<le> w" using encode_length by (auto simp: cv_unit_def split: option.splits)
    then have "i + length (cv_unit u c cs) < n + w" using c(2) by simp
    then show ?thesis using less.hyps [of "drop (nat (u_trail u c)) cs" "i + length (cv_unit u c cs)"] less.prems c by (simp add: cv_loop_step add.assoc)
  qed
qed

end

text \<open>UTF-32 to UTF-8.\<close>

definition utf8_encode :: "nat \<Rightarrow> byte list" where
  "utf8_encode cp =
     (if cp < 128 then [word_of_nat cp]
      else if cp < 2048 then [word_of_nat (192 + cp div 64), word_of_nat (128 + cp mod 64)]
      else if cp < 65536 then [word_of_nat (224 + cp div 4096), word_of_nat (128 + cp div 64 mod 64), word_of_nat (128 + cp mod 64)]
      else [word_of_nat (240 + cp div 262144), word_of_nat (128 + cp div 4096 mod 64), word_of_nat (128 + cp div 64 mod 64), word_of_nat (128 + cp mod 64)])"

definition utf32_utf8 :: "32 word utf" where
  "utf32_utf8 =
     \<lparr>u_trail = (\<lambda>_. 0), u_decode = (\<lambda>cs. let n = unat (hd cs) in if n < 1114112 \<and> \<not> (55296 \<le> n \<and> n \<le> 57343) then Some n else None),
      u_encode = utf8_encode\<rparr>"

interpretation utf32_utf8: utf_units utf32_utf8 4
  by unfold_locales (simp add: utf32_utf8_def utf8_encode_def)

text \<open>
  Reads between encodings lose and repeat nothing: what a read gives, with the conversion of what is left, is the conversion
  of the whole. But only the start of a character is checked against the room: up to one unit less than a character can have
  are written behind the end of the buffer.
\<close>
theorem cv_read_parts:
  assumes "utf_units u w" "0 < n" "0 < w" "cv_read u n src = (out, res, rest)"
  shows "out @ cv_all u rest = cv_all u src \<and> length out < n + w"
proof -
  obtain o' r b where l: "cv_loop u n 0 src = (o', r, b)" by (cases "cv_loop u n 0 src")
  then have "out = o'" "rest = r" using assms(4) by (auto simp: cv_read_def)
  then show ?thesis using cv_loop_all [of u n 0 src] utf_units.loop_bound [OF assms(1), of 0 n src] assms(2) l by simp
qed

theorem cv_read_parts_witness:
  "cv_read utf32_utf8 1 [8364, 97] = ([226, 130, 172], Some 3, [97]) \<and> [226, 130, 172] @ cv_all utf32_utf8 [97] = cv_all utf32_utf8 [8364, 97]"
proof -
  have r: "cv_read utf32_utf8 1 [8364, 97] = ([226, 130, 172], Some 3, [97])"
    by (simp add: cv_read_def cv_loop_step cv_loop_stop cv_unit_def utf32_utf8_def utf8_encode_def)
  have n: "0 < (1::nat)" "0 < (4::nat)" by simp_all
  from cv_read_parts [OF utf32_utf8.utf_units_axioms n r] r show ?thesis by (intro conjI) (assumption, elim conjE)
qed

text \<open>\<open>write\<close> of the counter counts what it is asked to write, whatever the sink takes.\<close>

lemma counter_write_asked: "fst (snd (counter_write put s (cnt, sink))) = cnt + word_of_nat (length s)"
  by (simp add: counter_write_def case_prod_beta)

end
