(* ===== verification/Text_Utility.thy ===== *)
theory Text_Utility
  imports Email_Headers Codecvt
begin

text \<open>
  Texts for output: \<^verbatim>\<open>utility/hexdump.hpp\<close> and \<^verbatim>\<open>utility/string_cast.hpp\<close>. A dump that runs into undefined
  behaviour has the result \<open>None\<close>; the traits of Boost.Locale, which decode the start of a text and encode a code point, are
  parameters.
\<close>

section \<open>Dumps\<close>

definition dump_digit :: "nat \<Rightarrow> byte" where
  "dump_digit hex = word_of_nat (hex + (if hex < 10 then 48 else 87))"

definition put_hex :: "byte \<Rightarrow> byte list" where
  "put_hex ch = [dump_digit (unat (drop_bit 4 ch)), dump_digit (unat (ch AND 15))]"

text \<open>\<open>put_linum\<close>: the position, filled up with zeros to one place more than the length has.\<close>

definition put_linum :: "nat \<Rightarrow> nat \<Rightarrow> byte list" where
  "put_linum pos carry = (let t = dec_text pos in replicate (carry + 1 - length t) 48 @ t @ [32, 124, 32])"

text \<open>
  \<open>put_canon\<close> behind the elements \<open>xs\<close>: the elements of the line, where \<open>it\<close> must not go in front of the first one. The
  loop decrements before it tests.
\<close>

definition put_canon :: "nat \<Rightarrow> byte list \<Rightarrow> byte list option" where
  "put_canon len xs =
     (let p = length xs mod len; pos = (if 0 < p then p else len)
      in if length xs < pos then None
         else Some ((if 0 < p then replicate ((len - p) * 3) 32 else []) @ [32, 34]
           @ map (\<lambda>c. if isprint c then c else 46) (take (pos - 1) (drop (length xs - pos) xs)) @ [34]))"

fun put_rest :: "bool \<Rightarrow> nat \<Rightarrow> nat \<Rightarrow> byte list \<Rightarrow> byte list \<Rightarrow> byte list option" where
  "put_rest canonical len carry xs [] = Some []"
| "put_rest canonical len carry xs (c # cs) =
     Option.bind (if length xs mod len = 0
          then map_option (\<lambda>t. t @ [10] @ put_linum (length xs) carry) (if canonical then put_canon len xs else Some [])
          else Some [32])
       (\<lambda>t. map_option (\<lambda>u. t @ put_hex c @ u) (put_rest canonical len carry (xs @ [c]) cs))"

text \<open>\<open>puts\<close>: the number of digits comes from a logarithm, which has no value for an empty range.\<close>

definition hexdump :: "bool \<Rightarrow> nat \<Rightarrow> byte list \<Rightarrow> byte list option" where
  "hexdump canonical len xs =
     (case xs of
        [] \<Rightarrow> None
      | c # cs \<Rightarrow>
          if len = 0 then None
          else let carry = length (dec_text (length xs))
               in Option.bind (put_rest canonical len carry [c] cs)
                    (\<lambda>t. map_option (\<lambda>u. put_linum 0 carry @ put_hex c @ t @ u @ [10]) (if canonical then put_canon len xs else Some [])))"

text \<open>One line for the elements from a position on.\<close>

definition dump_line :: "bool \<Rightarrow> nat \<Rightarrow> nat \<Rightarrow> nat \<Rightarrow> byte list \<Rightarrow> byte list" where
  "dump_line canonical len carry pos l =
     put_linum pos carry @ tl (concat (map (\<lambda>c. 32 # put_hex c) l))
     @ (if canonical then replicate ((len - length l) * 3) 32 @ [32, 34] @ map (\<lambda>c. if isprint c then c else 46) (butlast l) @ [34] else []) @ [10]"

function dump_lines :: "bool \<Rightarrow> nat \<Rightarrow> nat \<Rightarrow> nat \<Rightarrow> byte list \<Rightarrow> byte list" where
  "dump_lines canonical len carry pos xs =
     (if xs = [] \<or> len = 0 then [] else dump_line canonical len carry pos (take len xs) @ dump_lines canonical len carry (pos + len) (drop len xs))"
  by auto
termination
  by (relation "measure (\<lambda>(canonical, len, carry, pos, xs). length xs)") auto

declare dump_lines.simps [simp del]

text \<open>The elements \<open>ys\<close> (whole lines) and \<open>l\<close> (the start of a line) were written.\<close>

lemma put_canon_line:
  assumes "length ys mod len = 0" "l \<noteq> []" "length l \<le> len"
  shows "put_canon len (ys @ l) = Some (replicate ((len - length l) * 3) 32 @ [32, 34] @ map (\<lambda>c. if isprint c then c else 46) (butlast l) @ [34])"
proof -
  have m: "length (ys @ l) mod len = length l mod len" using assms(1) by (metis add.left_neutral length_append mod_add_left_eq)
  have b: "take (length l - 1) l = butlast l" by (simp add: butlast_conv_take)
  show ?thesis
  proof (cases "length l = len")
    case True
    then show ?thesis using m assms(2) b by (simp add: put_canon_def Let_def)
  next
    case False
    then have "length l mod len = length l" using assms(3) by simp
    then show ?thesis using m assms(2) b by (simp add: put_canon_def Let_def)
  qed
qed

lemma put_rest_lines:
  assumes "0 < len" "length ys mod len = 0" "l \<noteq> []" "length l \<le> len"
  shows "\<exists>t u. put_rest canonical len carry (ys @ l) cs = Some t \<and> (if canonical then put_canon len (ys @ l @ cs) else Some []) = Some u
    \<and> put_linum (length ys) carry @ tl (concat (map (\<lambda>c. 32 # put_hex c) l)) @ t @ u @ [10] = dump_lines canonical len carry (length ys) (l @ cs)"
  using assms(2-4)
proof (induction cs arbitrary: ys l)
  case Nil
  show ?case using Nil put_canon_line [OF Nil] by (subst dump_lines.simps) (auto simp: dump_line_def dump_lines.simps assms(1))
next
  case (Cons c cs)
  show ?case
  proof (cases "length l = len")
    case False
    then have "(length (ys @ l)) mod len = length l" using Cons.prems by (simp add: mod_add_eq [symmetric])
    then have n: "length (ys @ l) mod len \<noteq> 0" using Cons.prems(2) by simp
    have t: "tl (concat (map (\<lambda>c. 32 # put_hex c) (l @ [c]))) = tl (concat (map (\<lambda>c. 32 # put_hex c) l)) @ 32 # put_hex c" using Cons.prems(2) by (cases l) auto
    obtain t u where p: "put_rest canonical len carry (ys @ l @ [c]) cs = Some t" "(if canonical then put_canon len (ys @ (l @ [c]) @ cs) else Some []) = Some u"
      "put_linum (length ys) carry @ tl (concat (map (\<lambda>c. 32 # put_hex c) (l @ [c]))) @ t @ u @ [10] = dump_lines canonical len carry (length ys) ((l @ [c]) @ cs)"
      using Cons.IH [of ys "l @ [c]"] Cons.prems False by auto
    show ?thesis by (rule exI [of _ "32 # put_hex c @ t"], rule exI [of _ u]) (use n p [unfolded t] in \<open>simp split: if_splits\<close>)
  next
    case True
    then have m: "length (ys @ l) mod len = 0" using Cons.prems(1) by simp
    obtain t u where t: "put_rest canonical len carry ((ys @ l) @ [c]) cs = Some t" "(if canonical then put_canon len ((ys @ l) @ [c] @ cs) else Some []) = Some u"
      "put_linum (length (ys @ l)) carry @ tl (concat (map (\<lambda>c. 32 # put_hex c) [c])) @ t @ u @ [10] = dump_lines canonical len carry (length (ys @ l)) ([c] @ cs)"
      using Cons.IH [of "ys @ l" "[c]"] m assms(1) by auto
    define k where "k = (if canonical then [32, 34] @ map (\<lambda>c. if isprint c then c else 46) (butlast l) @ [34] else [])"
    have k: "(if canonical then put_canon len (ys @ l) else Some []) = Some k" using put_canon_line [OF Cons.prems] True by (simp add: k_def)
    have d: "dump_lines canonical len carry (length ys) (l @ c # cs)
        = put_linum (length ys) carry @ tl (concat (map (\<lambda>c. 32 # put_hex c) l)) @ k @ [10] @ dump_lines canonical len carry (length ys + len) (c # cs)"
      using True assms(1) by (subst dump_lines.simps) (simp add: dump_line_def k_def)
    show ?thesis unfolding d
      by (rule exI [of _ "k @ [10] @ put_linum (length (ys @ l)) carry @ put_hex c @ t"], rule exI [of _ u])
        (use m t k True in \<open>auto split: if_splits\<close>)
  qed
qed

text \<open>
  A dump of a range that is not empty has one line for each \<open>Length\<close> elements: the position, the elements as hexadecimal
  numbers, and in the canonical form the text, in which the last element of every line is missing.
\<close>
theorem hexdump_lines:
  assumes "xs \<noteq> []" "0 < len"
  shows "hexdump canonical len xs = Some (dump_lines canonical len (length (dec_text (length xs))) 0 xs)"
proof -
  obtain c cs where xs: "xs = c # cs" using assms(1) by (cases xs) auto
  show ?thesis using put_rest_lines [OF assms(2), of "[]" "[c]" canonical "length (dec_text (length xs))" cs] assms(2)
    by (auto simp: hexdump_def xs)
qed

theorem hexdump_lines_witness:
  "hexdump True 2 [65, 66, 67] = Some (bytes_of ''00 | 41 42 '' @ [34, 65, 34, 10] @ bytes_of ''02 | 43   '' @ [32, 34, 34, 10])"
proof -
  have "dump_lines True 2 1 0 [65, 66, 67] = bytes_of ''00 | 41 42 '' @ [34, 65, 34, 10] @ bytes_of ''02 | 43   '' @ [32, 34, 34, 10]" by code_simp
  moreover have "length (dec_text (length [65 :: byte, 66, 67])) = 1" by (simp add: dec_text.simps)
  ultimately show ?thesis using hexdump_lines [of "[65, 66, 67]" 2 True] by simp
qed

section \<open>Strings of other characters\<close>

text \<open>
  \<open>convert_string::convert\<close> for another type of characters: code points that are illegal or incomplete are left out. Without
  progress of the decoder the loop does not end. For the same type the text is copied.
\<close>

partial_function (option) string_cast :: "('a list \<Rightarrow> nat option \<times> 'a list) \<Rightarrow> (nat \<Rightarrow> 'b list) \<Rightarrow> 'a list \<Rightarrow> 'b list option" where
  "string_cast dec enc s =
     (if s = [] then Some []
      else Option.bind (string_cast dec enc (snd (dec s))) (\<lambda>t. Some ((case fst (dec s) of None \<Rightarrow> [] | Some cp \<Rightarrow> enc cp) @ t)))"

definition string_copy :: "'a list \<Rightarrow> 'a list" where
  "string_copy s = s"

locale utf_codec =
  fixes dec :: "'a list \<Rightarrow> nat option \<times> 'a list" and enc :: "nat \<Rightarrow> 'a list" and legal :: "nat \<Rightarrow> bool"
  assumes encode_some: "legal cp \<Longrightarrow> enc cp \<noteq> []"
    and decode_encode: "legal cp \<Longrightarrow> dec (enc cp @ r) = (Some cp, r)"
begin

lemma cast_points: "list_all legal cps \<Longrightarrow> string_cast dec enc' (concat (map enc cps)) = Some (concat (map enc' cps))"
proof (induction cps)
  case Nil
  show ?case by (subst string_cast.simps) simp
next
  case (Cons cp cps)
  then show ?case using encode_some [of cp] decode_encode [of cp "concat (map enc cps)"] by (subst string_cast.simps) simp
qed

end

text \<open>UTF-8 and UTF-32.\<close>

definition unicode :: "nat \<Rightarrow> bool" where
  "unicode cp \<longleftrightarrow> cp < 1114112 \<and> \<not> (55296 \<le> cp \<and> cp \<le> 57343)"

definition utf8_trail :: "nat \<Rightarrow> nat option" where
  "utf8_trail n = (if n < 128 then Some 0 else if n < 194 then None else if n < 224 then Some 1 else if n < 240 then Some 2 else if n \<le> 244 then Some 3 else None)"

fun utf8_tail :: "nat \<Rightarrow> nat \<Rightarrow> byte list \<Rightarrow> nat option \<times> byte list" where
  "utf8_tail 0 cp bs = (Some cp, bs)"
| "utf8_tail (Suc k) cp [] = (None, [])"
| "utf8_tail (Suc k) cp (b # bs) = (if 128 \<le> unat b \<and> unat b < 192 then utf8_tail k (cp * 64 + (unat b - 128)) bs else (None, bs))"

fun utf8_decode :: "byte list \<Rightarrow> nat option \<times> byte list" where
  "utf8_decode [] = (None, [])"
| "utf8_decode (b # bs) =
     (case utf8_trail (unat b) of
        None \<Rightarrow> (None, bs)
      | Some k \<Rightarrow>
          let (m, r) = utf8_tail k (if k = 0 then unat b else unat b mod 2 ^ (6 - k)) bs
          in (case m of None \<Rightarrow> None | Some cp \<Rightarrow> if unicode cp \<and> length (utf8_encode cp) = k + 1 then Some cp else None, r))"

definition utf32_encode :: "nat \<Rightarrow> 32 word list" where
  "utf32_encode cp = [word_of_nat cp]"

fun utf32_decode :: "32 word list \<Rightarrow> nat option \<times> 32 word list" where
  "utf32_decode [] = (None, [])"
| "utf32_decode (c # cs) = (if unicode (unat c) then Some (unat c) else None, cs)"

lemma unat_byte: "n < 256 \<Longrightarrow> unat (word_of_nat n :: byte) = n"
  by (simp add: unsigned_of_nat take_bit_eq_mod)

lemma base64_digits:
  fixes cp :: nat
  shows "cp div 64 * 64 + cp mod 64 = cp" "(cp div 4096 * 64 + cp div 64 mod 64) * 64 + cp mod 64 = cp"
    "((cp div 262144 * 64 + cp div 4096 mod 64) * 64 + cp div 64 mod 64) * 64 + cp mod 64 = cp"
proof -
  have d: "cp div 4096 = cp div 64 div 64" "cp div 262144 = cp div 64 div 64 div 64" by (simp_all add: div_mult2_eq [symmetric])
  show "cp div 64 * 64 + cp mod 64 = cp" "(cp div 4096 * 64 + cp div 64 mod 64) * 64 + cp mod 64 = cp"
    "((cp div 262144 * 64 + cp div 4096 mod 64) * 64 + cp div 64 mod 64) * 64 + cp mod 64 = cp"
    unfolding d by simp_all
qed

lemma utf8_tail_step: "y < 64 \<Longrightarrow> utf8_tail (Suc k) cp (word_of_nat (128 + y) # bs) = utf8_tail k (cp * 64 + y) bs"
  using unat_byte [of "128 + y"] by (simp del: of_nat_add)

lemma utf8_lead:
  "x < 32 \<Longrightarrow> 2 \<le> x \<Longrightarrow> unat (word_of_nat (192 + x) :: byte) = 192 + x \<and> utf8_trail (192 + x) = Some 1 \<and> (192 + x) mod 32 = x"
  "x < 16 \<Longrightarrow> unat (word_of_nat (224 + x) :: byte) = 224 + x \<and> utf8_trail (224 + x) = Some 2 \<and> (224 + x) mod 16 = x"
  "x < 5 \<Longrightarrow> unat (word_of_nat (240 + x) :: byte) = 240 + x \<and> utf8_trail (240 + x) = Some 3 \<and> (240 + x) mod 8 = x"
  using unat_byte [of "192 + x"] unat_byte [of "224 + x"] unat_byte [of "240 + x"] mod_mult_self4 [of 32 6 x] mod_mult_self4 [of 16 14 x] mod_mult_self4 [of 8 30 x]
  by (simp_all add: utf8_trail_def del: of_nat_add)

lemma utf8_decode_encode: "unicode cp \<Longrightarrow> utf8_decode (utf8_encode cp @ r) = (Some cp, r)"
proof -
  assume u: "unicode cp"
  then have b: "cp < 1114112" by (simp add: unicode_def)
  have m: "x mod 64 < 64" for x :: nat by simp
  consider "cp < 128" | "128 \<le> cp" "cp < 2048" | "2048 \<le> cp" "cp < 65536" | "65536 \<le> cp" by linarith
  then show ?thesis
  proof cases
    case 1
    then show ?thesis using u by (simp add: utf8_encode_def utf8_trail_def unat_byte)
  next
    case 2
    then have "cp div 64 < 32" "2 \<le> cp div 64" by (simp_all add: div_less_iff_less_mult less_eq_div_iff_mult_less_eq)
    moreover define x y where "x = cp div 64" and "y = cp mod 64"
    ultimately have x: "x < 32" "2 \<le> x" "y < 64" "x * 64 + y = cp" using m base64_digits(1) [of cp] by simp_all
    have e: "utf8_encode cp = [word_of_nat (192 + x), word_of_nat (128 + y)]" using 2 by (simp add: utf8_encode_def x_def y_def)
    then have "length (utf8_encode cp) = 2" by simp
    then show ?thesis using u x utf8_lead(1) [OF x(1,2)] utf8_tail_step [OF x(3), of 0 x r] by (simp add: e del: of_nat_add)
  next
    case 3
    then have "cp div 4096 < 16" by (simp add: div_less_iff_less_mult)
    moreover define x y z where "x = cp div 4096" and "y = cp div 64 mod 64" and "z = cp mod 64"
    ultimately have x: "x < 16" "y < 64" "z < 64" "(x * 64 + y) * 64 + z = cp" using m base64_digits(2) [of cp] by simp_all
    have e: "utf8_encode cp = [word_of_nat (224 + x), word_of_nat (128 + y), word_of_nat (128 + z)]" using 3 by (simp add: utf8_encode_def x_def y_def z_def)
    have n: "length (utf8_encode cp) = 3" by (simp add: e)
    have "utf8_tail 2 x (word_of_nat (128 + y) # word_of_nat (128 + z) # r) = (Some cp, r)"
      using utf8_tail_step [OF x(2), of 1 x] utf8_tail_step [OF x(3), of 0 "x * 64 + y" r] x(4) by (simp add: numeral_2_eq_2 del: of_nat_add utf8_tail.simps(3))
    then show ?thesis using u n utf8_lead(2) [OF x(1)] by (simp add: e del: of_nat_add utf8_tail.simps)
  next
    case 4
    then have "cp div 262144 < 5" using b by (simp add: div_less_iff_less_mult)
    moreover define w x y z where "w = cp div 262144" and "x = cp div 4096 mod 64" and "y = cp div 64 mod 64" and "z = cp mod 64"
    ultimately have x: "w < 5" "x < 64" "y < 64" "z < 64" "((w * 64 + x) * 64 + y) * 64 + z = cp" using m base64_digits(3) [of cp] by simp_all
    have e: "utf8_encode cp = [word_of_nat (240 + w), word_of_nat (128 + x), word_of_nat (128 + y), word_of_nat (128 + z)]"
      using 4 by (simp add: utf8_encode_def w_def x_def y_def z_def)
    have n: "length (utf8_encode cp) = 4" by (simp add: e)
    have "utf8_tail 3 w (word_of_nat (128 + x) # word_of_nat (128 + y) # word_of_nat (128 + z) # r) = (Some cp, r)"
      using utf8_tail_step [OF x(2), of 2 w] utf8_tail_step [OF x(3), of 1 "w * 64 + x"] utf8_tail_step [OF x(4), of 0 "(w * 64 + x) * 64 + y" r] x(5)
      by (simp add: numeral_3_eq_3 numeral_2_eq_2 del: of_nat_add utf8_tail.simps(3))
    then show ?thesis using u n utf8_lead(3) [OF x(1)] by (simp add: e del: of_nat_add utf8_tail.simps)
  qed
qed

lemma utf32_decode_encode: "unicode cp \<Longrightarrow> utf32_decode (utf32_encode cp @ r) = (Some cp, r)"
  by (simp add: utf32_encode_def unicode_def unsigned_of_nat take_bit_eq_mod)

interpretation utf8: utf_codec utf8_decode utf8_encode unicode
  by unfold_locales (use utf8_decode_encode in \<open>auto simp: utf8_encode_def\<close>)

interpretation utf32: utf_codec utf32_decode utf32_encode unicode
  by unfold_locales (use utf32_decode_encode in \<open>auto simp: utf32_encode_def\<close>)

text \<open>
  A text of legal code points that is cast to another type of characters and back is the same text; so are UTF-8 and UTF-32.
\<close>
theorem string_cast_roundtrip:
  assumes "utf_codec dec1 enc1 legal" "utf_codec dec2 enc2 legal" "list_all legal cps"
  shows "Option.bind (string_cast dec1 enc2 (concat (map enc1 cps))) (string_cast dec2 enc1) = Some (concat (map enc1 cps))"
  using utf_codec.cast_points [OF assms(1,3), of enc2] utf_codec.cast_points [OF assms(2,3), of enc1] by simp

theorem string_cast_roundtrip_witness:
  "Option.bind (string_cast utf8_decode utf32_encode [97, 226, 130, 172]) (string_cast utf32_decode utf8_encode) = Some [97, 226, 130, 172]"
  using string_cast_roundtrip [OF utf8.utf_codec_axioms utf32.utf_codec_axioms, of "[97, 8364]"]
  by (simp add: unicode_def utf8_encode_def)

end
