(* ===== verification/Host_Words.thy ===== *)
theory Host_Words
  imports Acqua_Prelude
begin

text \<open>
  Integers of the structures of the kernel, in the memory of a host with the low byte first: an \<open>int\<close> and an
  \<open>unsigned int\<close> of four bytes.
\<close>

definition u32_bytes :: "u32 \<Rightarrow> byte list" where
  "u32_bytes w = (let v = unat w in [word_of_nat v, word_of_nat (v div 256), word_of_nat (v div 65536), word_of_nat (v div 16777216)])"

definition host_u32 :: "byte list \<Rightarrow> u32" where
  "host_u32 bs = word_of_nat (le_val (take 4 bs))"

definition int_bytes :: "int \<Rightarrow> byte list" where
  "int_bytes n = u32_bytes (word_of_int n)"

definition host_int :: "byte list \<Rightarrow> int" where
  "host_int bs = sint (host_u32 bs)"

lemma sint_u32:
  assumes "- (2 ^ 31) \<le> m" and "m < 2 ^ 31"
  shows "sint (word_of_int m :: u32) = m"
proof -
  have "sint (word_of_int m :: u32) = signed_take_bit 31 m" by (simp add: sint_sbintrunc')
  also have "\<dots> = m" using assms by (intro signed_take_bit_int_eq_self) simp_all
  finally show ?thesis .
qed

lemma le_val_four_bytes:
  assumes "n < 2 ^ 32"
  shows "le_val [word_of_nat n, word_of_nat (n div 256), word_of_nat (n div 65536), word_of_nat (n div 16777216)] = n"
proof -
  have small: "unat (word_of_nat k :: byte) = k mod 256" for k by (simp add: unat_of_nat)
  have "n div 65536 = n div 256 div 256" and "n div 16777216 = n div 256 div 256 div 256" by (simp_all add: div_mult2_eq [symmetric])
  moreover have "n div 256 div 256 div 256 < 256" using assms by (simp add: div_mult2_eq [symmetric] less_mult_imp_div_less)
  ultimately show ?thesis by (simp add: small)
qed

lemma length_u32_bytes [simp]: "length (u32_bytes w) = 4"
  by (simp add: u32_bytes_def Let_def)

lemma length_int_bytes [simp]: "length (int_bytes m) = 4"
  by (simp add: int_bytes_def)

lemma le_val_u32_bytes [simp]: "le_val (u32_bytes w) = unat w"
  unfolding u32_bytes_def Let_def
  by (rule le_val_four_bytes) (use unsigned_less [of w] in simp)

lemma host_u32_bytes [simp]: "host_u32 (u32_bytes w @ bs) = w"
  by (simp add: host_u32_def)

lemma host_int_bytes: "host_int (int_bytes m @ bs) = sint (word_of_int m :: u32)"
  by (simp add: host_int_def int_bytes_def)

lemma host_int_bytes_range: "- (2 ^ 31) \<le> m \<Longrightarrow> m < 2 ^ 31 \<Longrightarrow> host_int (int_bytes m @ bs) = m"
  by (simp add: host_int_bytes sint_u32)

end
