(* ===== verification/Network_Interface.thy ===== *)
theory Network_Interface
  imports Internet4 Internet6 Linklayer Host_Words
begin

text \<open>
  The interfaces of the host (\<^verbatim>\<open>network/interface.hpp\<close>, \<^verbatim>\<open>network/interface.ipp\<close>,
  \<^verbatim>\<open>network/detail/impl/ifreq_opts.ipp\<close>). The list of \<open>getifaddrs\<close> is an argument, socket addresses are the bytes
  of the structures (of a host with the low byte first), and the system calls are a parameter. An access through a null pointer or
  behind a structure has the result \<open>None\<close>.
\<close>

section \<open>Entries\<close>

record ifaddrs =
  ifa_name :: string
  ifa_flags :: u32
  ifa_addr :: "byte list option"
  ifa_netmask :: "byte list option"
  ifa_ifu :: "byte list option"

definition sa_family :: "byte list \<Rightarrow> nat option" where
  "sa_family sa = (if length sa < 2 then None else Some (le_val (take 2 sa)))"

definition sa_part :: "nat \<Rightarrow> nat \<Rightarrow> byte list \<Rightarrow> byte list option" where
  "sa_part off n sa = (if length sa < off + n then None else Some (take n (drop off sa)))"

definition ifa_flag :: "nat \<Rightarrow> ifaddrs \<Rightarrow> bool" where
  "ifa_flag n ifa = bit (ifa_flags ifa) n"

definition is_up :: "ifaddrs \<Rightarrow> bool" where
  "is_up = ifa_flag 0"

definition is_loopback :: "ifaddrs \<Rightarrow> bool" where
  "is_loopback = ifa_flag 3"

definition is_running :: "ifaddrs \<Rightarrow> bool" where
  "is_running = ifa_flag 6"

definition has_multicast :: "ifaddrs \<Rightarrow> bool" where
  "has_multicast = ifa_flag 12"

text \<open>\<open>ifa_broadaddr\<close> and \<open>ifa_dstaddr\<close> are one pointer.\<close>

definition has_broadcast :: "ifaddrs \<Rightarrow> bool" where
  "has_broadcast ifa \<longleftrightarrow> ifa_flag 1 ifa \<and> ifa_ifu ifa \<noteq> None"

definition has_point_to_point :: "ifaddrs \<Rightarrow> bool" where
  "has_point_to_point ifa \<longleftrightarrow> ifa_flag 4 ifa \<and> ifa_ifu ifa \<noteq> None"

definition is_family :: "nat \<Rightarrow> ifaddrs \<Rightarrow> bool option" where
  "is_family f ifa = Option.bind (ifa_addr ifa) (\<lambda>sa. map_option (\<lambda>n. n = f) (sa_family sa))"

definition is_packet :: "ifaddrs \<Rightarrow> bool option" where
  "is_packet = is_family 17"

definition is_v4 :: "ifaddrs \<Rightarrow> bool option" where
  "is_v4 = is_family 2"

definition is_v6 :: "ifaddrs \<Rightarrow> bool option" where
  "is_v6 = is_family 10"

definition v4_part :: "byte list option \<Rightarrow> internet4_address option" where
  "v4_part sa = Option.bind sa (\<lambda>sa. map_option (\<lambda>bs. \<lparr>i4_bytes = bs\<rparr>) (sa_part 4 4 sa))"

definition v6_part :: "byte list option \<Rightarrow> internet6_address option" where
  "v6_part sa = Option.bind sa (\<lambda>sa. map_option (\<lambda>bs. \<lparr>i6_bytes = bs\<rparr>) (sa_part 8 16 sa))"

definition to_address_v4 :: "ifaddrs \<Rightarrow> internet4_address option" where
  "to_address_v4 ifa = Option.bind (is_v4 ifa) (\<lambda>b. if b then v4_part (ifa_addr ifa) else Some i4_default)"

definition to_netmask_v4 :: "ifaddrs \<Rightarrow> internet4_address option" where
  "to_netmask_v4 ifa = Option.bind (is_v4 ifa) (\<lambda>b. if b then v4_part (ifa_netmask ifa) else Some i4_default)"

definition to_broadcast_v4 :: "ifaddrs \<Rightarrow> internet4_address option" where
  "to_broadcast_v4 ifa = Option.bind (is_v4 ifa) (\<lambda>b. if b \<and> has_broadcast ifa then v4_part (ifa_ifu ifa) else Some i4_default)"

definition to_point_to_point_v4 :: "ifaddrs \<Rightarrow> internet4_address option" where
  "to_point_to_point_v4 ifa = Option.bind (is_v4 ifa) (\<lambda>b. if b \<and> has_point_to_point ifa then v4_part (ifa_ifu ifa) else Some i4_default)"

definition to_address_v6 :: "ifaddrs \<Rightarrow> internet6_address option" where
  "to_address_v6 ifa = Option.bind (is_v6 ifa) (\<lambda>b. if b then v6_part (ifa_addr ifa) else Some i6_default)"

definition to_netmask_v6 :: "ifaddrs \<Rightarrow> internet6_address option" where
  "to_netmask_v6 ifa = Option.bind (is_v6 ifa) (\<lambda>b. if b then v6_part (ifa_netmask ifa) else Some i6_default)"

definition to_broadcast_v6 :: "ifaddrs \<Rightarrow> internet6_address option" where
  "to_broadcast_v6 ifa = Option.bind (is_v6 ifa) (\<lambda>b. if b \<and> has_broadcast ifa then v6_part (ifa_ifu ifa) else Some i6_default)"

definition to_point_to_point_v6 :: "ifaddrs \<Rightarrow> internet6_address option" where
  "to_point_to_point_v6 ifa = Option.bind (is_v6 ifa) (\<lambda>b. if b \<and> has_point_to_point ifa then v6_part (ifa_ifu ifa) else Some i6_default)"

definition interface_scope_id :: "ifaddrs \<Rightarrow> int option" where
  "interface_scope_id ifa =
     Option.bind (is_v6 ifa) (\<lambda>b. if b then Option.bind (ifa_addr ifa) (\<lambda>sa. map_option host_int (sa_part 24 4 sa)) else Some (-1))"

definition interface_index :: "(string \<Rightarrow> u32) \<Rightarrow> ifaddrs \<Rightarrow> int" where
  "interface_index nametoindex ifa = sint (nametoindex (ifa_name ifa))"

text \<open>\<open>dump\<close>; numbers that are not negative are written in decimal.\<close>

definition int_str :: "int \<Rightarrow> string" where
  "int_str n = (if n < 0 then ''-'' else []) @ dec_str (nat \<bar>n\<bar>)"

definition dump_v4 :: "ifaddrs \<Rightarrow> string option" where
  "dump_v4 ifa =
     Option.bind (to_address_v4 ifa) (\<lambda>a. Option.bind (to_netmask_v4 ifa) (\<lambda>m. Option.bind (to_broadcast_v4 ifa) (\<lambda>b. map_option (\<lambda>p.
       '' inet '' @ i4_to_string a @ ''/'' @ dec_str (i4_netmask_length m)
       @ (if has_broadcast ifa then '' via '' @ i4_to_string b else []) @ (if has_point_to_point ifa then '' to '' @ i4_to_string p else []))
     (to_point_to_point_v4 ifa))))"

definition dump_v6 :: "(byte list \<Rightarrow> string) \<Rightarrow> ifaddrs \<Rightarrow> string option" where
  "dump_v6 ntop ifa =
     Option.bind (to_address_v6 ifa) (\<lambda>a. Option.bind (to_netmask_v6 ifa) (\<lambda>m. Option.bind (to_broadcast_v6 ifa) (\<lambda>b.
       Option.bind (to_point_to_point_v6 ifa) (\<lambda>p. map_option (\<lambda>s.
       '' inet6 '' @ i6_to_string ntop a @ ''/'' @ dec_str (i6_netmask_length m)
       @ (if has_broadcast ifa then '' via '' @ i6_to_string ntop b else []) @ (if has_point_to_point ifa then '' to '' @ i6_to_string ntop p else [])
       @ '' scope-id '' @ int_str s)
     (interface_scope_id ifa)))))"

definition dump_flags :: "ifaddrs \<Rightarrow> string" where
  "dump_flags ifa =
     '' < '' @ (if is_up ifa then ''UP '' else []) @ (if is_loopback ifa then ''LOOPBACK '' else []) @ (if is_running ifa then ''RUNNING '' else [])
     @ (if has_multicast ifa then ''MULTICAST '' else []) @ ''>''"

definition interface_dump :: "(byte list \<Rightarrow> string) \<Rightarrow> ifaddrs \<Rightarrow> string option" where
  "interface_dump ntop ifa =
     Option.bind (is_v4 ifa) (\<lambda>v4. Option.bind (if v4 then dump_v4 ifa else Some []) (\<lambda>t4.
       Option.bind (is_v6 ifa) (\<lambda>v6. map_option (\<lambda>t6. ifa_name ifa @ t4 @ t6 @ dump_flags ifa) (if v6 then dump_v6 ntop ifa else Some []))))"

section \<open>The list\<close>

text \<open>
  An iterator: the list that it shares, and the pointer to an entry, as the list and what is left from the entry on (a null pointer
  when nothing is).
\<close>

record if_iter =
  it_base :: "nat option"
  it_value :: "nat \<times> ifaddrs list"

text \<open>The list of a call of \<open>getifaddrs\<close> that did not fail.\<close>

definition if_begin :: "nat \<Rightarrow> ifaddrs list \<Rightarrow> if_iter" where
  "if_begin n ifas = \<lparr>it_base = Some n, it_value = (n, ifas)\<rparr>"

definition if_end :: if_iter where
  "if_end = \<lparr>it_base = None, it_value = (0, [])\<rparr>"

definition if_equal :: "if_iter \<Rightarrow> if_iter \<Rightarrow> bool" where
  "if_equal a b =
     (if snd (it_value a) = [] \<or> snd (it_value b) = [] then snd (it_value a) = [] \<and> snd (it_value b) = []
      else fst (it_value a) = fst (it_value b) \<and> length (snd (it_value a)) = length (snd (it_value b)))"

definition if_deref :: "if_iter \<Rightarrow> ifaddrs option" where
  "if_deref it = (case snd (it_value it) of [] \<Rightarrow> None | ifa # _ \<Rightarrow> Some ifa)"

definition if_incr :: "if_iter \<Rightarrow> if_iter option" where
  "if_incr it = (case snd (it_value it) of [] \<Rightarrow> None | _ # ifas \<Rightarrow> Some (it\<lparr>it_value := (fst (it_value it), ifas)\<rparr>))"

definition if_incr_post :: "if_iter \<Rightarrow> (if_iter \<times> if_iter) option" where
  "if_incr_post it = map_option (\<lambda>it'. (it, it')) (if_incr it)"

partial_function (option) if_for :: "(ifaddrs \<Rightarrow> 'a option) \<Rightarrow> if_iter \<Rightarrow> 'a list option" where
  "if_for f it =
     (if if_equal it if_end then Some []
      else Option.bind (if_deref it) (\<lambda>ifa. Option.bind (f ifa) (\<lambda>x. Option.bind (if_incr it) (\<lambda>it'. Option.bind (if_for f it') (\<lambda>xs. Some (x # xs))))))"

section \<open>Options\<close>

text \<open>
  \<open>ifreq\<close>: the name of 16 bytes and the union of 24 bytes. A system call gives its result and, when it fails, the error
  number.
\<close>

record ifreq =
  ifr_name :: "byte list"
  ifr_data :: "byte list"

datatype if_request = Get_index | Get_mtu | Set_mtu | Get_hwaddr | Set_hwaddr

record 'w if_calls =
  ic_socket :: "'w \<Rightarrow> (nat + int) \<times> 'w"
  ic_ioctl :: "int \<Rightarrow> if_request \<Rightarrow> ifreq \<Rightarrow> 'w \<Rightarrow> (nat + ifreq) \<times> 'w"
  ic_close :: "int \<Rightarrow> 'w \<Rightarrow> 'w"

record ifreq_opts =
  io_fd :: int
  io_ifr :: ifreq

definition ifreq_opts_new :: "byte list option \<Rightarrow> ifreq_opts" where
  "ifreq_opts_new name =
     \<lparr>io_fd = -1, io_ifr = \<lparr>ifr_name = (case name of None \<Rightarrow> replicate 16 0 | Some s \<Rightarrow> take 16 (s @ replicate 16 0)), ifr_data = replicate 24 0\<rparr>\<rparr>"

definition ifreq_opts_delete :: "'w if_calls \<Rightarrow> ifreq_opts \<Rightarrow> 'w \<Rightarrow> 'w" where
  "ifreq_opts_delete calls opts w = (if 0 \<le> io_fd opts then ic_close calls (io_fd opts) w else w)"

definition open_once :: "'w if_calls \<Rightarrow> ifreq_opts \<Rightarrow> 'w \<Rightarrow> nat option \<times> ifreq_opts \<times> 'w" where
  "open_once calls opts w =
     (if io_fd opts < 0
      then case ic_socket calls w of (Inl e, w') \<Rightarrow> (Some e, opts\<lparr>io_fd := -1\<rparr>, w') | (Inr fd, w') \<Rightarrow> (None, opts\<lparr>io_fd := fd\<rparr>, w')
      else (None, opts, w))"

definition if_ioctl :: "'w if_calls \<Rightarrow> if_request \<Rightarrow> (ifreq \<Rightarrow> ifreq) \<Rightarrow> ifreq_opts \<Rightarrow> 'w \<Rightarrow> nat option \<times> ifreq_opts \<times> 'w" where
  "if_ioctl calls req prepare opts w =
     (case open_once calls opts w of
        (Some e, opts', w') \<Rightarrow> (Some e, opts', w')
      | (None, opts', w') \<Rightarrow>
          (let ifr = prepare (io_ifr opts')
           in case ic_ioctl calls (io_fd opts') req ifr w' of
                (Inl e, w'') \<Rightarrow> (Some e, opts'\<lparr>io_ifr := ifr\<rparr>, w'')
              | (Inr ifr', w'') \<Rightarrow> (None, opts'\<lparr>io_ifr := ifr'\<rparr>, w'')))"

definition ifr_int :: "ifreq \<Rightarrow> int" where
  "ifr_int ifr = host_int (ifr_data ifr)"

definition get_mtu :: "'w if_calls \<Rightarrow> ifreq_opts \<Rightarrow> 'w \<Rightarrow> (int \<times> nat option) \<times> ifreq_opts \<times> 'w" where
  "get_mtu calls opts w = (case if_ioctl calls Get_mtu id opts w of (Some e, r) \<Rightarrow> ((-1, Some e), r) | (None, opts', w') \<Rightarrow> ((ifr_int (io_ifr opts'), None), opts', w'))"

definition get_index :: "'w if_calls \<Rightarrow> ifreq_opts \<Rightarrow> 'w \<Rightarrow> (int \<times> nat option) \<times> ifreq_opts \<times> 'w" where
  "get_index calls opts w = (case if_ioctl calls Get_index id opts w of (Some e, r) \<Rightarrow> ((-1, Some e), r) | (None, opts', w') \<Rightarrow> ((ifr_int (io_ifr opts'), None), opts', w'))"

definition set_mtu :: "'w if_calls \<Rightarrow> int \<Rightarrow> ifreq_opts \<Rightarrow> 'w \<Rightarrow> nat option \<times> ifreq_opts \<times> 'w" where
  "set_mtu calls mtu = if_ioctl calls Set_mtu (\<lambda>ifr. ifr\<lparr>ifr_data := int_bytes mtu @ drop 4 (ifr_data ifr)\<rparr>)"

definition get_lladdr :: "'w if_calls \<Rightarrow> ifreq_opts \<Rightarrow> 'w \<Rightarrow> (linklayer_address \<times> nat option) \<times> ifreq_opts \<times> 'w" where
  "get_lladdr calls opts w =
     (case if_ioctl calls Get_hwaddr id opts w of
        (Some e, r) \<Rightarrow> ((ll_default, Some e), r)
      | (None, opts', w') \<Rightarrow> ((\<lparr>ll_bytes = take 6 (drop 2 (ifr_data (io_ifr opts')))\<rparr>, None), opts', w'))"

definition set_lladdr :: "'w if_calls \<Rightarrow> linklayer_address \<Rightarrow> ifreq_opts \<Rightarrow> 'w \<Rightarrow> nat option \<times> ifreq_opts \<times> 'w" where
  "set_lladdr calls lladdr = if_ioctl calls Set_hwaddr (\<lambda>ifr. ifr\<lparr>ifr_data := [1, 0] @ ll_bytes lladdr @ drop 8 (ifr_data ifr)\<rparr>)"

text \<open>The members of \<open>interface\<close>, each with options of its own.\<close>

definition with_opts :: "'w if_calls \<Rightarrow> ifaddrs \<Rightarrow> (ifreq_opts \<Rightarrow> 'w \<Rightarrow> 'r \<times> ifreq_opts \<times> 'w) \<Rightarrow> 'w \<Rightarrow> 'r \<times> 'w" where
  "with_opts calls ifa f w =
     (let (r, opts, w') = f (ifreq_opts_new (Some (map (\<lambda>c. of_char c) (ifa_name ifa)))) w in (r, ifreq_opts_delete calls opts w'))"

definition interface_mtu :: "'w if_calls \<Rightarrow> ifaddrs \<Rightarrow> 'w \<Rightarrow> (int \<times> nat option) \<times> 'w" where
  "interface_mtu calls ifa = with_opts calls ifa (get_mtu calls)"

definition interface_set_mtu :: "'w if_calls \<Rightarrow> ifaddrs \<Rightarrow> int \<Rightarrow> 'w \<Rightarrow> nat option \<times> 'w" where
  "interface_set_mtu calls ifa mtu = with_opts calls ifa (set_mtu calls mtu)"

definition interface_lladdr :: "'w if_calls \<Rightarrow> ifaddrs \<Rightarrow> 'w \<Rightarrow> (linklayer_address \<times> nat option) \<times> 'w" where
  "interface_lladdr calls ifa = with_opts calls ifa (get_lladdr calls)"

definition interface_set_lladdr :: "'w if_calls \<Rightarrow> ifaddrs \<Rightarrow> linklayer_address \<Rightarrow> 'w \<Rightarrow> nat option \<times> 'w" where
  "interface_set_lladdr calls ifa lladdr = with_opts calls ifa (set_lladdr calls lladdr)"

section \<open>The loop over the list and the text\<close>

lemma if_for_step:
  "if_for f \<lparr>it_base = b, it_value = (n, ifas)\<rparr> =
     (case ifas of [] \<Rightarrow> Some []
      | ifa # ifas' \<Rightarrow> Option.bind (f ifa) (\<lambda>x. Option.bind (if_for f \<lparr>it_base = b, it_value = (n, ifas')\<rparr>) (\<lambda>xs. Some (x # xs))))"
  by (subst if_for.simps) (simp add: if_equal_def if_end_def if_deref_def if_incr_def split: list.splits)

lemma if_for_list: "if_for f \<lparr>it_base = b, it_value = (n, ifas)\<rparr> = those (map f ifas)"
proof (induction ifas)
  case Nil
  then show ?case by (simp add: if_for_step)
next
  case (Cons ifa ifas)
  then show ?case by (subst if_for_step) (simp add: map_conv_bind_option o_def split: option.splits)
qed

text \<open>A socket address of a family is long enough for its structure.\<close>

definition sa_complete :: "nat \<Rightarrow> byte list option \<Rightarrow> bool" where
  "sa_complete n sa = (case sa of None \<Rightarrow> False | Some bs \<Rightarrow> n \<le> length bs)"

definition ifaddrs_complete :: "ifaddrs \<Rightarrow> bool" where
  "ifaddrs_complete ifa =
     (case ifa_addr ifa of None \<Rightarrow> False
      | Some sa \<Rightarrow> 2 \<le> length sa
          \<and> (if le_val (take 2 sa) = 2
             then 8 \<le> length sa \<and> sa_complete 8 (ifa_netmask ifa) \<and> (has_broadcast ifa \<or> has_point_to_point ifa \<longrightarrow> sa_complete 8 (ifa_ifu ifa))
             else if le_val (take 2 sa) = 10
             then 28 \<le> length sa \<and> sa_complete 24 (ifa_netmask ifa) \<and> (has_broadcast ifa \<or> has_point_to_point ifa \<longrightarrow> sa_complete 24 (ifa_ifu ifa))
             else True))"

lemma v4_part_defined: "v4_part sa \<noteq> None \<longleftrightarrow> sa_complete 8 sa"
  by (cases sa) (auto simp: v4_part_def sa_part_def sa_complete_def)

lemma v6_part_defined: "v6_part sa \<noteq> None \<longleftrightarrow> sa_complete 24 sa"
  by (cases sa) (auto simp: v6_part_def sa_part_def sa_complete_def)

lemma bind_defined: "Option.bind x f \<noteq> None \<longleftrightarrow> (\<exists>y. x = Some y \<and> f y \<noteq> None)"
  by (cases x) auto

lemma family_value:
  assumes "ifa_addr ifa = Some sa" and "2 \<le> length sa"
  shows "is_family f ifa = Some (le_val (take 2 sa) = f)"
  using assms by (simp add: is_family_def sa_family_def)

lemma dump_v4_defined:
  assumes "is_v4 ifa = Some True"
  shows "dump_v4 ifa \<noteq> None \<longleftrightarrow>
     sa_complete 8 (ifa_addr ifa) \<and> sa_complete 8 (ifa_netmask ifa) \<and> (has_broadcast ifa \<or> has_point_to_point ifa \<longrightarrow> sa_complete 8 (ifa_ifu ifa))"
  unfolding v4_part_defined [symmetric] using assms
  by (auto simp: dump_v4_def to_address_v4_def to_netmask_v4_def to_broadcast_v4_def to_point_to_point_v4_def bind_eq_None_conv)

lemma dump_v6_defined:
  assumes "is_v6 ifa = Some True"
  shows "dump_v6 ntop ifa \<noteq> None \<longleftrightarrow>
     sa_complete 28 (ifa_addr ifa) \<and> sa_complete 24 (ifa_netmask ifa) \<and> (has_broadcast ifa \<or> has_point_to_point ifa \<longrightarrow> sa_complete 24 (ifa_ifu ifa))"
proof -
  have "interface_scope_id ifa \<noteq> None \<longleftrightarrow> sa_complete 28 (ifa_addr ifa)"
    using assms by (cases "ifa_addr ifa") (auto simp: interface_scope_id_def sa_part_def sa_complete_def)
  moreover have "sa_complete 24 (ifa_addr ifa)" if "sa_complete 28 (ifa_addr ifa)"
    using that by (cases "ifa_addr ifa") (simp_all add: sa_complete_def)
  ultimately show ?thesis
    unfolding v6_part_defined [symmetric] using assms
    by (auto simp: dump_v6_def to_address_v6_def to_netmask_v6_def to_broadcast_v6_def to_point_to_point_v6_def bind_eq_None_conv)
qed

lemma interface_dump_defined: "interface_dump ntop ifa \<noteq> None \<longleftrightarrow> ifaddrs_complete ifa"
proof (cases "\<exists>sa. ifa_addr ifa = Some sa \<and> 2 \<le> length sa")
  case False
  then show ?thesis
    by (cases "ifa_addr ifa") (auto simp: interface_dump_def is_v4_def is_family_def sa_family_def ifaddrs_complete_def)
next
  case True
  then obtain sa where sa: "ifa_addr ifa = Some sa" "2 \<le> length sa" by blast
  have fam: "is_v4 ifa = Some (le_val (take 2 sa) = 2)" "is_v6 ifa = Some (le_val (take 2 sa) = 10)"
    using family_value [OF sa] by (simp_all add: is_v4_def is_v6_def)
  consider "le_val (take 2 sa) = 2" | "le_val (take 2 sa) = 10" | "le_val (take 2 sa) \<noteq> 2" "le_val (take 2 sa) \<noteq> 10" by blast
  then show ?thesis
  proof cases
    case 1
    then show ?thesis using fam dump_v4_defined [of ifa] sa
      by (auto simp: interface_dump_def ifaddrs_complete_def sa_complete_def bind_eq_None_conv)
  next
    case 2
    then show ?thesis using fam dump_v6_defined [of ifa ntop] sa
      by (auto simp: interface_dump_def ifaddrs_complete_def sa_complete_def bind_eq_None_conv)
  next
    case 3
    then show ?thesis using fam sa by (simp add: interface_dump_def ifaddrs_complete_def)
  qed
qed

lemma those_defined: "those xs \<noteq> None \<longleftrightarrow> list_all (\<lambda>x. x \<noteq> None) xs"
  by (induction xs) (auto split: option.splits)

text \<open>
  A loop over \<open>interfaces\<close> ends: it runs its body once for every entry of the list of \<open>getifaddrs\<close>, in
  the order of the list. For \<open>dump\<close> it is defined exactly when every entry has an address, an entry of IPv4 or IPv6 also a netmask
  of its structure, and the broadcast or point-to-point address that its flags and its pointer announce. An entry
  without an address, which \<open>getifaddrs\<close> may give, is an access through a null pointer.
\<close>

theorem interfaces_loop:
  "if_for f (if_begin n ifas) = those (map f ifas)
   \<and> (if_for (interface_dump ntop) (if_begin n ifas) \<noteq> None \<longleftrightarrow> list_all ifaddrs_complete ifas)"
  by (simp add: if_begin_def if_for_list those_defined list_all_iff interface_dump_defined [of ntop, symmetric] del: not_None_eq)

text \<open>
  The text of an entry of IPv4 whose netmask is the mask of length \<open>k\<close> and that has no broadcast and no point-to-point address is its
  name, its address with the length \<open>k\<close>, and its flags.
\<close>

theorem interface_dump_v4:
  assumes "ifa_addr ifa = Some sa" and "8 \<le> length sa" and "le_val (take 2 sa) = 2"
    and "v4_part (ifa_netmask ifa) = Some \<lparr>i4_bytes = mask_bytes 4 k\<rparr>" and "k \<le> 32"
    and "\<not> has_broadcast ifa" and "\<not> has_point_to_point ifa"
  shows "interface_dump ntop ifa =
     Some (ifa_name ifa @ '' inet '' @ i4_to_string \<lparr>i4_bytes = take 4 (drop 4 sa)\<rparr> @ ''/'' @ dec_str k @ dump_flags ifa)"
proof -
  have fam: "is_v4 ifa = Some True" "is_v6 ifa = Some False"
    using family_value [OF assms(1)] assms(2, 3) by (simp_all add: is_v4_def is_v6_def)
  have "v4_part (ifa_addr ifa) = Some \<lparr>i4_bytes = take 4 (drop 4 sa)\<rparr>"
    using assms(1, 2) by (simp add: v4_part_def sa_part_def)
  moreover have "i4_netmask_length \<lparr>i4_bytes = mask_bytes 4 k\<rparr> = k"
    using netmask_length_mask_bytes [of k 4] assms(5) by (simp add: i4_netmask_length_def)
  ultimately show ?thesis using fam assms(4, 6, 7)
    by (simp add: interface_dump_def dump_v4_def to_address_v4_def to_netmask_v4_def to_broadcast_v4_def to_point_to_point_v4_def)
qed

theorem interface_dump_v4_witness:
  "interface_dump (\<lambda>_. []) \<lparr>ifa_name = ''lo'', ifa_flags = 73, ifa_addr = Some [2, 0, 0, 0, 127, 0, 0, 1, 0, 0, 0, 0, 0, 0, 0, 0],
       ifa_netmask = Some [2, 0, 0, 0, 255, 0, 0, 0, 0, 0, 0, 0, 0, 0, 0, 0], ifa_ifu = None\<rparr>
     = Some ''lo inet 127.0.0.1/8 < UP LOOPBACK RUNNING >''"
proof -
  let ?e = "\<lparr>ifa_name = ''lo'', ifa_flags = 73, ifa_addr = Some [2, 0, 0, 0, 127, 0, 0, 1, 0, 0, 0, 0, 0, 0, 0, 0],
       ifa_netmask = Some [2, 0, 0, 0, 255, 0, 0, 0, 0, 0, 0, 0, 0, 0, 0, 0], ifa_ifu = None\<rparr> :: ifaddrs"
  have "le_val (take 2 [2, 0, 0, 0, 127, 0, 0, 1, 0, 0, 0, 0, 0, 0, 0, 0 :: byte]) = 2" by simp
  moreover have "v4_part (ifa_netmask ?e) = Some \<lparr>i4_bytes = mask_bytes 4 8\<rparr>"
    by (simp add: v4_part_def sa_part_def partial_mask_bytes_def eval_nat_numeral)
  moreover have "\<not> has_broadcast ?e" and "\<not> has_point_to_point ?e" by (simp_all add: has_broadcast_def has_point_to_point_def)
  ultimately have "interface_dump (\<lambda>_. []) ?e =
      Some (''lo'' @ '' inet '' @ i4_to_string \<lparr>i4_bytes = [127, 0, 0, 1]\<rparr> @ ''/'' @ dec_str 8 @ dump_flags ?e)"
    using interface_dump_v4 [of ?e "[2, 0, 0, 0, 127, 0, 0, 1, 0, 0, 0, 0, 0, 0, 0, 0]" 8 "\<lambda>_. []"] by (simp add: eval_nat_numeral)
  moreover have "i4_to_string \<lparr>i4_bytes = [127, 0, 0, 1]\<rparr> = ''127.0.0.1''" by code_simp
  moreover have "dump_flags ?e = '' < UP LOOPBACK RUNNING >''" by code_simp
  moreover have "dec_str 8 = ''8''" by code_simp
  ultimately show ?thesis by simp
qed

section \<open>System calls\<close>

text \<open>The name that an \<open>ifreq\<close> of an interface has.\<close>

definition if_key :: "ifaddrs \<Rightarrow> byte list" where
  "if_key ifa = ifr_name (io_ifr (ifreq_opts_new (Some (map of_char (ifa_name ifa)))))"

lemma ifr_int_bytes: "ifr_data ifr = int_bytes m @ bs \<Longrightarrow> ifr_int ifr = sint (word_of_int m :: u32)"
  by (simp add: ifr_int_def host_int_bytes)

text \<open>
  What \<open>netdevice(7)\<close>, \<open>socket(2)\<close> and \<open>close(2)\<close> promise: a new descriptor is not negative and not in use, a request on an open
  descriptor reads or replaces the value of the named interface, a call that fails changes nothing.
\<close>

locale if_kernel =
  fixes calls :: "'w if_calls" and opened :: "'w \<Rightarrow> int set"
    and mtu_of :: "'w \<Rightarrow> byte list \<Rightarrow> int" and hw_of :: "'w \<Rightarrow> byte list \<Rightarrow> byte list"
  assumes socket_ok: "ic_socket calls w = (Inr fd, w') \<Longrightarrow>
      0 \<le> fd \<and> fd \<notin> opened w \<and> opened w' = insert fd (opened w) \<and> mtu_of w' = mtu_of w \<and> hw_of w' = hw_of w"
    and socket_error: "ic_socket calls w = (Inl e, w') \<Longrightarrow> opened w' = opened w \<and> mtu_of w' = mtu_of w \<and> hw_of w' = hw_of w"
    and close_ok: "opened (ic_close calls fd w) = opened w - {fd} \<and> mtu_of (ic_close calls fd w) = mtu_of w
      \<and> hw_of (ic_close calls fd w) = hw_of w"
    and ioctl_open: "ic_ioctl calls fd req ifr w = (res, w') \<Longrightarrow> opened w' = opened w"
    and ioctl_error: "ic_ioctl calls fd req ifr w = (Inl e, w') \<Longrightarrow> mtu_of w' = mtu_of w \<and> hw_of w' = hw_of w"
    and ioctl_get_mtu: "ic_ioctl calls fd Get_mtu ifr w = (Inr ifr', w') \<Longrightarrow> fd \<in> opened w \<Longrightarrow>
      ifr_int ifr' = mtu_of w (ifr_name ifr) \<and> mtu_of w' = mtu_of w \<and> hw_of w' = hw_of w"
    and ioctl_set_mtu: "ic_ioctl calls fd Set_mtu ifr w = (Inr ifr', w') \<Longrightarrow> fd \<in> opened w \<Longrightarrow>
      mtu_of w' = (mtu_of w)(ifr_name ifr := ifr_int ifr) \<and> hw_of w' = hw_of w"
    and ioctl_get_hwaddr: "ic_ioctl calls fd Get_hwaddr ifr w = (Inr ifr', w') \<Longrightarrow> fd \<in> opened w \<Longrightarrow>
      take 6 (drop 2 (ifr_data ifr')) = hw_of w (ifr_name ifr) \<and> mtu_of w' = mtu_of w \<and> hw_of w' = hw_of w"
    and ioctl_set_hwaddr: "ic_ioctl calls fd Set_hwaddr ifr w = (Inr ifr', w') \<Longrightarrow> fd \<in> opened w \<Longrightarrow>
      hw_of w' = (hw_of w)(ifr_name ifr := take 6 (drop 2 (ifr_data ifr))) \<and> mtu_of w' = mtu_of w"
begin

lemma fresh_ioctl:
  assumes "if_ioctl calls req prepare (ifreq_opts_new name) w = (ec, opts, w')"
  obtains (failed) e where "ec = Some e"
      and "opened (ifreq_opts_delete calls opts w') = opened w" and "mtu_of (ifreq_opts_delete calls opts w') = mtu_of w"
      and "hw_of (ifreq_opts_delete calls opts w') = hw_of w"
    | (served) fd w1 where "ec = None" and "fd \<in> opened w1" and "mtu_of w1 = mtu_of w" and "hw_of w1 = hw_of w"
      and "ic_ioctl calls fd req (prepare (io_ifr (ifreq_opts_new name))) w1 = (Inr (io_ifr opts), w')"
      and "opened (ifreq_opts_delete calls opts w') = opened w" and "mtu_of (ifreq_opts_delete calls opts w') = mtu_of w'"
      and "hw_of (ifreq_opts_delete calls opts w') = hw_of w'"
proof (cases "ic_socket calls w")
  case (Pair r w1)
  show ?thesis
  proof (cases r)
    case (Inl e)
    have "ec = Some e" and "w' = w1" and "io_fd opts = -1"
      using assms Pair Inl by (auto simp: if_ioctl_def open_once_def ifreq_opts_new_def)
    then show ?thesis using socket_error [OF Pair [unfolded Inl]] by (intro failed) (simp_all add: ifreq_opts_delete_def)
  next
    case (Inr fd)
    note sock = socket_ok [OF Pair [unfolded Inr]]
    obtain res w2 where ioctl: "ic_ioctl calls fd req (prepare (io_ifr (ifreq_opts_new name))) w1 = (res, w2)" by fastforce
    note opn = ioctl_open [OF ioctl]
    have fd: "io_fd (ifreq_opts_new name) = -1" by (simp add: ifreq_opts_new_def)
    show ?thesis
    proof (cases res)
      case (Inl e)
      have "ec = Some e" and "w' = w2" and "io_fd opts = fd"
        using assms Pair \<open>r = Inr fd\<close> ioctl Inl fd by (auto simp: if_ioctl_def open_once_def Let_def)
      then show ?thesis using sock opn close_ok [of fd w2] ioctl_error [OF ioctl [unfolded Inl]]
        by (intro failed) (simp_all add: ifreq_opts_delete_def)
    next
      case (Inr ifr)
      have opts: "ec = None" "w' = w2" "io_fd opts = fd" "io_ifr opts = ifr"
        using assms Pair \<open>r = Inr fd\<close> ioctl Inr fd by (auto simp: if_ioctl_def open_once_def Let_def)
      moreover have "ifreq_opts_delete calls opts w' = ic_close calls fd w2"
        using sock opts by (simp add: ifreq_opts_delete_def)
      moreover have "fd \<in> opened w1" using sock by simp
      ultimately show ?thesis using served [of fd w1] sock opn ioctl Inr close_ok [of fd w2] by simp
    qed
  qed
qed

lemma get_mtu_end:
  assumes "interface_mtu calls ifa w = ((m, ec), w')"
  shows "opened w' = opened w \<and> mtu_of w' = mtu_of w \<and> hw_of w' = hw_of w \<and> m = (if ec = None then mtu_of w (if_key ifa) else -1)"
proof -
  obtain ec' opts v where io: "if_ioctl calls Get_mtu id (ifreq_opts_new (Some (map of_char (ifa_name ifa)))) w = (ec', opts, v)"
    by (rule prod_cases3)
  have res: "w' = ifreq_opts_delete calls opts v \<and> ec = ec' \<and> m = (if ec = None then ifr_int (io_ifr opts) else -1)"
    using assms io by (auto simp: interface_mtu_def with_opts_def get_mtu_def split: option.splits)
  show ?thesis using io
  proof (cases rule: fresh_ioctl)
    case (failed e)
    then show ?thesis using res by simp
  next
    case (served fd w1)
    then show ?thesis using res ioctl_get_mtu [OF served(5) served(2)] by (simp add: if_key_def)
  qed
qed

lemma set_mtu_end:
  assumes "interface_set_mtu calls ifa m w = (ec, w')"
  shows "opened w' = opened w \<and> hw_of w' = hw_of w
    \<and> mtu_of w' = (if ec = None then (mtu_of w)(if_key ifa := sint (word_of_int m :: u32)) else mtu_of w)"
proof -
  let ?p = "\<lambda>ifr. ifr\<lparr>ifr_data := int_bytes m @ drop 4 (ifr_data ifr)\<rparr>"
  obtain ec' opts v where io: "if_ioctl calls Set_mtu ?p (ifreq_opts_new (Some (map of_char (ifa_name ifa)))) w = (ec', opts, v)"
    by (rule prod_cases3)
  have res: "w' = ifreq_opts_delete calls opts v \<and> ec = ec'"
    using assms io by (auto simp: interface_set_mtu_def with_opts_def set_mtu_def)
  show ?thesis using io
  proof (cases rule: fresh_ioctl)
    case (failed e)
    then show ?thesis using res by simp
  next
    case (served fd w1)
    then show ?thesis using res ioctl_set_mtu [OF served(5) served(2)] by (simp add: if_key_def ifr_int_bytes)
  qed
qed

lemma get_lladdr_end:
  assumes "interface_lladdr calls ifa w = ((a, ec), w')"
  shows "opened w' = opened w \<and> mtu_of w' = mtu_of w \<and> hw_of w' = hw_of w
    \<and> a = (if ec = None then \<lparr>ll_bytes = hw_of w (if_key ifa)\<rparr> else ll_default)"
proof -
  obtain ec' opts v where io: "if_ioctl calls Get_hwaddr id (ifreq_opts_new (Some (map of_char (ifa_name ifa)))) w = (ec', opts, v)"
    by (rule prod_cases3)
  have res: "w' = ifreq_opts_delete calls opts v \<and> ec = ec'
      \<and> a = (if ec = None then \<lparr>ll_bytes = take 6 (drop 2 (ifr_data (io_ifr opts)))\<rparr> else ll_default)"
    using assms io by (auto simp: interface_lladdr_def with_opts_def get_lladdr_def split: option.splits)
  show ?thesis using io
  proof (cases rule: fresh_ioctl)
    case (failed e)
    then show ?thesis using res by simp
  next
    case (served fd w1)
    then show ?thesis using res ioctl_get_hwaddr [OF served(5) served(2)] by (simp add: if_key_def)
  qed
qed

lemma set_lladdr_end:
  assumes "interface_set_lladdr calls ifa a w = (ec, w')" and "length (ll_bytes a) = 6"
  shows "opened w' = opened w \<and> mtu_of w' = mtu_of w
    \<and> hw_of w' = (if ec = None then (hw_of w)(if_key ifa := ll_bytes a) else hw_of w)"
proof -
  let ?p = "\<lambda>ifr. ifr\<lparr>ifr_data := [1, 0] @ ll_bytes a @ drop 8 (ifr_data ifr)\<rparr>"
  obtain ec' opts v where io: "if_ioctl calls Set_hwaddr ?p (ifreq_opts_new (Some (map of_char (ifa_name ifa)))) w = (ec', opts, v)"
    by (rule prod_cases3)
  have res: "w' = ifreq_opts_delete calls opts v \<and> ec = ec'"
    using assms io by (auto simp: interface_set_lladdr_def with_opts_def set_lladdr_def)
  show ?thesis using io
  proof (cases rule: fresh_ioctl)
    case (failed e)
    then show ?thesis using res by simp
  next
    case (served fd w1)
    then show ?thesis using res ioctl_set_hwaddr [OF served(5) served(2)] assms(2) by (simp add: if_key_def)
  qed
qed

end

text \<open>A kernel with a table of open descriptors and a bound on them, and the values of the interfaces.\<close>

record kernel =
  kn_limit :: nat
  kn_open :: "int list"
  kn_root :: bool
  kn_mtus :: "(byte list \<times> int) list"
  kn_hws :: "(byte list \<times> byte list) list"

definition kn_mtu :: "kernel \<Rightarrow> byte list \<Rightarrow> int" where
  "kn_mtu k name = (case map_of (kn_mtus k) name of None \<Rightarrow> 1500 | Some v \<Rightarrow> v)"

definition kn_hw :: "kernel \<Rightarrow> byte list \<Rightarrow> byte list" where
  "kn_hw k name = (case map_of (kn_hws k) name of None \<Rightarrow> [2, 0, 0, 0, 0, 1] | Some v \<Rightarrow> v)"

definition kn_socket :: "kernel \<Rightarrow> (nat + int) \<times> kernel" where
  "kn_socket k =
     (if kn_limit k \<le> length (kn_open k) then (Inl 24, k)
      else let fd = foldr max (kn_open k) 2 + 1 in (Inr fd, k\<lparr>kn_open := fd # kn_open k\<rparr>))"

definition kn_ioctl :: "int \<Rightarrow> if_request \<Rightarrow> ifreq \<Rightarrow> kernel \<Rightarrow> (nat + ifreq) \<times> kernel" where
  "kn_ioctl fd req ifr k =
     (if fd \<notin> set (kn_open k) then (Inl 9, k)
      else case req of
        Get_index \<Rightarrow> (Inr (ifr\<lparr>ifr_data := int_bytes 1 @ drop 4 (ifr_data ifr)\<rparr>), k)
      | Get_mtu \<Rightarrow> let v = kn_mtu k (ifr_name ifr) in
          if v = sint (word_of_int v :: u32) then (Inr (ifr\<lparr>ifr_data := int_bytes v @ drop 4 (ifr_data ifr)\<rparr>), k) else (Inl 34, k)
      | Set_mtu \<Rightarrow> if kn_root k then (Inr ifr, k\<lparr>kn_mtus := (ifr_name ifr, ifr_int ifr) # kn_mtus k\<rparr>) else (Inl 1, k)
      | Get_hwaddr \<Rightarrow> let v = kn_hw k (ifr_name ifr) in
          if length v = 6 then (Inr (ifr\<lparr>ifr_data := [1, 0] @ v @ drop 8 (ifr_data ifr)\<rparr>), k) else (Inl 19, k)
      | Set_hwaddr \<Rightarrow> if kn_root k then (Inr ifr, k\<lparr>kn_hws := (ifr_name ifr, take 6 (drop 2 (ifr_data ifr))) # kn_hws k\<rparr>) else (Inl 1, k))"

definition kn_close :: "int \<Rightarrow> kernel \<Rightarrow> kernel" where
  "kn_close fd k = k\<lparr>kn_open := filter (\<lambda>f. f \<noteq> fd) (kn_open k)\<rparr>"

definition kernel_calls :: "kernel if_calls" where
  "kernel_calls = \<lparr>ic_socket = kn_socket, ic_ioctl = kn_ioctl, ic_close = kn_close\<rparr>"

lemma foldr_max_upper: "x \<in> set xs \<Longrightarrow> x \<le> foldr max xs (b :: int)"
  by (induction xs) auto

lemma foldr_max_base: "b \<le> foldr max xs (b :: int)"
  by (induction xs) auto

interpretation linux: if_kernel kernel_calls "\<lambda>k. set (kn_open k)" kn_mtu kn_hw
proof
  fix k fd k'
  assume "ic_socket kernel_calls k = (Inr fd, k')"
  then have "fd = foldr max (kn_open k) 2 + 1 \<and> k' = k\<lparr>kn_open := fd # kn_open k\<rparr>"
    by (auto simp: kernel_calls_def kn_socket_def Let_def split: if_splits)
  moreover have "foldr max (kn_open k) 2 + 1 \<notin> set (kn_open k)" using foldr_max_upper [of "foldr max (kn_open k) 2 + 1" "kn_open k" 2] by auto
  ultimately show "0 \<le> fd \<and> fd \<notin> set (kn_open k) \<and> set (kn_open k') = insert fd (set (kn_open k)) \<and> kn_mtu k' = kn_mtu k \<and> kn_hw k' = kn_hw k"
    using foldr_max_base [of 2 "kn_open k"] by (auto simp: kn_mtu_def kn_hw_def)
qed (auto simp: kn_mtu_def kn_hw_def fun_eq_iff kernel_calls_def kn_socket_def kn_ioctl_def kn_close_def Let_def ifr_int_bytes split: if_splits if_request.splits)

definition eth0 :: ifaddrs where
  "eth0 = \<lparr>ifa_name = ''eth0'', ifa_flags = 1, ifa_addr = None, ifa_netmask = None, ifa_ifu = None\<rparr>"

definition root_kernel :: kernel where
  "root_kernel = \<lparr>kn_limit = 1, kn_open = [], kn_root = True, kn_mtus = [], kn_hws = []\<rparr>"

definition user_kernel :: kernel where
  "user_kernel = root_kernel\<lparr>kn_root := False\<rparr>"

lemmas call_eval = kernel_calls_def kn_socket_def kn_ioctl_def kn_close_def kn_mtu_def kn_hw_def eth0_def user_kernel_def root_kernel_def
  interface_mtu_def interface_set_mtu_def interface_lladdr_def interface_set_lladdr_def with_opts_def get_mtu_def set_mtu_def
  get_lladdr_def set_lladdr_def if_ioctl_def open_once_def ifreq_opts_new_def ifreq_opts_delete_def ifr_int_bytes sint_u32
  ll_default_def Let_def

text \<open>
  On a kernel that keeps its documented promises, every call of \<open>mtu\<close> and \<open>physical_address\<close> of an interface, with or without success,
  ends with the descriptors that were open before it; reading changes nothing, and a call that fails changes nothing
  and reads \<open>-1\<close> or the address of zeros.
\<close>

theorem interface_calls_close:
  assumes "if_kernel calls opened mtu_of hw_of" and "ll_valid a"
    and "interface_mtu calls ifa w = ((m, e1), w1)" and "interface_set_mtu calls ifa m' w = (e2, w2)"
    and "interface_lladdr calls ifa w = ((a', e3), w3)" and "interface_set_lladdr calls ifa a w = (e4, w4)"
  shows "opened w1 = opened w \<and> opened w2 = opened w \<and> opened w3 = opened w \<and> opened w4 = opened w
    \<and> mtu_of w1 = mtu_of w \<and> hw_of w1 = hw_of w \<and> mtu_of w3 = mtu_of w \<and> hw_of w3 = hw_of w
    \<and> (e1 = None \<or> m = -1) \<and> (e2 = None \<or> mtu_of w2 = mtu_of w \<and> hw_of w2 = hw_of w)
    \<and> (e3 = None \<or> a' = ll_default) \<and> (e4 = None \<or> mtu_of w4 = mtu_of w \<and> hw_of w4 = hw_of w)"
proof -
  have six: "length (ll_bytes a) = 6" using assms(2) by (simp add: ll_valid_def)
  show ?thesis
    using if_kernel.get_mtu_end [OF assms(1, 3)] if_kernel.set_mtu_end [OF assms(1, 4)] if_kernel.get_lladdr_end [OF assms(1, 5)]
      if_kernel.set_lladdr_end [OF assms(1, 6) six] by (simp split: if_splits)
qed

theorem interface_calls_close_witness:
  "interface_mtu kernel_calls eth0 user_kernel = ((1500, None), user_kernel)
   \<and> interface_set_mtu kernel_calls eth0 9000 user_kernel = (Some 1, user_kernel)
   \<and> kn_open (snd (interface_lladdr kernel_calls eth0 user_kernel)) = []
   \<and> kn_mtu (snd (interface_set_lladdr kernel_calls eth0 ll_default user_kernel)) = kn_mtu user_kernel"
proof -
  have m: "interface_mtu kernel_calls eth0 user_kernel = ((1500, None), user_kernel)" by (simp add: call_eval)
  have s: "interface_set_mtu kernel_calls eth0 9000 user_kernel = (Some 1, user_kernel)" by (simp add: call_eval)
  have l: "interface_lladdr kernel_calls eth0 user_kernel = ((\<lparr>ll_bytes = [2, 0, 0, 0, 0, 1]\<rparr>, None), user_kernel)" by (simp add: call_eval)
  have h: "interface_set_lladdr kernel_calls eth0 ll_default user_kernel = (Some 1, user_kernel)" by (simp add: call_eval)
  have "ll_valid ll_default" by (simp add: ll_valid_def ll_default_def)
  then show ?thesis using interface_calls_close [OF linux.if_kernel_axioms _ m s l h] m s l h by (simp add: user_kernel_def root_kernel_def)
qed

text \<open>
  (C29) On such a kernel, after \<open>mtu(m)\<close> and \<open>physical_address(a)\<close> succeeded, \<open>mtu()\<close> and \<open>physical_address()\<close> of the same interface, when
  they succeed, return \<open>m\<close> and \<open>a\<close>, and no descriptor is left open.
\<close>

theorem interface_set_get:
  assumes "if_kernel calls opened mtu_of hw_of" and "- (2 ^ 31) \<le> m" and "m < 2 ^ 31" and "ll_valid a"
    and "interface_set_mtu calls ifa m w = (None, w1)" and "interface_set_lladdr calls ifa a w1 = (None, w2)"
    and "interface_mtu calls ifa w2 = ((m', None), w3)" and "interface_lladdr calls ifa w3 = ((a', None), w4)"
  shows "m' = m \<and> a' = a \<and> opened w4 = opened w"
proof -
  have six: "length (ll_bytes a) = 6" using assms(4) by (simp add: ll_valid_def)
  show ?thesis
    using if_kernel.set_mtu_end [OF assms(1, 5)] if_kernel.set_lladdr_end [OF assms(1, 6) six]
      if_kernel.get_mtu_end [OF assms(1, 7)] if_kernel.get_lladdr_end [OF assms(1, 8)] sint_u32 [OF assms(2, 3)] by simp
qed


theorem interface_set_get_witness:
  "\<exists>k1 k2 k3 k4. interface_set_mtu kernel_calls eth0 9000 root_kernel = (None, k1) \<and> interface_set_lladdr kernel_calls eth0 ll_default k1 = (None, k2)
     \<and> interface_mtu kernel_calls eth0 k2 = ((9000, None), k3) \<and> interface_lladdr kernel_calls eth0 k3 = ((ll_default, None), k4) \<and> kn_open k4 = []"
proof -
  let ?name = "ifr_name (io_ifr (ifreq_opts_new (Some (map of_char (ifa_name eth0)))))"
  define k1 where "k1 = root_kernel\<lparr>kn_mtus := [(?name, 9000)]\<rparr>"
  define k2 where "k2 = k1\<lparr>kn_hws := [(?name, ll_bytes ll_default)]\<rparr>"
  have a: "interface_set_mtu kernel_calls eth0 9000 root_kernel = (None, k1)" by (simp add: call_eval k1_def)
  have b: "interface_set_lladdr kernel_calls eth0 ll_default k1 = (None, k2)" by (simp add: call_eval k1_def k2_def)
  have c: "interface_mtu kernel_calls eth0 k2 = ((9000, None), k2)" by (simp add: call_eval k1_def k2_def)
  have d: "interface_lladdr kernel_calls eth0 k2 = ((ll_default, None), k2)" by (simp add: call_eval k1_def k2_def)
  have "ll_valid ll_default" by (simp add: ll_valid_def ll_default_def)
  then have "set (kn_open k2) = set (kn_open root_kernel)"
    using interface_set_get [OF linux.if_kernel_axioms _ _ _ a b c d] by simp
  then have "kn_open k2 = []" by (simp add: root_kernel_def)
  with a b c d show ?thesis by blast
qed

end
