(* ===== verification/Inotify.thy ===== *)
theory Inotify
  imports Host_Words "HOL-Library.AList"
begin

unbundle bit_operations_syntax

text \<open>
  The watches of files (\<^verbatim>\<open>asio/inotify_listener.hpp\<close>): the structure \<open>inotify_event\<close> in the buffer of a read, the map of watch
  descriptors to paths, the operations with the results of their system calls as arguments, and the callbacks of a
  buffer of events. The model of the memory is the list of its bytes; a read behind it has the result \<open>None\<close>.
\<close>

section \<open>Events in memory\<close>

record inotify_event =
  iev_wd :: int
  iev_mask :: u32
  iev_cookie :: u32
  iev_len :: nat

definition iev_read :: "byte list \<Rightarrow> inotify_event option" where
  "iev_read mem =
     (if length mem < 16 then None
      else Some \<lparr>iev_wd = host_int mem, iev_mask = host_u32 (drop 4 mem), iev_cookie = host_u32 (drop 8 mem), iev_len = le_val (take 4 (drop 12 mem))\<rparr>)"

text \<open>The string that a pointer to memory is read as, up to its first null.\<close>

definition c_string :: "byte list \<Rightarrow> byte list option" where
  "c_string mem = (if 0 \<in> set mem then Some (takeWhile (\<lambda>b. b \<noteq> 0) mem) else None)"

text \<open>The kernel's form of an event: a name, when there is one, is followed by one or more nulls.\<close>

record raw_event =
  raw_wd :: int
  raw_mask :: u32
  raw_cookie :: u32
  raw_name :: "byte list"
  raw_pad :: nat

definition raw_len :: "raw_event \<Rightarrow> nat" where
  "raw_len e = length (raw_name e) + raw_pad e"

definition raw_bytes :: "raw_event \<Rightarrow> byte list" where
  "raw_bytes e =
     int_bytes (raw_wd e) @ u32_bytes (raw_mask e) @ u32_bytes (raw_cookie e) @ u32_bytes (word_of_nat (raw_len e)) @ raw_name e @ replicate (raw_pad e) 0"

definition raw_valid :: "raw_event \<Rightarrow> bool" where
  "raw_valid e \<longleftrightarrow> - (2 ^ 31) \<le> raw_wd e \<and> raw_wd e < 2 ^ 31 \<and> raw_len e < 2 ^ 32 \<and> 0 \<notin> set (raw_name e) \<and> (raw_name e = [] \<or> 0 < raw_pad e)"

lemma length_raw_bytes [simp]: "length (raw_bytes e) = 16 + raw_len e"
  by (simp add: raw_bytes_def raw_len_def)

lemma iev_read_raw:
  assumes "raw_valid e"
  shows "iev_read (raw_bytes e @ mem) = Some \<lparr>iev_wd = raw_wd e, iev_mask = raw_mask e, iev_cookie = raw_cookie e, iev_len = raw_len e\<rparr>"
proof -
  have "unat (word_of_nat (raw_len e) :: u32) = raw_len e"
    using assms by (simp add: raw_valid_def unat_of_nat)
  moreover have "host_int (int_bytes (raw_wd e) @ bs) = raw_wd e" for bs
    using assms host_int_bytes_range by (simp add: raw_valid_def)
  ultimately show ?thesis by (simp add: iev_read_def raw_bytes_def)
qed

lemma drop_raw: "drop 16 (raw_bytes e @ mem) = raw_name e @ replicate (raw_pad e) 0 @ mem"
  by (simp add: raw_bytes_def)

lemma c_string_name:
  assumes "0 \<notin> set name" and "0 < pad"
  shows "c_string (name @ replicate pad 0 @ mem) = Some name"
proof -
  have "takeWhile (\<lambda>b. b \<noteq> 0) (name @ replicate pad 0 @ mem) = name"
    using assms by (cases pad) (subst takeWhile_append2, auto)+
  then show ?thesis using assms by (simp add: c_string_def)
qed

section \<open>The listener\<close>

type_synonym files = "(int \<times> byte list) list"

text \<open>A \<open>flat_map\<close> is a vector in the order of its keys; \<open>emplace\<close> keeps an entry that is there.\<close>

fun flat_emplace :: "int \<Rightarrow> 'v \<Rightarrow> (int \<times> 'v) list \<Rightarrow> (int \<times> 'v) list" where
  "flat_emplace k v [] = [(k, v)]"
| "flat_emplace k v ((k', v') # xs) =
     (if k < k' then (k, v) # (k', v') # xs else if k = k' then (k', v') # xs else (k', v') # flat_emplace k v xs)"

record listener =
  li_fd :: "int option"
  li_files :: files

datatype li_error = Already_open | Errno nat

text \<open>\<open>fd_.assign\<close> may fail too; then the descriptor of \<open>inotify_init1\<close> is not closed.\<close>

definition li_open :: "nat + int \<Rightarrow> nat option \<Rightarrow> listener \<Rightarrow> li_error option \<times> listener" where
  "li_open init assigned li =
     (if li_fd li \<noteq> None then (Some Already_open, li)
      else case init of
        Inl e \<Rightarrow> (Some (Errno e), li)
      | Inr fd \<Rightarrow> (case assigned of Some e \<Rightarrow> (Some (Errno e), li) | None \<Rightarrow> (None, li\<lparr>li_fd := Some fd\<rparr>)))"

text \<open>The last component says that a read is started.\<close>

definition li_start :: "nat + int \<Rightarrow> nat option \<Rightarrow> listener \<Rightarrow> li_error option \<times> listener \<times> bool" where
  "li_start init assigned li =
     (if li_fd li = None
      then case li_open init assigned li of (Some e, li') \<Rightarrow> (Some e, li', False) | (None, li') \<Rightarrow> (None, li', True)
      else (None, li, True))"

definition li_close :: "nat option \<Rightarrow> listener \<Rightarrow> li_error option \<times> listener" where
  "li_close closed li = (map_option Errno closed, li\<lparr>li_fd := None\<rparr>)"

definition li_add :: "nat + int \<Rightarrow> byte list \<Rightarrow> listener \<Rightarrow> li_error option \<times> listener" where
  "li_add watched path li =
     (case watched of Inl e \<Rightarrow> (Some (Errno e), li) | Inr wd \<Rightarrow> (None, li\<lparr>li_files := flat_emplace wd path (li_files li)\<rparr>))"

text \<open>\<open>rm wd\<close> is the result of \<open>inotify_rm_watch\<close> for \<open>wd\<close>.\<close>

definition li_remove :: "(int \<Rightarrow> nat option) \<Rightarrow> byte list \<Rightarrow> listener \<Rightarrow> li_error option \<times> listener" where
  "li_remove rm path li =
     (case find (\<lambda>(wd, p). p = path) (li_files li) of
        None \<Rightarrow> (None, li)
      | Some (wd, _) \<Rightarrow> (case rm wd of None \<Rightarrow> (None, li\<lparr>li_files := AList.delete wd (li_files li)\<rparr>) | Some e \<Rightarrow> (Some (Errno e), li)))"

datatype callback =
    On_event "byte list" | On_access "byte list" | On_attribute "byte list" | On_close_write "byte list" | On_close_nowrite "byte list"
  | On_close "byte list" | On_modify "byte list" | On_open "byte list" | On_move "byte list" | On_delete "byte list"
  | On_moved_from "byte list" "byte list" | On_moved_to "byte list" "byte list" | On_create_path "byte list" "byte list"
  | On_remove_path "byte list" "byte list" | On_disposed "byte list" | On_error nat

text \<open>The condition of \<open>on_delete\<close> is a product: \<open>mask * IN_DELETE_SELF\<close>.\<close>

definition li_callbacks :: "u32 \<Rightarrow> byte list \<Rightarrow> byte list \<Rightarrow> callback list" where
  "li_callbacks msk name in_name =
     [On_event name]
     @ (if msk AND 0x001 \<noteq> 0 then [On_access name] else [])
     @ (if msk AND 0x004 \<noteq> 0 then [On_attribute name] else [])
     @ (if msk AND 0x008 \<noteq> 0 then [On_close_write name] else [])
     @ (if msk AND 0x010 \<noteq> 0 then [On_close_nowrite name] else [])
     @ (if msk AND 0x018 \<noteq> 0 then [On_close name] else [])
     @ (if msk AND 0x002 \<noteq> 0 then [On_modify name] else [])
     @ (if msk AND 0x020 \<noteq> 0 then [On_open name] else [])
     @ (if msk AND 0x800 \<noteq> 0 then [On_move name] else [])
     @ (if msk * 0x400 \<noteq> 0 then [On_delete name] else [])
     @ (if msk AND 0x040 \<noteq> 0 then [On_moved_from name in_name] else [])
     @ (if msk AND 0x080 \<noteq> 0 then [On_moved_to name in_name] else [])
     @ (if msk AND 0x100 \<noteq> 0 then [On_create_path name in_name] else [])
     @ (if msk AND 0x200 \<noteq> 0 then [On_remove_path name in_name] else [])
     @ (if msk AND 0x8000 \<noteq> 0 then [On_disposed name] else [])"

text \<open>\<open>mem\<close> is the memory from the event on. The name is read even when the event has none.\<close>

definition li_do_notify :: "inotify_event \<Rightarrow> byte list \<Rightarrow> files \<Rightarrow> (callback list \<times> files) option" where
  "li_do_notify iev mem fs =
     (case map_of fs (iev_wd iev) of
        None \<Rightarrow> Some ([], fs)
      | Some name \<Rightarrow>
          let fs' = (if iev_mask iev AND 0x8000 \<noteq> 0 then AList.delete (iev_wd iev) fs else fs)
          in map_option (\<lambda>in_name. (li_callbacks (iev_mask iev) name in_name, fs')) (c_string (drop 16 mem)))"

function notify_loop :: "byte list \<Rightarrow> nat \<Rightarrow> files \<Rightarrow> (callback list \<times> files) option" where
  "notify_loop mem n fs =
     (if n = 0 then Some ([], fs)
      else case iev_read mem of
        None \<Rightarrow> None
      | Some iev \<Rightarrow>
          (case li_do_notify iev mem fs of
             None \<Rightarrow> None
           | Some (cs, fs') \<Rightarrow>
               map_option (\<lambda>(cs', fs''). (cs @ cs', fs'')) (notify_loop (drop (16 + iev_len iev) mem) (n - (16 + iev_len iev)) fs')))"
  by auto
termination by (relation "measure (\<lambda>(mem, n, fs). n)") auto

declare notify_loop.simps [simp del]

text \<open>The buffer of 4096 bytes after a read of \<open>n\<close> of them; a new read is started when the last component holds.\<close>

definition li_on_read :: "nat option \<Rightarrow> byte list \<Rightarrow> nat \<Rightarrow> listener \<Rightarrow> (callback list \<times> listener \<times> bool) option" where
  "li_on_read error buffer n li =
     (case error of
        Some e \<Rightarrow> Some ([On_error e], li, False)
      | None \<Rightarrow> map_option (\<lambda>(cs, fs). (cs, li\<lparr>li_files := fs\<rparr>, True)) (notify_loop buffer n (li_files li)))"

section \<open>The callbacks of a buffer\<close>

text \<open>What the events mean: the callbacks of an event for the path of its watch, if there is one, with the name of the event.\<close>

definition event_callbacks :: "raw_event \<Rightarrow> files \<Rightarrow> callback list" where
  "event_callbacks e fs = (case map_of fs (raw_wd e) of None \<Rightarrow> [] | Some path \<Rightarrow> li_callbacks (raw_mask e) path (raw_name e))"

definition event_files :: "raw_event \<Rightarrow> files \<Rightarrow> files" where
  "event_files e fs = (if raw_mask e AND 0x8000 \<noteq> 0 then AList.delete (raw_wd e) fs else fs)"

fun events_callbacks :: "raw_event list \<Rightarrow> files \<Rightarrow> callback list \<times> files" where
  "events_callbacks [] fs = ([], fs)"
| "events_callbacks (e # es) fs = (let (cs, fs') = events_callbacks es (event_files e fs) in (event_callbacks e fs @ cs, fs'))"

lemma events_callbacks_append:
  "events_callbacks (es @ es') fs =
     (fst (events_callbacks es fs) @ fst (events_callbacks es' (snd (events_callbacks es fs))), snd (events_callbacks es' (snd (events_callbacks es fs))))"
  by (induction es arbitrary: fs) (simp_all add: split_beta)

text \<open>The bits of an event that the callbacks with a name of an entry of a directory depend on.\<close>

definition names_entry :: "u32 \<Rightarrow> bool" where
  "names_entry msk \<longleftrightarrow> msk AND 0x040 \<noteq> 0 \<or> msk AND 0x080 \<noteq> 0 \<or> msk AND 0x100 \<noteq> 0 \<or> msk AND 0x200 \<noteq> 0"

text \<open>An event of a directory's entry has a name, and any other has none or a name that no callback takes.\<close>

definition raw_named :: "raw_event \<Rightarrow> bool" where
  "raw_named e \<longleftrightarrow> names_entry (raw_mask e) \<longrightarrow> 0 < raw_pad e"

lemma li_callbacks_unnamed: "\<not> names_entry msk \<Longrightarrow> li_callbacks msk path n1 = li_callbacks msk path n2"
  by (simp add: li_callbacks_def names_entry_def)

lemma delete_absent: "map_of fs k = None \<Longrightarrow> AList.delete k fs = fs"
  by (simp add: delete_notin_dom map_of_eq_None_iff)

lemma do_notify_raw:
  assumes "raw_valid e" and "raw_named e" and "0 \<in> set mem \<or> 0 < raw_pad e"
  shows "li_do_notify \<lparr>iev_wd = raw_wd e, iev_mask = raw_mask e, iev_cookie = raw_cookie e, iev_len = raw_len e\<rparr> (raw_bytes e @ mem) fs
    = Some (event_callbacks e fs, event_files e fs)"
proof (cases "map_of fs (raw_wd e)")
  case None
  then show ?thesis by (simp add: li_do_notify_def event_callbacks_def event_files_def delete_absent)
next
  case (Some path)
  show ?thesis
  proof (cases "0 < raw_pad e")
    case True
    then show ?thesis using Some assms(1) c_string_name [of "raw_name e" "raw_pad e" mem]
      by (simp add: li_do_notify_def event_callbacks_def event_files_def drop_raw raw_valid_def Let_def del: drop_append)
  next
    case False
    then have "0 \<in> set mem" and "\<not> names_entry (raw_mask e)" and "raw_name e = []"
      using assms by (auto simp: raw_named_def raw_valid_def)
    then obtain s where "c_string (drop 16 (raw_bytes e @ mem)) = Some s"
      by (auto simp: drop_raw c_string_def simp del: drop_append)
    moreover have "li_callbacks (raw_mask e) path s = li_callbacks (raw_mask e) path (raw_name e)"
      using \<open>\<not> names_entry (raw_mask e)\<close> by (rule li_callbacks_unnamed)
    ultimately show ?thesis using Some
      by (simp add: li_do_notify_def event_callbacks_def event_files_def Let_def del: drop_append)
  qed
qed

lemma notify_step:
  assumes "raw_valid e" and "raw_named e" and "0 \<in> set mem \<or> 0 < raw_pad e"
  shows "notify_loop (raw_bytes e @ mem) (16 + raw_len e + k) fs =
    map_option (\<lambda>(cs, fs'). (event_callbacks e fs @ cs, fs')) (notify_loop mem k (event_files e fs))"
  by (subst notify_loop.simps) (simp add: iev_read_raw [OF assms(1)] do_notify_raw [OF assms])

lemma notify_loop_append:
  assumes "list_all raw_valid es" and "list_all raw_named es" and "0 \<in> set mem"
  shows "notify_loop (concat (map raw_bytes es) @ mem) (length (concat (map raw_bytes es)) + k) fs =
    map_option (\<lambda>(cs, fs'). (fst (events_callbacks es fs) @ cs, fs')) (notify_loop mem k (snd (events_callbacks es fs)))"
  using assms
proof (induction es arbitrary: fs)
  case Nil
  then show ?case by (simp add: split_beta option.map_id0 [unfolded id_def])
next
  case (Cons e es)
  let ?mem = "concat (map raw_bytes es) @ mem"
  have "notify_loop (raw_bytes e @ ?mem) (16 + raw_len e + (length (concat (map raw_bytes es)) + k)) fs =
      map_option (\<lambda>(cs, fs'). (event_callbacks e fs @ cs, fs')) (notify_loop ?mem (length (concat (map raw_bytes es)) + k) (event_files e fs))"
    using Cons.prems by (intro notify_step) simp_all
  then show ?case using Cons by (simp add: split_beta option.map_comp o_def ac_simps)
qed

lemma notify_loop_events:
  assumes "list_all raw_valid es" and "list_all raw_named es" and "0 \<in> set rest \<or> es \<noteq> [] \<and> 0 < raw_pad (last es)"
  shows "notify_loop (concat (map raw_bytes es) @ rest) (length (concat (map raw_bytes es))) fs = Some (events_callbacks es fs)"
proof (cases "0 \<in> set rest")
  case True
  then show ?thesis using notify_loop_append [OF assms(1, 2) True, of 0 fs] by (simp add: notify_loop.simps)
next
  case False
  then obtain es' e where es: "es = es' @ [e]" and e: "0 < raw_pad e" using assms(3) by (cases es rule: rev_cases) auto
  then have "0 \<in> set (raw_bytes e @ rest)" by (simp add: raw_bytes_def)
  then show ?thesis
    using notify_loop_append [of es' "raw_bytes e @ rest" "16 + raw_len e + 0" fs] notify_step [of e rest 0 "snd (events_callbacks es' fs)"] assms es e
    by (simp add: notify_loop.simps events_callbacks_append split_beta)
qed

text \<open>
  (C30) \<open>on_read\<close> of a buffer that holds events of the kernel calls the callbacks of every event, in order, with the path of its watch at that
  moment and the name of the entry, forgets the watches that are ignored, and starts the next read. This needs a null
  behind the last event when it has no name: the code reads a name there.
\<close>

theorem listener_reads:
  assumes "list_all raw_valid es" and "list_all raw_named es" and "0 \<in> set rest \<or> es \<noteq> [] \<and> 0 < raw_pad (last es)"
  shows "li_on_read None (concat (map raw_bytes es) @ rest) (length (concat (map raw_bytes es))) li =
    Some (fst (events_callbacks es (li_files li)), li\<lparr>li_files := snd (events_callbacks es (li_files li))\<rparr>, True)"
  using notify_loop_events [OF assms, of "li_files li"] by (simp add: li_on_read_def split_beta)

theorem listener_reads_witness:
  "li_on_read None (concat (map raw_bytes
       [\<lparr>raw_wd = 1, raw_mask = 0x100, raw_cookie = 0, raw_name = [97], raw_pad = 15\<rparr>, \<lparr>raw_wd = 1, raw_mask = 0x8000, raw_cookie = 0, raw_name = [], raw_pad = 0\<rparr>]) @ [0]) 48
       \<lparr>li_fd = Some 3, li_files = [(1, [47])]\<rparr>
     = Some ([On_event [47], On_delete [47], On_create_path [47] [97], On_event [47], On_delete [47], On_disposed [47]], \<lparr>li_fd = Some 3, li_files = []\<rparr>, True)"
  using listener_reads [of "[\<lparr>raw_wd = 1, raw_mask = 0x100, raw_cookie = 0, raw_name = [97], raw_pad = 15\<rparr>,
      \<lparr>raw_wd = 1, raw_mask = 0x8000, raw_cookie = 0, raw_name = [], raw_pad = 0\<rparr>]" "[0]" "\<lparr>li_fd = Some 3, li_files = [(1, [47])]\<rparr>"]
  by (simp add: raw_valid_def raw_named_def names_entry_def raw_len_def event_callbacks_def event_files_def li_callbacks_def)

text \<open>
  When the last event of a full buffer has no name, as the events of a watched file have none, \<open>on_read\<close> reads a
  name behind the end of the buffer.
\<close>

theorem listener_overread:
  assumes "list_all raw_valid (es @ [e])" and "list_all raw_named es" and "raw_len e = 0"
    and "map_of (snd (events_callbacks es (li_files li))) (raw_wd e) = Some path"
  shows "li_on_read None (concat (map raw_bytes (es @ [e]))) (length (concat (map raw_bytes (es @ [e])))) li = None"
proof -
  let ?fs = "snd (events_callbacks es (li_files li))"
  have "raw_name e = []" and "raw_pad e = 0" using assms(3) by (simp_all add: raw_len_def)
  then have "length (raw_bytes e) = 16" by (simp add: raw_len_def)
  then have name: "drop 16 (raw_bytes e) = []" by simp
  have "0 \<in> set (u32_bytes (word_of_nat (raw_len e)))" using assms(3) by (simp add: u32_bytes_def)
  then have zero: "0 \<in> set (raw_bytes e)" by (simp add: raw_bytes_def)
  have "iev_read (raw_bytes e) = Some \<lparr>iev_wd = raw_wd e, iev_mask = raw_mask e, iev_cookie = raw_cookie e, iev_len = raw_len e\<rparr>"
    using iev_read_raw [of e "[]"] assms(1) by simp
  then have "notify_loop (raw_bytes e) 16 ?fs = None"
    using assms(4) by (subst notify_loop.simps) (simp add: li_do_notify_def name c_string_def)
  then show ?thesis
    using notify_loop_append [of es "raw_bytes e" 16 "li_files li"] assms zero by (simp add: li_on_read_def)
qed

theorem listener_overread_witness:
  "li_on_read None (concat (replicate 256 (raw_bytes \<lparr>raw_wd = 1, raw_mask = 2, raw_cookie = 0, raw_name = [], raw_pad = 0\<rparr>))) 4096
     \<lparr>li_fd = Some 3, li_files = [(1, [47])]\<rparr> = None"
proof -
  let ?e = "\<lparr>raw_wd = 1, raw_mask = 2, raw_cookie = 0, raw_name = [], raw_pad = 0\<rparr> :: raw_event"
  have "snd (events_callbacks (replicate n ?e) fs) = fs" for n fs
    by (induction n) (simp_all add: event_files_def split_beta)
  moreover have "replicate 256 ?e = replicate 255 ?e @ [?e]"
    by (rule trans [of _ "replicate (Suc 255) ?e"]) (simp, simp only: replicate_Suc replicate_append_same)
  moreover have "length (concat (replicate n (raw_bytes ?e))) = 16 * n" for n by (induction n) (simp_all add: raw_len_def)
  ultimately show ?thesis
    using listener_overread [of "replicate 255 ?e" ?e "\<lparr>li_fd = Some 3, li_files = [(1, [47])]\<rparr>" "[47]"]
    by (simp add: raw_valid_def raw_named_def names_entry_def raw_len_def list_all_iff flip: map_replicate)
qed


lemma times_delete_self: "m * 0x400 \<noteq> 0 \<longleftrightarrow> m AND 0x3FFFFF \<noteq> (0 :: u32)"
proof -
  have "m * 0x400 = push_bit 10 m" by (simp add: push_bit_eq_mult)
  moreover have "m AND 0x3FFFFF = take_bit 22 m" by (simp add: take_bit_eq_mask mask_numeral)
  moreover have "push_bit 10 m = 0 \<longleftrightarrow> take_bit 22 m = 0"
  proof
    assume "push_bit 10 m = 0"
    then have z: "\<not> bit (push_bit 10 m) (n + 10)" for n by simp
    have "\<not> bit m n" if "n < 22" for n using z [of n] that by (simp add: bit_simps)
    then show "take_bit 22 m = 0" by (auto simp: bit_eq_iff bit_simps)
  next
    assume "take_bit 22 m = 0"
    then have z: "\<not> bit (take_bit 22 m) n" for n by simp
    have "\<not> bit m (n - 10)" if "n < 32" "10 \<le> n" for n using z [of "n - 10"] that by (simp add: bit_simps)
    then show "push_bit 10 m = 0" by (auto simp: bit_eq_iff bit_simps)
  qed
  ultimately show ?thesis by simp
qed

text \<open>
  \<open>on_delete\<close> is called for an event exactly when one of the low 22 bits of its mask is set, so for every event and not only for
  \<open>IN_DELETE_SELF\<close>: a modification of a file is also reported as its deletion.
\<close>

theorem listener_deletes:
  "(On_delete path \<in> set (li_callbacks msk path name) \<longleftrightarrow> msk AND 0x3FFFFF \<noteq> 0)
   \<and> li_callbacks 0x002 path name = [On_event path, On_modify path, On_delete path]"
proof
  show "On_delete path \<in> set (li_callbacks msk path name) \<longleftrightarrow> msk AND 0x3FFFFF \<noteq> 0"
    unfolding times_delete_self [symmetric] by (auto simp: li_callbacks_def)
  show "li_callbacks 0x002 path name = [On_event path, On_modify path, On_delete path]" by (simp add: li_callbacks_def)
qed

section \<open>The map of watches\<close>

lemma keys_flat_emplace: "fst ` set (flat_emplace k v fs) = insert k (fst ` set fs)"
  by (induction k v fs rule: flat_emplace.induct) auto

lemma sorted_flat_emplace: "sorted_wrt (<) (map fst fs) \<Longrightarrow> sorted_wrt (<) (map fst (flat_emplace k v fs))"
proof (induction k v fs rule: flat_emplace.induct)
  case (2 k v k' v' xs)
  then have "\<forall>x \<in> fst ` set (flat_emplace k v xs). x = k \<or> x \<in> fst ` set xs" by (simp add: keys_flat_emplace)
  with 2 show ?case by (fastforce simp: keys_flat_emplace)
qed simp

lemma flat_emplace_present:
  "sorted_wrt (<) (map fst fs) \<Longrightarrow> k \<in> fst ` set fs \<Longrightarrow> flat_emplace k v fs = fs"
  by (induction k v fs rule: flat_emplace.induct) auto

lemma sorted_delete: "sorted_wrt (<) (map fst fs) \<Longrightarrow> sorted_wrt (<) (map fst (AList.delete k (fs :: files)))"
  by (induction fs) (auto simp: AList.delete_eq)

lemma keys_delete: "fst ` set (AList.delete k fs) = fst ` set fs - {k}"
  by (auto simp: AList.delete_eq)

lemma sorted_events: "sorted_wrt (<) (map fst fs) \<Longrightarrow> sorted_wrt (<) (map fst (snd (events_callbacks es fs)))"
  by (induction es arbitrary: fs) (simp_all add: split_beta event_files_def sorted_delete)

text \<open>
  \<open>close\<close> keeps the map of watches. When the listener is opened again and \<open>add\<close> of a path gets a watch descriptor that the map still has
  from before, the map keeps the old path: events of the new watch are reported under the old path, and \<open>remove\<close> of the new path
  removes nothing and reports no error.
\<close>

theorem listener_reopen:
  assumes "sorted_wrt (<) (map fst (li_files li))" and "map_of (li_files li) wd = Some old" and "new \<notin> snd ` set (li_files li)"
    and "li_close closed li = (e1, li1)" and "li_open (Inr fd) None li1 = (None, li2)" and "li_add (Inr wd) new li2 = (None, li3)"
    and "raw_wd e = wd"
  shows "event_callbacks e (li_files li3) = li_callbacks (raw_mask e) old (raw_name e) \<and> li_remove rm new li3 = (None, li3)"
proof -
  have "wd \<in> fst ` set (li_files li)" using assms(2) by (force dest: map_of_SomeD)
  then have "li_files li3 = li_files li"
    using assms(1, 4-6) flat_emplace_present [of "li_files li" wd new] by (auto simp: li_close_def li_open_def li_add_def)
  moreover have "find (\<lambda>(w, p). p = new) (li_files li) = None" using assms(3) by (force simp: find_None_iff)
  ultimately show ?thesis using assms(2, 7) by (simp add: event_callbacks_def li_remove_def)
qed

theorem listener_reopen_witness:
  "\<exists>li1 li2 li3. li_close None \<lparr>li_fd = Some 3, li_files = [(1, [97])]\<rparr> = (None, li1) \<and> li_open (Inr 3) None li1 = (None, li2)
     \<and> li_add (Inr 1) [98] li2 = (None, li3)
     \<and> event_callbacks \<lparr>raw_wd = 1, raw_mask = 2, raw_cookie = 0, raw_name = [], raw_pad = 0\<rparr> (li_files li3) = [On_event [97], On_modify [97], On_delete [97]]"
proof -
  let ?li = "\<lparr>li_fd = Some 3, li_files = [(1, [97])]\<rparr> :: listener" and ?li1 = "\<lparr>li_fd = None, li_files = [(1, [97])]\<rparr> :: listener"
  have a: "li_close None ?li = (None, ?li1)" by (simp add: li_close_def)
  have b: "li_open (Inr 3) None ?li1 = (None, ?li)" by (simp add: li_open_def)
  have c: "li_add (Inr 1) [98] ?li = (None, ?li)" by (simp add: li_add_def)
  have "event_callbacks \<lparr>raw_wd = 1, raw_mask = 2, raw_cookie = 0, raw_name = [], raw_pad = 0\<rparr> (li_files ?li) = li_callbacks 2 [97] []"
    using listener_reopen [OF _ _ _ a b c, of "[97]" "\<lparr>raw_wd = 1, raw_mask = 2, raw_cookie = 0, raw_name = [], raw_pad = 0\<rparr>"] by simp
  then have "event_callbacks \<lparr>raw_wd = 1, raw_mask = 2, raw_cookie = 0, raw_name = [], raw_pad = 0\<rparr> (li_files ?li) = [On_event [97], On_modify [97], On_delete [97]]"
    by (simp add: li_callbacks_def)
  with a b c show ?thesis by blast
qed

section \<open>Watches and the kernel\<close>

text \<open>
  A listener with an open descriptor, the watches of the kernel and its queue of events. The kernel gives a path the descriptor of a
  watch that it has, or a new one; it reports events of its watches only, and a watch that ends, removed or because the file
  is gone, with a last event \<open>IN_IGNORED\<close>.
\<close>

record watches =
  wa_li :: listener
  wa_live :: "int list"
  wa_queue :: "raw_event list"

definition ignored :: "int \<Rightarrow> raw_event" where
  "ignored wd = \<lparr>raw_wd = wd, raw_mask = 0x8000, raw_cookie = 0, raw_name = [], raw_pad = 0\<rparr>"

inductive watch_step :: "watches \<Rightarrow> watches \<Rightarrow> bool" where
  add_new: "0 \<le> wd \<Longrightarrow> wd < 2 ^ 31 \<Longrightarrow> wd \<notin> set (wa_live s) \<Longrightarrow> wd \<notin> raw_wd ` set (wa_queue s) \<Longrightarrow> li_add (Inr wd) path (wa_li s) = (None, li)
    \<Longrightarrow> watch_step s (s\<lparr>wa_li := li, wa_live := wd # wa_live s\<rparr>)"
| add_again: "wd \<in> set (wa_live s) \<Longrightarrow> li_add (Inr wd) path (wa_li s) = (None, li) \<Longrightarrow> watch_step s (s\<lparr>wa_li := li\<rparr>)"
| add_failed: "li_add (Inl e) path (wa_li s) = (ec, li) \<Longrightarrow> watch_step s (s\<lparr>wa_li := li\<rparr>)"
| removed: "find (\<lambda>(wd, p). p = path) (li_files (wa_li s)) = Some (wd, path) \<Longrightarrow> wd \<in> set (wa_live s)
    \<Longrightarrow> li_remove (\<lambda>_. None) path (wa_li s) = (None, li)
    \<Longrightarrow> watch_step s (s\<lparr>wa_li := li, wa_live := filter (\<lambda>w. w \<noteq> wd) (wa_live s), wa_queue := wa_queue s @ [ignored wd]\<rparr>)"
| remove_failed: "li_remove (\<lambda>_. Some e) path (wa_li s) = (ec, li) \<Longrightarrow> watch_step s (s\<lparr>wa_li := li\<rparr>)"
| occurs: "raw_wd e \<in> set (wa_live s) \<Longrightarrow> raw_mask e AND 0x8000 = 0 \<Longrightarrow> watch_step s (s\<lparr>wa_queue := wa_queue s @ [e]\<rparr>)"
| vanishes: "wd \<in> set (wa_live s)
    \<Longrightarrow> watch_step s (s\<lparr>wa_live := filter (\<lambda>w. w \<noteq> wd) (wa_live s), wa_queue := wa_queue s @ [ignored wd]\<rparr>)"
| reads: "wa_queue s = es @ es' \<Longrightarrow> list_all raw_valid es \<Longrightarrow> list_all raw_named es \<Longrightarrow> 0 \<in> set rest
    \<Longrightarrow> li_on_read None (concat (map raw_bytes es) @ rest) (length (concat (map raw_bytes es))) (wa_li s) = Some (cs, li, again)
    \<Longrightarrow> watch_step s (s\<lparr>wa_li := li, wa_queue := es'\<rparr>)"

definition pending :: "raw_event list \<Rightarrow> int set" where
  "pending es = raw_wd ` {e \<in> set es. raw_mask e AND 0x8000 \<noteq> 0}"

definition watch_inv :: "watches \<Rightarrow> bool" where
  "watch_inv s \<longleftrightarrow> sorted_wrt (<) (map fst (li_files (wa_li s))) \<and> set (wa_live s) \<subseteq> fst ` set (li_files (wa_li s))
     \<and> fst ` set (li_files (wa_li s)) \<subseteq> set (wa_live s) \<union> pending (wa_queue s) \<and> pending (wa_queue s) \<inter> set (wa_live s) = {}"

lemma pending_Cons: "pending (e # es) = (if raw_mask e AND 0x8000 \<noteq> 0 then {raw_wd e} else {}) \<union> pending es"
  by (auto simp: pending_def)

lemma pending_append: "pending (es @ es') = pending es \<union> pending es'"
  by (auto simp: pending_def)

lemma pending_ignored [simp]: "pending [ignored wd] = {wd}"
  by (simp add: pending_Cons ignored_def) (simp add: pending_def)

lemma pending_subset: "pending es \<subseteq> raw_wd ` set es"
  by (auto simp: pending_def)

lemma keys_events: "fst ` set (snd (events_callbacks es fs)) = fst ` set fs - pending es"
  by (induction es arbitrary: fs) (auto simp: split_beta event_files_def keys_delete pending_Cons pending_def [of "[]"])

lemma watch_inv_step: "watch_step s s' \<Longrightarrow> watch_inv s \<Longrightarrow> watch_inv s'"
proof (induction rule: watch_step.induct)
  case (add_new wd s path li)
  then have "wd \<notin> pending (wa_queue s)" and "li_files li = flat_emplace wd path (li_files (wa_li s))"
    using pending_subset [of "wa_queue s"] by (auto simp: li_add_def)
  then show ?case using add_new by (auto simp: watch_inv_def keys_flat_emplace sorted_flat_emplace)
next
  case (add_again wd s path li)
  then have "li_files li = flat_emplace wd path (li_files (wa_li s))" by (auto simp: li_add_def)
  then show ?case using add_again by (auto simp: watch_inv_def keys_flat_emplace sorted_flat_emplace)
next
  case (add_failed e path s ec li)
  then show ?case by (auto simp: li_add_def)
next
  case (removed path s wd li)
  then have "li_files li = AList.delete wd (li_files (wa_li s))" by (auto simp: li_remove_def)
  then show ?case using removed by (auto simp: watch_inv_def pending_append keys_delete sorted_delete)
next
  case (remove_failed e path s ec li)
  then have "li = wa_li s" by (auto simp: li_remove_def split: option.splits prod.splits)
  then show ?case using remove_failed by simp
next
  case (occurs e s)
  then have "pending [e] = {}" by (simp add: pending_def)
  then show ?case using occurs by (simp add: watch_inv_def pending_append)
next
  case (vanishes wd s)
  then show ?case by (auto simp: watch_inv_def pending_append)
next
  case (reads s es es' rest cs li again)
  then have "li_files li = snd (events_callbacks es (li_files (wa_li s)))"
    using notify_loop_events [of es rest "li_files (wa_li s)"] by (auto simp: li_on_read_def split_beta)
  then show ?case using reads by (auto simp: watch_inv_def pending_append keys_events sorted_events)
qed

text \<open>
  (C31) As long as the descriptor stays open, the map of the listener has every watch of the kernel, and besides these only watches whose
  last event \<open>IN_IGNORED\<close> is still in the kernel's queue: whatever is added, removed, reported and read, in any order.
\<close>

theorem listener_watches:
  assumes "watch_step\<^sup>*\<^sup>* \<lparr>wa_li = \<lparr>li_fd = Some fd, li_files = []\<rparr>, wa_live = [], wa_queue = []\<rparr> s"
  shows "set (wa_live s) \<subseteq> fst ` set (li_files (wa_li s)) \<and> fst ` set (li_files (wa_li s)) \<subseteq> set (wa_live s) \<union> pending (wa_queue s)
    \<and> distinct (map fst (li_files (wa_li s)))"
proof -
  have "watch_inv s" using assms
  proof (induction rule: rtranclp_induct)
    case base
    then show ?case by (simp add: watch_inv_def pending_def)
  next
    case (step s s')
    then show ?case using watch_inv_step by blast
  qed
  then show ?thesis using strict_sorted_iff by (auto simp: watch_inv_def)
qed

theorem listener_watches_witness:
  "\<exists>s. watch_step\<^sup>*\<^sup>* \<lparr>wa_li = \<lparr>li_fd = Some 3, li_files = []\<rparr>, wa_live = [], wa_queue = []\<rparr> s
     \<and> wa_live s = [] \<and> wa_queue s = [ignored 1] \<and> li_files (wa_li s) = [(1, [97])] \<and> fst ` set (li_files (wa_li s)) \<subseteq> pending (wa_queue s)"
proof -
  let ?li0 = "\<lparr>li_fd = Some 3, li_files = []\<rparr> :: listener" and ?li1 = "\<lparr>li_fd = Some 3, li_files = [(1, [97])]\<rparr> :: listener"
  let ?s0 = "\<lparr>wa_li = ?li0, wa_live = [], wa_queue = []\<rparr>" and ?s1 = "\<lparr>wa_li = ?li1, wa_live = [1], wa_queue = []\<rparr>"
    and ?s2 = "\<lparr>wa_li = ?li1, wa_live = [], wa_queue = [ignored 1]\<rparr>"
  have "watch_step ?s0 ?s1" using add_new [of 1 ?s0 "[97]" ?li1] by (simp add: li_add_def)
  moreover have "watch_step ?s1 ?s2" using vanishes [of 1 ?s1] by simp
  ultimately have run: "watch_step\<^sup>*\<^sup>* ?s0 ?s2" by (meson rtranclp.rtrancl_into_rtrancl rtranclp.rtrancl_refl)
  from listener_watches [OF this] have "fst ` set (li_files (wa_li ?s2)) \<subseteq> pending (wa_queue ?s2)" by simp
  with run show ?thesis by (intro exI [of _ ?s2]) simp
qed

end
