(* ===== verification/Inotify_Service.thy ===== *)
theory Inotify_Service
  imports Inotify
begin

text \<open>
  The service of an inotify object (\<^verbatim>\<open>asio/detail/inotify_service.hpp\<close>): events are taken from a buffer one wait at a
  time, and the two halves of a renaming, which have one cookie, are brought together. The results of the system calls are
  arguments; the lists of the two hash maps stand for them in the order of their iteration, which the theorems leave open.
\<close>

section \<open>Events\<close>

record event_type =
  ev_mask :: u32
  ev_name :: "byte list"
  ev_in_name :: "byte list"

datatype event_code =
    None_event | Access | Attribute | Close_write | Close_nowrite | Close | Modify | Remove | Open | Move | Moved_from | Moved_to
  | Create_path | Remove_path | Ignored

fun code_bits :: "event_code \<Rightarrow> u32" where
  "code_bits None_event = 0"
| "code_bits Access = 0x001"
| "code_bits Attribute = 0x004"
| "code_bits Close_write = 0x008"
| "code_bits Close_nowrite = 0x008"
| "code_bits Close = 0x018"
| "code_bits Modify = 0x002"
| "code_bits Remove = 0x400"
| "code_bits Open = 0x020"
| "code_bits Move = 0x800"
| "code_bits Moved_from = 0x040"
| "code_bits Moved_to = 0x080"
| "code_bits Create_path = 0x100"
| "code_bits Remove_path = 0x200"
| "code_bits Ignored = 0x8000"

definition event_is :: "event_type \<Rightarrow> event_code \<Rightarrow> bool" where
  "event_is ev code \<longleftrightarrow> ev_mask ev AND code_bits code \<noteq> 0"

definition event_is_directory :: "event_type \<Rightarrow> bool" where
  "event_is_directory ev \<longleftrightarrow> ev_mask ev AND 0x40000000 \<noteq> 0"

section \<open>The buffer\<close>

record inotify_impl =
  im_fd :: "int option"
  im_buffer :: "byte list"
  im_beg :: nat
  im_end :: nat
  im_files :: files
  im_cookies :: "(u32 \<times> event_type) list"

definition sv_construct :: "inotify_impl \<Rightarrow> inotify_impl" where
  "sv_construct im = im\<lparr>im_fd := None, im_beg := 0, im_end := 0\<rparr>"

text \<open>
  \<open>is_open\<close> asks whether the \<open>optional\<close> has a descriptor object, which it has from \<open>construct\<close> to \<open>destroy\<close>, open or not.
\<close>

definition sv_is_open :: "inotify_impl \<Rightarrow> bool" where
  "sv_is_open im = True"

definition sv_open :: "nat + int \<Rightarrow> nat option \<Rightarrow> inotify_impl \<Rightarrow> nat option \<times> inotify_impl" where
  "sv_open init assigned im =
     (if im_fd im \<noteq> None then (Some 106, im)
      else case init of Inl e \<Rightarrow> (Some e, im) | Inr fd \<Rightarrow> (case assigned of Some e \<Rightarrow> (Some e, im) | None \<Rightarrow> (None, im\<lparr>im_fd := Some fd\<rparr>)))"

definition sv_close :: "nat option \<Rightarrow> inotify_impl \<Rightarrow> nat option \<times> inotify_impl" where
  "sv_close closed im = (closed, im\<lparr>im_fd := None\<rparr>)"

definition sv_exists :: "inotify_impl \<Rightarrow> byte list \<Rightarrow> bool" where
  "sv_exists im path \<longleftrightarrow> list_ex (\<lambda>(wd, p). p = path) (im_files im)"

definition hash_emplace :: "'k \<Rightarrow> 'v \<Rightarrow> ('k \<times> 'v) list \<Rightarrow> ('k \<times> 'v) list" where
  "hash_emplace k v m = (if map_of m k = None then (k, v) # m else m)"

definition sv_add :: "nat + int \<Rightarrow> byte list \<Rightarrow> inotify_impl \<Rightarrow> nat option \<times> inotify_impl" where
  "sv_add watched path im = (case watched of Inl e \<Rightarrow> (Some e, im) | Inr wd \<Rightarrow> (None, im\<lparr>im_files := hash_emplace wd path (im_files im)\<rparr>))"

definition sv_remove :: "(int \<Rightarrow> nat option) \<Rightarrow> byte list \<Rightarrow> inotify_impl \<Rightarrow> nat option \<times> inotify_impl" where
  "sv_remove rm path im =
     (case find (\<lambda>(wd, p). p = path) (im_files im) of
        None \<Rightarrow> (Some 6, im)
      | Some (wd, _) \<Rightarrow> (case rm wd of None \<Rightarrow> (None, im\<lparr>im_files := AList.delete wd (im_files im)\<rparr>) | Some e \<Rightarrow> (Some e, im)))"

text \<open>
  The rest of the renamings without a partner is written to the front of the buffer, for the next wait: an event for every
  watch of its path, without a cookie. A write behind the buffer is undefined.
\<close>

definition buffer_write :: "byte list \<Rightarrow> nat \<Rightarrow> byte list \<Rightarrow> byte list option" where
  "buffer_write buf p bs = (if p + length bs \<le> length buf then Some (take p buf @ bs @ drop (p + length bs) buf) else None)"

definition put_back_event :: "event_type \<Rightarrow> int \<Rightarrow> byte list" where
  "put_back_event ev wd =
     int_bytes wd @ u32_bytes (ev_mask ev) @ u32_bytes 0 @ u32_bytes (word_of_nat (length (ev_in_name ev) + 1)) @ ev_in_name ev @ [0]"

fun put_back_files :: "event_type \<Rightarrow> files \<Rightarrow> byte list \<Rightarrow> nat \<Rightarrow> (byte list \<times> nat) option" where
  "put_back_files ev [] buf e = Some (buf, e)"
| "put_back_files ev ((wd, path) # fs) buf e =
     (if path = ev_name ev
      then Option.bind (buffer_write buf e (put_back_event ev wd)) (\<lambda>buf'. put_back_files ev fs buf' (e + 17 + length (ev_in_name ev)))
      else put_back_files ev fs buf e)"

fun put_back :: "event_type list \<Rightarrow> files \<Rightarrow> byte list \<Rightarrow> nat \<Rightarrow> (byte list \<times> nat) option" where
  "put_back [] fs buf e = Some (buf, e)"
| "put_back (ev # evs) fs buf e = Option.bind (put_back_files ev fs buf e) (\<lambda>(buf', e'). put_back evs fs buf' e')"

definition sv_left :: "inotify_impl \<Rightarrow> int" where
  "sv_left im = int (im_end im) - int (im_beg im)"

definition sv_put_back :: "inotify_impl \<Rightarrow> inotify_impl option" where
  "sv_put_back im =
     (if im_cookies im \<noteq> [] \<and> sv_left im < 16
      then map_option (\<lambda>(buf, e). im\<lparr>im_buffer := buf, im_beg := 0, im_end := e, im_cookies := []\<rparr>) (put_back (map snd (im_cookies im)) (im_files im) (im_buffer im) 0)
      else Some im)"

definition sv_ignore :: "inotify_event \<Rightarrow> inotify_impl \<Rightarrow> inotify_impl" where
  "sv_ignore iev im = (if iev_mask iev AND 0x8000 \<noteq> 0 then im\<lparr>im_files := AList.delete (iev_wd iev) (im_files im)\<rparr> else im)"

text \<open>
  The name of an event without a name is what stands behind it in the buffer. A cookie is stored with the first event
  of the vector, and the second half of a renaming is found in the recursive call.
\<close>

function sv_notify :: "inotify_impl \<Rightarrow> event_type list \<Rightarrow> (event_type list \<times> inotify_impl) option" where
  "sv_notify im vec =
     (case iev_read (drop (im_beg im) (im_buffer im)) of
        None \<Rightarrow> None
      | Some iev \<Rightarrow>
          let im1 = im\<lparr>im_beg := im_beg im + (16 + iev_len iev)\<rparr>
          in case map_of (im_files im) (iev_wd iev) of
               None \<Rightarrow> Some (vec, im1)
             | Some path \<Rightarrow>
                 if iev_mask iev AND 0x8fff = 0 then map_option (Pair vec) (sv_put_back im1)
                 else case c_string (drop (im_beg im + 16) (im_buffer im)) of
                   None \<Rightarrow> None
                 | Some name \<Rightarrow>
                     let vec1 = vec @ [\<lparr>ev_mask = iev_mask iev, ev_name = path, ev_in_name = name\<rparr>]
                     in if iev_mask iev AND 0x0c0 \<noteq> 0 \<and> iev_cookie iev \<noteq> 0
                        then case map_of (im_cookies im) (iev_cookie iev) of
                               None \<Rightarrow>
                                 if 16 \<le> sv_left im1 then sv_notify (im1\<lparr>im_cookies := (iev_cookie iev, hd vec1) # im_cookies im\<rparr>) vec1
                                 else map_option (Pair vec1) (sv_put_back (sv_ignore iev im1))
                             | Some ev \<Rightarrow>
                                 map_option (Pair (vec1 @ [ev]))
                                   (sv_put_back (sv_ignore iev (im1\<lparr>im_cookies := AList.delete (iev_cookie iev) (im_cookies im)\<rparr>)))
                        else map_option (Pair vec1) (sv_put_back (sv_ignore iev im1)))"
  by auto
termination by (relation "measure (\<lambda>(im, vec). im_end im - im_beg im)") (auto simp: sv_left_def)

declare sv_notify.simps [simp del]

text \<open>A wait, with the result of the read that it makes when less than an event is left; the error of the read is the sum's left.\<close>

definition sv_needs_read :: "inotify_impl \<Rightarrow> bool" where
  "sv_needs_read im \<longleftrightarrow> 0 \<le> sv_left im \<and> sv_left im < 16"

definition sv_filled :: "byte list \<Rightarrow> inotify_impl \<Rightarrow> inotify_impl" where
  "sv_filled bs im = im\<lparr>im_buffer := bs @ drop (length bs) (im_buffer im), im_beg := 0, im_end := length bs\<rparr>"

definition sv_wait :: "nat + byte list \<Rightarrow> inotify_impl \<Rightarrow> ((nat + event_type list) \<times> inotify_impl) option" where
  "sv_wait r im =
     (if sv_needs_read im
      then case r of Inl e \<Rightarrow> Some (Inl e, im) | Inr bs \<Rightarrow> map_option (\<lambda>(evs, im'). (Inr evs, im')) (sv_notify (sv_filled bs im) [])
      else map_option (\<lambda>(evs, im'). (Inr evs, im')) (sv_notify im []))"

definition sv_watch_handle :: "nat + byte list \<Rightarrow> inotify_impl \<Rightarrow> ((nat + event_type list) \<times> inotify_impl) option" where
  "sv_watch_handle r im =
     (case r of
        Inl e \<Rightarrow> Some (Inl e, im\<lparr>im_beg := 0, im_end := 0\<rparr>)
      | Inr bs \<Rightarrow>
          if length bs < 16 then Some (Inl 5, im\<lparr>im_beg := 0, im_end := 0\<rparr>)
          else map_option (\<lambda>(evs, im'). (Inr evs, im')) (sv_notify (sv_filled bs im) []))"

text \<open>\<open>async_wait\<close>: the handler gets the value of this function, after the read or from the buffer.\<close>

definition sv_async_wait :: "nat + byte list \<Rightarrow> inotify_impl \<Rightarrow> ((nat + event_type list) \<times> inotify_impl) option" where
  "sv_async_wait r im =
     (if sv_needs_read im then sv_watch_handle r im else map_option (\<lambda>(evs, im'). (Inr evs, im')) (sv_notify im []))"

section \<open>Waits\<close>

definition nameless :: "int \<Rightarrow> u32 \<Rightarrow> raw_event" where
  "nameless wd msk = \<lparr>raw_wd = wd, raw_mask = msk, raw_cookie = 0, raw_name = [], raw_pad = 0\<rparr>"

definition named :: "int \<Rightarrow> u32 \<Rightarrow> u32 \<Rightarrow> byte list \<Rightarrow> raw_event" where
  "named wd msk cookie name = \<lparr>raw_wd = wd, raw_mask = msk, raw_cookie = cookie, raw_name = name, raw_pad = 1\<rparr>"

text \<open>Waits in a row that read nothing.\<close>

fun sv_wait_all :: "nat \<Rightarrow> inotify_impl \<Rightarrow> (event_type list list \<times> inotify_impl) option" where
  "sv_wait_all 0 im = Some ([], im)"
| "sv_wait_all (Suc n) im =
     (case sv_wait (Inl 11) im of
        Some (Inr evs, im') \<Rightarrow> map_option (\<lambda>(evss, im''). (evs # evss, im'')) (sv_wait_all n im')
      | _ \<Rightarrow> None)"

definition event_of :: "raw_event \<Rightarrow> byte list \<Rightarrow> event_type" where
  "event_of e path = \<lparr>ev_mask = raw_mask e, ev_name = path, ev_in_name = raw_name e\<rparr>"

text \<open>The events that a wait returns for an event of the kernel.\<close>

definition events_of :: "raw_event \<Rightarrow> files \<Rightarrow> event_type list" where
  "events_of e fs = (case map_of fs (raw_wd e) of None \<Rightarrow> [] | Some path \<Rightarrow> if raw_mask e AND 0x8fff = 0 then [] else [event_of e path])"

fun all_events_of :: "raw_event list \<Rightarrow> files \<Rightarrow> event_type list list" where
  "all_events_of [] fs = []"
| "all_events_of (e # es) fs = events_of e fs # all_events_of es (event_files e fs)"

definition raw_single :: "raw_event \<Rightarrow> bool" where
  "raw_single e \<longleftrightarrow> raw_valid e \<and> 0 < raw_pad e \<and> (raw_mask e AND 0x0c0 = 0 \<or> raw_cookie e = 0)"

text \<open>The buffer of \<open>im\<close> holds an event at its beginning.\<close>

definition starts_with :: "raw_event \<Rightarrow> byte list \<Rightarrow> inotify_impl \<Rightarrow> bool" where
  "starts_with e mem im \<longleftrightarrow> drop (im_beg im) (im_buffer im) = raw_bytes e @ mem"

lemma sv_read_raw:
  assumes "raw_valid e" and "starts_with e mem im"
  shows "iev_read (drop (im_beg im) (im_buffer im)) = Some \<lparr>iev_wd = raw_wd e, iev_mask = raw_mask e, iev_cookie = raw_cookie e, iev_len = raw_len e\<rparr>"
  using assms(2) by (simp add: starts_with_def iev_read_raw [OF assms(1)])

lemma sv_name_raw:
  assumes "raw_valid e" and "0 < raw_pad e" and "starts_with e mem im"
  shows "c_string (drop (im_beg im + 16) (im_buffer im)) = Some (raw_name e)"
proof -
  have "drop (im_beg im + 16) (im_buffer im) = drop 16 (drop (im_beg im) (im_buffer im))" by (simp add: add.commute)
  also have "\<dots> = raw_name e @ replicate (raw_pad e) 0 @ mem"
    unfolding assms(3) [unfolded starts_with_def] by (rule drop_raw)
  finally show ?thesis using assms(1, 2) c_string_name [of "raw_name e" "raw_pad e" mem] by (simp add: raw_valid_def)
qed

lemma drop_next: "starts_with e mem im \<Longrightarrow> drop (im_beg im + (16 + raw_len e)) (im_buffer im) = mem"
proof -
  assume st: "starts_with e mem im"
  have "drop (im_beg im + (16 + raw_len e)) (im_buffer im) = drop (16 + raw_len e) (drop (im_beg im) (im_buffer im))"
    by (simp add: add.commute)
  also have "\<dots> = mem" unfolding st [unfolded starts_with_def] by simp
  finally show ?thesis .
qed

lemma ignored_bits: "m AND 0x8000 \<noteq> (0 :: u32) \<Longrightarrow> m AND 0x8fff \<noteq> 0"
proof
  assume "m AND 0x8000 \<noteq> 0" and zero: "m AND 0x8fff = 0"
  have "m AND 0x8000 = (m AND 0x8fff) AND 0x8000" by (simp add: and.assoc)
  also have "\<dots> = 0" unfolding zero by simp
  finally show False using \<open>m AND 0x8000 \<noteq> 0\<close> by simp
qed

lemma sv_notify_single:
  assumes "raw_single e" and "starts_with e mem im" and "im_cookies im = []"
  shows "sv_notify im vec = Some (vec @ events_of e (im_files im),
    im\<lparr>im_beg := im_beg im + (16 + raw_len e), im_files := event_files e (im_files im)\<rparr>)"
proof -
  have v: "raw_valid e" "0 < raw_pad e" and nc: "\<not> (raw_mask e AND 0x0c0 \<noteq> 0 \<and> raw_cookie e \<noteq> 0)"
    using assms(1) by (auto simp: raw_single_def)
  note r = sv_read_raw [OF v(1) assms(2)] and n = sv_name_raw [OF v assms(2)]
  show ?thesis
  proof (cases "map_of (im_files im) (raw_wd e)")
    case None
    then show ?thesis by (subst sv_notify.simps) (simp add: r events_of_def event_files_def delete_absent)
  next
    case (Some path)
    show ?thesis
    proof (cases "raw_mask e AND 0x8fff = 0")
      case True
      then have "raw_mask e AND 0x8000 = 0" using ignored_bits by blast
      with True show ?thesis using Some assms(3)
        by (subst sv_notify.simps) (simp add: r events_of_def event_files_def sv_put_back_def)
    next
      case False
      then show ?thesis using Some assms(3) nc
        by (subst sv_notify.simps) (auto simp: r n events_of_def event_of_def event_files_def sv_put_back_def sv_ignore_def Let_def)
    qed
  qed
qed

text \<open>
  When the buffer holds named events that are no halves of a renaming, the waits after the read return them one by one, in their
  order, each with the path of its watch at that moment; an event of an unknown watch gives a wait without events. Nothing is
  read before the buffer is used up.
\<close>

theorem inotify_waits:
  assumes "list_all raw_single es" and "im_cookies im = []"
    and "drop (im_beg im) (im_buffer im) = concat (map raw_bytes es) @ rest" and "im_end im = im_beg im + length (concat (map raw_bytes es))"
  shows "sv_wait_all (length es) im =
    Some (all_events_of es (im_files im), im\<lparr>im_beg := im_end im, im_files := snd (events_callbacks es (im_files im))\<rparr>)"
  using assms
proof (induction es arbitrary: im)
  case Nil
  then show ?case by simp
next
  case (Cons e es)
  let ?im = "im\<lparr>im_beg := im_beg im + (16 + raw_len e), im_files := event_files e (im_files im)\<rparr>"
  have st: "starts_with e (concat (map raw_bytes es) @ rest) im" using Cons.prems(3) by (simp add: starts_with_def)
  have "\<not> sv_needs_read im" using Cons.prems(4) by (simp add: sv_needs_read_def sv_left_def)
  then have w: "sv_wait (Inl 11) im = Some (Inr (events_of e (im_files im)), ?im)"
    using sv_notify_single [of e _ im "[]"] st Cons.prems(1, 2) by (simp add: sv_wait_def)
  have "drop (im_beg ?im) (im_buffer ?im) = concat (map raw_bytes es) @ rest"
    using drop_next [OF st] by simp
  then have "sv_wait_all (length es) ?im =
    Some (all_events_of es (im_files ?im), ?im\<lparr>im_beg := im_end ?im, im_files := snd (events_callbacks es (im_files ?im))\<rparr>)"
    using Cons.prems by (intro Cons.IH) simp_all
  then show ?case using w by (simp add: split_beta)
qed

theorem inotify_waits_witness:
  "map_option fst (sv_wait_all 3 \<lparr>im_fd = Some 3, im_buffer = raw_bytes (named 1 0x100 0 [97]) @ raw_bytes (named 9 0x100 0 [98]) @ raw_bytes (named 1 2 0 [99]),
       im_beg = 0, im_end = 54, im_files = [(1, [47])], im_cookies = []\<rparr>)
     = Some [[\<lparr>ev_mask = 0x100, ev_name = [47], ev_in_name = [97]\<rparr>], [], [\<lparr>ev_mask = 2, ev_name = [47], ev_in_name = [99]\<rparr>]]"
  using inotify_waits [of "[named 1 0x100 0 [97], named 9 0x100 0 [98], named 1 2 0 [99]]"
      "\<lparr>im_fd = Some 3, im_buffer = raw_bytes (named 1 0x100 0 [97]) @ raw_bytes (named 9 0x100 0 [98]) @ raw_bytes (named 1 2 0 [99]),
       im_beg = 0, im_end = 54, im_files = [(1, [47])], im_cookies = []\<rparr>" "[]"]
  by (simp add: named_def raw_single_def raw_valid_def raw_len_def events_of_def event_of_def event_files_def numeral_3_eq_3)

lemma sv_put_back_none [simp]: "im_cookies im = [] \<Longrightarrow> sv_put_back im = Some im"
  by (simp add: sv_put_back_def)

lemma sv_ignore_cookies [simp]: "im_cookies (sv_ignore iev im) = im_cookies im"
  by (simp add: sv_ignore_def)

lemma int_bytes_small:
  assumes "k < 256"
  shows "int_bytes (int k) = [word_of_nat k, 0, 0, 0]"
proof -
  have u: "unat (word_of_int (int k) :: u32) = k" using assms by (simp add: unat_of_nat)
  show ?thesis unfolding int_bytes_def u32_bytes_def Let_def u using assms by simp
qed

text \<open>
  An event without a name, as the events of a watched file are, gets the bytes behind it as the name of its entry: when another
  event follows, the low byte of that event's watch descriptor.
\<close>

theorem inotify_name_leak:
  assumes "raw_valid e" and "raw_len e = 0" and "raw_mask e AND 0x0c0 = 0" and "raw_mask e AND 0x8fff \<noteq> 0"
    and "raw_valid e'" and "0 < raw_wd e'" and "raw_wd e' < 256" and "map_of (im_files im) (raw_wd e) = Some path"
    and "starts_with e (raw_bytes e' @ mem) im" and "16 \<le> sv_left im" and "im_cookies im = []"
  shows "map_option fst (sv_wait r im) = Some (Inr [\<lparr>ev_mask = raw_mask e, ev_name = path, ev_in_name = [word_of_int (raw_wd e')]\<rparr>])"
proof -
  note rd = sv_read_raw [OF assms(1, 9)]
  have "drop (im_beg im + 16) (im_buffer im) = drop 16 (drop (im_beg im) (im_buffer im))" by (simp add: add.commute)
  also have "\<dots> = raw_bytes e' @ mem" using assms(2, 9) by (simp add: starts_with_def)
  also obtain tl where "\<dots> = word_of_int (raw_wd e') # 0 # tl"
  proof -
    have "raw_wd e' = int (nat (raw_wd e'))" and "nat (raw_wd e') < 256" using assms(6, 7) by simp_all
    then have "int_bytes (raw_wd e') = [word_of_nat (nat (raw_wd e')), 0, 0, 0]" by (metis int_bytes_small)
    then have "int_bytes (raw_wd e') = [word_of_int (raw_wd e'), 0, 0, 0]" using assms(6) by simp
    then show ?thesis using that by (simp add: raw_bytes_def)
  qed
  finally have "c_string (drop (im_beg im + 16) (im_buffer im)) = Some [word_of_int (raw_wd e')]"
    using assms(6, 7) by (simp add: c_string_def word_of_int_eq_0_iff zdvd_not_zless)
  then show ?thesis
    using assms(3, 4, 8, 10, 11) rd
    by (simp add: sv_wait_def sv_needs_read_def sv_notify.simps [of im] option.map_comp o_def Let_def)
qed

theorem inotify_name_leak_witness:
  "map_option fst (sv_wait (Inl 11) \<lparr>im_fd = Some 3, im_buffer = raw_bytes (nameless 1 2) @ raw_bytes (nameless 7 8) @ replicate 100 0,
       im_beg = 0, im_end = 32, im_files = [(1, [47])], im_cookies = []\<rparr>)
     = Some (Inr [\<lparr>ev_mask = 2, ev_name = [47], ev_in_name = [7]\<rparr>])"
  using inotify_name_leak [of "nameless 1 2" "nameless 7 8"
      "\<lparr>im_fd = Some 3, im_buffer = raw_bytes (nameless 1 2) @ raw_bytes (nameless 7 8) @ replicate 100 0,
       im_beg = 0, im_end = 32, im_files = [(1, [47])], im_cookies = []\<rparr>" "[47]" "replicate 100 0" "Inl 11"]
  by (simp add: nameless_def raw_valid_def raw_len_def starts_with_def sv_left_def)

section \<open>Renamings\<close>

lemma move_bits: "m AND 0x0c0 \<noteq> (0 :: u32) \<Longrightarrow> m AND 0x8fff \<noteq> 0"
proof
  assume "m AND 0x0c0 \<noteq> 0" and zero: "m AND 0x8fff = 0"
  have "m AND 0x0c0 = (m AND 0x8fff) AND 0x0c0" by (simp add: and.assoc)
  also have "\<dots> = 0" unfolding zero by simp
  finally show False using \<open>m AND 0x0c0 \<noteq> 0\<close> by simp
qed

text \<open>A half of a renaming that the kernel reports for a known watch.\<close>

definition raw_half :: "raw_event \<Rightarrow> u32 \<Rightarrow> bool" where
  "raw_half e c \<longleftrightarrow> raw_valid e \<and> 0 < raw_pad e \<and> raw_mask e AND 0x0c0 \<noteq> 0 \<and> raw_mask e AND 0x8000 = 0 \<and> raw_cookie e = c \<and> c \<noteq> 0"

lemma sv_notify_first:
  assumes "raw_half e c" and "map_of (im_files im) (raw_wd e) = Some path" and "starts_with e mem im" and "im_cookies im = []"
    and "16 \<le> sv_left (im\<lparr>im_beg := im_beg im + (16 + raw_len e)\<rparr>)"
  shows "sv_notify im [] = sv_notify (im\<lparr>im_beg := im_beg im + (16 + raw_len e), im_cookies := [(c, event_of e path)]\<rparr>) [event_of e path]"
proof -
  have h: "raw_valid e" "0 < raw_pad e" "raw_mask e AND 0x0c0 \<noteq> 0" "raw_cookie e = c" "c \<noteq> 0" using assms(1) by (simp_all add: raw_half_def)
  show ?thesis
    using h(3-) assms(2, 4, 5) sv_read_raw [OF h(1) assms(3)] sv_name_raw [OF h(1, 2) assms(3)] move_bits [OF h(3)]
    by (simp add: sv_notify.simps [of im] event_of_def Let_def)
qed

lemma sv_notify_second:
  assumes "raw_half e c" and "map_of (im_files im) (raw_wd e) = Some path" and "starts_with e mem im" and "im_cookies im = [(c, ev)]"
  shows "sv_notify im vec = Some (vec @ [event_of e path, ev], im\<lparr>im_beg := im_beg im + (16 + raw_len e), im_cookies := []\<rparr>)"
proof -
  have h: "raw_valid e" "0 < raw_pad e" "raw_mask e AND 0x0c0 \<noteq> 0" "raw_cookie e = c" "c \<noteq> 0" "raw_mask e AND 0x8000 = 0"
    using assms(1) by (simp_all add: raw_half_def)
  show ?thesis
    using h(3-) assms(2, 4) sv_read_raw [OF h(1) assms(3)] sv_name_raw [OF h(1, 2) assms(3)] move_bits [OF h(3)]
    by (simp add: sv_notify.simps [of im] event_of_def Let_def sv_ignore_def)
qed

lemma sv_notify_plain:
  assumes "raw_single x" and "raw_mask x AND 0x8fff \<noteq> 0" and "raw_mask x AND 0x8000 = 0" and "starts_with x mem im"
    and "map_of (im_files im) (raw_wd x) = Some path"
  shows "sv_notify im vec = map_option (Pair (vec @ [event_of x path])) (sv_put_back (im\<lparr>im_beg := im_beg im + (16 + raw_len x)\<rparr>))"
proof -
  have x: "raw_valid x" "0 < raw_pad x" "\<not> (raw_mask x AND 0x0c0 \<noteq> 0 \<and> raw_cookie x \<noteq> 0)" using assms(1) by (auto simp: raw_single_def)
  note eval = x(3) assms(2, 3, 5) sv_read_raw [OF x(1) assms(4)] sv_name_raw [OF x(1, 2) assms(4)]
  show ?thesis
  proof (cases "raw_mask x AND 0x0c0 = 0")
    case True
    then show ?thesis using eval by (simp add: sv_notify.simps [of im] event_of_def Let_def sv_ignore_def)
  next
    case False
    then show ?thesis using eval by (simp add: sv_notify.simps [of im] event_of_def Let_def sv_ignore_def)
  qed
qed

text \<open>
  When the two halves of a renaming follow each other in the buffer, one wait returns them, and the first half a second time.
\<close>

theorem inotify_rename:
  assumes "raw_half e c" and "raw_half e' c" and "map_of (im_files im) (raw_wd e) = Some old" and "map_of (im_files im) (raw_wd e') = Some new"
    and "starts_with e (raw_bytes e' @ mem) im" and "im_cookies im = []" and "im_beg im + length (raw_bytes e @ raw_bytes e') \<le> im_end im"
  shows "sv_wait r im =
    Some (Inr [event_of e old, event_of e' new, event_of e old], im\<lparr>im_beg := im_beg im + length (raw_bytes e @ raw_bytes e')\<rparr>)"
proof -
  let ?im = "im\<lparr>im_beg := im_beg im + (16 + raw_len e), im_cookies := [(c, event_of e old)]\<rparr>"
  have "\<not> sv_needs_read im" using assms(7) by (simp add: sv_needs_read_def sv_left_def)
  moreover have "sv_notify im [] = sv_notify ?im [event_of e old]"
    using assms by (intro sv_notify_first) (simp_all add: sv_left_def)
  moreover have "starts_with e' mem ?im" using drop_next [OF assms(5)] by (simp add: starts_with_def)
  then have "sv_notify ?im [event_of e old] = Some ([event_of e old] @ [event_of e' new, event_of e old],
      ?im\<lparr>im_beg := im_beg ?im + (16 + raw_len e'), im_cookies := []\<rparr>)"
    using assms by (intro sv_notify_second) simp_all
  ultimately show ?thesis using assms(6) by (simp add: sv_wait_def add.assoc)
qed

lemma put_back_event_raw:
  "put_back_event ev wd = raw_bytes \<lparr>raw_wd = wd, raw_mask = ev_mask ev, raw_cookie = 0, raw_name = ev_in_name ev, raw_pad = 1\<rparr>"
  by (simp add: put_back_event_def raw_bytes_def raw_len_def)

lemma put_back_files_other: "filter (\<lambda>(w, p). p = ev_name ev) fs = [] \<Longrightarrow> put_back_files ev fs buf e = Some (buf, e)"
  by (induction ev fs buf e rule: put_back_files.induct) (auto split: if_splits)

lemma put_back_files_unique:
  assumes "filter (\<lambda>(w, p). p = ev_name ev) fs = [(wd, ev_name ev)]"
  shows "put_back_files ev fs buf e =
    map_option (\<lambda>buf'. (buf', e + 17 + length (ev_in_name ev))) (buffer_write buf e (put_back_event ev wd))"
  using assms
proof (induction ev fs buf e rule: put_back_files.induct)
  case (2 ev wd' path fs buf e)
  show ?case
  proof (cases "path = ev_name ev")
    case True
    then show ?thesis using 2(3) put_back_files_other [of ev fs]
      by (cases "buffer_write buf e (put_back_event ev wd')") auto
  next
    case False
    then show ?thesis using 2 by simp
  qed
qed simp

text \<open>
  When the first half of a renaming is followed by another event at the end of the buffer, a wait returns both, and the next wait, which
  reads nothing, returns the first half again.
\<close>

theorem inotify_rename_twice:
  assumes "raw_half e c" and "raw_single x" and "raw_mask x AND 0x8fff \<noteq> 0" and "raw_mask x AND 0x8000 = 0"
    and "map_of (im_files im) (raw_wd e) = Some old" and "filter (\<lambda>(w, p). p = old) (im_files im) = [(raw_wd e, old)]"
    and "map_of (im_files im) (raw_wd x) = Some path" and "starts_with e (raw_bytes x @ mem) im" and "im_cookies im = []"
    and "im_end im = im_beg im + length (raw_bytes e @ raw_bytes x)" and "17 + length (raw_name e) \<le> length (im_buffer im)"
  shows "\<exists>im1 im2. sv_wait r im = Some (Inr [event_of e old, event_of x path], im1)
    \<and> sv_wait r' im1 = Some (Inr [event_of e old], im2) \<and> im_cookies im2 = [] \<and> im_beg im2 = im_end im2"
proof -
  let ?im = "im\<lparr>im_beg := im_beg im + (16 + raw_len e), im_cookies := [(c, event_of e old)]\<rparr>"
  let ?re = "\<lparr>raw_wd = raw_wd e, raw_mask = raw_mask e, raw_cookie = 0, raw_name = raw_name e, raw_pad = 1\<rparr>"
  let ?buf = "raw_bytes ?re @ drop (17 + length (raw_name e)) (im_buffer im)"
  let ?im1 = "im\<lparr>im_buffer := ?buf, im_beg := 0, im_end := 17 + length (raw_name e)\<rparr>"
  have e: "raw_valid e" "0 < raw_pad e" "raw_mask e AND 0x0c0 \<noteq> 0" using assms(1) by (simp_all add: raw_half_def)
  have "sv_notify im [] = sv_notify ?im [event_of e old]"
    using assms by (intro sv_notify_first) (simp_all add: sv_left_def)
  also have "\<dots> = Some ([event_of e old, event_of x path], ?im1)"
  proof -
    have st: "starts_with x mem ?im" using drop_next [OF assms(8)] by (simp add: starts_with_def)
    have "put_back [event_of e old] (im_files im) (im_buffer im) 0 = Some (?buf, 17 + length (raw_name e))"
      using assms(6, 11) put_back_files_unique [of "event_of e old" "im_files im" "raw_wd e" "im_buffer im" 0]
      by (simp add: event_of_def put_back_event_raw buffer_write_def raw_len_def)
    then have "sv_put_back (?im\<lparr>im_beg := im_beg ?im + (16 + raw_len x)\<rparr>) = Some ?im1"
      using assms(9, 10) by (simp add: sv_put_back_def sv_left_def)
    then show ?thesis using sv_notify_plain [OF assms(2-4) st] assms(7) by simp
  qed
  finally have "sv_notify im [] = Some ([event_of e old, event_of x path], ?im1)" .
  moreover have "\<not> sv_needs_read im" using assms(10) by (simp add: sv_needs_read_def sv_left_def)
  ultimately have one: "sv_wait r im = Some (Inr [event_of e old, event_of x path], ?im1)" by (simp add: sv_wait_def)
  have single: "raw_single ?re" using e by (auto simp: raw_single_def raw_valid_def raw_len_def)
  have "starts_with ?re (drop (17 + length (raw_name e)) (im_buffer im)) ?im1" by (simp add: starts_with_def)
  note two = sv_notify_single [OF single this, of "[]"]
  have "events_of ?re (im_files ?im1) = [event_of e old]"
    using assms(5) move_bits [OF e(3)] by (simp add: events_of_def event_of_def)
  moreover have "\<not> sv_needs_read ?im1" by (simp add: sv_needs_read_def sv_left_def)
  ultimately have "\<exists>im2. sv_wait r' ?im1 = Some (Inr [event_of e old], im2) \<and> im_cookies im2 = [] \<and> im_beg im2 = im_end im2"
    using two assms(9) by (simp add: sv_wait_def raw_len_def)
  with one show ?thesis by blast
qed

definition rename_impl :: "raw_event list \<Rightarrow> inotify_impl" where
  "rename_impl es = \<lparr>im_fd = Some 3, im_buffer = concat (map raw_bytes es) @ replicate 100 0, im_beg = 0, im_end = length (concat (map raw_bytes es)),
     im_files = [(1, [47])], im_cookies = []\<rparr>"

theorem inotify_rename_witness:
  "map_option fst (sv_wait (Inl 11) (rename_impl [named 1 0x40 5 [97], named 1 0x80 5 [98]]))
     = Some (Inr [\<lparr>ev_mask = 0x40, ev_name = [47], ev_in_name = [97]\<rparr>, \<lparr>ev_mask = 0x80, ev_name = [47], ev_in_name = [98]\<rparr>,
         \<lparr>ev_mask = 0x40, ev_name = [47], ev_in_name = [97]\<rparr>])"
  using inotify_rename [of "named 1 0x40 5 [97]" 5 "named 1 0x80 5 [98]" "rename_impl [named 1 0x40 5 [97], named 1 0x80 5 [98]]" "[47]" "[47]" "replicate 100 0" "Inl 11"]
  by (simp add: named_def rename_impl_def raw_half_def raw_valid_def raw_len_def starts_with_def event_of_def)

theorem inotify_rename_twice_witness:
  "\<exists>im1 im2. sv_wait (Inl 11) (rename_impl [named 1 0x40 5 [97], named 1 0x02 0 [98]]) =
      Some (Inr [\<lparr>ev_mask = 0x40, ev_name = [47], ev_in_name = [97]\<rparr>, \<lparr>ev_mask = 0x02, ev_name = [47], ev_in_name = [98]\<rparr>], im1)
    \<and> sv_wait (Inl 11) im1 = Some (Inr [\<lparr>ev_mask = 0x40, ev_name = [47], ev_in_name = [97]\<rparr>], im2)"
  using inotify_rename_twice [of "named 1 0x40 5 [97]" 5 "named 1 0x02 0 [98]" "rename_impl [named 1 0x40 5 [97], named 1 0x02 0 [98]]" "[47]" "[47]"
      "replicate 100 0" "Inl 11" "Inl 11"]
  by (auto simp: named_def rename_impl_def raw_half_def raw_single_def raw_valid_def raw_len_def starts_with_def event_of_def)

end
