(* ===== verification/Netlink.thy ===== *)
theory Netlink
  imports Inotify Internet4 Internet6 Linklayer
begin

text \<open>
  The listener of routing messages (\<^verbatim>\<open>asio/netlink/netlink_listener.hpp\<close>, \<^verbatim>\<open>link_impl.hpp\<close>, \<^verbatim>\<open>ifaddr_impl.hpp\<close>, \<^verbatim>\<open>neighbor_impl.hpp\<close>): the
  loop over the messages of a received buffer, the loops over their attributes, and the callbacks. The macros of
  \<^verbatim>\<open>linux/netlink.h\<close> and \<^verbatim>\<open>linux/rtnetlink.h\<close> are written out, with lengths of 64 bits that wrap around. A read behind the buffer has the result
  \<open>None\<close>.
\<close>

section \<open>Categories\<close>

text \<open>The tags that the category of the derived class is derived from.\<close>

record category =
  cat_link :: bool
  cat_stats :: bool
  cat_ifaddr_v4 :: bool
  cat_ifaddr_v6 :: bool
  cat_neighbor_v4 :: bool
  cat_neighbor_v6 :: bool

definition nl_groups :: "category \<Rightarrow> u32" where
  "nl_groups c =
     (if cat_link c then 1 else 0) OR (if cat_stats c then 1 else 0) OR (if cat_ifaddr_v4 c then 0x10 else 0)
     OR (if cat_ifaddr_v6 c then 0x100 else 0) OR (if cat_neighbor_v4 c then 4 else 0) OR (if cat_neighbor_v6 c then 4 else 0)"

datatype nl_callback =
    On_link "byte list" linklayer_address nat u32
  | On_stats "byte list" u32 u32 u32 u32 nat u32
  | On_ifaddr4 internet4_address "byte list" nat nat
  | On_ifaddr6 internet6_address "byte list" nat nat
  | On_neighbor4 internet4_address linklayer_address nat
  | On_neighbor6 internet6_address linklayer_address nat
  | On_nl_error nat

section \<open>Attributes\<close>

definition u16_at :: "nat \<Rightarrow> byte list \<Rightarrow> nat" where
  "u16_at off mem = le_val (take 2 (drop off mem))"

definition align4 :: "nat \<Rightarrow> nat" where
  "align4 n = (n + 3) div 4 * 4"

definition minus64 :: "nat \<Rightarrow> nat \<Rightarrow> nat" where
  "minus64 a b = (a + 2 ^ 64 - b) mod 2 ^ 64"

text \<open>\<open>RTA_OK\<close>, the body with the type and the memory of the data, \<open>RTA_NEXT\<close>.\<close>

function rta_loop :: "(nat \<Rightarrow> byte list \<Rightarrow> 's \<Rightarrow> 's option) \<Rightarrow> byte list \<Rightarrow> nat \<Rightarrow> 's \<Rightarrow> 's option" where
  "rta_loop body mem len s =
     (if len < 4 then Some s
      else if length mem < 2 then None
      else let rta_len = u16_at 0 mem
           in if rta_len < 4 \<or> len < rta_len then Some s
              else if length mem < 4 then None
              else case body (u16_at 2 mem) (drop 4 mem) s of
                None \<Rightarrow> None
              | Some s' \<Rightarrow> rta_loop body (drop (align4 rta_len) mem) (minus64 len (align4 rta_len)) s')"
  by auto
termination
  by (relation "measure (\<lambda>(body, mem, len, s). length mem)") (auto simp: align4_def)

declare rta_loop.simps [simp del]

text \<open>\<open>from_voidptr\<close> reads as many bytes as the address has, whatever the length of the attribute.\<close>

definition mem_part :: "nat \<Rightarrow> byte list \<Rightarrow> byte list option" where
  "mem_part n mem = (if length mem < n then None else Some (take n mem))"

definition ll_from_voidptr :: "byte list \<Rightarrow> linklayer_address option" where
  "ll_from_voidptr mem = map_option (\<lambda>bs. \<lparr>ll_bytes = bs\<rparr>) (mem_part 6 mem)"

definition i4_from_voidptr :: "byte list \<Rightarrow> internet4_address option" where
  "i4_from_voidptr mem = map_option (\<lambda>bs. \<lparr>i4_bytes = bs\<rparr>) (mem_part 4 mem)"

definition i6_from_voidptr :: "byte list \<Rightarrow> internet6_address option" where
  "i6_from_voidptr mem = map_option (\<lambda>bs. \<lparr>i6_bytes = bs\<rparr>) (mem_part 16 mem)"

text \<open>\<open>RTM_PAYLOAD\<close> takes off the header and a \<open>struct rtmsg\<close> of 12 bytes, for every kind of message.\<close>

definition rtm_payload :: "nat \<Rightarrow> nat" where
  "rtm_payload nlmsg_len = minus64 nlmsg_len 28"

section \<open>Neighbors\<close>

definition neighbor_body :: "(byte list \<Rightarrow> 'a option) \<Rightarrow> nat \<Rightarrow> byte list \<Rightarrow> 'a \<times> linklayer_address \<Rightarrow> ('a \<times> linklayer_address) option" where
  "neighbor_body from t mem s =
     (if t = 1 then map_option (\<lambda>a. (a, snd s)) (from mem)
      else if t = 2 then map_option (\<lambda>l. (fst s, l)) (ll_from_voidptr mem)
      else Some s)"

text \<open>\<open>mem\<close> is the memory from the \<open>struct ndmsg\<close> on.\<close>

definition dispatch_neighbor_v4 :: "category \<Rightarrow> byte list \<Rightarrow> nat \<Rightarrow> nl_callback list option" where
  "dispatch_neighbor_v4 c mem len =
     (if \<not> cat_neighbor_v4 c then Some []
      else if length mem < 10 then None
      else map_option (\<lambda>(a, l). [On_neighbor4 a l (u16_at 8 mem)]) (rta_loop (neighbor_body i4_from_voidptr) (drop 12 mem) len (i4_default, ll_default)))"

definition dispatch_neighbor_v6 :: "category \<Rightarrow> byte list \<Rightarrow> nat \<Rightarrow> nl_callback list option" where
  "dispatch_neighbor_v6 c mem len =
     (if \<not> cat_neighbor_v6 c then Some []
      else if length mem < 10 then None
      else map_option (\<lambda>(a, l). [On_neighbor6 a l (u16_at 8 mem)]) (rta_loop (neighbor_body i6_from_voidptr) (drop 12 mem) len (i6_default, ll_default)))"

text \<open>The memory from the header of a message on; the family is the first byte of every structure behind the header.\<close>

definition nl_len :: "byte list \<Rightarrow> nat" where
  "nl_len mem = unat (host_u32 mem)"

definition nl_type :: "byte list \<Rightarrow> nat" where
  "nl_type mem = u16_at 4 mem"

definition nl_family :: "byte list \<Rightarrow> nat" where
  "nl_family mem = unat (mem ! 16)"

definition dispatch_neighbor :: "category \<Rightarrow> byte list \<Rightarrow> nl_callback list option" where
  "dispatch_neighbor c mem =
     (if \<not> (cat_neighbor_v4 c \<or> cat_neighbor_v6 c) \<or> nl_type mem \<noteq> 28 then Some []
      else if length mem < 17 then None
      else if nl_family mem = 2 then dispatch_neighbor_v4 c (drop 16 mem) (rtm_payload (nl_len mem))
      else if nl_family mem = 10 then dispatch_neighbor_v6 c (drop 16 mem) (rtm_payload (nl_len mem))
      else Some [])"

section \<open>Addresses of interfaces\<close>

definition ifaddr_body :: "(byte list \<Rightarrow> 'a option) \<Rightarrow> nat \<Rightarrow> byte list \<Rightarrow> 'a \<times> byte list \<Rightarrow> ('a \<times> byte list) option" where
  "ifaddr_body from t mem s =
     (if t = 1 then map_option (\<lambda>a. (a, snd s)) (from mem)
      else if t = 3 then map_option (\<lambda>l. (fst s, l)) (c_string mem)
      else Some s)"

definition dispatch_ifaddr_v4 :: "category \<Rightarrow> byte list \<Rightarrow> nat \<Rightarrow> nl_callback list option" where
  "dispatch_ifaddr_v4 c mem len =
     (if \<not> cat_ifaddr_v4 c then Some []
      else if length mem < 3 then None
      else map_option (\<lambda>(a, l). [On_ifaddr4 a l (unat (mem ! 1)) (unat (mem ! 2))]) (rta_loop (ifaddr_body i4_from_voidptr) (drop 8 mem) len (i4_default, [])))"

definition dispatch_ifaddr_v6 :: "category \<Rightarrow> byte list \<Rightarrow> nat \<Rightarrow> nl_callback list option" where
  "dispatch_ifaddr_v6 c mem len =
     (if \<not> cat_ifaddr_v6 c then Some []
      else if length mem < 3 then None
      else map_option (\<lambda>(a, l). [On_ifaddr6 a l (unat (mem ! 1)) (unat (mem ! 2))]) (rta_loop (ifaddr_body i6_from_voidptr) (drop 8 mem) len (i6_default, [])))"

definition dispatch_ifaddr :: "category \<Rightarrow> byte list \<Rightarrow> nl_callback list option" where
  "dispatch_ifaddr c mem =
     (if \<not> (cat_ifaddr_v4 c \<or> cat_ifaddr_v6 c) \<or> nl_type mem \<noteq> 20 then Some []
      else if length mem < 17 then None
      else if nl_family mem = 2 then dispatch_ifaddr_v4 c (drop 16 mem) (rtm_payload (nl_len mem))
      else if nl_family mem = 10 then dispatch_ifaddr_v6 c (drop 16 mem) (rtm_payload (nl_len mem))
      else Some [])"

section \<open>Links\<close>

record link_state =
  ls_name :: "byte list"
  ls_addr :: linklayer_address
  ls_stats :: "byte list option"

text \<open>The statistics are kept as the memory that the pointer to them is for.\<close>

definition link_body :: "nat \<Rightarrow> byte list \<Rightarrow> link_state \<Rightarrow> link_state option" where
  "link_body t mem s =
     (if t = 3 then map_option (\<lambda>n. s\<lparr>ls_name := n\<rparr>) (c_string mem)
      else if t = 1 then map_option (\<lambda>l. s\<lparr>ls_addr := l\<rparr>) (ll_from_voidptr mem)
      else if t = 7 then Some (s\<lparr>ls_stats := Some mem\<rparr>)
      else Some s)"

definition dispatch_link_stats :: "category \<Rightarrow> link_state \<Rightarrow> nat \<Rightarrow> u32 \<Rightarrow> nl_callback list option" where
  "dispatch_link_stats c s t flags =
     (case ls_stats s of
        Some mem \<Rightarrow>
          if \<not> cat_stats c then Some []
          else if length mem < 16 then None
          else Some [On_stats (ls_name s) (host_u32 (drop 4 mem)) (host_u32 (drop 12 mem)) (host_u32 mem) (host_u32 (drop 8 mem)) t flags]
      | None \<Rightarrow> Some [])"

definition dispatch_link_unspec :: "category \<Rightarrow> byte list \<Rightarrow> nat \<Rightarrow> nl_callback list option" where
  "dispatch_link_unspec c mem len =
     (if length mem < 12 then None
      else case rta_loop link_body (drop 16 mem) len \<lparr>ls_name = [], ls_addr = ll_default, ls_stats = None\<rparr> of
        None \<Rightarrow> None
      | Some s \<Rightarrow>
          map_option (\<lambda>cs. (if cat_link c then [On_link (ls_name s) (ls_addr s) (u16_at 2 mem) (host_u32 (drop 8 mem))] else []) @ cs)
            (dispatch_link_stats c s (u16_at 2 mem) (host_u32 (drop 8 mem))))"

definition dispatch_link :: "category \<Rightarrow> byte list \<Rightarrow> nl_callback list option" where
  "dispatch_link c mem =
     (if \<not> (cat_link c \<or> cat_stats c) \<or> nl_type mem \<noteq> 16 then Some []
      else if length mem < 17 then None
      else if nl_family mem = 0 then dispatch_link_unspec c (drop 16 mem) (rtm_payload (nl_len mem))
      else Some [])"

section \<open>Messages\<close>

definition nl_message :: "category \<Rightarrow> byte list \<Rightarrow> nl_callback list option" where
  "nl_message c mem =
     Option.bind (dispatch_link c mem) (\<lambda>l. Option.bind (dispatch_ifaddr c mem) (\<lambda>a. map_option (\<lambda>n. l @ a @ n) (dispatch_neighbor c mem)))"

text \<open>\<open>NLMSG_OK\<close>, the messages that end the loop, \<open>NLMSG_NEXT\<close>.\<close>

function nl_loop :: "category \<Rightarrow> byte list \<Rightarrow> nat \<Rightarrow> nl_callback list option" where
  "nl_loop c mem n =
     (if n < 16 then Some []
      else if length mem < 16 then None
      else if nl_len mem < 16 \<or> n < nl_len mem then Some []
      else if nl_type mem = 3 \<or> nl_type mem = 2 then Some []
      else case nl_message c mem of
        None \<Rightarrow> None
      | Some cs \<Rightarrow> map_option ((@) cs) (nl_loop c (drop (align4 (nl_len mem)) mem) (minus64 n (align4 (nl_len mem)))))"
  by auto
termination
  by (relation "measure (\<lambda>(c, mem, n). length mem)") (auto simp: align4_def)

declare nl_loop.simps [simp del]

text \<open>\<open>dispatch\<close>: the callbacks, and whether the next receive is started.\<close>

definition nl_dispatch :: "category \<Rightarrow> nat option \<Rightarrow> byte list \<Rightarrow> nat \<Rightarrow> (nl_callback list \<times> bool) option" where
  "nl_dispatch c error buffer n =
     (case error of Some e \<Rightarrow> Some ([On_nl_error e], False) | None \<Rightarrow> map_option (\<lambda>cs. (cs, True)) (nl_loop c buffer n))"

section \<open>Socket\<close>

record nl_socket =
  ns_open :: bool
  ns_bound :: u32

definition nl_open :: "nat option \<Rightarrow> nl_socket \<Rightarrow> nat option \<times> nl_socket" where
  "nl_open opened s = (case opened of Some e \<Rightarrow> (Some e, s) | None \<Rightarrow> (None, s\<lparr>ns_open := True\<rparr>))"

definition nl_bind :: "category \<Rightarrow> nat option \<Rightarrow> nl_socket \<Rightarrow> nat option \<times> nl_socket" where
  "nl_bind c bound s = (case bound of Some e \<Rightarrow> (Some e, s) | None \<Rightarrow> (None, s\<lparr>ns_bound := nl_groups c\<rparr>))"

text \<open>The last component says that a receive is started.\<close>

definition nl_start :: "category \<Rightarrow> nat option \<Rightarrow> nat option \<Rightarrow> nl_socket \<Rightarrow> nat option \<times> nl_socket \<times> bool" where
  "nl_start c opened bound s =
     (if ns_open s then (None, s, True)
      else case nl_open opened s of
        (Some e, s') \<Rightarrow> (Some e, s', False)
      | (None, s') \<Rightarrow> (case nl_bind c bound s' of (Some e, s'') \<Rightarrow> (Some e, s'', False) | (None, s'') \<Rightarrow> (None, s'', True)))"

definition nl_close :: "nat option \<Rightarrow> nl_socket \<Rightarrow> nat option \<times> nl_socket" where
  "nl_close closed s = (closed, s\<lparr>ns_open := False, ns_bound := 0\<rparr>)"

section \<open>The messages of the kernel\<close>

text \<open>An attribute has its length, its type, its data, and nulls up to a multiple of four.\<close>

definition attr_bytes :: "nat \<times> byte list \<Rightarrow> byte list" where
  "attr_bytes a =
     (let n = 4 + length (snd a)
      in take 2 (u32_bytes (word_of_nat n)) @ take 2 (u32_bytes (word_of_nat (fst a))) @ snd a @ replicate (align4 n - n) 0)"

definition attr_valid :: "nat \<times> byte list \<Rightarrow> bool" where
  "attr_valid a \<longleftrightarrow> fst a < 65536 \<and> 4 + length (snd a) < 65536"

definition attrs_bytes :: "(nat \<times> byte list) list \<Rightarrow> byte list" where
  "attrs_bytes as = concat (map attr_bytes as)"

lemma le_align4: "n \<le> align4 n" and align4_less: "align4 n < n + 4"
  by (simp_all add: align4_def)

lemma align4_idem: "align4 (align4 n) = align4 n" and align4_add: "align4 (align4 m + n) = align4 m + align4 n"
  by (simp_all add: align4_def) presburger+

lemma length_attr_bytes: "length (attr_bytes a) = align4 (4 + length (snd a))"
  using le_align4 [of "4 + length (snd a)"] by (simp add: attr_bytes_def Let_def)

lemma length_attrs_Cons: "length (attrs_bytes (a # as)) = align4 (4 + length (snd a)) + length (attrs_bytes as)"
  by (simp add: attrs_bytes_def length_attr_bytes)

lemma length_attrs_align: "align4 (length (attrs_bytes as)) = length (attrs_bytes as)"
proof (induction as)
  case Nil
  then show ?case by (simp add: attrs_bytes_def align4_def)
next
  case (Cons a as)
  then show ?case unfolding length_attrs_Cons by (simp only: align4_add)
qed

lemma two_bytes: "n < 65536 \<Longrightarrow> le_val (take 2 (u32_bytes (word_of_nat n))) = n"
proof -
  assume n: "n < 65536"
  have small: "unat (word_of_nat k :: byte) = k mod 256" for k by (simp add: unat_of_nat)
  have u: "unat (word_of_nat n :: u32) = n" using n by (simp add: unat_of_nat)
  have "n div 256 < 256" using n by (simp add: less_mult_imp_div_less)
  then show ?thesis unfolding u32_bytes_def Let_def u by (simp add: small)
qed

lemma attr_fields:
  assumes "attr_valid a"
  shows "u16_at 0 (attr_bytes a @ mem) = 4 + length (snd a)" and "u16_at 2 (attr_bytes a @ mem) = fst a"
    and "drop 4 (attr_bytes a @ mem) = snd a @ replicate (align4 (4 + length (snd a)) - (4 + length (snd a))) 0 @ mem"
  using assms two_bytes [of "4 + length (snd a)"] two_bytes [of "fst a"]
  by (simp_all add: u16_at_def attr_bytes_def Let_def attr_valid_def)

lemma minus64_le: "b \<le> a \<Longrightarrow> a < 2 ^ 64 \<Longrightarrow> minus64 a b = a - b"
proof -
  assume "b \<le> a" and a: "a < 2 ^ 64"
  then have "a + 2 ^ 64 - b = (a - b) + 2 ^ 64" by simp
  then have "minus64 a b = (a - b) mod 2 ^ 64" unfolding minus64_def by (simp only: mod_add_self2)
  then show ?thesis using a by simp
qed

lemma rta_loop_step:
  assumes "attr_valid a" and "length (attr_bytes a) + k < 2 ^ 64"
  shows "rta_loop body (attr_bytes a @ mem) (length (attr_bytes a) + k) s =
    (case body (fst a) (snd a @ replicate (align4 (4 + length (snd a)) - (4 + length (snd a))) 0 @ mem) s of
       None \<Rightarrow> None | Some s' \<Rightarrow> rta_loop body mem k s')"
proof -
  let ?n = "4 + length (snd a)"
  have "minus64 (align4 ?n + k) (align4 ?n) = k" using assms(2) by (simp add: minus64_le length_attr_bytes)
  moreover have "drop (align4 ?n) (attr_bytes a @ mem) = mem" by (simp add: length_attr_bytes)
  moreover have "4 \<le> align4 ?n" and "?n \<le> align4 ?n" using le_align4 [of ?n] by simp_all
  ultimately show ?thesis
    using attr_fields [OF assms(1), of mem]
    by (subst rta_loop.simps) (simp add: length_attr_bytes Let_def del: drop_append cong: option.case_cong)
qed

text \<open>A body whose effect on the attributes of a message does not depend on what follows their data.\<close>

lemma rta_loop_attrs:
  assumes "list_all attr_valid as" and "length (attrs_bytes as) + k < 2 ^ 64"
    and "\<And>a rest s. a \<in> set as \<Longrightarrow> body (fst a) (snd a @ rest) s = Some (upd a s)"
  shows "rta_loop body (attrs_bytes as @ mem) (length (attrs_bytes as) + k) s = rta_loop body mem k (fold upd as s)"
  using assms
proof (induction as arbitrary: s)
  case Nil
  then show ?case by (simp add: attrs_bytes_def)
next
  case (Cons a as)
  have "rta_loop body (attr_bytes a @ attrs_bytes as @ mem) (length (attr_bytes a) + (length (attrs_bytes as) + k)) s
      = rta_loop body (attrs_bytes as @ mem) (length (attrs_bytes as) + k) (upd a s)"
    using Cons.prems(1, 2) Cons.prems(3) [of a] by (subst rta_loop_step) (simp_all add: attrs_bytes_def)
  also have "\<dots> = rta_loop body mem k (fold upd as (upd a s))"
    using Cons.prems by (intro Cons.IH) (auto simp: length_attrs_Cons)
  finally show ?case by (simp add: attrs_bytes_def add.assoc)
qed

text \<open>A message: its header with ten bytes that the code does not read (flags, sequence and port), and what follows.\<close>

definition nl_bytes :: "nat \<Rightarrow> byte list \<Rightarrow> byte list \<Rightarrow> byte list" where
  "nl_bytes t fill payload = u32_bytes (word_of_nat (16 + length payload)) @ [word_of_nat t, 0] @ fill @ payload"

definition nl_valid :: "nat \<Rightarrow> byte list \<Rightarrow> byte list \<Rightarrow> bool" where
  "nl_valid t fill payload \<longleftrightarrow> 3 < t \<and> t < 256 \<and> length fill = 10 \<and> align4 (length payload) = length payload \<and> 16 + length payload < 2 ^ 32"

lemma unat_u32: "n < 2 ^ 32 \<Longrightarrow> unat (word_of_nat n :: u32) = n"
  by (simp add: unat_of_nat)

lemma nl_length: "nl_valid t fill payload \<Longrightarrow> length (nl_bytes t fill payload) = 16 + length payload"
  by (simp add: nl_bytes_def nl_valid_def)

lemma nl_fields:
  assumes "nl_valid t fill payload"
  shows "nl_len (nl_bytes t fill payload @ mem) = 16 + length payload" and "nl_type (nl_bytes t fill payload @ mem) = t"
    and "drop 16 (nl_bytes t fill payload @ mem) = payload @ mem"
    and "payload \<noteq> [] \<Longrightarrow> nl_family (nl_bytes t fill payload @ mem) = unat (hd payload)"
proof -
  have t: "unat (word_of_nat t :: byte) = t" using assms by (simp add: nl_valid_def unat_of_nat)
  have "unat (word_of_nat (16 + length payload) :: u32) = 16 + length payload"
    using assms by (intro unat_u32) (simp add: nl_valid_def)
  then show "nl_len (nl_bytes t fill payload @ mem) = 16 + length payload" by (simp add: nl_len_def nl_bytes_def)
  show "nl_type (nl_bytes t fill payload @ mem) = t" using t by (simp add: nl_type_def u16_at_def nl_bytes_def)
  show d: "drop 16 (nl_bytes t fill payload @ mem) = payload @ mem"
    using assms by (simp add: nl_bytes_def nl_valid_def)
  show "nl_family (nl_bytes t fill payload @ mem) = unat (hd payload)" if "payload \<noteq> []"
  proof -
    have "(nl_bytes t fill payload @ mem) ! 16 = drop 16 (nl_bytes t fill payload @ mem) ! 0"
      using nl_length [OF assms] that by (subst nth_drop) simp_all
    then show ?thesis unfolding d using that by (simp add: nl_family_def hd_conv_nth nth_append)
  qed
qed

lemma nl_loop_step:
  assumes "nl_valid t fill payload" and "length (nl_bytes t fill payload) + k < 2 ^ 64"
  shows "nl_loop c (nl_bytes t fill payload @ mem) (length (nl_bytes t fill payload) + k) =
    (case nl_message c (nl_bytes t fill payload @ mem) of None \<Rightarrow> None | Some cs \<Rightarrow> map_option ((@) cs) (nl_loop c mem k))"
proof -
  let ?m = "nl_bytes t fill payload" and ?n = "16 + length payload"
  note f = nl_length [OF assms(1)] nl_fields [OF assms(1), of mem]
  have "align4 ?n = ?n"
  proof -
    have "align4 ?n = align4 (align4 16 + length payload)" by (simp add: align4_def)
    also have "\<dots> = align4 16 + align4 (length payload)" by (rule align4_add)
    finally show ?thesis using assms(1) by (simp add: nl_valid_def align4_def)
  qed
  moreover have "minus64 (?n + k) ?n = k" using assms(2) f(1) by (simp add: minus64_le)
  moreover have "drop ?n (?m @ mem) = mem" using f(1) by simp
  moreover have "t \<noteq> 3 \<and> t \<noteq> 2" using assms(1) by (simp add: nl_valid_def)
  ultimately show ?thesis using f
    by (subst nl_loop.simps) (simp del: drop_append cong: option.case_cong)
qed

section \<open>Neighbors of a buffer\<close>

text \<open>
  A message about a neighbor of either family: the bytes of \<open>struct ndmsg\<close> that are not read, the state, the attributes.
\<close>

record neighbor =
  nb_inet6 :: bool
  nb_fill :: "byte list"
  nb_index :: "byte list"
  nb_state :: nat
  nb_rest :: "byte list"
  nb_attrs :: "(nat \<times> byte list) list"

definition nb_payload :: "neighbor \<Rightarrow> byte list" where
  "nb_payload m = [if nb_inet6 m then 10 else 2] @ nb_index m @ take 2 (u32_bytes (word_of_nat (nb_state m))) @ nb_rest m @ attrs_bytes (nb_attrs m)"

definition nb_bytes :: "neighbor \<Rightarrow> byte list" where
  "nb_bytes m = nl_bytes 28 (nb_fill m) (nb_payload m)"

text \<open>A destination has at least as many bytes as an address of its family.\<close>

definition nb_attr_valid :: "nat \<Rightarrow> nat \<times> byte list \<Rightarrow> bool" where
  "nb_attr_valid n a \<longleftrightarrow> attr_valid a \<and> (fst a = 1 \<longrightarrow> n \<le> length (snd a)) \<and> (fst a = 2 \<longrightarrow> 6 \<le> length (snd a))"

definition nb_valid :: "neighbor \<Rightarrow> bool" where
  "nb_valid m \<longleftrightarrow> length (nb_fill m) = 10 \<and> length (nb_index m) = 7 \<and> length (nb_rest m) = 2 \<and> nb_state m < 65536
     \<and> 28 + length (attrs_bytes (nb_attrs m)) < 2 ^ 32 \<and> list_all (nb_attr_valid (if nb_inet6 m then 16 else 4)) (nb_attrs m)"

text \<open>The last value of an attribute, if there is one.\<close>

fun last_attr :: "nat \<Rightarrow> nat \<Rightarrow> byte list \<Rightarrow> (nat \<times> byte list) list \<Rightarrow> byte list" where
  "last_attr t n d [] = d"
| "last_attr t n d (a # as) = last_attr t n (if fst a = t then take n (snd a) else d) as"

text \<open>What a message has to call: nothing when its family is not among the categories.\<close>

definition nb_calls :: "category \<Rightarrow> neighbor \<Rightarrow> nl_callback list" where
  "nb_calls c m =
     (let l = \<lparr>ll_bytes = last_attr 2 6 (ll_bytes ll_default) (nb_attrs m)\<rparr>
      in if nb_inet6 m
         then (if cat_neighbor_v6 c then [On_neighbor6 \<lparr>i6_bytes = last_attr 1 16 (i6_bytes i6_default) (nb_attrs m)\<rparr> l (nb_state m)] else [])
         else (if cat_neighbor_v4 c then [On_neighbor4 \<lparr>i4_bytes = last_attr 1 4 (i4_bytes i4_default) (nb_attrs m)\<rparr> l (nb_state m)] else []))"

text \<open>The loop over the attributes, for an address that \<open>mk\<close> makes of \<open>n\<close> bytes.\<close>

definition nb_update :: "(byte list \<Rightarrow> 'a) \<Rightarrow> nat \<Rightarrow> nat \<times> byte list \<Rightarrow> 'a \<times> linklayer_address \<Rightarrow> 'a \<times> linklayer_address" where
  "nb_update mk n a s =
     (if fst a = 1 then (mk (take n (snd a)), snd s) else if fst a = 2 then (fst s, \<lparr>ll_bytes = take 6 (snd a)\<rparr>) else s)"

lemma fold_nb_update:
  "fold (nb_update mk n) as (mk i, \<lparr>ll_bytes = l\<rparr>) = (mk (last_attr 1 n i as), \<lparr>ll_bytes = last_attr 2 6 l as\<rparr>)"
  by (induction as arbitrary: i l) (simp_all add: nb_update_def)

lemma nb_body: "nb_attr_valid n a \<Longrightarrow> neighbor_body (\<lambda>mem. map_option mk (mem_part n mem)) (fst a) (snd a @ rest) s = Some (nb_update mk n a s)"
  by (auto simp: nb_attr_valid_def neighbor_body_def nb_update_def ll_from_voidptr_def mem_part_def)

lemma nb_loop:
  assumes "list_all (nb_attr_valid n) as" and "length (attrs_bytes as) < 2 ^ 64"
  shows "rta_loop (neighbor_body (\<lambda>mem. map_option mk (mem_part n mem))) (attrs_bytes as @ mem) (length (attrs_bytes as)) (mk i, \<lparr>ll_bytes = l\<rparr>)
    = Some (mk (last_attr 1 n i as), \<lparr>ll_bytes = last_attr 2 6 l as\<rparr>)"
proof -
  let ?body = "neighbor_body (\<lambda>mem. map_option mk (mem_part n mem))"
  have "rta_loop ?body (attrs_bytes as @ mem) (length (attrs_bytes as) + 0) (mk i, \<lparr>ll_bytes = l\<rparr>)
      = rta_loop ?body mem 0 (fold (nb_update mk n) as (mk i, \<lparr>ll_bytes = l\<rparr>))"
    using assms by (intro rta_loop_attrs) (auto simp: list_all_iff nb_attr_valid_def intro!: nb_body [unfolded nb_attr_valid_def])
  then show ?thesis by (simp add: fold_nb_update rta_loop.simps)
qed

lemmas nb_loop4 = nb_loop [where mk = "\<lambda>bs. \<lparr>i4_bytes = bs\<rparr>" and n = 4 and i = "i4_bytes i4_default" and l = "ll_bytes ll_default", folded i4_from_voidptr_def]
lemmas nb_loop6 = nb_loop [where mk = "\<lambda>bs. \<lparr>i6_bytes = bs\<rparr>" and n = 16 and i = "i6_bytes i6_default" and l = "ll_bytes ll_default", folded i6_from_voidptr_def]

lemma default_addresses: "\<lparr>i4_bytes = i4_bytes i4_default\<rparr> = i4_default" "\<lparr>i6_bytes = i6_bytes i6_default\<rparr> = i6_default"
    "\<lparr>ll_bytes = ll_bytes ll_default\<rparr> = ll_default"
  by simp_all

lemma length_nb_payload: "nb_valid m \<Longrightarrow> length (nb_payload m) = 12 + length (attrs_bytes (nb_attrs m))"
  by (simp add: nb_payload_def nb_valid_def)

lemma nb_nl_valid: "nb_valid m \<Longrightarrow> nl_valid 28 (nb_fill m) (nb_payload m)"
  using length_nb_payload [of m] align4_add [of 12 "length (attrs_bytes (nb_attrs m))"] length_attrs_align [of "nb_attrs m"]
  by (simp add: nl_valid_def nb_valid_def align4_def)

text \<open>The part of a message behind its header.\<close>

lemma nb_fields:
  assumes "nb_valid m"
  shows "drop 12 (nb_payload m @ mem) = attrs_bytes (nb_attrs m) @ mem" and "u16_at 8 (nb_payload m @ mem) = nb_state m"
  using assms two_bytes [of "nb_state m"] by (simp_all add: u16_at_def nb_payload_def nb_valid_def)

lemma neighbor_payload:
  assumes "nb_valid m"
  shows "(if nb_inet6 m then dispatch_neighbor_v6 else dispatch_neighbor_v4) c (nb_payload m @ mem) (length (attrs_bytes (nb_attrs m)))
    = Some (nb_calls c m)"
proof (cases "nb_inet6 m")
  case True
  then have v: "list_all (nb_attr_valid 16) (nb_attrs m)" "length (attrs_bytes (nb_attrs m)) < 2 ^ 64" using assms by (simp_all add: nb_valid_def)
  show ?thesis using True nb_loop6 [OF v, of mem, unfolded default_addresses] length_nb_payload [OF assms] nb_fields [OF assms, of mem]
    by (simp add: dispatch_neighbor_v6_def nb_calls_def Let_def)
next
  case False
  then have v: "list_all (nb_attr_valid 4) (nb_attrs m)" "length (attrs_bytes (nb_attrs m)) < 2 ^ 64" using assms by (simp_all add: nb_valid_def)
  show ?thesis using False nb_loop4 [OF v, of mem, unfolded default_addresses] length_nb_payload [OF assms] nb_fields [OF assms, of mem]
    by (simp add: dispatch_neighbor_v4_def nb_calls_def Let_def)
qed

lemma neighbor_message:
  assumes "nb_valid m"
  shows "nl_message c (nb_bytes m @ mem) = Some (nb_calls c m)"
proof -
  note v = nb_nl_valid [OF assms]
  note f = nl_length [OF v, folded nb_bytes_def] nl_fields [OF v, of mem, folded nb_bytes_def]
  have ne: "nb_payload m \<noteq> []" and hd: "hd (nb_payload m) = (if nb_inet6 m then 10 else 2)" by (simp_all add: nb_payload_def)
  have pay: "rtm_payload (16 + length (nb_payload m)) = length (attrs_bytes (nb_attrs m))"
    using assms length_nb_payload [OF assms] by (simp add: rtm_payload_def minus64_le nb_valid_def)
  have none: "\<not> (cat_neighbor_v4 c \<or> cat_neighbor_v6 c) \<Longrightarrow> nb_calls c m = []" by (simp add: nb_calls_def Let_def)
  have len: "\<not> length (nb_bytes m @ mem) < 17" using f(1) length_nb_payload [OF assms] by simp
  have "dispatch_neighbor c (nb_bytes m @ mem) = Some (nb_calls c m)"
    using f(2-4) f(5) [OF ne] hd len pay none neighbor_payload [OF assms, of c mem]
    by (cases "nb_inet6 m") (simp_all add: dispatch_neighbor_def del: drop_append length_append)
  then show ?thesis using f(3) by (simp add: nl_message_def dispatch_link_def dispatch_ifaddr_def)
qed

lemma neighbor_loop:
  assumes "list_all nb_valid ms" and "length (concat (map nb_bytes ms)) < 2 ^ 64"
  shows "nl_loop c (concat (map nb_bytes ms) @ mem) (length (concat (map nb_bytes ms))) = Some (concat (map (nb_calls c) ms))"
  using assms
proof (induction ms)
  case Nil
  then show ?case by (simp add: nl_loop.simps)
next
  case (Cons m ms)
  let ?rest = "concat (map nb_bytes ms)"
  have v: "nl_valid 28 (nb_fill m) (nb_payload m)" using Cons.prems(1) by (simp add: nb_nl_valid)
  have "nl_loop c (nb_bytes m @ ?rest @ mem) (length (nb_bytes m) + length ?rest)
      = (case nl_message c (nb_bytes m @ ?rest @ mem) of None \<Rightarrow> None | Some cs \<Rightarrow> map_option ((@) cs) (nl_loop c (?rest @ mem) (length ?rest)))"
    using Cons.prems(2) unfolding nb_bytes_def by (intro nl_loop_step [OF v]) simp
  then show ?case using Cons neighbor_message [of m c "?rest @ mem"] by simp
qed

text \<open>
  (C32) A received buffer of messages about neighbors, of IPv4 and of IPv6 in any mixture, gives one call of \<open>on_neighbor\<close> for every
  message whose family is among the categories, in order, with the last destination and the last link-layer address among its attributes,
  or zeros, and its state; then the next receive is started.
\<close>

theorem netlink_neighbors:
  assumes "list_all nb_valid ms" and "length (concat (map nb_bytes ms)) < 2 ^ 64"
  shows "nl_dispatch c None (concat (map nb_bytes ms) @ rest) (length (concat (map nb_bytes ms))) = Some (concat (map (nb_calls c) ms), True)"
  using neighbor_loop [OF assms] by (simp add: nl_dispatch_def)

definition neighbor_example :: "byte list \<Rightarrow> byte \<Rightarrow> neighbor" where
  "neighbor_example addr b = \<lparr>nb_inet6 = (length addr = 16), nb_fill = replicate 10 0, nb_index = replicate 7 0, nb_state = 2, nb_rest = [0, 1],
     nb_attrs = [(1, addr), (2, [2, 0, 0, 0, 0, b]), (3, [0, 0, 0, 0])]\<rparr>"

definition v6_example :: "byte list" where
  "v6_example = [0xfe, 0x80, 0, 0, 0, 0, 0, 0, 0, 0, 0, 0, 0, 0, 0, 9]"

definition all_categories :: category where
  "all_categories = \<lparr>cat_link = True, cat_stats = True, cat_ifaddr_v4 = True, cat_ifaddr_v6 = True, cat_neighbor_v4 = True, cat_neighbor_v6 = True\<rparr>"

theorem netlink_neighbors_witness:
  "nl_dispatch all_categories None (concat (map nb_bytes [neighbor_example [192, 168, 0, 7] 7, neighbor_example v6_example 9]) @ replicate 100 0) 124
     = Some ([On_neighbor4 \<lparr>i4_bytes = [192, 168, 0, 7]\<rparr> \<lparr>ll_bytes = [2, 0, 0, 0, 0, 7]\<rparr> 2,
              On_neighbor6 \<lparr>i6_bytes = v6_example\<rparr> \<lparr>ll_bytes = [2, 0, 0, 0, 0, 9]\<rparr> 2], True)"
proof -
  have v: "nb_valid (neighbor_example [192, 168, 0, 7] 7)" "nb_valid (neighbor_example v6_example 9)"
    by (simp_all add: nb_valid_def nb_attr_valid_def neighbor_example_def v6_example_def attr_valid_def attrs_bytes_def length_attr_bytes align4_def)
  have "length (nb_bytes (neighbor_example [192, 168, 0, 7] 7)) = 56" "length (nb_bytes (neighbor_example v6_example 9)) = 68"
    by (simp_all add: nb_bytes_def nl_bytes_def nb_payload_def neighbor_example_def v6_example_def attrs_bytes_def length_attr_bytes align4_def)
  then show ?thesis
    using netlink_neighbors [of "[neighbor_example [192, 168, 0, 7] 7, neighbor_example v6_example 9]" all_categories "replicate 100 0"] v
    by (simp add: all_categories_def nb_calls_def neighbor_example_def v6_example_def)
qed

section \<open>The last attribute of an address\<close>

text \<open>A message about an address of IPv4: the length of its prefix, its flags and what the code does not read.\<close>

definition ia_payload :: "byte \<Rightarrow> byte \<Rightarrow> byte list \<Rightarrow> (nat \<times> byte list) list \<Rightarrow> byte list" where
  "ia_payload prefixlen flags unread as = [2, prefixlen, flags] @ unread @ attrs_bytes as"

text \<open>A label is text with a null behind it.\<close>

definition ia_attr_valid :: "nat \<times> byte list \<Rightarrow> bool" where
  "ia_attr_valid a \<longleftrightarrow> attr_valid a \<and> (fst a = 1 \<longrightarrow> 4 \<le> length (snd a)) \<and> (fst a = 3 \<longrightarrow> 0 \<in> set (snd a))"

fun last_label :: "byte list \<Rightarrow> (nat \<times> byte list) list \<Rightarrow> byte list" where
  "last_label d [] = d"
| "last_label d (a # as) = last_label (if fst a = 3 then takeWhile (\<lambda>b. b \<noteq> 0) (snd a) else d) as"

definition ia_update :: "nat \<times> byte list \<Rightarrow> internet4_address \<times> byte list \<Rightarrow> internet4_address \<times> byte list" where
  "ia_update a s =
     (if fst a = 1 then (\<lparr>i4_bytes = take 4 (snd a)\<rparr>, snd s) else if fst a = 3 then (fst s, takeWhile (\<lambda>b. b \<noteq> 0) (snd a)) else s)"

lemma fold_ia_update: "fold ia_update as (\<lparr>i4_bytes = i\<rparr>, l) = (\<lparr>i4_bytes = last_attr 1 4 i as\<rparr>, last_label l as)"
  by (induction as arbitrary: i l) (simp_all add: ia_update_def)

lemma c_string_inside: "0 \<in> set bs \<Longrightarrow> c_string (bs @ rest) = Some (takeWhile (\<lambda>b. b \<noteq> 0) bs)"
  by (simp add: c_string_def takeWhile_append1)

lemma ia_body: "ia_attr_valid a \<Longrightarrow> ifaddr_body i4_from_voidptr (fst a) (snd a @ rest) s = Some (ia_update a s)"
  by (auto simp: ia_attr_valid_def ifaddr_body_def ia_update_def i4_from_voidptr_def mem_part_def c_string_inside)

lemma rta_loop_short:
  assumes "attr_valid a" and "k < 4 + length (snd a)"
  shows "rta_loop body (attr_bytes a @ mem) k s = Some s"
  using attr_fields(1) [OF assms(1), of mem] assms(2) length_attr_bytes [of a] le_align4 [of "4 + length (snd a)"]
  by (subst rta_loop.simps) (simp add: Let_def)

text \<open>
  The payload of a message about an address is computed with a structure that is four bytes too long, so its last attribute is
  never read: \<open>on_ifaddr\<close> is called with the address and the label of the attributes before it, whatever the last attribute
  is.
\<close>

theorem netlink_ifaddr_last:
  assumes "list_all ia_attr_valid as" and "attr_valid a" and "length unread = 5" and "length fill = 10"
    and "24 + length (attrs_bytes (as @ [a])) < 2 ^ 32" and "cat_ifaddr_v4 c"
  shows "nl_message c (nl_bytes 20 fill (ia_payload prefixlen flags unread (as @ [a])) @ mem) =
    Some [On_ifaddr4 \<lparr>i4_bytes = last_attr 1 4 [0, 0, 0, 0] as\<rparr> (last_label [] as) (unat prefixlen) (unat flags)]"
proof -
  let ?p = "ia_payload prefixlen flags unread (as @ [a])" and ?n = "4 + length (snd a)" and ?L = "length (attrs_bytes as)"
  have L: "length (attrs_bytes (as @ [a])) = ?L + align4 ?n" by (simp add: attrs_bytes_def length_attr_bytes)
  then have len: "length ?p = 8 + (?L + align4 ?n)" using assms(3) by (simp add: ia_payload_def)
  have v: "nl_valid 20 fill ?p"
    using assms(4, 5) len L align4_add [of 8 "?L + align4 ?n"] length_attrs_align [of "as @ [a]"] by (simp add: nl_valid_def align4_def)
  note f = nl_length [OF v] nl_fields [OF v, of mem]
  have d: "drop 8 (?p @ mem) = attrs_bytes as @ attr_bytes a @ mem" using assms(3) by (simp add: ia_payload_def attrs_bytes_def)
  have "28 \<le> 16 + (8 + (?L + align4 ?n))" using le_align4 [of ?n] by simp
  then have "rtm_payload (16 + (8 + (?L + align4 ?n))) = ?L + align4 ?n - 4"
    using assms(5) L unfolding rtm_payload_def by (subst minus64_le) simp_all
  then have pay: "rtm_payload (16 + (8 + (?L + align4 ?n))) = ?L + (align4 ?n - 4)" using le_align4 [of ?n] by simp
  have "rta_loop (ifaddr_body i4_from_voidptr) (attrs_bytes as @ attr_bytes a @ mem) (?L + (align4 ?n - 4)) (\<lparr>i4_bytes = [0, 0, 0, 0]\<rparr>, [])
      = rta_loop (ifaddr_body i4_from_voidptr) (attr_bytes a @ mem) (align4 ?n - 4) (fold ia_update as (\<lparr>i4_bytes = [0, 0, 0, 0]\<rparr>, []))"
    using assms(1, 5) L by (intro rta_loop_attrs) (auto simp: list_all_iff ia_attr_valid_def intro!: ia_body)
  also have "\<dots> = Some (fold ia_update as (\<lparr>i4_bytes = [0, 0, 0, 0]\<rparr>, []))"
    using align4_less [of ?n] by (intro rta_loop_short [OF assms(2)]) simp
  finally have "dispatch_ifaddr_v4 c (?p @ mem) (?L + (align4 ?n - 4)) =
      Some [On_ifaddr4 \<lparr>i4_bytes = last_attr 1 4 [0, 0, 0, 0] as\<rparr> (last_label [] as) (unat prefixlen) (unat flags)]"
    using assms(6) d by (simp add: dispatch_ifaddr_v4_def fold_ia_update i4_default_def) (simp add: ia_payload_def)
  then have "dispatch_ifaddr c (nl_bytes 20 fill ?p @ mem) =
      Some [On_ifaddr4 \<lparr>i4_bytes = last_attr 1 4 [0, 0, 0, 0] as\<rparr> (last_label [] as) (unat prefixlen) (unat flags)]"
    using assms(6) f len pay by (simp add: dispatch_ifaddr_def del: drop_append) (simp add: ia_payload_def)
  then show ?thesis using f(3) by (simp add: nl_message_def dispatch_link_def dispatch_neighbor_def)
qed

theorem netlink_ifaddr_last_witness:
  "nl_message all_categories (nl_bytes 20 (replicate 10 0) (ia_payload 24 128 (replicate 5 0) [(1, [192, 168, 0, 7]), (3, [108, 111, 0])]) @ [])
     = Some [On_ifaddr4 \<lparr>i4_bytes = [192, 168, 0, 7]\<rparr> [] 24 128]"
  using netlink_ifaddr_last [of "[(1, [192, 168, 0, 7])]" "(3, [108, 111, 0])" "replicate 5 0" "replicate 10 0" all_categories 24 128 "[]"]
  by (simp add: ia_attr_valid_def attr_valid_def all_categories_def attrs_bytes_def length_attr_bytes align4_def)

section \<open>Behind the attributes of a link\<close>

text \<open>A message about a link: its type and flags, and what the code does not read.\<close>

definition if_payload :: "byte \<Rightarrow> nat \<Rightarrow> byte list \<Rightarrow> u32 \<Rightarrow> byte list \<Rightarrow> (nat \<times> byte list) list \<Rightarrow> byte list" where
  "if_payload pad t index flags change as = [0, pad] @ take 2 (u32_bytes (word_of_nat t)) @ index @ u32_bytes flags @ change @ attrs_bytes as"

definition if_attr_valid :: "nat \<times> byte list \<Rightarrow> bool" where
  "if_attr_valid a \<longleftrightarrow> attr_valid a \<and> (fst a = 1 \<longrightarrow> 6 \<le> length (snd a)) \<and> (fst a = 3 \<longrightarrow> 0 \<in> set (snd a)) \<and> fst a \<noteq> 7"

definition if_update :: "nat \<times> byte list \<Rightarrow> link_state \<Rightarrow> link_state" where
  "if_update a s =
     (if fst a = 3 then s\<lparr>ls_name := takeWhile (\<lambda>b. b \<noteq> 0) (snd a)\<rparr> else if fst a = 1 then s\<lparr>ls_addr := \<lparr>ll_bytes = take 6 (snd a)\<rparr>\<rparr> else s)"

lemma fold_if_update:
  "fold if_update as \<lparr>ls_name = n, ls_addr = \<lparr>ll_bytes = l\<rparr>, ls_stats = x\<rparr> = \<lparr>ls_name = last_label n as, ls_addr = \<lparr>ll_bytes = last_attr 1 6 l as\<rparr>, ls_stats = x\<rparr>"
  by (induction as arbitrary: n l) (simp_all add: if_update_def)

lemma if_body: "if_attr_valid a \<Longrightarrow> link_body (fst a) (snd a @ rest) s = Some (if_update a s)"
  by (auto simp: if_attr_valid_def link_body_def if_update_def ll_from_voidptr_def mem_part_def c_string_inside)

lemma if_message:
  assumes "list_all if_attr_valid as" and "length index = 4" and "length change = 4" and "length fill = 10" and "t < 65536"
    and "32 + length (attrs_bytes as) < 2 ^ 32" and "cat_link c"
  shows "length mem < 2 \<Longrightarrow> nl_message c (nl_bytes 16 fill (if_payload pad t index flags change as) @ mem) = None"
    and "2 \<le> length mem \<Longrightarrow> u16_at 0 mem \<noteq> 4 \<Longrightarrow> nl_message c (nl_bytes 16 fill (if_payload pad t index flags change as) @ mem) =
      Some [On_link (last_label [] as) \<lparr>ll_bytes = last_attr 1 6 [0, 0, 0, 0, 0, 0] as\<rparr> t flags]"
proof -
  let ?p = "if_payload pad t index flags change as" and ?L = "length (attrs_bytes as)"
  let ?s = "\<lparr>ls_name = [], ls_addr = ll_default, ls_stats = None\<rparr>"
  have len: "length ?p = 16 + ?L" using assms(2, 3) by (simp add: if_payload_def)
  have v: "nl_valid 16 fill ?p"
    using assms(4, 6) len align4_add [of 16 ?L] length_attrs_align [of as] by (simp add: nl_valid_def align4_def)
  note f = nl_length [OF v] nl_fields [OF v, of mem]
  have d: "drop 16 (?p @ mem) = attrs_bytes as @ mem" using assms(2, 3) by (simp add: if_payload_def)
  have ty: "u16_at 2 (?p @ mem) = t" using two_bytes [OF assms(5)] by (simp add: u16_at_def if_payload_def)
  have fl: "host_u32 (drop 8 (?p @ mem)) = flags" using assms(2) by (simp add: if_payload_def)
  have pay: "rtm_payload (16 + (16 + ?L)) = ?L + 4" using assms(6) by (simp add: rtm_payload_def minus64_le)
  have loop: "rta_loop link_body (attrs_bytes as @ mem) (?L + 4) ?s = rta_loop link_body mem 4 (fold if_update as ?s)"
    using assms(1, 6) by (intro rta_loop_attrs) (auto simp: list_all_iff if_attr_valid_def intro!: if_body)
  have "dispatch_link c (nl_bytes 16 fill ?p @ mem) = dispatch_link_unspec c (?p @ mem) (?L + 4)"
    using assms(7) f len pay by (simp add: dispatch_link_def del: drop_append) (simp add: if_payload_def)
  then have m: "nl_message c (nl_bytes 16 fill ?p @ mem) = dispatch_link_unspec c (?p @ mem) (?L + 4)"
    using f(3) by (simp add: nl_message_def dispatch_ifaddr_def dispatch_neighbor_def split: option.splits)
  have "dispatch_link_unspec c (?p @ mem) (?L + 4) = None" if "length mem < 2"
    using that len d loop by (simp add: dispatch_link_unspec_def rta_loop.simps [of link_body mem 4] del: drop_append)
  then show "length mem < 2 \<Longrightarrow> nl_message c (nl_bytes 16 fill ?p @ mem) = None" unfolding m .
  have "dispatch_link_unspec c (?p @ mem) (?L + 4) =
      Some [On_link (last_label [] as) \<lparr>ll_bytes = last_attr 1 6 [0, 0, 0, 0, 0, 0] as\<rparr> t flags]" if "2 \<le> length mem" "u16_at 0 mem \<noteq> 4"
  proof -
    have "rta_loop link_body mem 4 (fold if_update as ?s) = Some (fold if_update as ?s)"
      using that by (auto simp: rta_loop.simps [of link_body mem 4] Let_def)
    then show ?thesis
      using assms(7) len d loop ty fl
      by (simp add: dispatch_link_unspec_def dispatch_link_stats_def ll_default_def fold_if_update del: drop_append)
  qed
  then show "2 \<le> length mem \<Longrightarrow> u16_at 0 mem \<noteq> 4 \<Longrightarrow> nl_message c (nl_bytes 16 fill ?p @ mem) =
      Some [On_link (last_label [] as) \<lparr>ll_bytes = last_attr 1 6 [0, 0, 0, 0, 0, 0] as\<rparr> t flags]" unfolding m .
qed

text \<open>
  The payload of a message about a link is computed with a structure that is four bytes too short, so the loop over its attributes
  reads on behind the message: undefined when the message is the last thing in a full buffer, harmless when the two bytes that
  follow are not the number 4.
\<close>

theorem netlink_link_overread:
  assumes "list_all if_attr_valid as" and "length index = 4" and "length change = 4" and "length fill = 10" and "t < 65536"
    and "32 + length (attrs_bytes as) < 2 ^ 32" and "cat_link c" and "2 \<le> length mem" and "le_val (take 2 mem) \<noteq> 4"
  shows "nl_message c (nl_bytes 16 fill (if_payload pad t index flags change as)) = None
    \<and> nl_message c (nl_bytes 16 fill (if_payload pad t index flags change as) @ mem) =
        Some [On_link (last_label [] as) \<lparr>ll_bytes = last_attr 1 6 [0, 0, 0, 0, 0, 0] as\<rparr> t flags]"
proof
  show "nl_message c (nl_bytes 16 fill (if_payload pad t index flags change as)) = None"
    using if_message(1) [OF assms(1-7), of "[]" pad flags] by simp
  have "u16_at 0 mem \<noteq> 4" using assms(9) by (simp add: u16_at_def)
  then show "nl_message c (nl_bytes 16 fill (if_payload pad t index flags change as) @ mem) =
        Some [On_link (last_label [] as) \<lparr>ll_bytes = last_attr 1 6 [0, 0, 0, 0, 0, 0] as\<rparr> t flags]"
    by (rule if_message(2) [OF assms(1-8)])
qed

theorem netlink_link_overread_witness:
  "nl_message all_categories (nl_bytes 16 (replicate 10 0) (if_payload 0 1 [2, 0, 0, 0] 65 [0, 0, 0, 0] [(3, [108, 111, 0]), (1, [2, 0, 0, 0, 0, 1])])) = None
   \<and> nl_message all_categories (nl_bytes 16 (replicate 10 0) (if_payload 0 1 [2, 0, 0, 0] 65 [0, 0, 0, 0] [(3, [108, 111, 0]), (1, [2, 0, 0, 0, 0, 1])]) @ [0, 0])
       = Some [On_link [108, 111] \<lparr>ll_bytes = [2, 0, 0, 0, 0, 1]\<rparr> 1 65]"
  using netlink_link_overread [of "[(3, [108, 111, 0]), (1, [2, 0, 0, 0, 0, 1])]" "[2, 0, 0, 0]" "[0, 0, 0, 0]" "replicate 10 0" 1 all_categories "[0, 0]" 0 65]
  by (simp add: if_attr_valid_def attr_valid_def all_categories_def attrs_bytes_def length_attr_bytes align4_def)

text \<open>
  When the socket is opened and \<open>bind\<close> fails, \<open>start\<close> reports the error and leaves the socket open; the next \<open>start\<close> then
  succeeds without a bind, and the listener receives on a socket that is in no group.
\<close>

theorem netlink_start_unbound:
  "nl_start c None (Some e) \<lparr>ns_open = False, ns_bound = 0\<rparr> = (Some e, \<lparr>ns_open = True, ns_bound = 0\<rparr>, False)
   \<and> nl_start c opened bound \<lparr>ns_open = True, ns_bound = 0\<rparr> = (None, \<lparr>ns_open = True, ns_bound = 0\<rparr>, True)"
  by (simp add: nl_start_def nl_open_def nl_bind_def)

end
