(* ===== verification/Irc_Client.thy ===== *)
theory Irc_Client
  imports Ctype
begin

text \<open>
  The client of IRC (\<^verbatim>\<open>asio/irc/client.hpp\<close>): the lines that it sends, the stream that it receives, which is cut at the line ends, and
  what a line makes it do. The resolver and the socket are left out: a connection gives the bytes that come.
\<close>

section \<open>Sending\<close>

record irc =
  irc_host :: "byte list"
  irc_port :: "byte list"
  irc_nick :: "byte list"
  irc_pass :: "byte list"
  irc_user :: "byte list"
  irc_real :: "byte list"
  irc_recv :: "byte list"

text \<open>\<open>connect\<close> with its optional arguments.\<close>

definition irc_connect :: "byte list \<Rightarrow> byte list \<Rightarrow> byte list option \<Rightarrow> byte list option \<Rightarrow> byte list option \<Rightarrow> byte list option \<Rightarrow> irc" where
  "irc_connect host nick port pass user real =
     \<lparr>irc_host = host, irc_port = (case port of None \<Rightarrow> [54, 54, 54, 55] | Some p \<Rightarrow> p), irc_nick = nick,
      irc_pass = (case pass of None \<Rightarrow> [] | Some p \<Rightarrow> p), irc_user = (case user of None \<Rightarrow> nick | Some u \<Rightarrow> u),
      irc_real = (case real of None \<Rightarrow> nick | Some r \<Rightarrow> r), irc_recv = []\<rparr>"

definition send_msg2 :: "byte list \<Rightarrow> byte list \<Rightarrow> byte list" where
  "send_msg2 arg1 arg2 = arg1 @ [32] @ arg2 @ [13, 10]"

definition send_msg3 :: "byte list \<Rightarrow> byte list \<Rightarrow> byte list \<Rightarrow> byte list" where
  "send_msg3 arg1 arg2 arg3 = arg1 @ [32] @ arg2 @ [32, 58] @ arg3 @ [13, 10]"

text \<open>The words \<open>JOIN\<close>, \<open>PRIVMSG\<close>, \<open>PING\<close>, \<open>PONG\<close>, \<open>PASS\<close>, \<open>USER\<close>, \<open>NICK\<close>, \<open>001\<close> and \<open>353\<close>.\<close>

abbreviation word_join :: "byte list" where "word_join \<equiv> [74, 79, 73, 78]"
abbreviation word_privmsg :: "byte list" where "word_privmsg \<equiv> [80, 82, 73, 86, 77, 83, 71]"
abbreviation word_ping :: "byte list" where "word_ping \<equiv> [80, 73, 78, 71]"
abbreviation word_pong :: "byte list" where "word_pong \<equiv> [80, 79, 78, 71]"
abbreviation word_pass :: "byte list" where "word_pass \<equiv> [80, 65, 83, 83]"
abbreviation word_user :: "byte list" where "word_user \<equiv> [85, 83, 69, 82]"
abbreviation word_nick :: "byte list" where "word_nick \<equiv> [78, 73, 67, 75]"
abbreviation word_001 :: "byte list" where "word_001 \<equiv> [48, 48, 49]"
abbreviation word_353 :: "byte list" where "word_353 \<equiv> [51, 53, 51]"

definition irc_join :: "byte list \<Rightarrow> byte list" where
  "irc_join channel = send_msg2 word_join channel"

definition irc_say :: "byte list \<Rightarrow> byte list \<Rightarrow> byte list" where
  "irc_say channel msg = send_msg3 word_privmsg channel msg"

text \<open>What \<open>on_connect\<close> sends.\<close>

definition irc_on_connect :: "irc \<Rightarrow> byte list" where
  "irc_on_connect c =
     (if irc_pass c = [] then [] else word_pass @ [32] @ irc_pass c @ [13, 10])
     @ word_user @ [32] @ irc_user c @ [32, 42, 32, 48, 32] @ irc_real c @ [13, 10] @ word_nick @ [32] @ irc_nick c @ [13, 10]"

section \<open>Lines\<close>

datatype irc_action = Sent "byte list" | On_welcome | On_join "byte list" | On_privmsg "byte list" "byte list"

text \<open>The line is read as a string that ends with its first null, for the comparison with \<open>PING\<close> and for \<open>PONG\<close>.\<close>

definition until_null :: "byte list \<Rightarrow> byte list" where
  "until_null s = takeWhile (\<lambda>c. c \<noteq> 0) s"

definition istarts_with :: "byte list \<Rightarrow> byte list \<Rightarrow> bool" where
  "istarts_with s t \<longleftrightarrow> map ascii_tolower (take (length t) (until_null s)) = map ascii_tolower t"

text \<open>A prefix, and what is behind it.\<close>

definition strip_prefix :: "byte list \<Rightarrow> byte list \<Rightarrow> byte list option" where
  "strip_prefix p s = (if take (length p) s = p then Some (drop (length p) s) else None)"

text \<open>\<open>*(char_ - space)\<close>: the text and what is behind it.\<close>

definition parse_word :: "byte list \<Rightarrow> byte list \<times> byte list" where
  "parse_word s = (takeWhile (\<lambda>c. \<not> isspace c) s, dropWhile (\<lambda>c. \<not> isspace c) s)"

definition parse_names :: "byte list \<Rightarrow> byte list option" where
  "parse_names s =
     (case snd (parse_word s) of
        a # b # c # r \<Rightarrow> if a = 32 \<and> (b = 61 \<or> b = 42 \<or> b = 64) \<and> c = 32 then Some (fst (parse_word r)) else None
      | _ \<Rightarrow> None)"

definition parse_privmsg :: "byte list \<Rightarrow> (byte list \<times> byte list) option" where
  "parse_privmsg s = (let (targ, r) = parse_word s in map_option (\<lambda>msg. (targ, msg)) (strip_prefix [32, 58] r))"

text \<open>The symbols with the space behind them, and the action of each.\<close>

definition irc_code :: "byte list \<Rightarrow> irc_action list" where
  "irc_code s =
     (case strip_prefix (word_001 @ [32]) s of Some _ \<Rightarrow> [On_welcome] | None \<Rightarrow>
      (case strip_prefix (word_353 @ [32]) s of Some r \<Rightarrow> (case parse_names r of None \<Rightarrow> [] | Some targ \<Rightarrow> [On_join targ]) | None \<Rightarrow>
       (case strip_prefix (word_join @ [32]) s of
          Some r \<Rightarrow> (case strip_prefix [58] r of None \<Rightarrow> [] | Some r' \<Rightarrow> [On_join (fst (parse_word r'))])
        | None \<Rightarrow>
          (case strip_prefix (word_privmsg @ [32]) s of
             None \<Rightarrow> []
           | Some r \<Rightarrow> (case parse_privmsg r of None \<Rightarrow> [] | Some (targ, msg) \<Rightarrow> [On_privmsg targ msg])))))"

text \<open>A line without its line end.\<close>

definition irc_line :: "byte list \<Rightarrow> irc_action list" where
  "irc_line line =
     (let it = drop 1 (dropWhile (\<lambda>c. c \<noteq> 32) line)
      in if istarts_with line word_ping then [Sent (send_msg2 word_pong (until_null it))] else irc_code it)"

section \<open>The stream\<close>

text \<open>\<open>async_read_until\<close> a line end: the line and what is behind it.\<close>

fun irc_split :: "byte list \<Rightarrow> (byte list \<times> byte list) option" where
  "irc_split (a # b # s) = (if a = 13 \<and> b = 10 then Some ([], s) else map_option (\<lambda>(l, r). (a # l, r)) (irc_split (b # s)))"
| "irc_split s = None"

lemma irc_split_length: "irc_split s = Some (l, r) \<Longrightarrow> length r < length s"
  by (induction s arbitrary: l rule: irc_split.induct) (fastforce split: if_splits)+

text \<open>\<open>dispatch\<close> and the next read, as long as the buffer has a line.\<close>

definition irc_dispatch :: "nat option \<Rightarrow> byte list \<Rightarrow> (irc_action list \<times> bool)" where
  "irc_dispatch error line = (case error of Some e \<Rightarrow> ([], False) | None \<Rightarrow> (irc_line line, True))"

function irc_loop :: "byte list \<Rightarrow> irc_action list \<times> byte list" where
  "irc_loop buf =
     (case irc_split buf of
        None \<Rightarrow> ([], buf)
      | Some (l, r) \<Rightarrow> (let (acts, buf') = irc_loop r in (fst (irc_dispatch None l) @ acts, buf')))"
  by auto
termination
  by (relation "measure length") (auto dest: irc_split_length)

declare irc_loop.simps [simp del]

definition irc_feed :: "byte list \<Rightarrow> irc \<Rightarrow> irc_action list \<times> irc" where
  "irc_feed bs c = (let (acts, buf) = irc_loop (irc_recv c @ bs) in (acts, c\<lparr>irc_recv := buf\<rparr>))"

lemma irc_split_append: "irc_split s = Some (l, r) \<Longrightarrow> irc_split (s @ t) = Some (l, r @ t)"
  by (induction s arbitrary: l rule: irc_split.induct) (auto split: if_splits)

lemma irc_loop_append:
  "irc_loop (s @ t) = (let (acts, buf) = irc_loop s; (acts', buf') = irc_loop (buf @ t) in (acts @ acts', buf'))"
proof (induction s rule: irc_loop.induct)
  case (1 s)
  show ?case
  proof (cases "irc_split s")
    case None
    then show ?thesis by (simp add: irc_loop.simps [of s])
  next
    case (Some lr)
    then obtain l r where lr: "irc_split s = Some (l, r)" by (cases lr) auto
    then have "irc_loop (r @ t) = (let (acts, buf) = irc_loop r; (acts', buf') = irc_loop (buf @ t) in (acts @ acts', buf'))"
      using 1 [OF lr refl] by simp
    then show ?thesis using lr irc_split_append [OF lr, of t]
      by (simp add: irc_loop.simps [of s] irc_loop.simps [of "s @ t"] irc_dispatch_def split_beta Let_def)
  qed
qed

text \<open>
  (C33) What the client does does not depend on how the stream is cut into reads: the actions of two pieces in a row are those of their
  concatenation, and the same bytes are left in the buffer.
\<close>

theorem irc_pieces:
  "irc_feed (s @ t) c = (let (acts, c') = irc_feed s c; (acts', c'') = irc_feed t c' in (acts @ acts', c''))"
  using irc_loop_append [of "irc_recv c @ s" t] by (simp add: irc_feed_def split_beta Let_def)

lemma irc_split_line: "13 \<notin> set l \<Longrightarrow> irc_split (l @ 13 # 10 # r) = Some (l, r)"
proof (induction l)
  case (Cons a l)
  then show ?case by (cases l) auto
qed simp

lemma irc_feed_line:
  assumes "irc_recv c = []" and "13 \<notin> set l"
  shows "irc_feed (l @ [13, 10]) c = (irc_line l, c)"
  using assms irc_split_line [of l "[]"]
  by (simp add: irc_feed_def irc_loop.simps irc_dispatch_def)

lemma after_prefix: "32 \<notin> set prefix \<Longrightarrow> drop 1 (dropWhile (\<lambda>c. c \<noteq> 32) (58 # prefix @ 32 # s)) = (s :: byte list)"
proof -
  assume "32 \<notin> set prefix"
  then have "dropWhile (\<lambda>c. c \<noteq> 32) (prefix @ 32 # s) = 32 # s" by (induction prefix) auto
  then show ?thesis by simp
qed

lemma parse_word_append:
  assumes "list_all (\<lambda>c. \<not> isspace c) w" and "isspace b"
  shows "parse_word (w @ b # s) = (w, b # s)"
  using assms by (induction w) (auto simp: parse_word_def)

text \<open>
  (C34) What a client says reaches another client as it is: the line of \<open>say\<close> with the sender in front, as servers pass it on, makes the
  receiver call \<open>on_privmsg\<close> with the same channel and text; and a \<open>PING\<close> is answered by a \<open>PONG\<close> with its argument.
\<close>

theorem irc_conversation:
  assumes "irc_recv c = []" and "32 \<notin> set sender" and "13 \<notin> set sender" and "list_all (\<lambda>b. \<not> isspace b) channel"
    and "13 \<notin> set msg" and "0 \<notin> set arg" and "13 \<notin> set arg"
  shows "irc_feed ([58] @ sender @ [32] @ irc_say channel msg) c = ([On_privmsg channel msg], c)
    \<and> irc_feed (send_msg2 word_ping arg) c = ([Sent (send_msg2 word_pong arg)], c)"
proof
  let ?l = "58 # sender @ 32 # word_privmsg @ [32] @ channel @ [32, 58] @ msg"
  have "13 \<notin> set channel" using assms(4) by (auto simp: list_all_iff isspace_def)
  then have "irc_feed (?l @ [13, 10]) c = (irc_line ?l, c)" using assms by (intro irc_feed_line) auto
  moreover have "irc_line ?l = [On_privmsg channel msg]"
  proof -
    have "\<not> istarts_with ?l word_ping" by (simp add: istarts_with_def until_null_def ascii_tolower_def)
    moreover have "parse_privmsg (channel @ [32, 58] @ msg) = Some (channel, msg)"
      using parse_word_append [OF assms(4), of 32 "58 # msg"] by (simp add: parse_privmsg_def strip_prefix_def isspace_def)
    then have "irc_code (word_privmsg @ [32] @ channel @ [32, 58] @ msg) = [On_privmsg channel msg]"
      by (simp add: irc_code_def strip_prefix_def)
    ultimately show ?thesis using after_prefix [OF assms(2)] by (simp add: irc_line_def Let_def del: drop_Suc_Cons)
  qed
  ultimately show "irc_feed ([58] @ sender @ [32] @ irc_say channel msg) c = ([On_privmsg channel msg], c)"
    by (simp add: irc_say_def send_msg3_def)
  have "takeWhile (\<lambda>b. b \<noteq> 0) arg = arg" using assms(6) using takeWhile_eq_all_conv [of "\<lambda>b. b \<noteq> 0" arg] by blast
  then have "irc_line (word_ping @ [32] @ arg) = [Sent (send_msg2 word_pong arg)]"
    by (simp add: irc_line_def istarts_with_def until_null_def takeWhile_eq_all_conv [THEN iffD2])
  moreover have "irc_feed ((word_ping @ [32] @ arg) @ [13, 10]) c = (irc_line (word_ping @ [32] @ arg), c)"
    using assms by (intro irc_feed_line) auto
  ultimately show "irc_feed (send_msg2 word_ping arg) c = ([Sent (send_msg2 word_pong arg)], c)"
    by (simp add: send_msg2_def)
qed

theorem irc_conversation_witness:
  "irc_feed ([58] @ [97, 33, 98] @ [32] @ irc_say [35, 99] [104, 105]) (irc_connect [104] [110] None None None None)
     = ([On_privmsg [35, 99] [104, 105]], irc_connect [104] [110] None None None None)
   \<and> fst (irc_feed (send_msg2 word_ping [120]) (irc_connect [104] [110] None None None None)) = [Sent [80, 79, 78, 71, 32, 120, 13, 10]]"
  using irc_conversation [of "irc_connect [104] [110] None None None None" "[97, 33, 98]" "[35, 99]" "[104, 105]" "[120]"]
  by (simp add: irc_connect_def isspace_def send_msg2_def)

text \<open>
  A text with a line end in it is sent as two lines: the second one is a command of its own.
\<close>

theorem irc_say_injects:
  assumes "13 \<notin> set channel" and "13 \<notin> set msg"
  shows "irc_split (irc_say channel (msg @ [13, 10] @ command)) = Some (word_privmsg @ [32] @ channel @ [32, 58] @ msg, command @ [13, 10])"
  using assms irc_split_line [of "word_privmsg @ [32] @ channel @ [32, 58] @ msg" "command @ [13, 10]"]
  by (simp add: irc_say_def send_msg3_def)

theorem irc_say_injects_witness:
  "irc_split (irc_say [35, 99] ([104] @ [13, 10] @ [81, 85, 73, 84])) = Some (word_privmsg @ [32, 35, 99, 32, 58, 104], [81, 85, 73, 84, 13, 10])"
  using irc_say_injects [of "[35, 99]" "[104]" "[81, 85, 73, 84]"] by simp

end
