(* ===== verification/Log_Format.thy ===== *)
theory Log_Format
  imports Email_Headers
begin

text \<open>
  The text of a log line (\<^verbatim>\<open>log/detail/formatter.hpp\<close>, \<^verbatim>\<open>log/severity.hpp\<close>): the loop over a format as the list of what it does with the
  stream, and the stream with its width, filling, adjustment and failure. Texts that Boost.Date\_Time makes are a parameter.
\<close>

section \<open>Severity\<close>

definition severity_name :: "nat \<Rightarrow> string" where
  "severity_name level =
     [''trace'', ''debug'', ''info'', ''notice'', ''warning'', ''error'', ''critical'', ''alert'', ''emerg'', ''''] ! min level 9"

definition severity_symbol :: "nat \<Rightarrow> char" where
  "severity_symbol level = ''TDINWECAF '' ! min level 9"

section \<open>Times\<close>

text \<open>\<open>replace_simple_time_string\<close> for a number of seconds that is not negative; the last digit may be any character.\<close>

definition time_digit :: "nat \<Rightarrow> byte" where
  "time_digit n = word_of_nat (48 + n)"

definition simple_time_string :: "nat \<Rightarrow> byte list" where
  "simple_time_string t =
     (let s7 = time_digit (t mod 10); t1 = t div 10; s6 = time_digit (t1 mod 6); t2 = t1 div 6;
          s4 = time_digit (t2 mod 10); t3 = t2 div 10; s3 = time_digit (t3 mod 6); t4 = t3 div 6;
          s1 = time_digit (t4 mod 10); t5 = t4 div 10; s0 = time_digit t5
      in [s0, s1, 58, s3, s4, 58, s6, s7])"

definition base_utc_offset :: "int \<Rightarrow> byte list" where
  "base_utc_offset off =
     (let sign = (if off < 0 then 45 else 43); o1 = nat \<bar>off\<bar> div 60; s4 = time_digit (o1 mod 10); o2 = o1 div 10; s3 = time_digit (o2 mod 6);
          o3 = o2 div 6; s2 = time_digit (o3 mod 10); s1 = time_digit (o3 div 10)
      in [sign, s1, s2, s3, s4])"

section \<open>Formats\<close>

datatype field =
    Weekday_name | Short_weekday_name | Month_name | Short_month_name | Century | Date_time | Day | Simple_date | Logger_function | Hour_24
  | Hour_12 | Logger_info | Day_of_year | Level_name | Logger_location | Minute | Month | Second | Simple_time | Thread_id | Millisecond
  | Microsecond | Logger_message | Week_of_year | Day_of_week | Year | Short_year | Time_zone | Utc_offset

text \<open>What the loop does with the stream: unformatted text, manipulators, a character, a field.\<close>

datatype format_action = Write_text "byte list" | Adjust_left | Set_fill byte | Set_width nat | Put_char byte | Put_field field

definition field_of :: "byte \<Rightarrow> field option" where
  "field_of c = map_of
     [(65, Weekday_name), (97, Short_weekday_name), (66, Month_name), (98, Short_month_name), (67, Century), (99, Date_time), (100, Day),
      (70, Simple_date), (102, Logger_function), (72, Hour_24), (73, Hour_12), (105, Logger_info), (106, Day_of_year), (76, Level_name),
      (108, Logger_location), (77, Minute), (109, Month), (83, Second), (84, Simple_time), (116, Thread_id), (85, Millisecond),
      (117, Microsecond), (118, Logger_message), (87, Week_of_year), (119, Day_of_week), (89, Year), (121, Short_year), (90, Time_zone),
      (122, Utc_offset)] c"

text \<open>Directives without an effect.\<close>

definition ignored_directive :: "byte \<Rightarrow> bool" where
  "ignored_directive c \<longleftrightarrow> c = 80 \<or> c = 112 \<or> c = 115"

definition digits_value :: "nat \<Rightarrow> byte list \<Rightarrow> nat" where
  "digits_value w ds = foldl (\<lambda>w d. w * 10 + (unat d - 48)) w ds"

text \<open>
  A directive from behind the percent sign and an optional minus on, with what is left of the format. A width that does not
  fit into \<open>int\<close> is undefined. A letter without a meaning gives a percent sign and the character behind it (a null at the
  end of the format).
\<close>

function directive :: "byte list \<Rightarrow> (format_action list \<times> byte list) option" where
  "directive s =
     (case s of
        [] \<Rightarrow> Some ([], [])
      | c # r \<Rightarrow>
          if isdigit c
          then let w = digits_value (unat c - 48) (takeWhile isdigit r); pre = (if c = 48 then [Set_fill 48] else []) @ [Set_width w]
               in if 2147483647 < w then None
                  else map_option (\<lambda>(acts, r'). (pre @ acts, r')) (directive (dropWhile isdigit r))
          else if c = 37 then Some ([Put_char 37], r)
          else if ignored_directive c then Some ([], r)
          else case field_of c of
            Some f \<Rightarrow> Some ([Put_field f], r)
          | None \<Rightarrow> Some ([Put_char 37, Put_char (case r of [] \<Rightarrow> 0 | d # _ \<Rightarrow> d)], r))"
  by auto
termination
  by (relation "measure length") (auto simp: le_imp_less_Suc length_dropWhile_le)

declare directive.simps [simp del]

lemma directive_length: "directive s = Some (acts, r) \<Longrightarrow> length r \<le> length s"
proof (induction s arbitrary: acts r rule: directive.induct)
  case (1 s)
  show ?case
  proof (cases s)
    case Nil
    then show ?thesis using 1(2) by (simp add: directive.simps)
  next
    case (Cons c t)
    show ?thesis
    proof (cases "isdigit c")
      case True
      then obtain acts' where "directive (dropWhile isdigit t) = Some (acts', r)" "\<not> 2147483647 < digits_value (unat c - 48) (takeWhile isdigit t)"
        using 1(2) Cons by (auto simp: directive.simps [of "c # t"] Let_def split: if_splits)
      then have "length r \<le> length (dropWhile isdigit t)" using 1(1) Cons True by simp
      then show ?thesis using Cons length_dropWhile_le [of isdigit t] by simp
    next
      case False
      then show ?thesis using 1(2) Cons by (auto simp: directive.simps [of "c # t"] split: if_splits option.splits)
    qed
  qed
qed

text \<open>A minus directly behind the percent sign adjusts to the left.\<close>

definition left_flag :: "byte list \<Rightarrow> format_action list \<times> byte list" where
  "left_flag r = (case r of [] \<Rightarrow> ([], []) | c # r' \<Rightarrow> if c = 45 then ([Adjust_left], r') else ([], r))"

text \<open>\<open>format\<close>: the loop over the whole text.\<close>

function log_actions :: "byte list \<Rightarrow> format_action list option" where
  "log_actions s =
     (let lit = Write_text (takeWhile (\<lambda>c. c \<noteq> 37) s)
      in case dropWhile (\<lambda>c. c \<noteq> 37) s of
           [] \<Rightarrow> Some [lit]
         | _ # r \<Rightarrow>
             (case directive (snd (left_flag r)) of
                None \<Rightarrow> None
              | Some (acts, r') \<Rightarrow> map_option (\<lambda>acts'. lit # fst (left_flag r) @ acts @ acts') (log_actions r')))"
  by auto
termination
proof (relation "measure length", goal_cases)
  case (2 s lit c r acts_r acts r')
  then have "length r' \<le> length (snd (left_flag r))" using directive_length by auto
  also have "\<dots> \<le> length r" by (auto simp: left_flag_def split: list.splits)
  also have "length r < length (dropWhile (\<lambda>c. c \<noteq> 37) s)" using 2 by simp
  also have "\<dots> \<le> length s" by (rule length_dropWhile_le)
  finally show ?case by simp
qed simp

declare log_actions.simps [simp del]

section \<open>The stream\<close>

record log_stream =
  st_out :: "byte list"
  st_width :: nat
  st_fill :: byte
  st_left :: bool
  st_fail :: bool
  st_message :: "byte list"

text \<open>Formatted output fills up to the width, and resets it; unformatted output and iterators do not use it.\<close>

definition put_text :: "byte list \<Rightarrow> log_stream \<Rightarrow> log_stream" where
  "put_text bs st =
     (if st_fail st then st
      else let pad = replicate (st_width st - length bs) (st_fill st)
           in st\<lparr>st_out := st_out st @ (if st_left st then bs @ pad else pad @ bs), st_width := 0\<rparr>)"

definition write_text :: "byte list \<Rightarrow> log_stream \<Rightarrow> log_stream" where
  "write_text bs st = (if st_fail st then st else st\<lparr>st_out := st_out st @ bs\<rparr>)"

definition copy_text :: "byte list \<Rightarrow> log_stream \<Rightarrow> log_stream" where
  "copy_text bs st = st\<lparr>st_out := st_out st @ bs\<rparr>"

text \<open>The buffer of the message is read out; a buffer without anything left makes the stream fail.\<close>

definition put_buffer :: "log_stream \<Rightarrow> log_stream" where
  "put_buffer st =
     (if st_fail st then st
      else if st_message st = [] then st\<lparr>st_fail := True\<rparr>
      else st\<lparr>st_out := st_out st @ st_message st, st_message := []\<rparr>)"

text \<open>
  What a line is about: the time of day in microseconds, the year, the zone, the level and the place; texts of Boost, and what its
  own operators write.
\<close>

record log_env =
  le_micros :: nat
  le_year :: nat
  le_offset :: int
  le_level :: nat
  le_file :: "byte list"
  le_line :: nat
  le_func :: "byte list"
  le_info :: "byte list"
  le_text :: "field \<Rightarrow> byte list"
  le_put :: "field \<Rightarrow> log_stream \<Rightarrow> log_stream"

definition le_seconds :: "log_env \<Rightarrow> nat" where
  "le_seconds env = le_micros env div 1000000"

fun put_field :: "log_env \<Rightarrow> field \<Rightarrow> log_stream \<Rightarrow> log_stream" where
  "put_field env Century st = put_text (dec_text (le_year env div 100 + 1)) st"
| "put_field env Short_year st = put_text (dec_text (le_year env mod 100)) st"
| "put_field env Hour_24 st = put_text (dec_text (le_seconds env div 3600)) st"
| "put_field env Hour_12 st = put_text (dec_text (le_seconds env div 3600 mod 12)) st"
| "put_field env Minute st = put_text (dec_text (le_seconds env div 60 mod 60)) st"
| "put_field env Second st = put_text (dec_text (le_seconds env mod 60)) st"
| "put_field env Simple_time st = put_text (simple_time_string (le_seconds env)) st"
| "put_field env Millisecond st = put_text (dec_text (le_micros env div 1000 mod 1000)) (st\<lparr>st_fill := 48, st_width := 3\<rparr>)"
| "put_field env Microsecond st = put_text (dec_text (le_micros env mod 1000000)) (st\<lparr>st_fill := 48, st_width := 6\<rparr>)"
| "put_field env Utc_offset st = put_text (base_utc_offset (le_offset env)) st"
| "put_field env Level_name st = put_text (bytes_of (severity_name (le_level env))) st"
| "put_field env Logger_message st = put_buffer st"
| "put_field env Logger_info st = copy_text (le_info env) st"
| "put_field env Logger_location st = put_text (dec_text (le_line env)) (put_text [58] (copy_text (le_file env) st))"
| "put_field env Logger_function st = copy_text (le_func env) st"
| "put_field env Weekday_name st = put_text (le_text env Weekday_name) st"
| "put_field env Short_weekday_name st = put_text (le_text env Short_weekday_name) st"
| "put_field env Month_name st = put_text (le_text env Month_name) st"
| "put_field env Short_month_name st = put_text (le_text env Month_name) st"
| "put_field env Simple_date st = put_text (le_text env Simple_date) st"
| "put_field env Time_zone st = put_text (le_text env Time_zone) st"
| "put_field env Week_of_year st = put_text (le_text env Week_of_year) st"
| "put_field env f st = le_put env f st"

fun log_action :: "log_env \<Rightarrow> format_action \<Rightarrow> log_stream \<Rightarrow> log_stream" where
  "log_action env (Write_text bs) st = write_text bs st"
| "log_action env Adjust_left st = st\<lparr>st_left := True\<rparr>"
| "log_action env (Set_fill c) st = st\<lparr>st_fill := c\<rparr>"
| "log_action env (Set_width w) st = st\<lparr>st_width := w\<rparr>"
| "log_action env (Put_char c) st = put_text [c] st"
| "log_action env (Put_field f) st = put_field env f st"

definition log_format :: "log_env \<Rightarrow> byte list \<Rightarrow> log_stream \<Rightarrow> log_stream option" where
  "log_format env fmt st = map_option (\<lambda>acts. fold (log_action env) acts st) (log_actions fmt)"

text \<open>\<open>logger::write\<close>: the text of a line with a message, from a new stream.\<close>

definition log_line :: "log_env \<Rightarrow> byte list \<Rightarrow> byte list \<Rightarrow> byte list option" where
  "log_line env fmt message =
     map_option st_out (log_format env fmt \<lparr>st_out = [], st_width = 0, st_fill = 32, st_left = False, st_fail = False, st_message = message\<rparr>)"

text \<open>\<open>%F %T.%U [%L] - %v\<close>.\<close>

definition default_format :: "byte list" where
  "default_format = bytes_of ''%F %T.%U [%L] - %v''"

section \<open>Formats that give what they say\<close>

definition escape_format :: "byte list \<Rightarrow> byte list" where
  "escape_format s = concat (map (\<lambda>c. if c = 37 then [37, 37] else [c]) s)"

lemma escape_cut:
  "takeWhile (\<lambda>c. c \<noteq> 37) (escape_format s) = takeWhile (\<lambda>c. c \<noteq> 37) s
   \<and> dropWhile (\<lambda>c. c \<noteq> 37) (escape_format s) = escape_format (dropWhile (\<lambda>c. c \<noteq> 37) s)"
  by (induction s) (simp_all add: escape_format_def)

lemma format_escape:
  assumes "st_width st = 0"
  shows "log_format env (escape_format s) st = Some (st\<lparr>st_out := st_out st @ (if st_fail st then [] else s)\<rparr>)"
  using assms
proof (induction s arbitrary: st rule: measure_induct_rule [of length])
  case (less s)
  let ?l = "takeWhile (\<lambda>c. c \<noteq> 37) s"
  show ?case
  proof (cases "dropWhile (\<lambda>c. c \<noteq> 37) s")
    case Nil
    then have l: "takeWhile (\<lambda>c. c \<noteq> 37) (escape_format s) = s" using escape_cut [of s] by (metis append_Nil2 takeWhile_dropWhile_id)
    have "dropWhile (\<lambda>c. c \<noteq> 37) (escape_format s) = []" using escape_cut [of s] Nil by (simp only: escape_format_def list.map concat.simps)
    then have "log_actions (escape_format s) = Some [Write_text s]"
      using l by (simp del: dropWhile_eq_Nil_conv add: log_actions.simps [of "escape_format s"])
    then show ?thesis using less.prems by (simp add: log_format_def write_text_def)
  next
    case (Cons c r)
    have c: "c = 37" using Cons hd_dropWhile [of "\<lambda>c. c \<noteq> 37" s] by simp
    have s: "s = ?l @ 37 # r" using Cons c by (metis takeWhile_dropWhile_id)
    have len: "length r < length s" by (subst s) simp
    let ?st = "st\<lparr>st_out := st_out st @ (if st_fail st then [] else ?l @ [37])\<rparr>"
    have "log_format env (escape_format r) ?st = Some (?st\<lparr>st_out := st_out ?st @ (if st_fail st then [] else r)\<rparr>)"
      using less.IH [OF len, of ?st] less.prems by simp
    then obtain acts where acts: "log_actions (escape_format r) = Some acts"
        "fold (log_action env) acts ?st = st\<lparr>st_out := st_out st @ (if st_fail st then [] else ?l @ 37 # r)\<rparr>"
      by (auto simp: log_format_def)
    have "dropWhile (\<lambda>c. c \<noteq> 37) (escape_format s) = 37 # 37 # escape_format r" using escape_cut [of s] Cons c by (simp add: escape_format_def)
    then have "log_actions (escape_format s) = Some (Write_text ?l # Put_char 37 # acts)"
      using escape_cut [of s] acts(1)
      by (simp add: log_actions.simps [of "escape_format s"] left_flag_def directive.simps [of "37 # escape_format r"] isdigit_def)
    moreover have "log_action env (Put_char 37) (log_action env (Write_text ?l) st) = ?st"
      using less.prems by (simp add: write_text_def put_text_def)
    ultimately have "log_format env (escape_format s) st = Some (st\<lparr>st_out := st_out st @ (if st_fail st then [] else ?l @ 37 # r)\<rparr>)"
      using acts(2) by (simp add: log_format_def)
    then show ?thesis using s by simp
  qed
qed

text \<open>
  A format that is a text with every percent sign doubled gives this text, whatever the line is about.
\<close>

theorem log_escape: "log_line env (escape_format s) message = Some s"
  using format_escape [of "\<lparr>st_out = [], st_width = 0, st_fill = 32, st_left = False, st_fail = False, st_message = message\<rparr>" env s]
  by (simp add: log_line_def)

section \<open>The default format\<close>

definition two_digits :: "nat \<Rightarrow> byte list" where
  "two_digits n = [time_digit (n div 10), time_digit (n mod 10)]"

definition three_digits :: "nat \<Rightarrow> byte list" where
  "three_digits n = replicate (3 - length (dec_text n)) 48 @ dec_text n"

lemma mod_60: "t div 10 mod 6 = t mod 60 div 10" "t mod 10 = t mod 60 mod (10 :: nat)" for t :: nat
proof -
  have "t mod (10 * 6) = 10 * (t div 10 mod 6) + t mod 10" by (rule mod_mult2_eq)
  then have t: "t mod 60 = 10 * (t div 10 mod 6) + t mod 10" by simp
  have "t mod 10 < 10" by simp
  then have "(10 * (t div 10 mod 6) + t mod 10) div 10 = t div 10 mod 6" by simp
  then show "t div 10 mod 6 = t mod 60 div 10" using t by presburger
  show "t mod 10 = t mod 60 mod 10" using t by simp
qed

lemma simple_time_digits:
  "simple_time_string t = two_digits (t div 3600) @ [58] @ two_digits (t div 60 mod 60) @ [58] @ two_digits (t mod 60)"
proof -
  have d: "t div 10 div 6 = t div 60" "t div 60 div 10 div 6 = t div 3600" by (simp_all add: div_mult2_eq [symmetric])
  show ?thesis
    unfolding simple_time_string_def two_digits_def Let_def d using mod_60 [of t] mod_60 [of "t div 60"] by simp
qed

lemma default_actions:
  "log_actions default_format = Some [Write_text [], Put_field Simple_date, Write_text [32], Put_field Simple_time, Write_text [46],
     Put_field Millisecond, Write_text [32, 91], Put_field Level_name, Write_text [93, 32, 45, 32], Put_field Logger_message, Write_text []]"
  by code_simp

definition default_line :: "log_env \<Rightarrow> byte list \<Rightarrow> byte list" where
  "default_line env message =
     le_text env Simple_date @ [32] @ two_digits (le_seconds env div 3600) @ [58] @ two_digits (le_seconds env div 60 mod 60)
       @ [58] @ two_digits (le_seconds env mod 60) @ [46] @ three_digits (le_micros env div 1000 mod 1000)
       @ [32, 91] @ bytes_of (severity_name (le_level env)) @ [93, 32, 45, 32] @ message"

lemma log_line_default: "log_line env default_format message = Some (default_line env message)"
  by (simp add: log_line_def log_format_def default_actions simple_time_digits write_text_def put_text_def put_buffer_def three_digits_def
    default_line_def)

text \<open>
  With the default format a line is the date, the time of day with two digits for hours, minutes and seconds, three digits of
  milliseconds, the name of the level in brackets, and the message.
\<close>

theorem log_default_format:
  "log_line env default_format message =
     Some (le_text env Simple_date @ [32] @ two_digits (le_seconds env div 3600) @ [58] @ two_digits (le_seconds env div 60 mod 60)
       @ [58] @ two_digits (le_seconds env mod 60) @ [46] @ three_digits (le_micros env div 1000 mod 1000)
       @ [32, 91] @ bytes_of (severity_name (le_level env)) @ [93, 32, 45, 32] @ message)"
  by (simp add: log_line_default default_line_def)

text \<open>
  When the message of a line is empty, nothing of the format behind \<open>%v\<close> is written, because the empty buffer makes the stream
  fail; any other message is followed by it.
\<close>

theorem log_empty_message:
  "log_line env (37 # 118 # escape_format s) [] = Some [] \<and> log_line env (37 # 118 # escape_format s) (c # message) = Some (c # message @ s)"
proof -
  let ?st = "\<lambda>m. \<lparr>st_out = [], st_width = 0, st_fill = 32, st_left = False, st_fail = False, st_message = m\<rparr>"
  obtain acts where acts: "log_actions (escape_format s) = Some acts"
    using format_escape [of "?st []" env s] by (auto simp: log_format_def)
  have a: "log_actions (37 # 118 # escape_format s) = Some (Write_text [] # Put_field Logger_message # acts)"
    using acts by (simp add: log_actions.simps [of "37 # 118 # escape_format s"] left_flag_def directive.simps [of "118 # escape_format s"]
      isdigit_def ignored_directive_def field_of_def)
  have "fold (log_action env) acts (?st (c # message)\<lparr>st_out := c # message, st_message := []\<rparr>) =
      ?st (c # message)\<lparr>st_out := c # message @ s, st_message := []\<rparr>"
    using format_escape [of "?st (c # message)\<lparr>st_out := c # message, st_message := []\<rparr>" env s] acts by (simp add: log_format_def)
  moreover have "fold (log_action env) acts (?st []\<lparr>st_fail := True\<rparr>) = ?st []\<lparr>st_fail := True\<rparr>"
    using format_escape [of "?st []\<lparr>st_fail := True\<rparr>" env s] acts by (simp add: log_format_def)
  ultimately show ?thesis by (simp add: log_line_def log_format_def a write_text_def put_buffer_def)
qed

end
