(* ===== verification/Log_Core.thy ===== *)
theory Log_Core
  imports Log_Format
begin

text \<open>
  The loggers and their registry (\<^verbatim>\<open>log/core.hpp\<close>, \<^verbatim>\<open>log/sinks\<close>, \<^verbatim>\<open>log/detail/line_logger.hpp\<close>, \<^verbatim>\<open>log/logging.hpp\<close>,
  \<^verbatim>\<open>log/loggable.hpp\<close>). A logger is known by its number; it lives as long as the registry, the default or a client has a shared
  pointer to it. Lines refer to a logger that they do not keep alive. What is undefined is \<open>None\<close>.
\<close>

section \<open>Loggers\<close>

text \<open>The sinks of the core; no others can be made, because the constructor of a console sink is private.\<close>

datatype log_sink = Cout_sink | Cerr_sink

record logger =
  lg_format :: "byte list"
  lg_sinks :: "log_sink list"

definition logger_new :: logger where
  "logger_new = \<lparr>lg_format = default_format, lg_sinks = []\<rparr>"

definition logger_push :: "log_sink \<Rightarrow> logger \<Rightarrow> logger" where
  "logger_push sink lg = (if sink \<in> set (lg_sinks lg) then lg else lg\<lparr>lg_sinks := lg_sinks lg @ [sink]\<rparr>)"

text \<open>\<open>delete\<close> of a sink that is a member of the core is undefined.\<close>

definition logger_pop :: "logger \<Rightarrow> logger option" where
  "logger_pop lg =
     (if lg_sinks lg = [] then Some lg
      else let sink = last (lg_sinks lg); lg' = lg\<lparr>lg_sinks := butlast (lg_sinks lg)\<rparr>
           in if sink \<noteq> Cout_sink \<or> sink \<noteq> Cerr_sink then None else Some lg')"

definition logger_set_format :: "byte list \<Rightarrow> logger \<Rightarrow> logger" where
  "logger_set_format fmt lg = lg\<lparr>lg_format := fmt\<rparr>"

section \<open>The core\<close>

datatype log_tag = Default_tag | Tag nat

record log_core =
  co_loggers :: "logger list"
  co_default :: nat
  co_registry :: "(nat \<times> nat) list"
  co_held :: "nat list"
  co_cout :: "byte list"
  co_cerr :: "byte list"

definition core_new :: log_core where
  "core_new = \<lparr>co_loggers = [logger_push Cout_sink logger_new], co_default = 0, co_registry = [], co_held = [], co_cout = [], co_cerr = []\<rparr>"

definition co_live :: "log_core \<Rightarrow> nat \<Rightarrow> bool" where
  "co_live co p \<longleftrightarrow> p = co_default co \<or> p \<in> snd ` set (co_registry co) \<or> p \<in> set (co_held co)"

text \<open>The map of the loggers: \<open>emplace_hint\<close>, an assignment through an iterator, \<open>erase\<close>.\<close>

definition reg_emplace :: "nat \<Rightarrow> nat \<Rightarrow> (nat \<times> nat) list \<Rightarrow> (nat \<times> nat) list" where
  "reg_emplace t p reg = (if map_of reg t = None then (t, p) # reg else reg)"

definition reg_assign :: "nat \<Rightarrow> nat \<Rightarrow> (nat \<times> nat) list \<Rightarrow> (nat \<times> nat) list" where
  "reg_assign t p reg = map (\<lambda>(k, v). if k = t then (k, p) else (k, v)) reg"

definition reg_erase :: "nat \<Rightarrow> (nat \<times> nat) list \<Rightarrow> (nat \<times> nat) list" where
  "reg_erase t reg = filter (\<lambda>(k, v). k \<noteq> t) reg"

text \<open>\<open>find_or_construct\<close>.\<close>

fun find_or_construct :: "log_tag \<Rightarrow> log_core \<Rightarrow> nat \<times> log_core" where
  "find_or_construct Default_tag co = (co_default co, co)"
| "find_or_construct (Tag t) co =
     (case map_of (co_registry co) t of
        Some p \<Rightarrow> (p, co)
      | None \<Rightarrow> let p = length (co_loggers co)
                in (p, co\<lparr>co_loggers := co_loggers co @ [logger_new], co_registry := reg_emplace t p (co_registry co)\<rparr>))"

text \<open>\<open>get\<close> gives a client a shared pointer, which it may drop.\<close>

definition co_get :: "log_tag \<Rightarrow> log_core \<Rightarrow> nat \<times> log_core" where
  "co_get tag co = (let (p, co') = find_or_construct tag co in (p, co'\<lparr>co_held := p # co_held co'\<rparr>))"

definition co_drop :: "nat \<Rightarrow> log_core \<Rightarrow> log_core" where
  "co_drop p co = co\<lparr>co_held := remove1 p (co_held co)\<rparr>"

fun co_remove :: "log_tag \<Rightarrow> log_core \<Rightarrow> bool \<times> log_core" where
  "co_remove Default_tag co = (False, co)"
| "co_remove (Tag t) co =
     (case map_of (co_registry co) t of
        None \<Rightarrow> (False, co)
      | Some p \<Rightarrow> (True, co\<lparr>co_registry := reg_erase t (co_registry co)\<rparr>))"

fun co_alias :: "log_tag \<Rightarrow> nat \<Rightarrow> log_core \<Rightarrow> log_core" where
  "co_alias Default_tag p co = (if co_default co \<noteq> p then co\<lparr>co_default := p\<rparr> else co)"
| "co_alias (Tag t) p co =
     (case map_of (co_registry co) t of
        Some q \<Rightarrow> if q \<noteq> p then co\<lparr>co_registry := reg_assign t p (co_registry co)\<rparr>
                  else co\<lparr>co_registry := reg_emplace t p (co_registry co)\<rparr>
      | None \<Rightarrow> co\<lparr>co_registry := reg_emplace t p (co_registry co)\<rparr>)"

text \<open>An operation on the logger behind a pointer; the logger has to live.\<close>

definition on_logger :: "nat \<Rightarrow> (logger \<Rightarrow> logger option) \<Rightarrow> log_core \<Rightarrow> log_core option" where
  "on_logger p f co =
     (if co_live co p
      then map_option (\<lambda>lg. co\<lparr>co_loggers := (co_loggers co)[p := lg]\<rparr>) (f (co_loggers co ! p))
      else None)"

text \<open>\<open>write\<close> of a sink, and of a logger to all its sinks.\<close>

fun sink_write :: "byte list \<Rightarrow> log_sink \<Rightarrow> log_core \<Rightarrow> log_core" where
  "sink_write s Cout_sink co = co\<lparr>co_cout := co_cout co @ s @ [10]\<rparr>"
| "sink_write s Cerr_sink co = co\<lparr>co_cerr := co_cerr co @ s @ [10]\<rparr>"

definition logger_write :: "nat \<Rightarrow> log_env \<Rightarrow> byte list \<Rightarrow> log_core \<Rightarrow> log_core option" where
  "logger_write p env message co =
     (if co_live co p
      then map_option (\<lambda>dest. fold (sink_write dest) (lg_sinks (co_loggers co ! p)) co)
             (log_line env (lg_format (co_loggers co ! p)) message)
      else None)"

section \<open>Lines\<close>

text \<open>A line has its buffer until it is moved away; the buffer knows the level and the place.\<close>

record log_buffer =
  lb_level :: nat
  lb_func :: "byte list"
  lb_file :: "byte list"
  lb_line :: nat
  lb_info :: "byte list"
  lb_message :: "byte list"

record line_logger =
  ll_logger :: nat
  ll_buffer :: "log_buffer option"

text \<open>\<open>make_line_logger\<close>, with the name of the type when there is one.\<close>

definition make_line_logger :: "nat \<Rightarrow> nat \<Rightarrow> byte list \<Rightarrow> byte list \<Rightarrow> nat \<Rightarrow> byte list option \<Rightarrow> line_logger" where
  "make_line_logger p level func file line type_name =
     \<lparr>ll_logger = p, ll_buffer = Some \<lparr>lb_level = level, lb_func = func, lb_file = file, lb_line = line,
        lb_info = (case type_name of None \<Rightarrow> [] | Some n \<Rightarrow> n), lb_message = []\<rparr>\<rparr>"

text \<open>\<open>operator<<\<close> with the text of its argument; a moved line has no buffer to write to.\<close>

definition line_put :: "byte list \<Rightarrow> line_logger \<Rightarrow> line_logger option" where
  "line_put s ll = map_option (\<lambda>b. ll\<lparr>ll_buffer := Some (b\<lparr>lb_message := lb_message b @ s\<rparr>)\<rparr>) (ll_buffer ll)"

definition line_move :: "line_logger \<Rightarrow> line_logger \<times> line_logger" where
  "line_move ll = (ll, ll\<lparr>ll_buffer := None\<rparr>)"

text \<open>The destructor; the times of \<open>env\<close> are those of the destruction.\<close>

definition line_env :: "log_buffer \<Rightarrow> log_env \<Rightarrow> log_env" where
  "line_env b env = env\<lparr>le_level := lb_level b, le_file := lb_file b, le_line := lb_line b, le_func := lb_func b, le_info := lb_info b\<rparr>"

definition line_destroy :: "log_env \<Rightarrow> line_logger \<Rightarrow> log_core \<Rightarrow> log_core option" where
  "line_destroy env ll co =
     (case ll_buffer ll of
        None \<Rightarrow> Some co
      | Some b \<Rightarrow> logger_write (ll_logger ll) (line_env b env) (lb_message b) co)"

text \<open>\<open>detail_logging\<close>: the shared pointer is dropped before the line is written.\<close>

definition detail_logging :: "log_tag \<Rightarrow> nat \<Rightarrow> byte list \<Rightarrow> byte list \<Rightarrow> nat \<Rightarrow> byte list option \<Rightarrow> log_core \<Rightarrow> line_logger \<times> log_core" where
  "detail_logging tag level func file line type_name co =
     (let (p, co') = co_get tag co in (make_line_logger p level func file line type_name, co_drop p co'))"

text \<open>A whole statement \<open>LOG(level) << a << b\<close>.\<close>

fun line_puts :: "byte list list \<Rightarrow> line_logger \<Rightarrow> line_logger option" where
  "line_puts [] ll = Some ll"
| "line_puts (s # ss) ll = Option.bind (line_put s ll) (line_puts ss)"

definition log_statement ::
  "log_tag \<Rightarrow> nat \<Rightarrow> byte list \<Rightarrow> byte list \<Rightarrow> nat \<Rightarrow> byte list option \<Rightarrow> byte list list \<Rightarrow> log_env \<Rightarrow> log_core \<Rightarrow> log_core option" where
  "log_statement tag level func file line type_name ss env co =
     (let (ll, co') = detail_logging tag level func file line type_name co
      in Option.bind (line_puts ss ll) (\<lambda>ll'. line_destroy env ll' co'))"

section \<open>The registry\<close>

text \<open>What a registry of loggers promises: a tag means the pointer that the last \<open>alias\<close> or \<open>get\<close> gave it until it is removed.\<close>

datatype 'tag registry_op = Get 'tag | Remove 'tag | Alias 'tag nat

fun registry_step ::
  "('tag \<Rightarrow> 's \<Rightarrow> nat \<times> 's) \<Rightarrow> ('tag \<Rightarrow> 's \<Rightarrow> bool \<times> 's) \<Rightarrow> ('tag \<Rightarrow> nat \<Rightarrow> 's \<Rightarrow> 's) \<Rightarrow> 'tag registry_op \<Rightarrow> 's \<Rightarrow> 's" where
  "registry_step get remove bind (Get t) s = snd (get t s)"
| "registry_step get remove bind (Remove t) s = snd (remove t s)"
| "registry_step get remove bind (Alias t p) s = bind t p s"

fun changes_tag :: "'tag \<Rightarrow> 'tag registry_op \<Rightarrow> bool" where
  "changes_tag t (Get u) = False"
| "changes_tag t (Remove u) = (u = t)"
| "changes_tag t (Alias u p) = (u = t)"

locale tag_registry =
  fixes view :: "'tag \<Rightarrow> 's \<Rightarrow> nat option"
    and get :: "'tag \<Rightarrow> 's \<Rightarrow> nat \<times> 's"
    and remove :: "'tag \<Rightarrow> 's \<Rightarrow> bool \<times> 's"
    and bind :: "'tag \<Rightarrow> nat \<Rightarrow> 's \<Rightarrow> 's"
  assumes get_known: "view t s = Some p \<Longrightarrow> fst (get t s) = p"
    and get_view: "view u (snd (get t s)) = (if u = t then Some (fst (get t s)) else view u s)"
    and alias_view: "view u (bind t p s) = (if u = t then Some p else view u s)"
    and remove_view: "u \<noteq> t \<Longrightarrow> view u (snd (remove t s)) = view u s"
begin

lemma step_keeps:
  assumes "view t s = Some p" and "\<not> changes_tag t op"
  shows "view t (registry_step get remove bind op s) = Some p"
  using assms get_known by (cases op) (auto simp: get_view alias_view remove_view)

lemma run_keeps:
  assumes "view t s = Some p" and "list_all (\<lambda>op. \<not> changes_tag t op) ops"
  shows "view t (fold (registry_step get remove bind) ops s) = Some p"
  using assms by (induction ops arbitrary: s) (simp_all add: step_keeps)

lemma alias_stays:
  assumes "list_all (\<lambda>op. \<not> changes_tag t op) ops"
  shows "fst (get t (fold (registry_step get remove bind) ops (bind t p s))) = p"
  by (rule get_known) (simp add: run_keeps alias_view assms)

lemma get_stays:
  assumes "list_all (\<lambda>op. \<not> changes_tag t op) ops"
  shows "fst (get t (fold (registry_step get remove bind) ops (snd (get t s)))) = fst (get t s)"
  by (rule get_known) (simp add: run_keeps get_view assms)

end

fun tag_pointer :: "log_tag \<Rightarrow> log_core \<Rightarrow> nat option" where
  "tag_pointer Default_tag co = Some (co_default co)"
| "tag_pointer (Tag t) co = map_of (co_registry co) t"

lemma map_of_emplace: "map_of (reg_emplace t p reg) u = (if u = t \<and> map_of reg t = None then Some p else map_of reg u)"
  by (simp add: reg_emplace_def)

lemma map_of_assign: "map_of (reg_assign t p reg) u = (if u = t \<and> map_of reg t \<noteq> None then Some p else map_of reg u)"
  unfolding reg_assign_def by (induction reg) auto

lemma map_of_erase: "map_of (reg_erase t reg) u = (if u = t then None else map_of reg u)"
  unfolding reg_erase_def by (induction reg) auto

lemmas map_of_reg = map_of_emplace map_of_assign map_of_erase

interpretation co_tags: tag_registry tag_pointer co_get co_remove co_alias
proof (unfold_locales, goal_cases)
  case (1 t s p)
  then show ?case by (cases t) (auto simp: co_get_def)
next
  case (2 u t s)
  then show ?case by (cases t; cases u) (auto simp: co_get_def map_of_reg Let_def split: option.splits)
next
  case (3 u t p s)
  then show ?case by (cases t; cases u) (auto simp: map_of_reg split: option.splits)
next
  case (4 u t s)
  then show ?case by (cases t; cases u) (auto simp: map_of_reg split: option.splits)
qed

text \<open>
  (C35) A tag that was made an alias of a logger gives this logger until the tag itself is removed or made another alias, whatever is
  done with the other tags; a tag that was looked up keeps the logger that was constructed for it in the same way.
\<close>

theorem log_registry:
  assumes "list_all (\<lambda>op. \<not> changes_tag t op) ops"
  shows "fst (co_get t (fold (registry_step co_get co_remove co_alias) ops (co_alias t p co))) = p
    \<and> fst (co_get t (fold (registry_step co_get co_remove co_alias) ops (snd (co_get t co)))) = fst (co_get t co)"
  using co_tags.alias_stays [OF assms] co_tags.get_stays [OF assms] by simp

theorem log_registry_witness:
  "fst (co_get (Tag 7) (fold (registry_step co_get co_remove co_alias) [Get (Tag 8), Remove (Tag 8), Alias Default_tag 1]
       (co_alias (Tag 7) 0 core_new))) = 0"
  using log_registry [of "Tag 7" "[Get (Tag 8), Remove (Tag 8), Alias Default_tag 1]" 0 core_new] by simp

section \<open>Lines on the console\<close>

lemma line_puts_concat: "ll_buffer ll = Some b \<Longrightarrow> line_puts ss ll = Some (ll\<lparr>ll_buffer := Some (b\<lparr>lb_message := lb_message b @ concat ss\<rparr>)\<rparr>)"
proof (induction ss arbitrary: ll b)
  case (Cons s ss)
  then show ?case by (simp add: line_put_def)
qed simp

lemma log_statement_write:
  "log_statement tag level func file line type_name ss env co =
     (let (p, co') = find_or_construct tag co
      in logger_write p (env\<lparr>le_level := level, le_file := file, le_line := line, le_func := func, le_info := (case type_name of None \<Rightarrow> [] | Some n \<Rightarrow> n)\<rparr>)
           (concat ss) co')"
  by (simp add: log_statement_def detail_logging_def co_get_def co_drop_def Let_def case_prod_beta make_line_logger_def line_puts_concat
    line_destroy_def line_env_def)

text \<open>
  (C36) A statement of the default logger, as the core constructs it, writes one line to the standard output: the default format with
  the level of the statement and the texts of all its arguments, and a line end.
\<close>

theorem log_default_statement:
  assumes "co_loggers co ! co_default co = logger_push Cout_sink logger_new"
  shows "log_statement Default_tag level func file line type_name ss env co =
     Some (co\<lparr>co_cout := co_cout co @ default_line (env\<lparr>le_level := level\<rparr>) (concat ss) @ [10]\<rparr>)"
  using assms
  by (simp add: log_statement_write logger_write_def co_live_def logger_push_def logger_new_def log_line_default default_line_def le_seconds_def)

theorem log_default_statement_witness:
  "\<forall>env. log_statement Default_tag 2 [] [] 1 None [[104], [105]] env core_new =
     Some (core_new\<lparr>co_cout := default_line (env\<lparr>le_level := 2\<rparr>) [104, 105] @ [10]\<rparr>)"
  using log_default_statement [of core_new 2 "[]" "[]" 1 None "[[104], [105]]"] by (simp add: core_new_def)

text \<open>
  A statement with a tag that nothing was made for is lost: the logger that is constructed for the tag has no sink, so neither
  output gets anything; the same holds for every later statement with this tag.
\<close>

theorem log_tag_lost:
  assumes "map_of (co_registry co) t = None"
  shows "\<exists>co'. log_statement (Tag t) level func file line type_name ss env co = Some co' \<and> co_cout co' = co_cout co \<and> co_cerr co' = co_cerr co
    \<and> log_statement (Tag t) level2 func2 file2 line2 type_name2 ss2 env2 co' = Some co'"
  using assms
  by (simp add: log_statement_write Let_def logger_write_def co_live_def reg_emplace_def nth_append logger_new_def log_line_default)

theorem log_tag_lost_witness:
  "\<forall>env. \<exists>co'. log_statement (Tag 4) 5 [] [] 1 None [[104]] env core_new = Some co' \<and> co_cout co' = []"
proof
  fix env
  show "\<exists>co'. log_statement (Tag 4) 5 [] [] 1 None [[104]] env core_new = Some co' \<and> co_cout co' = []"
    using log_tag_lost [of core_new 4 5 "[]" "[]" 1 None "[[104]]" env 5 "[]" "[]" 1 None "[[104]]" env] by (auto simp: core_new_def)
qed

text \<open>
  A line does not keep its logger: when the tag is removed between the beginning and the end of a statement and nobody else has a
  pointer to the logger, the line is written to a logger that does not exist any more.
\<close>

theorem log_dangling:
  assumes "map_of (co_registry co) t = Some p" and "p \<noteq> co_default co" and "p \<notin> snd ` set (reg_erase t (co_registry co))"
    and "p \<notin> set (co_held co)"
  shows "line_destroy env (fst (detail_logging (Tag t) level func file line type_name co))
      (snd (co_remove (Tag t) (snd (detail_logging (Tag t) level func file line type_name co)))) = None"
  using assms
  by (simp add: detail_logging_def co_get_def co_drop_def make_line_logger_def line_destroy_def logger_write_def co_live_def)

theorem log_dangling_witness:
  "\<forall>env. let co = co_drop 1 (snd (co_get (Tag 4) core_new))
   in line_destroy env (fst (detail_logging (Tag 4) 5 [] [] 1 None co)) (snd (co_remove (Tag 4) (snd (detail_logging (Tag 4) 5 [] [] 1 None co)))) = None"
  unfolding Let_def
  by (rule allI, rule log_dangling [of _ _ 1]) (simp_all add: core_new_def co_get_def co_drop_def reg_emplace_def reg_erase_def)

section \<open>Runs\<close>

text \<open>What clients can do: with a pointer that they hold, with a tag, and with a line.\<close>

inductive log_step :: "log_core \<Rightarrow> log_core \<Rightarrow> bool" where
  step_get: "log_step co (snd (co_get tag co))"
| step_drop: "p \<in> set (co_held co) \<Longrightarrow> log_step co (co_drop p co)"
| step_remove: "log_step co (snd (co_remove tag co))"
| step_alias: "p \<in> set (co_held co) \<Longrightarrow> log_step co (co_alias tag p co)"
| step_format: "on_logger p (\<lambda>lg. Some (logger_set_format fmt lg)) co = Some co' \<Longrightarrow> log_step co co'"
| step_pop: "on_logger p logger_pop co = Some co' \<Longrightarrow> log_step co co'"
| step_line: "line_destroy env ll co = Some co' \<Longrightarrow> log_step co co'"
| step_statement: "log_statement tag level func file line type_name ss env co = Some co' \<Longrightarrow> log_step co co'"

definition co_ok :: "log_core \<Rightarrow> bool" where
  "co_ok co \<longleftrightarrow> co_cerr co = [] \<and> (\<forall>p. co_live co p \<longrightarrow> p < length (co_loggers co))
     \<and> (\<forall>lg \<in> set (co_loggers co). lg_sinks lg = [] \<or> lg_sinks lg = [Cout_sink])"

lemma live_new [simp]: "co_live core_new p \<longleftrightarrow> p = 0"
  by (auto simp: co_live_def core_new_def)

lemma co_ok_new: "co_ok core_new"
  by (simp add: co_ok_def) (simp add: core_new_def logger_push_def logger_new_def)

lemma reg_members:
  "(k, p) \<in> set (reg_emplace t q reg) \<Longrightarrow> p = q \<or> p \<in> snd ` set reg"
  "(k, p) \<in> set (reg_assign t q reg) \<Longrightarrow> p = q \<or> p \<in> snd ` set reg"
  "(k, p) \<in> set (reg_erase t reg) \<Longrightarrow> p \<in> snd ` set reg"
  by (force simp: reg_emplace_def reg_assign_def reg_erase_def split: if_splits)+

lemma co_ok_subset:
  assumes "co_ok co" and "\<And>p. co_live co' p \<Longrightarrow> co_live co p" and "co_loggers co' = co_loggers co" and "co_cerr co' = co_cerr co"
  shows "co_ok co'"
  using assms by (auto simp: co_ok_def)

lemma find_ok:
  assumes ok: "co_ok co"
  shows "co_ok (snd (find_or_construct tag co)) \<and> co_live (snd (find_or_construct tag co)) (fst (find_or_construct tag co))"
proof (cases tag)
  case (Tag t)
  show ?thesis
  proof (cases "map_of (co_registry co) t")
    case None
    let ?co = "snd (find_or_construct (Tag t) co)"
    have co: "?co = co\<lparr>co_loggers := co_loggers co @ [logger_new], co_registry := (t, length (co_loggers co)) # co_registry co\<rparr>"
      using None by (simp add: Let_def reg_emplace_def)
    have live: "co_live ?co p \<longleftrightarrow> p = length (co_loggers co) \<or> co_live co p" for p unfolding co by (auto simp: co_live_def)
    have "co_ok ?co" using ok unfolding co_ok_def live unfolding co by (auto simp: logger_new_def less_SucI)
    moreover have "fst (find_or_construct (Tag t) co) = length (co_loggers co)" using None by (simp add: Let_def)
    ultimately show ?thesis using live Tag by simp
  next
    case (Some p)
    then have "p \<in> snd ` set (co_registry co)" by (force dest: map_of_SomeD)
    then show ?thesis using ok Some Tag by (simp add: co_live_def)
  qed
qed (simp add: co_live_def ok)

lemma get_ok: "co_ok co \<Longrightarrow> co_ok (snd (co_get tag co))"
  using find_ok [of co tag] by (auto simp: co_get_def Let_def case_prod_beta co_ok_def co_live_def)

lemma remove_live: "co_live (snd (co_remove tag co)) p \<Longrightarrow> co_live co p"
  by (cases tag) (auto simp: co_live_def split: option.splits dest: reg_members)

lemma alias_live: "co_live (co_alias tag q co) p \<Longrightarrow> p = q \<or> co_live co p"
  by (cases tag) (auto simp: co_live_def split: option.splits if_splits dest: reg_members)

lemma remove_ok: "co_ok co \<Longrightarrow> co_ok (snd (co_remove tag co))"
  by (rule co_ok_subset, assumption, erule remove_live) (cases tag; simp split: option.split)+

lemma alias_ok: "co_ok co \<Longrightarrow> p \<in> set (co_held co) \<Longrightarrow> co_ok (co_alias tag p co)"
proof (rule co_ok_subset, assumption)
  fix q
  assume "p \<in> set (co_held co)" "co_live (co_alias tag p co) q"
  then show "co_live co q" using alias_live [of tag p co q] by (auto simp: co_live_def)
qed (cases tag; simp split: option.split)+

lemma on_logger_ok:
  assumes "co_ok co" and "on_logger p f co = Some co'" and "\<And>lg lg'. f lg = Some lg' \<Longrightarrow> lg_sinks lg' = lg_sinks lg"
  shows "co_ok co'"
proof -
  obtain lg where lg: "f (co_loggers co ! p) = Some lg" and co': "co' = co\<lparr>co_loggers := (co_loggers co)[p := lg]\<rparr>" and p: "co_live co p"
    using assms(2) by (auto simp: on_logger_def split: if_splits)
  have "lg_sinks lg = [] \<or> lg_sinks lg = [Cout_sink]"
    using assms(1) p assms(3) [OF lg] by (simp add: co_ok_def)
  then show ?thesis using assms(1) co' by (auto simp: co_ok_def co_live_def dest: subsetD [OF set_update_subset_insert])
qed

lemma pop_sinks: "logger_pop lg = Some lg' \<Longrightarrow> lg_sinks lg' = lg_sinks lg"
  by (cases "lg_sinks lg = []"; cases "last (lg_sinks lg)") (simp_all add: logger_pop_def Let_def)

lemma write_ok:
  assumes ok: "co_ok co" and w: "logger_write p env message co = Some co'"
  shows "co_ok co'"
proof -
  have p: "co_live co p" using w by (simp add: logger_write_def split: if_splits)
  obtain dest where co': "co' = fold (sink_write dest) (lg_sinks (co_loggers co ! p)) co"
    using w p by (auto simp: logger_write_def)
  have "lg_sinks (co_loggers co ! p) = [] \<or> lg_sinks (co_loggers co ! p) = [Cout_sink]" using ok p by (simp add: co_ok_def)
  then consider "co' = co" | "co' = co\<lparr>co_cout := co_cout co @ dest @ [10]\<rparr>" unfolding co' by fastforce
  then show ?thesis
  proof cases
    case 2
    then show ?thesis by (intro co_ok_subset [OF ok]) (simp_all add: co_live_def)
  qed (simp add: ok)
qed

lemma step_ok: "log_step co co' \<Longrightarrow> co_ok co \<Longrightarrow> co_ok co'"
proof (induction rule: log_step.induct)
  case (step_drop p co)
  show ?case by (rule co_ok_subset [OF step_drop(2)]) (auto simp: co_live_def co_drop_def dest: subsetD [OF set_remove1_subset])
next
  case (step_line env ll co co')
  then show ?case by (auto simp: line_destroy_def split: option.splits intro: write_ok)
next
  case (step_statement tag _ _ _ _ _ _ _ co co')
  then show ?case using find_ok [of co tag] by (auto simp: log_statement_write Let_def case_prod_beta intro: write_ok)
qed (auto simp: get_ok remove_ok alias_ok logger_set_format_def pop_sinks elim: on_logger_ok)

text \<open>
  (C37) Whatever clients do, nothing is ever written to the standard error, every logger that lives exists, and it has either no
  sink or the standard output as its only one.
\<close>

theorem log_runs:
  assumes "log_step\<^sup>*\<^sup>* core_new co" and "co_live co p"
  shows "co_cerr co = [] \<and> p < length (co_loggers co) \<and> lg_sinks (co_loggers co ! p) \<in> {[], [Cout_sink]}"
proof -
  have "co_ok co" using assms(1) by (induction rule: rtranclp_induct) (auto simp: co_ok_new intro: step_ok)
  then show ?thesis using assms(2) by (simp add: co_ok_def)
qed

theorem log_runs_witness:
  "lg_sinks (co_loggers (snd (co_get (Tag 1) core_new)) ! 1) = []
   \<and> lg_sinks (co_loggers (snd (co_get (Tag 1) core_new)) ! 1) \<in> {[], [Cout_sink]}"
proof -
  have "log_step\<^sup>*\<^sup>* core_new (snd (co_get (Tag 1) core_new))" by (rule r_into_rtranclp) (rule step_get)
  moreover have "co_live (snd (co_get (Tag 1) core_new)) 1" by code_simp
  ultimately show ?thesis using log_runs [of "snd (co_get (Tag 1) core_new)" 1] by (auto simp: core_new_def co_get_def logger_new_def)
qed

end
