(* ===== verification/Hash_Filter.thy ===== *)
theory Hash_Filter
  imports Acqua_Prelude
begin

text \<open>
  The filters that hash what goes through them (\<^verbatim>\<open>iostreams/crypto/basic_hash_filter.hpp\<close> and the contexts of
  \<^verbatim>\<open>md5_filter\<close>, \<^verbatim>\<open>sha256_filter\<close> and \<^verbatim>\<open>hmac_filter\<close>). The functions of OpenSSL are a parameter: the beginning
  with a key, the update and the end of a hash, each of which can fail. Source and sink are parameters as well.
\<close>

record 'c hash_context =
  hc_init :: "byte list option \<Rightarrow> 'c option"
  hc_update :: "'c \<Rightarrow> byte list \<Rightarrow> 'c option"
  hc_finish :: "'c \<Rightarrow> byte list option"

text \<open>The filter: the context, which all its copies share, and the buffer of the caller. An exception is the text of its place.\<close>

record 'c hash_filter =
  hf_impl :: 'c
  hf_buffer :: "byte list"

definition hf_new :: "'c hash_context \<Rightarrow> byte list option \<Rightarrow> byte list \<Rightarrow> string + 'c hash_filter" where
  "hf_new hc key buffer =
     (case hc_init hc key of None \<Rightarrow> Inl ''init'' | Some c \<Rightarrow> Inr \<lparr>hf_impl = c, hf_buffer = buffer\<rparr>)"

text \<open>\<open>read\<close>: what the source gives for \<open>n\<close>, \<open>None\<close> at its end.\<close>

definition hf_read :: "'c hash_context \<Rightarrow> ('s \<Rightarrow> nat \<Rightarrow> byte list option \<times> 's) \<Rightarrow> 'c hash_filter \<Rightarrow> 's \<Rightarrow> nat
    \<Rightarrow> string + byte list option \<times> 'c hash_filter \<times> 's" where
  "hf_read hc src_read f src n =
     (let (r, src') = src_read src n; s = (case r of None \<Rightarrow> [] | Some s \<Rightarrow> s)
      in if s \<noteq> []
         then case hc_update hc (hf_impl f) s of None \<Rightarrow> Inl ''read'' | Some c \<Rightarrow> Inr (r, f\<lparr>hf_impl := c\<rparr>, src')
         else Inr (r, f, src'))"

text \<open>\<open>write\<close>: everything is hashed, then the sink takes what it can.\<close>

definition hf_write :: "'c hash_context \<Rightarrow> ('s \<Rightarrow> byte list \<Rightarrow> nat \<times> 's) \<Rightarrow> 'c hash_filter \<Rightarrow> 's \<Rightarrow> byte list
    \<Rightarrow> string + nat \<times> 'c hash_filter \<times> 's" where
  "hf_write hc sink_write f sink s =
     (if s \<noteq> []
      then case hc_update hc (hf_impl f) s of
             None \<Rightarrow> Inl ''write''
           | Some c \<Rightarrow> let (k, sink') = sink_write sink s in Inr (k, f\<lparr>hf_impl := c\<rparr>, sink')
      else let (k, sink') = sink_write sink s in Inr (k, f, sink'))"

text \<open>\<open>close\<close> is \<open>noexcept\<close>: its exception ends the program, which is \<open>None\<close>.\<close>

definition hf_close :: "'c hash_context \<Rightarrow> nat \<Rightarrow> 'c hash_filter \<Rightarrow> 'c hash_filter option" where
  "hf_close hc m f =
     (let cleared = f\<lparr>hf_buffer := replicate m 0 @ drop m (hf_buffer f)\<rparr>
      in case hc_finish hc (hf_impl f) of
           None \<Rightarrow> None
         | Some d \<Rightarrow> Some (cleared\<lparr>hf_buffer := d @ drop (length d) (hf_buffer cleared)\<rparr>))"

section \<open>Whole streams\<close>

text \<open>
  What the callers in Boost do: the source is read until its end; a text is written again from where the sink stopped. The number of
  the calls is bounded by \<open>fuel\<close>.
\<close>

fun hf_read_all :: "'c hash_context \<Rightarrow> ('s \<Rightarrow> nat \<Rightarrow> byte list option \<times> 's) \<Rightarrow> nat \<Rightarrow> nat \<Rightarrow> 'c hash_filter \<Rightarrow> 's
    \<Rightarrow> (string + byte list \<times> 'c hash_filter) option" where
  "hf_read_all hc src_read n 0 f src = None"
| "hf_read_all hc src_read n (Suc fuel) f src =
     (case hf_read hc src_read f src n of
        Inl e \<Rightarrow> Some (Inl e)
      | Inr (r, f', src') \<Rightarrow>
          (case r of None \<Rightarrow> Some (Inr ([], f'))
           | Some s \<Rightarrow> map_option (map_sum id (\<lambda>(t, f''). (s @ t, f''))) (hf_read_all hc src_read n fuel f' src')))"

fun hf_write_all :: "'c hash_context \<Rightarrow> ('s \<Rightarrow> byte list \<Rightarrow> nat \<times> 's) \<Rightarrow> nat \<Rightarrow> 'c hash_filter \<Rightarrow> 's \<Rightarrow> byte list
    \<Rightarrow> (string + 'c hash_filter \<times> 's) option" where
  "hf_write_all hc sink_write fuel f sink [] = Some (Inr (f, sink))"
| "hf_write_all hc sink_write 0 f sink (b # s) = None"
| "hf_write_all hc sink_write (Suc fuel) f sink (b # s) =
     (case hf_write hc sink_write f sink (b # s) of
        Inl e \<Rightarrow> Some (Inl e)
      | Inr (k, f', sink') \<Rightarrow> hf_write_all hc sink_write fuel f' sink' (drop k (b # s)))"

text \<open>Texts that are written one after the other.\<close>

fun hf_write_texts :: "'c hash_context \<Rightarrow> ('s \<Rightarrow> byte list \<Rightarrow> nat \<times> 's) \<Rightarrow> 'c hash_filter \<Rightarrow> 's \<Rightarrow> byte list list
    \<Rightarrow> (string + 'c hash_filter \<times> 's) option" where
  "hf_write_texts hc sink_write f sink [] = Some (Inr (f, sink))"
| "hf_write_texts hc sink_write f sink (s # ss) =
     (case hf_write_all hc sink_write (length s) f sink s of
        None \<Rightarrow> None
      | Some (Inl e) \<Rightarrow> Some (Inl e)
      | Some (Inr (f', sink')) \<Rightarrow> hf_write_texts hc sink_write f' sink' ss)"

text \<open>
  A source with a text, which gives at most one byte more in each call than a list says, at the end of the list all that is asked
  for; a sink that takes as many bytes in each call as a list says, everything behind its end.
\<close>

definition slow_read :: "byte list \<times> nat list \<Rightarrow> nat \<Rightarrow> byte list option \<times> byte list \<times> nat list" where
  "slow_read src n =
     (if fst src = [] then (None, src)
      else case snd src of
        [] \<Rightarrow> (Some (take n (fst src)), drop n (fst src), [])
      | k # ks \<Rightarrow> (Some (take (min n (Suc k)) (fst src)), drop (min n (Suc k)) (fst src), ks))"

definition slow_write :: "byte list \<times> nat list \<Rightarrow> byte list \<Rightarrow> nat \<times> byte list \<times> nat list" where
  "slow_write sink s =
     (case snd sink of
        [] \<Rightarrow> (length s, fst sink @ s, [])
      | k # ks \<Rightarrow> (min k (length s), fst sink @ take k s, ks))"

section \<open>The digest\<close>

text \<open>
  What the manual of OpenSSL says of a hash: the calls do not fail, the end gives the digest of everything in the order of the updates,
  and it has \<open>n\<close> bytes. \<open>seen\<close> is the key and the text that a context has got.
\<close>

definition hashes :: "'c hash_context \<Rightarrow> ('c \<Rightarrow> byte list option \<times> byte list) \<Rightarrow> (byte list option \<Rightarrow> byte list \<Rightarrow> byte list) \<Rightarrow> nat \<Rightarrow> bool" where
  "hashes hc seen digest n \<longleftrightarrow>
     (\<forall>key. \<exists>c. hc_init hc key = Some c \<and> seen c = (key, []))
     \<and> (\<forall>c s. \<exists>c'. hc_update hc c s = Some c' \<and> seen c' = (fst (seen c), snd (seen c) @ s))
     \<and> (\<forall>c. hc_finish hc c = Some (digest (fst (seen c)) (snd (seen c))))
     \<and> (\<forall>key s. length (digest key s) = n)"

lemma hashes_new:
  assumes "hashes hc seen digest n"
  obtains c where "hf_new hc key buffer = Inr \<lparr>hf_impl = c, hf_buffer = buffer\<rparr>" and "seen c = (key, [])"
proof -
  obtain c where "hc_init hc key = Some c" "seen c = (key, [])" using assms unfolding hashes_def by blast
  then show ?thesis using that by (simp add: hf_new_def)
qed

lemma hashes_update:
  assumes "hashes hc seen digest n"
  obtains c' where "hc_update hc c s = Some c'" and "seen c' = (fst (seen c), snd (seen c) @ s)"
  using assms unfolding hashes_def by blast

lemma hashes_close:
  assumes "hashes hc seen digest n" and "length (hf_buffer f) = n"
  shows "hf_close hc n f = Some (f\<lparr>hf_buffer := digest (fst (seen (hf_impl f))) (snd (seen (hf_impl f)))\<rparr>)"
  using assms by (simp add: hashes_def hf_close_def)

lemma slow_read_part:
  assumes "s \<noteq> []" and "0 < m"
  obtains p ks' where "slow_read (s, ks) m = (Some (take p s), drop p s, ks')" and "0 < p"
proof (cases ks)
  case Nil
  then show ?thesis using that [of m "[]"] assms by (simp add: slow_read_def)
next
  case (Cons k ks')
  then show ?thesis using that [of "min m (Suc k)" ks'] assms by (simp add: slow_read_def)
qed

lemma read_all_hash:
  assumes h: "hashes hc seen digest n" and "0 < m" and "length s < fuel"
  shows "\<exists>f'. hf_read_all hc slow_read m fuel f (s, ks) = Some (Inr (s, f')) \<and> hf_buffer f' = hf_buffer f
    \<and> seen (hf_impl f') = (fst (seen (hf_impl f)), snd (seen (hf_impl f)) @ s)"
  using assms(3)
proof (induction fuel arbitrary: f s ks)
  case (Suc fuel)
  show ?case
  proof (cases "s = []")
    case True
    then show ?thesis by (simp add: hf_read_def slow_read_def)
  next
    case False
    obtain p ks' where p: "slow_read (s, ks) m = (Some (take p s), drop p s, ks')" "0 < p"
      using slow_read_part [OF False assms(2)] by blast
    obtain c where c: "hc_update hc (hf_impl f) (take p s) = Some c" "seen c = (fst (seen (hf_impl f)), snd (seen (hf_impl f)) @ take p s)"
      using hashes_update [OF h] by blast
    have "length (drop p s) < fuel" using Suc.prems False p(2) by (cases s) auto
    then obtain f' where f': "hf_read_all hc slow_read m fuel (f\<lparr>hf_impl := c\<rparr>) (drop p s, ks') = Some (Inr (drop p s, f'))"
        "hf_buffer f' = hf_buffer f" "seen (hf_impl f') = (fst (seen c), snd (seen c) @ drop p s)"
      using Suc.IH [of "drop p s" "f\<lparr>hf_impl := c\<rparr>" ks'] by auto
    have "hf_read hc slow_read f (s, ks) m = Inr (Some (take p s), f\<lparr>hf_impl := c\<rparr>, drop p s, ks')"
      using c(1) p False by (simp add: hf_read_def)
    then show ?thesis using f' c(2) by simp
  qed
qed simp

lemma write_all_step:
  assumes h: "hashes hc seen digest n" and "s \<noteq> []"
  obtains c where "seen c = (fst (seen (hf_impl f)), snd (seen (hf_impl f)) @ s)"
    and "hf_write_all hc slow_write (Suc fuel) f sink s =
      hf_write_all hc slow_write fuel (f\<lparr>hf_impl := c\<rparr>) (snd (slow_write sink s)) (drop (fst (slow_write sink s)) s)"
proof -
  obtain c where "hc_update hc (hf_impl f) s = Some c" "seen c = (fst (seen (hf_impl f)), snd (seen (hf_impl f)) @ s)"
    using hashes_update [OF h] by blast
  then show ?thesis using that [of c] assms(2) by (cases s) (simp_all add: hf_write_def case_prod_beta)
qed

lemma write_texts_hash:
  assumes h: "hashes hc seen digest n"
  shows "\<exists>f'. hf_write_texts hc slow_write f (out, []) ss = Some (Inr (f', out @ concat ss, [])) \<and> hf_buffer f' = hf_buffer f
    \<and> seen (hf_impl f') = (fst (seen (hf_impl f)), snd (seen (hf_impl f)) @ concat ss)"
proof (induction ss arbitrary: f out)
  case Nil
  then show ?case by simp
next
  case (Cons s ss)
  show ?case
  proof (cases s)
    case Nil
    then show ?thesis using Cons.IH [of f out] by simp
  next
    case (Cons b t)
    obtain c where c: "seen c = (fst (seen (hf_impl f)), snd (seen (hf_impl f)) @ s)"
        "hf_write_all hc slow_write (length s) f (out, []) s = hf_write_all hc slow_write (length t) (f\<lparr>hf_impl := c\<rparr>) (out @ s, []) []"
      using write_all_step [OF h, of s f "length t" "(out, [])"] Cons by (auto simp: slow_write_def)
    then show ?thesis using Cons.IH [of "f\<lparr>hf_impl := c\<rparr>" "out @ s"] by simp
  qed
qed

text \<open>
  (C38) What goes through the filter is not changed, and when it is closed the buffer of the caller has the digest of all that went
  through it since its beginning: for any texts written one after the other to a sink that takes each of them whole,
  and then a source that is read to its end, whatever the sizes of its parts.
\<close>

theorem hash_filter_digest:
  assumes "hashes hc seen digest n" and "0 < m" and "length buffer = n"
  shows "\<exists>f f' f''. hf_new hc key buffer = Inr f
    \<and> hf_write_texts hc slow_write f (out, []) ss = Some (Inr (f', out @ concat ss, []))
    \<and> map_option hf_buffer (hf_close hc n f') = Some (digest key (concat ss))
    \<and> hf_read_all hc slow_read m (Suc (length s)) f' (s, ks) = Some (Inr (s, f''))
    \<and> map_option hf_buffer (hf_close hc n f'') = Some (digest key (concat ss @ s))"
proof -
  obtain c where new: "hf_new hc key buffer = Inr \<lparr>hf_impl = c, hf_buffer = buffer\<rparr>" "seen c = (key, [])"
    using hashes_new [OF assms(1)] by blast
  obtain f' where f': "hf_write_texts hc slow_write \<lparr>hf_impl = c, hf_buffer = buffer\<rparr> (out, []) ss = Some (Inr (f', out @ concat ss, []))"
      "hf_buffer f' = buffer" "seen (hf_impl f') = (key, concat ss)"
    using write_texts_hash [OF assms(1), of "\<lparr>hf_impl = c, hf_buffer = buffer\<rparr>" out ss] new(2) by auto
  obtain f'' where f'': "hf_read_all hc slow_read m (Suc (length s)) f' (s, ks) = Some (Inr (s, f''))"
      "hf_buffer f'' = buffer" "seen (hf_impl f'') = (key, concat ss @ s)"
    using read_all_hash [OF assms(1,2), of s "Suc (length s)" f' ks] f'(2,3) by auto
  show ?thesis using new(1) f' f'' hashes_close [OF assms(1), of f'] hashes_close [OF assms(1), of f''] assms(3) by auto
qed

text \<open>A context that keeps everything, with the sum of the bytes as its digest.\<close>

definition sum_context :: "(byte list option \<times> byte list) hash_context" where
  "sum_context = \<lparr>hc_init = (\<lambda>key. Some (key, [])), hc_update = (\<lambda>c s. Some (fst c, snd c @ s)), hc_finish = (\<lambda>c. Some [sum_list (snd c)])\<rparr>"

lemma sum_context_hashes: "hashes sum_context (\<lambda>c. c) (\<lambda>key s. [sum_list s]) 1"
  by (simp add: hashes_def sum_context_def)

theorem hash_filter_digest_witness:
  "\<exists>f f' f''. hf_new sum_context None [0] = Inr f
    \<and> hf_write_texts sum_context slow_write f ([9], []) [[1, 2], [], [3]] = Some (Inr (f', [9, 1, 2, 3], []))
    \<and> map_option hf_buffer (hf_close sum_context 1 f') = Some [6]
    \<and> hf_read_all sum_context slow_read 2 4 f' ([4, 5, 6], [0]) = Some (Inr ([4, 5, 6], f''))
    \<and> map_option hf_buffer (hf_close sum_context 1 f'') = Some [21]"
  using hash_filter_digest [OF sum_context_hashes, of 2 "[0]" None "[9]" "[[1, 2], [], [3]]" "[4, 5, 6]" "[0]"] by (simp add: eval_nat_numeral)

text \<open>
  When the sink takes only the first \<open>k\<close> bytes of a text, the rest is written again and hashed a second time: the sink
  has the text, the buffer the digest of another one.
\<close>

theorem hash_short_write:
  assumes "hashes hc seen digest n" and "length buffer = n" and "k < length s"
  shows "\<exists>f f'. hf_new hc key buffer = Inr f \<and> hf_write_all hc slow_write 2 f ([], [k]) s = Some (Inr (f', s, []))
    \<and> map_option hf_buffer (hf_close hc n f') = Some (digest key (s @ drop k s))"
proof -
  obtain c where new: "hf_new hc key buffer = Inr \<lparr>hf_impl = c, hf_buffer = buffer\<rparr>" "seen c = (key, [])"
    using hashes_new [OF assms(1)] by blast
  let ?f = "\<lparr>hf_impl = c, hf_buffer = buffer\<rparr>"
  have s: "s \<noteq> []" "drop k s \<noteq> []" using assms(3) by auto
  obtain c1 where c1: "seen c1 = (key, s)"
      "hf_write_all hc slow_write (Suc (Suc 0)) ?f ([], [k]) s = hf_write_all hc slow_write (Suc 0) (?f\<lparr>hf_impl := c1\<rparr>) (take k s, []) (drop k s)"
    using write_all_step [OF assms(1) s(1), of ?f "Suc 0" "([], [k])"] new(2) assms(3) by (auto simp: slow_write_def min_def)
  obtain c2 where c2: "seen c2 = (key, s @ drop k s)"
      "hf_write_all hc slow_write (Suc 0) (?f\<lparr>hf_impl := c1\<rparr>) (take k s, []) (drop k s) = hf_write_all hc slow_write 0 (?f\<lparr>hf_impl := c2\<rparr>) (s, []) []"
    using write_all_step [OF assms(1) s(2), of "?f\<lparr>hf_impl := c1\<rparr>" 0 "(take k s, [])"] c1(1) by (auto simp: slow_write_def)
  show ?thesis using new(1) c1(2) c2 hashes_close [OF assms(1), of "?f\<lparr>hf_impl := c2\<rparr>"] assms(2) by (auto simp: numeral_2_eq_2)
qed

theorem hash_short_write_witness:
  "\<exists>f f'. hf_new sum_context None [0] = Inr f \<and> hf_write_all sum_context slow_write 2 f ([], [1]) [1, 2, 3] = Some (Inr (f', [1, 2, 3], []))
    \<and> map_option hf_buffer (hf_close sum_context 1 f') = Some [11]"
  using hash_short_write [OF sum_context_hashes, of "[0]" 1 "[1, 2, 3]" None] by simp

end
