(* ===== verification/Raw_Endpoint.thy ===== *)
theory Raw_Endpoint
  imports Network_Interface
begin

text \<open>
  Endpoints of raw sockets and the memberships of an interface (\<^verbatim>\<open>asio/raw.hpp\<close>, \<^verbatim>\<open>asio/socket_base/membership.hpp\<close>). The system
  calls are those of \<open>Network_Interface\<close>; \<open>if_nametoindex\<close> gives the index, or zero and the error number.
\<close>

record sockaddr_ll =
  sll_family :: u16
  sll_protocol :: u16
  sll_ifindex :: int
  sll_addr :: "byte list"

definition raw_family :: int where
  "raw_family = 17"

text \<open>\<open>ntohs(ETH_P_ALL)\<close> on a host with the low byte first.\<close>

definition raw_protocol :: int where
  "raw_protocol = uint (push_bit 8 3 OR drop_bit 8 3 :: u16)"

definition sll_zero :: sockaddr_ll where
  "sll_zero = \<lparr>sll_family = 0, sll_protocol = 0, sll_ifindex = 0, sll_addr = replicate 8 0\<rparr>"

text \<open>The name in an \<open>ifreq\<close> of zeros, at most 15 characters of it.\<close>

definition raw_ifreq :: "byte list \<Rightarrow> ifreq" where
  "raw_ifreq name = \<lparr>ifr_name = take 15 (name @ replicate 15 0) @ [0], ifr_data = replicate 24 0\<rparr>"

text \<open>\<open>setup\<close>: the error, the address and the world.\<close>

definition raw_setup :: "(byte list \<Rightarrow> u32 \<times> nat) \<Rightarrow> 'w if_calls \<Rightarrow> byte list \<Rightarrow> 'w \<Rightarrow> nat option \<times> sockaddr_ll \<times> 'w" where
  "raw_setup nametoindex calls name w =
     (let sll = sll_zero\<lparr>sll_family := word_of_int raw_family, sll_protocol := word_of_int raw_protocol, sll_ifindex := sint (fst (nametoindex name))\<rparr>
      in if sll_ifindex sll = 0 then (Some (snd (nametoindex name)), sll, w)
         else case ic_socket calls w of
           (Inl e, w1) \<Rightarrow> (Some e, sll, w1)
         | (Inr fd, w1) \<Rightarrow>
             (let (res, w2) = ic_ioctl calls fd Get_hwaddr (raw_ifreq name) w1;
                  (ec, ifr) = (case res of Inl e \<Rightarrow> (Some e, raw_ifreq name) | Inr ifr \<Rightarrow> (None, ifr))
              in (ec, sll\<lparr>sll_addr := take 6 (ifr_data ifr) @ drop 6 (sll_addr sll)\<rparr>, ic_close calls fd w2)))"

definition raw_id :: "sockaddr_ll \<Rightarrow> int" where
  "raw_id ep = sll_ifindex ep"

definition raw_address :: "sockaddr_ll \<Rightarrow> linklayer_address" where
  "raw_address ep = \<lparr>ll_bytes = take 6 (sll_addr ep)\<rparr>"

definition raw_equal :: "sockaddr_ll \<Rightarrow> sockaddr_ll \<Rightarrow> bool" where
  "raw_equal a b \<longleftrightarrow> raw_id a = raw_id b"

definition raw_hash_value :: "sockaddr_ll \<Rightarrow> nat" where
  "raw_hash_value ep = nat (raw_id ep mod 2 ^ 64)"

text \<open>The text of an endpoint, with \<open>if_indextoname\<close>; \<open>null\<close> for an index without a name.\<close>

definition raw_text :: "(u32 \<Rightarrow> byte list option) \<Rightarrow> sockaddr_ll \<Rightarrow> byte list" where
  "raw_text indextoname ep = (case indextoname (word_of_int (raw_id ep)) of None \<Rightarrow> [110, 117, 108, 108] | Some s \<Rightarrow> s)"

section \<open>Memberships\<close>

record packet_mreq =
  mr_ifindex :: int
  mr_type :: u16
  mr_alen :: u16
  mr_address :: "byte list"

definition membership_new :: "nat \<Rightarrow> sockaddr_ll \<Rightarrow> packet_mreq" where
  "membership_new kind ep = \<lparr>mr_ifindex = raw_id ep, mr_type = of_nat kind, mr_alen = 0, mr_address = replicate 8 0\<rparr>"

definition membership_new_address :: "nat \<Rightarrow> sockaddr_ll \<Rightarrow> linklayer_address \<Rightarrow> packet_mreq" where
  "membership_new_address kind ep addr =
     (membership_new kind ep)\<lparr>mr_alen := 6, mr_address := ll_bytes addr @ drop 6 (replicate 8 0)\<rparr>"

section \<open>The address of an endpoint\<close>

text \<open>A kernel as before, for interfaces of Ethernet: their addresses come with the type \<open>ARPHRD_ETHER\<close>.\<close>

locale raw_kernel = if_kernel calls opened mtu_of hw_of
  for calls :: "'w if_calls" and opened :: "'w \<Rightarrow> int set"
    and mtu_of :: "'w \<Rightarrow> byte list \<Rightarrow> int" and hw_of :: "'w \<Rightarrow> byte list \<Rightarrow> byte list" +
  assumes ioctl_hwaddr_data: "ic_ioctl calls fd Get_hwaddr ifr w = (Inr ifr', w') \<Longrightarrow> length (ifr_data ifr) = 24 \<Longrightarrow>
      take 2 (ifr_data ifr') = [1, 0] \<and> length (ifr_data ifr') = 24"
begin

lemma setup_end:
  assumes "raw_setup nametoindex calls name w = (ec, ep, w')"
  shows "opened w' = opened w \<and> hw_of w' = hw_of w \<and> raw_id ep = sint (fst (nametoindex name))
    \<and> ll_bytes (raw_address ep) = (if ec = None then [1, 0] @ take 4 (hw_of w (ifr_name (raw_ifreq name))) else replicate 6 0)"
proof (cases "sint (fst (nametoindex name)) = 0")
  case True
  then show ?thesis using assms by (auto simp: raw_setup_def raw_id_def raw_address_def sll_zero_def Let_def eval_nat_numeral)
next
  case index: False
  obtain r w1 where sock: "ic_socket calls w = (r, w1)" by fastforce
  show ?thesis
  proof (cases r)
    case (Inl e)
    then show ?thesis using assms index sock socket_error [of w e w1]
      by (auto simp: raw_setup_def raw_id_def raw_address_def sll_zero_def Let_def eval_nat_numeral)
  next
    case (Inr fd)
    note opn = socket_ok [OF sock [unfolded Inr]]
    obtain res w2 where io: "ic_ioctl calls fd Get_hwaddr (raw_ifreq name) w1 = (res, w2)" by fastforce
    note io_opn = ioctl_open [OF io]
    show ?thesis
    proof (cases res)
      case (Inl e)
      then show ?thesis using assms index sock \<open>r = Inr fd\<close> io opn io_opn close_ok [of fd w2] ioctl_error [OF io [unfolded Inl]]
        by (auto simp: raw_setup_def raw_id_def raw_address_def sll_zero_def raw_ifreq_def Let_def eval_nat_numeral)
    next
      case (Inr ifr)
      have len: "length (ifr_data (raw_ifreq name)) = 24" by (simp add: raw_ifreq_def)
      note got = ioctl_get_hwaddr [OF io [unfolded Inr]] ioctl_hwaddr_data [OF io [unfolded Inr] len]
      have res: "ec = None \<and> w' = ic_close calls fd w2 \<and> raw_id ep = sint (fst (nametoindex name)) \<and> ll_bytes (raw_address ep) = take 6 (ifr_data ifr)"
        using assms index sock \<open>r = Inr fd\<close> io Inr got(2) by (auto simp: raw_setup_def raw_id_def raw_address_def sll_zero_def Let_def)
      have "take 6 (ifr_data ifr) = take 2 (ifr_data ifr) @ take 4 (drop 2 (ifr_data ifr))"
        using take_add [of 2 4 "ifr_data ifr"] by simp
      moreover have "take 4 (drop 2 (ifr_data ifr)) = take 4 (take 6 (drop 2 (ifr_data ifr)))" by simp
      ultimately have "take 6 (ifr_data ifr) = [1, 0] @ take 4 (hw_of w (ifr_name (raw_ifreq name)))" using got opn by simp
      then show ?thesis using res opn io_opn got(1) close_ok [of fd w2] by simp
    qed
  qed
qed

end

interpretation linux_raw: raw_kernel kernel_calls "\<lambda>k. set (kn_open k)" kn_mtu kn_hw
  by unfold_locales (auto simp: kernel_calls_def kn_ioctl_def Let_def split: if_splits)

text \<open>
  (C39) An endpoint that was made from the name of an interface has the index of the interface, and no descriptor stays open. Its
  address is not the one of the interface: its first two bytes are the type of the hardware address, and the last two bytes of
  the address are missing. With an error the address is zero.
\<close>

theorem raw_endpoint_setup:
  assumes "raw_kernel calls opened mtu_of hw_of" and "raw_setup nametoindex calls name w = (ec, ep, w')"
  shows "opened w' = opened w \<and> hw_of w' = hw_of w \<and> raw_id ep = sint (fst (nametoindex name))
    \<and> ll_bytes (raw_address ep) = (if ec = None then [1, 0] @ take 4 (hw_of w (ifr_name (raw_ifreq name))) else replicate 6 0)"
  by (rule raw_kernel.setup_end [OF assms])

theorem raw_endpoint_setup_witness:
  "\<exists>ep k. raw_setup (\<lambda>_. (3, 0)) kernel_calls [101, 116, 104, 48] root_kernel = (None, ep, k)
     \<and> set (kn_open k) = {} \<and> raw_id ep = 3 \<and> ll_bytes (raw_address ep) = [1, 0, 2, 0, 0, 0]"
proof -
  obtain ec ep k where r: "raw_setup (\<lambda>_. (3, 0)) kernel_calls [101, 116, 104, 48] root_kernel = (ec, ep, k)" by (rule prod_cases3)
  then have "ec = None" by (auto simp: raw_setup_def call_eval)
  moreover have "kn_hw root_kernel (ifr_name (raw_ifreq [101, 116, 104, 48])) = [2, 0, 0, 0, 0, 1]" and "kn_open root_kernel = []"
    by (simp_all add: kn_hw_def root_kernel_def)
  ultimately show ?thesis using r raw_endpoint_setup [OF linux_raw.raw_kernel_axioms r] by simp
qed

end
