(* ===== verification/Pseudo_Terminal.thy ===== *)
theory Pseudo_Terminal
  imports Acqua_Prelude
begin

text \<open>
  Pseudo terminals (\<^verbatim>\<open>asio/basic_pseudo_terminal.hpp\<close>, \<^verbatim>\<open>asio/detail/pseudo_terminal_service.hpp\<close>): opening the two sides,
  the mode of the terminal, the name of the slave, and the descriptors of the process. The system calls and the service of Boost.Asio
  that watches a descriptor are a parameter.
\<close>

unbundle bit_operations_syntax

section \<open>System calls\<close>

record termios =
  c_iflag :: u32
  c_oflag :: u32
  c_lflag :: u32

text \<open>\<open>open\<close> gives the error number or a descriptor that is not negative; \<open>assign\<close> gives its error.\<close>

record pt_calls =
  pc_open :: "byte list \<Rightarrow> int list \<Rightarrow> nat + int"
  pc_grant :: "int \<Rightarrow> bool"
  pc_unlock :: "int \<Rightarrow> bool"
  pc_getattr :: "int \<Rightarrow> termios option"
  pc_setattr :: "int \<Rightarrow> termios \<Rightarrow> bool"
  pc_assign :: "int \<Rightarrow> nat option"
  pc_ptsname :: "int \<Rightarrow> byte list option"

datatype pt_error = Already_open | Access_denied | Bad_descriptor | Errno nat

text \<open>The object: its descriptor when it is open; the process: its open descriptors; the mode that was set last for a descriptor.\<close>

record pt_state =
  pt_impl :: "int option"
  pt_opened :: "int list"
  pt_modes :: "(int \<times> termios) list"

section \<open>The service\<close>

text \<open>
  \<open>IGNBRK\<close>, \<open>BRKINT\<close>, \<open>ICRNL\<close>, \<open>INLCR\<close>, \<open>PARMRK\<close>, \<open>INPCK\<close>, \<open>ISTRIP\<close> and \<open>IXON\<close>; \<open>ECHO\<close>, \<open>ECHONL\<close>, \<open>ICANON\<close>, \<open>ISIG\<close> and \<open>IEXTEN\<close>.
\<close>

definition iflags :: u32 where
  "iflags = 1 OR 2 OR 256 OR 64 OR 8 OR 16 OR 32 OR 1024"

definition lflags :: u32 where
  "lflags = 8 OR 64 OR 2 OR 1 OR 32768"

definition pt_raw :: "termios \<Rightarrow> termios" where
  "pt_raw c = c\<lparr>c_iflag := c_iflag c AND NOT iflags, c_oflag := 0, c_lflag := c_lflag c AND NOT lflags\<rparr>"

definition pt_is_open :: "pt_state \<Rightarrow> bool" where
  "pt_is_open st \<longleftrightarrow> pt_impl st \<noteq> None"

definition pt_open :: "pt_calls \<Rightarrow> byte list \<Rightarrow> bool \<Rightarrow> pt_state \<Rightarrow> pt_error option \<times> pt_state" where
  "pt_open pc device is_master st =
     (if pt_is_open st then (Some Already_open, st)
      else case pc_open pc device (pt_opened st) of
        Inl e \<Rightarrow> (Some (Errno e), st)
      | Inr fd \<Rightarrow>
          (let st = st\<lparr>pt_opened := fd # pt_opened st\<rparr>
           in if is_master \<and> \<not> pc_grant pc fd then (Some Access_denied, st)
              else if is_master \<and> \<not> pc_unlock pc fd then (Some Bad_descriptor, st)
              else case pc_getattr pc fd of
                None \<Rightarrow> (Some Bad_descriptor, st)
              | Some c \<Rightarrow>
                  if \<not> pc_setattr pc fd (pt_raw c) then (Some Bad_descriptor, st)
                  else let st = st\<lparr>pt_modes := (fd, pt_raw c) # pt_modes st\<rparr>
                       in case pc_assign pc fd of
                            Some e \<Rightarrow> (Some (Errno e), st\<lparr>pt_opened := remove1 fd (pt_opened st)\<rparr>)
                          | None \<Rightarrow> (None, st\<lparr>pt_impl := Some fd\<rparr>)))"

definition pt_close :: "pt_state \<Rightarrow> pt_state" where
  "pt_close st =
     (case pt_impl st of None \<Rightarrow> st | Some fd \<Rightarrow> st\<lparr>pt_impl := None, pt_opened := remove1 fd (pt_opened st)\<rparr>)"

definition pt_native_handle :: "pt_state \<Rightarrow> int" where
  "pt_native_handle st = (case pt_impl st of None \<Rightarrow> -1 | Some fd \<Rightarrow> fd)"

text \<open>\<open>slave_name\<close> of the service leaves an error code as it was when the call succeeds.\<close>

definition pt_service_slave_name :: "pt_calls \<Rightarrow> pt_state \<Rightarrow> pt_error option \<Rightarrow> byte list option \<times> pt_error option" where
  "pt_service_slave_name pc st ec =
     (case pc_ptsname pc (pt_native_handle st) of None \<Rightarrow> (None, Some Bad_descriptor) | Some name \<Rightarrow> (Some name, ec))"

section \<open>Master and slave\<close>

text \<open>\<open>/dev/ptmx\<close>.\<close>

definition dev_ptmx :: "byte list" where
  "dev_ptmx = [47, 100, 101, 118, 47, 112, 116, 109, 120]"

definition master_open :: "pt_calls \<Rightarrow> pt_state \<Rightarrow> pt_error option \<times> pt_state" where
  "master_open pc st = pt_open pc dev_ptmx True st"

text \<open>With an error code; the overload that throws has a new one.\<close>

definition master_slave_name :: "pt_calls \<Rightarrow> pt_state \<Rightarrow> pt_error option \<Rightarrow> byte list \<times> pt_error option" where
  "master_slave_name pc st ec =
     (case pt_service_slave_name pc st ec of
        (None, ec') \<Rightarrow> ([], ec')
      | (Some name, ec') \<Rightarrow> (if ec' \<noteq> None then [] else name, ec'))"

definition slave_open_device :: "pt_calls \<Rightarrow> byte list \<Rightarrow> pt_state \<Rightarrow> pt_error option \<times> pt_state" where
  "slave_open_device pc device st = pt_open pc device False st"

text \<open>\<open>open\<close> of the slave of a master, with the error that is thrown.\<close>

definition slave_open :: "pt_calls \<Rightarrow> pt_state \<Rightarrow> pt_state \<Rightarrow> pt_error option \<times> pt_state" where
  "slave_open pc master st =
     (case pt_service_slave_name pc master None of
        (None, ec) \<Rightarrow> (ec, st)
      | (Some name, ec) \<Rightarrow> slave_open_device pc name st)"

section \<open>The mode\<close>

text \<open>
  After a successful open the object has the new descriptor, which is the only change of the open descriptors and is undone by
  closing it, and the terminal has none of the flags for input and local processing, and all its others as before.
\<close>

theorem pt_open_success:
  assumes "pt_open pc device is_master st = (None, st')"
  shows "\<exists>fd c. pc_open pc device (pt_opened st) = Inr fd \<and> pc_getattr pc fd = Some c \<and> st' = \<lparr>pt_impl = Some fd, pt_opened = fd # pt_opened st,
      pt_modes = (fd, pt_raw c) # pt_modes st\<rparr>
    \<and> pt_close st' = \<lparr>pt_impl = None, pt_opened = pt_opened st, pt_modes = pt_modes st'\<rparr>
    \<and> c_iflag (pt_raw c) AND iflags = 0 \<and> c_lflag (pt_raw c) AND lflags = 0 \<and> c_oflag (pt_raw c) = 0
    \<and> (c_iflag (pt_raw c) OR (c_iflag c AND iflags)) = c_iflag c \<and> (c_lflag (pt_raw c) OR (c_lflag c AND lflags)) = c_lflag c"
proof -
  have clear: "(x AND NOT y) AND y = 0" "((x AND NOT y) OR (x AND y)) = x" for x y :: u32
    by (auto simp: bit_eq_iff bit_simps)
  show ?thesis using assms
    by (auto simp: pt_open_def pt_close_def pt_raw_def Let_def clear split: if_splits sum.splits option.splits)
qed

definition pt_example :: "bool \<Rightarrow> pt_calls" where
  "pt_example granted =
     \<lparr>pc_open = (\<lambda>device opened. if 2 \<le> length opened then Inl 24 else Inr (int (length opened))), pc_grant = (\<lambda>_. granted), pc_unlock = (\<lambda>_. True),
      pc_getattr = (\<lambda>_. Some \<lparr>c_iflag = 1280, c_oflag = 5, c_lflag = 35387\<rparr>), pc_setattr = (\<lambda>_ _. True), pc_assign = (\<lambda>_. None), pc_ptsname = (\<lambda>_. None)\<rparr>"

definition pt_closed :: pt_state where
  "pt_closed = \<lparr>pt_impl = None, pt_opened = [], pt_modes = []\<rparr>"

theorem pt_open_success_witness:
  "\<exists>st'. pt_open (pt_example True) dev_ptmx True pt_closed = (None, st') \<and> pt_opened st' = [0] \<and> pt_opened (pt_close st') = []
    \<and> c_iflag (pt_raw \<lparr>c_iflag = 1280, c_oflag = 5, c_lflag = 35387\<rparr>) AND iflags = 0"
proof -
  obtain ec st' where o: "pt_open (pt_example True) dev_ptmx True pt_closed = (ec, st')" by fastforce
  then have "ec = None" by (auto simp: pt_open_def pt_is_open_def pt_example_def pt_closed_def Let_def)
  then show ?thesis using o pt_open_success [of "pt_example True" dev_ptmx True pt_closed st'] by (auto simp: pt_example_def pt_closed_def)
qed

section \<open>Descriptors that nobody closes\<close>

text \<open>Opening a master again and again, with a close after every attempt; the results of the attempts.\<close>

fun pt_attempts :: "pt_calls \<Rightarrow> nat \<Rightarrow> pt_state \<Rightarrow> pt_error option list \<times> pt_state" where
  "pt_attempts pc 0 st = ([], st)"
| "pt_attempts pc (Suc n) st =
     (let (ec, st') = master_open pc st; (ecs, st'') = pt_attempts pc n (pt_close st') in (ec # ecs, st''))"

text \<open>A process may have \<open>limit\<close> descriptors; a new one is the number of those that are open.\<close>

definition limited_open :: "nat \<Rightarrow> byte list \<Rightarrow> int list \<Rightarrow> nat + int" where
  "limited_open limit device opened = (if limit \<le> length opened then Inl 24 else Inr (int (length opened)))"

text \<open>
  (C40) When \<open>grantpt\<close> fails, every attempt to open a master leaves a descriptor open that the object does not know: closing
  does not help, and after \<open>limit\<close> attempts the process has no descriptor left and the error is another one.
\<close>

theorem pt_open_leak:
  assumes "pc_open pc = limited_open limit" and "pc_grant pc = (\<lambda>_. False)" and "pt_impl st = None" and "length (pt_opened st) \<le> limit"
  shows "fst (pt_attempts pc n st) =
      replicate (min n (limit - length (pt_opened st))) (Some Access_denied) @ replicate (n - (limit - length (pt_opened st))) (Some (Errno 24))
    \<and> length (pt_opened (snd (pt_attempts pc n st))) = min limit (length (pt_opened st) + n) \<and> pt_impl (snd (pt_attempts pc n st)) = None"
  using assms(3,4)
proof (induction n arbitrary: st)
  case (Suc n)
  show ?case
  proof (cases "length (pt_opened st) = limit")
    case True
    then have "master_open pc st = (Some (Errno 24), st)" using assms(1) Suc.prems by (simp add: master_open_def pt_open_def pt_is_open_def limited_open_def)
    moreover have "pt_close st = st" using Suc.prems by (simp add: pt_close_def)
    ultimately show ?thesis using Suc.IH [of st] Suc.prems True by (auto simp: case_prod_beta)
  next
    case False
    let ?st = "st\<lparr>pt_opened := int (length (pt_opened st)) # pt_opened st\<rparr>"
    have "master_open pc st = (Some Access_denied, ?st)"
      using assms(1,2) Suc.prems False by (simp add: master_open_def pt_open_def pt_is_open_def limited_open_def)
    moreover have "pt_close ?st = ?st" using Suc.prems by (simp add: pt_close_def)
    moreover have "limit - length (pt_opened st) = Suc (limit - Suc (length (pt_opened st)))" using Suc.prems False by simp
    ultimately show ?thesis using Suc.IH [of ?st] Suc.prems False by (auto simp: case_prod_beta)
  qed
qed simp

theorem pt_open_leak_witness:
  "fst (pt_attempts (pt_example False) 3 pt_closed) = [Some Access_denied, Some Access_denied, Some (Errno 24)]
   \<and> length (pt_opened (snd (pt_attempts (pt_example False) 3 pt_closed))) = 2"
proof -
  have "pc_open (pt_example False) = limited_open 2" by (auto simp: pt_example_def limited_open_def fun_eq_iff)
  then show ?thesis using pt_open_leak [of "pt_example False" 2 pt_closed 3] by (simp add: pt_example_def pt_closed_def eval_nat_numeral)
qed

end
