(* ===== verification/Move_Wrapper.thy ===== *)
theory Move_Wrapper
  imports Acqua_Prelude
begin

text \<open>
  The wrapper whose copies move (\<^verbatim>\<open>utility/mref.hpp\<close>). The wrappers of a program are the cells of a store; a cell has its value, or
  \<open>None\<close> for what a move leaves behind. What is taken out of the wrappers goes to a list.
\<close>

record 'a wrappers =
  wr_cells :: "'a option list"
  wr_taken :: "'a option list"

text \<open>The constructors, by a value and by another wrapper, which is a constant in one of them.\<close>

definition wrap_new :: "'a \<Rightarrow> 'a wrappers \<Rightarrow> nat \<times> 'a wrappers" where
  "wrap_new v s = (length (wr_cells s), s\<lparr>wr_cells := wr_cells s @ [Some v]\<rparr>)"

definition wrap_copy :: "nat \<Rightarrow> 'a wrappers \<Rightarrow> nat \<times> 'a wrappers" where
  "wrap_copy i s = (length (wr_cells s), s\<lparr>wr_cells := (wr_cells s)[i := None] @ [wr_cells s ! i]\<rparr>)"

definition wrap_assign :: "nat \<Rightarrow> nat \<Rightarrow> 'a wrappers \<Rightarrow> 'a wrappers" where
  "wrap_assign i j s =
     (if i \<noteq> j then s\<lparr>wr_cells := (wr_cells s)[i := wr_cells s ! j, j := None]\<rparr> else s)"

text \<open>\<open>operator T\<close>, and the reference to the value.\<close>

definition wrap_take :: "nat \<Rightarrow> 'a wrappers \<Rightarrow> 'a option \<times> 'a wrappers" where
  "wrap_take i s = (wr_cells s ! i, s\<lparr>wr_cells := (wr_cells s)[i := None], wr_taken := wr_taken s @ [wr_cells s ! i]\<rparr>)"

definition wrap_get :: "nat \<Rightarrow> 'a wrappers \<Rightarrow> 'a option" where
  "wrap_get i s = wr_cells s ! i"

datatype 'a wrapper_op = Wrap 'a | Copy nat | Assign nat nat | Take nat

fun wrapper_step :: "'a wrapper_op \<Rightarrow> 'a wrappers \<Rightarrow> 'a wrappers" where
  "wrapper_step (Wrap v) s = snd (wrap_new v s)"
| "wrapper_step (Copy i) s = snd (wrap_copy i s)"
| "wrapper_step (Assign i j) s = wrap_assign i j s"
| "wrapper_step (Take i) s = snd (wrap_take i s)"

fun wrapper_op_ok :: "'a wrapper_op \<Rightarrow> 'a wrappers \<Rightarrow> bool" where
  "wrapper_op_ok (Wrap v) s = True"
| "wrapper_op_ok (Copy i) s = (i < length (wr_cells s))"
| "wrapper_op_ok (Assign i j) s = (i < length (wr_cells s) \<and> j < length (wr_cells s))"
| "wrapper_op_ok (Take i) s = (i < length (wr_cells s))"

fun wrapper_run :: "'a wrapper_op list \<Rightarrow> 'a wrappers \<Rightarrow> 'a wrappers option" where
  "wrapper_run [] s = Some s"
| "wrapper_run (op # ops) s = (if wrapper_op_ok op s then wrapper_run ops (wrapper_step op s) else None)"

section \<open>Owners\<close>

text \<open>How often a value is held by a wrapper or was taken out of one.\<close>

definition places :: "'a \<Rightarrow> 'a wrappers \<Rightarrow> nat" where
  "places v s = count_list (wr_cells s) (Some v) + count_list (wr_taken s) (Some v)"

fun wrapped :: "'a \<Rightarrow> 'a wrapper_op list \<Rightarrow> nat" where
  "wrapped v [] = 0"
| "wrapped v (Wrap w # ops) = of_bool (w = v) + wrapped v ops"
| "wrapped v (_ # ops) = wrapped v ops"

lemma count_list_update:
  "i < length xs \<Longrightarrow> count_list (xs[i := y]) x + of_bool (xs ! i = x) = count_list xs x + of_bool (y = x)"
proof (induction xs arbitrary: i)
  case (Cons a xs)
  then show ?case by (cases i) auto
qed simp

lemma step_places:
  assumes "wrapper_op_ok op s"
  shows "places v (wrapper_step op s) \<le> places v s + (case op of Wrap w \<Rightarrow> of_bool (w = v) | _ \<Rightarrow> 0)"
proof (cases op)
  case (Wrap w)
  then show ?thesis by (simp add: places_def wrap_new_def)
next
  case (Copy i)
  then show ?thesis using assms count_list_update [of i "wr_cells s" None "Some v"] by (auto simp: places_def wrap_copy_def)
next
  case (Assign i j)
  let ?xs = "wr_cells s"
  show ?thesis
  proof (cases "i = j")
    case False
    have "count_list (?xs[i := ?xs ! j]) (Some v) + of_bool (?xs ! i = Some v) = count_list ?xs (Some v) + of_bool (?xs ! j = Some v)"
      using assms Assign by (intro count_list_update) simp
    moreover have "count_list (?xs[i := ?xs ! j, j := None]) (Some v) + of_bool (?xs ! j = Some v) = count_list (?xs[i := ?xs ! j]) (Some v)"
      using count_list_update [of j "?xs[i := ?xs ! j]" None "Some v"] assms Assign False by simp
    ultimately show ?thesis using Assign False by (simp add: places_def wrap_assign_def)
  qed (simp add: Assign wrap_assign_def)
next
  case (Take i)
  then show ?thesis using assms count_list_update [of i "wr_cells s" None "Some v"] by (auto simp: places_def wrap_take_def)
qed

text \<open>
  In every sequence of copies, assignments and conversions a value is at no time in more places than it was wrapped: what was wrapped
  once has one owner, a wrapper or the one who took it.
\<close>

theorem wrapper_owner:
  assumes "wrapper_run ops s = Some s'"
  shows "places v s' \<le> places v s + wrapped v ops"
  using assms
proof (induction ops arbitrary: s)
  case (Cons op ops)
  then have ok: "wrapper_op_ok op s" and "places v s' \<le> places v (wrapper_step op s) + wrapped v ops" by (simp_all split: if_splits)
  then show ?case using step_places [OF ok, of v] by (cases op) auto
qed simp

theorem wrapper_owner_witness:
  "let s = \<lparr>wr_cells = [], wr_taken = []\<rparr> in
   wrapper_run [Wrap 7, Copy 0, Take 1, Take 0] s = Some \<lparr>wr_cells = [None, None], wr_taken = [Some (7 :: int), None]\<rparr>
   \<and> places (7 :: int) \<lparr>wr_cells = [None, None], wr_taken = [Some 7, None]\<rparr> \<le> 1"
proof -
  have run: "wrapper_run [Wrap 7, Copy 0, Take 1, Take 0] \<lparr>wr_cells = [], wr_taken = []\<rparr>
      = Some \<lparr>wr_cells = [None, None], wr_taken = [Some (7 :: int), None]\<rparr>"
    by (simp add: wrap_new_def wrap_copy_def wrap_take_def)
  show ?thesis using wrapper_owner [OF run, of 7] run by (simp add: places_def)
qed

end
