(* ===== verification/Spec2Isabelle.thy ===== *)
theory Spec2Isabelle
  imports Prefix_Address Parse Lru_Cache Json_Parser Email_Roundtrip Smtp_Client Beat_Timer Server Recursive_Iterator Http_Request Http_Client
    Email_Address Text_Utility Network_Interface Inotify_Service Netlink Irc_Client Log_Core Hash_Filter Raw_Endpoint Pseudo_Terminal Move_Wrapper
begin

text \<open>
  Verification of the C++ library \<open>acqua\<close> (directory \<^verbatim>\<open>include/acqua\<close>): network addresses
  and packet headers, containers, stream filters, the JSON parser, mail, the clients and servers on Boost.Asio, the listeners of the
  Linux kernel, logging and the small utilities.

  \<^bold>\<open>Conventions.\<close> A byte is an \<open>8 word\<close>; arrays and strings are lists of bytes. Integers of the
  source keep their width where they can wrap. Exceptions, error codes, undefined behaviour (an
  overrun, a signed overflow) and an endless loop are values of the model: \<open>Inl\<close> of an error, \<open>None\<close>,
  or a constructor of their own. Objects with operations that change them are records that the
  operations return updated. Third-party code (Boost.Locale, Boost.Spirit, \<open>iequals\<close>, hash functions,
  sinks and sources of streams) is an argument of the definitions that use it; what is required of it
  is a locale, interpreted on a concrete instance.

  \<^bold>\<open>Foundations.\<close> \<open>Acqua_Prelude\<close>: byte lists as numbers, lemmas on lists and words. \<open>Ctype\<close>:
  the character classes of the classic locale. \<open>Byte_Sink\<close>: sinks of characters and the base
  class of the encoders that breaks lines (\<^verbatim>\<open>iostreams/newline_category.hpp\<close>).

  \<^bold>\<open>Addresses\<close> (\<^verbatim>\<open>network/detail/address_impl.hpp\<close>, \<^verbatim>\<open>internet4_address.ipp\<close>,
  \<^verbatim>\<open>internet6_address.ipp\<close>, \<^verbatim>\<open>linklayer_address.ipp\<close>, \<^verbatim>\<open>basic_prefix_address.ipp\<close>).
  \<open>Address_Impl\<close> has the shared arithmetic on byte arrays, \<open>Address_Spec\<close> the interface
  that the three classes instantiate (\<open>Internet4\<close>, \<open>Internet6\<close>, \<open>Linklayer\<close>) and \<open>Prefix_Address\<close> the
  networks. Shown: increment and decrement are inverse and cycle, offsets on every branch (negative
  ones are applied twice), netmasks, text round trips, prefixes, and for which operands the
  loops of the prefix offsets end.

  \<^bold>\<open>Packets\<close> (\<^verbatim>\<open>network/*_header.ipp\<close>, \<^verbatim>\<open>network/ethernet_arp.ipp\<close>,
  \<^verbatim>\<open>network/detail/checkable.hpp\<close>, \<^verbatim>\<open>network/detail/pseudo_header.hpp\<close>,
  \<^verbatim>\<open>network/parse.hpp\<close>). \<open>Header_Field\<close> is the contract of an accessor pair, \<open>Headers\<close> the accessors
  of all headers, \<open>Checksum\<close> the checksum methods, \<open>Parse\<close> the walk from one header to the next. Shown: the
  accessor pairs are fields at their places, computed checksums are accepted and changes are
  detected, the headers of a well-formed frame are found, the bounds of the parser and where they fail.

  \<^bold>\<open>Containers\<close> (\<^verbatim>\<open>container/sequenced_map.hpp\<close>, \<^verbatim>\<open>container/lru_map.hpp\<close>,
  \<^verbatim>\<open>container/lru_set.hpp\<close>, the timed variants and \<^verbatim>\<open>container/detail\<close>). \<open>Sequenced_Map\<close>: the map
  and multimap that keep the order of insertion, iterators being positions. \<open>Lru_Cache\<close>: the list of nodes and
  the hash index, and the four containers on top of them; shown are the refinement of a
  recency list, the consistency of list and index, and that shrinking ends.

  \<^bold>\<open>Stream filters\<close> (\<^verbatim>\<open>iostreams/base64_filter.hpp\<close>, \<^verbatim>\<open>iostreams/qprint_filter.hpp\<close>,
  \<^verbatim>\<open>iostreams/ascii_filter.hpp\<close>): \<open>Base64\<close>, \<open>Qprint\<close>, \<open>Ascii_Filter\<close>. Shown: decoding inverts encoding
  for the filters where it does, line lengths (and for which line sizes they are exceeded), that reading and writing agree, that
  a decoder as in RFC 2045, which deletes blanks at the ends of lines, gets the text from the quoted-printable encoder but for the
  blanks that the encoder leaves at its end, and on which inputs the quoted-printable decoder of the library is wrong.

  \<^bold>\<open>JSON\<close> (\<^verbatim>\<open>iostreams/json_parser.ipp\<close>, \<^verbatim>\<open>iostreams/json_adapt_boost_ptree.hpp\<close>): \<open>Json_Parser\<close> has the
  stack machine with its element parsers, and the adapter that keeps null, booleans and numbers as texts in a property tree; the
  texts of \<^verbatim>\<open>std::to_string\<close> for doubles and the bytes of UTF-16 units are the parameter \<open>json_lib\<close>. Shown: the text of every value is
  parsed to its tree, \<open>write\<close> returns on every input, and the deviations from the JSON grammar.

  \<^bold>\<open>Mail\<close> (\<^verbatim>\<open>email/headers.hpp\<close>, \<^verbatim>\<open>email/detail/encoding.hpp\<close>, \<^verbatim>\<open>email/encode_mimeheader.ipp\<close>,
  \<^verbatim>\<open>email/decode_mimeheader.ipp\<close>, \<^verbatim>\<open>email/message.hpp\<close>, \<^verbatim>\<open>email/email_parser.ipp\<close>). \<open>Email_Headers\<close>: headers and
  their parameters on the sequenced maps, the choice of the transfer encoding. \<open>Mime_Header\<close>: encoded words,
  percent encoding, folding, and the grammar of the parameters. \<open>Email_Parser\<close>: the incremental parser, which uses all of them and the filters.
  Shown: round trips of the header encodings (encoded words through the encoder and the parser with its unfolding), for which
  parameters the loop over a field ends, independence of the parser from how its input is cut, unfolding of
  headers, that the parser never makes a sub-part.

  \<open>Email_Generator\<close> (\<^verbatim>\<open>email/email_generator.ipp\<close>) is the reader that gives the text of a mail, and \<open>Email_Roundtrip\<close> feeds it to the
  parser: the mail that was generated is parsed to the same headers and payload. \<open>Email_Address\<close> (\<^verbatim>\<open>email/address.ipp\<close>):
  both address grammars with the attributes that failed alternatives leave, and lists of addresses, which are read back.

  \<^bold>\<open>Code conversion\<close> (\<^verbatim>\<open>iostreams/ostream_codecvt.hpp\<close>, \<^verbatim>\<open>iostreams/istream_codecvt.hpp\<close>): \<open>Codecvt\<close>, the streams in front of a
  converter that is a parameter. Shown: the output does not depend on the pieces that are written, the input is read whole, and
  what is lost when it is not.

  \<^bold>\<open>Iterators and utilities.\<close> \<open>Recursive_Iterator\<close> (\<^verbatim>\<open>container/recursive_iterator.hpp\<close>): the walk over a tree of containers, which
  visits the tree in pre-order or does not end. \<open>Text_Utility\<close> (\<^verbatim>\<open>utility/hexdump.hpp\<close>,
  \<^verbatim>\<open>utility/string_cast.hpp\<close>) and \<open>Move_Wrapper\<close> (\<^verbatim>\<open>utility/mref.hpp\<close>): a dump against its reference, conversions
  between UTF-8 and UTF-32, and that a wrapped value has one owner.

  \<^bold>\<open>Clients and servers.\<close> The network of these theories is the list of what the peer sends, and a handler of
  Boost.Asio is a step. \<open>Smtp_Client\<close> (\<^verbatim>\<open>asio/smtp/client.ipp\<close>, \<^verbatim>\<open>utility/hexstring.hpp\<close>): the session with its features and
  errors; after STARTTLS everything goes through TLS, credentials too. \<open>Irc_Client\<close> (\<^verbatim>\<open>asio/irc/client.hpp\<close>): the lines of both
  directions; a message that one client says arrives at another, however the stream is cut. \<open>Http_Response\<close>,
  \<open>Http_Request\<close>, \<open>Http_Client\<close> (\<^verbatim>\<open>webclient\<close>): reading of a response with what is left behind it (and what becomes of compressed ones), the request after a redirection, and the
  pool of connections with its condition variable, whose accounts hold in every run and in which no caller waits for ever unless a call
  ended with an exception. \<open>Server\<close> (\<^verbatim>\<open>asio/detail/simple_server_base.hpp\<close>, \<^verbatim>\<open>asio/simple_server.hpp\<close>,
  \<^verbatim>\<open>asio/internet_server.hpp\<close>): the step relation of the acceptors, the count of the
  connections and its limit. \<open>Beat_Timer\<close> (\<^verbatim>\<open>asio/beat_timer.hpp\<close>): requests for a timer in every order, of which
  every one is accounted for, and the cancellation after which none is answered.

  \<^bold>\<open>The kernel.\<close> \<open>Host_Words\<close>: integers in the memory of the host. \<open>Network_Interface\<close> (\<^verbatim>\<open>network/interface.ipp\<close>,
  \<^verbatim>\<open>network/detail/impl/ifreq_opts.ipp\<close>): the list of interfaces and their options; the system calls are the parameter of
  the locale \<open>if_kernel\<close>, interpreted on a kernel with a table of descriptors. \<open>Raw_Endpoint\<close> (\<^verbatim>\<open>asio/raw.hpp\<close>,
  \<^verbatim>\<open>asio/socket_base/membership.hpp\<close>) is a second client of this locale. \<open>Inotify\<close> (\<^verbatim>\<open>asio/inotify_listener.hpp\<close>) and \<open>Inotify_Service\<close>
  (\<^verbatim>\<open>asio/detail/inotify_service.hpp\<close>): events in buffers of bytes, their callbacks and results, and the
  map of watches against the kernel. \<open>Netlink\<close> (\<^verbatim>\<open>asio/netlink\<close>): messages and attributes with the lengths of the kernel
  headers, the calls for the neighbors of both families, and where the loops read behind a message. \<open>Pseudo_Terminal\<close> (\<^verbatim>\<open>asio/detail/pseudo_terminal_service.hpp\<close>,
  \<^verbatim>\<open>asio/basic_pseudo_terminal.hpp\<close>): the mode of the terminal, and the descriptors that a failed open leaves.

  \<^bold>\<open>Logging\<close> (\<^verbatim>\<open>log/detail/formatter.hpp\<close>, \<^verbatim>\<open>log/core.hpp\<close> and the other files of \<^verbatim>\<open>log\<close>). \<open>Log_Format\<close>: a format as the list
  of what it does with the stream, and the stream with width, filling and failure. \<open>Log_Core\<close>: loggers, their
  registry, lines and sinks; the locale \<open>tag_registry\<close> is the contract of the registry. Shown: the line of the default format, that a tag
  keeps its logger, what every run of clients keeps, and which lines are lost.

  \<^bold>\<open>Digests\<close> (\<^verbatim>\<open>iostreams/crypto\<close>): \<open>Hash_Filter\<close>, the filter around a hash function that is a parameter; the digest is that of
  everything that went through, over any number of writes and reads, except for sinks that take less than they are given.

  \<^bold>\<open>Fuel and bounds.\<close> \<open>rfc2231_loop\<close> runs on fuel because the loop of the source need not end: the fuel
  that is enough, and that no fuel is enough on other inputs, is a theorem. The readers of the
  decoders (\<open>ascii_read\<close>, the input side of base64) have fuel for the number of calls and the theorems give
  the amount, as for the callers of the hash filter. The write loops of the JSON and mail parsers and the loops of the
  containers are total functions with a termination proof, or relations with a proof that they end.

  \<^bold>\<open>Not modelled.\<close> \<^verbatim>\<open>asio/icmp\<close>: every send of the pinger writes behind its buffer and unlocks a mutex twice, so that no
  request has a defined outcome and nothing can be said of replies. \<^verbatim>\<open>utility/backtrace.hpp\<close>, which reads frames that were
  never written. The functions that only forward to Boost.Asio (\<^verbatim>\<open>asio/write.hpp\<close>, the traits, the reads and writes of a pseudo
  terminal), the moves of an implementation of the inotify service (they leave iterators into another object), payloads of mails in
  files and the converter behind the mail parser, the time limits and certificates of the HTTP client, the wide character
  instances, and races between threads except where a theorem names them.
\<close>

end
